(* ===== verification/Prelude.thy ===== *)
theory Prelude
  imports
    Complex_Main
    "HOL-Library.Char_ord"
    "HOL-Library.List_Lexorder"
    "HOL-Library.AList"
begin

text \<open>
  Shared vocabulary of the development: results with errors as values, the exceptions of the
  executor (\<open>executor/errors.py\<close>), Python text operations, and JSON-like values.

  Conventions used by every theory:

  \<^item> A Python \<open>str\<close> is its UTF-8 encoding, a list of 8-bit characters.  Searching, replacing,
    splitting on ASCII separators and comparing commute with the encoding, so these operations
    are the Python ones; \<open>len\<close> counts code points and is \<open>py_len\<close> below, not \<open>length\<close>.  A Python
    \<open>bytes\<close> value is a list of characters too, and \<open>s.encode("utf-8")\<close> is the identity.
  \<^item> \<open>casefold\<close>, \<open>lower\<close>, \<open>upper\<close> and \<open>strip\<close> act on ASCII characters and leave every other
    byte alone; Unicode case folding outside ASCII is not modelled.
  \<^item> \<open>raise\<close> is the left injection of a sum type.  The text of a message is kept only where
    control flow depends on it.
\<close>

named_theorems res_simps \<open>rules for results: binding, guards, folding\<close>
named_theorems text_simps \<open>rules for Python text operations\<close>

section \<open>Results\<close>

definition rbind :: "'e + 'a \<Rightarrow> ('a \<Rightarrow> 'e + 'b) \<Rightarrow> 'e + 'b" where
  "rbind r f = (case r of Inl e \<Rightarrow> Inl e | Inr x \<Rightarrow> f x)"

definition ensure :: "bool \<Rightarrow> 'e \<Rightarrow> 'e + unit" where
  "ensure b e = (if b then Inr () else Inl e)"

lemma rbind_simps [simp, res_simps]:
  "rbind (Inl e) f = Inl e"
  "rbind (Inr x) f = f x"
  by (simp_all add: rbind_def)

lemma rbind_eq_Inr [simp, res_simps]:
  "rbind r f = Inr y \<longleftrightarrow> (\<exists>x. r = Inr x \<and> f x = Inr y)"
  by (cases r) auto

lemma rbind_eq_Inl [res_simps]:
  "rbind r f = Inl e \<longleftrightarrow> r = Inl e \<or> (\<exists>x. r = Inr x \<and> f x = Inl e)"
  by (cases r) auto

lemma ensure_simps [simp, res_simps]:
  "ensure True e = Inr ()"
  "ensure False e = Inl e"
  "ensure b e = Inr u \<longleftrightarrow> b"
  "ensure b e = Inl e' \<longleftrightarrow> \<not> b \<and> e' = e"
  by (auto simp: ensure_def)

lemma ensure_bind [res_simps]:
  "rbind (ensure b e) f = (if b then f () else Inl e)"
  by (simp add: ensure_def)

text \<open>The successful run of a sequence, one step at a time.\<close>

lemma ensure_InrE: "rbind (ensure b e) f = Inr y \<Longrightarrow> (b \<Longrightarrow> f () = Inr y \<Longrightarrow> P) \<Longrightarrow> P"
  by (auto simp: ensure_def split: if_splits)

lemma rbind_InrE: "rbind r f = Inr y \<Longrightarrow> (\<And>x. r = Inr x \<Longrightarrow> f x = Inr y \<Longrightarrow> P) \<Longrightarrow> P"
  by (cases r) auto

fun isOK :: "'e + 'a \<Rightarrow> bool" where
  "isOK (Inl e) = False"
| "isOK (Inr x) = True"

lemma isOK_iff: "isOK r \<longleftrightarrow> (\<exists>x. r = Inr x)"
  by (cases r) auto

lemma isOK_projr: "isOK r \<Longrightarrow> r = Inr (projr r)"
  by (cases r) auto

lemma not_isOK_iff: "\<not> isOK r \<longleftrightarrow> (\<exists>e. r = Inl e)"
  by (cases r) auto

text \<open>A loop whose body may raise: the first error stops it.\<close>

fun fold_res :: "('a \<Rightarrow> 's \<Rightarrow> 'e + 's) \<Rightarrow> 'a list \<Rightarrow> 's \<Rightarrow> 'e + 's" where
  "fold_res f [] s = Inr s"
| "fold_res f (x # xs) s = rbind (f x s) (fold_res f xs)"

text \<open>Steps on a state that keeps what the steps before a failure have done to it.\<close>

definition sbind :: "('e + 'a) \<times> 's \<Rightarrow> ('a \<Rightarrow> 's \<Rightarrow> ('e + 'b) \<times> 's) \<Rightarrow> ('e + 'b) \<times> 's" where
  "sbind r f = (case r of (Inl e, s) \<Rightarrow> (Inl e, s) | (Inr x, s) \<Rightarrow> f x s)"

lemma sbind_simps [simp, res_simps]:
  "sbind (Inl e, s) f = (Inl e, s)"
  "sbind (Inr x, s) f = f x s"
  by (simp_all add: sbind_def)

lemma sbind_eq_Inr [simp, res_simps]:
  "sbind r f = (Inr y, s') \<longleftrightarrow> (\<exists>x s. r = (Inr x, s) \<and> f x s = (Inr y, s'))"
  by (cases r; cases "fst r") auto

fun run_steps :: "('a \<Rightarrow> 's \<Rightarrow> 'e + 's) \<Rightarrow> 'a list \<Rightarrow> 's \<Rightarrow> ('e + unit) \<times> 's" where
  "run_steps f [] s = (Inr (), s)"
| "run_steps f (x # xs) s = (case f x s of Inl e \<Rightarrow> (Inl e, s) | Inr s' \<Rightarrow> run_steps f xs s')"

lemma run_steps_Inr [simp, res_simps]: "run_steps f xs s = (Inr u, s') \<longleftrightarrow> fold_res f xs s = Inr s'"
  by (induction xs arbitrary: s) (auto simp: rbind_def split: sum.splits)

lemma fold_res_append:
  "fold_res f (xs @ ys) s = rbind (fold_res f xs s) (fold_res f ys)"
  by (induction xs arbitrary: s) (auto simp: rbind_def split: sum.splits)

lemma fold_res_invariant:
  assumes "fold_res f xs s = Inr s'" and "P s"
    and "\<And>x s s'. x \<in> set xs \<Longrightarrow> P s \<Longrightarrow> f x s = Inr s' \<Longrightarrow> P s'"
  shows "P s'"
  using assms
proof (induction xs arbitrary: s)
  case Nil
  then show ?case by simp
next
  case (Cons x xs)
  from Cons.prems(1) obtain t where t: "f x s = Inr t" "fold_res f xs t = Inr s'"
    by auto
  have "P t" using Cons.prems(3)[of x s t] Cons.prems(2) t(1) by simp
  with t(2) show ?case by (rule Cons.IH) (use Cons.prems(3) in auto)
qed

fun map_res :: "('a \<Rightarrow> 'e + 'b) \<Rightarrow> 'a list \<Rightarrow> 'e + 'b list" where
  "map_res f [] = Inr []"
| "map_res f (x # xs) = rbind (f x) (\<lambda>y. rbind (map_res f xs) (\<lambda>ys. Inr (y # ys)))"

lemma map_res_Inr: "map_res f xs = Inr ys \<longleftrightarrow> list_all2 (\<lambda>x y. f x = Inr y) xs ys"
  by (induction xs arbitrary: ys) (auto simp: list_all2_Cons1)

lemma map_res_distinct: "map_res f xs = Inr ys \<Longrightarrow> distinct ys \<Longrightarrow> distinct xs"
proof (induction xs arbitrary: ys)
  case (Cons x xs)
  then obtain y zs where y: "ys = y # zs" "f x = Inr y" "map_res f xs = Inr zs" by auto
  have "x \<notin> set xs"
  proof
    assume "x \<in> set xs"
    with y(2,3) have "y \<in> set zs" by (auto simp: map_res_Inr list_all2_conv_all_nth in_set_conv_nth)
    with y(1) Cons.prems(2) show False by simp
  qed
  with Cons y show ?case by simp
qed simp

lemma map_res_length: "map_res f xs = Inr ys \<Longrightarrow> length ys = length xs"
  by (simp add: map_res_Inr list_all2_lengthD)

section \<open>Exceptions\<close>

text \<open>The stable tool error codes of \<open>executor/errors.py\<close>.\<close>

datatype err_code =
    INVALID_ARGUMENTS | PATH_MISSING | PATH_INVALID_TYPE | PATH_INVALID | PATH_UNSAFE
  | LIMIT_EXCEEDED | INVALID_UTF8 | WORKING_DIRECTORY_INVALID | COMMAND_INVALID_ARGUMENTS
  | STAGING_CONFLICT | STAGING_SHRINK_WARNING | EDIT_NO_MATCH | EDIT_TOO_MANY_MATCHES
  | EDIT_TOO_FEW_MATCHES | EDIT_MALFORMED_CONTEXT | APPLY_PATCH_MALFORMED | CHECKPOINT_CORRUPT
  | CHECKPOINT_NOT_FOUND | PERMISSION_DENIED | TOOL_TIMEOUT | IO_INTERNAL | TOOL_INTERNAL

text \<open>
  The exceptions the modelled code raises: an \<open>ExecutorToolError\<close> with its code (an
  \<open>UnsafePath\<close> is one with \<open>path.unsafe\<close>), the operating-system errors that the code tells
  apart, and the standard library's argument errors.
\<close>

datatype exn =
    ToolError err_code
  | PermissionErr | TimeoutErr | UnicodeErr | FileNotFound | IsADirectory | NotADirectory
  | OSErr (out_of_space: bool) | ValueErr | TypeErr
  | AttributeErr | KeyErr | IndexErr | OverflowErr | OtherErr

definition UnsafePath :: exn where
  "UnsafePath = ToolError PATH_UNSAFE"

fun classify_error :: "exn \<Rightarrow> err_code" where
  "classify_error (ToolError c) = c"
| "classify_error PermissionErr = PERMISSION_DENIED"
| "classify_error TimeoutErr = TOOL_TIMEOUT"
| "classify_error UnicodeErr = INVALID_UTF8"
| "classify_error FileNotFound = PATH_MISSING"
| "classify_error IsADirectory = PATH_INVALID_TYPE"
| "classify_error NotADirectory = PATH_INVALID_TYPE"
| "classify_error (OSErr cap) = (if cap then LIMIT_EXCEEDED else IO_INTERNAL)"
| "classify_error ValueErr = INVALID_ARGUMENTS"
| "classify_error TypeErr = INVALID_ARGUMENTS"
| "classify_error AttributeErr = TOOL_INTERNAL"
| "classify_error KeyErr = TOOL_INTERNAL"
| "classify_error IndexErr = TOOL_INTERNAL"
| "classify_error OverflowErr = TOOL_INTERNAL"
| "classify_error OtherErr = TOOL_INTERNAL"

text \<open>Python's \<open>except OSError\<close>: every operating-system error, not the tool's own.\<close>

fun is_os_error :: "exn \<Rightarrow> bool" where
  "is_os_error PermissionErr = True"
| "is_os_error TimeoutErr = True"
| "is_os_error FileNotFound = True"
| "is_os_error IsADirectory = True"
| "is_os_error NotADirectory = True"
| "is_os_error (OSErr _) = True"
| "is_os_error _ = False"

section \<open>Text\<close>

definition ord :: "char \<Rightarrow> nat" where
  "ord c = of_char c"

definition ascii_lower :: "char \<Rightarrow> char" where
  "ascii_lower c = (if 65 \<le> ord c \<and> ord c \<le> 90 then char_of (ord c + 32) else c)"

definition ascii_upper :: "char \<Rightarrow> char" where
  "ascii_upper c = (if 97 \<le> ord c \<and> ord c \<le> 122 then char_of (ord c - 32) else c)"

definition casefold :: "string \<Rightarrow> string" where
  "casefold s = map ascii_lower s"

definition upper :: "string \<Rightarrow> string" where
  "upper s = map ascii_upper s"

definition is_digit :: "char \<Rightarrow> bool" where
  "is_digit c \<longleftrightarrow> 48 \<le> ord c \<and> ord c \<le> 57"

definition is_lower :: "char \<Rightarrow> bool" where
  "is_lower c \<longleftrightarrow> 97 \<le> ord c \<and> ord c \<le> 122"

definition is_alpha :: "char \<Rightarrow> bool" where
  "is_alpha c \<longleftrightarrow> is_lower c \<or> 65 \<le> ord c \<and> ord c \<le> 90"

lemma ord_inject: "ord c = ord d \<longleftrightarrow> c = d"
  by (simp add: ord_def)

lemma ord_ascii_lower:
  "ord (ascii_lower c) = (if 65 \<le> ord c \<and> ord c \<le> 90 then ord c + 32 else ord c)"
  by (simp add: ascii_lower_def ord_def)

lemma ascii_lower_eq_iff:
  "ord d < 65 \<or> 90 < ord d \<and> ord d < 97 \<or> 122 < ord d \<Longrightarrow> ascii_lower c = d \<longleftrightarrow> c = d"
  by (auto simp: ord_ascii_lower simp flip: ord_inject split: if_splits)

lemma ascii_lower_idem [simp]: "ascii_lower (ascii_lower c) = ascii_lower c"
  by (simp add: ord_ascii_lower flip: ord_inject)

lemma casefold_idem [simp]: "casefold (casefold s) = casefold s"
  by (simp add: casefold_def)

lemma casefold_Nil [simp]: "casefold [] = []" and casefold_eq_Nil [simp]: "casefold s = [] \<longleftrightarrow> s = []"
  by (simp_all add: casefold_def)

lemma casefold_append [simp, text_simps]: "casefold (a @ b) = casefold a @ casefold b"
  by (simp add: casefold_def)

text \<open>ASCII white space as \<open>str.isspace\<close> sees it: tab to carriage return, file to unit
  separator, and the blank.\<close>

definition is_space :: "char \<Rightarrow> bool" where
  "is_space c \<longleftrightarrow> 9 \<le> ord c \<and> ord c \<le> 13 \<or> 28 \<le> ord c \<and> ord c \<le> 32"

text \<open>\<open>len\<close> of a \<open>str\<close>: code points, that is, bytes that do not continue a UTF-8 sequence.\<close>

definition py_len :: "string \<Rightarrow> nat" where
  "py_len s = length (filter (\<lambda>c. \<not> (128 \<le> ord c \<and> ord c < 192)) s)"

lemma py_len_le: "py_len s \<le> length s"
  by (simp add: py_len_def)

abbreviation NUL :: char where "NUL \<equiv> CHR 0x00"
abbreviation LF :: char where "LF \<equiv> CHR 0x0A"
abbreviation CR :: char where "CR \<equiv> CHR 0x0D"
abbreviation BACKSLASH :: char where "BACKSLASH \<equiv> CHR 0x5C"
abbreviation DQUOTE :: char where "DQUOTE \<equiv> CHR 0x22"
abbreviation SQUOTE :: char where "SQUOTE \<equiv> CHR 0x27"

definition startswith :: "string \<Rightarrow> string \<Rightarrow> bool" where
  "startswith s p \<longleftrightarrow> take (length p) s = p"

definition endswith :: "string \<Rightarrow> string \<Rightarrow> bool" where
  "endswith s p \<longleftrightarrow> length p \<le> length s \<and> drop (length s - length p) s = p"

lemma startswith_iff: "startswith s p \<longleftrightarrow> (\<exists>t. s = p @ t)"
  unfolding startswith_def by (metis append_eq_conv_conj append_take_drop_id)

lemma startswith_length: "startswith s p \<Longrightarrow> length p \<le> length s"
  by (auto simp: startswith_iff)

lemma drop_startswith_shorter:
  "p \<noteq> [] \<Longrightarrow> startswith s p \<Longrightarrow> length s - length p < length s"
  by (cases p) (auto simp: startswith_iff)

lemma startswith_Nil [simp]: "startswith s []"
  by (simp add: startswith_def)

lemma startswith_Cons [simp]:
  "startswith [] (c # p) = False"
  "startswith (x # s) (c # p) \<longleftrightarrow> x = c \<and> startswith s p"
  by (auto simp: startswith_def)

lemma startswith_append_self [simp]: "startswith (p @ t) p"
  by (simp add: startswith_def)

fun contains :: "string \<Rightarrow> string \<Rightarrow> bool" where
  "contains s p = (startswith s p \<or> (case s of [] \<Rightarrow> False | _ # t \<Rightarrow> contains t p))"

text \<open>\<open>s.split(sep)\<close> for a one-character separator: never empty.\<close>

fun split_on :: "char \<Rightarrow> string \<Rightarrow> string list" where
  "split_on c [] = [[]]"
| "split_on c (x # xs) =
     (if x = c then [] # split_on c xs
      else (case split_on c xs of [] \<Rightarrow> [[x]] | h # t \<Rightarrow> (x # h) # t))"

fun join :: "string \<Rightarrow> string list \<Rightarrow> string" where
  "join sep [] = []"
| "join sep [x] = x"
| "join sep (x # y # ys) = x @ sep @ join sep (y # ys)"

lemma split_on_not_Nil [simp]: "split_on c s \<noteq> []"
  by (induction s) (auto split: list.splits)

lemma split_on_free: "p \<in> set (split_on c s) \<Longrightarrow> c \<notin> set p"
  by (induction s arbitrary: p) (auto split: list.splits if_splits)

lemma join_split_on [simp]: "join [c] (split_on c s) = s"
proof (induction s)
  case (Cons x xs)
  obtain h t where ht: "split_on c xs = h # t"
    by (meson split_on_not_Nil neq_Nil_conv)
  with Cons.IH show ?case by (cases t) auto
qed simp

lemma split_on_append_sep:
  "c \<notin> set p \<Longrightarrow> split_on c (p @ c # s) = p # split_on c s"
  by (induction p) auto

lemma split_on_single: "c \<notin> set p \<Longrightarrow> split_on c p = [p]"
  by (induction p) auto

lemma split_on_join:
  "ps \<noteq> [] \<Longrightarrow> \<forall>p\<in>set ps. c \<notin> set p \<Longrightarrow> split_on c (join [c] ps) = ps"
proof (induction ps)
  case (Cons p ps)
  then show ?case
    by (cases ps) (simp_all add: split_on_single split_on_append_sep)
qed simp

definition lstrip :: "string \<Rightarrow> string" where
  "lstrip s = dropWhile is_space s"

definition strip :: "string \<Rightarrow> string" where
  "strip s = rev (dropWhile is_space (rev (lstrip s)))"

lemma strip_decomp: "\<exists>a b. s = a @ strip s @ b"
proof -
  have "s = takeWhile is_space s @ lstrip s" by (simp add: lstrip_def)
  moreover have "lstrip s = strip s @ rev (takeWhile is_space (rev (lstrip s)))"
    unfolding strip_def by (metis rev_append rev_rev_ident takeWhile_dropWhile_id)
  ultimately show ?thesis by metis
qed

lemma strip_subset: "set (strip s) \<subseteq> set s"
proof -
  obtain a b where "s = a @ strip s @ b" using strip_decomp by blast
  then show ?thesis by (metis Un_iff set_append subsetI)
qed

lemma py_len_append [simp]: "py_len (a @ b) = py_len a + py_len b"
  by (simp add: py_len_def)

lemma py_len_strip: "py_len (strip s) \<le> py_len s"
  using strip_decomp[of s] by (metis le_add1 le_add2 order_trans py_len_append)

lemma last_strip: "strip s \<noteq> [] \<Longrightarrow> \<not> is_space (last (strip s))"
  by (simp add: strip_def hd_dropWhile last_rev)

lemma hd_strip: "strip s \<noteq> [] \<Longrightarrow> \<not> is_space (hd (strip s))"
proof -
  assume ne: "strip s \<noteq> []"
  obtain b where b: "lstrip s = strip s @ b"
    unfolding strip_def by (metis rev_append rev_rev_ident takeWhile_dropWhile_id)
  with ne have "lstrip s \<noteq> []" "hd (lstrip s) = hd (strip s)" by auto
  then show ?thesis by (metis hd_dropWhile lstrip_def)
qed

lemma strip_fixed: "s \<noteq> [] \<Longrightarrow> \<not> is_space (hd s) \<Longrightarrow> \<not> is_space (last s) \<Longrightarrow> strip s = s"
proof -
  assume "s \<noteq> []" "\<not> is_space (hd s)" "\<not> is_space (last s)"
  then have "lstrip s = s" by (cases s) (simp_all add: lstrip_def)
  moreover have "dropWhile is_space (rev s) = rev s"
    using \<open>s \<noteq> []\<close> \<open>\<not> is_space (last s)\<close> by (cases s rule: rev_cases) simp_all
  ultimately show ?thesis by (simp add: strip_def)
qed

lemma strip_idem [simp]: "strip (strip s) = strip s"
proof (cases "strip s = []")
  case False
  then show ?thesis by (intro strip_fixed hd_strip last_strip)
next
  case True
  have "strip [] = []" by (simp add: strip_def lstrip_def)
  with True show ?thesis by simp
qed

lemma is_space_ascii_lower [simp]: "is_space (ascii_lower c) = is_space c"
  by (auto simp: is_space_def ord_ascii_lower)

lemma strip_casefold: "strip (casefold s) = casefold (strip s)"
proof -
  have dw: "dropWhile is_space (map ascii_lower xs) = map ascii_lower (dropWhile is_space xs)" for xs
    by (induction xs) auto
  show ?thesis unfolding strip_def lstrip_def casefold_def dw rev_map dw by (simp add: rev_map)
qed

lemma py_len_casefold [simp]: "py_len (casefold s) = py_len s"
  by (induction s) (auto simp: py_len_def casefold_def ord_ascii_lower)

text \<open>\<open>s.split()\<close>: the words between runs of white space, and \<open>" ".join(s.split())\<close>.\<close>

fun words_aux :: "string \<Rightarrow> string \<Rightarrow> string list" where
  "words_aux w [] = (if w = [] then [] else [rev w])"
| "words_aux w (c # cs) =
     (if is_space c then (if w = [] then words_aux [] cs else rev w # words_aux [] cs)
      else words_aux (c # w) cs)"

definition py_words :: "string \<Rightarrow> string list" where
  "py_words s = words_aux [] s"

definition collapse_spaces :: "string \<Rightarrow> string" where
  "collapse_spaces s = join '' '' (py_words s)"

text \<open>\<open>dict.fromkeys\<close> on a sequence: first occurrences, in order.\<close>

definition dedup :: "'a list \<Rightarrow> 'a list" where
  "dedup xs = rev (remdups (rev xs))"

lemma set_dedup [simp]: "set (dedup xs) = set xs"
  by (simp add: dedup_def)

lemma distinct_dedup [simp]: "distinct (dedup xs)"
  by (simp add: dedup_def)

lemma dedup_distinct [simp]: "distinct xs \<Longrightarrow> dedup xs = xs"
  by (simp add: dedup_def distinct_remdups_id)

text \<open>\<open>sorted(paths, key=str.casefold)\<close>.  Iterating a Python \<open>set\<close> has no defined order, so the
  order of two paths with the same folded form is the one of the list given.\<close>

definition sort_paths :: "string list \<Rightarrow> string list" where
  "sort_paths ps = sort_key casefold (remdups ps)"

lemma set_sort_paths [simp]: "set (sort_paths ps) = set ps"
  by (simp add: sort_paths_def)

lemma distinct_sort_paths [simp]: "distinct (sort_paths ps)"
  by (simp add: sort_paths_def)

lemma sorted_sort_paths: "sorted (map casefold (sort_paths ps))"
  by (simp add: sort_paths_def)

section \<open>Values of a parsed document\<close>

text \<open>
  What \<open>json.loads\<close> and \<open>tomllib.loads\<close> return.  A \<open>dict\<close> is an association list in insertion
  order whose keys are distinct; \<open>POther\<close> stands for the values the code never accepts (dates).
\<close>

datatype pyval =
    PNone
  | PBool bool
  | PInt int
  | PFloat real
  | PStr string
  | PList "pyval list"
  | PDict "(string \<times> pyval) list"
  | POther string

type_synonym pydict = "(string \<times> pyval) list"

definition dget :: "pydict \<Rightarrow> string \<Rightarrow> pyval" where
  "dget d k = (case map_of d k of None \<Rightarrow> PNone | Some v \<Rightarrow> v)"

definition dget_or :: "pydict \<Rightarrow> string \<Rightarrow> pyval \<Rightarrow> pyval" where
  "dget_or d k v = (case map_of d k of None \<Rightarrow> v | Some w \<Rightarrow> w)"

definition dkeys :: "pydict \<Rightarrow> string list" where
  "dkeys d = map fst d"

definition has_key :: "pydict \<Rightarrow> string \<Rightarrow> bool" where
  "has_key d k \<longleftrightarrow> k \<in> set (dkeys d)"

text \<open>A dictionary built from pairs, one after the other: a later pair with a known key replaces the
  value and keeps the position.\<close>

definition dict_of :: "('k \<times> 'v) list \<Rightarrow> ('k \<times> 'v) list" where
  "dict_of ps = fold (\<lambda>p d. AList.update (fst p) (snd p) d) ps []"

lemma update_new_key: "q \<notin> fst ` set d \<Longrightarrow> AList.update q v d = d @ [(q, v)]"
  by (induction d) auto

lemma fold_update_fst:
  assumes "distinct (map k xs)" and "\<And>x. x \<in> set xs \<Longrightarrow> k x \<notin> fst ` set d0"
  shows "fold (\<lambda>x d. AList.update (k x) (v x) d) xs d0 = d0 @ map (\<lambda>x. (k x, v x)) xs"
  using assms
proof (induction xs arbitrary: d0)
  case (Cons x xs)
  have u: "AList.update (k x) (v x) d0 = d0 @ [(k x, v x)]"
    by (rule update_new_key) (simp add: Cons.prems(2))
  have "k y \<notin> fst ` set (d0 @ [(k x, v x)])" if "y \<in> set xs" for y
  proof -
    have "k y \<noteq> k x" using Cons.prems(1) that by (metis distinct.simps(2) image_eqI list.set_map list.simps(9))
    with Cons.prems(2)[of y] that show ?thesis by simp
  qed
  then show ?case using Cons.IH[of "d0 @ [(k x, v x)]"] Cons.prems(1) by (simp add: u)
qed simp

lemma dict_of_distinct: "distinct (map fst ps) \<Longrightarrow> dict_of ps = ps"
  unfolding dict_of_def by (subst fold_update_fst) simp_all

text \<open>\<open>bool(v)\<close>.\<close>

fun truthy :: "pyval \<Rightarrow> bool" where
  "truthy PNone = False"
| "truthy (PBool b) = b"
| "truthy (PInt n) = (n \<noteq> 0)"
| "truthy (PFloat x) = (x \<noteq> 0)"
| "truthy (PStr s) = (s \<noteq> [])"
| "truthy (PList xs) = (xs \<noteq> [])"
| "truthy (PDict d) = (d \<noteq> [])"
| "truthy (POther s) = True"

text \<open>\<open>v == "text"\<close> and \<open>v == n\<close>; a \<open>bool\<close> equals the integers 0 and 1.\<close>

fun is_text :: "pyval \<Rightarrow> bool" where
  "is_text (PStr s) = True"
| "is_text _ = False"

fun eq_int :: "pyval \<Rightarrow> int \<Rightarrow> bool" where
  "eq_int (PInt m) n = (m = n)"
| "eq_int (PBool b) n = ((if b then 1 else 0) = n)"
| "eq_int (PFloat x) n = (x = of_int n)"
| "eq_int _ n = False"

fun in_texts :: "pyval \<Rightarrow> string list \<Rightarrow> bool" where
  "in_texts (PStr s) xs = (s \<in> set xs)"
| "in_texts _ xs = False"

text \<open>\<open>isinstance(v, int) and not isinstance(v, bool) and lo <= v <= hi\<close>.\<close>

fun int_between :: "pyval \<Rightarrow> int \<Rightarrow> int \<Rightarrow> bool" where
  "int_between (PInt n) lo hi = (lo \<le> n \<and> n \<le> hi)"
| "int_between _ lo hi = False"

section \<open>Decimal rendering of integers (\<open>str(n)\<close>)\<close>

fun digits_of :: "nat \<Rightarrow> string" where
  "digits_of n = (if n < 10 then [char_of (48 + n)] else digits_of (n div 10) @ [char_of (48 + n mod 10)])"

declare digits_of.simps [simp del]

definition str_int :: "int \<Rightarrow> string" where
  "str_int n = (if n < 0 then CHR ''-'' # digits_of (nat (- n)) else digits_of (nat n))"

lemma digits_of_not_Nil [simp]: "digits_of n \<noteq> []"
  by (subst digits_of.simps) simp

end
