(* ===== verification/Globs.thy ===== *)
theory Globs
  imports Prelude
begin

text \<open>
  Shell-style name globs: \<open>fnmatch.fnmatchcase\<close> as a matcher over a parsed pattern, the pure
  path splitting of \<open>PurePosixPath\<close>, and the pattern lists of the workspace policy
  (\<open>validate_secret_patterns\<close>, \<open>validate_publish_globs\<close> and \<open>matches_publish_glob\<close> of
  \<open>shared/policy.py\<close>), which the executor and the desktop broker share.
\<close>

section \<open>\<open>fnmatch.fnmatchcase\<close>\<close>

text \<open>
  A pattern is a list of items: any run of characters, one character, one character of a set,
  a literal.  An unclosed bracket is a literal bracket.  Inside a set, \<open>a-b\<close> is a range when
  something follows the hyphen; \<open>fnmatch\<close> drops empty ranges, which match nothing here either.
  Not modelled: a set that starts with an empty range directly followed by an exclamation mark
  (\<open>fnmatch\<close> then reads the rest as a negated set), and sets over non-ASCII characters.
\<close>

datatype gitem = GStar | GAny | GSet (negated: bool) (ranges: "(char \<times> char) list") | GLit char

fun set_items :: "string \<Rightarrow> (char \<times> char) list" where
  "set_items [] = []"
| "set_items [a] = [(a, a)]"
| "set_items [a, b] = [(a, a), (b, b)]"
| "set_items (a # b # c # r) =
     (if b = CHR ''-'' then (a, c) # set_items r else (a, a) # set_items (b # c # r))"

definition bracket_body :: "string \<Rightarrow> (string \<times> string) option" where
  "bracket_body rest =
     (let (neg, r1) = (case rest of [] \<Rightarrow> ([], rest)
                        | c # t \<Rightarrow> if c = CHR ''!'' then ([c], t) else ([], rest));
          (pre, r2) = (case r1 of [] \<Rightarrow> (neg, r1)
                        | c # t \<Rightarrow> if c = CHR '']'' then (neg @ [c], t) else (neg, r1));
          tail = dropWhile (\<lambda>c. c \<noteq> CHR '']'') r2
      in if tail = [] then None
         else Some (pre @ takeWhile (\<lambda>c. c \<noteq> CHR '']'') r2, tl tail))"

lemma bracket_body_shorter:
  assumes "bracket_body rest = Some (b, r)"
  shows "length r < length rest"
proof -
  have T: "length (tl (dropWhile P xs)) < length xs" if "dropWhile P xs \<noteq> []" for P and xs :: string
  proof -
    have "length (tl (dropWhile P xs)) < length (dropWhile P xs)"
      using that by (cases "dropWhile P xs") auto
    with length_dropWhile_le[of P xs] show ?thesis by linarith
  qed
  have R: "length (tl (dropWhile P xs)) < length rest"
    if "dropWhile P xs \<noteq> []" "length xs \<le> length rest" for P and xs :: string
    using T[OF that(1)] that(2) by linarith
  show ?thesis
    using assms R[of "\<lambda>c. c \<noteq> CHR '']''"]
    by (auto simp: bracket_body_def Let_def simp del: dropWhile_eq_Nil_conv length_tl
        split: list.splits if_splits)
qed

function parse_glob :: "string \<Rightarrow> gitem list" where
  "parse_glob [] = []"
| "parse_glob (c # cs) =
     (if c = CHR ''*'' then GStar # parse_glob cs
      else if c = CHR ''?'' then GAny # parse_glob cs
      else if c = CHR ''['' then
        (case bracket_body cs of
           None \<Rightarrow> GLit c # parse_glob cs
         | Some (body, rest) \<Rightarrow>
             (case body of
                [] \<Rightarrow> GSet False [] # parse_glob rest
              | b # bs \<Rightarrow>
                  (if b = CHR ''!'' then GSet True (set_items bs)
                   else GSet False (set_items body)) # parse_glob rest))
      else GLit c # parse_glob cs)"
  by pat_completeness auto
termination
  by (relation "measure length") (auto dest: bracket_body_shorter)

definition skip_cont :: "string \<Rightarrow> string" where
  "skip_cont s = dropWhile (\<lambda>c. 128 \<le> ord c \<and> ord c < 192) s"

lemma skip_cont_length: "length (skip_cont s) \<le> length s"
  by (simp add: skip_cont_def length_dropWhile_le)

definition in_set_item :: "bool \<Rightarrow> (char \<times> char) list \<Rightarrow> char \<Rightarrow> bool" where
  "in_set_item neg rs c \<longleftrightarrow> neg \<noteq> list_ex (\<lambda>(a, b). ord a \<le> ord c \<and> ord c \<le> ord b) rs"

function glob_match :: "gitem list \<Rightarrow> string \<Rightarrow> bool" where
  "glob_match [] s = (s = [])"
| "glob_match (GStar # g) s =
     (glob_match g s \<or> (case s of [] \<Rightarrow> False | _ # t \<Rightarrow> glob_match (GStar # g) t))"
| "glob_match (GAny # g) s = (case s of [] \<Rightarrow> False | _ # t \<Rightarrow> glob_match g (skip_cont t))"
| "glob_match (GSet neg rs # g) s =
     (case s of [] \<Rightarrow> False | c # t \<Rightarrow> in_set_item neg rs c \<and> glob_match g (skip_cont t))"
| "glob_match (GLit l # g) s = (case s of [] \<Rightarrow> False | c # t \<Rightarrow> c = l \<and> glob_match g t)"
  by pat_completeness auto
termination
proof (relation "measure (\<lambda>(g, s). length g + length s)", goal_cases)
  case (4 g s c t)
  then show ?case using skip_cont_length[of t] by simp
next
  case (5 neg rs g s c t)
  then show ?case using skip_cont_length[of t] by simp
qed auto

definition fnmatchcase :: "string \<Rightarrow> string \<Rightarrow> bool" where
  "fnmatchcase name pat = glob_match (parse_glob pat) name"

text \<open>A pattern without special characters matches exactly itself.\<close>

definition literal_pattern :: "string \<Rightarrow> bool" where
  "literal_pattern p \<longleftrightarrow> CHR ''*'' \<notin> set p \<and> CHR ''?'' \<notin> set p \<and> CHR ''['' \<notin> set p"

lemma parse_glob_literal:
  "literal_pattern p \<Longrightarrow> parse_glob p = map GLit p"
  by (induction p) (auto simp: literal_pattern_def)

lemma glob_match_literal: "glob_match (map GLit p) s \<longleftrightarrow> s = p"
  by (induction p arbitrary: s) (auto split: list.splits)

lemma fnmatchcase_literal:
  "literal_pattern p \<Longrightarrow> fnmatchcase s p \<longleftrightarrow> s = p"
  by (simp add: fnmatchcase_def parse_glob_literal glob_match_literal)

lemma glob_match_star_all: "glob_match [GStar] s"
  by (induction s) auto

lemma glob_match_star_suffix: "glob_match g t \<Longrightarrow> glob_match (GStar # g) (s @ t)"
  by (induction s) auto

lemma glob_match_star_cases:
  "glob_match (GStar # g) s \<Longrightarrow> \<exists>a b. s = a @ b \<and> glob_match g b"
proof (induction s)
  case Nil
  then show ?case by simp
next
  case (Cons c s)
  then show ?case
  proof (cases "glob_match g (c # s)")
    case True
    then show ?thesis by (metis append_Nil)
  next
    case False
    with Cons.prems have "glob_match (GStar # g) s" by simp
    then obtain a b where "s = a @ b" "glob_match g b" using Cons.IH by blast
    then have "c # s = (c # a) @ b" by simp
    with \<open>glob_match g b\<close> show ?thesis by blast
  qed
qed

text \<open>A name glob \<open>*suffix\<close> is the suffix test.\<close>

lemma fnmatchcase_star_suffix:
  assumes "literal_pattern p"
  shows "fnmatchcase s (CHR ''*'' # p) \<longleftrightarrow> (\<exists>a. s = a @ p)"
proof
  assume "fnmatchcase s (CHR ''*'' # p)"
  then have "glob_match (GStar # map GLit p) s"
    by (simp add: fnmatchcase_def parse_glob_literal assms)
  from glob_match_star_cases[OF this] show "\<exists>a. s = a @ p"
    by (auto simp: glob_match_literal)
next
  assume "\<exists>a. s = a @ p"
  then obtain a where s: "s = a @ p" ..
  have "glob_match (GStar # map GLit p) (a @ p)"
    by (rule glob_match_star_suffix) (simp add: glob_match_literal)
  with s show "fnmatchcase s (CHR ''*'' # p)"
    by (simp add: fnmatchcase_def parse_glob_literal assms)
qed

section \<open>Pure path splitting\<close>

text \<open>\<open>PurePosixPath(s).parts\<close>: empty and dot components vanish, a root is a part of its own.\<close>

definition posix_parts :: "string \<Rightarrow> string list" where
  "posix_parts s =
     (let body = filter (\<lambda>p. p \<noteq> [] \<and> p \<noteq> ''.'') (split_on (CHR ''/'') s)
      in if \<not> startswith s ''/'' then body
         else if startswith s ''//'' \<and> \<not> startswith s ''///'' then ''//'' # body
         else ''/'' # body)"

text \<open>\<open>PurePosixPath(s).name\<close>: the last part, nothing for a bare root.\<close>

definition posix_name :: "string \<Rightarrow> string" where
  "posix_name s =
     (let parts = posix_parts s
      in if parts = [] \<or> last parts = ''/'' \<or> last parts = ''//'' then [] else last parts)"

lemma posix_parts_relative:
  assumes "ps \<noteq> []" and "\<forall>p\<in>set ps. CHR ''/'' \<notin> set p \<and> p \<noteq> [] \<and> p \<noteq> ''.''"
  shows "posix_parts (join ''/'' ps) = ps"
proof -
  have sp: "split_on (CHR ''/'') (join ''/'' ps) = ps"
    using assms by (intro split_on_join) auto
  have ns: "\<not> startswith (join ''/'' ps) ''/''"
  proof (cases ps)
    case (Cons p qs)
    with assms obtain c p' where "p = c # p'" "c \<noteq> CHR ''/''" by (cases p) auto
    with Cons show ?thesis by (cases qs) auto
  qed (use assms in simp)
  show ?thesis
    using assms(2) by (simp add: posix_parts_def ns sp)
qed

lemma posix_parts_no_slash:
  "\<not> startswith s ''/'' \<Longrightarrow> p \<in> set (posix_parts s) \<Longrightarrow>
     CHR ''/'' \<notin> set p \<and> p \<noteq> [] \<and> p \<noteq> ''.''"
  by (auto simp: posix_parts_def Let_def split_on_free)

section \<open>Policy pattern lists (\<open>shared/policy.py\<close>)\<close>

definition MAX_PATTERNS :: nat where "MAX_PATTERNS = 50"
definition MAX_PATTERN_CHARS :: nat where "MAX_PATTERN_CHARS = 100"

fun secret_pattern_ok :: "pyval \<Rightarrow> bool" where
  "secret_pattern_ok (PStr p) =
     (strip p \<noteq> [] \<and> py_len p \<le> MAX_PATTERN_CHARS \<and> CHR ''/'' \<notin> set p
       \<and> BACKSLASH \<notin> set p \<and> NUL \<notin> set p)"
| "secret_pattern_ok _ = False"

fun publish_pattern_ok :: "pyval \<Rightarrow> bool" where
  "publish_pattern_ok (PStr p) =
     (strip p \<noteq> [] \<and> py_len p \<le> MAX_PATTERN_CHARS \<and> \<not> startswith p ''/''
       \<and> BACKSLASH \<notin> set p \<and> NUL \<notin> set p \<and> ''..'' \<notin> set (posix_parts p))"
| "publish_pattern_ok _ = False"

fun text_of :: "pyval \<Rightarrow> string" where
  "text_of (PStr s) = s"
| "text_of _ = []"

fun validate_secret_patterns :: "pyval \<Rightarrow> exn + string list" where
  "validate_secret_patterns (PList ps) =
     (if length ps > MAX_PATTERNS then Inl ValueErr
      else if \<not> list_all secret_pattern_ok ps then Inl ValueErr
      else Inr (dedup (map (casefold \<circ> strip \<circ> text_of) ps)))"
| "validate_secret_patterns _ = Inl ValueErr"

fun validate_publish_globs :: "pyval \<Rightarrow> exn + string list" where
  "validate_publish_globs (PList ps) =
     (if length ps > MAX_PATTERNS then Inl ValueErr
      else if \<not> list_all publish_pattern_ok ps then Inl ValueErr
      else Inr (dedup (map (strip \<circ> text_of) ps)))"
| "validate_publish_globs _ = Inl ValueErr"

definition rstrip_slash :: "string \<Rightarrow> string" where
  "rstrip_slash s = rev (dropWhile (\<lambda>c. c = CHR ''/'') (rev s))"

definition publish_glob_covers :: "string \<Rightarrow> string \<Rightarrow> bool" where
  "publish_glob_covers folded pattern =
     (let glob = rstrip_slash (casefold pattern);
          prefix = take (length glob - 3) glob
      in endswith glob ''/**'' \<and> (folded = prefix \<or> startswith folded (prefix @ ''/''))
         \<or> fnmatchcase folded glob \<or> startswith folded (glob @ ''/''))"

definition matches_publish_glob :: "string \<Rightarrow> string list \<Rightarrow> bool" where
  "matches_publish_glob path patterns = list_ex (publish_glob_covers (casefold path)) patterns"

lemma dedup_length: "length (dedup xs) \<le> length xs"
  by (simp add: dedup_def length_remdups_leq[of "rev xs", simplified])

lemma validate_secret_patterns_bounds:
  assumes "validate_secret_patterns v = Inr ps"
  shows "length ps \<le> MAX_PATTERNS" and "distinct ps"
  using assms dedup_length[of "map (casefold \<circ> strip \<circ> text_of) _"]
  by (cases v; fastforce split: if_splits intro: order_trans)+

lemma validate_publish_globs_bounds:
  assumes "validate_publish_globs v = Inr ps"
  shows "length ps \<le> MAX_PATTERNS" and "distinct ps"
  using assms dedup_length[of "map (strip \<circ> text_of) _"]
  by (cases v; fastforce split: if_splits intro: order_trans)+

lemma ascii_lower_slash: "ascii_lower c = CHR ''/'' \<longleftrightarrow> c = CHR ''/''"
  by (rule ascii_lower_eq_iff) (simp add: ord_def)

lemma casefold_slash [simp, text_simps]: "casefold (CHR ''/'' # s) = CHR ''/'' # casefold s"
  by (simp add: casefold_def ascii_lower_slash)

lemma rstrip_slash_id: "s \<noteq> [] \<Longrightarrow> last s \<noteq> CHR ''/'' \<Longrightarrow> rstrip_slash s = s"
  by (cases s rule: rev_cases) (simp_all add: rstrip_slash_def)

text \<open>A bare directory pattern covers the directory's whole subtree, in any letter case.\<close>

lemma matches_publish_glob_subtree:
  assumes "pat \<in> set pats" and "casefold pat = casefold dir"
    and "dir \<noteq> []" and "last dir \<noteq> CHR ''/''"
  shows "matches_publish_glob (dir @ ''/'' @ rest) pats"
proof -
  have "last (casefold dir) \<noteq> CHR ''/''"
    using assms(3,4) by (simp add: casefold_def last_map ascii_lower_slash)
  then have "rstrip_slash (casefold dir) = casefold dir"
    using assms(3) by (intro rstrip_slash_id) simp_all
  then have "publish_glob_covers (casefold (dir @ ''/'' @ rest)) pat"
    using assms(2) by (auto simp: publish_glob_covers_def Let_def startswith_iff)
  with assms(1) show ?thesis
    by (auto simp: matches_publish_glob_def list_ex_iff)
qed

end
