(* ===== verification/Paths.thy ===== *)
theory Paths
  imports Globs
begin

text \<open>
  Workspace path rules: \<open>executor/paths.py\<close> (name classification, \<open>normalize_relative\<close>,
  \<open>assert_unique_paths\<close>) and the path form used by permission scopes
  (\<open>relative_posix_path\<close> of \<open>shared/coercion.py\<close>).

  The process-wide tuple \<open>_extra_secret_globs\<close> is the argument \<open>extra\<close>; the Unicode database
  behind \<open>unicodedata.normalize("NFC", _)\<close> is the argument \<open>nfc\<close>.
\<close>

section \<open>Names that are never exposed\<close>

definition RESERVED :: "string list" where
  "RESERVED = [''CON'', ''PRN'', ''AUX'', ''NUL'',
     ''COM1'', ''COM2'', ''COM3'', ''COM4'', ''COM5'', ''COM6'', ''COM7'', ''COM8'', ''COM9'',
     ''LPT1'', ''LPT2'', ''LPT3'', ''LPT4'', ''LPT5'', ''LPT6'', ''LPT7'', ''LPT8'', ''LPT9'']"

definition SECRET_PARTS :: "string list" where
  "SECRET_PARTS = [''.env'', ''.aws'', ''.azure'', ''.ssh'', ''.gnupg'', ''.npmrc'', ''.pypirc'',
     ''credentials'', ''id_rsa'', ''id_ed25519'', ''.netrc'', ''.git-credentials'',
     ''kubeconfig'', ''.dockercfg'']"

definition SECRET_GLOBS :: "string list" where
  "SECRET_GLOBS = [''*.pem'', ''*.key'', ''*.p12'', ''*.pfx'', ''*.tfstate'', ''*.tfstate.*'',
     ''secrets.*'']"

definition OUTPUT_DIRECTORY :: string where
  "OUTPUT_DIRECTORY = ''.euesto-output''"

definition STAGING_EXCLUDED_PARTS :: "string list" where
  "STAGING_EXCLUDED_PARTS = [''.git'', ''.hg'', ''.svn'', ''.venv'', ''venv'', ''.tox'', ''.nox'',
     ''node_modules'', ''__pycache__'', ''.pytest_cache'', ''.mypy_cache'', ''.ruff_cache'',
     ''.hypothesis'', OUTPUT_DIRECTORY]"

definition is_secret_part :: "string list \<Rightarrow> string \<Rightarrow> bool" where
  "is_secret_part extra part =
     (let folded = casefold part
      in folded \<in> set SECRET_PARTS \<or> startswith folded ''.env''
         \<or> list_ex (fnmatchcase folded) (SECRET_GLOBS @ extra))"

definition is_hidden_part :: "string list \<Rightarrow> string \<Rightarrow> bool" where
  "is_hidden_part extra part \<longleftrightarrow>
     is_secret_part extra part \<or> casefold part \<in> set STAGING_EXCLUDED_PARTS
       \<or> startswith part ''.local-chat-''"

definition is_secret_path :: "string list \<Rightarrow> string \<Rightarrow> bool" where
  "is_secret_path extra v = list_ex (is_secret_part extra) (posix_parts v)"

definition is_staging_excluded :: "string \<Rightarrow> bool" where
  "is_staging_excluded v = list_ex (\<lambda>p. casefold p \<in> set STAGING_EXCLUDED_PARTS) (posix_parts v)"

definition is_tool_excluded :: "string list \<Rightarrow> string \<Rightarrow> bool" where
  "is_tool_excluded extra v = list_ex (is_hidden_part extra) (posix_parts v)"

text \<open>Workspace patterns are added to the built-in ones, never replacing any.\<close>

lemma is_secret_part_mono:
  "is_secret_part [] p \<Longrightarrow> is_secret_part extra p"
  by (auto simp: is_secret_part_def Let_def)

section \<open>\<open>normalize_relative\<close>\<close>

text \<open>\<open>re.match(r"^[A-Za-z]:", value)\<close>\<close>

fun drive_prefix :: "string \<Rightarrow> bool" where
  "drive_prefix (a # b # _) = (is_alpha a \<and> b = CHR '':'')"
| "drive_prefix _ = False"

definition absolute_or_drive :: "string \<Rightarrow> bool" where
  "absolute_or_drive v \<longleftrightarrow> BACKSLASH \<in> set v \<or> startswith v ''/'' \<or> drive_prefix v"

text \<open>\<open>part.split(".", 1)[0]\<close>\<close>

definition stem :: "string \<Rightarrow> string" where
  "stem part = takeWhile (\<lambda>c. c \<noteq> CHR ''.'') part"

definition part_ok :: "(string \<Rightarrow> string) \<Rightarrow> string list \<Rightarrow> bool \<Rightarrow> string \<Rightarrow> bool" where
  "part_ok nfc extra allow_secret part \<longleftrightarrow>
     \<not> (endswith part '' '' \<or> endswith part ''.'' \<or> CHR '':'' \<in> set part)
     \<and> upper (stem part) \<notin> set RESERVED
     \<and> nfc part = part
     \<and> (allow_secret \<or> \<not> is_secret_path extra part)"

definition normalize_relative ::
  "(string \<Rightarrow> string) \<Rightarrow> string list \<Rightarrow> bool \<Rightarrow> string \<Rightarrow> exn + string" where
  "normalize_relative nfc extra allow_secret v =
     (if NUL \<in> set v then Inl UnsafePath
      else if v = [] then Inr ''.''
      else if absolute_or_drive v then Inl UnsafePath
      else let parts = posix_parts v
        in if list_ex (\<lambda>p. p = [] \<or> p = ''.'' \<or> p = ''..'') parts then Inl UnsafePath
           else if list_all (part_ok nfc extra allow_secret) parts then Inr (join ''/'' parts)
           else Inl UnsafePath)"

text \<open>What an accepted path looks like: plain relative segments, none of them a traversal, a
  drive, an alternate stream, a device name, or (unless allowed) a secret.\<close>

definition safe_segment :: "(string \<Rightarrow> string) \<Rightarrow> string list \<Rightarrow> bool \<Rightarrow> string \<Rightarrow> bool" where
  "safe_segment nfc extra allow_secret p \<longleftrightarrow>
     p \<noteq> [] \<and> p \<noteq> ''.'' \<and> p \<noteq> ''..'' \<and> CHR ''/'' \<notin> set p \<and> BACKSLASH \<notin> set p \<and> NUL \<notin> set p
     \<and> CHR '':'' \<notin> set p \<and> \<not> endswith p '' '' \<and> \<not> endswith p ''.''
     \<and> upper (stem p) \<notin> set RESERVED \<and> nfc p = p
     \<and> (allow_secret \<or> \<not> is_secret_part extra p)"

lemma posix_parts_single:
  "CHR ''/'' \<notin> set p \<Longrightarrow> p \<noteq> [] \<Longrightarrow> p \<noteq> ''.'' \<Longrightarrow> posix_parts p = [p]"
  using posix_parts_relative[of "[p]"] by simp

lemma set_posix_parts_chars:
  assumes "\<not> startswith v ''/''" "p \<in> set (posix_parts v)"
  shows "set p \<subseteq> set v"
proof -
  have "p \<in> set (split_on (CHR ''/'') v)" using assms by (auto simp: posix_parts_def)
  then show ?thesis
    by (induction v arbitrary: p) (fastforce split: list.splits if_splits)+
qed

lemma normalize_relative_parts:
  assumes "normalize_relative nfc extra allow v = Inr n" and "v \<noteq> []"
  shows "n = join ''/'' (posix_parts v) \<and> (\<forall>p\<in>set (posix_parts v). safe_segment nfc extra allow p)"
proof -
  from assms have v: "NUL \<notin> set v" "\<not> absolute_or_drive v"
      "\<forall>p\<in>set (posix_parts v). p \<noteq> [] \<and> p \<noteq> ''.'' \<and> p \<noteq> ''..''"
      "\<forall>p\<in>set (posix_parts v). part_ok nfc extra allow p" "n = join ''/'' (posix_parts v)"
    by (auto simp: normalize_relative_def Let_def list_all_iff list_ex_iff split: if_splits)
  from v(2) have "\<not> startswith v ''/''" "BACKSLASH \<notin> set v"
    by (auto simp: absolute_or_drive_def)
  then have "safe_segment nfc extra allow p" if "p \<in> set (posix_parts v)" for p
    using v(1,3,4) that posix_parts_no_slash[of v p] set_posix_parts_chars[of v p]
    by (auto simp: safe_segment_def part_ok_def is_secret_path_def posix_parts_single)
  with v(5) show ?thesis by blast
qed

text \<open>Traversal safety: an accepted path is the root or a chain of safe segments, and it is
  already in normal form.\<close>

lemma safe_segments_normal:
  assumes "ps \<noteq> []" and "\<forall>p\<in>set ps. safe_segment nfc extra allow p"
  shows "normalize_relative nfc extra allow (join ''/'' ps) = Inr (join ''/'' ps)"
proof -
  have pp: "posix_parts (join ''/'' ps) = ps"
    using assms by (intro posix_parts_relative) (auto simp: safe_segment_def)
  have chars: "c \<in> set (join ''/'' ps) \<Longrightarrow> c = CHR ''/'' \<or> (\<exists>p\<in>set ps. c \<in> set p)" for c
    by (induction "''/''" ps rule: join.induct) auto
  have bad: "BACKSLASH \<notin> set (join ''/'' ps)" "NUL \<notin> set (join ''/'' ps)"
      "CHR '':'' \<notin> set (join ''/'' ps)"
    using assms(2) chars by (fastforce simp: safe_segment_def)+
  obtain p qs where ps: "ps = p # qs" using assms(1) by (cases ps) auto
  then obtain c p' where p: "p = c # p'" "c \<noteq> CHR ''/''"
    using assms(2) by (cases p) (auto simp: safe_segment_def)
  have "\<not> startswith (join ''/'' ps) ''/''" "join ''/'' ps \<noteq> []"
    using ps p by (cases qs; simp)+
  moreover have "\<not> drive_prefix (join ''/'' ps)"
    using bad(3) by (cases "join ''/'' ps" rule: drive_prefix.cases) auto
  moreover have "part_ok nfc extra allow q" if "q \<in> set ps" for q
    using assms(2) that
    by (auto simp: safe_segment_def part_ok_def is_secret_path_def posix_parts_single)
  ultimately show ?thesis
    using bad assms(2)
    by (auto simp: normalize_relative_def absolute_or_drive_def pp Let_def list_all_iff
        list_ex_iff safe_segment_def)
qed

section \<open>Case and Unicode collisions\<close>

text \<open>\<open>assert_unique_paths\<close>: the keys of the paths, folded, must be pairwise different.\<close>

fun unique_keys :: "(string \<Rightarrow> string) \<Rightarrow> string list \<Rightarrow> string list \<Rightarrow> string list \<Rightarrow> exn + unit" where
  "unique_keys nfc extra aliases [] = Inr ()"
| "unique_keys nfc extra aliases (v # vs) =
     rbind (normalize_relative nfc extra False v) (\<lambda>n.
       let key = casefold (nfc n)
       in if key \<in> set aliases then Inl UnsafePath
          else unique_keys nfc extra (key # aliases) vs)"

definition assert_unique_paths ::
  "(string \<Rightarrow> string) \<Rightarrow> string list \<Rightarrow> string list \<Rightarrow> exn + unit" where
  "assert_unique_paths nfc extra paths = unique_keys nfc extra [] paths"

lemma unique_keys_distinct:
  assumes "unique_keys nfc extra aliases vs = Inr ()"
  shows "\<exists>ns. map_res (normalize_relative nfc extra False) vs = Inr ns
     \<and> distinct (map (casefold \<circ> nfc) ns) \<and> set (map (casefold \<circ> nfc) ns) \<inter> set aliases = {}"
  using assms
proof (induction vs arbitrary: aliases)
  case Nil
  then show ?case by simp
next
  case (Cons v vs)
  then obtain n where n: "normalize_relative nfc extra False v = Inr n"
      "casefold (nfc n) \<notin> set aliases"
      "unique_keys nfc extra (casefold (nfc n) # aliases) vs = Inr ()"
    by (auto simp: Let_def split: if_splits)
  from Cons.IH[OF n(3)] obtain ns where
    "map_res (normalize_relative nfc extra False) vs = Inr ns"
    "distinct (map (casefold \<circ> nfc) ns)"
    "set (map (casefold \<circ> nfc) ns) \<inter> set (casefold (nfc n) # aliases) = {}" by blast
  with n(1,2) show ?case by (intro exI[of _ "n # ns"]) (auto simp: comp_def)
qed

section \<open>Permission paths (\<open>shared/coercion.py\<close>)\<close>

definition backslash_to_slash :: "string \<Rightarrow> string" where
  "backslash_to_slash v = map (\<lambda>c. if c = BACKSLASH then CHR ''/'' else c) v"

definition relative_posix_path :: "string \<Rightarrow> string option" where
  "relative_posix_path v =
     (if NUL \<in> set v then None
      else let text = backslash_to_slash v
        in if text = [] \<or> startswith text ''/'' \<or> drive_prefix text then None
           else let parts = posix_parts text
             in if ''..'' \<in> set parts then None
                else Some (if parts = [] then ''.'' else join ''/'' parts))"

text \<open>\<open>_permission_path\<close> of \<open>shared/permissions.py\<close>.\<close>

definition permission_path :: "string \<Rightarrow> string option" where
  "permission_path v = map_option casefold (relative_posix_path v)"

lemma relative_posix_path_segments:
  assumes "relative_posix_path v = Some n" and "n \<noteq> ''.''"
  shows "\<exists>ps. ps \<noteq> [] \<and> n = join ''/'' ps \<and>
    (\<forall>p\<in>set ps. p \<noteq> [] \<and> p \<noteq> ''.'' \<and> p \<noteq> ''..'' \<and> CHR ''/'' \<notin> set p)"
  using assms posix_parts_no_slash[of "backslash_to_slash v"]
  by (intro exI[of _ "posix_parts (backslash_to_slash v)"])
    (auto simp: relative_posix_path_def Let_def split: if_splits)

end
