(* ===== verification/Tools.thy ===== *)
theory Tools
  imports Paths
begin

text \<open>
  The tool protocol of \<open>shared/tools.py\<close>: tool names and their groups, tool requests, the
  argument size cap, publish operations and manifests.
\<close>

section \<open>Tool names\<close>

definition EXECUTOR_TOOLS :: "string list" where
  "EXECUTOR_TOOLS = [''read'', ''write'', ''edit'', ''apply_patch'', ''bash'', ''grep'', ''find'',
     ''ls'', ''status'']"

definition GATEWAY_TOOLS :: "string list" where
  "GATEWAY_TOOLS = [''investigate_repository'', ''update_plan'', ''web_search'', ''fetch_url'']"

definition WEB_TOOLS :: "string list" where
  "WEB_TOOLS = [''web_search'', ''fetch_url'']"

definition TOOL_NAMES :: "string list" where
  "TOOL_NAMES = EXECUTOR_TOOLS @ GATEWAY_TOOLS"

definition PLAN_READ_TOOLS :: "string list" where
  "PLAN_READ_TOOLS = [''read'', ''grep'', ''find'', ''ls'']"

definition PLAN_TOOLS :: "string list" where
  "PLAN_TOOLS = PLAN_READ_TOOLS @ [''investigate_repository'', ''update_plan'']"

definition INVESTIGATION_TOOLS :: "string list" where
  "INVESTIGATION_TOOLS = PLAN_READ_TOOLS @ [''status'']"

definition PLAN_EXECUTOR_TOOLS :: "string list" where
  "PLAN_EXECUTOR_TOOLS = INVESTIGATION_TOOLS"

text \<open>The reading tools as the source lists them.  The gateway runs its own tools itself: the addresses that
  \<open>fetch_url\<close> asks for go through \<open>_url_approval\<close> there, never through the permission rules of the executor.\<close>

definition READ_TOOLS :: "string list" where
  "READ_TOOLS = PLAN_TOOLS @ [''status''] @ WEB_TOOLS"

definition MUTATION_TOOLS :: "string list" where
  "MUTATION_TOOLS = [''write'', ''edit'', ''apply_patch'', ''bash'']"

definition STAGED_EDIT_TOOLS :: "string list" where
  "STAGED_EDIT_TOOLS = [''write'', ''edit'', ''apply_patch'']"

definition PARALLEL_SAFE_TOOLS :: "string list" where
  "PARALLEL_SAFE_TOOLS = PLAN_READ_TOOLS @ [''status'']"

definition mode_tools :: "string \<Rightarrow> bool \<Rightarrow> string list" where
  "mode_tools mode web =
     (if mode = ''plan'' then PLAN_TOOLS
      else if web then TOOL_NAMES
      else filter (\<lambda>t. t \<notin> set WEB_TOOLS) TOOL_NAMES)"

lemmas tool_group_defs = EXECUTOR_TOOLS_def GATEWAY_TOOLS_def WEB_TOOLS_def TOOL_NAMES_def
  PLAN_READ_TOOLS_def PLAN_TOOLS_def INVESTIGATION_TOOLS_def PLAN_EXECUTOR_TOOLS_def
  READ_TOOLS_def MUTATION_TOOLS_def STAGED_EDIT_TOOLS_def PARALLEL_SAFE_TOOLS_def

section \<open>Tool requests\<close>

definition MAX_TOOL_ARGUMENT_BYTES :: nat where
  "MAX_TOOL_ARGUMENT_BYTES = 16000000 + 1000000"

text \<open>
  \<open>tool_argument_bytes\<close>: the size of the arguments as unescaped JSON.  The loop works on a stack
  whose last element is the top and stops early once the cap is exceeded.  \<open>repr\<close> stands for
  Python's \<open>str\<close>/\<open>repr\<close> of a float or an unknown value.
\<close>

fun atom_bytes :: "(pyval \<Rightarrow> string) \<Rightarrow> pyval \<Rightarrow> nat" where
  "atom_bytes repr PNone = 4"
| "atom_bytes repr (PBool b) = (if b then 4 else 5)"
| "atom_bytes repr (PInt n) = length (str_int n)"
| "atom_bytes repr v = length (repr v)"

fun pyval_nodes :: "pyval \<Rightarrow> nat"
  and list_nodes :: "pyval list \<Rightarrow> nat"
  and dict_nodes :: "pydict \<Rightarrow> nat" where
  "pyval_nodes (PList xs) = Suc (list_nodes xs)"
| "pyval_nodes (PDict d) = Suc (dict_nodes d)"
| "pyval_nodes _ = 1"
| "list_nodes [] = 0"
| "list_nodes (x # xs) = pyval_nodes x + list_nodes xs"
| "dict_nodes [] = 0"
| "dict_nodes ((k, v) # d) = Suc (pyval_nodes v + dict_nodes d)"

definition dict_stack :: "pydict \<Rightarrow> pyval list" where
  "dict_stack d = concat (map (\<lambda>(k, v). [PStr k, v]) d)"

lemma list_nodes_append [simp]: "list_nodes (xs @ ys) = list_nodes xs + list_nodes ys"
  by (induction xs) auto

lemma list_nodes_dict_stack [simp]: "list_nodes (dict_stack d) = dict_nodes d"
  by (induction d) (auto simp: dict_stack_def)

lemma list_nodes_rev [simp]: "list_nodes (rev xs) = list_nodes xs"
  by (induction xs) auto

function argument_bytes_loop :: "(pyval \<Rightarrow> string) \<Rightarrow> nat \<Rightarrow> pyval list \<Rightarrow> nat" where
  "argument_bytes_loop repr used [] = used"
| "argument_bytes_loop repr used (v # stack) =
     (if used > MAX_TOOL_ARGUMENT_BYTES then used
      else (case v of
          PStr s \<Rightarrow> argument_bytes_loop repr (used + length s + 2) stack
        | PDict d \<Rightarrow> argument_bytes_loop repr (used + 2 + (2 * length d - 1)) (rev (dict_stack d) @ stack)
        | PList xs \<Rightarrow> argument_bytes_loop repr (used + 2 + (length xs - 1)) (rev xs @ stack)
        | _ \<Rightarrow> argument_bytes_loop repr (used + atom_bytes repr v) stack))"
  by pat_completeness auto
termination
  by (relation "measure (\<lambda>(repr, used, stack). list_nodes stack)") auto

definition tool_argument_bytes :: "(pyval \<Rightarrow> string) \<Rightarrow> pyval \<Rightarrow> nat" where
  "tool_argument_bytes repr arguments = argument_bytes_loop repr 0 [arguments]"

record tool_request =
  request_id :: string
  run_id :: string
  tool :: string
  mode :: string
  arguments :: pydict

text \<open>\<open>ToolRequest.__post_init__\<close>.\<close>

definition tool_request_ok :: "(pyval \<Rightarrow> string) \<Rightarrow> tool_request \<Rightarrow> bool" where
  "tool_request_ok repr r \<longleftrightarrow>
     request_id r \<noteq> [] \<and> run_id r \<noteq> []
     \<and> tool r \<in> set TOOL_NAMES
     \<and> mode r \<in> {''plan'', ''agent''}
     \<and> \<not> (mode r = ''plan'' \<and> tool r \<notin> set (PLAN_TOOLS @ PLAN_EXECUTOR_TOOLS))
     \<and> tool_argument_bytes repr (PDict (arguments r)) \<le> MAX_TOOL_ARGUMENT_BYTES"

lemma plan_request_reads_only:
  "tool_request_ok repr r \<Longrightarrow> mode r = ''plan'' \<Longrightarrow> tool r \<notin> set MUTATION_TOOLS"
proof -
  have "set (PLAN_TOOLS @ PLAN_EXECUTOR_TOOLS) \<inter> set MUTATION_TOOLS = {}" by code_simp
  then show "tool_request_ok repr r \<Longrightarrow> mode r = ''plan'' \<Longrightarrow> tool r \<notin> set MUTATION_TOOLS"
    unfolding tool_request_ok_def by blast
qed

section \<open>Publish operations and manifests\<close>

definition PUBLISH_BATCH_MAX_OPERATIONS :: nat where "PUBLISH_BATCH_MAX_OPERATIONS = 500"
definition PUBLISH_BATCH_MAX_BYTES :: nat where "PUBLISH_BATCH_MAX_BYTES = 32000000"
definition MAX_PUBLISH_BATCHES :: int where "MAX_PUBLISH_BATCHES = 2000"

datatype op_kind = Create | Update | Delete

record publish_operation =
  op_path :: string
  op_kind :: op_kind
  base_sha256 :: "string option"
  staged_sha256 :: "string option"
  op_content :: "string option"
  base_mode :: "int option"
  staged_mode :: "int option"
  content_base64 :: "string option"

text \<open>\<open>base64.b64decode(_, validate=True)\<close> is the argument \<open>b64\<close>, with \<open>None\<close> for its error;
  \<open>sha\<close> is the hexadecimal SHA-256.\<close>

definition op_payload :: "(string \<Rightarrow> string option) \<Rightarrow> publish_operation \<Rightarrow> exn + string" where
  "op_payload b64 p =
     (case content_base64 p of
        Some e \<Rightarrow> (case b64 e of None \<Rightarrow> Inl ValueErr | Some b \<Rightarrow> Inr b)
      | None \<Rightarrow> Inr (case op_content p of None \<Rightarrow> [] | Some c \<Rightarrow> c))"

definition op_payload_bytes :: "publish_operation \<Rightarrow> int" where
  "op_payload_bytes p =
     (case content_base64 p of
        Some e \<Rightarrow> int (length e) * 3 div 4
          - int (length (filter (\<lambda>c. c = CHR ''='') (drop (length e - 2) e)))
      | None \<Rightarrow> int (length (case op_content p of None \<Rightarrow> [] | Some c \<Rightarrow> c)))"

definition publish_operation_ok ::
  "(string \<Rightarrow> string) \<Rightarrow> (string \<Rightarrow> string option) \<Rightarrow> publish_operation \<Rightarrow> bool" where
  "publish_operation_ok sha b64 p \<longleftrightarrow>
     \<not> (op_kind p = Create \<and> base_sha256 p \<noteq> None)
     \<and> (if op_kind p = Delete
        then staged_sha256 p = None \<and> op_content p = None \<and> content_base64 p = None
             \<and> staged_mode p = None
        else ((op_content p = None) \<noteq> (content_base64 p = None))
             \<and> (case op_payload b64 p of Inl _ \<Rightarrow> False | Inr b \<Rightarrow> staged_sha256 p = Some (sha b))
             \<and> (case staged_mode p of None \<Rightarrow> True | Some m \<Rightarrow> 0 \<le> m \<and> m \<le> 4095))"

record publish_manifest =
  manifest_id :: string
  man_run_id :: string
  man_workspace_id :: string
  source_snapshot_id :: string
  approval_id :: string
  operations :: "publish_operation list"
  publication_id :: string
  batch_index :: int
  batch_count :: int

text \<open>\<open>PublishManifest.__post_init__\<close>: the checked manifest, with the publication id defaulted.\<close>

definition check_batch_position :: "int \<Rightarrow> int \<Rightarrow> bool" where
  "check_batch_position i n \<longleftrightarrow> 1 \<le> i \<and> i \<le> n \<and> n \<le> MAX_PUBLISH_BATCHES"

definition new_manifest :: "publish_manifest \<Rightarrow> exn + publish_manifest" where
  "new_manifest m =
     (if [] \<in> {manifest_id m, man_run_id m, man_workspace_id m, source_snapshot_id m, approval_id m}
      then Inl ValueErr
      else if \<not> distinct (map (casefold \<circ> op_path) (operations m)) then Inl ValueErr
      else if \<not> check_batch_position (batch_index m) (batch_count m) then Inl ValueErr
      else Inr (if publication_id m = [] then m\<lparr>publication_id := manifest_id m\<rparr> else m))"

definition has_more_batches :: "publish_manifest \<Rightarrow> bool" where
  "has_more_batches m \<longleftrightarrow> batch_index m < batch_count m"

text \<open>Publication receipts: what the staging baseline needs to know of a published batch.\<close>

record published_operation =
  pub_path :: string
  pub_kind :: op_kind
  pub_sha256 :: "string option"
  pub_mode :: "int option"

definition published_operation_ok :: "published_operation \<Rightarrow> bool" where
  "published_operation_ok p \<longleftrightarrow> ((pub_kind p = Delete) = (pub_sha256 p = None))"

record publication_receipt =
  rec_manifest_id :: string
  rec_run_id :: string
  rec_workspace_id :: string
  rec_snapshot_id :: string
  rec_publication_id :: string
  rec_batch_index :: int
  rec_batch_count :: int
  rec_operations :: "published_operation list"

definition publication_receipt_ok :: "publication_receipt \<Rightarrow> bool" where
  "publication_receipt_ok r \<longleftrightarrow>
     [] \<notin> {rec_manifest_id r, rec_run_id r, rec_workspace_id r, rec_snapshot_id r, rec_publication_id r}
     \<and> length (rec_operations r) \<le> PUBLISH_BATCH_MAX_OPERATIONS
     \<and> check_batch_position (rec_batch_index r) (rec_batch_count r)
     \<and> list_all published_operation_ok (rec_operations r)"

definition published_of :: "publish_operation \<Rightarrow> published_operation" where
  "published_of p = \<lparr>pub_path = op_path p, pub_kind = op_kind p, pub_sha256 = staged_sha256 p,
     pub_mode = staged_mode p\<rparr>"

definition receipt_from_manifest :: "publish_manifest \<Rightarrow> publication_receipt" where
  "receipt_from_manifest m =
     \<lparr>rec_manifest_id = manifest_id m, rec_run_id = man_run_id m,
      rec_workspace_id = man_workspace_id m, rec_snapshot_id = source_snapshot_id m,
      rec_publication_id = publication_id m, rec_batch_index = batch_index m,
      rec_batch_count = batch_count m, rec_operations = map published_of (operations m)\<rparr>"

lemma new_manifest_ok:
  assumes "new_manifest m = Inr m'"
  shows "check_batch_position (batch_index m') (batch_count m')"
    and "distinct (map (casefold \<circ> op_path) (operations m'))"
    and "publication_id m' \<noteq> []" and "operations m' = operations m"
  using assms by (auto simp: new_manifest_def split: if_splits)

lemma published_of_ok:
  assumes "publish_operation_ok sha b64 p"
  shows "published_operation_ok (published_of p)"
proof (cases "op_kind p = Delete")
  case True
  with assms show ?thesis
    by (simp add: published_operation_ok_def published_of_def publish_operation_ok_def)
next
  case False
  with assms obtain b where "staged_sha256 p = Some (sha b)"
    by (auto simp: publish_operation_ok_def split: sum.splits)
  with False show ?thesis
    by (simp add: published_operation_ok_def published_of_def)
qed

text \<open>The receipt of a well-formed manifest is itself well formed, so a published batch can
  always be handed back to the executor.\<close>

lemma receipt_of_manifest_ok:
  assumes "new_manifest m = Inr m'" and "list_all (publish_operation_ok sha b64) (operations m')"
    and "length (operations m') \<le> PUBLISH_BATCH_MAX_OPERATIONS"
  shows "publication_receipt_ok (receipt_from_manifest m')"
proof -
  have "list_all published_operation_ok (map published_of (operations m'))"
    using assms(2) published_of_ok by (auto simp: list_all_iff)
  with assms(1,3) show ?thesis
    by (auto simp: publication_receipt_ok_def receipt_from_manifest_def new_manifest_def
        split: if_splits)
qed

end
