(* ===== verification/Shlex.thy ===== *)
theory Shlex
  imports Prelude
begin

text \<open>
  The shell lexer behind command-scoped rules: the POSIX mode of the standard library's
  \<open>shlex\<close>, and on top of it \<open>bash_command_tokens\<close> and \<open>simple_command\<close> of
  \<open>shared/permissions.py\<close>.
\<close>

section \<open>The lexer\<close>

text \<open>
  The states of \<open>shlex.read_token\<close>: between tokens, in a word, in a run of punctuation, inside
  quotes, after a backslash (with the state to return to).  With \<open>whitespace_split\<close> set, a
  character outside every special class extends a word, so the class of word characters plays
  no part.  A character pushed back by the punctuation rules is read again in state \<open>White\<close>.
\<close>

datatype lex_state = White | Word | Punct | Quoted char | Escaped "char option"

definition lex_space :: "char \<Rightarrow> bool" where
  "lex_space c \<longleftrightarrow> c = CHR '' '' \<or> c = CHR 0x09 \<or> c = CR \<or> c = LF"

definition lex_quote :: "char \<Rightarrow> bool" where
  "lex_quote c \<longleftrightarrow> c = SQUOTE \<or> c = DQUOTE"

definition skip_line :: "string \<Rightarrow> string" where
  "skip_line s = (case dropWhile (\<lambda>c. c \<noteq> LF) s of [] \<Rightarrow> [] | _ # t \<Rightarrow> t)"

lemma skip_line_length: "length (skip_line s) \<le> length s"
  using length_dropWhile_le[of "\<lambda>c. c \<noteq> LF" s]
  by (auto simp: skip_line_def split: list.splits)

definition emit :: "string \<Rightarrow> bool \<Rightarrow> string list option \<Rightarrow> string list option" where
  "emit tok quoted rest = (if tok \<noteq> [] \<or> quoted then map_option ((#) tok) rest else rest)"

text \<open>The arguments: comment characters, punctuation characters, state, token so far, whether
  the token had quotes, input.  \<open>None\<close> is the \<open>ValueError\<close> of an unfinished quote or escape.\<close>

function lex_run ::
  "string \<Rightarrow> string \<Rightarrow> lex_state \<Rightarrow> string \<Rightarrow> bool \<Rightarrow> string \<Rightarrow> string list option" where
  "lex_run cm pu st tok q [] =
     (case st of Quoted _ \<Rightarrow> None | Escaped _ \<Rightarrow> None | _ \<Rightarrow> emit tok q (Some []))"
| "lex_run cm pu White tok q (c # cs) =
     (if lex_space c then
        (if tok \<noteq> [] \<or> q then emit tok q (lex_run cm pu White [] False cs)
         else lex_run cm pu White tok q cs)
      else if c \<in> set cm then lex_run cm pu White tok q (skip_line cs)
      else if c = BACKSLASH then lex_run cm pu (Escaped None) tok q cs
      else if c \<in> set pu then lex_run cm pu Punct [c] q cs
      else if lex_quote c then lex_run cm pu (Quoted c) tok q cs
      else lex_run cm pu Word [c] q cs)"
| "lex_run cm pu (Quoted k) tok q (c # cs) =
     (if c = k then lex_run cm pu Word tok True cs
      else if c = BACKSLASH \<and> k = DQUOTE then lex_run cm pu (Escaped (Some k)) tok True cs
      else lex_run cm pu (Quoted k) (tok @ [c]) True cs)"
| "lex_run cm pu (Escaped None) tok q (c # cs) = lex_run cm pu Word (tok @ [c]) q cs"
| "lex_run cm pu (Escaped (Some k)) tok q (c # cs) =
     lex_run cm pu (Quoted k)
       ((if c \<noteq> BACKSLASH \<and> c \<noteq> k then tok @ [BACKSLASH] else tok) @ [c]) q cs"
| "lex_run cm pu Word tok q (c # cs) =
     (if lex_space c then emit tok q (lex_run cm pu White [] False cs)
      else if c \<in> set cm then emit tok q (lex_run cm pu White [] False (skip_line cs))
      else if lex_quote c then lex_run cm pu (Quoted c) tok q cs
      else if c = BACKSLASH then lex_run cm pu (Escaped None) tok q cs
      else if c \<in> set pu then emit tok q (lex_run cm pu White [] False (c # cs))
      else lex_run cm pu Word (tok @ [c]) q cs)"
| "lex_run cm pu Punct tok q (c # cs) =
     (if lex_space c then emit tok q (lex_run cm pu White [] False cs)
      else if c \<in> set cm then emit tok q (lex_run cm pu White [] False (skip_line cs))
      else if c \<in> set pu then lex_run cm pu Punct (tok @ [c]) q cs
      else emit tok q (lex_run cm pu White [] False (c # cs)))"
  by pat_completeness auto
termination
proof (relation "measures [\<lambda>(cm, pu, st, tok, q, s). length s,
      \<lambda>(cm, pu, st, tok, q, s). if st = White then 0 else 1]", goal_cases)
  case 1
  show ?case by (rule wf_measures)
qed (auto simp: less_Suc_eq_le skip_line_length)

text \<open>\<open>shlex.split(s, posix=True)\<close>: no comments, no punctuation.\<close>

definition shlex_split :: "string \<Rightarrow> string list option" where
  "shlex_split s = lex_run [] [] White [] False s"

text \<open>\<open>list(shlex.shlex(s, posix=True, punctuation_chars=True))\<close> with \<open>whitespace_split\<close>: the
  default comment character stays in force.\<close>

definition shell_operators :: string where
  "shell_operators = ''();<>|&''"

definition shlex_punctuated :: "string \<Rightarrow> string list option" where
  "shlex_punctuated s = lex_run ''#'' shell_operators White [] False s"

section \<open>Command scoping\<close>

definition bash_command_tokens :: "string \<Rightarrow> string option \<times> string list" where
  "bash_command_tokens command =
     (case shlex_split command of
        None \<Rightarrow> (None, [])
      | Some [] \<Rightarrow> (None, [])
      | Some (t # ts) \<Rightarrow> (Some t, ts))"

definition operator_token :: "string \<Rightarrow> bool" where
  "operator_token t \<longleftrightarrow> t \<noteq> [] \<and> set t \<subseteq> set shell_operators"

definition simple_command :: "string \<Rightarrow> bool" where
  "simple_command command =
     (if LF \<in> set command \<or> CR \<in> set command \<or> CHR 0x60 \<in> set command
         \<or> contains command ''$('' then False
      else case shlex_punctuated command of
             None \<Rightarrow> False
           | Some tokens \<Rightarrow> tokens \<noteq> [] \<and> \<not> list_ex operator_token tokens)"

section \<open>What the shell sees\<close>

text \<open>
  The shell's own reading of quotes: whether a control operator stands outside quotes and is
  not escaped.  The first argument is the open quote.
\<close>

fun operator_outside :: "char option \<Rightarrow> string \<Rightarrow> bool" where
  "operator_outside m [] = False"
| "operator_outside None (c # cs) =
     (if c = BACKSLASH then (case cs of [] \<Rightarrow> False | _ # t \<Rightarrow> operator_outside None t)
      else if lex_quote c then operator_outside (Some c) cs
      else c \<in> set shell_operators \<or> operator_outside None cs)"
| "operator_outside (Some k) (c # cs) =
     (if c = k then operator_outside None cs
      else if c = BACKSLASH \<and> k = DQUOTE
      then (case cs of [] \<Rightarrow> False | _ # t \<Rightarrow> operator_outside (Some k) t)
      else operator_outside (Some k) cs)"

text \<open>What the rest of the input shows to the shell when the lexer is in a given state.\<close>

fun pending_operator :: "lex_state \<Rightarrow> string \<Rightarrow> string \<Rightarrow> bool" where
  "pending_operator White tok s = operator_outside None s"
| "pending_operator Word tok s = operator_outside None s"
| "pending_operator Punct tok s = True"
| "pending_operator (Quoted k) tok s = operator_outside (Some k) s"
| "pending_operator (Escaped m) tok s = (case s of [] \<Rightarrow> False | _ # t \<Rightarrow> operator_outside m t)"

definition punct_state_ok :: "lex_state \<Rightarrow> string \<Rightarrow> bool" where
  "punct_state_ok st tok \<longleftrightarrow> (st = Punct \<longrightarrow> operator_token tok)"

lemma emit_Some: "emit tok q r = Some ts \<longleftrightarrow>
    (\<exists>us. r = Some us \<and> ts = (if tok \<noteq> [] \<or> q then tok # us else us))"
  by (auto simp: emit_def)

lemma list_ex_emit:
  "emit tok q r = Some ts \<Longrightarrow> (\<And>us. r = Some us \<Longrightarrow> list_ex P us) \<Longrightarrow> list_ex P ts"
  by (auto simp: emit_Some split: if_splits)

lemma operator_not_special:
  "c \<in> set shell_operators \<Longrightarrow> c \<noteq> BACKSLASH \<and> \<not> lex_quote c \<and> \<not> lex_space c \<and> c \<noteq> CHR ''#''"
  by (auto simp: shell_operators_def lex_quote_def lex_space_def)


lemma outside_space: "lex_space c \<Longrightarrow> operator_outside None (c # cs) = operator_outside None cs"
  by (auto simp: lex_space_def lex_quote_def shell_operators_def)

lemma outside_quote: "lex_quote c \<Longrightarrow> operator_outside None (c # cs) = operator_outside (Some c) cs"
  by (auto simp: lex_quote_def)

lemma outside_plain:
  "c \<noteq> BACKSLASH \<Longrightarrow> \<not> lex_quote c \<Longrightarrow> c \<notin> set shell_operators \<Longrightarrow>
     operator_outside None (c # cs) = operator_outside None cs"
  by simp

lemma punct_state_ok_simps [simp]:
  "punct_state_ok White t" "punct_state_ok Word t" "punct_state_ok (Quoted k) t"
  "punct_state_ok (Escaped m) t" "punct_state_ok Punct t = operator_token t"
  by (simp_all add: punct_state_ok_def)

lemma lex_run_finds_operator:
  assumes "lex_run cm pu st tok q s = Some ts" and "set cm \<inter> set s = {}"
    and "set pu = set shell_operators" and "pending_operator st tok s" and "punct_state_ok st tok"
  shows "list_ex operator_token ts"
  using assms
proof (induction cm pu st tok q s arbitrary: ts rule: lex_run.induct)
  case (1 cm pu st tok q)
  then show ?case
    by (cases st) (auto simp: emit_def operator_token_def split: if_splits)
next
  case (2 cm pu tok q c cs)
  from 2(9,10) have cm: "c \<notin> set cm" "set cm \<inter> set cs = {}" by auto
  consider "lex_space c" "tok \<noteq> [] \<or> q" | "lex_space c" "\<not> (tok \<noteq> [] \<or> q)"
    | "\<not> lex_space c" "c = BACKSLASH" | "\<not> lex_space c" "c \<noteq> BACKSLASH" "c \<in> set pu"
    | "\<not> lex_space c" "c \<noteq> BACKSLASH" "c \<notin> set pu" "lex_quote c"
    | "\<not> lex_space c" "c \<noteq> BACKSLASH" "c \<notin> set pu" "\<not> lex_quote c" by blast
  then show ?case
  proof cases
    case 1
    with "2.prems" 2(1) cm show ?thesis
      by (auto simp: emit_Some outside_space simp del: operator_outside.simps)
  next
    case 2
    with "2.prems" "2.IH"(2) cm show ?thesis
      by (simp add: outside_space del: operator_outside.simps)
  next
    case 3
    with "2.prems" 2(4) cm show ?thesis by simp
  next
    case 4
    with "2.prems" 2(5) cm show ?thesis by (simp add: operator_token_def)
  next
    case 5
    with "2.prems" 2(6) cm show ?thesis
      by (simp add: outside_quote del: operator_outside.simps)
  next
    case 6
    with "2.prems" 2(7) cm show ?thesis
      by (simp add: outside_plain del: operator_outside.simps)
  qed
next
  case (3 cm pu k tok q c cs)
  then show ?case by (cases "c = k"; cases "c = BACKSLASH \<and> k = DQUOTE") auto
next
  case (4 cm pu tok q c cs)
  then show ?case by simp
next
  case (5 cm pu k tok q c cs)
  then show ?case by simp
next
  case (6 cm pu tok q c cs)
  from 6(8,9) have cm: "c \<notin> set cm" "set cm \<inter> set cs = {}" by auto
  consider "lex_space c" | "\<not> lex_space c" "lex_quote c"
    | "\<not> lex_space c" "\<not> lex_quote c" "c = BACKSLASH"
    | "\<not> lex_space c" "\<not> lex_quote c" "c \<noteq> BACKSLASH" "c \<in> set pu"
    | "\<not> lex_space c" "\<not> lex_quote c" "c \<noteq> BACKSLASH" "c \<notin> set pu" by blast
  then show ?case
  proof cases
    case 1
    with "6.prems" 6(1) cm show ?thesis
      by (auto simp: emit_Some outside_space simp del: operator_outside.simps split: if_splits)
  next
    case 2
    with "6.prems" 6(3) cm show ?thesis
      by (simp add: outside_quote del: operator_outside.simps)
  next
    case 3
    with "6.prems" 6(4) cm show ?thesis by simp
  next
    case 4
    with "6.prems" 6(5) cm show ?thesis
      by (auto simp: emit_Some simp del: lex_run.simps(2) split: if_splits)
  next
    case 5
    with "6.prems" 6(6) cm show ?thesis
      by (simp add: outside_plain del: operator_outside.simps)
  qed
next
  case (7 cm pu tok q c cs)
  then have "tok \<noteq> []" "operator_token tok" by (auto simp: operator_token_def)
  from 7(6,7) have cm: "c \<notin> set cm" by auto
  show ?case
  proof (cases "\<not> lex_space c \<and> c \<in> set pu")
    case True
    with 7 cm show ?thesis by (auto simp: operator_token_def)
  next
    case False
    with 7(5) cm \<open>tok \<noteq> []\<close> have "tok \<in> set ts"
      by (auto simp: emit_Some simp del: lex_run.simps(2) split: if_splits)
    with \<open>operator_token tok\<close> show ?thesis by (auto simp: list_ex_iff)
  qed
qed

text \<open>A command accepted as simple shows the shell no control operator, as long as it holds no
  comment character.\<close>

lemma simple_command_operator_free:
  assumes "simple_command s" and "CHR ''#'' \<notin> set s"
  shows "\<not> operator_outside None s"
proof
  assume op: "operator_outside None s"
  from assms(1) obtain ts where ts: "lex_run ''#'' shell_operators White [] False s = Some ts"
      "\<not> list_ex operator_token ts"
    by (auto simp: simple_command_def shlex_punctuated_def split: if_splits option.splits)
  from lex_run_finds_operator[OF ts(1)] assms(2) op ts(2) show False by simp
qed

lemmas lex_eval = simple_command_def shlex_punctuated_def operator_token_def shell_operators_def
  lex_space_def lex_quote_def skip_line_def emit_def bash_command_tokens_def shlex_split_def

end
