(* ===== verification/Permissions.thy ===== *)
theory Permissions
  imports Tools Shlex
begin

text \<open>
  Saved permission rules and their resolution (\<open>shared/permissions.py\<close>): what a rule matches,
  how the rules of a workspace decide a request, and how the session's approval policy resolves
  the remaining questions.
\<close>

section \<open>Rules\<close>

datatype decision = DENY | ASK | ALLOW_ONCE | ALLOW_RUN | ALLOW_RULE

record permission_rule =
  rule_id :: string
  rule_decision :: decision
  rule_workspace :: string
  rule_mode :: string
  rule_tool :: string
  path_prefix :: "string option"
  executable :: "string option"
  argument_prefix :: "string list"
  enabled :: bool

text \<open>\<open>str(value or "")\<close> for an argument value; \<open>repr\<close> renders the values that are not text.\<close>

definition py_str :: "(pyval \<Rightarrow> string) \<Rightarrow> pyval \<Rightarrow> string" where
  "py_str repr v =
     (if \<not> truthy v then [] else case v of PStr s \<Rightarrow> s | PInt n \<Rightarrow> str_int n | _ \<Rightarrow> repr v)"

fun dict_items :: "pyval \<Rightarrow> pydict list" where
  "dict_items (PDict d) = [d]"
| "dict_items _ = []"

definition request_paths :: "(pyval \<Rightarrow> string) \<Rightarrow> tool_request \<Rightarrow> string list" where
  "request_paths repr r =
     (if tool r = ''apply_patch'' then
        (case dget (arguments r) ''operations'' of
           PList items \<Rightarrow> map (\<lambda>d. py_str repr (dget d ''path'')) (concat (map dict_items items))
         | _ \<Rightarrow> [])
      else [py_str repr (dget (arguments r) ''path'')])"

definition in_scope :: "string \<Rightarrow> string option \<Rightarrow> bool" where
  "in_scope pre p = (case p of None \<Rightarrow> False | Some q \<Rightarrow> q = pre \<or> startswith q (pre @ ''/''))"

definition path_scope_ok :: "(pyval \<Rightarrow> string) \<Rightarrow> permission_rule \<Rightarrow> tool_request \<Rightarrow> bool" where
  "path_scope_ok repr rule r =
     (case path_prefix rule of
        None \<Rightarrow> True
      | Some pp \<Rightarrow>
          (let paths = map permission_path (request_paths repr r)
           in case permission_path pp of
                None \<Rightarrow> False
              | Some pre \<Rightarrow> paths \<noteq> [] \<and> None \<notin> set paths \<and> list_all (in_scope pre) paths))"

definition command_of :: "(pyval \<Rightarrow> string) \<Rightarrow> tool_request \<Rightarrow> string" where
  "command_of repr r = py_str repr (dget (arguments r) ''command'')"

definition command_scope_ok :: "(pyval \<Rightarrow> string) \<Rightarrow> permission_rule \<Rightarrow> tool_request \<Rightarrow> bool" where
  "command_scope_ok repr rule r =
     (case executable rule of
        None \<Rightarrow> True
      | Some e \<Rightarrow>
          tool r = ''bash''
          \<and> (let (exe, args) = bash_command_tokens (command_of repr r)
             in exe = Some e \<and> take (length (argument_prefix rule)) args = argument_prefix rule)
          \<and> (rule_decision rule = DENY \<or> simple_command (command_of repr r)))"

definition rule_matches ::
  "(pyval \<Rightarrow> string) \<Rightarrow> permission_rule \<Rightarrow> tool_request \<Rightarrow> string \<Rightarrow> bool" where
  "rule_matches repr rule r ws \<longleftrightarrow>
     enabled rule \<and> rule_workspace rule = ws \<and> rule_mode rule = mode r \<and> rule_tool rule = tool r
     \<and> path_scope_ok repr rule r
     \<and> \<not> (tool r = ''bash'' \<and> executable rule = None \<and> rule_decision rule \<noteq> DENY)
     \<and> command_scope_ok repr rule r"

section \<open>Creating a rule\<close>

definition MAX_RULE_COMMAND_CHARS :: nat where "MAX_RULE_COMMAND_CHARS = 500"

definition RULE_FIELDS :: "string list" where
  "RULE_FIELDS = [''workspace_id'', ''mode'', ''tool'', ''decision'', ''path_prefix'', ''command'',
     ''enabled'']"

fun rule_decision_of :: "pyval \<Rightarrow> exn + decision" where
  "rule_decision_of (PStr s) =
     (if s = ''allow_rule'' then Inr ALLOW_RULE else if s = ''ask'' then Inr ASK
      else if s = ''deny'' then Inr DENY else Inl ValueErr)"
| "rule_decision_of _ = Inl ValueErr"

text \<open>Testing membership in a Python \<open>set\<close> hashes the value: lists and tables raise.\<close>

fun rule_mode_of :: "pyval \<Rightarrow> exn + string" where
  "rule_mode_of (PStr s) = (if s = ''agent'' \<or> s = ''plan'' then Inr s else Inl ValueErr)"
| "rule_mode_of (PList _) = Inl TypeErr"
| "rule_mode_of (PDict _) = Inl TypeErr"
| "rule_mode_of _ = Inl ValueErr"

fun rule_enabled_of :: "pyval \<Rightarrow> exn + bool" where
  "rule_enabled_of (PBool b) = Inr b"
| "rule_enabled_of _ = Inl ValueErr"

fun absent_text :: "pyval \<Rightarrow> bool" where
  "absent_text PNone = True"
| "absent_text (PStr s) = (s = [])"
| "absent_text _ = False"

definition rule_prefix_of :: "pyval \<Rightarrow> exn + string option" where
  "rule_prefix_of v =
     (if absent_text v then Inr None
      else case v of
          PStr s \<Rightarrow> (case relative_posix_path s of None \<Rightarrow> Inl ValueErr | Some p \<Rightarrow> Inr (Some p))
        | _ \<Rightarrow> Inl ValueErr)"

definition rule_command_of :: "string \<Rightarrow> pyval \<Rightarrow> exn + (string option \<times> string list)" where
  "rule_command_of tn v =
     (if absent_text v then Inr (None, [])
      else if tn \<noteq> ''bash'' then Inl ValueErr
      else case v of
          PStr s \<Rightarrow>
            (if py_len s > MAX_RULE_COMMAND_CHARS then Inl ValueErr
             else let (exe, args) = bash_command_tokens s
               in if exe = None then Inl ValueErr else Inr (exe, args))
        | _ \<Rightarrow> Inl ValueErr)"

definition new_permission_rule :: "string \<Rightarrow> string \<Rightarrow> pyval \<Rightarrow> exn + permission_rule" where
  "new_permission_rule rid ws spec =
     (case spec of
        PDict d \<Rightarrow>
          (if \<not> set (dkeys d) \<subseteq> set RULE_FIELDS then Inl ValueErr
           else if \<not> in_texts (dget d ''tool'') EXECUTOR_TOOLS then Inl ValueErr
           else let tn = text_of (dget d ''tool'') in
             rbind (rule_decision_of (dget_or d ''decision'' (PStr ''allow_rule''))) (\<lambda>dec.
             rbind (rule_mode_of (dget_or d ''mode'' (PStr ''agent''))) (\<lambda>md.
             rbind (rule_enabled_of (dget_or d ''enabled'' (PBool True))) (\<lambda>en.
             rbind (rule_prefix_of (dget d ''path_prefix'')) (\<lambda>pp.
             rbind (rule_command_of tn (dget d ''command'')) (\<lambda>(exe, args).
               if tn = ''bash'' \<and> exe = None \<and> dec \<noteq> DENY then Inl ValueErr
               else if tn = ''bash'' \<and> pp \<noteq> None then Inl ValueErr
               else Inr \<lparr>rule_id = rid, rule_decision = dec, rule_workspace = ws,
                 rule_mode = md, rule_tool = tn, path_prefix = pp, executable = exe,
                 argument_prefix = args, enabled = en\<rparr>))))))
      | _ \<Rightarrow> Inl ValueErr)"

section \<open>The scope offered for a new rule\<close>

text \<open>Leading segments shared by all the lists: \<open>zip\<close> stops at the shortest.\<close>

function shared_segments :: "string list list \<Rightarrow> string list" where
  "shared_segments [] = []"
| "shared_segments (ps # pss) =
     (case ps of [] \<Rightarrow> []
      | s # ss \<Rightarrow>
          (if list_all (\<lambda>qs. qs \<noteq> [] \<and> hd qs = s) pss
           then s # shared_segments (ss # map tl pss) else []))"
  by pat_completeness auto
termination
  by (relation "measure (\<lambda>pss. case pss of [] \<Rightarrow> 0 | ps # _ \<Rightarrow> length ps)") auto

definition rule_scope :: "(pyval \<Rightarrow> string) \<Rightarrow> tool_request \<Rightarrow> string option" where
  "rule_scope repr r =
     (let paths = filter (\<lambda>p. p \<noteq> []) (request_paths repr r)
      in if tool r \<noteq> ''apply_patch'' then (case paths of [] \<Rightarrow> None | p # _ \<Rightarrow> Some p)
         else let normalized = map permission_path paths
           in if normalized = [] \<or> None \<in> set normalized then None
              else let parts = map (\<lambda>p. butlast (split_on (CHR ''/'') (the p)))
                         (filter (\<lambda>p. p \<noteq> Some []) normalized);
                       sc = join ''/'' (shared_segments parts)
                in if sc = [] then None else Some sc)"

section \<open>Resolution\<close>

definition rule_specificity :: "permission_rule \<Rightarrow> nat" where
  "rule_specificity rule =
     (case permission_path (case path_prefix rule of None \<Rightarrow> ''.'' | Some [] \<Rightarrow> ''.'' | Some p \<Rightarrow> p) of
        None \<Rightarrow> 0 | Some p \<Rightarrow> py_len p)"

definition resolve_permission ::
  "(pyval \<Rightarrow> string) \<Rightarrow> tool_request \<Rightarrow> string \<Rightarrow> permission_rule list \<Rightarrow> decision" where
  "resolve_permission repr r ws rules =
     (if mode r = ''plan'' \<and> tool r \<in> set MUTATION_TOOLS then DENY
      else if tool r \<notin> set (READ_TOOLS @ MUTATION_TOOLS) then DENY
      else let matching = filter (\<lambda>rule. rule_matches repr rule r ws) rules
        in if DENY \<in> set (map rule_decision matching) then DENY
           else if ASK \<in> set (map rule_decision matching) then ASK
           else if matching \<noteq> [] then
             rule_decision (hd (sort_key (\<lambda>rule. - int (rule_specificity rule)) matching))
           else if tool r \<in> set READ_TOOLS then ALLOW_RUN else ASK)"

definition apply_approval_policy :: "decision \<Rightarrow> tool_request \<Rightarrow> string \<Rightarrow> bool \<Rightarrow> decision" where
  "apply_approval_policy d r policy network =
     (if d \<noteq> ASK then d
      else if mode r \<noteq> ''agent'' then ASK
      else if tool r = ''bash'' \<and> network then ASK
      else if policy = ''auto'' then ALLOW_RUN
      else if policy = ''sandbox'' \<and> tool r \<in> set MUTATION_TOOLS then ALLOW_RUN
      else ASK)"

definition bash_can_prompt :: "string \<Rightarrow> bool \<Rightarrow> bool" where
  "bash_can_prompt policy network \<longleftrightarrow> policy = ''prompt'' \<or> network"

text \<open>The decision a run acts on: the rules first, then the session's policy.\<close>

definition effective_decision ::
  "(pyval \<Rightarrow> string) \<Rightarrow> tool_request \<Rightarrow> string \<Rightarrow> permission_rule list \<Rightarrow> string \<Rightarrow> bool \<Rightarrow> decision" where
  "effective_decision repr r ws rules policy network =
     apply_approval_policy (resolve_permission repr r ws rules) r policy network"

definition allows :: "decision \<Rightarrow> bool" where
  "allows d \<longleftrightarrow> d = ALLOW_ONCE \<or> d = ALLOW_RUN \<or> d = ALLOW_RULE"

section \<open>Lemmas\<close>

lemma read_not_mutation: "t \<in> set READ_TOOLS \<Longrightarrow> t \<notin> set MUTATION_TOOLS"
  by (auto simp: tool_group_defs)

lemma allows_iff: "allows d \<longleftrightarrow> d \<noteq> DENY \<and> d \<noteq> ASK"
  by (cases d) (auto simp: allows_def)

lemma hd_sort_key_in: "xs \<noteq> [] \<Longrightarrow> hd (sort_key f xs) \<in> set xs"
  by (metis hd_in_set set_sort set_empty)

lemma hd_sort_key_le: "x \<in> set xs \<Longrightarrow> f (hd (sort_key f xs)) \<le> f x"
proof -
  assume "x \<in> set xs"
  then have x: "x \<in> set (sort_key f xs)" and s: "sorted (map f (sort_key f xs))" by simp_all
  then show ?thesis by (cases "sort_key f xs") auto
qed

lemma resolve_permission_cases:
  assumes "allows (resolve_permission repr r ws rules)"
  shows "tool r \<in> set READ_TOOLS \<and> resolve_permission repr r ws rules = ALLOW_RUN
     \<or> (\<exists>rule\<in>set rules. rule_matches repr rule r ws \<and> allows (rule_decision rule)
          \<and> resolve_permission repr r ws rules = rule_decision rule)"
proof -
  let ?m = "filter (\<lambda>rule. rule_matches repr rule r ws) rules"
  show ?thesis
  proof (cases "?m = []")
    case True
    with assms show ?thesis
      by (auto simp: resolve_permission_def Let_def allows_iff split: if_splits)
  next
    case False
    let ?h = "hd (sort_key (\<lambda>rule. - int (rule_specificity rule)) ?m)"
    from hd_sort_key_in[OF False] have "?h \<in> set rules" "rule_matches repr ?h r ws" by auto
    moreover from assms False have "resolve_permission repr r ws rules = rule_decision ?h"
      by (auto simp: resolve_permission_def Let_def allows_iff split: if_splits)
    ultimately show ?thesis using assms by auto
  qed
qed

lemma rule_matches_bash:
  assumes "rule_matches repr rule r ws" and "tool r = ''bash''" and "rule_decision rule \<noteq> DENY"
  shows "\<exists>e. executable rule = Some e
     \<and> (\<exists>rest. bash_command_tokens (command_of repr r) = (Some e, argument_prefix rule @ rest))
     \<and> simple_command (command_of repr r)"
proof -
  from assms obtain e where e: "executable rule = Some e" "command_scope_ok repr rule r"
    by (auto simp: rule_matches_def)
  obtain exe args where t: "bash_command_tokens (command_of repr r) = (exe, args)"
    by (cases "bash_command_tokens (command_of repr r)")
  with e assms(3) have "exe = Some e" "take (length (argument_prefix rule)) args = argument_prefix rule"
      "simple_command (command_of repr r)"
    by (auto simp: command_scope_ok_def)
  moreover from this(2) have "args = argument_prefix rule @ drop (length (argument_prefix rule)) args"
    by (metis append_take_drop_id)
  ultimately show ?thesis using e(1) t by (metis (no_types))
qed

lemma new_permission_rule_bash:
  assumes "new_permission_rule rid ws spec = Inr rule" and "rule_tool rule = ''bash''"
  shows "path_prefix rule = None \<and> (rule_decision rule = DENY \<or> executable rule \<noteq> None)"
  using assms
  by (auto simp: new_permission_rule_def Let_def split: pyval.splits if_splits)

lemma resolve_known:
  assumes "tool r \<in> set READ_TOOLS \<union> set MUTATION_TOOLS"
    and "mode r = ''plan'' \<longrightarrow> tool r \<notin> set MUTATION_TOOLS"
    and "\<forall>rule\<in>set rules. rule_matches repr rule r ws \<longrightarrow> rule_decision rule \<noteq> DENY"
    and "resolve_permission repr r ws rules = D"
  shows "D \<noteq> DENY \<and> (D = ASK \<longleftrightarrow>
     \<not> ((\<forall>rule\<in>set rules. rule_matches repr rule r ws \<longrightarrow> rule_decision rule \<noteq> ASK)
        \<and> (tool r \<in> set READ_TOOLS \<or> (\<exists>rule\<in>set rules. rule_matches repr rule r ws))))"
proof -
  let ?m = "filter (\<lambda>rule. rule_matches repr rule r ws) rules"
  let ?h = "hd (sort_key (\<lambda>rule. - int (rule_specificity rule)) ?m)"
  have nd: "DENY \<notin> set (map rule_decision ?m)" using assms(3) by auto
  have D: "D = (if ASK \<in> set (map rule_decision ?m) then ASK
      else if ?m \<noteq> [] then rule_decision ?h else if tool r \<in> set READ_TOOLS then ALLOW_RUN else ASK)"
    using assms(1,2,4) nd by (auto simp: resolve_permission_def Let_def simp del: set_map set_filter)
  show ?thesis
  proof (cases "?m = []")
    case True
    with D show ?thesis by (auto simp: filter_empty_conv)
  next
    case False
    from hd_sort_key_in[OF False] have h: "?h \<in> set ?m" .
    then have "rule_decision ?h \<noteq> DENY" using assms(3) by auto
    with D False h show ?thesis by (auto simp: filter_empty_conv image_iff)
  qed
qed

lemma effective_decision_allows:
  assumes "allows (effective_decision repr r ws rules policy network)"
  shows "tool r \<in> set READ_TOOLS \<or> (\<exists>rule\<in>set rules. rule_matches repr rule r ws \<and> rule_decision rule \<noteq> DENY)
    \<or> \<not> (tool r = ''bash'' \<and> network) \<and> (policy = ''auto'' \<or> policy = ''sandbox'')"
  using assms resolve_permission_cases[of repr r ws rules]
  by (auto simp: effective_decision_def apply_approval_policy_def allows_iff split: if_splits)

section \<open>Sample rules and requests\<close>

definition sample_bash_rule :: permission_rule where
  "sample_bash_rule = \<lparr>rule_id = ''id'', rule_decision = ALLOW_RULE, rule_workspace = ''ws'',
    rule_mode = ''agent'', rule_tool = ''bash'', path_prefix = None, executable = Some ''pytest'',
    argument_prefix = [], enabled = True\<rparr>"

definition sample_bash_request :: "string \<Rightarrow> tool_request" where
  "sample_bash_request c = \<lparr>request_id = ''1'', run_id = ''2'', tool = ''bash'', mode = ''agent'',
     arguments = [(''command'', PStr c)]\<rparr>"

definition sample_bash_spec :: pydict where
  "sample_bash_spec = [(''tool'', PStr ''bash''), (''command'', PStr ''pytest'')]"

definition sample_path_rule :: permission_rule where
  "sample_path_rule = \<lparr>rule_id = ''id'', rule_decision = ALLOW_RULE, rule_workspace = ''ws'',
    rule_mode = ''agent'', rule_tool = ''write'', path_prefix = Some ''src'', executable = None,
    argument_prefix = [], enabled = True\<rparr>"

definition sample_write_request :: tool_request where
  "sample_write_request = \<lparr>request_id = ''1'', run_id = ''2'', tool = ''write'', mode = ''agent'',
     arguments = [(''path'', PStr ''SRC/a.py'')]\<rparr>"

lemma sample_tokens:
  "bash_command_tokens ''pytest'' = (Some ''pytest'', [])"
  "bash_command_tokens ''pytest -q'' = (Some ''pytest'', [''-q''])"
  "bash_command_tokens ''pytest a#;curl evil'' = (Some ''pytest'', [''a#;curl'', ''evil''])"
  "simple_command ''pytest -q''" "simple_command ''pytest a#;curl evil''"
  "operator_outside None ''pytest a#;curl evil''"
  by (simp_all add: lex_eval)

lemma sample_command_of: "command_of repr (sample_bash_request c) = c"
  by (cases "c = []") (simp_all add: command_of_def sample_bash_request_def dget_def py_str_def)

lemma sample_rule_created:
  "new_permission_rule ''id'' ''ws'' (PDict sample_bash_spec) = Inr sample_bash_rule"
  by (simp add: new_permission_rule_def sample_bash_spec_def sample_bash_rule_def dkeys_def
      RULE_FIELDS_def dget_def dget_or_def EXECUTOR_TOOLS_def rule_prefix_of_def rule_command_of_def
      sample_tokens py_len_def MAX_RULE_COMMAND_CHARS_def ord_def)

lemma sample_rule_matches:
  "rule_matches repr sample_bash_rule (sample_bash_request c) ''ws'' \<longleftrightarrow>
     fst (bash_command_tokens c) = Some ''pytest'' \<and> simple_command c"
  by (auto simp: rule_matches_def path_scope_ok_def command_scope_ok_def sample_command_of
      sample_bash_rule_def split: prod.splits) (auto simp: sample_bash_request_def)

lemma sample_decision:
  "rule_matches repr sample_bash_rule (sample_bash_request c) ''ws'' \<Longrightarrow>
     effective_decision repr (sample_bash_request c) ''ws'' [sample_bash_rule] ''prompt'' True = ALLOW_RULE"
  by (simp add: effective_decision_def resolve_permission_def apply_approval_policy_def tool_group_defs)
    (simp add: sample_bash_request_def sample_bash_rule_def)

lemma sample_paths:
  "permission_path ''src'' = Some ''src''" "permission_path ''SRC/a.py'' = Some ''src/a.py''"
  by code_simp+
lemma sample_path_rule_matches:
  "rule_matches (\<lambda>_. []) sample_path_rule sample_write_request ''ws''"
  by (simp add: rule_matches_def path_scope_ok_def command_scope_ok_def sample_path_rule_def
      sample_write_request_def request_paths_def dget_def py_str_def sample_paths in_scope_def startswith_def)

section \<open>Properties\<close>

text \<open>When the two functions allow a request, for every tool name.  The gateway hands them the requests for
  the executor only: it dispatches its own tools before (\<open>_execute_call\<close> in \<open>server/agent/runtime.py\<close>), and asks
  for the addresses of \<open>fetch_url\<close> there, so what this says of them never comes into force.\<close>

lemma decision_allows_iff:
  "allows (effective_decision repr r ws rules policy network) \<longleftrightarrow>
     tool r \<in> set READ_TOOLS \<union> set MUTATION_TOOLS
     \<and> (mode r = ''plan'' \<longrightarrow> tool r \<notin> set MUTATION_TOOLS)
     \<and> (\<forall>rule\<in>set rules. rule_matches repr rule r ws \<longrightarrow> rule_decision rule \<noteq> DENY)
     \<and> ((\<forall>rule\<in>set rules. rule_matches repr rule r ws \<longrightarrow> rule_decision rule \<noteq> ASK)
           \<and> (tool r \<in> set READ_TOOLS \<or> (\<exists>rule\<in>set rules. rule_matches repr rule r ws))
        \<or> mode r = ''agent'' \<and> \<not> (tool r = ''bash'' \<and> network)
           \<and> (policy = ''auto'' \<or> policy = ''sandbox'' \<and> tool r \<in> set MUTATION_TOOLS))"
  (is "?L = (?known \<and> ?plan \<and> ?nodeny \<and> (?noask \<and> ?rule \<or> ?policy))")
proof -
  define D where "D = resolve_permission repr r ws rules"
  have pol: "?L \<longleftrightarrow> (if D = ASK then ?policy else D \<noteq> DENY)"
    by (auto simp: effective_decision_def D_def[symmetric] apply_approval_policy_def allows_iff)
  show ?thesis
  proof (cases "?known \<and> ?plan \<and> ?nodeny")
    case False
    then have "D = DENY"
      by (auto simp: D_def resolve_permission_def Let_def image_iff)
    with pol False show ?thesis by auto
  next
    case True
    then have "D \<noteq> DENY \<and> (D = ASK \<longleftrightarrow> \<not> (?noask \<and> ?rule))"
      using resolve_known[OF _ _ _ D_def[symmetric]] by auto
    with pol True show ?thesis by auto
  qed
qed

text \<open>Claim C9. Complete characterisation of when a request to the executor runs without asking: Plan mode never
  mutates, no matching rule denies, and either a reading tool of the executor or a matching rule decides with no
  ask rule in the way, or the session policy resolves the question, which it does in Agent mode only, for
  mutations when sandboxed and for everything when automatic, and never for networked Bash.\<close>

theorem effective_decision_allows_iff:
  assumes "tool r \<in> set EXECUTOR_TOOLS"
  shows "allows (effective_decision repr r ws rules policy network) \<longleftrightarrow>
     (mode r = ''plan'' \<longrightarrow> tool r \<notin> set MUTATION_TOOLS)
     \<and> (\<forall>rule\<in>set rules. rule_matches repr rule r ws \<longrightarrow> rule_decision rule \<noteq> DENY)
     \<and> ((\<forall>rule\<in>set rules. rule_matches repr rule r ws \<longrightarrow> rule_decision rule \<noteq> ASK)
           \<and> (tool r \<in> set PLAN_EXECUTOR_TOOLS \<or> (\<exists>rule\<in>set rules. rule_matches repr rule r ws))
        \<or> mode r = ''agent'' \<and> \<not> (tool r = ''bash'' \<and> network)
           \<and> (policy = ''auto'' \<or> policy = ''sandbox'' \<and> tool r \<in> set MUTATION_TOOLS))"
proof -
  have "list_all (\<lambda>t. (t \<in> set READ_TOOLS) = (t \<in> set PLAN_EXECUTOR_TOOLS) \<and> t \<in> set READ_TOOLS \<union> set MUTATION_TOOLS) EXECUTOR_TOOLS"
    by code_simp
  with assms have "(tool r \<in> set READ_TOOLS) = (tool r \<in> set PLAN_EXECUTOR_TOOLS)" "tool r \<in> set READ_TOOLS \<union> set MUTATION_TOOLS"
    by (auto simp: list_all_iff)
  then show ?thesis unfolding decision_allows_iff by simp
qed

theorem effective_decision_allows_iff_witness:
  "allows (effective_decision (\<lambda>_. []) \<lparr>request_id = ''1'', run_id = ''2'', tool = ''write'',
     mode = ''agent'', arguments = []\<rparr> ''w'' [] ''sandbox'' True)
   \<and> \<not> allows (effective_decision (\<lambda>_. []) (sample_bash_request ''pytest -q'') ''ws'' [] ''auto'' True)"
  by (rule conjI, rule effective_decision_allows_iff[THEN iffD2], simp add: tool_group_defs, simp add: tool_group_defs,
      subst effective_decision_allows_iff) (simp_all add: sample_bash_request_def tool_group_defs)

text \<open>Claim C31. A command runs without a prompt where Bash can prompt only through a saved rule that
  names its executable and argument prefix, and only if it is a simple command: without a
  comment character in it, the shell sees no list, pipeline, redirection or subshell.\<close>

theorem bash_allowed_only_by_rule:
  assumes "tool r = ''bash''" and "bash_can_prompt policy network"
    and "allows (effective_decision repr r ws rules policy network)"
  shows "\<exists>rule\<in>set rules. enabled rule \<and> rule_workspace rule = ws \<and> rule_mode rule = mode r
     \<and> (\<exists>e rest. executable rule = Some e
          \<and> bash_command_tokens (command_of repr r) = (Some e, argument_prefix rule @ rest))
     \<and> simple_command (command_of repr r)
     \<and> (CHR ''#'' \<in> set (command_of repr r) \<or> \<not> operator_outside None (command_of repr r))"
proof -
  have "tool r \<notin> set READ_TOOLS" using assms(1) by (simp add: tool_group_defs)
  with effective_decision_allows[OF assms(3)] assms(1,2)
  obtain rule where rule: "rule \<in> set rules" "rule_matches repr rule r ws"
      "rule_decision rule \<noteq> DENY"
    by (auto simp: bash_can_prompt_def)
  from rule_matches_bash[OF rule(2) assms(1) rule(3)] simple_command_operator_free
  have "\<exists>e rest. executable rule = Some e
          \<and> bash_command_tokens (command_of repr r) = (Some e, argument_prefix rule @ rest)"
    and "simple_command (command_of repr r)"
    and "CHR ''#'' \<in> set (command_of repr r) \<or> \<not> operator_outside None (command_of repr r)"
    by blast+
  with rule show ?thesis by (auto simp: rule_matches_def)
qed

theorem bash_allowed_only_by_rule_witness:
  "simple_command (command_of (\<lambda>_. []) (sample_bash_request ''pytest -q''))"
proof -
  have "allows (effective_decision (\<lambda>_. []) (sample_bash_request ''pytest -q'') ''ws''
      [sample_bash_rule] ''prompt'' True)"
    by (simp add: sample_decision sample_rule_matches sample_tokens allows_def)
  from bash_allowed_only_by_rule[OF _ _ this] show ?thesis
    by (auto simp: sample_bash_request_def bash_can_prompt_def)
qed

text \<open>The comment character defeats that protection: with a saved rule that allows
  \<open>pytest\<close>, a command in which the shell sees a second command after a semicolon is classified
  as simple and runs without a prompt, although the runner has network access.\<close>

theorem comment_hides_second_command:
  "\<exists>rule command.
     new_permission_rule ''id'' ''ws'' (PDict sample_bash_spec) = Inr rule
     \<and> operator_outside None command \<and> CHR '';'' \<in> set command
     \<and> effective_decision repr (sample_bash_request command) ''ws'' [rule] ''prompt'' True = ALLOW_RULE"
proof -
  let ?c = "''pytest a#;curl evil''"
  have "rule_matches repr sample_bash_rule (sample_bash_request ?c) ''ws''"
    by (simp only: sample_rule_matches sample_tokens) simp
  then have "effective_decision repr (sample_bash_request ?c) ''ws'' [sample_bash_rule] ''prompt'' True = ALLOW_RULE"
    by (rule sample_decision)
  moreover have "CHR '';'' \<in> set ?c" by simp
  ultimately show ?thesis using sample_rule_created sample_tokens(6) by blast
qed

text \<open>A path-scoped rule covers a request only if every path the request names, each
  operation of a multi-file patch included, lies at or below the rule's prefix.\<close>

theorem path_rule_covers_every_path:
  assumes "rule_matches repr rule r ws" and "path_prefix rule = Some pp" and "p \<in> set (request_paths repr r)"
  shows "\<exists>pre q. permission_path pp = Some pre \<and> permission_path p = Some q
     \<and> (q = pre \<or> (\<exists>rest. q = pre @ ''/'' @ rest))"
proof -
  from assms have "path_scope_ok repr rule r" by (simp add: rule_matches_def)
  with assms(2) obtain pre where pre: "permission_path pp = Some pre"
      "None \<notin> permission_path ` set (request_paths repr r)"
      "\<forall>q\<in>set (request_paths repr r). in_scope pre (permission_path q)"
    by (auto simp: path_scope_ok_def Let_def list_all_iff split: option.splits)
  with assms(3) obtain q where "permission_path p = Some q" by (metis image_eqI not_None_eq)
  with pre assms(3) show ?thesis by (fastforce simp: in_scope_def startswith_iff)
qed

theorem path_rule_covers_every_path_witness:
  "\<exists>q. permission_path ''SRC/a.py'' = Some q \<and> (q = ''src'' \<or> (\<exists>rest. q = ''src'' @ ''/'' @ rest))"
proof -
  have "rule_matches (\<lambda>_. []) sample_path_rule sample_write_request ''ws''" by (rule sample_path_rule_matches)
  from path_rule_covers_every_path[OF this, of "''src''" "''SRC/a.py''"] show ?thesis
    by (auto simp: sample_path_rule_def sample_write_request_def request_paths_def dget_def
        py_str_def permission_path_def relative_posix_path_def backslash_to_slash_def
        posix_parts_def casefold_def ascii_lower_def ord_def)
qed


text \<open>A saved Bash rule never widens: whatever it matches starts with exactly the
  executable and arguments of the command prefix it was created from.\<close>

theorem saved_bash_rule_never_widens:
  assumes "new_permission_rule rid ws (PDict d) = Inr rule" and "rule_tool rule = ''bash''"
    and "rule_decision rule \<noteq> DENY" and "rule_matches repr rule r ws'"
  shows "\<exists>e args rest. bash_command_tokens (text_of (dget d ''command'')) = (Some e, args)
     \<and> bash_command_tokens (command_of repr r) = (Some e, args @ rest)
     \<and> simple_command (command_of repr r)"
proof -
  from assms(1) obtain exe where cmd: "rule_command_of (rule_tool rule) (dget d ''command'')
      = Inr (exe, argument_prefix rule)" "executable rule = exe"
    by (auto simp: new_permission_rule_def Let_def split: if_splits)
  have "tool r = ''bash''" using assms(2,4) by (simp add: rule_matches_def)
  from rule_matches_bash[OF assms(4) this assms(3)] obtain e rest where m:
      "executable rule = Some e"
      "bash_command_tokens (command_of repr r) = (Some e, argument_prefix rule @ rest)"
      "simple_command (command_of repr r)" by blast
  from cmd m(1) have "bash_command_tokens (text_of (dget d ''command'')) = (Some e, argument_prefix rule)"
    by (auto simp: rule_command_of_def Let_def split: if_splits pyval.splits prod.splits)
  with m show ?thesis by blast
qed

theorem saved_bash_rule_never_widens_witness:
  "\<exists>e args rest. bash_command_tokens ''pytest'' = (Some e, args)
     \<and> bash_command_tokens ''pytest -q'' = (Some e, args @ rest)"
proof -
  have "rule_matches (\<lambda>_. []) sample_bash_rule (sample_bash_request ''pytest -q'') ''ws''"
    by (simp add: sample_rule_matches sample_tokens)
  from saved_bash_rule_never_widens[OF sample_rule_created _ _ this] show ?thesis
    by (simp add: sample_bash_rule_def sample_command_of sample_bash_spec_def dget_def) blast
qed

end
