(* ===== verification/StreamEdit.thy ===== *)
theory StreamEdit
  imports Prelude
begin

text \<open>
  The byte level of the edit tool: the streaming UTF-8 validator of \<open>executor/utf8.py\<close> and the
  chunked search-and-replace \<open>_stream_replace\<close> of \<open>executor/tools/edit.py\<close>, with the reference
  operations \<open>bytes.replace\<close> and \<open>bytes.count\<close> they are compared against.
\<close>

section \<open>UTF-8 validation\<close>

text \<open>
  The incremental decoder as an automaton: how many continuation bytes are missing, with the
  narrower ranges that exclude overlong forms, surrogates and values past U+10FFFF.  A NUL byte
  is rejected as well, as \<open>Utf8Validator.feed\<close> does.
\<close>

datatype utf8_state = Ready | Need1 | Need2 | Need3 | AfterE0 | AfterED | AfterF0 | AfterF4

fun utf8_step :: "utf8_state \<Rightarrow> char \<Rightarrow> utf8_state option" where
  "utf8_step Ready c =
     (let n = ord c in
      if n = 0 then None
      else if n < 128 then Some Ready
      else if 194 \<le> n \<and> n \<le> 223 then Some Need1
      else if n = 224 then Some AfterE0
      else if n = 237 then Some AfterED
      else if 225 \<le> n \<and> n \<le> 239 then Some Need2
      else if n = 240 then Some AfterF0
      else if 241 \<le> n \<and> n \<le> 243 then Some Need3
      else if n = 244 then Some AfterF4
      else None)"
| "utf8_step Need1 c = (if 128 \<le> ord c \<and> ord c \<le> 191 then Some Ready else None)"
| "utf8_step Need2 c = (if 128 \<le> ord c \<and> ord c \<le> 191 then Some Need1 else None)"
| "utf8_step Need3 c = (if 128 \<le> ord c \<and> ord c \<le> 191 then Some Need2 else None)"
| "utf8_step AfterE0 c = (if 160 \<le> ord c \<and> ord c \<le> 191 then Some Need1 else None)"
| "utf8_step AfterED c = (if 128 \<le> ord c \<and> ord c \<le> 159 then Some Need1 else None)"
| "utf8_step AfterF0 c = (if 144 \<le> ord c \<and> ord c \<le> 191 then Some Need2 else None)"
| "utf8_step AfterF4 c = (if 128 \<le> ord c \<and> ord c \<le> 143 then Some Need2 else None)"

fun utf8_run :: "utf8_state \<Rightarrow> string \<Rightarrow> utf8_state option" where
  "utf8_run st [] = Some st"
| "utf8_run st (c # cs) = (case utf8_step st c of None \<Rightarrow> None | Some st' \<Rightarrow> utf8_run st' cs)"

definition valid_text :: "string \<Rightarrow> bool" where
  "valid_text s \<longleftrightarrow> utf8_run Ready s = Some Ready"

text \<open>\<open>Utf8Validator.feed\<close> and \<open>finish\<close>.\<close>

definition utf8_feed :: "string \<Rightarrow> utf8_state \<Rightarrow> exn + utf8_state" where
  "utf8_feed chunk st =
     (case utf8_run st chunk of None \<Rightarrow> Inl (ToolError INVALID_UTF8) | Some st' \<Rightarrow> Inr st')"

definition utf8_finish :: "utf8_state \<Rightarrow> exn + unit" where
  "utf8_finish st = ensure (st = Ready) (ToolError INVALID_UTF8)"

text \<open>\<open>validate_utf8_file\<close>: every chunk, then the end of input.\<close>

definition validate_utf8_chunks :: "string list \<Rightarrow> exn + unit" where
  "validate_utf8_chunks chunks = rbind (fold_res utf8_feed chunks Ready) utf8_finish"

lemma utf8_run_append:
  "utf8_run st (a @ b) = (case utf8_run st a of None \<Rightarrow> None | Some st' \<Rightarrow> utf8_run st' b)"
  by (induction a arbitrary: st) (auto split: option.splits)

lemma fold_utf8_feed:
  "fold_res utf8_feed chunks st =
     (case utf8_run st (concat chunks) of None \<Rightarrow> Inl (ToolError INVALID_UTF8) | Some st' \<Rightarrow> Inr st')"
  by (induction chunks arbitrary: st)
    (auto simp: utf8_feed_def utf8_run_append split: option.splits)

text \<open>Validation does not depend on where the chunks were cut.\<close>

lemma validate_utf8_chunks_eq:
  "validate_utf8_chunks chunks =
     (if valid_text (concat chunks) then Inr () else Inl (ToolError INVALID_UTF8))"
  by (auto simp: validate_utf8_chunks_def fold_utf8_feed valid_text_def utf8_finish_def
      split: option.splits)

section \<open>\<open>bytes.find\<close>, \<open>bytes.count\<close>, \<open>bytes.replace\<close>\<close>

fun find_sub :: "string \<Rightarrow> string \<Rightarrow> nat option" where
  "find_sub old s =
     (if startswith s old then Some 0
      else (case s of [] \<Rightarrow> None | _ # t \<Rightarrow> map_option Suc (find_sub old t)))"

declare find_sub.simps [simp del]

text \<open>Leftmost, non-overlapping.  The code never searches for the empty string, so that case
  (where Python inserts between all characters) is not modelled.\<close>

function replace_all :: "string \<Rightarrow> string \<Rightarrow> string \<Rightarrow> string" where
  "replace_all old new s =
     (if old = [] then s
      else if startswith s old then new @ replace_all old new (drop (length old) s)
      else (case s of [] \<Rightarrow> [] | c # t \<Rightarrow> c # replace_all old new t))"
  by pat_completeness auto
termination
  by (relation "measure (\<lambda>(old, new, s). length s)") (auto simp: drop_startswith_shorter)

function count_sub :: "string \<Rightarrow> string \<Rightarrow> nat" where
  "count_sub old s =
     (if old = [] then 0
      else if startswith s old then Suc (count_sub old (drop (length old) s))
      else (case s of [] \<Rightarrow> 0 | c # t \<Rightarrow> count_sub old t))"
  by pat_completeness auto
termination
  by (relation "measure (\<lambda>(old, s). length s)") (auto simp: drop_startswith_shorter)

declare replace_all.simps [simp del] count_sub.simps [simp del]

definition no_match_before :: "string \<Rightarrow> nat \<Rightarrow> string \<Rightarrow> bool" where
  "no_match_before old k s \<longleftrightarrow> (\<forall>j<k. \<not> startswith (drop j s) old)"

lemma no_match_before_Suc:
  "no_match_before old (Suc k) (c # t) \<longleftrightarrow> \<not> startswith (c # t) old \<and> no_match_before old k t"
  unfolding no_match_before_def by (auto simp: less_Suc_eq_0_disj)

lemma find_sub_Some:
  "find_sub old s = Some i \<Longrightarrow>
     no_match_before old i s \<and> startswith (drop i s) old \<and> i + length old \<le> length s"
proof (induction old s arbitrary: i rule: find_sub.induct)
  case (1 old s)
  show ?case
  proof (cases "startswith s old")
    case True
    with "1.prems" have "i = 0" by (simp add: find_sub.simps)
    with True show ?thesis
      by (auto simp: no_match_before_def startswith_iff)
  next
    case False
    with "1.prems" obtain c t j where s: "s = c # t" and j: "find_sub old t = Some j" "i = Suc j"
      by (auto simp: find_sub.simps[of old s] split: list.splits)
    from "1.IH"[OF False s j(1)] False show ?thesis
      by (simp add: s j(2) no_match_before_Suc)
  qed
qed

lemma find_sub_None:
  "find_sub old s = None \<Longrightarrow> old \<noteq> [] \<Longrightarrow> no_match_before old k s"
proof (induction old s arbitrary: k rule: find_sub.induct)
  case (1 old s)
  from "1.prems" have ns: "\<not> startswith s old" by (auto simp: find_sub.simps split: if_splits)
  show ?case
  proof (cases s)
    case Nil
    with ns show ?thesis by (simp add: no_match_before_def)
  next
    case (Cons c t)
    with "1.prems" ns have "find_sub old t = None"
      by (simp add: find_sub.simps[of old "c # t"])
    with "1.IH"[OF ns Cons] "1.prems"(2) ns Cons show ?thesis
      by (cases k) (simp_all add: no_match_before_Suc, simp add: no_match_before_def)
  qed
qed

lemma replace_all_skip:
  assumes "old \<noteq> []" and "no_match_before old k s" and "k \<le> length s"
  shows "replace_all old new s = take k s @ replace_all old new (drop k s)
     \<and> count_sub old s = count_sub old (drop k s)"
  using assms(2,3)
proof (induction k arbitrary: s)
  case 0
  then show ?case by simp
next
  case (Suc k)
  then obtain c t where s: "s = c # t" by (cases s) auto
  with Suc.prems have ns: "\<not> startswith s old" and t: "no_match_before old k t" "k \<le> length t"
    by (simp_all add: no_match_before_Suc)
  from Suc.IH[OF t] ns assms(1) show ?case
    by (simp add: s replace_all.simps[of old new "c # t"] count_sub.simps[of old "c # t"])
qed

lemma replace_all_hit:
  assumes "old \<noteq> []"
  shows "replace_all old new (old @ s) = new @ replace_all old new s"
    and "count_sub old (old @ s) = Suc (count_sub old s)"
  using assms
  by (simp_all add: replace_all.simps[of old new "old @ s"] count_sub.simps[of old "old @ s"])

text \<open>A match that lies inside the first part is a match of the whole.\<close>

lemma startswith_inside:
  "j + length old \<le> length p \<Longrightarrow> startswith (drop j (p @ r)) old = startswith (drop j p) old"
  by (simp add: startswith_def)

lemma no_match_before_append:
  assumes "no_match_before old k p" and "k + length old \<le> Suc (length p)"
  shows "no_match_before old k (p @ r)"
  unfolding no_match_before_def
proof (intro allI impI)
  fix j assume "j < k"
  with assms(2) have "j + length old \<le> length p" by simp
  then have "startswith (drop j (p @ r)) old = startswith (drop j p) old"
    by (rule startswith_inside)
  with assms(1) \<open>j < k\<close> show "\<not> startswith (drop j (p @ r)) old"
    by (simp add: no_match_before_def)
qed

section \<open>\<open>_stream_replace\<close>\<close>

record stream_state =
  validator :: utf8_state
  pending :: string
  written :: string
  result_size :: nat
  match_count :: nat

definition emit_bytes :: "nat \<Rightarrow> string \<Rightarrow> stream_state \<Rightarrow> exn + stream_state" where
  "emit_bytes limit d st =
     (let size = result_size st + length d
      in if size > limit then Inl (ToolError LIMIT_EXCEEDED)
         else Inr (st\<lparr>result_size := size, written := written st @ d\<rparr>))"

text \<open>The inner loop over the matches inside the pending bytes.  The searched text is never
  empty (\<open>prepare_edit\<close> rejects it); the guard keeps the function total.\<close>

function drain :: "string \<Rightarrow> string \<Rightarrow> nat \<Rightarrow> stream_state \<Rightarrow> exn + stream_state" where
  "drain old new limit st =
     (if old = [] then Inr st
      else case find_sub old (pending st) of
          None \<Rightarrow> Inr st
        | Some i \<Rightarrow>
            (case emit_bytes limit (take i (pending st) @ new) st of
               Inl e \<Rightarrow> Inl e
             | Inr st' \<Rightarrow>
                 drain old new limit
                   (st'\<lparr>pending := drop (i + length old) (pending st),
                        match_count := Suc (match_count st)\<rparr>)))"
  by pat_completeness auto
termination
  by (relation "measure (\<lambda>(old, new, limit, st). length (pending st))")
    (auto dest!: find_sub_Some simp flip: length_greater_0_conv)

declare drain.simps [simp del]

definition keep_bytes :: "string \<Rightarrow> nat" where
  "keep_bytes old = max 1 (length old)"

definition read_chunk :: "string \<Rightarrow> string \<Rightarrow> nat \<Rightarrow> string \<Rightarrow> stream_state \<Rightarrow> exn + stream_state" where
  "read_chunk old new limit chunk st =
     rbind (utf8_feed chunk (validator st)) (\<lambda>v.
     rbind (drain old new limit (st\<lparr>validator := v, pending := pending st @ chunk\<rparr>)) (\<lambda>st'.
       let n = length (pending st') - keep_bytes old
       in if length (pending st') > keep_bytes old then
            rbind (emit_bytes limit (take n (pending st')) st')
              (\<lambda>st''. Inr (st''\<lparr>pending := drop n (pending st')\<rparr>))
          else Inr st'))"

definition stream_replace ::
  "string \<Rightarrow> string \<Rightarrow> nat \<Rightarrow> string list \<Rightarrow> exn + (string \<times> nat)" where
  "stream_replace old new limit chunks =
     rbind (fold_res (read_chunk old new limit) chunks
              \<lparr>validator = Ready, pending = [], written = [], result_size = 0, match_count = 0\<rparr>) (\<lambda>st.
     rbind (utf8_finish (validator st)) (\<lambda>_.
     rbind (emit_bytes limit (replace_all old new (pending st)) st) (\<lambda>st'.
       Inr (written st', match_count st + count_sub old (pending st)))))"

text \<open>
  The invariant of the loop over a file whose first bytes \<open>seen\<close> have been read: the output is
  what the replacement of the whole file starts with, whatever follows, and the pending bytes
  are what remains to be replaced.
\<close>

definition stream_inv :: "string \<Rightarrow> string \<Rightarrow> string \<Rightarrow> stream_state \<Rightarrow> bool" where
  "stream_inv old new seen st \<longleftrightarrow>
     result_size st = length (written st)
     \<and> (\<forall>rest. replace_all old new (seen @ rest) = written st @ replace_all old new (pending st @ rest)
           \<and> count_sub old (seen @ rest) = match_count st + count_sub old (pending st @ rest))"

lemma stream_inv_size:
  "stream_inv old new seen st \<Longrightarrow> length (written st) \<le> length (replace_all old new (seen @ rest))"
  by (simp add: stream_inv_def)

lemma stream_inv_hit:
  assumes "old \<noteq> []" and "stream_inv old new seen st" and "find_sub old (pending st) = Some i"
  shows "stream_inv old new seen (st\<lparr>result_size := result_size st + length (take i (pending st) @ new),
      written := written st @ take i (pending st) @ new,
      pending := drop (i + length old) (pending st), match_count := Suc (match_count st)\<rparr>)"
proof -
  let ?p = "pending st"
  from find_sub_Some[OF assms(3)] have
    f: "no_match_before old i ?p" "startswith (drop i ?p) old" "i + length old \<le> length ?p"
    by auto
  obtain t where t: "drop i ?p = old @ t" using f(2) by (auto simp: startswith_iff)
  have d: "drop (i + length old) ?p = t"
    using arg_cong[OF t, of "drop (length old)"] by (simp add: add.commute)
  have split: "drop i (?p @ r) = old @ drop (i + length old) ?p @ r" for r
    using t f(3) by (simp add: d)
  have "no_match_before old i (?p @ r)" for r
    using no_match_before_append[OF f(1)] f(3) by simp
  from replace_all_skip[OF assms(1) this, where new = new] f(3)
  have "replace_all old new (?p @ r) = take i ?p @ new @ replace_all old new (drop (i + length old) ?p @ r)
      \<and> count_sub old (?p @ r) = Suc (count_sub old (drop (i + length old) ?p @ r))" for r
    unfolding split replace_all_hit[OF assms(1)] by simp
  with assms(2) show ?thesis by (simp add: stream_inv_def)
qed

lemma stream_inv_flush:
  assumes "old \<noteq> []" and "stream_inv old new seen st" and "find_sub old (pending st) = None"
    and "n + length old \<le> length (pending st)"
  shows "stream_inv old new seen (st\<lparr>result_size := result_size st + length (take n (pending st)),
      written := written st @ take n (pending st), pending := drop n (pending st)\<rparr>)"
proof -
  let ?p = "pending st"
  have "no_match_before old n (?p @ r)" for r
    using no_match_before_append[OF find_sub_None[OF assms(3,1)]] assms(4) by simp
  from replace_all_skip[OF assms(1) this, where new = new] assms(4)
  have "replace_all old new (?p @ r) = take n ?p @ replace_all old new (drop n ?p @ r)
      \<and> count_sub old (?p @ r) = count_sub old (drop n ?p @ r)" for r by simp
  with assms(2) show ?thesis by (simp add: stream_inv_def)
qed

lemma emit_bytes_Inr:
  "emit_bytes limit d st = Inr st' \<longleftrightarrow> result_size st + length d \<le> limit
     \<and> st' = st\<lparr>result_size := result_size st + length d, written := written st @ d\<rparr>"
  by (auto simp: emit_bytes_def Let_def)

lemma drain_ok:
  assumes "old \<noteq> []" and "stream_inv old new seen st" and "drain old new limit st = Inr st'"
  shows "stream_inv old new seen st' \<and> find_sub old (pending st') = None
     \<and> validator st' = validator st"
  using assms
proof (induction old new limit st rule: drain.induct)
  case (1 old new limit st)
  show ?case
  proof (cases "find_sub old (pending st)")
    case None
    with 1 show ?thesis by (simp add: drain.simps[of old new limit st])
  next
    case (Some i)
    from "1.prems"(1,3) Some obtain s1 where
      em: "emit_bytes limit (take i (pending st) @ new) st = Inr s1" and
      dr: "drain old new limit (s1\<lparr>pending := drop (i + length old) (pending st),
             match_count := Suc (match_count st)\<rparr>) = Inr st'"
      by (auto simp: drain.simps[of old new limit st] split: sum.splits)
    from em stream_inv_hit[OF "1.prems"(1,2) Some]
    have "stream_inv old new seen (s1\<lparr>pending := drop (i + length old) (pending st),
             match_count := Suc (match_count st)\<rparr>)" "validator s1 = validator st"
      by (auto simp: emit_bytes_Inr)
    with "1.IH"[OF "1.prems"(1) Some em "1.prems"(1) _ dr] show ?thesis by simp
  qed
qed

lemma drain_total:
  assumes "old \<noteq> []" and "stream_inv old new seen st"
    and "length (replace_all old new (seen @ rest)) \<le> limit"
  shows "\<exists>st'. drain old new limit st = Inr st'"
  using assms
proof (induction old new limit st rule: drain.induct)
  case (1 old new limit st)
  show ?case
  proof (cases "find_sub old (pending st)")
    case None
    then show ?thesis by (simp add: drain.simps[of old new limit st])
  next
    case (Some i)
    let ?s1 = "st\<lparr>result_size := result_size st + length (take i (pending st) @ new),
      written := written st @ take i (pending st) @ new\<rparr>"
    from stream_inv_hit[OF "1.prems"(1,2) Some]
    have inv: "stream_inv old new seen (?s1\<lparr>pending := drop (i + length old) (pending st),
             match_count := Suc (match_count st)\<rparr>)" by simp
    from stream_inv_size[OF inv, of rest] "1.prems"(2,3)
    have "result_size st + length (take i (pending st) @ new) \<le> limit"
      by (simp add: stream_inv_def)
    then have em: "emit_bytes limit (take i (pending st) @ new) st = Inr ?s1"
      by (simp add: emit_bytes_Inr)
    from "1.IH"[OF "1.prems"(1) Some em "1.prems"(1) inv "1.prems"(3)] em Some "1.prems"(1)
    show ?thesis by (simp add: drain.simps[of old new limit st])
  qed
qed

lemma stream_inv_read:
  "stream_inv old new seen st \<Longrightarrow>
     stream_inv old new (seen @ chunk) (st\<lparr>validator := v, pending := pending st @ chunk\<rparr>)"
  by (auto simp: stream_inv_def)

lemma keep_bytes_pos: "old \<noteq> [] \<Longrightarrow> keep_bytes old = length old"
  by (cases old) (simp_all add: keep_bytes_def)

lemma read_chunk_ok:
  assumes "old \<noteq> []" and "stream_inv old new seen st" and "read_chunk old new limit chunk st = Inr st'"
  shows "stream_inv old new (seen @ chunk) st' \<and> utf8_run (validator st) chunk = Some (validator st')"
proof -
  from assms(3) obtain v s1 where v: "utf8_run (validator st) chunk = Some v"
    and d: "drain old new limit (st\<lparr>validator := v, pending := pending st @ chunk\<rparr>) = Inr s1"
    and r: "(if length (pending s1) > keep_bytes old
        then rbind (emit_bytes limit (take (length (pending s1) - keep_bytes old) (pending s1)) s1)
          (\<lambda>s2. Inr (s2\<lparr>pending := drop (length (pending s1) - keep_bytes old) (pending s1)\<rparr>))
        else Inr s1) = Inr st'"
    by (auto simp: read_chunk_def utf8_feed_def Let_def split: option.splits)
  from drain_ok[OF assms(1) stream_inv_read[OF assms(2)] d]
  have inv: "stream_inv old new (seen @ chunk) s1" "find_sub old (pending s1) = None"
    and val: "validator s1 = v" by auto
  from r stream_inv_flush[OF assms(1) inv, of "length (pending s1) - keep_bytes old"] inv val
  show ?thesis
    by (auto simp: emit_bytes_Inr keep_bytes_pos[OF assms(1)] v split: if_splits)
qed

lemma read_chunk_total:
  assumes "old \<noteq> []" and "stream_inv old new seen st"
    and "utf8_run (validator st) chunk \<noteq> None"
    and "length (replace_all old new ((seen @ chunk) @ rest)) \<le> limit"
  shows "\<exists>st'. read_chunk old new limit chunk st = Inr st'"
proof -
  from assms(3) obtain v where v: "utf8_run (validator st) chunk = Some v" by auto
  from drain_total[OF assms(1) stream_inv_read[OF assms(2)] assms(4)] obtain s1 where
    d: "drain old new limit (st\<lparr>validator := v, pending := pending st @ chunk\<rparr>) = Inr s1" by blast
  from drain_ok[OF assms(1) stream_inv_read[OF assms(2)] d]
  have inv: "stream_inv old new (seen @ chunk) s1" "find_sub old (pending s1) = None" by auto
  let ?n = "length (pending s1) - keep_bytes old"
  show ?thesis
  proof (cases "length (pending s1) > keep_bytes old")
    case True
    from stream_inv_flush[OF assms(1) inv, of ?n] True
    have inv2: "stream_inv old new (seen @ chunk) (s1\<lparr>result_size := result_size s1 + length (take ?n (pending s1)),
      written := written s1 @ take ?n (pending s1), pending := drop ?n (pending s1)\<rparr>)"
      by (simp add: keep_bytes_pos[OF assms(1)])
    from stream_inv_size[OF inv2, of rest] inv(1) assms(4)
    have "result_size s1 + length (take ?n (pending s1)) \<le> limit"
      by (simp add: stream_inv_def)
    with v d True show ?thesis
      by (auto simp: read_chunk_def utf8_feed_def emit_bytes_def Let_def)
  next
    case False
    with v d show ?thesis by (auto simp: read_chunk_def utf8_feed_def Let_def)
  qed
qed

lemma fold_read_chunk_ok:
  assumes "old \<noteq> []" and "stream_inv old new seen st"
    and "fold_res (read_chunk old new limit) chunks st = Inr st'"
  shows "stream_inv old new (seen @ concat chunks) st'
     \<and> utf8_run (validator st) (concat chunks) = Some (validator st')"
  using assms(2,3)
proof (induction chunks arbitrary: seen st)
  case Nil
  then show ?case by simp
next
  case (Cons c cs)
  then obtain s1 where s1: "read_chunk old new limit c st = Inr s1"
      "fold_res (read_chunk old new limit) cs s1 = Inr st'" by auto
  from read_chunk_ok[OF assms(1) Cons.prems(1) s1(1)]
  have i: "stream_inv old new (seen @ c) s1" "utf8_run (validator st) c = Some (validator s1)" by auto
  from Cons.IH[OF i(1) s1(2)] i(2) show ?case by (simp add: utf8_run_append)
qed

lemma fold_read_chunk_total:
  assumes "old \<noteq> []" and "stream_inv old new seen st"
    and "utf8_run (validator st) (concat chunks) \<noteq> None"
    and "length (replace_all old new (seen @ concat chunks)) \<le> limit"
  shows "\<exists>st'. fold_res (read_chunk old new limit) chunks st = Inr st'"
  using assms(2-)
proof (induction chunks arbitrary: seen st)
  case Nil
  then show ?case by simp
next
  case (Cons c cs)
  have "utf8_run (validator st) c \<noteq> None" using Cons.prems(2) by (auto simp: utf8_run_append split: option.splits)
  from read_chunk_total[OF assms(1) Cons.prems(1) this, of "concat cs"] Cons.prems(3)
  obtain s1 where s1: "read_chunk old new limit c st = Inr s1" by auto
  from read_chunk_ok[OF assms(1) Cons.prems(1) s1]
  have i: "stream_inv old new (seen @ c) s1" "utf8_run (validator st) c = Some (validator s1)" by auto
  from Cons.IH[OF i(1)] Cons.prems(2,3) i(2) s1 show ?case by (simp add: utf8_run_append)
qed

abbreviation initial_stream :: stream_state where
  "initial_stream \<equiv> \<lparr>validator = Ready, pending = [], written = [], result_size = 0, match_count = 0\<rparr>"

lemma stream_inv_initial: "stream_inv old new [] initial_stream"
  by (simp add: stream_inv_def)

lemma stream_replace_correct:
  assumes "old \<noteq> []"
  shows "stream_replace old new limit chunks = Inr (r, n) \<longleftrightarrow>
     valid_text (concat chunks) \<and> length (replace_all old new (concat chunks)) \<le> limit
     \<and> r = replace_all old new (concat chunks) \<and> n = count_sub old (concat chunks)"
  (is "?L \<longleftrightarrow> ?R")
proof
  assume ?L
  then obtain st where st: "fold_res (read_chunk old new limit) chunks initial_stream = Inr st"
      "validator st = Ready" "result_size st + length (replace_all old new (pending st)) \<le> limit"
      "r = written st @ replace_all old new (pending st)"
      "n = match_count st + count_sub old (pending st)"
    by (auto simp: stream_replace_def utf8_finish_def emit_bytes_Inr)
  from fold_read_chunk_ok[OF assms stream_inv_initial st(1)]
  have "stream_inv old new (concat chunks) st" and v: "utf8_run Ready (concat chunks) = Some (validator st)"
    by auto
  from this(1) have "replace_all old new (concat chunks @ []) = written st @ replace_all old new (pending st @ [])
      \<and> count_sub old (concat chunks @ []) = match_count st + count_sub old (pending st @ [])
      \<and> result_size st = length (written st)"
    unfolding stream_inv_def by blast
  with st v show ?R by (simp add: valid_text_def)
next
  assume R: ?R
  then have v: "utf8_run Ready (concat chunks) = Some Ready" by (simp add: valid_text_def)
  from fold_read_chunk_total[OF assms stream_inv_initial, where chunks = chunks and limit = limit] R v
  obtain st where st: "fold_res (read_chunk old new limit) chunks initial_stream = Inr st" by auto
  from fold_read_chunk_ok[OF assms stream_inv_initial st]
  have "stream_inv old new (concat chunks) st" and u: "utf8_run Ready (concat chunks) = Some (validator st)"
    by auto
  from this(1) have "replace_all old new (concat chunks @ []) = written st @ replace_all old new (pending st @ [])
      \<and> count_sub old (concat chunks @ []) = match_count st + count_sub old (pending st @ [])
      \<and> result_size st = length (written st)"
    unfolding stream_inv_def by blast
  with R v u st show ?L
    by (auto simp: stream_replace_def utf8_finish_def emit_bytes_def Let_def)
qed

section \<open>Properties\<close>

text \<open>Claim C10. The chunked search-and-replace of the edit tool is exact and independent of where
  the chunk boundaries fall: for a non-empty search text it succeeds if and only if the file is
  valid UTF-8 without NUL bytes and the result fits the limit, and then it produces precisely
  \<open>replace\<close> and \<open>count\<close> of the whole file.\<close>

theorem stream_replace_exact:
  assumes "old \<noteq> []"
  shows "stream_replace old new limit chunks = Inr (r, n) \<longleftrightarrow>
     validate_utf8_chunks chunks = Inr () \<and> length (replace_all old new (concat chunks)) \<le> limit
     \<and> r = replace_all old new (concat chunks) \<and> n = count_sub old (concat chunks)"
  using stream_replace_correct[OF assms] by (simp add: validate_utf8_chunks_eq)

theorem stream_replace_exact_witness:
  "stream_replace ''aa'' ''b'' 3 [''xa'', ''aa''] = Inr (''xba'', 1)"
proof -
  have "validate_utf8_chunks [''xa'', ''aa''] = Inr ()"
    by (simp add: validate_utf8_chunks_eq valid_text_def Let_def ord_def)
  moreover have "replace_all ''aa'' ''b'' ''xaaa'' = ''xba''" "count_sub ''aa'' ''xaaa'' = 1"
    by (simp_all add: replace_all.simps count_sub.simps startswith_def)
  ultimately show ?thesis
    using stream_replace_exact[of "''aa''" "''b''" 3 "[''xa'', ''aa'']" "''xba''" 1] by simp
qed

end
