(* ===== verification/Exec_Config.thy ===== *)
theory Exec_Config
  imports Globs
begin

text \<open>
  The executor's resource configuration (\<open>executor/config.py\<close>): the limit fields with their
  defaults, hard ceilings and profiles, the validation of a configuration, and the limit that
  binds a request.
\<close>

section \<open>Limits and profiles\<close>

datatype limit =
    max_read_bytes | max_write_bytes | max_edit_target_bytes | max_edit_result_bytes
  | max_patch_operations | max_patch_bytes | max_bash_output_bytes | max_bash_stdin_bytes
  | max_command_bytes | max_checkpoint_bytes | max_staging_bytes | max_staged_files
  | max_command_seconds | max_search_results | max_find_results | max_ls_results
  | max_grep_scan_bytes | max_grep_output_bytes | max_search_seconds | work_capacity_bytes

definition LIMIT_FIELDS :: "limit list" where
  "LIMIT_FIELDS = [max_read_bytes, max_write_bytes, max_edit_target_bytes, max_edit_result_bytes,
     max_patch_operations, max_patch_bytes, max_bash_output_bytes, max_bash_stdin_bytes,
     max_command_bytes, max_checkpoint_bytes, max_staging_bytes, max_staged_files,
     max_command_seconds, max_search_results, max_find_results, max_ls_results,
     max_grep_scan_bytes, max_grep_output_bytes, max_search_seconds, work_capacity_bytes]"

fun default_limit :: "limit \<Rightarrow> int" where
  "default_limit max_read_bytes = 1000000"
| "default_limit max_write_bytes = 1000000"
| "default_limit max_edit_target_bytes = 2000000"
| "default_limit max_edit_result_bytes = 2000000"
| "default_limit max_patch_operations = 100"
| "default_limit max_patch_bytes = 2000000"
| "default_limit max_bash_output_bytes = 1000000"
| "default_limit max_bash_stdin_bytes = 1000000"
| "default_limit max_command_bytes = 1000000"
| "default_limit max_checkpoint_bytes = 2500000000"
| "default_limit max_staging_bytes = 2500000000"
| "default_limit max_staged_files = 300000"
| "default_limit max_command_seconds = 300"
| "default_limit max_search_results = 500"
| "default_limit max_find_results = 500"
| "default_limit max_ls_results = 500"
| "default_limit max_grep_scan_bytes = 64000000"
| "default_limit max_grep_output_bytes = 1000000"
| "default_limit max_search_seconds = 30"
| "default_limit work_capacity_bytes = 8000000000"

definition REQUIRED_TEMP_HEADROOM_BYTES :: int where
  "REQUIRED_TEMP_HEADROOM_BYTES = 1000000000"

fun HARD_CEILINGS :: "limit \<Rightarrow> int" where
  "HARD_CEILINGS max_read_bytes = 8000000"
| "HARD_CEILINGS max_write_bytes = 8000000"
| "HARD_CEILINGS max_edit_target_bytes = 16000000"
| "HARD_CEILINGS max_edit_result_bytes = 16000000"
| "HARD_CEILINGS max_patch_operations = 500"
| "HARD_CEILINGS max_patch_bytes = 16000000"
| "HARD_CEILINGS max_bash_output_bytes = 8000000"
| "HARD_CEILINGS max_bash_stdin_bytes = 8000000"
| "HARD_CEILINGS max_command_bytes = 1000000"
| "HARD_CEILINGS max_checkpoint_bytes = 3500000000"
| "HARD_CEILINGS max_staging_bytes = 4000000000"
| "HARD_CEILINGS max_staged_files = 1000000"
| "HARD_CEILINGS max_command_seconds = 900"
| "HARD_CEILINGS max_search_results = 5000"
| "HARD_CEILINGS max_find_results = 2000"
| "HARD_CEILINGS max_ls_results = 2000"
| "HARD_CEILINGS max_grep_scan_bytes = 256000000"
| "HARD_CEILINGS max_grep_output_bytes = 4000000"
| "HARD_CEILINGS max_search_seconds = 300"
| "HARD_CEILINGS work_capacity_bytes = 8000000000"

text \<open>Each profile overrides a subset of the defaults.\<close>

fun small_limit :: "limit \<Rightarrow> int" where
  "small_limit max_read_bytes = 256000"
| "small_limit max_write_bytes = 256000"
| "small_limit max_edit_target_bytes = 512000"
| "small_limit max_edit_result_bytes = 512000"
| "small_limit max_patch_operations = 50"
| "small_limit max_patch_bytes = 512000"
| "small_limit max_bash_output_bytes = 256000"
| "small_limit max_bash_stdin_bytes = 256000"
| "small_limit max_command_bytes = 256000"
| "small_limit max_checkpoint_bytes = 512000000"
| "small_limit max_staging_bytes = 512000000"
| "small_limit max_search_results = 250"
| "small_limit max_find_results = 250"
| "small_limit max_ls_results = 250"
| "small_limit max_grep_scan_bytes = 16000000"
| "small_limit max_grep_output_bytes = 256000"
| "small_limit l = default_limit l"

fun large_limit :: "limit \<Rightarrow> int" where
  "large_limit max_read_bytes = 2000000"
| "large_limit max_write_bytes = 2000000"
| "large_limit max_edit_target_bytes = 4000000"
| "large_limit max_edit_result_bytes = 4000000"
| "large_limit max_patch_operations = 200"
| "large_limit max_patch_bytes = 4000000"
| "large_limit max_bash_output_bytes = 2000000"
| "large_limit max_bash_stdin_bytes = 2000000"
| "large_limit max_staging_bytes = 3000000000"
| "large_limit max_checkpoint_bytes = 3000000000"
| "large_limit max_staged_files = 750000"
| "large_limit max_search_results = 1000"
| "large_limit max_find_results = 1000"
| "large_limit max_ls_results = 1000"
| "large_limit max_grep_scan_bytes = 128000000"
| "large_limit max_grep_output_bytes = 2000000"
| "large_limit l = default_limit l"

definition profile_limits :: "string \<Rightarrow> (limit \<Rightarrow> int) option" where
  "profile_limits name =
     (if name = ''small'' then Some small_limit
      else if name = ''coding'' then Some default_limit
      else if name = ''large-workspace'' then Some large_limit
      else None)"

section \<open>A configuration\<close>

definition MAX_GIT_HISTORY_DEPTH :: int where "MAX_GIT_HISTORY_DEPTH = 100000"

text \<open>The constructor's arguments are unchecked values; \<open>limits\<close> are the ones of
  \<open>_LIMIT_FIELDS\<close>.\<close>

record config_args =
  cfg_token :: string
  cfg_workspace :: string
  cfg_limits :: "limit \<Rightarrow> pyval"
  cfg_git_depth :: pyval
  cfg_secret_patterns :: "pyval list"
  cfg_never_publish :: "pyval list"

record executor_config =
  token :: string
  workspace_id :: string
  limits :: "limit \<Rightarrow> int"
  git_history_depth :: int
  secret_patterns :: "string list"
  never_publish :: "string list"

fun positive_int :: "pyval \<Rightarrow> bool" where
  "positive_int (PInt n) = (1 \<le> n)"
| "positive_int _ = False"

fun int_of :: "pyval \<Rightarrow> int" where
  "int_of (PInt n) = n"
| "int_of _ = 0"

definition required_capacity :: "(limit \<Rightarrow> int) \<Rightarrow> int" where
  "required_capacity l = l max_staging_bytes + l max_checkpoint_bytes + REQUIRED_TEMP_HEADROOM_BYTES"

text \<open>\<open>__post_init__\<close>; pattern errors are executor errors, the rest are value errors.\<close>

definition new_config :: "config_args \<Rightarrow> exn + executor_config" where
  "new_config a =
     (if length (cfg_token a) < 32 then Inl ValueErr
      else if cfg_workspace a = [] then Inl ValueErr
      else if \<not> list_all (\<lambda>f. positive_int (cfg_limits a f)) LIMIT_FIELDS then Inl ValueErr
      else if list_ex (\<lambda>f. int_of (cfg_limits a f) > HARD_CEILINGS f) LIMIT_FIELDS then Inl ValueErr
      else if \<not> int_between (cfg_git_depth a) 0 MAX_GIT_HISTORY_DEPTH then Inl ValueErr
      else case validate_secret_patterns (PList (cfg_secret_patterns a)) of
          Inl _ \<Rightarrow> Inl (ToolError INVALID_ARGUMENTS)
        | Inr sp \<Rightarrow>
            (case validate_publish_globs (PList (cfg_never_publish a)) of
               Inl _ \<Rightarrow> Inl (ToolError INVALID_ARGUMENTS)
             | Inr np \<Rightarrow>
                 (let l = (\<lambda>f. int_of (cfg_limits a f))
                  in if required_capacity l \<ge> l work_capacity_bytes then Inl ValueErr
                     else Inr \<lparr>token = cfg_token a, workspace_id = cfg_workspace a, limits = l,
                       git_history_depth = int_of (cfg_git_depth a), secret_patterns = sp,
                       never_publish = np\<rparr>)))"

definition validate_storage_capacity :: "executor_config \<Rightarrow> int \<Rightarrow> exn + unit" where
  "validate_storage_capacity c actual =
     (if actual < 1 then Inl ValueErr
      else if actual < limits c work_capacity_bytes then Inl ValueErr
      else if actual \<le> required_capacity (limits c) then Inl ValueErr
      else Inr ())"

text \<open>\<open>effective_limit\<close>: the limit that binds a request; \<open>None\<close> stands for no requested value.\<close>

definition effective_limit :: "executor_config \<Rightarrow> limit \<Rightarrow> pyval option \<Rightarrow> exn + int" where
  "effective_limit c name requested =
     (case requested of
        None \<Rightarrow> Inr (limits c name)
      | Some v \<Rightarrow>
          (if \<not> positive_int v then Inl (ToolError INVALID_ARGUMENTS)
           else Inr (min (min (int_of v) (limits c name)) (HARD_CEILINGS name))))"

text \<open>\<open>from_environment\<close>: the profile's limits, each overridden by its environment variable when
  that parses as an integer (\<open>parse\<close> is Python's \<open>int(raw, 10)\<close>).\<close>

definition environment_limits ::
  "(string \<Rightarrow> int option) \<Rightarrow> string \<Rightarrow> (limit \<Rightarrow> string option) \<Rightarrow> exn + (limit \<Rightarrow> int)" where
  "environment_limits parse profile env =
     (let name = casefold (strip profile);
          name = (if name = [] then ''coding'' else name)
      in case profile_limits name of
           None \<Rightarrow> Inl ValueErr
         | Some base \<Rightarrow>
             fold_res (\<lambda>f l. case env f of
                 None \<Rightarrow> Inr l
               | Some raw \<Rightarrow> (case parse raw of None \<Rightarrow> Inl ValueErr | Some v \<Rightarrow> Inr (l(f := v))))
               LIMIT_FIELDS base)"

section \<open>Lemmas\<close>

definition config_ok :: "executor_config \<Rightarrow> bool" where
  "config_ok c \<longleftrightarrow> (\<forall>f. 1 \<le> limits c f \<and> limits c f \<le> HARD_CEILINGS f)
     \<and> required_capacity (limits c) < limits c work_capacity_bytes
     \<and> 32 \<le> length (token c) \<and> workspace_id c \<noteq> []
     \<and> 0 \<le> git_history_depth c \<and> git_history_depth c \<le> MAX_GIT_HISTORY_DEPTH
     \<and> length (secret_patterns c) \<le> MAX_PATTERNS \<and> length (never_publish c) \<le> MAX_PATTERNS"

lemma LIMIT_FIELDS_all: "f \<in> set LIMIT_FIELDS"
  by (cases f) (simp_all add: LIMIT_FIELDS_def)

lemma positive_int_iff: "positive_int v \<longleftrightarrow> (\<exists>n\<ge>1. v = PInt n)"
  by (cases v) auto

lemma int_between_iff: "int_between v lo hi \<longleftrightarrow> (\<exists>n. v = PInt n \<and> lo \<le> n \<and> n \<le> hi)"
  by (cases v) auto

lemma new_config_ok:
  assumes "new_config a = Inr c"
  shows "config_ok c"
proof -
  from assms obtain sp np where
    c: "c = \<lparr>token = cfg_token a, workspace_id = cfg_workspace a,
         limits = (\<lambda>f. int_of (cfg_limits a f)), git_history_depth = int_of (cfg_git_depth a),
         secret_patterns = sp, never_publish = np\<rparr>" and
    l: "\<forall>f\<in>set LIMIT_FIELDS. positive_int (cfg_limits a f)"
       "\<forall>f\<in>set LIMIT_FIELDS. int_of (cfg_limits a f) \<le> HARD_CEILINGS f" and
    r: "length (cfg_token a) \<ge> 32" "cfg_workspace a \<noteq> []"
       "int_between (cfg_git_depth a) 0 MAX_GIT_HISTORY_DEPTH"
       "required_capacity (\<lambda>f. int_of (cfg_limits a f)) < int_of (cfg_limits a work_capacity_bytes)" and
    p: "validate_secret_patterns (PList (cfg_secret_patterns a)) = Inr sp"
       "validate_publish_globs (PList (cfg_never_publish a)) = Inr np"
    by (auto simp: new_config_def Let_def list_all_iff list_ex_iff not_less not_le
        split: if_splits sum.splits)
  have "1 \<le> int_of (cfg_limits a f) \<and> int_of (cfg_limits a f) \<le> HARD_CEILINGS f" for f
    using l LIMIT_FIELDS_all[of f] by (auto simp: positive_int_iff)
  moreover have "length sp \<le> MAX_PATTERNS" "length np \<le> MAX_PATTERNS"
    using validate_secret_patterns_bounds(1)[OF p(1)] validate_publish_globs_bounds(1)[OF p(2)] by blast+
  ultimately show ?thesis
    using r(1,2,4) int_between_iff[THEN iffD1, OF r(3)] by (auto simp: config_ok_def c)
qed

section \<open>Properties\<close>

text \<open>A configuration that the constructor accepts bounds every request: whatever the
  caller asks for, the effective limit is positive, never above the request, the configured
  value or the hard ceiling, and an invalid request is an argument error.\<close>

theorem effective_limit_never_exceeds:
  assumes "new_config a = Inr c"
  shows "(case effective_limit c name requested of
       Inl e \<Rightarrow> e = ToolError INVALID_ARGUMENTS \<and> (\<exists>v. requested = Some v \<and> \<not> positive_int v)
     | Inr n \<Rightarrow> 1 \<le> n \<and> n \<le> limits c name \<and> n \<le> HARD_CEILINGS name
         \<and> (\<forall>m. requested = Some (PInt m) \<longrightarrow> n \<le> m))"
proof -
  from new_config_ok[OF assms] have "1 \<le> limits c name" "limits c name \<le> HARD_CEILINGS name"
    by (auto simp: config_ok_def)
  then show ?thesis
    by (auto simp: effective_limit_def positive_int_iff split: option.splits if_splits)
qed

definition profile_args :: "(limit \<Rightarrow> int) \<Rightarrow> config_args" where
  "profile_args l = \<lparr>cfg_token = replicate 32 (CHR ''t''), cfg_workspace = ''w'',
     cfg_limits = (\<lambda>f. PInt (l f)), cfg_git_depth = PInt 200, cfg_secret_patterns = [],
     cfg_never_publish = []\<rparr>"

lemma profile_within_ceilings:
  assumes "profile_limits p = Some l"
  shows "1 \<le> l f \<and> l f \<le> HARD_CEILINGS f"
  using assms by (cases f) (auto simp: profile_limits_def split: if_splits)

lemma profile_capacity:
  assumes "profile_limits p = Some l"
  shows "required_capacity l < l work_capacity_bytes"
  using assms
  by (auto simp: profile_limits_def required_capacity_def REQUIRED_TEMP_HEADROOM_BYTES_def split: if_splits)

lemma profile_args_accepted:
  assumes "profile_limits p = Some l"
  shows "\<exists>c. new_config (profile_args l) = Inr c \<and> limits c = l"
proof -
  have "l f \<le> HARD_CEILINGS f" "1 \<le> l f" for f using profile_within_ceilings[OF assms] by auto
  then have "list_all (\<lambda>f. positive_int (PInt (l f))) LIMIT_FIELDS"
      "\<not> list_ex (\<lambda>f. int_of (PInt (l f)) > HARD_CEILINGS f) LIMIT_FIELDS"
    by (auto simp: list_all_iff list_ex_iff not_less)
  with profile_capacity[OF assms] show ?thesis
    by (auto simp: new_config_def profile_args_def MAX_GIT_HISTORY_DEPTH_def Let_def)
qed

theorem effective_limit_never_exceeds_witness:
  "\<exists>c. new_config (profile_args default_limit) = Inr c
     \<and> effective_limit c max_read_bytes (Some (PInt 9000000)) = Inr 1000000"
proof -
  obtain c where c: "new_config (profile_args default_limit) = Inr c" "limits c = default_limit"
    using profile_args_accepted[of "''coding''"] by (auto simp: profile_limits_def)
  from effective_limit_never_exceeds[OF c(1), where name = max_read_bytes
      and requested = "Some (PInt 9000000)"] c
  show ?thesis by (auto simp: effective_limit_def)
qed

text \<open>Claim C33. Storage safety of the resource model: in every accepted configuration the staged
  files, the recovery checkpoints and the reserved headroom fit together strictly inside the
  work volume, and a volume that passes the capacity check has room for all three.\<close>

theorem accepted_config_fits_volume:
  assumes "new_config a = Inr c"
  shows "limits c max_staging_bytes + limits c max_checkpoint_bytes + REQUIRED_TEMP_HEADROOM_BYTES
       < limits c work_capacity_bytes
     \<and> (validate_storage_capacity c actual = Inr () \<longleftrightarrow> limits c work_capacity_bytes \<le> actual)"
proof -
  from new_config_ok[OF assms] have "1 \<le> limits c max_staging_bytes" "1 \<le> limits c max_checkpoint_bytes"
      "required_capacity (limits c) < limits c work_capacity_bytes"
    by (auto simp: config_ok_def)
  then show ?thesis
    by (auto simp: required_capacity_def validate_storage_capacity_def REQUIRED_TEMP_HEADROOM_BYTES_def)
qed

theorem accepted_config_fits_volume_witness:
  "\<exists>c. new_config (profile_args large_limit) = Inr c \<and> validate_storage_capacity c 8000000000 = Inr ()"
proof -
  obtain c where c: "new_config (profile_args large_limit) = Inr c" "limits c = large_limit"
    using profile_args_accepted[of "''large-workspace''"] by (auto simp: profile_limits_def)
  from accepted_config_fits_volume[OF c(1), of 8000000000] c show ?thesis by auto
qed

text \<open>Every built-in profile is a valid configuration: each limit is positive and below
  its ceiling, and the storage budget fits.\<close>

theorem profiles_are_valid:
  "profile_limits p = Some l \<Longrightarrow> \<exists>c. new_config (profile_args l) = Inr c \<and> limits c = l \<and> config_ok c"
  using profile_args_accepted new_config_ok by blast

theorem profiles_are_valid_witness:
  "\<exists>c. new_config (profile_args small_limit) = Inr c \<and> limits c = small_limit \<and> config_ok c"
  by (rule profiles_are_valid[of "''small''"]) (simp add: profile_limits_def)

end
