(* ===== verification/Risk.thy ===== *)
theory Risk
  imports Tools "HOL-Library.Product_Lexorder" "HOL-Library.Word"
begin

unbundle bit_operations_syntax

text \<open>
  Risk flags of the publication review (\<open>shared/publication_risk.py\<close>): how each operation of a
  manifest is classified, when Auto must stop for a confirmation, and the order of the review.

  \<open>json.loads\<close> and \<open>tomllib.loads\<close> are the arguments \<open>json\<close> and \<open>toml\<close>, with \<open>None\<close> for their
  errors; an operation is the record of \<open>shared/tools.py\<close> (\<open>_fields\<close> turns it into the same
  dictionary).
\<close>

section \<open>Flags and tables\<close>

datatype risk_flag = HostExecutable | DependencyFlag | PolicyFlag | BinaryFlag | LargeDeletion

definition RISK_FLAGS :: "risk_flag list" where
  "RISK_FLAGS = [HostExecutable, DependencyFlag, PolicyFlag, BinaryFlag, LargeDeletion]"

definition CONFIRM_FLAGS :: "risk_flag set" where
  "CONFIRM_FLAGS = {HostExecutable, DependencyFlag, PolicyFlag}"

definition LARGE_DELETION_FILES :: nat where "LARGE_DELETION_FILES = 20"

definition POLICY_DIRECTORY :: string where "POLICY_DIRECTORY = ''.euesto''"

definition HOST_EXECUTABLE_DIRECTORIES :: "string list" where
  "HOST_EXECUTABLE_DIRECTORIES = [''.github/workflows'', ''.github/actions'', ''.gitlab'', ''.circleci'', ''.buildkite'',
     ''.husky'', ''.githooks'', ''.git-hooks'', ''.devcontainer'', ''.idea/runconfigurations'']"

definition HOST_EXECUTABLE_NAMES :: "string list" where
  "HOST_EXECUTABLE_NAMES = [''.gitlab-ci.yml'', ''azure-pipelines.yml'', ''jenkinsfile'', ''.travis.yml'',
     ''bitbucket-pipelines.yml'', ''makefile'', ''gnumakefile'', ''*.mk'', ''justfile'',
     ''taskfile.yml'', ''taskfile.yaml'', ''rakefile'', ''noxfile.py'', ''tox.ini'',
     ''setup.py'', ''hatch_build.py'', ''build.rs'', ''build.gradle'', ''build.gradle.kts'',
     ''settings.gradle'', ''settings.gradle.kts'', ''gradlew'', ''mvnw'', ''conftest.py'',
     ''sitecustomize.py'', ''usercustomize.py'', ''.pre-commit-config.yaml'',
     ''.pre-commit-hooks.yaml'', ''lefthook.yml'', ''.envrc'', ''dockerfile'',
     ''dockerfile.*'', ''*.dockerfile'', ''containerfile'', ''docker-compose*.yml'',
     ''docker-compose*.yaml'', ''compose.yml'', ''compose.yaml'', ''compose.*.yml'',
     ''compose.*.yaml'', ''*.code-workspace'']"

definition HOST_EXECUTABLE_PATHS :: "string list" where
  "HOST_EXECUTABLE_PATHS = [''.vscode/tasks.json'', ''.vscode/launch.json'', ''.vscode/settings.json'']"

definition DEPENDENCY_NAMES :: "string list" where
  "DEPENDENCY_NAMES = [''requirements*.txt'', ''requirements*.in'', ''constraints*.txt'', ''pyproject.toml'',
     ''setup.cfg'', ''pipfile'', ''pipfile.lock'', ''poetry.lock'', ''uv.lock'', ''pdm.lock'',
     ''environment.yml'', ''environment.yaml'', ''package.json'', ''package-lock.json'',
     ''npm-shrinkwrap.json'', ''yarn.lock'', ''pnpm-lock.yaml'', ''pnpm-workspace.yaml'',
     ''bun.lockb'', ''cargo.toml'', ''cargo.lock'', ''go.mod'', ''go.sum'', ''go.work'',
     ''gemfile'', ''gemfile.lock'', ''composer.json'', ''composer.lock'', ''pom.xml'',
     ''build.gradle'', ''build.gradle.kts'', ''settings.gradle'', ''settings.gradle.kts'',
     ''gradle.lockfile'', ''*.csproj'', ''packages.lock.json'', ''directory.packages.props'',
     ''mix.exs'', ''mix.lock'', ''pubspec.yaml'', ''pubspec.lock'', ''podfile'',
     ''podfile.lock'', ''package.swift'', ''package.resolved'']"

section \<open>Python equality of parsed values\<close>

text \<open>\<open>==\<close> on parsed documents: dictionaries compare without order, a \<open>bool\<close> and an integral
  float equal the integer.\<close>

fun py_eq :: "pyval \<Rightarrow> pyval \<Rightarrow> bool"
  and py_eq_list :: "pyval list \<Rightarrow> pyval list \<Rightarrow> bool"
  and py_sub_dict :: "pydict \<Rightarrow> pydict \<Rightarrow> bool" where
  "py_eq PNone v = (v = PNone)"
| "py_eq (PBool b) v = eq_int v (if b then 1 else 0)"
| "py_eq (PInt n) v = eq_int v n"
| "py_eq (PFloat x) v = (case v of PFloat y \<Rightarrow> x = y | PInt n \<Rightarrow> x = of_int n
     | PBool b \<Rightarrow> x = (if b then 1 else 0) | _ \<Rightarrow> False)"
| "py_eq (PStr s) v = (v = PStr s)"
| "py_eq (PList xs) v = (case v of PList ys \<Rightarrow> py_eq_list xs ys | _ \<Rightarrow> False)"
| "py_eq (PDict a) v = (case v of PDict b \<Rightarrow> length a = length b \<and> py_sub_dict a b | _ \<Rightarrow> False)"
| "py_eq (POther s) v = (v = POther s)"
| "py_eq_list [] ys = (ys = [])"
| "py_eq_list (x # xs) ys = (case ys of [] \<Rightarrow> False | y # ys' \<Rightarrow> py_eq x y \<and> py_eq_list xs ys')"
| "py_sub_dict [] b = True"
| "py_sub_dict ((k, v) # a) b =
     ((case map_of b k of None \<Rightarrow> False | Some w \<Rightarrow> py_eq v w) \<and> py_sub_dict a b)"

section \<open>Classification\<close>

definition matches_name :: "string \<Rightarrow> string list \<Rightarrow> bool" where
  "matches_name name patterns = list_ex (fnmatchcase name) patterns"

definition host_executable_path :: "string \<Rightarrow> string \<Rightarrow> bool" where
  "host_executable_path folded name =
     (if list_ex (\<lambda>d. folded = d \<or> startswith folded (d @ ''/'')) HOST_EXECUTABLE_DIRECTORIES
      then True
      else if folded \<in> set HOST_EXECUTABLE_PATHS \<or> contains (''/'' @ folded) ''/.git/hooks/'' then True
      else matches_name name HOST_EXECUTABLE_NAMES)"

definition gains_executable_bit :: "int option \<Rightarrow> int option \<Rightarrow> bool" where
  "gains_executable_bit base_m staged_m =
     (case staged_m of
        None \<Rightarrow> False
      | Some staged \<Rightarrow>
          (let before = (case base_m of None \<Rightarrow> 0 | Some b \<Rightarrow> b)
           in staged AND 0x49 \<noteq> 0 \<and> \<not> before AND 0x49 \<noteq> 0))"

fun table_or_empty :: "pyval \<Rightarrow> pydict" where
  "table_or_empty (PDict d) = d"
| "table_or_empty _ = []"

text \<open>\<open>None\<close> is the sentinel \<open>_UNREADABLE\<close>.\<close>

definition executable_section ::
  "(string \<Rightarrow> pyval option) \<Rightarrow> (string \<Rightarrow> pydict option) \<Rightarrow> string \<Rightarrow> string \<Rightarrow> pydict option" where
  "executable_section json toml name text =
     (if name = ''package.json'' then
        (case json text of
           Some (PDict data) \<Rightarrow>
             Some (map (\<lambda>k. (k, dget data k)) (filter (has_key data) [''scripts'', ''bin'']))
         | _ \<Rightarrow> None)
      else
        (case toml text of
           None \<Rightarrow> None
         | Some data \<Rightarrow>
             (let project = table_or_empty (dget data ''project'');
                  section = [(''build-system'', dget data ''build-system''),
                    (''scripts'', dget project ''scripts''),
                    (''entry-points'', dget project ''entry-points'')]
              in Some (filter (\<lambda>(k, v). v \<noteq> PNone) section))))"

definition scripts_changed ::
  "(string \<Rightarrow> pyval option) \<Rightarrow> (string \<Rightarrow> pydict option) \<Rightarrow> string \<Rightarrow> string option \<Rightarrow> string option \<Rightarrow> bool" where
  "scripts_changed json toml name base_text staged_text =
     (case staged_text of
        None \<Rightarrow> True
      | Some st \<Rightarrow>
          (case executable_section json toml name st of
             None \<Rightarrow> True
           | Some staged \<Rightarrow>
               (case base_text of
                  None \<Rightarrow> staged \<noteq> []
                | Some bt \<Rightarrow>
                    (case executable_section json toml name bt of
                       None \<Rightarrow> True
                     | Some base \<Rightarrow> \<not> py_eq (PDict base) (PDict staged)))))"

definition SCRIPT_MANIFESTS :: "string list" where
  "SCRIPT_MANIFESTS = [''package.json'', ''pyproject.toml'']"

text \<open>The conditions of \<open>classify_operation\<close>, one per flag.\<close>

definition runs_on_host ::
  "(string \<Rightarrow> pyval option) \<Rightarrow> (string \<Rightarrow> pydict option) \<Rightarrow> string option \<Rightarrow> publish_operation \<Rightarrow> bool" where
  "runs_on_host json toml base_text p =
     (let folded = casefold (op_path p); name = posix_name folded
      in host_executable_path folded name
         \<or> op_kind p \<noteq> Delete
           \<and> (gains_executable_bit (base_mode p) (staged_mode p)
              \<or> name \<in> set SCRIPT_MANIFESTS \<and> scripts_changed json toml name base_text (op_content p)))"

definition under_policy_directory :: "string \<Rightarrow> bool" where
  "under_policy_directory folded \<longleftrightarrow>
     folded = POLICY_DIRECTORY \<or> startswith folded (POLICY_DIRECTORY @ ''/'')"

fun has_flag ::
  "(string \<Rightarrow> pyval option) \<Rightarrow> (string \<Rightarrow> pydict option) \<Rightarrow> string option \<Rightarrow> nat \<Rightarrow> publish_operation \<Rightarrow>
   risk_flag \<Rightarrow> bool" where
  "has_flag json toml base_text deletions p HostExecutable = runs_on_host json toml base_text p"
| "has_flag json toml base_text deletions p DependencyFlag =
     matches_name (posix_name (casefold (op_path p))) DEPENDENCY_NAMES"
| "has_flag json toml base_text deletions p PolicyFlag = under_policy_directory (casefold (op_path p))"
| "has_flag json toml base_text deletions p BinaryFlag = (content_base64 p \<noteq> None)"
| "has_flag json toml base_text deletions p LargeDeletion =
     (op_kind p = Delete \<and> LARGE_DELETION_FILES \<le> deletions)"

definition classify_operation ::
  "(string \<Rightarrow> pyval option) \<Rightarrow> (string \<Rightarrow> pydict option) \<Rightarrow> string option \<Rightarrow> nat \<Rightarrow> publish_operation \<Rightarrow>
   risk_flag list" where
  "classify_operation json toml base_text deletions p =
     filter (has_flag json toml base_text deletions p) RISK_FLAGS"

text \<open>\<open>classify_manifest\<close> fills a dictionary by path: a later operation on the same path replaces
  the flags of an earlier one.  \<open>reader\<close> is \<open>base_reader\<close>, \<open>\<lambda>_. None\<close> when there is none.\<close>

definition deletion_count :: "publish_operation list \<Rightarrow> nat" where
  "deletion_count ops = length (filter (\<lambda>p. op_kind p = Delete) ops)"

definition base_text_for :: "(string \<Rightarrow> string option) \<Rightarrow> publish_operation \<Rightarrow> string option" where
  "base_text_for reader p =
     (if posix_name (casefold (op_path p)) \<in> set SCRIPT_MANIFESTS then reader (op_path p) else None)"

definition classify_manifest ::
  "(string \<Rightarrow> pyval option) \<Rightarrow> (string \<Rightarrow> pydict option) \<Rightarrow> (string \<Rightarrow> string option) \<Rightarrow>
   publish_operation list \<Rightarrow> (string \<times> risk_flag list) list" where
  "classify_manifest json toml reader ops =
     fold (\<lambda>p flags. AList.update (op_path p)
         (classify_operation json toml (base_text_for reader p) (deletion_count ops) p) flags)
       ops []"

definition needs_confirmation :: "(string \<times> risk_flag list) list \<Rightarrow> bool" where
  "needs_confirmation flags = list_ex (\<lambda>(path, fs). CONFIRM_FLAGS \<inter> set fs \<noteq> {}) flags"

fun flag_index :: "risk_flag \<Rightarrow> nat" where
  "flag_index HostExecutable = 0"
| "flag_index DependencyFlag = 1"
| "flag_index PolicyFlag = 2"
| "flag_index BinaryFlag = 3"
| "flag_index LargeDeletion = 4"

definition review_rank :: "risk_flag list \<Rightarrow> nat" where
  "review_rank fs = foldr (\<lambda>f r. min (flag_index f) r) fs (length RISK_FLAGS)"

definition review_key :: "(string \<times> risk_flag list) list \<Rightarrow> string \<Rightarrow> nat \<times> string" where
  "review_key flags path = (review_rank (case map_of flags path of None \<Rightarrow> [] | Some fs \<Rightarrow> fs), path)"

definition review_order :: "(string \<times> risk_flag list) list \<Rightarrow> string list" where
  "review_order flags = sort_key (review_key flags) (map fst flags)"

section \<open>Lemmas\<close>

lemma RISK_FLAGS_all: "f \<in> set RISK_FLAGS"
  by (cases f) (simp_all add: RISK_FLAGS_def)

lemma classify_operation_mem:
  "f \<in> set (classify_operation json toml bt d p) \<longleftrightarrow> has_flag json toml bt d p f"
  by (simp add: classify_operation_def RISK_FLAGS_all)

lemma flag_index_lt: "flag_index f < length RISK_FLAGS"
  by (cases f) (simp_all add: RISK_FLAGS_def)

lemma review_rank_le: "review_rank fs \<le> length RISK_FLAGS"
  by (induction fs) (simp_all add: review_rank_def min_le_iff_disj)

lemma review_rank_unflagged: "review_rank fs = length RISK_FLAGS \<longleftrightarrow> fs = []"
proof (cases fs)
  case (Cons f r)
  have "review_rank fs \<le> flag_index f" by (simp add: Cons review_rank_def)
  with flag_index_lt[of f] Cons show ?thesis by simp
qed (simp add: review_rank_def)

lemma review_rank_le_flag: "f \<in> set fs \<Longrightarrow> review_rank fs \<le> flag_index f"
  by (induction fs) (auto simp: review_rank_def min_le_iff_disj)

lemma distinct_casefold_paths:
  "distinct (map (casefold \<circ> op_path) ops) \<Longrightarrow> distinct (map op_path ops)"
  using distinct_map[of casefold "map op_path ops"] by simp

text \<open>Under the manifest's path uniqueness, classification is one entry per operation, in order.\<close>

lemma classify_manifest_map:
  assumes "distinct (map (casefold \<circ> op_path) ops)"
  shows "classify_manifest json toml reader ops =
    map (\<lambda>p. (op_path p, classify_operation json toml (base_text_for reader p) (deletion_count ops) p)) ops"
  unfolding classify_manifest_def
  using fold_update_fst[OF distinct_casefold_paths[OF assms], of "[]"] by simp

section \<open>Properties\<close>

text \<open>Auto never publishes a batch silently when it holds a risky change: for every
  manifest that passes construction, a confirmation is needed exactly when some operation runs on
  the host, changes a dependency file, or touches the workspace policy.  In particular one that
  turns a file executable, whatever its name.\<close>

theorem confirmation_needed_iff:
  assumes "new_manifest m = Inr m'"
  shows "needs_confirmation (classify_manifest json toml reader (operations m')) \<longleftrightarrow>
    (\<exists>p\<in>set (operations m').
       runs_on_host json toml (base_text_for reader p) p
       \<or> matches_name (posix_name (casefold (op_path p))) DEPENDENCY_NAMES
       \<or> under_policy_directory (casefold (op_path p)))"
proof -
  have "distinct (map (casefold \<circ> op_path) (operations m'))"
    using new_manifest_ok(2)[OF assms] .
  from classify_manifest_map[OF this] show ?thesis
    by (auto simp: needs_confirmation_def list_ex_iff CONFIRM_FLAGS_def disjoint_iff classify_operation_mem)
qed

definition chmod_operation :: publish_operation where
  "chmod_operation = \<lparr>op_path = ''tools/run'', op_kind = Update, base_sha256 = Some ''a'',
     staged_sha256 = Some ''b'', op_content = Some ''x'', base_mode = Some 0x1A4,
     staged_mode = Some 0x1ED, content_base64 = None\<rparr>"

definition chmod_manifest :: publish_manifest where
  "chmod_manifest = \<lparr>manifest_id = ''m'', man_run_id = ''r'', man_workspace_id = ''w'',
     source_snapshot_id = ''s'', approval_id = ''a'', operations = [chmod_operation],
     publication_id = [], batch_index = 1, batch_count = 1\<rparr>"

lemma chmod_manifest_accepted:
  "new_manifest chmod_manifest = Inr (chmod_manifest\<lparr>publication_id := ''m''\<rparr>)"
  by (simp add: new_manifest_def chmod_manifest_def check_batch_position_def MAX_PUBLISH_BATCHES_def)

lemma chmod_runs_on_host: "runs_on_host json toml bt chmod_operation"
  by (simp add: runs_on_host_def Let_def chmod_operation_def gains_executable_bit_def)

theorem confirmation_needed_iff_witness:
  "needs_confirmation (classify_manifest (\<lambda>_. None) (\<lambda>_. None) (\<lambda>_. None) [chmod_operation])"
  using confirmation_needed_iff[OF chmod_manifest_accepted, of "\<lambda>_. None" "\<lambda>_. None" "\<lambda>_. None"]
    chmod_runs_on_host by (simp add: chmod_manifest_def)

text \<open>The review lists every changed path exactly once, sorted by severity: an operation
  with a more serious flag, and any flagged operation before an unflagged one, comes first.\<close>

theorem review_order_lists_all_by_severity:
  assumes "distinct (map fst flags)"
  shows "set (review_order flags) = set (map fst flags) \<and> distinct (review_order flags)
    \<and> sorted (map (\<lambda>q. review_rank (the (map_of flags q))) (review_order flags))
    \<and> (\<forall>i<length (review_order flags). \<forall>j<i.
         map_of flags (review_order flags ! j) = Some [] \<longrightarrow> map_of flags (review_order flags ! i) = Some [])"
proof -
  let ?o = "review_order flags"
  have s: "set ?o = set (map fst flags)" and d: "distinct ?o"
    using assms by (simp_all add: review_order_def)
  have k: "sorted (map (review_key flags) ?o)" by (simp add: review_order_def)
  have sm: "\<exists>fs. map_of flags q = Some fs" if "q \<in> set ?o" for q
    using that s weak_map_of_SomeI[of q _ flags] by fastforce
  have key: "review_rank (the (map_of flags q)) = fst (review_key flags q)" if "q \<in> set ?o" for q
    using sm[OF that] by (auto simp: review_key_def)
  have "sorted_wrt (\<lambda>x y. review_rank (the (map_of flags x)) \<le> review_rank (the (map_of flags y))) ?o"
    by (rule sorted_wrt_mono_rel[OF _ k[unfolded sorted_map]])
      (auto simp: key less_eq_prod_def)
  then have r: "sorted (map (\<lambda>q. review_rank (the (map_of flags q))) ?o)"
    by (simp only: sorted_map)
  moreover have "map_of flags (?o ! i) = Some []"
    if ij: "i < length ?o" "j < i" "map_of flags (?o ! j) = Some []" for i j
  proof -
    obtain fs where fs: "map_of flags (?o ! i) = Some fs" using sm[OF nth_mem[OF ij(1)]] by blast
    have "review_rank (the (map_of flags (?o ! j))) \<le> review_rank (the (map_of flags (?o ! i)))"
      using r ij(1,2) by (auto simp: sorted_iff_nth_mono)
    with ij(3) fs review_rank_le[of fs] review_rank_unflagged[of fs] review_rank_unflagged[of "[]"]
    show ?thesis by simp
  qed
  ultimately show ?thesis using s d by blast
qed

theorem review_order_lists_all_by_severity_witness:
  "review_order [(''b'', []), (''a'', [BinaryFlag]), (''c'', [LargeDeletion, HostExecutable])] = [''c'', ''a'', ''b'']
   \<and> distinct (review_order [(''b'', []), (''a'', [BinaryFlag]), (''c'', [LargeDeletion, HostExecutable])])"
proof
  show "review_order [(''b'', []), (''a'', [BinaryFlag]), (''c'', [LargeDeletion, HostExecutable])]
      = [''c'', ''a'', ''b'']"
    by (simp add: review_order_def review_key_def review_rank_def RISK_FLAGS_def)
  show "distinct (review_order [(''b'', []), (''a'', [BinaryFlag]), (''c'', [LargeDeletion, HostExecutable])])"
    using review_order_lists_all_by_severity[of "[(''b'', []), (''a'', [BinaryFlag]), (''c'', [LargeDeletion, HostExecutable])]"]
    by simp
qed

end
