(* ===== verification/Policy.thy ===== *)
theory Policy
  imports Globs
begin

text \<open>
  The workspace policy (\<open>shared/policy.py\<close>): validation of the parsed \<open>.euesto/policy.toml\<close>,
  its form in the gateway's workspace configuration, and reading it back.  A document is what
  \<open>tomllib.loads\<close> returns; every error is a value, listed in the order of the code.  Reading
  the file itself and hashing the manifests are I/O and not modelled.
\<close>

section \<open>Constants and data\<close>

definition POLICY_VERSION :: int where "POLICY_VERSION = 1"

definition RUNNER_IMAGES :: "string list" where
  "RUNNER_IMAGES = [''auto'', ''base'', ''python'', ''node'', ''polyglot'']"

definition NETWORK_MODES :: "string list" where
  "NETWORK_MODES = [''none'', ''registries'']"

definition DEFAULT_REGISTRY_HOSTS :: "string list" where
  "DEFAULT_REGISTRY_HOSTS = [''pypi.org'', ''files.pythonhosted.org'', ''registry.npmjs.org'']"

definition REGISTRY_ADDITIONS :: "string list" where
  "REGISTRY_ADDITIONS = [''crates.io'', ''static.crates.io'', ''index.crates.io'',
     ''proxy.golang.org'', ''sum.golang.org'', ''repo.maven.apache.org'', ''repo1.maven.org'']"

definition MAX_CHECKS :: nat where "MAX_CHECKS = 12"
definition MAX_COMMAND_CHARS :: nat where "MAX_COMMAND_CHARS = 1000"
definition DEFAULT_CHECK_SECONDS :: int where "DEFAULT_CHECK_SECONDS = 300"
definition MAX_CHECK_SECONDS :: int where "MAX_CHECK_SECONDS = 900"
definition DEFAULT_SETUP_SECONDS :: int where "DEFAULT_SETUP_SECONDS = 900"
definition MAX_SETUP_SECONDS :: int where "MAX_SETUP_SECONDS = 1800"

record check =
  check_name :: string
  check_command :: string
  check_seconds :: int

record workspace_policy =
  runner_image :: string
  network_mode :: string
  allow_hosts :: "string list"
  setup_command :: "string option"
  setup_isolated :: bool
  setup_timeout_seconds :: int
  checks :: "check list"
  pol_secret_patterns :: "string list"
  pol_never_publish :: "string list"
  verify_before_publish :: "string list"

definition default_policy :: workspace_policy where
  "default_policy = \<lparr>runner_image = ''auto'', network_mode = ''none'', allow_hosts = [],
     setup_command = None, setup_isolated = True, setup_timeout_seconds = DEFAULT_SETUP_SECONDS,
     checks = [], pol_secret_patterns = [], pol_never_publish = [], verify_before_publish = []\<rparr>"

definition registry_hosts :: "workspace_policy \<Rightarrow> string list" where
  "registry_hosts p = DEFAULT_REGISTRY_HOSTS @ allow_hosts p"

datatype policy_error =
    UnknownKey string | BadVersion | BadImage | BadMode | NotATable string | NotStrings string
  | TooManyStrings string | HostNotAllowed string | BadSetupCommand | BadIsolated
  | BadSeconds string | ChecksNotATable | TooManyChecks | BadCheckName string
  | BadCheckShape string | BadCheckCommand string | BadSecretPatterns | BadPublishGlobs
  | NoSuchCheck string

section \<open>Validation\<close>

definition unknown_keys :: "string list \<Rightarrow> pydict \<Rightarrow> string list" where
  "unknown_keys keys d = sort (remdups (filter (\<lambda>k. k \<notin> set keys) (dkeys d)))"

definition table_part :: "pydict \<Rightarrow> string \<Rightarrow> string list \<Rightarrow> pydict \<times> policy_error list" where
  "table_part document name keys =
     (case dget_or document name (PDict []) of
        PDict d \<Rightarrow> (d, map (\<lambda>k. UnknownKey (name @ ''.'' @ k)) (unknown_keys keys d))
      | _ \<Rightarrow> ([], [NotATable name]))"

fun strings_part :: "pyval \<Rightarrow> string \<Rightarrow> string list \<times> policy_error list" where
  "strings_part (PList xs) name =
     (if \<not> list_all (\<lambda>x. is_text x \<and> strip (text_of x) \<noteq> []) xs then ([], [NotStrings name])
      else if length xs > MAX_PATTERNS then ([], [TooManyStrings name])
      else (map (strip \<circ> text_of) xs, []))"
| "strings_part _ name = ([], [NotStrings name])"

fun command_ok :: "pyval \<Rightarrow> bool" where
  "command_ok (PStr s) = (strip s \<noteq> [] \<and> py_len s \<le> MAX_COMMAND_CHARS \<and> NUL \<notin> set s)"
| "command_ok _ = False"

definition seconds_part :: "pyval \<Rightarrow> string \<Rightarrow> int \<Rightarrow> int \<times> policy_error list" where
  "seconds_part v name maximum =
     (case v of
        PInt n \<Rightarrow> if 1 \<le> n \<and> n \<le> maximum then (n, [])
                  else (min DEFAULT_CHECK_SECONDS maximum, [BadSeconds name])
      | _ \<Rightarrow> (min DEFAULT_CHECK_SECONDS maximum, [BadSeconds name]))"

text \<open>\<open>CHECK_NAME.match\<close>: the dollar sign of \<open>re\<close> also matches before a final newline.\<close>

definition check_name_body :: "string \<Rightarrow> bool" where
  "check_name_body s =
     (case s of [] \<Rightarrow> False
      | c # t \<Rightarrow> is_lower c \<and> length t \<le> 31
          \<and> list_all (\<lambda>c. is_lower c \<or> is_digit c \<or> c = CHR ''_'' \<or> c = CHR ''-'') t)"

definition check_name_match :: "string \<Rightarrow> bool" where
  "check_name_match s \<longleftrightarrow> check_name_body s \<or> s \<noteq> [] \<and> last s = LF \<and> check_name_body (butlast s)"

fun check_table :: "pyval \<Rightarrow> pydict option" where
  "check_table (PStr s) = Some [(''command'', PStr s)]"
| "check_table (PDict d) = (if set (dkeys d) \<subseteq> {''command'', ''timeout_seconds''} then Some d else None)"
| "check_table _ = None"

definition check_entry :: "string \<times> pyval \<Rightarrow> check list \<times> policy_error list" where
  "check_entry nv =
     (let name = fst nv
      in if \<not> check_name_match name then ([], [BadCheckName name])
         else (case check_table (snd nv) of
            None \<Rightarrow> ([], [BadCheckShape name])
          | Some d \<Rightarrow>
              if \<not> command_ok (dget d ''command'') then ([], [BadCheckCommand name])
              else (case seconds_part (dget_or d ''timeout_seconds'' (PInt DEFAULT_CHECK_SECONDS)) name
                      MAX_CHECK_SECONDS of
                      (t, errs) \<Rightarrow> ([\<lparr>check_name = name,
                         check_command = strip (text_of (dget d ''command'')), check_seconds = t\<rparr>], errs))))"

definition checks_part :: "pydict \<Rightarrow> check list \<times> policy_error list" where
  "checks_part document =
     (let (raw, e0) = (case dget_or document ''checks'' (PDict []) of
              PDict d \<Rightarrow> (d, []) | _ \<Rightarrow> ([], [ChecksNotATable]));
          e1 = (if length raw > MAX_CHECKS then [TooManyChecks] else [])
      in (concat (map (fst \<circ> check_entry) raw), e0 @ e1 @ concat (map (snd \<circ> check_entry) raw)))"

definition runner_part :: "pydict \<Rightarrow> pyval \<times> policy_error list" where
  "runner_part document =
     (let (runner, e) = table_part document ''runner'' [''image''];
          image = dget_or runner ''image'' (PStr ''auto'')
      in (image, e @ (if in_texts image RUNNER_IMAGES then [] else [BadImage])))"

definition network_part :: "pydict \<Rightarrow> pyval \<times> string list \<times> policy_error list" where
  "network_part document =
     (let (network, e) = table_part document ''network'' [''mode'', ''allow_hosts''];
          mode = dget_or network ''mode'' (PStr ''none'');
          (hosts, e2) = strings_part (dget_or network ''allow_hosts'' (PList [])) ''network.allow_hosts''
      in (mode, hosts, e @ (if in_texts mode NETWORK_MODES then [] else [BadMode]) @ e2
            @ map HostNotAllowed (filter (\<lambda>h. casefold h \<notin> set REGISTRY_ADDITIONS) hosts)))"

definition setup_part :: "pydict \<Rightarrow> pyval \<times> pyval \<times> int \<times> policy_error list" where
  "setup_part document =
     (let (setup, e) = table_part document ''setup'' [''command'', ''isolated'', ''timeout_seconds''];
          command = dget setup ''command'';
          isolated = dget_or setup ''isolated'' (PBool True);
          (t, e3) = seconds_part (dget_or setup ''timeout_seconds'' (PInt DEFAULT_SETUP_SECONDS))
            ''setup.timeout_seconds'' MAX_SETUP_SECONDS
      in (command, isolated, t,
          e @ (if has_key setup ''command'' \<and> \<not> command_ok command then [BadSetupCommand] else [])
            @ (case isolated of PBool _ \<Rightarrow> [] | _ \<Rightarrow> [BadIsolated]) @ e3))"

definition secrets_part :: "pydict \<Rightarrow> string list \<times> policy_error list" where
  "secrets_part document =
     (let (secrets, e) = table_part document ''secrets'' [''patterns'']
      in case validate_secret_patterns (dget_or secrets ''patterns'' (PList [])) of
           Inl _ \<Rightarrow> ([], e @ [BadSecretPatterns])
         | Inr ps \<Rightarrow> (ps, e))"

definition publication_part ::
  "pydict \<Rightarrow> string list \<Rightarrow> string list \<times> string list \<times> policy_error list" where
  "publication_part document declared =
     (let (publication, e) = table_part document ''publication'' [''never_publish'', ''verify_before_publish''];
          (never, e1) = (case validate_publish_globs (dget_or publication ''never_publish'' (PList [])) of
             Inl _ \<Rightarrow> ([], [BadPublishGlobs]) | Inr ps \<Rightarrow> (ps, []));
          (verify, e2) = strings_part (dget_or publication ''verify_before_publish'' (PList []))
            ''publication.verify_before_publish''
      in (never, verify, e @ e1 @ e2 @ map NoSuchCheck (filter (\<lambda>n. n \<notin> set declared) verify)))"

definition POLICY_SECTIONS :: "string list" where
  "POLICY_SECTIONS = [''version'', ''runner'', ''network'', ''setup'', ''checks'', ''secrets'', ''publication'']"

fun bool_of :: "pyval \<Rightarrow> bool" where
  "bool_of (PBool b) = b"
| "bool_of _ = False"

definition validate_policy :: "pydict \<Rightarrow> policy_error list + workspace_policy" where
  "validate_policy document =
     (let e0 = map UnknownKey (unknown_keys POLICY_SECTIONS document)
            @ (if eq_int (dget document ''version'') POLICY_VERSION then [] else [BadVersion]);
          (image, e1) = runner_part document;
          (mode, hosts, e2) = network_part document;
          (command, isolated, setup_timeout, e3) = setup_part document;
          (cs, e4) = checks_part document;
          (patterns, e5) = secrets_part document;
          (never, verify, e6) = publication_part document (map check_name cs);
          errors = e0 @ e1 @ e2 @ e3 @ e4 @ e5 @ e6
      in if errors \<noteq> [] then Inl errors
         else Inr \<lparr>runner_image = text_of image, network_mode = text_of mode,
           allow_hosts = dedup (map casefold hosts),
           setup_command = (if is_text command then Some (strip (text_of command)) else None),
           setup_isolated = bool_of isolated, setup_timeout_seconds = setup_timeout,
           checks = cs, pol_secret_patterns = patterns, pol_never_publish = never,
           verify_before_publish = dedup verify\<rparr>)"

section \<open>The stored form\<close>

definition opt_text :: "string option \<Rightarrow> pyval" where
  "opt_text s = (case s of None \<Rightarrow> PNone | Some t \<Rightarrow> PStr t)"

definition texts :: "string list \<Rightarrow> pyval" where
  "texts xs = PList (map PStr xs)"

definition check_config :: "check \<Rightarrow> string \<times> pyval" where
  "check_config c = (check_name c, PDict [(''command'', PStr (check_command c)),
     (''timeout_seconds'', PInt (check_seconds c))])"

definition to_config :: "workspace_policy \<Rightarrow> pydict" where
  "to_config p =
     [(''version'', PInt POLICY_VERSION),
      (''runner_image'', PStr (runner_image p)),
      (''network'', PDict [(''mode'', PStr (network_mode p)), (''allow_hosts'', texts (allow_hosts p))]),
      (''setup'', PDict [(''command'', opt_text (setup_command p)),
         (''isolated'', PBool (setup_isolated p)),
         (''timeout_seconds'', PInt (setup_timeout_seconds p))]),
      (''checks'', PDict (dict_of (map check_config (checks p)))),
      (''secret_patterns'', texts (pol_secret_patterns p)),
      (''never_publish'', texts (pol_never_publish p)),
      (''verify_before_publish'', texts (verify_before_publish p))]"

definition or_else :: "pyval \<Rightarrow> pyval \<Rightarrow> pyval" where
  "or_else v w = (if truthy v then v else w)"

fun dict_or_empty :: "pyval \<Rightarrow> pydict" where
  "dict_or_empty (PDict d) = d"
| "dict_or_empty _ = []"

definition config_document :: "pydict \<Rightarrow> pydict" where
  "config_document value =
     (let network = dict_or_empty (dget value ''network'');
          setup = dict_or_empty (dget value ''setup'');
          base = [(''version'', PInt POLICY_VERSION),
            (''runner'', PDict [(''image'', dget_or value ''runner_image'' (PStr ''auto''))]),
            (''network'', PDict [(''mode'', dget_or network ''mode'' (PStr ''none'')),
               (''allow_hosts'', or_else (dget network ''allow_hosts'') (PList []))]),
            (''checks'', or_else (dget value ''checks'') (PDict [])),
            (''secrets'', PDict [(''patterns'', or_else (dget value ''secret_patterns'') (PList []))]),
            (''publication'', PDict
               [(''never_publish'', or_else (dget value ''never_publish'') (PList [])),
                (''verify_before_publish'', or_else (dget value ''verify_before_publish'') (PList []))])]
      in if truthy (dget setup ''command'')
         then base @ [(''setup'', PDict [(''command'', dget setup ''command''),
            (''isolated'', dget_or setup ''isolated'' (PBool True)),
            (''timeout_seconds'', dget_or setup ''timeout_seconds'' (PInt DEFAULT_SETUP_SECONDS))])]
         else base)"

fun from_config :: "pyval \<Rightarrow> policy_error list + workspace_policy" where
  "from_config (PDict value) = validate_policy (config_document value)"
| "from_config _ = Inr default_policy"

text \<open>\<open>detect_setup_command\<close> on the names of the files at the workspace root.\<close>

definition detect_setup_command :: "string list \<Rightarrow> string option" where
  "detect_setup_command names =
     (let has = (\<lambda>n. n \<in> set names);
          python = (if has ''uv.lock'' then [''uv sync --frozen --no-install-project'']
            else if has ''poetry.lock'' then [''POETRY_VIRTUALENVS_IN_PROJECT=true poetry install --no-root'']
            else if has ''requirements.txt''
              then [''python3 -m venv .venv && .venv/bin/python -m pip install -r requirements.txt'']
            else []);
          node = (if has ''pnpm-lock.yaml'' then [''pnpm install --frozen-lockfile'']
            else if has ''yarn.lock'' then [''yarn install --frozen-lockfile'']
            else if has ''package-lock.json'' \<or> has ''npm-shrinkwrap.json'' then [''npm ci'']
            else []);
          cargo = (if has ''Cargo.lock'' \<or> has ''Cargo.toml'' then [''cargo fetch''] else []);
          go = (if has ''go.mod'' then [''go mod download''] else []);
          commands = python @ node @ cargo @ go
      in if commands = [] then None else Some (join '' && '' commands))"

section \<open>What validation accepts\<close>

definition check_ok :: "check \<Rightarrow> bool" where
  "check_ok c \<longleftrightarrow> check_name_match (check_name c) \<and> check_command c \<noteq> []
     \<and> strip (check_command c) = check_command c
     \<and> py_len (check_command c) \<le> MAX_COMMAND_CHARS \<and> NUL \<notin> set (check_command c)
     \<and> 1 \<le> check_seconds c \<and> check_seconds c \<le> MAX_CHECK_SECONDS"

definition policy_ok :: "workspace_policy \<Rightarrow> bool" where
  "policy_ok p \<longleftrightarrow>
     runner_image p \<in> set RUNNER_IMAGES \<and> network_mode p \<in> set NETWORK_MODES
     \<and> set (allow_hosts p) \<subseteq> set REGISTRY_ADDITIONS \<and> distinct (allow_hosts p)
     \<and> (\<forall>c. setup_command p = Some c \<longrightarrow> c \<noteq> [] \<and> strip c = c \<and> py_len c \<le> MAX_COMMAND_CHARS \<and> NUL \<notin> set c)
     \<and> 1 \<le> setup_timeout_seconds p \<and> setup_timeout_seconds p \<le> MAX_SETUP_SECONDS
     \<and> length (checks p) \<le> MAX_CHECKS \<and> list_all check_ok (checks p)
     \<and> distinct (map check_name (checks p))
     \<and> set (verify_before_publish p) \<subseteq> set (map check_name (checks p))
     \<and> distinct (verify_before_publish p) \<and> length (verify_before_publish p) \<le> MAX_PATTERNS
     \<and> (\<forall>n\<in>set (verify_before_publish p). n \<noteq> [] \<and> strip n = n)
     \<and> length (pol_secret_patterns p) \<le> MAX_PATTERNS \<and> distinct (pol_secret_patterns p)
     \<and> (\<forall>s\<in>set (pol_secret_patterns p). secret_pattern_ok (PStr s) \<and> strip s = s \<and> casefold s = s)
     \<and> length (pol_never_publish p) \<le> MAX_PATTERNS \<and> distinct (pol_never_publish p)
     \<and> (\<forall>g\<in>set (pol_never_publish p). strip g = g)"

text \<open>The keys of a table are distinct, as in every document that \<open>tomllib\<close> returns.\<close>

definition distinct_checks :: "pydict \<Rightarrow> bool" where
  "distinct_checks document =
     (case dget_or document ''checks'' (PDict []) of PDict d \<Rightarrow> distinct (dkeys d) | _ \<Rightarrow> True)"

lemma unknown_keys_mem: "k \<in> set (unknown_keys keys d) \<longleftrightarrow> has_key d k \<and> k \<notin> set keys"
  by (auto simp: unknown_keys_def has_key_def)

lemma unknown_keys_Nil: "unknown_keys keys d = [] \<longleftrightarrow> set (dkeys d) \<subseteq> set keys"
proof -
  have "unknown_keys keys d = [] \<longleftrightarrow> set (unknown_keys keys d) = {}" by (simp only: set_empty)
  also have "\<dots> \<longleftrightarrow> set (dkeys d) \<subseteq> set keys" by (auto simp: unknown_keys_def)
  finally show ?thesis .
qed

lemma validate_policy_Inr:
  "validate_policy doc = Inr p \<longleftrightarrow>
     unknown_keys POLICY_SECTIONS doc = [] \<and> eq_int (dget doc ''version'') POLICY_VERSION
     \<and> (\<exists>image mode hosts command isolated t cs ps nv vf.
          runner_part doc = (image, []) \<and> network_part doc = (mode, hosts, [])
          \<and> setup_part doc = (command, isolated, t, []) \<and> checks_part doc = (cs, [])
          \<and> secrets_part doc = (ps, []) \<and> publication_part doc (map check_name cs) = (nv, vf, [])
          \<and> p = \<lparr>runner_image = text_of image, network_mode = text_of mode,
              allow_hosts = dedup (map casefold hosts),
              setup_command = (if is_text command then Some (strip (text_of command)) else None),
              setup_isolated = bool_of isolated, setup_timeout_seconds = t,
              checks = cs, pol_secret_patterns = ps, pol_never_publish = nv,
              verify_before_publish = dedup vf\<rparr>)"
proof -
  obtain im e1 where 1: "runner_part doc = (im, e1)" by fastforce
  obtain mo ho e2 where 2: "network_part doc = (mo, ho, e2)" by (metis prod_cases3)
  obtain co iso st e3 where 3: "setup_part doc = (co, iso, st, e3)" by (metis prod_cases4)
  obtain ch e4 where 4: "checks_part doc = (ch, e4)" by fastforce
  obtain pa e5 where 5: "secrets_part doc = (pa, e5)" by fastforce
  obtain ne ve e6 where 6: "publication_part doc (map check_name ch) = (ne, ve, e6)" by (metis prod_cases3)
  show ?thesis
    by (simp add: validate_policy_def 1 2 3 4 5 6 Let_def) auto
qed

lemma strings_part_ok:
  assumes "strings_part v n = (xs, [])"
  shows "length xs \<le> MAX_PATTERNS \<and> (\<forall>x\<in>set xs. x \<noteq> [] \<and> strip x = x)"
proof -
  from assms obtain ys where ys: "v = PList ys" by (cases v) auto
  with assms have "length ys \<le> MAX_PATTERNS" "\<forall>x\<in>set ys. strip (text_of x) \<noteq> []"
    "xs = map (strip \<circ> text_of) ys"
    by (auto simp: list_all_iff split: if_splits)
  then show ?thesis by (auto simp: image_iff)
qed

lemma seconds_part_ok: "seconds_part v n m = (t, []) \<longleftrightarrow> v = PInt t \<and> 1 \<le> t \<and> t \<le> m"
  by (cases v) (auto simp: seconds_part_def)

lemma in_texts_iff: "in_texts v xs \<longleftrightarrow> (\<exists>s\<in>set xs. v = PStr s)"
  by (cases v) auto

lemma command_ok_iff:
  "command_ok v \<longleftrightarrow> (\<exists>s. v = PStr s \<and> strip s \<noteq> [] \<and> py_len s \<le> MAX_COMMAND_CHARS \<and> NUL \<notin> set s)"
  by (cases v) auto

lemma command_ok_strip: "command_ok (PStr s) \<Longrightarrow> command_ok (PStr (strip s))"
  using strip_subset[of s] py_len_strip[of s] by auto

lemma runner_part_ok: "runner_part doc = (im, []) \<Longrightarrow> \<exists>s\<in>set RUNNER_IMAGES. im = PStr s"
  by (auto simp: runner_part_def Let_def in_texts_iff split: prod.splits if_splits)

lemma network_part_ok:
  assumes "network_part doc = (mode, hosts, [])"
  shows "(\<exists>s\<in>set NETWORK_MODES. mode = PStr s) \<and> (\<forall>h\<in>set hosts. casefold h \<in> set REGISTRY_ADDITIONS)"
  using assms
  by (auto simp: network_part_def Let_def in_texts_iff filter_empty_conv split: prod.splits if_splits)

lemma setup_part_ok:
  assumes "setup_part doc = (command, isolated, t, [])"
  shows "(is_text command \<longrightarrow> command_ok command) \<and> (\<exists>b. isolated = PBool b) \<and> 1 \<le> t \<and> t \<le> MAX_SETUP_SECONDS"
proof -
  have K: "is_text (dget d k) \<Longrightarrow> has_key d k" for d k
    by (auto simp: dget_def has_key_def dkeys_def split: option.splits dest: map_of_SomeD
        intro: rev_image_eqI)
  show ?thesis
    using assms K
    by (auto simp: setup_part_def Let_def seconds_part_ok split: prod.splits if_splits pyval.splits)
qed

lemma check_entry_ok:
  assumes "snd (check_entry nv) = []"
  shows "\<exists>c. fst (check_entry nv) = [c] \<and> check_ok c \<and> check_name c = fst nv"
proof -
  from assms obtain d t where m: "check_name_match (fst nv)" and c: "command_ok (dget d ''command'')"
    and t: "1 \<le> t" "t \<le> MAX_CHECK_SECONDS"
    and e: "fst (check_entry nv) = [\<lparr>check_name = fst nv,
        check_command = strip (text_of (dget d ''command'')), check_seconds = t\<rparr>]"
    by (auto simp: check_entry_def Let_def split: if_splits option.splits prod.splits)
      (metis seconds_part_ok)
  from command_ok_strip[of "text_of (dget d ''command'')"] c m t e show ?thesis
    by (auto simp: check_ok_def command_ok_iff)
qed

lemma check_entries_ok:
  assumes "concat (map (snd \<circ> check_entry) raw) = []"
  shows "list_all check_ok (concat (map (fst \<circ> check_entry) raw))
    \<and> map check_name (concat (map (fst \<circ> check_entry) raw)) = map fst raw"
  using assms
proof (induction raw)
  case (Cons nv raw)
  then show ?case using check_entry_ok[of nv] by auto
qed simp

lemma checks_part_ok:
  assumes "checks_part doc = (cs, [])"
  shows "list_all check_ok cs" and "length cs \<le> MAX_CHECKS"
    and "distinct_checks doc \<Longrightarrow> distinct (map check_name cs)"
proof -
  from assms obtain raw where raw: "dget_or doc ''checks'' (PDict []) = PDict raw"
    "length raw \<le> MAX_CHECKS" "concat (map (snd \<circ> check_entry) raw) = []"
    "cs = concat (map (fst \<circ> check_entry) raw)"
    by (auto simp: checks_part_def Let_def split: prod.splits pyval.splits if_splits)
  from check_entries_ok[OF raw(3)] have ok: "list_all check_ok cs" "map check_name cs = map fst raw"
    unfolding raw(4) by blast+
  from ok(2) have "length cs = length raw" by (metis length_map)
  with ok raw show "list_all check_ok cs" "length cs \<le> MAX_CHECKS"
    "distinct_checks doc \<Longrightarrow> distinct (map check_name cs)"
    by (simp_all add: distinct_checks_def dkeys_def)
qed

lemma ascii_lower_mem:
  assumes "ord d < 65 \<or> 90 < ord d \<and> ord d < 97 \<or> 122 < ord d"
  shows "d \<in> set (casefold s) \<longleftrightarrow> d \<in> set s"
  using ascii_lower_eq_iff[OF assms] by (force simp: casefold_def)

lemma secret_pattern_normal:
  assumes "secret_pattern_ok (PStr r)" and "s = casefold (strip r)"
  shows "secret_pattern_ok (PStr s) \<and> strip s = s \<and> casefold s = s"
  using assms strip_subset[of r] py_len_strip[of r]
  by (auto simp: strip_casefold ascii_lower_mem ord_def)

lemma secret_patterns_normal:
  assumes "validate_secret_patterns v = Inr ps"
  shows "\<forall>s\<in>set ps. secret_pattern_ok (PStr s) \<and> strip s = s \<and> casefold s = s"
proof -
  from assms obtain vs where vs: "v = PList vs" by (cases v) auto
  with assms have "\<forall>x\<in>set vs. secret_pattern_ok x" "set ps = (casefold \<circ> strip \<circ> text_of) ` set vs"
    by (auto simp: list_all_iff split: if_splits)
  moreover have "secret_pattern_ok (PStr s) \<and> strip s = s \<and> casefold s = s"
    if x: "secret_pattern_ok x" and s: "s = casefold (strip (text_of x))" for x s
  proof -
    have "secret_pattern_ok (PStr (text_of x))" using x by (cases x) auto
    from secret_pattern_normal[OF this s] show ?thesis .
  qed
  ultimately show ?thesis by (auto simp del: secret_pattern_ok.simps)
qed

lemma publish_globs_normal:
  assumes "validate_publish_globs v = Inr ps"
  shows "\<forall>s\<in>set ps. strip s = s"
proof -
  from assms obtain vs where vs: "v = PList vs" by (cases v) auto
  with assms have "set ps = (strip \<circ> text_of) ` set vs" by (auto split: if_splits)
  then show ?thesis by auto
qed

lemma secrets_part_ok:
  assumes "secrets_part doc = (ps, [])"
  shows "length ps \<le> MAX_PATTERNS \<and> distinct ps
    \<and> (\<forall>s\<in>set ps. secret_pattern_ok (PStr s) \<and> strip s = s \<and> casefold s = s)"
proof -
  from assms obtain v where v: "validate_secret_patterns v = Inr ps"
    by (auto simp: secrets_part_def split: prod.splits sum.splits)
  show ?thesis
    using secret_patterns_normal[OF v] validate_secret_patterns_bounds[OF v] by blast
qed

lemma publication_part_ok:
  assumes "publication_part doc declared = (nv, vf, [])"
  shows "length nv \<le> MAX_PATTERNS \<and> distinct nv \<and> (\<forall>s\<in>set nv. strip s = s)
    \<and> length vf \<le> MAX_PATTERNS \<and> (\<forall>n\<in>set vf. n \<noteq> [] \<and> strip n = n \<and> n \<in> set declared)"
proof -
  from assms obtain v w where v: "validate_publish_globs v = Inr nv"
    and w: "strings_part w ''publication.verify_before_publish'' = (vf, [])"
    and d: "\<forall>n\<in>set vf. n \<in> set declared"
    by (auto simp: publication_part_def filter_empty_conv split: prod.splits sum.splits)
  show ?thesis
    using publish_globs_normal[OF v] validate_publish_globs_bounds[OF v] strings_part_ok[OF w] d by blast
qed

section \<open>Properties\<close>

lemma validate_policy_ok:
  assumes "distinct_checks doc" and "validate_policy doc = Inr p"
  shows "policy_ok p"
proof -
  from assms(2)[unfolded validate_policy_Inr] obtain image mode hosts command isolated t cs ps nv vf where
    1: "runner_part doc = (image, [])" and 2: "network_part doc = (mode, hosts, [])"
    and 3: "setup_part doc = (command, isolated, t, [])" and 4: "checks_part doc = (cs, [])"
    and 5: "secrets_part doc = (ps, [])" and 6: "publication_part doc (map check_name cs) = (nv, vf, [])"
    and p: "p = \<lparr>runner_image = text_of image, network_mode = text_of mode,
        allow_hosts = dedup (map casefold hosts),
        setup_command = (if is_text command then Some (strip (text_of command)) else None),
        setup_isolated = bool_of isolated, setup_timeout_seconds = t,
        checks = cs, pol_secret_patterns = ps, pol_never_publish = nv,
        verify_before_publish = dedup vf\<rparr>"
    by blast
  have c: "c \<noteq> [] \<and> strip c = c \<and> py_len c \<le> MAX_COMMAND_CHARS \<and> NUL \<notin> set c"
    if "setup_command p = Some c" for c
  proof -
    from that p have t: "is_text command" "c = strip (text_of command)" by (auto split: if_splits)
    with setup_part_ok[OF 3] have "command_ok (PStr (text_of command))"
      by (cases command) auto
    from command_ok_strip[OF this] show ?thesis by (simp add: t(2))
  qed
  have "runner_image p \<in> set RUNNER_IMAGES" using runner_part_ok[OF 1] by (auto simp: p)
  moreover have "network_mode p \<in> set NETWORK_MODES" "set (allow_hosts p) \<subseteq> set REGISTRY_ADDITIONS"
    "distinct (allow_hosts p)"
    using network_part_ok[OF 2] by (auto simp: p)
  moreover have "1 \<le> setup_timeout_seconds p" "setup_timeout_seconds p \<le> MAX_SETUP_SECONDS"
    using setup_part_ok[OF 3] by (simp_all add: p)
  moreover have "length (checks p) \<le> MAX_CHECKS" "list_all check_ok (checks p)"
    "distinct (map check_name (checks p))"
    using checks_part_ok[OF 4] assms(1) by (simp_all add: p)
  moreover have "length (verify_before_publish p) \<le> MAX_PATTERNS"
    using publication_part_ok[OF 6] dedup_length[of vf] by (simp add: p)
  moreover have "set (verify_before_publish p) \<subseteq> set (map check_name (checks p))"
    "distinct (verify_before_publish p)" "\<forall>n\<in>set (verify_before_publish p). n \<noteq> [] \<and> strip n = n"
    using publication_part_ok[OF 6] by (auto simp: p)
  moreover have "length (pol_never_publish p) \<le> MAX_PATTERNS" "distinct (pol_never_publish p)"
    "\<forall>g\<in>set (pol_never_publish p). strip g = g"
    using publication_part_ok[OF 6] by (simp_all add: p)
  moreover have "length (pol_secret_patterns p) \<le> MAX_PATTERNS" "distinct (pol_secret_patterns p)"
    "\<forall>s\<in>set (pol_secret_patterns p). secret_pattern_ok (PStr s) \<and> strip s = s \<and> casefold s = s"
    using secrets_part_ok[OF 5] by (simp_all add: p del: secret_pattern_ok.simps)
  ultimately show ?thesis unfolding policy_ok_def using c by blast
qed

definition POLICY_TABLES :: "(string \<times> string list) list" where
  "POLICY_TABLES = [(''runner'', [''image'']), (''network'', [''mode'', ''allow_hosts'']),
     (''setup'', [''command'', ''isolated'', ''timeout_seconds'']), (''secrets'', [''patterns'']),
     (''publication'', [''never_publish'', ''verify_before_publish''])]"

lemma table_error_reported:
  assumes "(sec, keys) \<in> set POLICY_TABLES" and "e \<in> set (snd (table_part doc sec keys))"
  shows "\<exists>es. validate_policy doc = Inl es \<and> e \<in> set es"
proof -
  obtain im e1 where 1: "runner_part doc = (im, e1)" by fastforce
  obtain mo ho e2 where 2: "network_part doc = (mo, ho, e2)" by (metis prod_cases3)
  obtain co iso st e3 where 3: "setup_part doc = (co, iso, st, e3)" by (metis prod_cases4)
  obtain ch e4 where 4: "checks_part doc = (ch, e4)" by fastforce
  obtain pa e5 where 5: "secrets_part doc = (pa, e5)" by fastforce
  obtain ne ve e6 where 6: "publication_part doc (map check_name ch) = (ne, ve, e6)" by (metis prod_cases3)
  have "e \<in> set e1 \<or> e \<in> set e2 \<or> e \<in> set e3 \<or> e \<in> set e5 \<or> e \<in> set e6"
    using assms 1 2 3 5 6
    by (auto simp: POLICY_TABLES_def runner_part_def network_part_def setup_part_def secrets_part_def
        publication_part_def Let_def split: prod.splits sum.splits)
  then show ?thesis
    by (auto simp: validate_policy_def 1 2 3 4 5 6 Let_def)
qed

lemma head_error_reported:
  assumes "e \<in> set (map UnknownKey (unknown_keys POLICY_SECTIONS doc)
      @ (if eq_int (dget doc ''version'') POLICY_VERSION then [] else [BadVersion]))"
  shows "\<exists>es. validate_policy doc = Inl es \<and> e \<in> set es"
proof -
  obtain im e1 where 1: "runner_part doc = (im, e1)" by fastforce
  obtain mo ho e2 where 2: "network_part doc = (mo, ho, e2)" by (metis prod_cases3)
  obtain co iso st e3 where 3: "setup_part doc = (co, iso, st, e3)" by (metis prod_cases4)
  obtain ch e4 where 4: "checks_part doc = (ch, e4)" by fastforce
  obtain pa e5 where 5: "secrets_part doc = (pa, e5)" by fastforce
  obtain ne ve e6 where 6: "publication_part doc (map check_name ch) = (ne, ve, e6)" by (metis prod_cases3)
  from assms show ?thesis
    by (auto simp: validate_policy_def 1 2 3 4 5 6 Let_def)
qed

text \<open>Everything a policy that validates can ask for is bounded: its image and network mode
  are known ones, the extra hosts are public registries from the fixed list, there are at most
  twelve checks with distinct well-formed names, non-empty commands of at most 1000 characters
  and timeouts of at most 900 seconds, the setup command and its timeout are bounded, and a check
  required before publication is one that the policy declares.\<close>

theorem accepted_policy_is_bounded:
  assumes "distinct_checks doc" and "validate_policy doc = Inr p"
  shows "policy_ok p \<and> set (registry_hosts p) \<subseteq> set DEFAULT_REGISTRY_HOSTS \<union> set REGISTRY_ADDITIONS"
  using validate_policy_ok[OF assms] by (auto simp: policy_ok_def registry_hosts_def)

text \<open>Validation fails closed: an unknown section, an unknown key of a known section, a
  section that is not a table or a wrong version rejects the whole document, and the error list
  names it.\<close>

theorem policy_fails_closed:
  "(\<forall>k. has_key doc k \<and> k \<notin> set POLICY_SECTIONS \<longrightarrow>
      (\<exists>es. validate_policy doc = Inl es \<and> UnknownKey k \<in> set es))
   \<and> (\<not> eq_int (dget doc ''version'') POLICY_VERSION \<longrightarrow>
      (\<exists>es. validate_policy doc = Inl es \<and> BadVersion \<in> set es))
   \<and> (\<forall>(sec, keys)\<in>set POLICY_TABLES. case dget_or doc sec (PDict []) of
        PDict d \<Rightarrow> (\<forall>k. has_key d k \<and> k \<notin> set keys \<longrightarrow>
          (\<exists>es. validate_policy doc = Inl es \<and> UnknownKey (sec @ ''.'' @ k) \<in> set es))
      | _ \<Rightarrow> (\<exists>es. validate_policy doc = Inl es \<and> NotATable sec \<in> set es))"
proof (intro conjI)
  show "\<forall>k. has_key doc k \<and> k \<notin> set POLICY_SECTIONS \<longrightarrow>
      (\<exists>es. validate_policy doc = Inl es \<and> UnknownKey k \<in> set es)"
    using head_error_reported[of "UnknownKey _" doc] by (auto simp: unknown_keys_mem)
  show "\<not> eq_int (dget doc ''version'') POLICY_VERSION \<longrightarrow>
      (\<exists>es. validate_policy doc = Inl es \<and> BadVersion \<in> set es)"
    using head_error_reported[of BadVersion doc] by auto
  show "\<forall>(sec, keys)\<in>set POLICY_TABLES. case dget_or doc sec (PDict []) of
        PDict d \<Rightarrow> (\<forall>k. has_key d k \<and> k \<notin> set keys \<longrightarrow>
          (\<exists>es. validate_policy doc = Inl es \<and> UnknownKey (sec @ ''.'' @ k) \<in> set es))
      | _ \<Rightarrow> (\<exists>es. validate_policy doc = Inl es \<and> NotATable sec \<in> set es)"
  proof safe
    fix sec keys
    assume m: "(sec, keys) \<in> set POLICY_TABLES"
    have E: "\<exists>es. validate_policy doc = Inl es \<and> e \<in> set es"
      if "e \<in> set (snd (table_part doc sec keys))" for e
      by (rule table_error_reported[OF m that])
    show "case dget_or doc sec (PDict []) of
        PDict d \<Rightarrow> (\<forall>k. has_key d k \<and> k \<notin> set keys \<longrightarrow>
          (\<exists>es. validate_policy doc = Inl es \<and> UnknownKey (sec @ ''.'' @ k) \<in> set es))
      | _ \<Rightarrow> (\<exists>es. validate_policy doc = Inl es \<and> NotATable sec \<in> set es)"
      by (cases "dget_or doc sec (PDict [])")
        (simp_all add: table_part_def unknown_keys_mem E)
  qed
qed

section \<open>Reading a stored policy back\<close>

lemma or_else_texts [simp]: "or_else (texts xs) (PList []) = texts xs"
  by (simp add: or_else_def texts_def)

lemma strings_part_texts:
  assumes "length xs \<le> MAX_PATTERNS" and "\<forall>x\<in>set xs. x \<noteq> [] \<and> strip x = x"
  shows "strings_part (texts xs) n = (xs, [])"
proof -
  have "map (strip \<circ> text_of \<circ> PStr) xs = xs" using assms(2) by (simp add: map_idI)
  then show ?thesis using assms by (simp add: texts_def list_all_iff)
qed

lemma check_entry_config:
  assumes "check_ok c"
  shows "check_entry (check_config c) = ([c], [])"
  using assms
  by (cases c) (auto simp: check_entry_def check_config_def check_ok_def Let_def dkeys_def dget_def
      dget_or_def seconds_part_def)

lemma check_entries_config:
  "list_all check_ok cs \<Longrightarrow> concat (map (fst \<circ> check_entry) (map check_config cs)) = cs
     \<and> concat (map (snd \<circ> check_entry) (map check_config cs)) = []"
  by (induction cs) (auto simp: check_entry_config)

lemma map_fst_check_config: "map fst (map check_config cs) = map check_name cs"
  by (simp add: check_config_def)

definition reload_document :: "workspace_policy \<Rightarrow> pydict" where
  "reload_document p =
     [(''version'', PInt POLICY_VERSION),
      (''runner'', PDict [(''image'', PStr (runner_image p))]),
      (''network'', PDict [(''mode'', PStr (network_mode p)), (''allow_hosts'', texts (allow_hosts p))]),
      (''checks'', PDict (map check_config (checks p))),
      (''secrets'', PDict [(''patterns'', texts (pol_secret_patterns p))]),
      (''publication'', PDict [(''never_publish'', texts (pol_never_publish p)),
         (''verify_before_publish'', texts (verify_before_publish p))])]
     @ (case setup_command p of None \<Rightarrow> []
        | Some c \<Rightarrow> [(''setup'', PDict [(''command'', PStr c), (''isolated'', PBool (setup_isolated p)),
            (''timeout_seconds'', PInt (setup_timeout_seconds p))])])"

lemma config_document_to_config:
  assumes "policy_ok p"
  shows "config_document (to_config p) = reload_document p"
proof -
  have d: "dict_of (map check_config (checks p)) = map check_config (checks p)"
    using assms by (intro dict_of_distinct) (simp add: map_fst_check_config policy_ok_def del: map_map)
  have n: "c \<noteq> []" if "setup_command p = Some c" for c
    using assms that by (simp add: policy_ok_def)
  have o: "or_else (PDict (map check_config (checks p))) (PDict []) = PDict (map check_config (checks p))"
    by (simp add: or_else_def)
  show ?thesis
    using n
    by (simp add: config_document_def to_config_def reload_document_def dget_def dget_or_def d o Let_def
        opt_text_def split: option.splits)
qed

lemma dget_or_reload:
  "dget_or (reload_document p) ''runner'' v = PDict [(''image'', PStr (runner_image p))]"
  "dget_or (reload_document p) ''network'' v =
     PDict [(''mode'', PStr (network_mode p)), (''allow_hosts'', texts (allow_hosts p))]"
  "dget_or (reload_document p) ''checks'' v = PDict (map check_config (checks p))"
  "dget_or (reload_document p) ''secrets'' v = PDict [(''patterns'', texts (pol_secret_patterns p))]"
  "dget_or (reload_document p) ''publication'' v =
     PDict [(''never_publish'', texts (pol_never_publish p)),
       (''verify_before_publish'', texts (verify_before_publish p))]"
  "dget_or (reload_document p) ''setup'' v =
     (case setup_command p of None \<Rightarrow> v
      | Some c \<Rightarrow> PDict [(''command'', PStr c), (''isolated'', PBool (setup_isolated p)),
            (''timeout_seconds'', PInt (setup_timeout_seconds p))])"
  by (simp_all add: reload_document_def dget_or_def split: option.splits)

lemma unknown_keys_reload: "unknown_keys POLICY_SECTIONS (reload_document p) = []"
  by (auto simp: unknown_keys_Nil reload_document_def dkeys_def POLICY_SECTIONS_def split: option.splits)

lemma unknown_keys_none: "set (dkeys d) \<subseteq> set keys \<Longrightarrow> unknown_keys keys d = []"
  by (simp add: unknown_keys_Nil)

lemma registry_additions_normal: "\<forall>h\<in>set REGISTRY_ADDITIONS. h \<noteq> [] \<and> strip h = h \<and> casefold h = h"
  by code_simp

lemma allow_hosts_bound:
  assumes "policy_ok p"
  shows "length (allow_hosts p) \<le> MAX_PATTERNS" and "\<forall>h\<in>set (allow_hosts p). h \<noteq> [] \<and> strip h = h \<and> casefold h = h"
proof -
  have s: "set (allow_hosts p) \<subseteq> set REGISTRY_ADDITIONS" "distinct (allow_hosts p)"
    using assms by (simp_all add: policy_ok_def)
  have "length (allow_hosts p) = card (set (allow_hosts p))" using s(2) by (simp add: distinct_card)
  also have "\<dots> \<le> card (set REGISTRY_ADDITIONS)" using s(1) by (intro card_mono) simp_all
  also have "\<dots> \<le> length REGISTRY_ADDITIONS" by (rule card_length)
  also have "\<dots> \<le> MAX_PATTERNS" by (simp add: REGISTRY_ADDITIONS_def MAX_PATTERNS_def)
  finally show "length (allow_hosts p) \<le> MAX_PATTERNS" .
  show "\<forall>h\<in>set (allow_hosts p). h \<noteq> [] \<and> strip h = h \<and> casefold h = h"
    using s(1) registry_additions_normal by blast
qed

lemma runner_part_reload:
  "policy_ok p \<Longrightarrow> runner_part (reload_document p) = (PStr (runner_image p), [])"
  by (simp add: runner_part_def table_part_def dget_or_reload unknown_keys_none dkeys_def policy_ok_def
      dget_or_def[of "[_]"])

lemma network_part_reload:
  assumes "policy_ok p"
  shows "network_part (reload_document p) = (PStr (network_mode p), allow_hosts p, [])"
proof -
  have h: "strings_part (texts (allow_hosts p)) n = (allow_hosts p, [])" for n
    using allow_hosts_bound[OF assms] by (intro strings_part_texts) simp_all
  have f: "filter (\<lambda>h. casefold h \<notin> set REGISTRY_ADDITIONS) (allow_hosts p) = []"
    using allow_hosts_bound(2)[OF assms] assms by (auto simp: filter_empty_conv policy_ok_def)
  show ?thesis
    using assms by (simp add: network_part_def table_part_def dget_or_reload unknown_keys_none dkeys_def
        policy_ok_def h f dget_or_def[of "_ # _"])
qed

lemma checks_part_reload:
  assumes "policy_ok p"
  shows "checks_part (reload_document p) = (checks p, [])"
  using assms check_entries_config[of "checks p"]
  by (simp add: checks_part_def dget_or_reload policy_ok_def del: map_map)

lemma secrets_part_reload:
  assumes "policy_ok p"
  shows "secrets_part (reload_document p) = (pol_secret_patterns p, [])"
proof -
  have "map (casefold \<circ> strip \<circ> text_of \<circ> PStr) (pol_secret_patterns p) = pol_secret_patterns p"
    using assms by (intro map_idI) (simp add: policy_ok_def)
  then have "validate_secret_patterns (texts (pol_secret_patterns p)) = Inr (pol_secret_patterns p)"
    using assms by (simp add: texts_def list_all_iff policy_ok_def del: secret_pattern_ok.simps)
  then show ?thesis
    by (simp add: secrets_part_def table_part_def dget_or_reload unknown_keys_none dkeys_def
        dget_or_def[of "[_]"] del: validate_secret_patterns.simps)
qed

definition globs_reload :: "workspace_policy \<Rightarrow> bool" where
  "globs_reload p = list_all (\<lambda>g. publish_pattern_ok (PStr g)) (pol_never_publish p)"

lemma publication_part_reload:
  assumes "policy_ok p"
  shows "publication_part (reload_document p) (map check_name (checks p)) =
    (if globs_reload p then (pol_never_publish p, verify_before_publish p, [])
     else ([], verify_before_publish p, [BadPublishGlobs]))"
proof -
  have m: "map (strip \<circ> text_of \<circ> PStr) (pol_never_publish p) = pol_never_publish p"
    using assms by (intro map_idI) (simp add: policy_ok_def)
  have l: "list_all publish_pattern_ok (map PStr (pol_never_publish p)) = globs_reload p"
    by (simp add: globs_reload_def list_all_iff)
  have v: "validate_publish_globs (texts (pol_never_publish p)) =
      (if globs_reload p then Inr (pol_never_publish p) else Inl ValueErr)"
    using assms m by (simp add: texts_def l policy_ok_def)
  have s: "strings_part (texts (verify_before_publish p)) n = (verify_before_publish p, [])" for n
    using assms by (intro strings_part_texts) (simp_all add: policy_ok_def)
  have f: "filter (\<lambda>n. n \<notin> check_name ` set (checks p)) (verify_before_publish p) = []"
    using assms by (auto simp: filter_empty_conv policy_ok_def)
  show ?thesis
    by (simp add: publication_part_def table_part_def dget_or_reload unknown_keys_none dkeys_def s v f
        dget_or_def[of "_ # _"])
qed

lemma setup_part_reload:
  assumes "policy_ok p"
  shows "setup_part (reload_document p) =
    (case setup_command p of
       None \<Rightarrow> (PNone, PBool True, DEFAULT_SETUP_SECONDS, [])
     | Some c \<Rightarrow> (PStr c, PBool (setup_isolated p), setup_timeout_seconds p, []))"
proof (cases "setup_command p")
  case None
  then show ?thesis
    by (simp add: setup_part_def table_part_def dget_or_reload unknown_keys_none dkeys_def has_key_def
        dget_def dget_or_def[of "[]"] seconds_part_def DEFAULT_SETUP_SECONDS_def MAX_SETUP_SECONDS_def)
next
  case (Some c)
  then have "c \<noteq> [] \<and> strip c = c \<and> py_len c \<le> MAX_COMMAND_CHARS \<and> NUL \<notin> set c"
    "1 \<le> setup_timeout_seconds p" "setup_timeout_seconds p \<le> MAX_SETUP_SECONDS"
    using assms by (simp_all add: policy_ok_def)
  with Some show ?thesis
    by (simp add: setup_part_def table_part_def dget_or_reload unknown_keys_none dkeys_def has_key_def
        dget_def dget_or_def[of "_ # _"] seconds_part_def)
qed

text \<open>What a reload keeps: without a setup command the other setup options return to their
  defaults.\<close>

definition reloaded_policy :: "workspace_policy \<Rightarrow> workspace_policy" where
  "reloaded_policy p =
     (if setup_command p = None
      then p\<lparr>setup_isolated := True, setup_timeout_seconds := DEFAULT_SETUP_SECONDS\<rparr> else p)"

text \<open>The texts of a policy are ASCII, where folding and trimming are those of Python.\<close>

definition ascii_policy :: "workspace_policy \<Rightarrow> bool" where
  "ascii_policy p = list_all (list_all (\<lambda>c. ord c < 128))
     (runner_image p # allow_hosts p @ (case setup_command p of None \<Rightarrow> [] | Some c \<Rightarrow> [c])
      @ map check_name (checks p) @ map check_command (checks p)
      @ pol_secret_patterns p @ pol_never_publish p @ verify_before_publish p)"

text \<open>Claim C32. A policy of ASCII texts that validated, was confirmed and stored by \<open>to_config\<close> is read back exactly when
  every never-publish glob is still valid after its white space was trimmed; it comes back as it was, except that
  the isolation and the time limit of the setup return to their defaults when there is no setup command;
  otherwise the whole confirmed policy is rejected when it is read back.\<close>

theorem stored_policy_reloads:
  assumes "distinct_checks doc" and "validate_policy doc = Inr p" and "ascii_policy p"
  shows "from_config (PDict (to_config p)) =
    (if globs_reload p then Inr (reloaded_policy p) else Inl [BadPublishGlobs])"
proof -
  have ok: "policy_ok p" by (rule validate_policy_ok[OF assms(1,2)])
  have h: "dedup (map casefold (allow_hosts p)) = allow_hosts p"
    using allow_hosts_bound(2)[OF ok] ok by (simp add: map_idI policy_ok_def)
  have c: "strip c = c" if "setup_command p = Some c" for c using that ok by (simp add: policy_ok_def)
  have v: "dedup (verify_before_publish p) = verify_before_publish p" using ok by (simp add: policy_ok_def)
  have ver: "eq_int (dget (reload_document p) ''version'') POLICY_VERSION"
    by (simp add: dget_def reload_document_def)
  show ?thesis
    by (cases "setup_command p")
      (simp_all add: config_document_to_config[OF ok] validate_policy_def Let_def unknown_keys_reload ver
        runner_part_reload[OF ok] network_part_reload[OF ok] setup_part_reload[OF ok]
        checks_part_reload[OF ok] secrets_part_reload[OF ok] publication_part_reload[OF ok]
        h v c reloaded_policy_def)
qed

definition sample_document :: pydict where
  "sample_document =
     [(''version'', PInt 1),
      (''runner'', PDict [(''image'', PStr ''python'')]),
      (''network'', PDict [(''mode'', PStr ''registries''), (''allow_hosts'', PList [PStr ''Crates.io''])]),
      (''setup'', PDict [(''command'', PStr '' uv sync''), (''isolated'', PBool False)]),
      (''checks'', PDict [(''test'', PStr ''pytest -q''),
         (''lint'', PDict [(''command'', PStr ''ruff''), (''timeout_seconds'', PInt 120)])]),
      (''publication'', PDict [(''never_publish'', PList [PStr ''deploy/**'']),
         (''verify_before_publish'', PList [PStr ''test''])])]"

definition sample_policy :: workspace_policy where
  "sample_policy = \<lparr>runner_image = ''python'', network_mode = ''registries'', allow_hosts = [''crates.io''],
     setup_command = Some ''uv sync'', setup_isolated = False, setup_timeout_seconds = 900,
     checks = [\<lparr>check_name = ''test'', check_command = ''pytest -q'', check_seconds = 300\<rparr>,
       \<lparr>check_name = ''lint'', check_command = ''ruff'', check_seconds = 120\<rparr>],
     pol_secret_patterns = [], pol_never_publish = [''deploy/**''], verify_before_publish = [''test'']\<rparr>"

definition blank_glob_document :: pydict where
  "blank_glob_document = [(''version'', PInt 1),
     (''publication'', PDict [(''never_publish'', PList [PStr ''secrets/**'', PStr '' /deploy''])])]"

lemma sample_accepted: "validate_policy sample_document = Inr sample_policy"
  by code_simp

lemma sample_distinct: "distinct_checks sample_document"
  by code_simp

theorem accepted_policy_is_bounded_witness:
  "policy_ok sample_policy"
  using accepted_policy_is_bounded[OF sample_distinct sample_accepted] by blast

theorem policy_fails_closed_witness:
  "\<exists>es. validate_policy [(''version'', PInt 1), (''netwrk'', PDict [])] = Inl es
     \<and> UnknownKey ''netwrk'' \<in> set es"
proof -
  have "has_key [(''version'', PInt 1), (''netwrk'', PDict [])] ''netwrk''"
    and "''netwrk'' \<notin> set POLICY_SECTIONS"
    by (simp_all add: has_key_def dkeys_def POLICY_SECTIONS_def)
  with policy_fails_closed[of "[(''version'', PInt 1), (''netwrk'', PDict [])]"] show ?thesis by blast
qed

theorem stored_policy_reloads_witness:
  "from_config (PDict (to_config sample_policy)) = Inr sample_policy"
proof -
  have "globs_reload sample_policy" "ascii_policy sample_policy" by code_simp+
  with stored_policy_reloads[OF sample_distinct sample_accepted] show ?thesis
    by (simp add: reloaded_policy_def sample_policy_def)
qed

text \<open>A never-publish glob that starts with a blank before a slash passes validation, because the
  check looks at the untrimmed text, and is stored trimmed; the stored policy is then rejected as a
  whole, so the confirmed protections (here for \<open>secrets/**\<close>) are silently gone.\<close>

theorem blank_glob_loses_policy:
  "\<exists>p. validate_policy blank_glob_document = Inr p \<and> ''secrets/**'' \<in> set (pol_never_publish p)
     \<and> from_config (PDict (to_config p)) = Inl [BadPublishGlobs]"
proof -
  define p where "p = default_policy\<lparr>pol_never_publish := [''secrets/**'', ''/deploy'']\<rparr>"
  have "validate_policy blank_glob_document = Inr p"
    unfolding p_def by code_simp
  moreover have "from_config (PDict (to_config p)) = Inl [BadPublishGlobs]"
    unfolding p_def by code_simp
  ultimately show ?thesis by (auto simp: p_def)
qed

end
