(* ===== verification/Budgets.thy ===== *)
theory Budgets
  imports Prelude
begin

text \<open>
  Run budgets (\<open>server/agent/budgets.py\<close>): profiles, the counters of a run and their limits, the
  wind-down reserve, the snapshot that a paused run is resumed from, and the use the agent loop
  (\<open>_loop\<close> of \<open>server/agent/runtime.py\<close>) makes of them, as a step relation.

  Seconds and costs are real numbers: rounding of Python floats, infinities and NaN are not
  modelled.  \<open>time.monotonic()\<close> is the argument \<open>now\<close>.  A method that raises after it changed the
  budget returns both the error and the new state.
\<close>

section \<open>Profiles\<close>

record budget_profile =
  prof_name :: string
  prof_max_iterations :: int
  prof_max_tool_calls :: int
  prof_max_wall_seconds :: int
  prof_max_cost :: real
  working_set_tokens :: int
  result_bytes :: int
  read_result_bytes :: int
  bash_result_chars :: int
  max_output_tokens :: int
  turn_idle_seconds :: int
  turn_ceiling_seconds :: int

definition result_cap :: "budget_profile \<Rightarrow> string \<Rightarrow> int" where
  "result_cap p tool =
     min (if tool = ''read'' then read_result_bytes p else result_bytes p) (working_set_tokens p * 4 div 10)"

definition STANDARD_CODING_PROFILE :: budget_profile where
  "STANDARD_CODING_PROFILE = \<lparr>prof_name = ''coding'', prof_max_iterations = 600,
     prof_max_tool_calls = 900, prof_max_wall_seconds = 1800, prof_max_cost = 2,
     working_set_tokens = 150000, result_bytes = 24000, read_result_bytes = 32000,
     bash_result_chars = 8000, max_output_tokens = 16000, turn_idle_seconds = 120,
     turn_ceiling_seconds = 600\<rparr>"

definition EXTENDED_CODING_PROFILE :: budget_profile where
  "EXTENDED_CODING_PROFILE = \<lparr>prof_name = ''extended-coding'', prof_max_iterations = 1200,
     prof_max_tool_calls = 1800, prof_max_wall_seconds = 3600, prof_max_cost = 4,
     working_set_tokens = 240000, result_bytes = 32000, read_result_bytes = 48000,
     bash_result_chars = 12000, max_output_tokens = 16000, turn_idle_seconds = 120,
     turn_ceiling_seconds = 600\<rparr>"

definition LARGE_CODING_PROFILE :: budget_profile where
  "LARGE_CODING_PROFILE = \<lparr>prof_name = ''large-coding'', prof_max_iterations = 1800,
     prof_max_tool_calls = 2700, prof_max_wall_seconds = 5400, prof_max_cost = 8,
     working_set_tokens = 400000, result_bytes = 48000, read_result_bytes = 64000,
     bash_result_chars = 16000, max_output_tokens = 16000, turn_idle_seconds = 120,
     turn_ceiling_seconds = 600\<rparr>"

definition BUDGET_PROFILES :: "(string \<times> budget_profile) list" where
  "BUDGET_PROFILES = map (\<lambda>p. (prof_name p, p))
     [STANDARD_CODING_PROFILE, EXTENDED_CODING_PROFILE, LARGE_CODING_PROFILE]"

definition resolve_budget_profile :: "string \<Rightarrow> exn + budget_profile" where
  "resolve_budget_profile name =
     (case map_of BUDGET_PROFILES name of None \<Rightarrow> Inl ValueErr | Some p \<Rightarrow> Inr p)"

definition requires_budget_approval :: "budget_profile \<Rightarrow> bool" where
  "requires_budget_approval p \<longleftrightarrow>
     prof_max_tool_calls p > prof_max_tool_calls STANDARD_CODING_PROFILE * 2
     \<or> prof_max_wall_seconds p > prof_max_wall_seconds STANDARD_CODING_PROFILE * 2
     \<or> prof_max_cost p > prof_max_cost STANDARD_CODING_PROFILE * 2"

section \<open>The budget of a run\<close>

definition WIND_DOWN_WARNING_SHARE :: real where "WIND_DOWN_WARNING_SHARE = 0.85"
definition WIND_DOWN_SHARE :: real where "WIND_DOWN_SHARE = 0.05"
definition WIND_DOWN_MAX_RESERVE_SECONDS :: real where "WIND_DOWN_MAX_RESERVE_SECONDS = 60"
definition WIND_DOWN_RESERVE_ITERATIONS :: int where "WIND_DOWN_RESERVE_ITERATIONS = 1"

datatype budget_kind = Iteration | ToolCall | WallTime | Cost

datatype budget_exn = Exceeded budget_kind (used: real) (allowed: real) | Raised exn

record run_budget =
  max_iterations :: int
  max_wall_seconds :: int
  max_cost :: real
  max_tool_calls :: int
  profile_name :: string
  started :: real
  iterations :: int
  tool_calls :: int
  cost :: real
  prompt_tokens :: int
  completion_tokens :: int
  cached_tokens :: int
  cache_write_tokens :: int
  reasoning_tokens :: int
  total_tokens :: int
  turns :: int

definition new_budget :: "int \<Rightarrow> int \<Rightarrow> real \<Rightarrow> int \<Rightarrow> string \<Rightarrow> real \<Rightarrow> run_budget" where
  "new_budget mi mw mc mt name now = \<lparr>max_iterations = mi, max_wall_seconds = mw, max_cost = mc,
     max_tool_calls = mt, profile_name = name, started = now, iterations = 0, tool_calls = 0, cost = 0,
     prompt_tokens = 0, completion_tokens = 0, cached_tokens = 0, cache_write_tokens = 0,
     reasoning_tokens = 0, total_tokens = 0, turns = 0\<rparr>"

definition from_profile :: "string \<Rightarrow> real \<Rightarrow> exn + run_budget" where
  "from_profile name now = rbind (resolve_budget_profile name) (\<lambda>p.
     Inr (new_budget (prof_max_iterations p) (prof_max_wall_seconds p) (prof_max_cost p)
       (prof_max_tool_calls p) (prof_name p) now))"

definition elapsed_seconds :: "run_budget \<Rightarrow> real \<Rightarrow> real" where
  "elapsed_seconds b now = max 0 (now - started b)"

definition remaining_iterations :: "run_budget \<Rightarrow> int" where
  "remaining_iterations b = max 0 (max_iterations b - iterations b)"

definition remaining_tool_calls :: "run_budget \<Rightarrow> int" where
  "remaining_tool_calls b = max 0 (max_tool_calls b - tool_calls b)"

definition remaining_wall_seconds :: "run_budget \<Rightarrow> real \<Rightarrow> real" where
  "remaining_wall_seconds b now = max 0 (real_of_int (max_wall_seconds b) - elapsed_seconds b now)"

definition remaining_cost :: "run_budget \<Rightarrow> real" where
  "remaining_cost b = max 0 (max_cost b - cost b)"

definition reserve_seconds :: "run_budget \<Rightarrow> real" where
  "reserve_seconds b = min WIND_DOWN_MAX_RESERVE_SECONDS (real_of_int (max_wall_seconds b) * WIND_DOWN_SHARE)"

definition reserve_cost :: "run_budget \<Rightarrow> real" where
  "reserve_cost b = max_cost b * WIND_DOWN_SHARE"

definition check :: "run_budget \<Rightarrow> real \<Rightarrow> budget_exn + unit" where
  "check b now =
     (if iterations b > max_iterations b
      then Inl (Exceeded Iteration (of_int (iterations b)) (of_int (max_iterations b)))
      else if tool_calls b > max_tool_calls b
      then Inl (Exceeded ToolCall (of_int (tool_calls b)) (of_int (max_tool_calls b)))
      else if elapsed_seconds b now > of_int (max_wall_seconds b)
      then Inl (Exceeded WallTime (elapsed_seconds b now) (of_int (max_wall_seconds b)))
      else if cost b > max_cost b then Inl (Exceeded Cost (cost b) (max_cost b))
      else Inr ())"

definition consume_iteration :: "run_budget \<Rightarrow> real \<Rightarrow> (budget_exn + unit) \<times> run_budget" where
  "consume_iteration b now =
     (let b' = b\<lparr>iterations := iterations b + 1\<rparr> in (check b' now, b'))"

definition consume_tool_call :: "run_budget \<Rightarrow> real \<Rightarrow> (budget_exn + unit) \<times> run_budget" where
  "consume_tool_call b now =
     (let b' = b\<lparr>tool_calls := tool_calls b + 1\<rparr> in (check b' now, b'))"

text \<open>\<open>optional_int\<close> and \<open>optional_float\<close> of \<open>shared/coercion.py\<close>; the parsers of numeric text are
  the arguments \<open>pint\<close> and \<open>pfloat\<close>.\<close>

definition truncate_real :: "real \<Rightarrow> int" where
  "truncate_real x = (if 0 \<le> x then \<lfloor>x\<rfloor> else \<lceil>x\<rceil>)"

fun optional_int :: "(string \<Rightarrow> int option) \<Rightarrow> pyval \<Rightarrow> int option" where
  "optional_int pint (PInt n) = Some n"
| "optional_int pint (PBool b) = Some (if b then 1 else 0)"
| "optional_int pint (PFloat x) = Some (truncate_real x)"
| "optional_int pint (PStr s) = pint s"
| "optional_int pint _ = None"

fun optional_float :: "(string \<Rightarrow> real option) \<Rightarrow> pyval \<Rightarrow> real option" where
  "optional_float pfloat (PInt n) = Some (of_int n)"
| "optional_float pfloat (PBool b) = Some (if b then 1 else 0)"
| "optional_float pfloat (PFloat x) = Some x"
| "optional_float pfloat (PStr s) = pfloat s"
| "optional_float pfloat _ = None"

definition or_zero :: "'a::zero option \<Rightarrow> 'a" where
  "or_zero v = (case v of None \<Rightarrow> 0 | Some n \<Rightarrow> n)"

definition usage_cost :: "(string \<Rightarrow> real option) \<Rightarrow> pydict \<Rightarrow> real" where
  "usage_cost pfloat u = max 0 (or_zero (optional_float pfloat (dget u ''cost'')))"

definition record_usage ::
  "(string \<Rightarrow> int option) \<Rightarrow> (string \<Rightarrow> real option) \<Rightarrow> pydict \<Rightarrow> run_budget \<Rightarrow> run_budget" where
  "record_usage pint pfloat u b =
     (let count = (\<lambda>v. max 0 (or_zero (optional_int pint v)));
          prompt = count (dget_or u ''prompt_tokens'' (dget u ''input_tokens''));
          completion = count (dget_or u ''completion_tokens'' (dget u ''output_tokens''));
          total = max 0 (case optional_int pint (dget u ''total_tokens'') of
                           None \<Rightarrow> prompt + completion | Some t \<Rightarrow> t)
      in b\<lparr>prompt_tokens := prompt_tokens b + prompt,
           completion_tokens := completion_tokens b + completion,
           cached_tokens := cached_tokens b + count (dget u ''cached_tokens''),
           cache_write_tokens := cache_write_tokens b + count (dget u ''cache_write_tokens''),
           turns := turns b + 1,
           reasoning_tokens := reasoning_tokens b + count (dget u ''reasoning_tokens''),
           total_tokens := total_tokens b + total,
           cost := cost b + usage_cost pfloat u\<rparr>)"

definition add_usage ::
  "(string \<Rightarrow> int option) \<Rightarrow> (string \<Rightarrow> real option) \<Rightarrow> pydict \<Rightarrow> bool \<Rightarrow> run_budget \<Rightarrow> real \<Rightarrow>
   (budget_exn + unit) \<times> run_budget" where
  "add_usage pint pfloat u chk b now =
     (let b' = record_usage pint pfloat u b in (if chk then check b' now else Inr (), b'))"

definition charge :: "(string \<Rightarrow> real option) \<Rightarrow> pydict \<Rightarrow> run_budget \<Rightarrow> run_budget" where
  "charge pfloat u b = b\<lparr>cost := cost b + usage_cost pfloat u\<rparr>"

definition usage_ratios :: "int \<Rightarrow> int \<Rightarrow> int \<Rightarrow> real \<times> real" where
  "usage_ratios p c t =
     (let prompt = max 0 p; cached = min prompt (max 0 c)
      in (if prompt \<noteq> 0 then of_int cached / of_int prompt else 0,
          if t \<noteq> 0 then of_int (prompt - cached) / of_int t else 0))"

text \<open>\<open>usage_fraction\<close>: the first of the largest shares.\<close>

definition share :: "real \<Rightarrow> real \<Rightarrow> real" where
  "share n bound = (if bound \<noteq> 0 then n / bound else 1)"

definition budget_shares :: "run_budget \<Rightarrow> real \<Rightarrow> (budget_kind \<times> real) list" where
  "budget_shares b now =
     [(Iteration, share (of_int (iterations b)) (of_int (max_iterations b))),
      (ToolCall, share (of_int (tool_calls b)) (of_int (max_tool_calls b))),
      (WallTime, share (elapsed_seconds b now) (of_int (max_wall_seconds b))),
      (Cost, share (cost b) (max_cost b))]"

fun max_share :: "(budget_kind \<times> real) \<Rightarrow> (budget_kind \<times> real) list \<Rightarrow> budget_kind \<times> real" where
  "max_share best [] = best"
| "max_share best (x # xs) = max_share (if snd best < snd x then x else best) xs"

definition usage_fraction :: "run_budget \<Rightarrow> real \<Rightarrow> budget_kind \<times> real" where
  "usage_fraction b now = max_share (hd (budget_shares b now)) (tl (budget_shares b now))"

definition wind_down_reason :: "bool \<Rightarrow> run_budget \<Rightarrow> real \<Rightarrow> budget_kind option" where
  "wind_down_reason between_turns b now =
     (if between_turns \<and> remaining_iterations b \<le> WIND_DOWN_RESERVE_ITERATIONS then Some Iteration
      else if remaining_tool_calls b \<le> 0 then Some ToolCall
      else if remaining_wall_seconds b now \<le> reserve_seconds b then Some WallTime
      else if remaining_cost b \<le> reserve_cost b then Some Cost
      else None)"

section \<open>Snapshot and restore\<close>

definition usage :: "run_budget \<Rightarrow> pydict" where
  "usage b =
     (let ratios = usage_ratios (prompt_tokens b) (cached_tokens b) (turns b)
      in [(''prompt_tokens'', PInt (prompt_tokens b)),
          (''completion_tokens'', PInt (completion_tokens b)),
          (''cached_tokens'', PInt (cached_tokens b)),
          (''cache_write_tokens'', PInt (cache_write_tokens b)),
          (''reasoning_tokens'', PInt (reasoning_tokens b)),
          (''total_tokens'', PInt (total_tokens b)),
          (''cost'', PFloat (cost b)),
          (''turns'', PInt (turns b)),
          (''cache_hit_rate'', PFloat (fst ratios)),
          (''average_new_tokens_per_turn'', PFloat (snd ratios))])"

definition snapshot :: "run_budget \<Rightarrow> real \<Rightarrow> pydict" where
  "snapshot b now =
     [(''profile'', PStr (profile_name b)),
      (''iterations'', PInt (iterations b)),
      (''tool_calls'', PInt (tool_calls b)),
      (''elapsed_seconds'', PFloat (elapsed_seconds b now)),
      (''remaining_iterations'', PInt (remaining_iterations b)),
      (''remaining_tool_calls'', PInt (remaining_tool_calls b)),
      (''remaining_wall_seconds'', PFloat (remaining_wall_seconds b now)),
      (''remaining_cost'', PFloat (remaining_cost b)),
      (''limits'', PDict [(''max_iterations'', PInt (max_iterations b)),
         (''max_tool_calls'', PInt (max_tool_calls b)),
         (''max_wall_seconds'', PInt (max_wall_seconds b)),
         (''max_cost'', PFloat (max_cost b))])] @ usage b"

text \<open>\<open>int(v or 0)\<close> and \<open>float(v or 0)\<close>, which may raise.\<close>

definition int_or_zero :: "(string \<Rightarrow> int option) \<Rightarrow> pyval \<Rightarrow> budget_exn + int" where
  "int_or_zero pint v =
     (if \<not> truthy v then Inr 0
      else case v of
        PList _ \<Rightarrow> Inl (Raised TypeErr) | PDict _ \<Rightarrow> Inl (Raised TypeErr) | POther _ \<Rightarrow> Inl (Raised TypeErr)
      | _ \<Rightarrow> (case optional_int pint v of None \<Rightarrow> Inl (Raised ValueErr) | Some n \<Rightarrow> Inr n))"

definition float_or_zero :: "(string \<Rightarrow> real option) \<Rightarrow> pyval \<Rightarrow> budget_exn + real" where
  "float_or_zero pfloat v =
     (if \<not> truthy v then Inr 0
      else case v of
        PList _ \<Rightarrow> Inl (Raised TypeErr) | PDict _ \<Rightarrow> Inl (Raised TypeErr) | POther _ \<Rightarrow> Inl (Raised TypeErr)
      | _ \<Rightarrow> (case optional_float pfloat v of None \<Rightarrow> Inl (Raised ValueErr) | Some n \<Rightarrow> Inr n))"

text \<open>Assignments run one after the other; the first that raises leaves the earlier ones done.\<close>

fun assignments :: "('s \<Rightarrow> 'e + 's) list \<Rightarrow> 's \<Rightarrow> ('e + unit) \<times> 's" where
  "assignments [] s = (Inr (), s)"
| "assignments (f # fs) s = (case f s of Inl e \<Rightarrow> (Inl e, s) | Inr s' \<Rightarrow> assignments fs s')"

definition restore ::
  "(string \<Rightarrow> int option) \<Rightarrow> (string \<Rightarrow> real option) \<Rightarrow> pydict \<Rightarrow> run_budget \<Rightarrow> real \<Rightarrow>
   (budget_exn + unit) \<times> run_budget" where
  "restore pint pfloat state b now =
     (let geti = (\<lambda>k f. rbind (int_or_zero pint (dget state k)) (\<lambda>n. Inr (f (max 0 n))))
      in assignments
          [\<lambda>b. geti ''iterations'' (\<lambda>n. b\<lparr>iterations := n\<rparr>),
           \<lambda>b. geti ''tool_calls'' (\<lambda>n. b\<lparr>tool_calls := n\<rparr>),
           \<lambda>b. rbind (float_or_zero pfloat (dget state ''cost'')) (\<lambda>x. Inr (b\<lparr>cost := max 0 x\<rparr>)),
           \<lambda>b. geti ''prompt_tokens'' (\<lambda>n. b\<lparr>prompt_tokens := n\<rparr>),
           \<lambda>b. geti ''completion_tokens'' (\<lambda>n. b\<lparr>completion_tokens := n\<rparr>),
           \<lambda>b. geti ''cached_tokens'' (\<lambda>n. b\<lparr>cached_tokens := n\<rparr>),
           \<lambda>b. geti ''cache_write_tokens'' (\<lambda>n. b\<lparr>cache_write_tokens := n\<rparr>),
           \<lambda>b. geti ''turns'' (\<lambda>n. b\<lparr>turns := n\<rparr>),
           \<lambda>b. geti ''reasoning_tokens'' (\<lambda>n. b\<lparr>reasoning_tokens := n\<rparr>),
           \<lambda>b. geti ''total_tokens'' (\<lambda>n. b\<lparr>total_tokens := n\<rparr>),
           \<lambda>b. rbind (float_or_zero pfloat (dget state ''elapsed_seconds''))
                 (\<lambda>x. Inr (b\<lparr>started := now - max 0 x\<rparr>)),
           \<lambda>b. rbind (check b now) (\<lambda>_. Inr b)]
          b)"

section \<open>The agent loop's use of the budget\<close>

text \<open>\<open>_clamp_bash_timeout\<close>: the timeout of a command, or an error.\<close>

definition clamp_bash_timeout :: "pyval \<Rightarrow> run_budget \<Rightarrow> real \<Rightarrow> budget_exn + pyval" where
  "clamp_bash_timeout requested b now =
     (let remaining = remaining_wall_seconds b now
      in if remaining < 1 then rbind (check b now) (\<lambda>_. Inl (Raised OtherErr))
         else Inr (case requested of
             PInt n \<Rightarrow> PInt (min n (max 1 \<lfloor>remaining\<rfloor>))
           | v \<Rightarrow> v))"

text \<open>One call per member of a group of tool calls.\<close>

fun consume_group :: "nat \<Rightarrow> run_budget \<Rightarrow> real \<Rightarrow> (budget_exn + unit) \<times> run_budget" where
  "consume_group 0 b now = (Inr (), b)"
| "consume_group (Suc n) b now =
     (case consume_tool_call b now of
        (Inl e, b') \<Rightarrow> (Inl e, b')
      | (Inr _, b') \<Rightarrow> consume_group n b' now)"

text \<open>What a tool or a compaction turn does to the budget: record a provider call or charge one.\<close>

datatype spending = Turn_Usage pydict | Charge pydict

fun spend :: "(string \<Rightarrow> int option) \<Rightarrow> (string \<Rightarrow> real option) \<Rightarrow> spending list \<Rightarrow> run_budget \<Rightarrow> run_budget" where
  "spend pint pfloat [] b = b"
| "spend pint pfloat (Turn_Usage u # xs) b = spend pint pfloat xs (record_usage pint pfloat u b)"
| "spend pint pfloat (Charge u # xs) b = spend pint pfloat xs (charge pfloat u b)"

text \<open>
  The phases of \<open>_loop\<close>: between turns, inside a turn with the groups of tool calls still to run,
  the wind-down (with the budget that caused it, or none for a run without progress), the pause
  after a broken hard limit, and the other ends of the run.
\<close>

datatype phase =
    Between_Turns | In_Turn "nat list" | Winding_Down "budget_kind option" | Hard_Stop budget_kind | Ended

type_synonym loop_state = "real \<times> phase \<times> run_budget"

inductive loop_step ::
  "(string \<Rightarrow> int option) \<Rightarrow> (string \<Rightarrow> real option) \<Rightarrow> loop_state \<Rightarrow> loop_state \<Rightarrow> bool"
  for pint pfloat where
  pause: "loop_step pint pfloat (now, Between_Turns, b) (now, Ended, b)"
| compact: "\<lbrakk>now \<le> now'; b' = spend pint pfloat xs b; check b' now' = Inr ()\<rbrakk>
    \<Longrightarrow> loop_step pint pfloat (now, Between_Turns, b) (now', Between_Turns, b')"
| compact_exceeded: "\<lbrakk>now \<le> now'; b' = spend pint pfloat xs b; check b' now' = Inl (Exceeded k u l)\<rbrakk>
    \<Longrightarrow> loop_step pint pfloat (now, Between_Turns, b) (now', Hard_Stop k, b')"
| wind_down: "wind_down_reason True b now = Some k
    \<Longrightarrow> loop_step pint pfloat (now, Between_Turns, b) (now, Winding_Down (Some k), b)"
| iteration_exceeded: "\<lbrakk>wind_down_reason True b now = None; now \<le> now1;
     consume_iteration b now1 = (Inl (Exceeded k u l), b1)\<rbrakk>
    \<Longrightarrow> loop_step pint pfloat (now, Between_Turns, b) (now1, Hard_Stop k, b1)"
| provider_error: "\<lbrakk>wind_down_reason True b now = None; now \<le> now1;
     consume_iteration b now1 = (Inr (), b1); now1 \<le> now2\<rbrakk>
    \<Longrightarrow> loop_step pint pfloat (now, Between_Turns, b) (now2, Ended, b1)"
| turn_exceeded: "\<lbrakk>wind_down_reason True b now = None; now \<le> now1;
     consume_iteration b now1 = (Inr (), b1); now1 \<le> now2; b2 = record_usage pint pfloat u b1;
     check b2 now2 = Inl (Exceeded k us l)\<rbrakk>
    \<Longrightarrow> loop_step pint pfloat (now, Between_Turns, b) (now2, Hard_Stop k, b2)"
| turn: "\<lbrakk>wind_down_reason True b now = None; now \<le> now1;
     consume_iteration b now1 = (Inr (), b1); now1 \<le> now2; b2 = record_usage pint pfloat u b1;
     check b2 now2 = Inr (); p \<in> {Between_Turns, Ended} \<or> (\<exists>groups. p = In_Turn groups)\<rbrakk>
    \<Longrightarrow> loop_step pint pfloat (now, Between_Turns, b) (now2, p, b2)"
| group_wind_down: "wind_down_reason False b now = Some k
    \<Longrightarrow> loop_step pint pfloat (now, In_Turn (g # gs), b) (now, Winding_Down (Some k), b)"
| group_too_large: "\<lbrakk>wind_down_reason False b now = None; remaining_tool_calls b < int g\<rbrakk>
    \<Longrightarrow> loop_step pint pfloat (now, In_Turn (g # gs), b) (now, Winding_Down (Some ToolCall), b)"
| group_exceeded: "\<lbrakk>wind_down_reason False b now = None; int g \<le> remaining_tool_calls b; now \<le> now1;
     consume_group g b now1 = (Inl (Exceeded k u l), b1)\<rbrakk>
    \<Longrightarrow> loop_step pint pfloat (now, In_Turn (g # gs), b) (now1, Hard_Stop k, b1)"
| group_run: "\<lbrakk>wind_down_reason False b now = None; int g \<le> remaining_tool_calls b; now \<le> now1;
     consume_group g b now1 = (Inr (), b1); now1 \<le> now2; b2 = spend pint pfloat xs b1\<rbrakk>
    \<Longrightarrow> loop_step pint pfloat (now, In_Turn (g # gs), b) (now2, In_Turn gs, b2)"
| tool_exceeded: "\<lbrakk>wind_down_reason False b now = None; int g \<le> remaining_tool_calls b; now \<le> now1;
     consume_group g b now1 = (Inr (), b1); now1 \<le> now2; b2 = spend pint pfloat xs b1;
     check b2 now2 = Inl (Exceeded k u l)\<rbrakk>
    \<Longrightarrow> loop_step pint pfloat (now, In_Turn (g # gs), b) (now2, Hard_Stop k, b2)"
| turn_done: "loop_step pint pfloat (now, In_Turn [], b) (now, Between_Turns, b)"
| no_progress: "loop_step pint pfloat (now, In_Turn [], b) (now, Winding_Down None, b)"
| summary: "\<lbrakk>now \<le> now'; b' = spend pint pfloat xs b\<rbrakk>
    \<Longrightarrow> loop_step pint pfloat (now, Winding_Down r, b) (now', Ended, b')"
| paused_hard: "loop_step pint pfloat (now, Hard_Stop k, b) (now, Ended, b)"

inductive_cases loop_step_Hard_StopE: "loop_step pint pfloat s (now, Hard_Stop k, b)"

inductive reachable_from ::
  "(string \<Rightarrow> int option) \<Rightarrow> (string \<Rightarrow> real option) \<Rightarrow> loop_state \<Rightarrow> loop_state \<Rightarrow> bool"
  for pint pfloat s0 where
  start: "reachable_from pint pfloat s0 s0"
| step: "reachable_from pint pfloat s0 s \<Longrightarrow> loop_step pint pfloat s s' \<Longrightarrow> reachable_from pint pfloat s0 s'"

section \<open>Lemmas\<close>

lemma check_Inr:
  "check b now = Inr u \<longleftrightarrow> iterations b \<le> max_iterations b \<and> tool_calls b \<le> max_tool_calls b
     \<and> elapsed_seconds b now \<le> of_int (max_wall_seconds b) \<and> cost b \<le> max_cost b"
  by (auto simp: check_def)

lemma check_kind:
  "check b now = Inl (Exceeded k u l) \<Longrightarrow> iterations b \<le> max_iterations b \<Longrightarrow>
     tool_calls b \<le> max_tool_calls b \<Longrightarrow> k = WallTime \<or> k = Cost"
  by (auto simp: check_def split: if_splits)

text \<open>What no operation other than its own consumption changes.\<close>

definition same_counters :: "run_budget \<Rightarrow> run_budget \<Rightarrow> bool" where
  "same_counters b b' \<longleftrightarrow> iterations b' = iterations b \<and> tool_calls b' = tool_calls b
     \<and> max_iterations b' = max_iterations b \<and> max_tool_calls b' = max_tool_calls b"

lemma record_usage_counters: "same_counters b (record_usage pint pfloat u b)"
  by (simp add: same_counters_def record_usage_def Let_def)

lemma charge_counters: "same_counters b (charge pfloat u b)"
  by (simp add: same_counters_def charge_def)

lemma spend_counters: "same_counters b (spend pint pfloat xs b)"
proof (induction xs arbitrary: b)
  case (Cons x xs)
  then show ?case
    using record_usage_counters charge_counters
    by (cases x) (simp_all add: same_counters_def)
qed (simp add: same_counters_def)

lemmas counters = record_usage_counters charge_counters spend_counters

definition within_counts :: "run_budget \<Rightarrow> bool" where
  "within_counts b \<longleftrightarrow> iterations b \<le> max_iterations b \<and> tool_calls b \<le> max_tool_calls b"

lemma within_counts_same: "same_counters b b' \<Longrightarrow> within_counts b' = within_counts b"
  by (simp add: same_counters_def within_counts_def)

lemma consume_group_counts:
  assumes "consume_group n b now = (r, b')" and "int n \<le> remaining_tool_calls b" and "within_counts b"
  shows "within_counts b' \<and> max_iterations b' = max_iterations b \<and> max_tool_calls b' = max_tool_calls b
    \<and> (\<forall>k u l. r = Inl (Exceeded k u l) \<longrightarrow> k = WallTime \<or> k = Cost)"
  using assms
proof (induction n arbitrary: b)
  case (Suc n)
  define b1 where "b1 = b\<lparr>tool_calls := tool_calls b + 1\<rparr>"
  have w: "within_counts b1" and m: "int n \<le> remaining_tool_calls b1"
    and eq: "max_iterations b1 = max_iterations b" "max_tool_calls b1 = max_tool_calls b"
    using Suc.prems(2,3) by (auto simp: within_counts_def remaining_tool_calls_def b1_def)
  show ?case
  proof (cases "check b1 now")
    case (Inl e)
    then have "r = Inl e" "b' = b1"
      using Suc.prems(1) by (auto simp: consume_tool_call_def Let_def b1_def)
    with Inl w eq show ?thesis using check_kind[of b1 now] by (auto simp: within_counts_def)
  next
    case (Inr u)
    then have "consume_group n b1 now = (r, b')"
      using Suc.prems(1) by (auto simp: consume_tool_call_def Let_def b1_def)
    from Suc.IH[OF this m w] eq show ?thesis by simp
  qed
qed auto

lemma consume_iteration_counts:
  assumes "consume_iteration b now1 = (r, b1)" and "wind_down_reason True b now = None" and "within_counts b"
  shows "within_counts b1 \<and> max_iterations b1 = max_iterations b \<and> max_tool_calls b1 = max_tool_calls b
    \<and> (\<forall>k u l. r = Inl (Exceeded k u l) \<longrightarrow> k = WallTime \<or> k = Cost)"
proof -
  have b1: "b1 = b\<lparr>iterations := iterations b + 1\<rparr>" "r = check b1 now1"
    using assms(1) by (auto simp: consume_iteration_def Let_def)
  have "within_counts b1"
    using assms(2,3) by (auto simp: within_counts_def b1(1) wind_down_reason_def
        WIND_DOWN_RESERVE_ITERATIONS_def remaining_iterations_def split: if_splits)
  with b1 check_kind[of b1 now1] show ?thesis by (auto simp: within_counts_def)
qed

definition loop_invariant :: "run_budget \<Rightarrow> loop_state \<Rightarrow> bool" where
  "loop_invariant b0 s \<longleftrightarrow> (case s of (now, p, b) \<Rightarrow>
     within_counts b \<and> max_iterations b = max_iterations b0 \<and> max_tool_calls b = max_tool_calls b0
     \<and> (\<forall>k. p = Hard_Stop k \<longrightarrow> k = WallTime \<or> k = Cost))"

lemma loop_invariant_spent:
  assumes "within_counts b" and "max_iterations b = mi" and "max_tool_calls b = mt" and "same_counters b b'"
  shows "within_counts b' \<and> max_iterations b' = mi \<and> max_tool_calls b' = mt
    \<and> (\<forall>k u l now. check b' now = Inl (Exceeded k u l) \<longrightarrow> k = WallTime \<or> k = Cost)"
  using assms within_counts_same[OF assms(4)] check_kind[of b']
  by (auto simp: same_counters_def within_counts_def)

lemma loop_step_invariant:
  assumes "loop_step pint pfloat s s'" and "loop_invariant b0 s"
  shows "loop_invariant b0 s'"
  using assms
proof cases
  case (compact now now' b' xs b)
  with assms(2) loop_invariant_spent[of b _ _ b', OF _ refl refl] spend_counters[of b pint pfloat xs]
  show ?thesis by (auto simp: loop_invariant_def)
next
  case (compact_exceeded now now' b' xs b k u l)
  with assms(2) loop_invariant_spent[of b _ _ b', OF _ refl refl] spend_counters[of b pint pfloat xs]
  show ?thesis by (auto simp: loop_invariant_def)
next
  case (iteration_exceeded b now now1 k u l b1)
  with assms(2) consume_iteration_counts[OF iteration_exceeded(5) iteration_exceeded(3)] show ?thesis
    by (auto simp: loop_invariant_def)
next
  case (provider_error b now now1 b1 now2)
  with assms(2) consume_iteration_counts[OF provider_error(5) provider_error(3)] show ?thesis
    by (auto simp: loop_invariant_def)
next
  case (turn_exceeded b now now1 b1 now2 b2 u k us l)
  with assms(2) have "within_counts b1 \<and> max_iterations b1 = max_iterations b \<and> max_tool_calls b1 = max_tool_calls b"
    using consume_iteration_counts[OF turn_exceeded(5) turn_exceeded(3)] by (auto simp: loop_invariant_def)
  with loop_invariant_spent[of b1 _ _ b2, OF _ refl refl] record_usage_counters[of b1 pint pfloat u]
    turn_exceeded assms(2)
  show ?thesis by (auto simp: loop_invariant_def)
next
  case (turn b now now1 b1 now2 b2 u p)
  with assms(2) have "within_counts b1 \<and> max_iterations b1 = max_iterations b \<and> max_tool_calls b1 = max_tool_calls b"
    using consume_iteration_counts[OF turn(5) turn(3)] by (auto simp: loop_invariant_def)
  with loop_invariant_spent[of b1 _ _ b2, OF _ refl refl] record_usage_counters[of b1 pint pfloat u]
    turn assms(2)
  show ?thesis by (auto simp: loop_invariant_def)
next
  case (group_exceeded b now g now1 k u l b1 gs)
  with assms(2) consume_group_counts[OF group_exceeded(6) group_exceeded(4)] show ?thesis
    by (auto simp: loop_invariant_def)
next
  case (group_run b now g now1 b1 now2 b2 xs gs)
  with assms(2) have "within_counts b1 \<and> max_iterations b1 = max_iterations b \<and> max_tool_calls b1 = max_tool_calls b"
    using consume_group_counts[OF group_run(6) group_run(4)] by (auto simp: loop_invariant_def)
  with loop_invariant_spent[of b1 _ _ b2, OF _ refl refl] spend_counters[of b1 pint pfloat xs]
    group_run assms(2)
  show ?thesis by (auto simp: loop_invariant_def)
next
  case (tool_exceeded b now g now1 b1 now2 b2 xs k u l gs)
  with assms(2) have "within_counts b1 \<and> max_iterations b1 = max_iterations b \<and> max_tool_calls b1 = max_tool_calls b"
    using consume_group_counts[OF tool_exceeded(6) tool_exceeded(4)] by (auto simp: loop_invariant_def)
  with loop_invariant_spent[of b1 _ _ b2, OF _ refl refl] spend_counters[of b1 pint pfloat xs]
    tool_exceeded assms(2)
  show ?thesis by (auto simp: loop_invariant_def)
next
  case (summary now now' b' xs b r)
  with assms(2) loop_invariant_spent[of b _ _ b', OF _ refl refl] spend_counters[of b pint pfloat xs]
  show ?thesis by (auto simp: loop_invariant_def)
qed (auto simp: loop_invariant_def)

lemma reachable_invariant:
  "reachable_from pint pfloat s0 s \<Longrightarrow> loop_invariant b0 s0 \<Longrightarrow> loop_invariant b0 s"
  by (induction rule: reachable_from.induct) (auto intro: loop_step_invariant)

section \<open>Properties\<close>

text \<open>Claim C38. In every state the agent loop can reach, the run is within its iteration and tool-call
  limits, and a hard limit can only have been broken by wall time or cost, the two a provider call
  spends before they are known: iterations and tool calls always end in a wind-down instead.\<close>

theorem loop_stays_within_counts:
  assumes "reachable_from pint pfloat (now0, Between_Turns, b0) (now, p, b)"
    and "check b0 now0 = Inr ()"
  shows "iterations b \<le> max_iterations b0 \<and> tool_calls b \<le> max_tool_calls b0
     \<and> p \<noteq> Hard_Stop Iteration \<and> p \<noteq> Hard_Stop ToolCall"
proof -
  have "loop_invariant b0 (now0, Between_Turns, b0)"
    using assms(2) by (simp add: loop_invariant_def within_counts_def check_Inr)
  from reachable_invariant[OF assms(1) this] show ?thesis
    by (auto simp: loop_invariant_def within_counts_def)
qed

definition sample_budget :: run_budget where
  "sample_budget = new_budget 2 100 1 5 ''custom'' 0"

text \<open>A run of one turn with one tool call, which leaves only the wind-down iteration.\<close>

lemma sample_run:
  "reachable_from (\<lambda>_. None) (\<lambda>_. None) (0, Between_Turns, sample_budget)
     (0, Winding_Down (Some Iteration), sample_budget\<lparr>iterations := 1, turns := 1, tool_calls := 1\<rparr>)"
proof -
  let ?R = "reachable_from (\<lambda>_. None) (\<lambda>_. None) (0, Between_Turns, sample_budget)"
  let ?b1 = "sample_budget\<lparr>iterations := 1\<rparr>"
  let ?b2 = "sample_budget\<lparr>iterations := 1, turns := 1\<rparr>"
  let ?b3 = "sample_budget\<lparr>iterations := 1, turns := 1, tool_calls := 1\<rparr>"
  note defs = sample_budget_def new_budget_def wind_down_reason_def remaining_iterations_def
    remaining_tool_calls_def remaining_wall_seconds_def remaining_cost_def reserve_seconds_def
    reserve_cost_def elapsed_seconds_def WIND_DOWN_SHARE_def WIND_DOWN_MAX_RESERVE_SECONDS_def
    WIND_DOWN_RESERVE_ITERATIONS_def
  have 0: "?R (0, Between_Turns, sample_budget)" by (rule reachable_from.start)
  have w: "wind_down_reason True sample_budget 0 = None" by (simp add: defs)
  have c: "consume_iteration sample_budget 0 = (Inr (), ?b1)"
    by (simp add: consume_iteration_def check_def Let_def defs)
  have u: "?b2 = record_usage (\<lambda>_. None) (\<lambda>_. None) [] ?b1"
    by (simp add: record_usage_def dget_def dget_or_def or_zero_def usage_cost_def Let_def defs)
  have k: "check ?b2 0 = Inr ()" by (simp add: check_Inr defs)
  have 1: "?R (0, In_Turn [1], ?b2)"
    by (rule reachable_from.step[OF 0 loop_step.turn[OF w order_refl c order_refl u k]]) simp
  have g: "consume_group 1 ?b2 0 = (Inr (), ?b3)"
    by (simp add: consume_tool_call_def check_def Let_def defs)
  have w2: "wind_down_reason False ?b2 0 = None" "int 1 \<le> remaining_tool_calls ?b2" by (simp_all add: defs)
  have 2: "?R (0, In_Turn [], ?b3)"
    by (rule reachable_from.step[OF 1 loop_step.group_run[OF w2 order_refl g order_refl, where xs = "[]"]]) simp
  have 3: "?R (0, Between_Turns, ?b3)"
    by (rule reachable_from.step[OF 2 loop_step.turn_done])
  have "wind_down_reason True ?b3 0 = Some Iteration" by (simp add: defs)
  then show ?thesis by (rule reachable_from.step[OF 3 loop_step.wind_down])
qed

theorem loop_stays_within_counts_witness:
  "iterations (sample_budget\<lparr>iterations := 1, turns := 1, tool_calls := 1\<rparr>) \<le> max_iterations sample_budget"
proof -
  have "check sample_budget 0 = Inr ()"
    by (simp add: check_Inr sample_budget_def new_budget_def elapsed_seconds_def)
  from loop_stays_within_counts[OF sample_run this] show ?thesis by blast
qed

text \<open>When the loop starts a turn because no budget asks for a wind-down, that turn cannot
  break a limit at that moment, and afterwards one iteration and the reserved time and cost of the
  summary turn are still there.\<close>

theorem started_turn_is_funded:
  assumes "wind_down_reason True b now = None" and "0 \<le> max_wall_seconds b" and "0 \<le> max_cost b"
  shows "\<exists>b'. consume_iteration b now = (Inr (), b') \<and> 1 \<le> remaining_iterations b'
     \<and> 1 \<le> remaining_tool_calls b' \<and> reserve_seconds b' < remaining_wall_seconds b' now
     \<and> reserve_cost b' < remaining_cost b'"
proof -
  define b' where "b' = b\<lparr>iterations := iterations b + 1\<rparr>"
  have r: "2 \<le> remaining_iterations b" "1 \<le> remaining_tool_calls b"
    "reserve_seconds b < remaining_wall_seconds b now" "reserve_cost b < remaining_cost b"
    using assms(1) by (auto simp: wind_down_reason_def WIND_DOWN_RESERVE_ITERATIONS_def split: if_splits)
  have p: "0 \<le> reserve_seconds b" "0 \<le> reserve_cost b"
    using assms(2,3) by (simp_all add: reserve_seconds_def reserve_cost_def WIND_DOWN_SHARE_def
        WIND_DOWN_MAX_RESERVE_SECONDS_def)
  have "check b' now = Inr ()"
    using r p unfolding check_Inr
    by (auto simp: b'_def remaining_iterations_def remaining_tool_calls_def remaining_wall_seconds_def
        remaining_cost_def elapsed_seconds_def)
  then have "consume_iteration b now = (Inr (), b')" by (simp add: consume_iteration_def Let_def b'_def)
  moreover have "1 \<le> remaining_iterations b'" "1 \<le> remaining_tool_calls b'"
    "reserve_seconds b' < remaining_wall_seconds b' now" "reserve_cost b' < remaining_cost b'"
    using r by (auto simp: b'_def remaining_iterations_def remaining_tool_calls_def
        remaining_wall_seconds_def remaining_cost_def reserve_seconds_def reserve_cost_def elapsed_seconds_def)
  ultimately show ?thesis by blast
qed

theorem started_turn_is_funded_witness:
  "\<exists>b'. consume_iteration sample_budget 90 = (Inr (), b') \<and> 1 \<le> remaining_iterations b'"
proof -
  have "wind_down_reason True sample_budget 90 = None"
    by (simp add: wind_down_reason_def sample_budget_def new_budget_def remaining_iterations_def
        remaining_tool_calls_def remaining_wall_seconds_def remaining_cost_def reserve_seconds_def
        reserve_cost_def elapsed_seconds_def WIND_DOWN_SHARE_def WIND_DOWN_MAX_RESERVE_SECONDS_def
        WIND_DOWN_RESERVE_ITERATIONS_def)
  from started_turn_is_funded[OF this] show ?thesis
    by (auto simp: sample_budget_def new_budget_def)
qed

definition counters_nonneg :: "run_budget \<Rightarrow> bool" where
  "counters_nonneg b \<longleftrightarrow> 0 \<le> iterations b \<and> 0 \<le> tool_calls b \<and> 0 \<le> cost b \<and> 0 \<le> prompt_tokens b
     \<and> 0 \<le> completion_tokens b \<and> 0 \<le> cached_tokens b \<and> 0 \<le> cache_write_tokens b
     \<and> 0 \<le> reasoning_tokens b \<and> 0 \<le> total_tokens b \<and> 0 \<le> turns b"

lemma int_or_zero_PInt [simp]: "int_or_zero pint (PInt n) = Inr n"
  by (simp add: int_or_zero_def)

lemma float_or_zero_PFloat [simp]: "float_or_zero pfloat (PFloat x) = Inr x"
  by (simp add: float_or_zero_def)

lemma dget_snapshot:
  "dget (snapshot b t) ''iterations'' = PInt (iterations b)"
  "dget (snapshot b t) ''tool_calls'' = PInt (tool_calls b)"
  "dget (snapshot b t) ''cost'' = PFloat (cost b)"
  "dget (snapshot b t) ''prompt_tokens'' = PInt (prompt_tokens b)"
  "dget (snapshot b t) ''completion_tokens'' = PInt (completion_tokens b)"
  "dget (snapshot b t) ''cached_tokens'' = PInt (cached_tokens b)"
  "dget (snapshot b t) ''cache_write_tokens'' = PInt (cache_write_tokens b)"
  "dget (snapshot b t) ''turns'' = PInt (turns b)"
  "dget (snapshot b t) ''reasoning_tokens'' = PInt (reasoning_tokens b)"
  "dget (snapshot b t) ''total_tokens'' = PInt (total_tokens b)"
  "dget (snapshot b t) ''elapsed_seconds'' = PFloat (elapsed_seconds b t)"
  by (simp_all add: dget_def snapshot_def usage_def Let_def)

lemma elapsed_nonneg: "0 \<le> elapsed_seconds b t"
  by (simp add: elapsed_seconds_def)

text \<open>A paused run resumes with the budget it had: restoring a snapshot into a fresh budget
  with the same limits gives back every counter, the cost and the elapsed time, and raises exactly
  what the limits said when the snapshot was taken.\<close>

theorem restore_snapshot:
  assumes "counters_nonneg b"
  shows "restore pint pfloat (snapshot b t)
      (new_budget (max_iterations b) (max_wall_seconds b) (max_cost b) (max_tool_calls b) (profile_name b) t0) now
    = (check b t, b\<lparr>started := now - elapsed_seconds b t\<rparr>)
    \<and> elapsed_seconds (b\<lparr>started := now - elapsed_seconds b t\<rparr>) now = elapsed_seconds b t"
proof -
  let ?b = "b\<lparr>started := now - elapsed_seconds b t\<rparr>"
  have e: "elapsed_seconds ?b now = elapsed_seconds b t"
    using elapsed_nonneg[of b t] by (simp add: elapsed_seconds_def)
  have c: "check ?b now = check b t"
    by (simp add: check_def e)
  have "restore pint pfloat (snapshot b t)
      (new_budget (max_iterations b) (max_wall_seconds b) (max_cost b) (max_tool_calls b) (profile_name b) t0) now
    = (case check ?b now of Inl x \<Rightarrow> (Inl x, ?b) | Inr u \<Rightarrow> (Inr (), ?b))"
    using assms elapsed_nonneg[of b t]
    by (cases b) (simp add: restore_def dget_snapshot new_budget_def counters_nonneg_def max_def rbind_def
        split: sum.splits)
  then show ?thesis by (simp add: c e split: sum.splits)
qed

theorem restore_snapshot_witness:
  "fst (restore (\<lambda>_. None) (\<lambda>_. None) (snapshot sample_budget 30) sample_budget 1000) = Inr ()"
proof -
  have "counters_nonneg sample_budget" by (simp add: counters_nonneg_def sample_budget_def new_budget_def)
  from restore_snapshot[OF this, of "\<lambda>_. None" "\<lambda>_. None" 30 0 1000] show ?thesis
    by (simp add: sample_budget_def new_budget_def check_Inr elapsed_seconds_def)
qed

text \<open>The reported cache hit rate is a share between 0 and 1, and the average of new prompt
  tokens per turn is never negative, whatever token counts a provider reported.\<close>

theorem usage_ratios_bounds:
  assumes "0 \<le> t"
  shows "0 \<le> fst (usage_ratios p c t) \<and> fst (usage_ratios p c t) \<le> 1 \<and> 0 \<le> snd (usage_ratios p c t)"
  using assms by (auto simp: usage_ratios_def Let_def divide_le_eq_1)

theorem usage_ratios_bounds_witness:
  "fst (usage_ratios 10 50 2) = 1 \<and> fst (usage_ratios 10 50 2) \<le> 1"
  using usage_ratios_bounds[of 2 10 50] by (simp add: usage_ratios_def)

text \<open>One Bash command never outlives the run: when a timeout is set it is positive only
  within the request and the remaining wall time, and with less than a second left no command
  starts.\<close>

theorem clamp_bash_timeout_bounds:
  "(case clamp_bash_timeout (PInt n) b now of
      Inl e \<Rightarrow> remaining_wall_seconds b now < 1
    | Inr v \<Rightarrow> 1 \<le> remaining_wall_seconds b now
        \<and> (\<exists>t. v = PInt t \<and> t \<le> n \<and> of_int t \<le> remaining_wall_seconds b now))"
proof (cases "remaining_wall_seconds b now < 1")
  case True
  then show ?thesis by (auto simp: clamp_bash_timeout_def Let_def rbind_def split: sum.splits)
next
  case False
  then have "1 \<le> \<lfloor>remaining_wall_seconds b now\<rfloor>" by linarith
  then have "max 1 \<lfloor>remaining_wall_seconds b now\<rfloor> = \<lfloor>remaining_wall_seconds b now\<rfloor>" by simp
  with False show ?thesis
    by (auto simp: clamp_bash_timeout_def Let_def) linarith+
qed

end
