(* ===== verification/Plan.thy ===== *)
theory Plan
  imports Prelude
begin

text \<open>
  The session plan behind \<open>update_plan\<close> (\<open>server/agent/plan.py\<close>): parsing a call, applying it to the
  stored steps, and the stored form.  A \<open>PlanError\<close> is a value error; any other exception is kept
  apart, because the gateway answers only a \<open>PlanError\<close> with a hint to the model.  \<open>repr\<close> is
  Python's rendering of values that are neither text nor integers.
\<close>

section \<open>Data\<close>

definition MAX_PLAN_STEPS :: nat where "MAX_PLAN_STEPS = 20"
definition MAX_STEP_ID_CHARS :: nat where "MAX_STEP_ID_CHARS = 40"
definition MAX_STEP_TITLE_CHARS :: nat where "MAX_STEP_TITLE_CHARS = 120"
definition MAX_PLAN_NOTE_CHARS :: nat where "MAX_PLAN_NOTE_CHARS = 200"

definition STEP_STATUSES :: "string list" where
  "STEP_STATUSES = [''pending'', ''in_progress'', ''done'', ''blocked'']"

definition PLAN_ARGUMENTS :: "string list" where "PLAN_ARGUMENTS = [''steps'', ''note'']"
definition STEP_FIELDS :: "string list" where "STEP_FIELDS = [''id'', ''title'', ''status'']"

lemmas plan_limits = MAX_PLAN_STEPS_def MAX_STEP_ID_CHARS_def MAX_STEP_TITLE_CHARS_def MAX_PLAN_NOTE_CHARS_def

record plan_step =
  step_id :: string
  step_title :: string
  step_status :: string

record plan_state =
  steps :: "plan_step list"
  plan_note :: string

definition empty_plan :: plan_state where
  "empty_plan = \<lparr>steps = [], plan_note = []\<rparr>"

section \<open>Text limits\<close>

text \<open>\<open>s[:n]\<close> counts code points: the bytes that continue a sequence stay with its first byte.\<close>

fun py_take :: "nat \<Rightarrow> string \<Rightarrow> string" where
  "py_take n [] = []"
| "py_take n (c # cs) =
     (if 128 \<le> ord c \<and> ord c < 192 then c # py_take n cs
      else case n of 0 \<Rightarrow> [] | Suc m \<Rightarrow> c # py_take m cs)"

lemma py_len_Cons: "py_len (c # cs) = (if 128 \<le> ord c \<and> ord c < 192 then 0 else 1) + py_len cs"
  by (simp add: py_len_def)

lemma py_len_Nil [simp]: "py_len [] = 0"
  by (simp add: py_len_def)

lemma py_take_all: "py_len s \<le> n \<Longrightarrow> py_take n s = s"
  by (induction n s rule: py_take.induct) (auto simp: py_len_Cons split: nat.splits if_splits)

lemma py_len_take: "py_len (py_take n s) \<le> n"
  by (induction n s rule: py_take.induct) (auto simp: py_len_Cons split: nat.splits)

lemma py_len_rev [simp]: "py_len (rev s) = py_len s"
  by (induction s) (simp_all add: py_len_Cons)

lemma is_space_one: "is_space c \<Longrightarrow> py_len (c # cs) = Suc (py_len cs)"
  by (auto simp: py_len_Cons is_space_def)

lemma join_words_Cons: "join '' '' (w # ws) = (if ws = [] then w else w @ '' '' @ join '' '' ws)"
  by (cases ws) simp_all

lemma py_len_space: "py_len '' '' = 1"
  by (simp add: py_len_def ord_def)

lemma words_aux_len: "py_len (join '' '' (words_aux w s)) \<le> py_len w + py_len s"
proof (induction w s rule: words_aux.induct)
  case (1 w)
  then show ?case by simp
next
  case (2 w c cs)
  then show ?case
    by (auto simp: join_words_Cons py_len_Cons is_space_def ord_def split: if_splits)
qed

lemma words_aux_append_spaces:
  "list_all is_space b \<Longrightarrow> words_aux w (s @ b) = words_aux w s"
proof (induction s arbitrary: w)
  case Nil
  then show ?case by (induction b arbitrary: w) auto
next
  case (Cons c s)
  then show ?case by simp
qed

lemma words_aux_drop_spaces: "words_aux [] (dropWhile is_space s) = words_aux [] s"
  by (induction s) auto

lemma py_words_strip: "py_words (strip s) = py_words s"
proof -
  have "lstrip s = strip s @ rev (takeWhile is_space (rev (lstrip s)))"
    unfolding strip_def by (metis rev_append rev_rev_ident takeWhile_dropWhile_id)
  moreover have "list_all is_space (rev (takeWhile is_space (rev (lstrip s))))"
    by (auto simp: list_all_iff dest: set_takeWhileD)
  ultimately have "words_aux [] (lstrip s) = words_aux [] (strip s)"
    using words_aux_append_spaces by metis
  then show ?thesis by (simp add: py_words_def lstrip_def words_aux_drop_spaces)
qed

lemma collapse_spaces_len: "py_len (collapse_spaces s) \<le> py_len (strip s)"
  using words_aux_len[of "[]" "strip s"] py_words_strip[of s]
  by (simp add: collapse_spaces_def py_words_def)

section \<open>Parsing a call\<close>

definition step_id_text :: "pyval \<Rightarrow> exn + string" where
  "step_id_text v = (case v of PStr s \<Rightarrow> Inr (strip s) | PInt n \<Rightarrow> Inr (strip (str_int n)) | _ \<Rightarrow> Inl ValueErr)"

text \<open>\<open>status not in {...}\<close>: looking up an unhashable value in a set raises.\<close>

fun step_status_text :: "pyval \<Rightarrow> exn + string" where
  "step_status_text (PStr s) = (if s = [] \<or> s \<in> set STEP_STATUSES then Inr s else Inl ValueErr)"
| "step_status_text (PList _) = Inl TypeErr"
| "step_status_text (PDict _) = Inl TypeErr"
| "step_status_text _ = Inl ValueErr"

definition parse_step :: "string list \<Rightarrow> pyval \<Rightarrow> exn + (string \<times> string \<times> string)" where
  "parse_step seen item =
     (case item of
        PDict d \<Rightarrow>
          rbind (ensure (set (dkeys d) \<subseteq> set STEP_FIELDS) ValueErr) (\<lambda>_.
          rbind (step_id_text (dget d ''id'')) (\<lambda>i.
          rbind (ensure (i \<noteq> [] \<and> py_len i \<le> MAX_STEP_ID_CHARS) ValueErr) (\<lambda>_.
          rbind (ensure (i \<notin> set seen) ValueErr) (\<lambda>_.
          rbind (case dget_or d ''title'' (PStr []) of
                   PStr t \<Rightarrow> if py_len (strip t) \<le> MAX_STEP_TITLE_CHARS then Inr (collapse_spaces t)
                             else Inl ValueErr
                 | _ \<Rightarrow> Inl ValueErr) (\<lambda>t.
          rbind (step_status_text (dget_or d ''status'' (PStr []))) (\<lambda>s.
            Inr (i, t, s)))))))
      | _ \<Rightarrow> Inl ValueErr)"

definition parse_updates :: "pyval list \<Rightarrow> exn + (string \<times> string \<times> string) list" where
  "parse_updates items =
     fold_res (\<lambda>item us. rbind (parse_step (map fst us) item) (\<lambda>u. Inr (us @ [u]))) items []"

definition parse_note :: "pyval \<Rightarrow> exn + string option" where
  "parse_note v =
     (case v of
        PNone \<Rightarrow> Inr None
      | PStr s \<Rightarrow> if py_len s \<le> MAX_PLAN_NOTE_CHARS then Inr (Some (collapse_spaces s)) else Inl ValueErr
      | _ \<Rightarrow> Inl ValueErr)"

definition parse_plan_call :: "pyval \<Rightarrow> exn + ((string \<times> string \<times> string) list \<times> string option)" where
  "parse_plan_call arguments =
     (case arguments of
        PDict a \<Rightarrow>
          if \<not> set (dkeys a) \<subseteq> set PLAN_ARGUMENTS then Inl ValueErr
          else (case dget a ''steps'' of
             PList items \<Rightarrow>
               if items = [] \<or> length items > MAX_PLAN_STEPS then Inl ValueErr
               else rbind (parse_updates items) (\<lambda>us. rbind (parse_note (dget a ''note'')) (\<lambda>n. Inr (us, n)))
           | _ \<Rightarrow> Inl ValueErr)
      | _ \<Rightarrow> Inl ValueErr)"

section \<open>Applying it\<close>

text \<open>\<open>by_id\<close> maps an id to the last step that has it.\<close>

definition step_index :: "string \<Rightarrow> plan_step list \<Rightarrow> nat option" where
  "step_index i ss =
     (case filter (\<lambda>k. step_id (ss ! k) = i) [0..<length ss] of [] \<Rightarrow> None | ks \<Rightarrow> Some (last ks))"

definition merge_step :: "string \<Rightarrow> string \<Rightarrow> plan_step \<Rightarrow> plan_step" where
  "merge_step title status s =
     s\<lparr>step_title := (if title = [] then step_title s else title),
       step_status := (if status = [] then step_status s else status)\<rparr>"

definition apply_update :: "string \<times> string \<times> string \<Rightarrow> plan_step list \<Rightarrow> exn + plan_step list" where
  "apply_update u ss =
     (case u of (i, title, status) \<Rightarrow>
        (case step_index i ss of
           Some k \<Rightarrow> Inr (ss[k := merge_step title status (ss ! k)])
         | None \<Rightarrow>
             if title = [] then Inl ValueErr
             else if length ss \<ge> MAX_PLAN_STEPS then Inl ValueErr
             else Inr (ss @ [\<lparr>step_id = i, step_title = title,
                    step_status = (if status = [] then ''pending'' else status)\<rparr>])))"

definition fresh_plan :: "plan_state \<Rightarrow> (string \<times> string \<times> string) list \<Rightarrow> bool" where
  "fresh_plan p us \<longleftrightarrow>
     steps p = [] \<or> list_all (\<lambda>s. step_status s = ''done'') (steps p)
       \<and> \<not> list_ex (\<lambda>u. fst u \<in> set (map step_id (steps p))) us"

definition plan_summary :: "plan_state \<Rightarrow> string" where
  "plan_summary p =
     (let done_count = length (filter (\<lambda>s. step_status s = ''done'') (steps p));
          active = map step_id (filter (\<lambda>s. step_status s = ''in_progress'') (steps p));
          blocked = length (filter (\<lambda>s. step_status s = ''blocked'') (steps p))
      in join '', ''
          ([''plan: '' @ digits_of done_count @ ''/'' @ digits_of (length (steps p)) @ '' done'']
           @ (if active \<noteq> [] then [''step '' @ join '', '' (take 3 active) @ '' in progress''] else [])
           @ (if blocked \<noteq> 0 then [digits_of blocked @ '' blocked''] else [])))"

text \<open>The call works on copies: the plan changes only in the last assignments.\<close>

definition plan_apply :: "pyval \<Rightarrow> plan_state \<Rightarrow> (exn + string) \<times> plan_state" where
  "plan_apply arguments p =
     (case parse_plan_call arguments of
        Inl e \<Rightarrow> (Inl e, p)
      | Inr (us, n) \<Rightarrow>
          (let fresh = fresh_plan p us
           in case fold_res apply_update us (if fresh then [] else steps p) of
                Inl e \<Rightarrow> (Inl e, p)
              | Inr ss \<Rightarrow>
                  (let p1 = p\<lparr>steps := ss\<rparr>;
                       p2 = (case n of Some t \<Rightarrow> p1\<lparr>plan_note := t\<rparr>
                             | None \<Rightarrow> if fresh then p1\<lparr>plan_note := []\<rparr> else p1)
                   in (Inr (plan_summary p2), p2))))"

definition step_mark :: "string \<Rightarrow> string" where
  "step_mark s =
     (if s = ''pending'' then ''[ ]'' else if s = ''in_progress'' then ''[>]''
      else if s = ''done'' then ''[x]'' else ''[!]'')"

definition plan_render :: "plan_state \<Rightarrow> string" where
  "plan_render p =
     (if steps p = [] then []
      else join [LF] (map (\<lambda>s. step_mark (step_status s) @ '' '' @ step_id s @ ''. '' @ step_title s) (steps p)
             @ (if plan_note p \<noteq> [] then [''note: '' @ plan_note p] else [])))"

section \<open>The stored form\<close>

definition plan_to_dict :: "plan_state \<Rightarrow> pyval" where
  "plan_to_dict p =
     PDict [(''steps'', PList (map (\<lambda>s. PDict [(''id'', PStr (step_id s)), (''title'', PStr (step_title s)),
              (''status'', PStr (step_status s))]) (steps p))),
            (''note'', PStr (plan_note p))]"

definition str_or :: "(pyval \<Rightarrow> string) \<Rightarrow> pyval \<Rightarrow> string \<Rightarrow> string" where
  "str_or repr v fallback =
     (if \<not> truthy v then fallback else case v of PStr s \<Rightarrow> s | PInt n \<Rightarrow> str_int n | _ \<Rightarrow> repr v)"

fun stored_step :: "(pyval \<Rightarrow> string) \<Rightarrow> pyval \<Rightarrow> plan_step list" where
  "stored_step repr (PDict d) =
     (let i = py_take MAX_STEP_ID_CHARS (str_or repr (dget d ''id'') []);
          t = py_take MAX_STEP_TITLE_CHARS (str_or repr (dget d ''title'') []);
          s = str_or repr (dget d ''status'') ''pending''
      in if i \<noteq> [] \<and> t \<noteq> [] \<and> s \<in> set STEP_STATUSES
         then [\<lparr>step_id = i, step_title = t, step_status = s\<rparr>] else [])"
| "stored_step repr _ = []"

text \<open>\<open>for item in data.get("steps") or ()\<close>: a value that cannot be iterated raises; the items of
  a text or a dictionary are texts, which are skipped.\<close>

definition plan_from_dict :: "(pyval \<Rightarrow> string) \<Rightarrow> pyval \<Rightarrow> exn + plan_state" where
  "plan_from_dict repr v =
     (case v of
        PDict d \<Rightarrow>
          (let stored = (\<lambda>ss. Inr \<lparr>steps = take MAX_PLAN_STEPS ss,
                 plan_note = py_take MAX_PLAN_NOTE_CHARS (str_or repr (dget d ''note'') [])\<rparr>)
           in if \<not> truthy (dget d ''steps'') then stored []
              else (case dget d ''steps'' of
                 PList items \<Rightarrow> stored (concat (map (stored_step repr) items))
               | PStr _ \<Rightarrow> stored []
               | PDict _ \<Rightarrow> stored []
               | _ \<Rightarrow> Inl TypeErr))
      | _ \<Rightarrow> Inr empty_plan)"

section \<open>The invariant\<close>

definition step_ok :: "plan_step \<Rightarrow> bool" where
  "step_ok s \<longleftrightarrow> step_id s \<noteq> [] \<and> py_len (step_id s) \<le> MAX_STEP_ID_CHARS
     \<and> step_title s \<noteq> [] \<and> py_len (step_title s) \<le> MAX_STEP_TITLE_CHARS
     \<and> step_status s \<in> set STEP_STATUSES"

definition plan_ok :: "plan_state \<Rightarrow> bool" where
  "plan_ok p \<longleftrightarrow> length (steps p) \<le> MAX_PLAN_STEPS \<and> distinct (map step_id (steps p))
     \<and> list_all step_ok (steps p) \<and> py_len (plan_note p) \<le> MAX_PLAN_NOTE_CHARS"

lemma step_index_Some: "step_index i ss = Some k \<Longrightarrow> k < length ss \<and> step_id (ss ! k) = i"
proof -
  assume s: "step_index i ss = Some k"
  let ?ks = "filter (\<lambda>k. step_id (ss ! k) = i) [0..<length ss]"
  from s have "?ks \<noteq> []" "k = last ?ks" by (auto simp: step_index_def split: list.splits)
  then have "k \<in> set ?ks" by (metis last_in_set)
  then show ?thesis by simp
qed

lemma step_index_None: "step_index i ss = None \<longleftrightarrow> i \<notin> step_id ` set ss"
proof -
  have "step_index i ss = None \<longleftrightarrow> filter (\<lambda>k. step_id (ss ! k) = i) [0..<length ss] = []"
    by (auto simp: step_index_def split: list.splits)
  also have "\<dots> \<longleftrightarrow> (\<forall>k<length ss. step_id (ss ! k) \<noteq> i)" by (auto simp: filter_empty_conv)
  also have "\<dots> \<longleftrightarrow> i \<notin> step_id ` set ss" by (metis (no_types) image_iff in_set_conv_nth)
  finally show ?thesis .
qed

lemma merge_step_id [simp]: "step_id (merge_step t st s) = step_id s"
  by (simp add: merge_step_def)

lemma map_step_id_update [simp]:
  "k < length ss \<Longrightarrow> map step_id (ss[k := merge_step t st (ss ! k)]) = map step_id ss"
  by (simp add: map_update list_update_same_conv)

definition update_ok :: "string \<times> string \<times> string \<Rightarrow> bool" where
  "update_ok u \<longleftrightarrow> (case u of (i, t, s) \<Rightarrow> i \<noteq> [] \<and> py_len i \<le> MAX_STEP_ID_CHARS
     \<and> py_len t \<le> MAX_STEP_TITLE_CHARS \<and> (s = [] \<or> s \<in> set STEP_STATUSES))"

lemma step_status_text_Inr:
  "step_status_text v = Inr s \<Longrightarrow> s = [] \<or> s \<in> set STEP_STATUSES"
  by (cases v) (auto split: if_splits)

lemma parse_step_ok:
  assumes "parse_step seen item = Inr u"
  shows "update_ok u \<and> fst u \<notin> set seen"
proof -
  from assms obtain d i t s where d: "item = PDict d" "i \<noteq> []" "py_len i \<le> MAX_STEP_ID_CHARS"
    "i \<notin> set seen" and t: "(case dget_or d ''title'' (PStr []) of
                   PStr t \<Rightarrow> if py_len (strip t) \<le> MAX_STEP_TITLE_CHARS then Inr (collapse_spaces t)
                             else Inl ValueErr
                 | _ \<Rightarrow> Inl ValueErr) = Inr t" and s: "step_status_text (dget_or d ''status'' (PStr [])) = Inr s"
    and u: "u = (i, t, s)"
    by (cases item) (auto simp: parse_step_def)
  have "py_len t \<le> MAX_STEP_TITLE_CHARS"
    using t collapse_spaces_len by (auto split: pyval.splits if_splits intro: order_trans)
  with d u step_status_text_Inr[OF s] show ?thesis by (simp add: update_ok_def)
qed

lemma parse_updates_ok:
  assumes "parse_updates items = Inr us"
  shows "list_all update_ok us \<and> distinct (map fst us)"
  using assms unfolding parse_updates_def
proof (rule fold_res_invariant)
  show "list_all update_ok [] \<and> distinct (map fst [])" by simp
next
  fix x us us'
  assume "list_all update_ok us \<and> distinct (map fst us)"
    and "rbind (parse_step (map fst us) x) (\<lambda>u. Inr (us @ [u])) = Inr us'"
  then show "list_all update_ok us' \<and> distinct (map fst us')"
    by (auto dest!: parse_step_ok)
qed

lemma parse_plan_call_ok:
  assumes "parse_plan_call a = Inr (us, n)"
  shows "list_all update_ok us" and "distinct (map fst us)"
    and "\<And>t. n = Some t \<Longrightarrow> py_len t \<le> MAX_PLAN_NOTE_CHARS"
proof -
  from assms obtain d items where "parse_updates items = Inr us" and n: "parse_note (dget d ''note'') = Inr n"
    by (cases a) (auto simp: parse_plan_call_def split: if_splits pyval.splits)
  with parse_updates_ok show "list_all update_ok us" "distinct (map fst us)" by blast+
  show "py_len t \<le> MAX_PLAN_NOTE_CHARS" if "n = Some t" for t
  proof -
    from n that obtain s where "t = collapse_spaces s" "py_len s \<le> MAX_PLAN_NOTE_CHARS"
      by (auto simp: parse_note_def split: pyval.splits if_splits)
    with collapse_spaces_len[of s] py_len_strip[of s] show ?thesis by simp
  qed
qed

definition steps_ok :: "plan_step list \<Rightarrow> bool" where
  "steps_ok ss \<longleftrightarrow> length ss \<le> MAX_PLAN_STEPS \<and> distinct (map step_id ss) \<and> list_all step_ok ss"

lemma merge_step_ok: "step_ok s \<Longrightarrow> update_ok (i, t, st) \<Longrightarrow> step_ok (merge_step t st s)"
  by (auto simp: step_ok_def update_ok_def merge_step_def)

lemma apply_update_ok:
  assumes "apply_update u ss = Inr ss'" and "steps_ok ss" and "update_ok u"
  shows "steps_ok ss'"
proof -
  obtain i t st where u: "u = (i, t, st)" by (cases u)
  show ?thesis
  proof (cases "step_index i ss")
    case None
    with assms u have "ss' = ss @ [\<lparr>step_id = i, step_title = t,
        step_status = (if st = [] then ''pending'' else st)\<rparr>]" "t \<noteq> []" "length ss < MAX_PLAN_STEPS"
      by (auto simp: apply_update_def split: if_splits)
    moreover have "i \<notin> step_id ` set ss" using None by (simp add: step_index_None)
    ultimately show ?thesis
      using assms(2,3) by (auto simp: steps_ok_def update_ok_def step_ok_def u STEP_STATUSES_def)
  next
    case (Some k)
    with step_index_Some[of i ss k] have k: "k < length ss" by simp
    have ss': "ss' = ss[k := merge_step t st (ss ! k)]"
      using assms(1) u Some by (simp add: apply_update_def)
    have "step_ok (ss ! k)" using assms(2) k by (simp add: steps_ok_def list_all_length)
    then have "step_ok (merge_step t st (ss ! k))" by (rule merge_step_ok) (use assms(3) u in simp)
    then have "list_all step_ok ss'"
      using assms(2) by (auto simp: ss' steps_ok_def list_all_iff dest!: set_update_subset_insert[THEN subsetD])
    with assms(2) k show ?thesis by (simp add: steps_ok_def ss')
  qed
qed

lemma apply_updates_ok:
  assumes "fold_res apply_update us ss = Inr ss'" and "steps_ok ss" and "list_all update_ok us"
  shows "steps_ok ss'"
  using assms(1,2)
  by (rule fold_res_invariant) (use assms(3) apply_update_ok in \<open>auto simp: list_all_iff\<close>)

text \<open>What one update and then all of them do to the steps.\<close>

definition carries :: "string \<times> string \<times> string \<Rightarrow> plan_step \<Rightarrow> bool" where
  "carries u s \<longleftrightarrow> (case u of (i, t, st) \<Rightarrow> step_id s = i \<and> (t \<noteq> [] \<longrightarrow> step_title s = t)
     \<and> (st \<noteq> [] \<longrightarrow> step_status s = st))"

lemma apply_update_effect:
  assumes "apply_update u ss = Inr ss'" and "distinct (map step_id ss)"
  shows "map step_id ss' = map step_id ss @ (if fst u \<in> set (map step_id ss) then [] else [fst u])"
    and "\<exists>s'\<in>set ss'. carries u s'"
    and "\<forall>s\<in>set ss. step_id s \<noteq> fst u \<longrightarrow> s \<in> set ss'"
proof -
  obtain i t st where u: "u = (i, t, st)" by (cases u)
  have "map step_id ss' = map step_id ss @ (if fst u \<in> set (map step_id ss) then [] else [fst u])
     \<and> (\<exists>s'\<in>set ss'. carries u s') \<and> (\<forall>s\<in>set ss. step_id s \<noteq> fst u \<longrightarrow> s \<in> set ss')"
  proof (cases "step_index i ss")
    case None
    with assms u have "ss' = ss @ [\<lparr>step_id = i, step_title = t,
        step_status = (if st = [] then ''pending'' else st)\<rparr>]"
      by (auto simp: apply_update_def split: if_splits)
    moreover have "i \<notin> step_id ` set ss" using None by (simp add: step_index_None)
    ultimately show ?thesis by (auto simp: u carries_def)
  next
    case (Some k)
    with step_index_Some[of i ss k] have k: "k < length ss" "step_id (ss ! k) = i" by simp_all
    have ss': "ss' = ss[k := merge_step t st (ss ! k)]"
      using assms(1) u Some by (simp add: apply_update_def)
    have "merge_step t st (ss ! k) \<in> set ss'" unfolding ss' by (rule set_update_memI[OF k(1)])
    then have c: "\<exists>s'\<in>set ss'. carries u s'"
      by (rule bexI[rotated]) (use k(2) in \<open>auto simp: u carries_def merge_step_def\<close>)
    have o: "s \<in> set ss'" if "s \<in> set ss" "step_id s \<noteq> i" for s
    proof -
      from that(1) obtain j where "j < length ss" "s = ss ! j" by (auto simp: in_set_conv_nth)
      moreover from this that(2) k have "j \<noteq> k" by auto
      ultimately show ?thesis by (auto simp: ss' in_set_conv_nth intro!: exI[of _ j])
    qed
    have "i \<in> set (map step_id ss)" using k by auto
    with k(1) c o show ?thesis by (simp add: u ss')
  qed
  then show "map step_id ss' = map step_id ss @ (if fst u \<in> set (map step_id ss) then [] else [fst u])"
    "\<exists>s'\<in>set ss'. carries u s'" "\<forall>s\<in>set ss. step_id s \<noteq> fst u \<longrightarrow> s \<in> set ss'"
    by blast+
qed

lemma apply_updates_effect:
  assumes "fold_res apply_update us ss = Inr ss'" and "distinct (map step_id ss)" and "distinct (map fst us)"
  shows "map step_id ss' = map step_id ss @ filter (\<lambda>i. i \<notin> set (map step_id ss)) (map fst us)
    \<and> (\<forall>u\<in>set us. \<exists>s'\<in>set ss'. carries u s')
    \<and> (\<forall>s\<in>set ss. step_id s \<notin> fst ` set us \<longrightarrow> s \<in> set ss')"
  using assms
proof (induction us arbitrary: ss)
  case (Cons u us)
  from Cons.prems(1) obtain s1 where s1: "apply_update u ss = Inr s1" "fold_res apply_update us s1 = Inr ss'"
    by auto
  note e = apply_update_effect[OF s1(1) Cons.prems(2)]
  have d: "distinct (map step_id s1)" using e(1) Cons.prems(2) by simp
  have nu: "fst u \<notin> set (map fst us)" using Cons.prems(3) by simp
  note IH = Cons.IH[OF s1(2) d]
  have f: "filter (\<lambda>i. i \<notin> set (map step_id s1)) (map fst us)
      = filter (\<lambda>i. i \<notin> set (map step_id ss)) (map fst us)"
  proof (rule filter_cong[OF refl])
    fix i assume "i \<in> set (map fst us)"
    then have "i \<noteq> fst u" using nu by metis
    moreover have "set (map step_id s1) = set (map step_id ss) \<union> {fst u}" unfolding e(1) by auto
    ultimately show "(i \<notin> set (map step_id s1)) = (i \<notin> set (map step_id ss))" by blast
  qed
  have ids: "map step_id ss' = map step_id ss @ filter (\<lambda>i. i \<notin> set (map step_id ss)) (map fst (u # us))"
    using IH Cons.prems(3) f e(1) by simp
  have "\<exists>s'\<in>set ss'. carries u s'"
  proof -
    obtain s' where s': "s' \<in> set s1" "carries u s'" using e(2) by blast
    then have "step_id s' = fst u" by (auto simp: carries_def split: prod.splits)
    with nu have "step_id s' \<notin> fst ` set us" by simp
    with IH Cons.prems(3) s' show ?thesis by auto
  qed
  with ids IH Cons.prems(3) e(3) show ?case by auto
qed simp

lemma plan_apply_Inr:
  assumes "plan_apply a p = (Inr line, p')"
  obtains us n where "parse_plan_call a = Inr (us, n)"
    and "fold_res apply_update us (if fresh_plan p us then [] else steps p) = Inr (steps p')"
    and "plan_note p' = (case n of Some t \<Rightarrow> t | None \<Rightarrow> if fresh_plan p us then [] else plan_note p)"
    and "line = plan_summary p'"
  using assms
  by (auto simp: plan_apply_def Let_def split: sum.splits option.splits prod.splits if_splits)

section \<open>Properties\<close>

text \<open>Claim C39. The stored plan always respects its bounds: at most 20 steps with distinct non-empty
  ids of at most 40 characters, non-empty titles of at most 120, known statuses and a note of at
  most 200; every call keeps this, and a call that fails leaves the plan as it was.\<close>

theorem plan_apply_keeps_invariant:
  assumes "plan_ok p" and "plan_apply a p = (r, p')"
  shows "plan_ok p' \<and> (\<forall>e. r = Inl e \<longrightarrow> p' = p)"
proof (cases r)
  case (Inl e)
  with assms(2) have "p' = p"
    by (auto simp: plan_apply_def Let_def split: sum.splits option.splits prod.splits)
  with assms(1) show ?thesis by simp
next
  case (Inr line)
  with assms(2) obtain us n where c: "parse_plan_call a = Inr (us, n)"
    and f: "fold_res apply_update us (if fresh_plan p us then [] else steps p) = Inr (steps p')"
    and t: "plan_note p' = (case n of Some t \<Rightarrow> t | None \<Rightarrow> if fresh_plan p us then [] else plan_note p)"
    using plan_apply_Inr by metis
  have "steps_ok (if fresh_plan p us then [] else steps p)"
    using assms(1) by (simp add: steps_ok_def plan_ok_def)
  from apply_updates_ok[OF f this parse_plan_call_ok(1)[OF c]] have "steps_ok (steps p')" .
  moreover have "py_len (plan_note p') \<le> MAX_PLAN_NOTE_CHARS"
    using t parse_plan_call_ok(3)[OF c] assms(1) by (auto simp: plan_ok_def split: option.splits)
  ultimately show ?thesis using Inr by (simp add: plan_ok_def steps_ok_def)
qed

text \<open>What a successful call does: unless it starts a fresh plan (there is none, or all steps
  are done and only new ids are sent) the old steps stay in their order, new steps are appended in
  the order sent, every sent step carries its new title and status, and a step that was not sent
  is unchanged.\<close>

theorem plan_apply_updates_by_id:
  assumes "plan_ok p" and "parse_plan_call a = Inr (us, n)" and "plan_apply a p = (Inr line, p')"
  shows "let old = (if fresh_plan p us then [] else steps p)
    in map step_id (steps p') = map step_id old @ filter (\<lambda>i. i \<notin> set (map step_id old)) (map fst us)
      \<and> (\<forall>u\<in>set us. \<exists>s\<in>set (steps p'). carries u s)
      \<and> (\<forall>s\<in>set old. step_id s \<notin> fst ` set us \<longrightarrow> s \<in> set (steps p'))"
proof -
  have f: "fold_res apply_update us (if fresh_plan p us then [] else steps p) = Inr (steps p')"
    using assms(2,3) by (auto elim!: plan_apply_Inr)
  have "distinct (map step_id (if fresh_plan p us then [] else steps p))"
    using assms(1) by (simp add: plan_ok_def)
  then show ?thesis
    unfolding Let_def by (rule apply_updates_effect[OF f _ parse_plan_call_ok(2)[OF assms(2)]])
qed

text \<open>A plan survives the session store: reading back what was written gives the same plan.\<close>

theorem plan_store_roundtrip:
  assumes "plan_ok p"
  shows "plan_from_dict repr (plan_to_dict p) = Inr p"
proof -
  have t: "str_or repr (PStr s) [] = s" for s by (simp add: str_or_def)
  have st: "str_or repr (PStr s) ''pending'' = s" if "s \<noteq> []" for s using that by (simp add: str_or_def)
  have ne: "s \<noteq> []" if "s \<in> set STEP_STATUSES" for s using that by (auto simp: STEP_STATUSES_def)
  have one: "stored_step repr (PDict [(''id'', PStr (step_id s)), (''title'', PStr (step_title s)),
      (''status'', PStr (step_status s))]) = [s]" if "step_ok s" for s
    using that by (simp add: step_ok_def Let_def dget_def t st ne py_take_all)
  have "concat (map (stored_step repr) (map (\<lambda>s. PDict [(''id'', PStr (step_id s)),
      (''title'', PStr (step_title s)), (''status'', PStr (step_status s))]) ss)) = ss"
    if "list_all step_ok ss" for ss
    using that by (induction ss) (simp_all add: one del: stored_step.simps)
  then show ?thesis
    using assms
    by (auto simp: plan_from_dict_def plan_to_dict_def dget_def t plan_ok_def py_take_all Let_def)
qed

text \<open>A step status that is a list or an object is not answered with the corrective hint of a
  \<open>PlanError\<close>: looking it up in the set of statuses raises a type error, which ends the run.\<close>

theorem unhashable_status_escapes:
  assumes "dget_or d ''status'' (PStr []) = PList xs" and "set (dkeys d) \<subseteq> set STEP_FIELDS"
    and "dget d ''id'' = PInt 1" and "dget_or d ''title'' (PStr []) = PStr ''title''"
  shows "plan_apply (PDict [(''steps'', PList [PDict d])]) p = (Inl TypeErr, p)"
proof -
  have i: "step_id_text (PInt 1) = Inr ''1''" by code_simp
  have "py_len ''1'' \<le> MAX_STEP_ID_CHARS" "py_len (strip ''title'') \<le> MAX_STEP_TITLE_CHARS" by code_simp+
  then have "parse_step [] (PDict d) = Inl TypeErr"
    using assms i by (simp add: parse_step_def)
  then show ?thesis
    by (simp add: plan_apply_def parse_plan_call_def parse_updates_def dkeys_def dget_def
        PLAN_ARGUMENTS_def MAX_PLAN_STEPS_def)
qed

definition sample_plan :: plan_state where
  "sample_plan = \<lparr>steps = [\<lparr>step_id = ''1'', step_title = ''read'', step_status = ''done''\<rparr>,
     \<lparr>step_id = ''2'', step_title = ''write'', step_status = ''pending''\<rparr>], plan_note = []\<rparr>"

definition sample_call :: pyval where
  "sample_call = PDict [(''steps'', PList [PDict [(''id'', PInt 2), (''status'', PStr ''in_progress'')],
     PDict [(''id'', PStr ''3''), (''title'', PStr '' run   tests'')]])]"

definition sample_result :: plan_state where
  "sample_result = \<lparr>steps = [\<lparr>step_id = ''1'', step_title = ''read'', step_status = ''done''\<rparr>,
     \<lparr>step_id = ''2'', step_title = ''write'', step_status = ''in_progress''\<rparr>,
     \<lparr>step_id = ''3'', step_title = ''run tests'', step_status = ''pending''\<rparr>], plan_note = []\<rparr>"

lemma sample_plan_ok: "plan_ok sample_plan"
  by code_simp

lemma sample_apply:
  "plan_apply sample_call sample_plan = (Inr ''plan: 1/3 done, step 2 in progress'', sample_result)"
  by code_simp

theorem plan_apply_keeps_invariant_witness: "plan_ok sample_result"
  using plan_apply_keeps_invariant[OF sample_plan_ok sample_apply] by blast

theorem plan_apply_updates_by_id_witness: "\<exists>s\<in>set (steps sample_result). carries (''2'', [], ''in_progress'') s"
proof -
  have c: "parse_plan_call sample_call = Inr ([(''2'', [], ''in_progress''), (''3'', ''run tests'', [])], None)"
    by code_simp
  from plan_apply_updates_by_id[OF sample_plan_ok c sample_apply] show ?thesis
    unfolding Let_def by simp
qed

theorem plan_store_roundtrip_witness: "plan_from_dict (\<lambda>_. []) (plan_to_dict sample_plan) = Inr sample_plan"
  by (rule plan_store_roundtrip[OF sample_plan_ok])

theorem unhashable_status_escapes_witness:
  "plan_apply (PDict [(''steps'', PList [PDict [(''id'', PInt 1), (''title'', PStr ''title''), (''status'', PList [])]])])
     sample_plan = (Inl TypeErr, sample_plan)"
  by (rule unhashable_status_escapes) (simp_all add: dget_def dget_or_def dkeys_def STEP_FIELDS_def)

end
