(* ===== verification/FileTree.thy ===== *)
theory FileTree
  imports Paths "HOL-Library.Multiset"
begin

text \<open>
  A directory tree and the operations of the executor on it: lookup without following links, the
  containment check \<open>safe_path\<close> and the regular-file check (\<open>executor/paths.py\<close>), atomic
  replacement (\<open>executor/atomic_io.py\<close>), and the walk \<open>visible_files\<close> with its digest cache
  (\<open>executor/staging.py\<close>).

  A path below the root is a list of names.  A file has its content, its permission bits and its
  number of links; a link has its target text and, unless it dangles, whether it leads to a
  directory and the permission bits behind it.  What exists behind a link is the argument
  \<open>beyond\<close>: the code refuses links, but asks the operating system whether paths exist first.
  Failing system calls (a full disk, missing permissions) are not modelled here.
\<close>

section \<open>Trees\<close>

datatype node =
    File (content: string) (fmode: int) (nlink: nat)
  | Link (link_target: string) (resolved: "(bool \<times> int) option")
  | Special
  | Dir (entries: "(string \<times> node) list")

type_synonym path = "string list"

fun lookup :: "node \<Rightarrow> path \<Rightarrow> node option" where
  "lookup t [] = Some t"
| "lookup (Dir es) (p # ps) = (case map_of es p of None \<Rightarrow> None | Some c \<Rightarrow> lookup c ps)"
| "lookup _ (p # ps) = None"

text \<open>Placing a node creates the missing directories above it; nothing is placed below a node
  that is not a directory.\<close>

fun put :: "path \<Rightarrow> node \<Rightarrow> node \<Rightarrow> node" where
  "put [] n t = n"
| "put (p # ps) n (Dir es) =
     Dir (AList.update p (put ps n (case map_of es p of None \<Rightarrow> Dir [] | Some c \<Rightarrow> c)) es)"
| "put (p # ps) n t = t"

fun remove_at :: "path \<Rightarrow> node \<Rightarrow> node" where
  "remove_at [] t = t"
| "remove_at [p] (Dir es) = Dir (AList.delete p es)"
| "remove_at (p # q # ps) (Dir es) =
     (case map_of es p of None \<Rightarrow> Dir es | Some c \<Rightarrow> Dir (AList.update p (remove_at (q # ps) c) es))"
| "remove_at (p # ps) t = t"

definition is_dir :: "node option \<Rightarrow> bool" where
  "is_dir n \<longleftrightarrow> (case n of Some (Dir _) \<Rightarrow> True | _ \<Rightarrow> False)"

lemma is_dir_simps [simp]:
  "is_dir None = False" "is_dir (Some (File c m k)) = False" "is_dir (Some (Link g r)) = False"
  "is_dir (Some Special) = False" "is_dir (Some (Dir es)) = True"
  by (simp_all add: is_dir_def)

definition is_link :: "node option \<Rightarrow> bool" where
  "is_link n \<longleftrightarrow> (case n of Some (Link _ _) \<Rightarrow> True | _ \<Rightarrow> False)"

text \<open>\<open>Path.exists\<close> and \<open>Path.is_file\<close> follow links.\<close>

fun exists_at :: "(path \<Rightarrow> bool) \<Rightarrow> path \<Rightarrow> node \<Rightarrow> path \<Rightarrow> bool" where
  "exists_at beyond done n [] = (case n of Link _ r \<Rightarrow> r \<noteq> None | _ \<Rightarrow> True)"
| "exists_at beyond done (Dir es) (p # ps) =
     (case map_of es p of None \<Rightarrow> False | Some c \<Rightarrow> exists_at beyond (done @ [p]) c ps)"
| "exists_at beyond done (Link _ _) (p # ps) = beyond (done @ p # ps)"
| "exists_at beyond done _ (p # ps) = False"

definition path_exists :: "(path \<Rightarrow> bool) \<Rightarrow> node \<Rightarrow> path \<Rightarrow> bool" where
  "path_exists beyond t p = exists_at beyond [] t p"

section \<open>Containment\<close>

text \<open>\<open>_reject_links\<close>: a missing component ends the check, a component below something that is not
  a directory is an operating-system error.\<close>

fun reject_links :: "node \<Rightarrow> path \<Rightarrow> exn + unit" where
  "reject_links t [] = Inr ()"
| "reject_links (Dir es) (p # ps) =
     (case map_of es p of
        None \<Rightarrow> Inr ()
      | Some (Link _ _) \<Rightarrow> Inl UnsafePath
      | Some c \<Rightarrow> reject_links c ps)"
| "reject_links t (p # ps) = Inl NotADirectory"

definition path_parts :: "string \<Rightarrow> path" where
  "path_parts normalized = (if normalized = ''.'' \<or> normalized = [] then [] else split_on (CHR ''/'') normalized)"

text \<open>\<open>safe_path\<close>: with no link on the way, the resolved path stays below the root, so what is
  left is that it exists.  The parent of the root itself lies outside.\<close>

definition safe_path ::
  "(string \<Rightarrow> string) \<Rightarrow> string list \<Rightarrow> (path \<Rightarrow> bool) \<Rightarrow> node \<Rightarrow> bool \<Rightarrow> bool \<Rightarrow> string \<Rightarrow> exn + path" where
  "safe_path nfc extra beyond t must_exist allow_secret relative =
     rbind (normalize_relative nfc extra allow_secret relative) (\<lambda>normalized.
       let parts = path_parts normalized
       in if must_exist then
            rbind (reject_links t parts) (\<lambda>_.
              case lookup t parts of None \<Rightarrow> Inl FileNotFound | Some _ \<Rightarrow> Inr parts)
          else if parts = [] then Inl UnsafePath
          else if path_exists beyond t (butlast parts) then
            rbind (reject_links t (butlast parts)) (\<lambda>_. Inr parts)
          else Inr parts)"

definition require_regular_file :: "node option \<Rightarrow> exn + unit" where
  "require_regular_file n =
     (case n of
        Some (File c m k) \<Rightarrow> ensure (k \<le> 1) (ToolError PATH_INVALID_TYPE)
      | _ \<Rightarrow> Inl (ToolError PATH_INVALID_TYPE))"

section \<open>Atomic replacement\<close>

text \<open>\<open>replacement_mode\<close>; \<open>new_mode\<close> is \<open>0o666\<close> without the umask.\<close>

definition replacement_mode :: "int \<Rightarrow> node option \<Rightarrow> int" where
  "replacement_mode new_mode n =
     (case n of
        Some (File c m k) \<Rightarrow> m
      | Some (Link g (Some (d, m))) \<Rightarrow> m
      | _ \<Rightarrow> new_mode)"

text \<open>\<open>mkstemp\<close> needs the parent directory, and \<open>os.replace\<close> replaces anything but a directory.\<close>

definition replace_file :: "node \<Rightarrow> path \<Rightarrow> string \<Rightarrow> int \<Rightarrow> exn + node" where
  "replace_file t p c m =
     (if \<not> is_dir (lookup t (butlast p)) then Inl FileNotFound
      else if is_dir (lookup t p) then Inl IsADirectory
      else Inr (put p (File c m 1) t))"

definition atomic_write :: "int \<Rightarrow> node \<Rightarrow> path \<Rightarrow> string \<Rightarrow> exn + node" where
  "atomic_write new_mode t p c = replace_file t p c (replacement_mode new_mode (lookup t p))"

definition atomic_append :: "int \<Rightarrow> node \<Rightarrow> path \<Rightarrow> string \<Rightarrow> exn + node" where
  "atomic_append new_mode t p c =
     (case lookup t p of
        Some (File old m k) \<Rightarrow> replace_file t p (old @ c) (replacement_mode new_mode (lookup t p))
      | _ \<Rightarrow> Inl FileNotFound)"

text \<open>\<open>mkdir(parents=True, exist_ok=True)\<close>: fails at a component that is there and not a directory.\<close>

fun make_dirs :: "path \<Rightarrow> node \<Rightarrow> exn + node" where
  "make_dirs [] (Dir es) = Inr (Dir es)"
| "make_dirs [] t = Inl (OSErr False)"
| "make_dirs (p # ps) (Dir es) =
     rbind (make_dirs ps (case map_of es p of None \<Rightarrow> Dir [] | Some c \<Rightarrow> c)) (\<lambda>c'.
       Inr (Dir (AList.update p c' es)))"
| "make_dirs (p # ps) t = Inl NotADirectory"

section \<open>Well-formed trees\<close>

definition valid_name :: "string \<Rightarrow> bool" where
  "valid_name n \<longleftrightarrow> n \<noteq> [] \<and> n \<noteq> ''.'' \<and> n \<noteq> ''..'' \<and> CHR ''/'' \<notin> set n"

lemma entry_smaller [termination_simp]:
  "e \<in> set es \<Longrightarrow> size (snd e) < Suc (size_list (size_prod (\<lambda>_. 0) size) es)"
  by (induction es) auto

fun wf_node :: "node \<Rightarrow> bool" where
  "wf_node (Dir es) \<longleftrightarrow> distinct (map fst es) \<and> list_all (\<lambda>e. valid_name (fst e) \<and> wf_node (snd e)) es"
| "wf_node _ = True"

lemma wf_child: "wf_node (Dir es) \<Longrightarrow> map_of es p = Some c \<Longrightarrow> wf_node c \<and> valid_name p"
  by (auto simp: list_all_iff dest: map_of_SomeD)

lemma map_of_update: "map_of (AList.update k v es) = (map_of es)(k \<mapsto> v)"
  by (rule update_conv')

lemma set_update: "e \<in> set (AList.update k v es) \<Longrightarrow> e = (k, v) \<or> e \<in> set es"
  by (induction es) (auto split: if_splits)

lemma map_fst_update: "map fst (AList.update k v es) = (if k \<in> set (map fst es) then map fst es else map fst es @ [k])"
  by (induction es) auto

lemma wf_update:
  assumes "wf_node (Dir es)" and "wf_node c" and "valid_name p"
  shows "wf_node (Dir (AList.update p c es))"
  using assms by (auto simp: list_all_iff map_fst_update dest!: set_update)

lemma wf_put:
  assumes "wf_node t" and "wf_node n" and "list_all valid_name p"
  shows "wf_node (put p n t)"
  using assms
proof (induction p n t rule: put.induct)
  case (2 p ps n es)
  define c where "c = (case map_of es p of None \<Rightarrow> Dir [] | Some c \<Rightarrow> c)"
  have "wf_node c" using 2(2) wf_child[of es p] by (auto simp: c_def split: option.splits)
  then have "wf_node (put ps n c)" using 2 unfolding c_def by simp
  with wf_update[OF 2(2), of _ p] 2(4) show ?case by (simp add: c_def)
qed auto

lemma lookup_append: "lookup t (p @ q) = (case lookup t p of None \<Rightarrow> None | Some c \<Rightarrow> lookup c q)"
  by (induction t p rule: lookup.induct) (auto split: option.splits)

lemma lookup_nil_dir: "q \<noteq> [] \<Longrightarrow> lookup (Dir []) q = None"
  by (cases q) simp_all

text \<open>What a lookup sees after a node was placed: the node and what is below it, and everything
  that is not on the way.\<close>

lemma lookup_put_same:
  "p = [] \<or> is_dir (lookup (put p n t) (butlast p)) \<Longrightarrow> lookup (put p n t) (p @ q) = lookup n q"
proof (induction p n t rule: put.induct)
  case (2 p ps n es)
  let ?c = "case map_of es p of None \<Rightarrow> Dir [] | Some c \<Rightarrow> c"
  have "ps = [] \<or> is_dir (lookup (put ps n ?c) (butlast ps))"
    using 2(2) by (cases ps) (auto simp: map_of_update)
  from 2(1)[OF this] show ?case by (simp add: map_of_update)
qed (auto simp: is_dir_def split: if_splits option.splits node.splits)

lemma lookup_put_other:
  assumes "\<not> (\<exists>r. q = p @ r)" and "\<not> (\<exists>r. p = q @ r)"
  shows "lookup (put p n t) q = lookup t q"
  using assms
proof (induction p n t arbitrary: q rule: put.induct)
  case (2 p ps n es)
  let ?c = "case map_of es p of None \<Rightarrow> Dir [] | Some c \<Rightarrow> c"
  obtain a qs where q: "q = a # qs" using 2(3) by (cases q) auto
  show ?case
  proof (cases "a = p")
    case True
    have n: "\<not> (\<exists>r. qs = ps @ r)" "\<not> (\<exists>r. ps = qs @ r)" using 2(2,3) q True by auto
    have "lookup (put ps n ?c) qs = lookup ?c qs" by (rule 2(1)[OF n])
    moreover have "qs \<noteq> []" using n(2) by auto
    ultimately show ?thesis
      using True q by (auto simp: map_of_update lookup_nil_dir split: option.splits)
  qed (use q in \<open>simp add: map_of_update\<close>)
qed auto

lemma is_dir_put_butlast:
  "p \<noteq> [] \<Longrightarrow> is_dir (lookup t (butlast p)) \<Longrightarrow> is_dir (lookup (put p n t) (butlast p))"
proof (induction p n t rule: put.induct)
  case (2 p ps n es)
  show ?case
  proof (cases ps)
    case Nil
    then show ?thesis by (simp add: is_dir_def)
  next
    case (Cons q qs)
    with 2(3) obtain c where "map_of es p = Some c" "is_dir (lookup c (butlast ps))"
      by (auto simp: is_dir_def split: option.splits)
    with 2(1) Cons show ?thesis by (simp add: map_of_update)
  qed
qed (auto simp: is_dir_def neq_Nil_conv)

section \<open>The walk of the visible files\<close>

type_synonym signature = "int \<times> int \<times> int \<times> int \<times> int"
type_synonym hash_cache = "(string \<times> (signature \<times> string \<times> int)) list"
type_synonym listing = "(string \<times> (string \<times> int \<times> int)) list"

definition RACY_WINDOW_NS :: int where "RACY_WINDOW_NS = 250000000"

text \<open>\<open>_trusted\<close>: a digest counts only while the signature is unchanged and was old enough.\<close>

definition trusted :: "(signature \<times> string \<times> int) option \<Rightarrow> signature \<Rightarrow> string option" where
  "trusted entry s =
     (case entry of
        None \<Rightarrow> None
      | Some (s0, digest, observed) \<Rightarrow>
          (if s0 \<noteq> s then None
           else case s of (dev, ino, sz, mtime, ctime) \<Rightarrow>
             if max mtime ctime + RACY_WINDOW_NS \<le> observed then Some digest else None))"

text \<open>One entry of a directory: \<open>sha\<close> is SHA-256, \<open>sigs\<close> the stat signatures and \<open>clock\<close> the time
  at which a file is hashed.\<close>

definition visit_entry ::
  "string list \<Rightarrow> (string \<Rightarrow> string) \<Rightarrow> (string \<Rightarrow> signature) \<Rightarrow> (string \<Rightarrow> int) \<Rightarrow> hash_cache \<Rightarrow> string \<Rightarrow>
   string \<times> node \<Rightarrow> listing \<times> hash_cache \<times> string list \<Rightarrow> listing \<times> hash_cache \<times> string list" where
  "visit_entry extra sha sigs clock previous prefix e st =
     (let relative = prefix @ fst e
      in if is_hidden_part extra (fst e) then st
         else (case st of (result, cache, links) \<Rightarrow>
           (case snd e of
              Link g r \<Rightarrow> (result, cache, links @ [relative])
            | Dir es \<Rightarrow> st
            | Special \<Rightarrow> st
            | File c m k \<Rightarrow>
                (let cached = (case trusted (map_of previous relative) (sigs relative) of
                       None \<Rightarrow> (sigs relative, sha c, clock relative)
                     | Some digest \<Rightarrow> the (map_of previous relative))
                 in (result @ [(relative, (fst (snd cached), int (length c), m))],
                     cache @ [(relative, cached)], links)))))"

definition subdirectories :: "string list \<Rightarrow> string \<Rightarrow> (string \<times> node) list \<Rightarrow> (string \<times> node) list" where
  "subdirectories extra prefix es =
     map (\<lambda>e. (prefix @ fst e @ ''/'', snd e))
       (filter (\<lambda>e. \<not> is_hidden_part extra (fst e) \<and> is_dir (Some (snd e))) es)"

text \<open>The loop over the pending directories, the next one first.\<close>

definition stack_size :: "(string \<times> node) list \<Rightarrow> nat" where
  "stack_size pending = sum_list (map (\<lambda>e. Suc (size (snd e))) pending)"

lemma stack_size_entries:
  "stack_size (subdirectories extra prefix (sort_key fst es)) < Suc (size (Dir es))"
proof -
  let ?f = "\<lambda>e :: string \<times> node. Suc (size (snd e))"
  have le: "stack_size (subdirectories extra prefix xs) \<le> sum_list (map ?f xs)" for xs
    by (induction xs) (auto simp: stack_size_def subdirectories_def)
  have "mset (map ?f (sort_key fst es)) = mset (map ?f es)" by (simp only: mset_map mset_sort)
  then have "sum_list (map ?f (sort_key fst es)) = sum_list (map ?f es)"
    by (simp only: sum_mset_sum_list[symmetric])
  moreover have "sum_list (map ?f es) \<le> size_list (size_prod (\<lambda>_. 0) size) es" by (induction es) auto
  ultimately show ?thesis using le[of "sort_key fst es"] by simp
qed

function visible_loop ::
  "string list \<Rightarrow> (string \<Rightarrow> string) \<Rightarrow> (string \<Rightarrow> signature) \<Rightarrow> (string \<Rightarrow> int) \<Rightarrow> hash_cache \<Rightarrow>
   (string \<times> node) list \<Rightarrow> listing \<times> hash_cache \<times> string list \<Rightarrow> listing \<times> hash_cache \<times> string list" where
  "visible_loop extra sha sigs clock previous [] st = st"
| "visible_loop extra sha sigs clock previous ((prefix, n) # pending) st =
     (let es = sort_key fst (case n of Dir es \<Rightarrow> es | _ \<Rightarrow> [])
      in visible_loop extra sha sigs clock previous (subdirectories extra prefix es @ pending)
           (fold (visit_entry extra sha sigs clock previous prefix) es st))"
  by pat_completeness auto
termination
proof (relation "measure (\<lambda>(extra, sha, sigs, clock, previous, pending, st). stack_size pending)", goal_cases)
  case (2 extra sha sigs clock previous prefix n pending st es)
  have "stack_size (subdirectories extra prefix es) < Suc (size n)"
    using stack_size_entries[of extra prefix] 2
    by (cases n) (auto simp: stack_size_def subdirectories_def)
  then show ?case by (simp add: stack_size_def)
qed simp

definition visible_files ::
  "string list \<Rightarrow> (string \<Rightarrow> string) \<Rightarrow> (string \<Rightarrow> signature) \<Rightarrow> (string \<Rightarrow> int) \<Rightarrow> hash_cache \<Rightarrow> node \<Rightarrow>
   listing \<times> hash_cache \<times> string list" where
  "visible_files extra sha sigs clock previous t =
     visible_loop extra sha sigs clock previous [([], t)] ([], [], [])"

section \<open>What the walk returns\<close>

definition visible_at :: "string list \<Rightarrow> (string \<Rightarrow> string) \<Rightarrow> node \<Rightarrow> path \<Rightarrow> (string \<times> int \<times> int) option" where
  "visible_at extra sha t q =
     (if list_all (\<lambda>p. \<not> is_hidden_part extra p) q
      then (case lookup t q of Some (File c m k) \<Rightarrow> Some (sha c, int (length c), m) | _ \<Rightarrow> None)
      else None)"

definition link_at :: "string list \<Rightarrow> node \<Rightarrow> path \<Rightarrow> bool" where
  "link_at extra t q \<longleftrightarrow> list_all (\<lambda>p. \<not> is_hidden_part extra p) q \<and> is_link (lookup t q)"

definition below :: "string list \<Rightarrow> (string \<Rightarrow> string) \<Rightarrow> string \<times> node \<Rightarrow> (string \<times> (string \<times> int \<times> int)) set" where
  "below extra sha d = {(fst d @ join ''/'' q, v) | q v. q \<noteq> [] \<and> visible_at extra sha (snd d) q = Some v}"

definition links_below :: "string list \<Rightarrow> string \<times> node \<Rightarrow> string set" where
  "links_below extra d = {fst d @ join ''/'' q | q. q \<noteq> [] \<and> link_at extra (snd d) q}"

text \<open>A sound cache: a trusted digest is the digest of the file that is there.\<close>

definition cache_sound ::
  "(string \<Rightarrow> string) \<Rightarrow> (string \<Rightarrow> signature) \<Rightarrow> hash_cache \<Rightarrow> string \<times> node \<Rightarrow> bool" where
  "cache_sound sha sigs previous d \<longleftrightarrow>
     (\<forall>q c m k digest. lookup (snd d) q = Some (File c m k)
        \<longrightarrow> trusted (map_of previous (fst d @ join ''/'' q)) (sigs (fst d @ join ''/'' q)) = Some digest
        \<longrightarrow> digest = sha c)"

lemma join_Cons: "q \<noteq> [] \<Longrightarrow> join s (p # q) = p @ s @ join s q"
  by (cases q) simp_all

lemma trusted_digest: "trusted e s = Some d \<Longrightarrow> \<exists>o0. e = Some (s, d, o0)"
  by (auto simp: trusted_def split: option.splits prod.splits if_splits)

lemma lookup_Dir_single: "distinct (map fst es) \<Longrightarrow> lookup (Dir es) [p] = Some n \<longleftrightarrow> (p, n) \<in> set es"
proof -
  have "lookup (Dir es) [p] = map_of es p" by (simp split: option.splits)
  then show "distinct (map fst es) \<Longrightarrow> lookup (Dir es) [p] = Some n \<longleftrightarrow> (p, n) \<in> set es"
    by (simp add: map_of_eq_Some_iff)
qed

text \<open>The visible files directly in a directory.\<close>

definition level_files :: "string list \<Rightarrow> (string \<Rightarrow> string) \<Rightarrow> string \<Rightarrow> (string \<times> node) list \<Rightarrow> (string \<times> (string \<times> int \<times> int)) set" where
  "level_files extra sha prefix es =
     {(prefix @ p, (sha c, int (length c), m)) | p c m k. (p, File c m k) \<in> set es \<and> \<not> is_hidden_part extra p}"

definition level_links :: "string list \<Rightarrow> string \<Rightarrow> (string \<times> node) list \<Rightarrow> string set" where
  "level_links extra prefix es = {prefix @ p | p g r. (p, Link g r) \<in> set es \<and> \<not> is_hidden_part extra p}"

definition cached_digests :: "hash_cache \<Rightarrow> (string \<times> string) set" where
  "cached_digests ca = (\<lambda>(p, (s, d, ob)). (p, d)) ` set ca"

definition listed_digests :: "(string \<times> (string \<times> int \<times> int)) set \<Rightarrow> (string \<times> string) set" where
  "listed_digests l = (\<lambda>(p, (d, s, m)). (p, d)) ` l"

lemma visit_entry_sets:
  assumes "\<And>c m k digest. snd e = File c m k \<Longrightarrow>
      trusted (map_of previous (prefix @ fst e)) (sigs (prefix @ fst e)) = Some digest \<Longrightarrow> digest = sha c"
    and "visit_entry extra sha sigs clock previous prefix e (r, ca, li) = (r1, ca1, li1)"
  shows "set r1 = set r \<union> level_files extra sha prefix [e]
    \<and> set li1 = set li \<union> level_links extra prefix [e]
    \<and> cached_digests ca1 = cached_digests ca \<union> listed_digests (level_files extra sha prefix [e])"
proof -
  obtain p n where e: "e = (p, n)" by (cases e)
  note defs = visit_entry_def e Let_def level_files_def level_links_def cached_digests_def listed_digests_def
  show ?thesis
  proof (cases "is_hidden_part extra p")
    case True
    with assms(2) show ?thesis by (auto simp: defs)
  next
    case False
    show ?thesis
    proof (cases n)
      case (File c m k)
      obtain s0 o0 where "(case trusted (map_of previous (prefix @ p)) (sigs (prefix @ p)) of
            None \<Rightarrow> (sigs (prefix @ p), sha c, clock (prefix @ p))
          | Some digest \<Rightarrow> the (map_of previous (prefix @ p))) = (s0, sha c, o0)"
      proof (cases "trusted (map_of previous (prefix @ p)) (sigs (prefix @ p))")
        case None
        then show ?thesis by (intro that) simp
      next
        case (Some digest)
        with assms(1)[of c m k] e File have "digest = sha c" by simp
        with trusted_digest[OF Some] Some show ?thesis by (auto intro: that)
      qed
      with False assms(2) have "r1 = r @ [(prefix @ p, (sha c, int (length c), m))]"
        "ca1 = ca @ [(prefix @ p, (s0, sha c, o0))]" "li1 = li"
        by (simp_all add: visit_entry_def e File Let_def)
      with False show ?thesis by (auto simp: defs File)
    qed (use assms(2) False in \<open>auto simp: defs\<close>)
  qed
qed

lemma fold_visit:
  assumes "\<And>p c m k digest. (p, File c m k) \<in> set es \<Longrightarrow>
      trusted (map_of previous (prefix @ p)) (sigs (prefix @ p)) = Some digest \<Longrightarrow> digest = sha c"
    and "fold (visit_entry extra sha sigs clock previous prefix) es (r, ca, li) = (r', ca', li')"
  shows "set r' = set r \<union> level_files extra sha prefix es
    \<and> set li' = set li \<union> level_links extra prefix es
    \<and> cached_digests ca' = cached_digests ca \<union> listed_digests (level_files extra sha prefix es)"
  using assms
proof (induction es arbitrary: r ca li)
  case Nil
  then show ?case by (simp add: level_files_def level_links_def listed_digests_def)
next
  case (Cons e es)
  obtain r1 ca1 li1 where s1: "visit_entry extra sha sigs clock previous prefix e (r, ca, li) = (r1, ca1, li1)"
    by (metis prod_cases3)
  have c: "snd e = File c m k \<Longrightarrow>
      trusted (map_of previous (prefix @ fst e)) (sigs (prefix @ fst e)) = Some digest \<Longrightarrow> digest = sha c"
    for c m k digest using Cons.prems(1)[of "fst e" c m k digest] by (cases e) auto
  note step = visit_entry_sets[OF c s1]
  have f: "fold (visit_entry extra sha sigs clock previous prefix) es (r1, ca1, li1) = (r', ca', li')"
    using Cons.prems(2) by (simp add: s1)
  have "set r' = set r1 \<union> level_files extra sha prefix es
    \<and> set li' = set li1 \<union> level_links extra prefix es
    \<and> cached_digests ca' = cached_digests ca1 \<union> listed_digests (level_files extra sha prefix es)"
    by (rule Cons.IH[OF _ f]) (rule Cons.prems(1)[OF list.set_intros(2)])
  moreover have "level_files extra sha prefix (e # es) = level_files extra sha prefix [e] \<union> level_files extra sha prefix es"
    and "level_links extra prefix (e # es) = level_links extra prefix [e] \<union> level_links extra prefix es"
    by (auto simp: level_files_def level_links_def)
  ultimately show ?case using step by (auto simp: listed_digests_def image_Un)
qed

lemma visible_at_Dir:
  assumes "distinct (map fst es)" and "q \<noteq> []"
  shows "visible_at extra sha (Dir es) (p # q) = Some v \<longleftrightarrow>
    (\<exists>ds. (p, Dir ds) \<in> set es \<and> \<not> is_hidden_part extra p \<and> visible_at extra sha (Dir ds) q = Some v)"
proof -
  have nd: "lookup n q = None" if "\<not> is_dir (Some n)" for n
    using that assms(2) by (cases n; cases q) (auto simp: is_dir_def)
  have "visible_at extra sha (Dir es) (p # q) =
    (if is_hidden_part extra p then None
     else case map_of es p of None \<Rightarrow> None | Some n \<Rightarrow> visible_at extra sha n q)"
    by (auto simp: visible_at_def split: option.splits)
  then have "visible_at extra sha (Dir es) (p # q) = Some v \<longleftrightarrow>
      \<not> is_hidden_part extra p \<and> (\<exists>n. (p, n) \<in> set es \<and> visible_at extra sha n q = Some v)"
    by (auto simp: map_of_eq_Some_iff[OF assms(1), symmetric] split: option.splits)
  moreover have "\<exists>ds. n = Dir ds" if "visible_at extra sha n q = Some v" for n
  proof (cases "is_dir (Some n)")
    case False
    with nd[of n] that show ?thesis by (simp add: visible_at_def split: if_splits)
  qed (cases n, auto simp: is_dir_def)
  ultimately show ?thesis by blast
qed

lemma visible_at_single:
  assumes "distinct (map fst es)"
  shows "visible_at extra sha (Dir es) [p] = Some v \<longleftrightarrow>
    (\<exists>c m k. (p, File c m k) \<in> set es \<and> \<not> is_hidden_part extra p \<and> v = (sha c, int (length c), m))"
proof -
  have "visible_at extra sha (Dir es) [p] =
    (if is_hidden_part extra p then None
     else case map_of es p of Some (File c m k) \<Rightarrow> Some (sha c, int (length c), m) | _ \<Rightarrow> None)"
    by (auto simp: visible_at_def split: option.splits)
  then show ?thesis
    by (auto simp: map_of_eq_Some_iff[OF assms, symmetric] split: option.splits node.splits)
qed

lemma belowI:
  "q \<noteq> [] \<Longrightarrow> visible_at extra sha (snd d) q = Some v \<Longrightarrow> (fst d @ join ''/'' q, v) \<in> below extra sha d"
  unfolding below_def by blast

lemma links_belowI: "q \<noteq> [] \<Longrightarrow> link_at extra (snd d) q \<Longrightarrow> fst d @ join ''/'' q \<in> links_below extra d"
  unfolding links_below_def by blast

lemma below_Dir:
  assumes "distinct (map fst es)"
  shows "below extra sha (prefix, Dir es) = level_files extra sha prefix es
    \<union> (\<Union>d\<in>set (subdirectories extra prefix es). below extra sha d)"
proof (intro equalityI subsetI)
  fix x assume "x \<in> below extra sha (prefix, Dir es)"
  then obtain q v where q: "q \<noteq> []" "x = (prefix @ join ''/'' q, v)" "visible_at extra sha (Dir es) q = Some v"
    by (auto simp: below_def)
  then obtain p r where p: "q = p # r" by (cases q) auto
  show "x \<in> level_files extra sha prefix es \<union> (\<Union>d\<in>set (subdirectories extra prefix es). below extra sha d)"
  proof (cases "r = []")
    case True
    with q p visible_at_single[OF assms] show ?thesis by (auto simp: level_files_def)
  next
    case False
    with q(3) p visible_at_Dir[OF assms False] obtain ds where
      ds: "(p, Dir ds) \<in> set es" "\<not> is_hidden_part extra p" "visible_at extra sha (Dir ds) r = Some v" by auto
    have "(prefix @ p @ ''/'', Dir ds) \<in> set (subdirectories extra prefix es)"
      using ds(1,2) by (force simp: subdirectories_def is_dir_def)
    moreover have "x = (fst (prefix @ p @ ''/'', Dir ds) @ join ''/'' r, v)"
      using q(2) p False by (simp add: join_Cons)
    then have "x \<in> below extra sha (prefix @ p @ ''/'', Dir ds)"
      using belowI[OF False, of extra sha "(prefix @ p @ ''/'', Dir ds)" v] ds(3) by simp
    moreover note this
    ultimately have "\<exists>d\<in>set (subdirectories extra prefix es). x \<in> below extra sha d" by blast
    then show ?thesis by blast
  qed
next
  fix x
  assume "x \<in> level_files extra sha prefix es \<union> (\<Union>d\<in>set (subdirectories extra prefix es). below extra sha d)"
  then show "x \<in> below extra sha (prefix, Dir es)"
  proof
    assume "x \<in> level_files extra sha prefix es"
    then obtain p c m k where "x = (prefix @ p, (sha c, int (length c), m))" "(p, File c m k) \<in> set es"
      "\<not> is_hidden_part extra p" by (auto simp: level_files_def)
    then show ?thesis
      using visible_at_single[OF assms, of extra sha p]
        belowI[of "[p]" extra sha "(prefix, Dir es)" "(sha c, int (length c), m)"] by auto
  next
    assume "x \<in> (\<Union>d\<in>set (subdirectories extra prefix es). below extra sha d)"
    then obtain p n q v where d: "(p, n) \<in> set es" "\<not> is_hidden_part extra p" "is_dir (Some n)"
      "x = (prefix @ p @ ''/'' @ join ''/'' q, v)" "q \<noteq> []" "visible_at extra sha n q = Some v"
      by (auto simp: subdirectories_def below_def)
    from d(3) obtain ds where "n = Dir ds" by (cases n) (auto simp: is_dir_def)
    with d visible_at_Dir[OF assms d(5), of extra sha p v]
    have "visible_at extra sha (Dir es) (p # q) = Some v" by blast
    with belowI[of "p # q" extra sha "(prefix, Dir es)" v] d(4,5) show ?thesis by (simp add: join_Cons)
  qed
qed

lemma link_at_cons:
  assumes "distinct (map fst es)"
  shows "link_at extra (Dir es) (p # q) \<longleftrightarrow>
    (\<exists>n. (p, n) \<in> set es \<and> \<not> is_hidden_part extra p \<and> link_at extra n q)"
  by (auto simp: link_at_def is_link_def map_of_eq_Some_iff[OF assms, symmetric] split: option.splits)

lemma link_at_below: "link_at extra n q \<Longrightarrow> q \<noteq> [] \<Longrightarrow> is_dir (Some n)"
  by (cases n; cases q) (auto simp: link_at_def is_link_def is_dir_def)

lemma links_below_Dir:
  assumes "distinct (map fst es)"
  shows "links_below extra (prefix, Dir es) = level_links extra prefix es
    \<union> (\<Union>d\<in>set (subdirectories extra prefix es). links_below extra d)"
proof (intro equalityI subsetI)
  fix x assume "x \<in> links_below extra (prefix, Dir es)"
  then obtain p r where q: "x = prefix @ join ''/'' (p # r)" "link_at extra (Dir es) (p # r)"
    by (auto simp: links_below_def neq_Nil_conv)
  then obtain n where n: "(p, n) \<in> set es" "\<not> is_hidden_part extra p" "link_at extra n r"
    by (auto simp: link_at_cons[OF assms])
  show "x \<in> level_links extra prefix es \<union> (\<Union>d\<in>set (subdirectories extra prefix es). links_below extra d)"
  proof (cases "r = []")
    case True
    with n q show ?thesis
      by (cases n) (auto simp: level_links_def link_at_def is_link_def)
  next
    case False
    with n link_at_below have "(prefix @ p @ ''/'', n) \<in> set (subdirectories extra prefix es)"
      by (force simp: subdirectories_def)
    moreover have "x \<in> links_below extra (prefix @ p @ ''/'', n)"
      using n(3) False q(1) by (auto simp: links_below_def join_Cons)
    ultimately show ?thesis by blast
  qed
next
  fix x
  assume "x \<in> level_links extra prefix es \<union> (\<Union>d\<in>set (subdirectories extra prefix es). links_below extra d)"
  then show "x \<in> links_below extra (prefix, Dir es)"
  proof
    assume "x \<in> level_links extra prefix es"
    then obtain p g r where "x = prefix @ join ''/'' [p]" "(p, Link g r) \<in> set es" "\<not> is_hidden_part extra p"
      by (auto simp: level_links_def)
    moreover from this have "link_at extra (Dir es) [p]"
      unfolding link_at_cons[OF assms] by (auto simp: link_at_def is_link_def)
    ultimately show ?thesis using links_belowI[of "[p]" extra "(prefix, Dir es)"] by simp
  next
    assume "x \<in> (\<Union>d\<in>set (subdirectories extra prefix es). links_below extra d)"
    then obtain p n q where d: "(p, n) \<in> set es" "\<not> is_hidden_part extra p"
      "x = prefix @ p @ ''/'' @ join ''/'' q" "q \<noteq> []" "link_at extra n q"
      by (auto simp: subdirectories_def links_below_def)
    then have "x = prefix @ join ''/'' (p # q)" "link_at extra (Dir es) (p # q)"
      by (auto simp: join_Cons link_at_cons[OF assms])
    then show ?thesis unfolding links_below_def by auto
  qed
qed

lemma subdirectory_wf:
  assumes "wf_node (Dir es)" and "d \<in> set (subdirectories extra prefix es)"
  shows "wf_node (snd d) \<and> is_dir (Some (snd d))"
  using assms by (auto simp: subdirectories_def list_all_iff)

lemma cache_sound_subdirectory:
  assumes "cache_sound sha sigs previous (prefix, Dir es)" and "distinct (map fst es)"
    and "d \<in> set (subdirectories extra prefix es)"
  shows "cache_sound sha sigs previous d"
proof -
  from assms(3) obtain p n where d: "d = (prefix @ p @ ''/'', n)" "(p, n) \<in> set es"
    by (auto simp: subdirectories_def)
  have l: "lookup (Dir es) (p # q) = lookup n q" for q
    using d(2) assms(2) by simp
  have n: "is_dir (Some n)" using assms(3) d(1) by (auto simp: subdirectories_def)
  show ?thesis
    unfolding cache_sound_def d(1) fst_conv snd_conv
  proof (intro allI impI)
    fix q c m k digest
    assume q: "lookup n q = Some (File c m k)"
      and t: "trusted (map_of previous ((prefix @ p @ ''/'') @ join ''/'' q))
        (sigs ((prefix @ p @ ''/'') @ join ''/'' q)) = Some digest"
    have "q \<noteq> []" using q n by (auto simp: is_dir_def)
    then have e: "(prefix @ p @ ''/'') @ join ''/'' q = prefix @ join ''/'' (p # q)"
      by (simp add: join_Cons)
    from q have "lookup (Dir es) (p # q) = Some (File c m k)" by (simp only: l)
    with assms(1) t show "digest = sha c" unfolding cache_sound_def e fst_conv snd_conv by blast
  qed
qed

text \<open>The loop collects exactly what is below the pending directories.\<close>

lemma visible_loop_sets:
  assumes "\<And>d. d \<in> set pending \<Longrightarrow> wf_node (snd d) \<and> is_dir (Some (snd d)) \<and> cache_sound sha sigs previous d"
    and "visible_loop extra sha sigs clock previous pending (r, ca, li) = (r', ca', li')"
  shows "set r' = set r \<union> (\<Union>d\<in>set pending. below extra sha d)
    \<and> set li' = set li \<union> (\<Union>d\<in>set pending. links_below extra d)
    \<and> cached_digests ca' = cached_digests ca \<union> listed_digests (\<Union>d\<in>set pending. below extra sha d)"
  using assms
proof (induction extra sha sigs clock previous pending "(r, ca, li)" arbitrary: r ca li rule: visible_loop.induct)
  case 1
  then show ?case by (simp add: listed_digests_def)
next
  case (2 extra sha sigs clock previous prefix n pending r ca li)
  from 2(2)[of "(prefix, n)"] obtain es where n: "n = Dir es" and w: "wf_node (Dir es)"
    and cs: "cache_sound sha sigs previous (prefix, Dir es)"
    by (cases n) (auto simp: is_dir_def)
  define ss where "ss = sort_key fst es"
  have d: "distinct (map fst es)" using w by simp
  obtain r1 ca1 li1 where f: "fold (visit_entry extra sha sigs clock previous prefix) ss (r, ca, li) = (r1, ca1, li1)"
    by (metis prod_cases3)
  have sound: "digest = sha c" if "(p, File c m k) \<in> set ss"
    "trusted (map_of previous (prefix @ p)) (sigs (prefix @ p)) = Some digest" for p c m k digest
  proof -
    have "lookup (Dir es) [p] = Some (File c m k)"
      using that(1) lookup_Dir_single[OF d] by (simp add: ss_def)
    with cs that(2) show ?thesis unfolding cache_sound_def by (metis fst_conv join.simps(2) snd_conv)
  qed
  note v = fold_visit[OF sound f]
  have lf: "level_files extra sha prefix ss = level_files extra sha prefix es"
    "level_links extra prefix ss = level_links extra prefix es"
    "set (subdirectories extra prefix ss) = set (subdirectories extra prefix es)"
    by (simp_all add: level_files_def level_links_def subdirectories_def ss_def)
  have sub: "wf_node (snd e) \<and> is_dir (Some (snd e)) \<and> cache_sound sha sigs previous e"
    if "e \<in> set (subdirectories extra prefix ss @ pending)" for e
    using that 2(2)[of e] subdirectory_wf[OF w, of e extra prefix]
      cache_sound_subdirectory[OF cs d, of e extra] lf(3) by auto
  have "visible_loop extra sha sigs clock previous (subdirectories extra prefix ss @ pending) (r1, ca1, li1)
      = (r', ca', li')"
    using 2(3) by (simp add: n Let_def f flip: ss_def)
  from 2(1)[OF _ _ sub this] f have "set r' = set r1 \<union> (\<Union>e\<in>set (subdirectories extra prefix ss @ pending). below extra sha e)
    \<and> set li' = set li1 \<union> (\<Union>e\<in>set (subdirectories extra prefix ss @ pending). links_below extra e)
    \<and> cached_digests ca' = cached_digests ca1
        \<union> listed_digests (\<Union>e\<in>set (subdirectories extra prefix ss @ pending). below extra sha e)"
    by (simp add: n ss_def)
  with v show ?case
    by (simp add: n lf below_Dir[OF d] links_below_Dir[OF d] listed_digests_def image_Un Un_assoc)
qed

text \<open>Paths as texts.\<close>

lemma lookup_valid:
  "wf_node t \<Longrightarrow> lookup t q = Some n \<Longrightarrow> list_all valid_name q"
proof (induction t q rule: lookup.induct)
  case (2 es p ps)
  then obtain c where "map_of es p = Some c" "lookup c ps = Some n" by (auto split: option.splits)
  with 2 wf_child[OF 2(2)] show ?case by auto
qed auto

lemma split_join_valid:
  "q \<noteq> [] \<Longrightarrow> list_all valid_name q \<Longrightarrow> split_on (CHR ''/'') (join ''/'' q) = q"
  by (rule split_on_join) (auto simp: list_all_iff valid_name_def)

definition name_parts :: "string \<Rightarrow> path" where
  "name_parts s = split_on (CHR ''/'') s"

lemma name_parts_join: "q \<noteq> [] \<Longrightarrow> list_all valid_name q \<Longrightarrow> name_parts (join ''/'' q) = q"
  by (simp add: name_parts_def split_join_valid)

lemma map_of_graph:
  assumes "\<And>k v. (k, v) \<in> set xs \<longleftrightarrow> f k = Some v"
  shows "map_of xs k = f k"
proof (cases "map_of xs k")
  case None
  then have "k \<notin> fst ` set xs" by (simp add: map_of_eq_None_iff)
  then have "\<And>v. (k, v) \<notin> set xs" by force
  then show ?thesis using assms None by (cases "f k") auto
next
  case (Some v)
  then show ?thesis using assms map_of_SomeD by metis
qed

text \<open>The uncached listing.\<close>

definition listing_of :: "string list \<Rightarrow> (string \<Rightarrow> string) \<Rightarrow> node \<Rightarrow> listing" where
  "listing_of extra sha t = fst (visible_files extra sha (\<lambda>_. (0, 0, 0, 0, 0)) (\<lambda>_. 0) [] t)"

definition links_of :: "string list \<Rightarrow> (string \<Rightarrow> string) \<Rightarrow> node \<Rightarrow> string list" where
  "links_of extra sha t = snd (snd (visible_files extra sha (\<lambda>_. (0, 0, 0, 0, 0)) (\<lambda>_. 0) [] t))"

lemma visible_files_sets:
  assumes "wf_node t" and "is_dir (Some t)" and "cache_sound sha sigs previous ([], t)"
    and "visible_files extra sha sigs clock previous t = (r, ca, li)"
  shows "set r = below extra sha ([], t)" and "set li = links_below extra ([], t)"
    and "cached_digests ca = listed_digests (below extra sha ([], t))"
  using visible_loop_sets[of "[([], t)]" sha sigs previous extra clock "[]" "[]" "[]" r ca li] assms
  by (simp_all add: visible_files_def cached_digests_def)

lemma below_root_iff:
  assumes "wf_node t"
  shows "(s, v) \<in> below extra sha ([], t) \<longleftrightarrow> visible_at extra sha t (name_parts s) = Some v \<and> is_dir (Some t)"
proof
  assume "(s, v) \<in> below extra sha ([], t)"
  then obtain q where q: "q \<noteq> []" "s = join ''/'' q" "visible_at extra sha t q = Some v"
    by (auto simp: below_def)
  then obtain n where "lookup t q = Some n" by (auto simp: visible_at_def split: if_splits option.splits)
  moreover from this q(1) have "is_dir (Some t)" by (cases t; cases q) (auto simp: is_dir_def)
  ultimately show "visible_at extra sha t (name_parts s) = Some v \<and> is_dir (Some t)"
    using q lookup_valid[OF assms] by (simp add: name_parts_join)
next
  assume a: "visible_at extra sha t (name_parts s) = Some v \<and> is_dir (Some t)"
  have "join ''/'' (name_parts s) = s" "name_parts s \<noteq> []" by (simp_all add: name_parts_def)
  with a belowI[of "name_parts s" extra sha "([], t)" v] show "(s, v) \<in> below extra sha ([], t)" by simp
qed

lemma visible_files_map_of:
  assumes "wf_node t" and "is_dir (Some t)" and "cache_sound sha sigs previous ([], t)"
    and "visible_files extra sha sigs clock previous t = (r, ca, li)"
  shows "map_of r s = visible_at extra sha t (name_parts s)"
  using visible_files_sets(1)[OF assms] below_root_iff[OF assms(1)] assms(2)
  by (intro map_of_graph) simp

lemma empty_cache_sound: "cache_sound sha sigs [] d"
  by (simp add: cache_sound_def trusted_def)

lemma map_of_listing:
  assumes "wf_node t" and "is_dir (Some t)"
  shows "map_of (listing_of extra sha t) s = visible_at extra sha t (name_parts s)"
  using visible_files_map_of[OF assms empty_cache_sound, where extra = extra]
  unfolding listing_of_def by (metis prod.collapse)

lemma set_listing:
  assumes "wf_node t" and "is_dir (Some t)"
  shows "(s, v) \<in> set (listing_of extra sha t) \<longleftrightarrow> visible_at extra sha t (name_parts s) = Some v"
  using visible_files_sets(1)[OF assms empty_cache_sound] below_root_iff[OF assms(1)] assms(2)
  unfolding listing_of_def by (metis prod.collapse)

lemma links_below_root_iff:
  assumes "wf_node t"
  shows "s \<in> links_below extra ([], t) \<longleftrightarrow> link_at extra t (name_parts s)"
proof
  assume "s \<in> links_below extra ([], t)"
  then obtain q where q: "q \<noteq> []" "s = join ''/'' q" "link_at extra t q" by (auto simp: links_below_def)
  then obtain n where "lookup t q = Some n" by (auto simp: link_at_def is_link_def split: option.splits)
  with q lookup_valid[OF assms] show "link_at extra t (name_parts s)" by (simp add: name_parts_join)
next
  assume a: "link_at extra t (name_parts s)"
  have "join ''/'' (name_parts s) = s" "name_parts s \<noteq> []" by (simp_all add: name_parts_def)
  with a links_belowI[of "name_parts s" extra "([], t)"] show "s \<in> links_below extra ([], t)" by simp
qed

lemma set_links:
  assumes "wf_node t" and "is_dir (Some t)"
  shows "s \<in> set (links_of extra sha t) \<longleftrightarrow> link_at extra t (name_parts s)"
proof -
  have "set (links_of extra sha t) = links_below extra ([], t)"
    using visible_files_sets(2)[OF assms empty_cache_sound]
    unfolding links_of_def by (metis prod.collapse)
  then show ?thesis using links_below_root_iff[OF assms(1)] by simp
qed

section \<open>The tree as a function of the path\<close>

text \<open>What is at a path, without the contents of directories; \<open>under p q\<close> holds when \<open>q\<close> is \<open>p\<close> or
  below it.\<close>

definition shape :: "node \<Rightarrow> path \<Rightarrow> node option" where
  "shape t q = map_option (\<lambda>n. case n of Dir _ \<Rightarrow> Dir [] | _ \<Rightarrow> n) (lookup t q)"

definition under :: "path \<Rightarrow> path \<Rightarrow> bool" where
  "under p q \<longleftrightarrow> take (length p) q = p"

lemma under_iff: "under p q \<longleftrightarrow> (\<exists>r. q = p @ r)"
  unfolding under_def by (metis append_eq_conv_conj append_take_drop_id)

lemma under_simps [simp]:
  "under [] q" "under p p" "under (a # p) q \<longleftrightarrow> (\<exists>r. q = a # r \<and> under p r)"
  "under p [] \<longleftrightarrow> p = []"
  by (auto simp: under_iff)

lemma shape_simps [simp]:
  "shape t [] = Some (case t of Dir _ \<Rightarrow> Dir [] | _ \<Rightarrow> t)"
  "shape (Dir es) (p # q) = (case map_of es p of None \<Rightarrow> None | Some c \<Rightarrow> shape c q)"
  "shape (File c m k) (p # q) = None" "shape (Link g r) (p # q) = None" "shape Special (p # q) = None"
  by (auto simp: shape_def split: option.splits)

lemma shape_below_leaf: "\<not> is_dir (Some n) \<Longrightarrow> q \<noteq> [] \<Longrightarrow> shape n q = None"
  by (cases n; cases q) (auto simp: shape_def is_dir_def)

lemma shape_empty_dir [simp]: "shape (Dir []) q = (if q = [] then Some (Dir []) else None)"
  by (cases q) simp_all

lemma is_dir_shape: "is_dir (lookup t q) \<longleftrightarrow> shape t q = Some (Dir [])"
  by (cases "lookup t q") (auto simp: shape_def is_dir_def split: node.splits)

lemma shape_leaf_iff:
  "shape t q = Some (File c m k) \<longleftrightarrow> lookup t q = Some (File c m k)"
  "shape t q = Some (Link g r) \<longleftrightarrow> lookup t q = Some (Link g r)"
  "shape t q = None \<longleftrightarrow> lookup t q = None"
  by (cases "lookup t q"; cases "the (lookup t q)"; simp add: shape_def)+

lemma visible_at_shape:
  "visible_at extra sha t q =
    (if list_all (\<lambda>p. \<not> is_hidden_part extra p) q
     then (case shape t q of Some (File c m k) \<Rightarrow> Some (sha c, int (length c), m) | _ \<Rightarrow> None) else None)"
  by (auto simp: visible_at_def shape_def split: option.splits node.splits)

lemma link_at_shape:
  "link_at extra t q \<longleftrightarrow> list_all (\<lambda>p. \<not> is_hidden_part extra p) q \<and> is_link (shape t q)"
  by (auto simp: link_at_def is_link_def shape_def split: option.splits node.splits)

lemma shape_put:
  assumes "p \<noteq> []" and "is_dir (lookup t (butlast p))" and "\<not> is_dir (Some n)"
  shows "shape (put p n t) q = (if q = p then Some n else if under p q then None else shape t q)"
  using assms
proof (induction p n t arbitrary: q rule: put.induct)
  case (2 p ps n es)
  let ?c = "case map_of es p of None \<Rightarrow> Dir [] | Some c \<Rightarrow> c"
  have leaf: "shape n [] = Some n" using 2(4) by (cases n) (auto simp: is_dir_def)
  show ?case
  proof (cases ps)
    case Nil
    then show ?thesis
      using leaf shape_below_leaf[OF 2(4)] by (cases q) (auto simp: map_of_update)
  next
    case (Cons a as)
    with 2(3) obtain c where c: "map_of es p = Some c" "is_dir (lookup c (butlast ps))"
      by (auto simp: is_dir_def split: option.splits)
    have "shape (put ps n ?c) r = (if r = ps then Some n else if under ps r then None else shape ?c r)" for r
      by (rule 2(1)) (use c Cons 2(4) in auto)
    with c show ?thesis by (cases q) (auto simp: map_of_update)
  qed
qed (auto simp: is_dir_def split: if_splits option.splits node.splits)

lemma shape_remove:
  assumes "p \<noteq> []"
  shows "shape (remove_at p t) q = (if under p q then None else shape t q)"
  using assms
proof (induction p t arbitrary: q rule: remove_at.induct)
  case (2 p es)
  then show ?case by (cases q) (auto simp: delete_conv')
next
  case (3 p a ps es)
  show ?case
  proof (cases "map_of es p")
    case None
    then show ?thesis by (cases q) auto
  next
    case (Some c)
    have "shape (remove_at (a # ps) c) r = (if under (a # ps) r then None else shape c r)" for r
      using 3 Some by simp
    with Some show ?thesis by (cases q) (auto simp: map_of_update)
  qed
qed auto

lemma shape_make_dirs:
  assumes "make_dirs p t = Inr t'"
  shows "shape t' q = (if under q p then Some (Dir []) else shape t q)"
  using assms
proof (induction p t arbitrary: t' q rule: make_dirs.induct)
  case (1 es)
  then show ?case by (cases q) auto
next
  case (3 p ps es)
  let ?c = "case map_of es p of None \<Rightarrow> Dir [] | Some c \<Rightarrow> c"
  from 3(2) obtain c' where c': "make_dirs ps ?c = Inr c'" "t' = Dir (AList.update p c' es)" by auto
  have "shape c' r = (if under r ps then Some (Dir []) else shape ?c r)" for r
    by (rule 3(1)[OF c'(1)])
  then show ?case
    using c'(2) by (cases q) (auto simp: map_of_update split: option.splits if_splits)
qed auto

text \<open>Above anything that is there, there are directories.\<close>

lemma shape_above: "shape t (p @ r) \<noteq> None \<Longrightarrow> r \<noteq> [] \<Longrightarrow> shape t p = Some (Dir [])"
proof (induction p arbitrary: t)
  case Nil
  then show ?case by (cases t) (auto simp: shape_below_leaf is_dir_def)
next
  case (Cons a p)
  show ?case
  proof (cases t)
    case (Dir es)
    with Cons show ?thesis by (auto split: option.splits)
  qed (use Cons.prems in \<open>auto simp: shape_below_leaf is_dir_def\<close>)
qed

lemma wf_remove: "wf_node t \<Longrightarrow> wf_node (remove_at p t)"
proof (induction p t rule: remove_at.induct)
  case (2 p es)
  have "set (AList.delete p es) \<subseteq> set es" by (auto simp: AList.delete_eq)
  with 2 show ?case by (auto simp: list_all_iff distinct_delete)
next
  case (3 p q ps es)
  then show ?case
    using wf_child[of es p] wf_update[of es _ p] by (auto split: option.splits)
qed auto

lemma wf_make_dirs:
  "make_dirs p t = Inr t' \<Longrightarrow> wf_node t \<Longrightarrow> list_all valid_name p \<Longrightarrow> wf_node t'"
proof (induction p t arbitrary: t' rule: make_dirs.induct)
  case (3 p ps es)
  let ?c = "case map_of es p of None \<Rightarrow> Dir [] | Some c \<Rightarrow> c"
  from 3(2) obtain c' where c': "make_dirs ps ?c = Inr c'" "t' = Dir (AList.update p c' es)" by auto
  have "wf_node ?c" using 3(3) wf_child[of es p] by (auto split: option.splits)
  then have "wf_node c'" using 3(1)[OF c'(1)] 3(4) by simp
  with wf_update[OF 3(3), of c' p] 3(4) c'(2) show ?case by simp
qed auto

section \<open>Properties\<close>

text \<open>Claim C37. The digest cache of the walk is transparent: as long as a trusted entry has the digest of
  the file that is there, the listing maps exactly the regular files none of whose path segments is
  hidden to their digest, size and permission bits; the links that are reported apart are exactly those at a path
  none of whose segments is hidden and above which there are only directories, so none was followed;
  and every digest that the walk hands to the next one is the digest of its file.\<close>

theorem visible_files_exact:
  assumes "wf_node t" and "is_dir (Some t)" and "cache_sound sha sigs previous ([], t)"
    and "visible_files extra sha sigs clock previous t = (r, ca, li)"
  shows "(\<forall>s. map_of r s = visible_at extra sha t (name_parts s))
     \<and> set r = set (listing_of extra sha t)
     \<and> (\<forall>s. s \<in> set li \<longleftrightarrow> link_at extra t (name_parts s))
     \<and> (\<forall>s c m k. lookup t (name_parts s) = Some (File c m k) \<longrightarrow>
          (\<forall>sig digest ob. (s, (sig, digest, ob)) \<in> set ca \<longrightarrow> digest = sha c))"
proof (intro conjI)
  show "\<forall>s. map_of r s = visible_at extra sha t (name_parts s)"
    using visible_files_map_of[OF assms] by blast
  show "set r = set (listing_of extra sha t)"
    using visible_files_sets(1)[OF assms] visible_files_sets(1)[OF assms(1,2) empty_cache_sound]
    unfolding listing_of_def by (metis prod.collapse)
  show "\<forall>s. s \<in> set li \<longleftrightarrow> link_at extra t (name_parts s)"
    using visible_files_sets(2)[OF assms] links_below_root_iff[OF assms(1)] by blast
  show "\<forall>s c m k. lookup t (name_parts s) = Some (File c m k) \<longrightarrow>
          (\<forall>sig digest ob. (s, (sig, digest, ob)) \<in> set ca \<longrightarrow> digest = sha c)"
  proof (intro allI impI)
    fix s c m k sig digest ob
    assume l: "lookup t (name_parts s) = Some (File c m k)" and "(s, (sig, digest, ob)) \<in> set ca"
    then have "(s, digest) \<in> cached_digests ca" unfolding cached_digests_def by force
    then obtain sz md where "(s, (digest, sz, md)) \<in> below extra sha ([], t)"
      using visible_files_sets(3)[OF assms] by (auto simp: listed_digests_def)
    with l below_root_iff[OF assms(1)] show "digest = sha c"
      by (auto simp: visible_at_def split: if_splits)
  qed
qed

definition sample_tree :: node where
  "sample_tree = Dir [(''b'', Dir [(''c.py'', File ''yy'' 0x1A4 1), (''link'', Link ''/etc'' None)]),
     (''.env'', File ''SECRET'' 0x1A4 1), (''a'', File ''x'' 0x1ED 1)]"

definition sample_signature :: "string \<Rightarrow> signature" where
  "sample_signature s = (1, int (length s), 1, 5, 7)"

definition sample_cache :: hash_cache where
  "sample_cache = [(''a'', (sample_signature ''a'', ''x'', 900000000)),
     (''b/c.py'', (sample_signature ''b/c.py'', ''stale'', 8))]"

lemma sample_tree_wf: "wf_node sample_tree" "is_dir (Some sample_tree)"
  by code_simp+

lemma sample_cache_sound: "cache_sound (\<lambda>c. c) sample_signature sample_cache ([], sample_tree)"
  unfolding cache_sound_def fst_conv snd_conv append_Nil
proof (intro allI impI)
  fix q c m k digest
  assume l: "lookup sample_tree q = Some (File c m k)"
    and t: "trusted (map_of sample_cache (join ''/'' q)) (sample_signature (join ''/'' q)) = Some digest"
  have "join ''/'' q \<in> {''a'', ''b/c.py''}"
    using trusted_digest[OF t] by (auto simp: sample_cache_def split: if_splits)
  moreover have "trusted (map_of sample_cache ''b/c.py'') (sample_signature ''b/c.py'') = None"
    by (simp add: sample_cache_def trusted_def sample_signature_def RACY_WINDOW_NS_def)
  moreover have "trusted (map_of sample_cache ''a'') (sample_signature ''a'') = Some ''x''"
    by (simp add: sample_cache_def trusted_def sample_signature_def RACY_WINDOW_NS_def)
  ultimately have j: "join ''/'' q = ''a''" and d: "digest = ''x''" using t by auto
  have "q \<noteq> []" using j by auto
  then have "q = name_parts ''a''"
    using lookup_valid[OF sample_tree_wf(1) l] name_parts_join[of q] j by simp
  then show "digest = c" using l d by (simp add: name_parts_def sample_tree_def)
qed

theorem visible_files_exact_witness:
  "\<exists>r ca li. visible_files [] (\<lambda>c. c) sample_signature (\<lambda>_. 9) sample_cache sample_tree = (r, ca, li)
     \<and> map_of r ''a'' = Some (''x'', 1, 0x1ED) \<and> map_of r ''b/c.py'' = Some (''yy'', 2, 0x1A4)
     \<and> map_of r ''.env'' = None \<and> set li = {''b/link''}"
proof -
  obtain r ca li where v: "visible_files [] (\<lambda>c. c) sample_signature (\<lambda>_. 9) sample_cache sample_tree = (r, ca, li)"
    by (metis prod_cases3)
  note e = visible_files_exact[OF sample_tree_wf sample_cache_sound v]
  have "visible_at [] (\<lambda>c. c) sample_tree (name_parts ''a'') = Some (''x'', 1, 0x1ED)"
    "visible_at [] (\<lambda>c. c) sample_tree (name_parts ''b/c.py'') = Some (''yy'', 2, 0x1A4)"
    "visible_at [] (\<lambda>c. c) sample_tree (name_parts ''.env'') = None"
    "set (links_of [] (\<lambda>c. c) sample_tree) = {''b/link''}"
    by code_simp+
  moreover have "set li = set (links_of [] (\<lambda>c. c) sample_tree)" using e set_links[OF sample_tree_wf] by blast
  ultimately show ?thesis using e v by auto
qed

end
