(* ===== verification/Staging.thy ===== *)
theory Staging
  imports FileTree Tools Exec_Config
begin

text \<open>
  The staging area (\<open>executor/staging.py\<close>): the publication baseline, seeding from the read-only
  source, the changes since the baseline, their split into publication batches, and the advance of
  the baseline after a publication.  Dictionaries are association lists.
\<close>

section \<open>Data\<close>

record baseline_snapshot =
  snapshot_id :: string
  hashes :: "(string \<times> string) list"
  total_bytes :: int
  sizes :: "(string \<times> int) list"
  modes :: "(string \<times> int) list"
  source_signatures :: "(string \<times> (int \<times> int)) list"

record workspace_change =
  ch_path :: string
  ch_operation :: op_kind
  ch_base_sha256 :: "string option"
  ch_staged_sha256 :: "string option"
  ch_base_size :: "int option"
  ch_staged_size :: "int option"
  ch_base_mode :: "int option"
  ch_staged_mode :: "int option"

definition mode_changed :: "workspace_change \<Rightarrow> bool" where
  "mode_changed c \<longleftrightarrow> ch_base_mode c \<noteq> ch_staged_mode c"

definition permission_changed :: "workspace_change \<Rightarrow> bool" where
  "permission_changed c \<longleftrightarrow> ch_operation c = Update \<and> mode_changed c"

section \<open>Changes since the baseline\<close>

text \<open>The loop body of \<open>workspace_changes\<close> for one path.\<close>

definition change_at :: "baseline_snapshot \<Rightarrow> listing \<Rightarrow> string \<Rightarrow> workspace_change option" where
  "change_at snap current relative =
     (let base_hash = map_of (hashes snap) relative;
          base_m = map_of (modes snap) relative;
          staged = map_of current relative;
          staged_hash = map_option fst staged;
          staged_size = map_option (fst \<circ> snd) staged;
          staged_m = map_option (snd \<circ> snd) staged
      in if staged_hash = base_hash \<and> base_m = staged_m then None
         else Some \<lparr>ch_path = relative,
           ch_operation = (if staged_hash = None then Delete else if base_hash = None then Create else Update),
           ch_base_sha256 = base_hash, ch_staged_sha256 = staged_hash,
           ch_base_size = map_of (sizes snap) relative, ch_staged_size = staged_size,
           ch_base_mode = base_m, ch_staged_mode = staged_m\<rparr>)"

definition workspace_changes :: "baseline_snapshot \<Rightarrow> listing \<Rightarrow> workspace_change list" where
  "workspace_changes snap current =
     List.map_filter (change_at snap current) (sort_paths (map fst (hashes snap) @ map fst current))"

section \<open>Publication batches\<close>

definition batch_item_size :: "workspace_change \<Rightarrow> int" where
  "batch_item_size c =
     (if ch_operation c = Delete then 0 else case ch_staged_size c of None \<Rightarrow> 0 | Some n \<Rightarrow> n)"

text \<open>The loop of \<open>publication_batches\<close>: the finished batches, the current one and its size.\<close>

fun batch_loop :: "workspace_change list \<Rightarrow> workspace_change list list \<Rightarrow> workspace_change list \<Rightarrow> int \<Rightarrow>
    exn + workspace_change list list" where
  "batch_loop [] batches current used = Inr (if current \<noteq> [] then batches @ [current] else batches)"
| "batch_loop (c # cs) batches current used =
     (let item_size = batch_item_size c
      in if item_size > int PUBLISH_BATCH_MAX_BYTES then Inl (ToolError LIMIT_EXCEEDED)
         else if current \<noteq> [] \<and> (length current \<ge> PUBLISH_BATCH_MAX_OPERATIONS
                 \<or> used + item_size > int PUBLISH_BATCH_MAX_BYTES)
         then batch_loop cs (batches @ [current]) [c] item_size
         else batch_loop cs batches (current @ [c]) (used + item_size))"

definition publication_batches :: "workspace_change list \<Rightarrow> exn + workspace_change list list" where
  "publication_batches changes = batch_loop changes [] [] 0"

section \<open>Advancing the baseline\<close>

text \<open>One published operation against the current listing; a mismatch is a runtime error.\<close>

definition advance_one ::
  "listing \<Rightarrow> publish_operation \<Rightarrow> (string \<times> string) list \<times> (string \<times> int) list \<times> (string \<times> int) list \<Rightarrow>
   exn + (string \<times> string) list \<times> (string \<times> int) list \<times> (string \<times> int) list" where
  "advance_one current p tables =
     (case tables of (hs, ss, ms) \<Rightarrow>
       let value = map_of current (op_path p)
       in if op_kind p = Delete then
            (if value \<noteq> None then Inl OtherErr
             else Inr (AList.delete (op_path p) hs, AList.delete (op_path p) ss, AList.delete (op_path p) ms))
          else (case value of
            Some (h, s, m) \<Rightarrow>
              if Some h = staged_sha256 p \<and> (staged_mode p = None \<or> staged_mode p = Some m)
              then Inr (AList.update (op_path p) h hs, AList.update (op_path p) s ss, AList.update (op_path p) m ms)
              else Inl OtherErr
          | None \<Rightarrow> Inl OtherErr))"

definition advance_published_staging ::
  "string \<Rightarrow> listing \<Rightarrow> baseline_snapshot \<Rightarrow> publish_operation list \<Rightarrow> exn + baseline_snapshot" where
  "advance_published_staging fresh_id current snap ops =
     rbind (fold_res (advance_one current) ops (hashes snap, sizes snap, modes snap)) (\<lambda>(hs, ss, ms).
       Inr \<lparr>snapshot_id = fresh_id, hashes = hs, total_bytes = sum_list (map snd ss), sizes = ss, modes = ms,
         source_signatures = source_signatures snap\<rparr>)"

section \<open>Refreshing a recent listing\<close>

text \<open>\<open>lstat\<close> follows links in the directory part; \<open>behind\<close> is what it then finds.\<close>

fun lstat :: "(path \<Rightarrow> exn + node) \<Rightarrow> path \<Rightarrow> node \<Rightarrow> path \<Rightarrow> exn + node" where
  "lstat behind done t [] = Inr t"
| "lstat behind done (Dir es) (p # ps) =
     (case map_of es p of None \<Rightarrow> Inl FileNotFound | Some c \<Rightarrow> lstat behind (done @ [p]) c ps)"
| "lstat behind done (Link g r) (p # ps) = behind (done @ p # ps)"
| "lstat behind done t (p # ps) = Inl NotADirectory"

definition refresh_one ::
  "string list \<Rightarrow> (string \<Rightarrow> string) \<Rightarrow> (path \<Rightarrow> exn + node) \<Rightarrow> node \<Rightarrow> string \<Rightarrow>
   listing \<times> string list \<Rightarrow> exn + listing \<times> string list" where
  "refresh_one extra sha behind t relative st =
     (case st of (current, links0) \<Rightarrow>
       let links = filter (\<lambda>l. l \<noteq> relative) links0
       in if list_ex (is_hidden_part extra) (split_on (CHR ''/'') relative)
          then Inr (AList.delete relative current, links)
          else (case lstat behind [] t (name_parts relative) of
             Inl e \<Rightarrow> if e = FileNotFound then Inr (AList.delete relative current, links) else Inl e
           | Inr (Link g r) \<Rightarrow> Inr (AList.delete relative current, links @ [relative])
           | Inr (File c m k) \<Rightarrow> Inr (AList.update relative (sha c, int (length c), m) current, links)
           | Inr _ \<Rightarrow> Inr (AList.delete relative current, links)))"

definition refresh_visible_files ::
  "string list \<Rightarrow> (string \<Rightarrow> string) \<Rightarrow> (path \<Rightarrow> exn + node) \<Rightarrow> node \<Rightarrow> listing \<Rightarrow> string list \<Rightarrow> string list \<Rightarrow>
   exn + listing \<times> string list" where
  "refresh_visible_files extra sha behind t base_list links paths =
     fold_res (refresh_one extra sha behind t) paths (base_list, links)"

section \<open>Seeding\<close>

record seed_state =
  seed_files :: int
  seed_total :: int
  seed_snapshot :: baseline_snapshot
  seed_paths :: "string list"
  seed_work :: node

definition seed_start :: seed_state where
  "seed_start = \<lparr>seed_files = 0, seed_total = 0,
     seed_snapshot = \<lparr>snapshot_id = [], hashes = [], total_bytes = 0, sizes = [], modes = [],
       source_signatures = []\<rparr>, seed_paths = [], seed_work = Dir []\<rparr>"

text \<open>\<open>os.walk\<close> lists a link to a directory among the directories.\<close>

definition walks_as_dir :: "node \<Rightarrow> bool" where
  "walks_as_dir n = (case n of Dir _ \<Rightarrow> True | Link _ (Some (d, _)) \<Rightarrow> d | _ \<Rightarrow> False)"

definition seed_skipped :: "string list \<Rightarrow> string \<Rightarrow> bool" where
  "seed_skipped extra relative \<longleftrightarrow> is_secret_path extra relative \<or> is_staging_excluded relative"

definition seed_directory ::
  "string list \<Rightarrow> string \<Rightarrow> string \<times> node \<Rightarrow> (string \<times> node) list \<times> seed_state \<Rightarrow>
   exn + (string \<times> node) list \<times> seed_state" where
  "seed_directory extra prefix e acc =
     (case acc of (retained, st) \<Rightarrow>
       let relative = prefix @ fst e
       in if is_link (Some (snd e)) then Inl UnsafePath
          else if seed_skipped extra relative then Inr (retained, st)
          else rbind (make_dirs (name_parts relative) (seed_work st)) (\<lambda>w.
            Inr (retained @ [(relative @ ''/'', snd e)],
              st\<lparr>seed_paths := seed_paths st @ [relative], seed_work := w\<rparr>)))"

definition record_seeded ::
  "(string \<Rightarrow> string) \<Rightarrow> (string \<Rightarrow> int) \<Rightarrow> string \<Rightarrow> string \<Rightarrow> int \<Rightarrow> baseline_snapshot \<Rightarrow> baseline_snapshot" where
  "record_seeded sha mtimes relative c m snap =
     snap\<lparr>hashes := AList.update relative (sha c) (hashes snap),
          sizes := AList.update relative (int (length c)) (sizes snap),
          modes := AList.update relative m (modes snap),
          source_signatures := AList.update relative (int (length c), mtimes relative) (source_signatures snap)\<rparr>"

definition seed_file ::
  "string list \<Rightarrow> (string \<Rightarrow> string) \<Rightarrow> (string \<Rightarrow> int) \<Rightarrow> executor_config \<Rightarrow> string \<Rightarrow> string \<times> node \<Rightarrow>
   seed_state \<Rightarrow> exn + seed_state" where
  "seed_file extra sha mtimes cfg prefix e st =
     (let relative = prefix @ fst e
      in if seed_skipped extra relative then Inr st
         else (case snd e of
             File c m k \<Rightarrow>
               if k > 1 then Inl UnsafePath
               else (let total = seed_total st + int (length c); files = seed_files st + 1
                 in if files > limits cfg max_staged_files \<or> total > limits cfg max_staging_bytes
                    then Inl OtherErr
                    else Inr (st\<lparr>seed_files := files, seed_total := total,
                      seed_snapshot := record_seeded sha mtimes relative c m (seed_snapshot st),
                      seed_paths := seed_paths st @ [relative],
                      seed_work := put (name_parts relative) (File c m 1) (seed_work st)\<rparr>))
           | _ \<Rightarrow> Inl UnsafePath))"

definition seed_level ::
  "string list \<Rightarrow> (string \<Rightarrow> string) \<Rightarrow> (string \<Rightarrow> int) \<Rightarrow> executor_config \<Rightarrow> string \<Rightarrow> (string \<times> node) list \<Rightarrow>
   seed_state \<Rightarrow> exn + (string \<times> node) list \<times> seed_state" where
  "seed_level extra sha mtimes cfg prefix es st =
     rbind (fold_res (seed_directory extra prefix)
              (sort_key fst (filter (\<lambda>e. walks_as_dir (snd e)) es)) ([], st)) (\<lambda>(retained, st1).
     rbind (fold_res (seed_file extra sha mtimes cfg prefix)
              (sort_key fst (filter (\<lambda>e. \<not> walks_as_dir (snd e)) es)) st1) (\<lambda>st2.
       Inr (retained, st2)))"

lemma seed_directories:
  assumes "fold_res (seed_directory extra prefix) xs (r, st) = Inr (r', st')"
  shows "r' = r @ map (\<lambda>e. (prefix @ fst e @ ''/'', snd e)) (filter (\<lambda>e. \<not> seed_skipped extra (prefix @ fst e)) xs)
    \<and> list_all (\<lambda>e. \<not> is_link (Some (snd e))) xs"
  using assms
proof (induction xs arbitrary: r st)
  case (Cons e xs)
  from Cons.prems obtain r1 st1 where s: "seed_directory extra prefix e (r, st) = Inr (r1, st1)"
    "fold_res (seed_directory extra prefix) xs (r1, st1) = Inr (r', st')" by auto
  have "r1 = r @ (if seed_skipped extra (prefix @ fst e) then [] else [(prefix @ fst e @ ''/'', snd e)])"
    "\<not> is_link (Some (snd e))"
    using s(1) by (auto simp: seed_directory_def Let_def split: if_splits)
  with Cons.IH[OF s(2)] show ?case by auto
qed simp

lemma stack_size_sublist:
  "stack_size (map (\<lambda>e. (f e, snd e)) (filter P (sort_key fst (filter Q es)))) < size (Dir es)"
proof -
  let ?f = "\<lambda>e :: string \<times> node. Suc (size (snd e))"
  have le: "stack_size (map (\<lambda>e. (f e, snd e)) (filter P xs)) \<le> sum_list (map ?f xs)" for xs
    by (induction xs) (auto simp: stack_size_def)
  have "mset (map ?f (sort_key fst (filter Q es))) = mset (map ?f (filter Q es))"
    by (simp only: mset_map mset_sort)
  then have "sum_list (map ?f (sort_key fst (filter Q es))) = sum_list (map ?f (filter Q es))"
    by (simp only: sum_mset_sum_list[symmetric])
  moreover have "sum_list (map ?f (filter Q es)) \<le> sum_list (map ?f es)" by (induction es) auto
  moreover have "sum_list (map ?f es) \<le> size_list (size_prod (\<lambda>_. 0) size) es" by (induction es) auto
  ultimately show ?thesis using le[of "sort_key fst (filter Q es)"] by simp
qed

lemma seed_level_smaller:
  assumes "seed_level extra sha mtimes cfg prefix es st = Inr (retained, st')"
  shows "stack_size retained < size (Dir es)"
proof -
  from assms obtain st1 where "fold_res (seed_directory extra prefix)
      (sort_key fst (filter (\<lambda>e. walks_as_dir (snd e)) es)) ([], st) = Inr (retained, st1)"
    by (auto simp: seed_level_def)
  from seed_directories[OF this] stack_size_sublist[of "\<lambda>e. prefix @ fst e @ ''/''"]
  show ?thesis by simp
qed

text \<open>The walk: the pending directories, the next one first.\<close>

function seed_loop ::
  "string list \<Rightarrow> (string \<Rightarrow> string) \<Rightarrow> (string \<Rightarrow> int) \<Rightarrow> executor_config \<Rightarrow> (string \<times> node) list \<Rightarrow>
   seed_state \<Rightarrow> exn + seed_state" where
  "seed_loop extra sha mtimes cfg [] st = Inr st"
| "seed_loop extra sha mtimes cfg ((prefix, n) # pending) st =
     (case seed_level extra sha mtimes cfg prefix (case n of Dir es \<Rightarrow> es | _ \<Rightarrow> []) st of
        Inl e \<Rightarrow> Inl e
      | Inr (retained, st') \<Rightarrow> seed_loop extra sha mtimes cfg (retained @ pending) st')"
  by pat_completeness auto
termination
proof (relation "measure (\<lambda>(extra, sha, mtimes, cfg, pending, st). stack_size pending)", goal_cases)
  case (2 extra sha mtimes cfg prefix n pending st r retained st')
  then have "seed_level extra sha mtimes cfg prefix (case n of Dir es \<Rightarrow> es | _ \<Rightarrow> []) st = Inr (retained, st')"
    by simp
  from seed_level_smaller[OF this] have "stack_size retained < Suc (size n)"
    by (cases n) auto
  then show ?case by (simp add: stack_size_def)
qed simp

text \<open>\<open>seed_staging\<close> of an empty volume: the snapshot and the staged tree.\<close>

definition seed_staging ::
  "(string \<Rightarrow> string) \<Rightarrow> string list \<Rightarrow> (string \<Rightarrow> string) \<Rightarrow> (string \<Rightarrow> int) \<Rightarrow> executor_config \<Rightarrow> int \<Rightarrow> string \<Rightarrow>
   node \<Rightarrow> node \<Rightarrow> exn + baseline_snapshot \<times> node" where
  "seed_staging nfc extra sha mtimes cfg free fresh_id source work =
     rbind (validate_storage_capacity cfg free) (\<lambda>_.
     rbind (ensure (entries work = []) OtherErr) (\<lambda>_.
     rbind (seed_loop extra sha mtimes cfg [([], source)] seed_start) (\<lambda>st.
     rbind (assert_unique_paths nfc extra (seed_paths st)) (\<lambda>_.
       Inr ((seed_snapshot st)\<lparr>snapshot_id := fresh_id, total_bytes := seed_total st\<rparr>, seed_work st)))))"

section \<open>Lemmas\<close>

definition snapshot_ok :: "baseline_snapshot \<Rightarrow> bool" where
  "snapshot_ok s \<longleftrightarrow> dom (map_of (hashes s)) = dom (map_of (modes s)) \<and> dom (map_of (hashes s)) = dom (map_of (sizes s))"

text \<open>What the baseline and the staging area say of a path: digest and permission bits.\<close>

definition base_view :: "baseline_snapshot \<Rightarrow> string \<Rightarrow> (string \<times> int) option" where
  "base_view s q = (case map_of (hashes s) q of None \<Rightarrow> None
     | Some h \<Rightarrow> map_option (\<lambda>m. (h, m)) (map_of (modes s) q))"

definition staged_view :: "listing \<Rightarrow> string \<Rightarrow> (string \<times> int) option" where
  "staged_view cur q = map_option (\<lambda>(h, n, m). (h, m)) (map_of cur q)"

lemma change_at_None:
  assumes "snapshot_ok s"
  shows "change_at s cur q = None \<longleftrightarrow> base_view s q = staged_view cur q"
proof -
  have "(map_of (hashes s) q = None) = (map_of (modes s) q = None)"
    using assms unfolding snapshot_ok_def by (metis domIff)
  then show ?thesis
    by (cases "map_of (hashes s) q"; cases "map_of (modes s) q"; cases "map_of cur q")
      (auto simp: change_at_def base_view_def staged_view_def Let_def)
qed

lemma change_at_path: "change_at s cur q = Some c \<Longrightarrow> ch_path c = q"
  by (auto simp: change_at_def Let_def split: if_splits)

lemma change_at_domain:
  assumes "snapshot_ok s" and "change_at s cur q \<noteq> None"
  shows "q \<in> set (map fst (hashes s) @ map fst cur)"
proof (rule ccontr)
  assume "q \<notin> set (map fst (hashes s) @ map fst cur)"
  then have "map_of (hashes s) q = None" "map_of cur q = None" by (simp_all add: map_of_eq_None_iff)
  with assms show False by (simp add: change_at_None base_view_def staged_view_def)
qed

lemma set_workspace_changes:
  assumes "snapshot_ok s"
  shows "c \<in> set (workspace_changes s cur) \<longleftrightarrow> change_at s cur (ch_path c) = Some c"
proof
  assume "c \<in> set (workspace_changes s cur)"
  then obtain q where "change_at s cur q = Some c" by (auto simp: workspace_changes_def List.map_filter_def)
  then show "change_at s cur (ch_path c) = Some c" using change_at_path by simp
next
  assume c: "change_at s cur (ch_path c) = Some c"
  with change_at_domain[OF assms, of cur "ch_path c"] show "c \<in> set (workspace_changes s cur)"
    by (force simp: workspace_changes_def List.map_filter_def)
qed

lemma map_path_changes:
  "map ch_path (workspace_changes s cur) =
    filter (\<lambda>q. change_at s cur q \<noteq> None) (sort_paths (map fst (hashes s) @ map fst cur))"
proof -
  have "map ch_path (List.map_filter (change_at s cur) qs) = filter (\<lambda>q. change_at s cur q \<noteq> None) qs" for qs
    by (induction qs) (auto simp: List.map_filter_simps change_at_path split: option.splits)
  then show ?thesis by (simp add: workspace_changes_def)
qed

lemma changed_paths:
  assumes "snapshot_ok s"
  shows "ch_path ` set (workspace_changes s cur) = {q. change_at s cur q \<noteq> None}"
proof (intro set_eqI iffI)
  fix q assume "q \<in> ch_path ` set (workspace_changes s cur)"
  then show "q \<in> {q. change_at s cur q \<noteq> None}" using set_workspace_changes[OF assms] by auto
next
  fix q assume "q \<in> {q. change_at s cur q \<noteq> None}"
  then obtain c where "change_at s cur q = Some c" by auto
  moreover from change_at_path[OF this] have "ch_path c = q" .
  ultimately show "q \<in> ch_path ` set (workspace_changes s cur)"
    using set_workspace_changes[OF assms, of c] by blast
qed

section \<open>Properties\<close>

text \<open>Claim C35. The change list is exact: it has one entry for every path whose digest or permission bits
  differ between the baseline and the staging area, and no other, in the case-insensitive path
  order, with the operation that leads from the one to the other.\<close>

theorem workspace_changes_exact:
  assumes "snapshot_ok s"
  shows "distinct (map ch_path (workspace_changes s cur))
    \<and> sorted (map (casefold \<circ> ch_path) (workspace_changes s cur))
    \<and> (\<forall>q. q \<in> ch_path ` set (workspace_changes s cur) \<longleftrightarrow> base_view s q \<noteq> staged_view cur q)
    \<and> (\<forall>c\<in>set (workspace_changes s cur).
         (ch_operation c = Delete \<longleftrightarrow> staged_view cur (ch_path c) = None)
         \<and> (ch_operation c = Create \<longleftrightarrow> base_view s (ch_path c) = None)
         \<and> ch_base_sha256 c = map_option fst (base_view s (ch_path c))
         \<and> ch_base_mode c = map_option snd (base_view s (ch_path c))
         \<and> ch_staged_sha256 c = map_option fst (staged_view cur (ch_path c))
         \<and> ch_staged_mode c = map_option snd (staged_view cur (ch_path c)))"
proof (intro conjI)
  show "distinct (map ch_path (workspace_changes s cur))" by (simp add: map_path_changes)
  have "sorted (map casefold (map ch_path (workspace_changes s cur)))"
    unfolding map_path_changes using sorted_sort_paths
    by (metis (no_types, lifting) sorted_filter)
  then show "sorted (map (casefold \<circ> ch_path) (workspace_changes s cur))" by simp
  show "\<forall>q. q \<in> ch_path ` set (workspace_changes s cur) \<longleftrightarrow> base_view s q \<noteq> staged_view cur q"
  proof
    fix q
    have "q \<in> ch_path ` set (workspace_changes s cur) \<longleftrightarrow> (\<exists>c. change_at s cur q = Some c)"
    proof
      assume "q \<in> ch_path ` set (workspace_changes s cur)"
      then obtain c where "c \<in> set (workspace_changes s cur)" "q = ch_path c" by blast
      then show "\<exists>c. change_at s cur q = Some c" using set_workspace_changes[OF assms] by blast
    next
      assume "\<exists>c. change_at s cur q = Some c"
      then obtain c where c: "change_at s cur q = Some c" ..
      then have p: "ch_path c = q" by (rule change_at_path)
      with c have "c \<in> set (workspace_changes s cur)" by (simp add: set_workspace_changes[OF assms])
      with p show "q \<in> ch_path ` set (workspace_changes s cur)" by blast
    qed
    then have "q \<in> ch_path ` set (workspace_changes s cur) \<longleftrightarrow> change_at s cur q \<noteq> None" by simp
    then show "q \<in> ch_path ` set (workspace_changes s cur) \<longleftrightarrow> base_view s q \<noteq> staged_view cur q"
      by (simp add: change_at_None[OF assms])
  qed
  show "\<forall>c\<in>set (workspace_changes s cur).
         (ch_operation c = Delete \<longleftrightarrow> staged_view cur (ch_path c) = None)
         \<and> (ch_operation c = Create \<longleftrightarrow> base_view s (ch_path c) = None)
         \<and> ch_base_sha256 c = map_option fst (base_view s (ch_path c))
         \<and> ch_base_mode c = map_option snd (base_view s (ch_path c))
         \<and> ch_staged_sha256 c = map_option fst (staged_view cur (ch_path c))
         \<and> ch_staged_mode c = map_option snd (staged_view cur (ch_path c))"
  proof
    fix c assume "c \<in> set (workspace_changes s cur)"
    then have c: "change_at s cur (ch_path c) = Some c" by (simp add: set_workspace_changes[OF assms])
    define q where "q = ch_path c"
    have n: "(map_of (hashes s) q = None) = (map_of (modes s) q = None)"
      using assms unfolding snapshot_ok_def by (metis domIff)
    have "change_at s cur q = Some c" using c by (simp add: q_def)
    then have "(ch_operation c = Delete \<longleftrightarrow> staged_view cur q = None)
         \<and> (ch_operation c = Create \<longleftrightarrow> base_view s q = None)
         \<and> ch_base_sha256 c = map_option fst (base_view s q)
         \<and> ch_base_mode c = map_option snd (base_view s q)
         \<and> ch_staged_sha256 c = map_option fst (staged_view cur q)
         \<and> ch_staged_mode c = map_option snd (staged_view cur q)"
      using n
      by (cases "map_of (hashes s) q"; cases "map_of (modes s) q"; cases "map_of cur q")
        (auto simp: change_at_def base_view_def staged_view_def Let_def split: if_splits)
    then show "(ch_operation c = Delete \<longleftrightarrow> staged_view cur (ch_path c) = None)
         \<and> (ch_operation c = Create \<longleftrightarrow> base_view s (ch_path c) = None)
         \<and> ch_base_sha256 c = map_option fst (base_view s (ch_path c))
         \<and> ch_base_mode c = map_option snd (base_view s (ch_path c))
         \<and> ch_staged_sha256 c = map_option fst (staged_view cur (ch_path c))
         \<and> ch_staged_mode c = map_option snd (staged_view cur (ch_path c))"
      by (simp only: q_def)
  qed
qed

text \<open>Batches: the loop invariant.\<close>

definition batch_ok :: "workspace_change list \<Rightarrow> bool" where
  "batch_ok b \<longleftrightarrow> b \<noteq> [] \<and> length b \<le> PUBLISH_BATCH_MAX_OPERATIONS
     \<and> sum_list (map batch_item_size b) \<le> int PUBLISH_BATCH_MAX_BYTES"

lemma batch_loop_ok:
  assumes "batch_loop cs batches current used = Inr bs" and "list_all batch_ok batches"
    and "length current \<le> PUBLISH_BATCH_MAX_OPERATIONS"
    and "used = sum_list (map batch_item_size current)" and "used \<le> int PUBLISH_BATCH_MAX_BYTES"
  shows "concat bs = concat batches @ current @ cs \<and> list_all batch_ok bs"
  using assms
proof (induction cs arbitrary: batches current used)
  case Nil
  then show ?case by (auto simp: batch_ok_def split: if_splits)
next
  case (Cons c cs)
  let ?n = "batch_item_size c"
  have n: "?n \<le> int PUBLISH_BATCH_MAX_BYTES" using Cons.prems(1) by (auto simp: Let_def split: if_splits)
  show ?case
  proof (cases "current \<noteq> [] \<and> (length current \<ge> PUBLISH_BATCH_MAX_OPERATIONS
      \<or> used + ?n > int PUBLISH_BATCH_MAX_BYTES)")
    case True
    then have r: "batch_loop cs (batches @ [current]) [c] ?n = Inr bs"
      using Cons.prems(1) n by (simp add: Let_def)
    have "list_all batch_ok (batches @ [current])"
      using Cons.prems(2-5) True by (simp add: batch_ok_def[of current])
    from Cons.IH[OF r this] n show ?thesis by (simp add: PUBLISH_BATCH_MAX_OPERATIONS_def)
  next
    case False
    then have r: "batch_loop cs batches (current @ [c]) (used + ?n) = Inr bs"
      using Cons.prems(1) n by (auto simp: Let_def)
    have "length (current @ [c]) \<le> PUBLISH_BATCH_MAX_OPERATIONS" "used + ?n \<le> int PUBLISH_BATCH_MAX_BYTES"
      using False n Cons.prems(3,4,5) by (auto simp: PUBLISH_BATCH_MAX_OPERATIONS_def)
    from Cons.IH[OF r Cons.prems(2) this(1) _ this(2)] Cons.prems(4) show ?thesis by simp
  qed
qed

lemma batch_loop_fails:
  "(\<exists>e. batch_loop cs batches current used = Inl e) \<longleftrightarrow> (\<exists>c\<in>set cs. batch_item_size c > int PUBLISH_BATCH_MAX_BYTES)"
  by (induction cs arbitrary: batches current used) (auto simp: Let_def)

lemma batch_loop_error: "batch_loop cs batches current used = Inl e \<Longrightarrow> e = ToolError LIMIT_EXCEEDED"
  by (induction cs arbitrary: batches current used) (auto simp: Let_def split: if_splits)

text \<open>Publication batches lose, repeat and reorder nothing: joined together they are the change
  list, every batch is non-empty and within the broker's limits of operations and bytes, and the
  only failure is a single file that is larger than a whole batch, reported as a limit error.\<close>

theorem publication_batches_partition:
  "case publication_batches cs of
     Inr bs \<Rightarrow> concat bs = cs \<and> list_all batch_ok bs
   | Inl e \<Rightarrow> e = ToolError LIMIT_EXCEEDED \<and> (\<exists>c\<in>set cs. batch_item_size c > int PUBLISH_BATCH_MAX_BYTES)"
proof (cases "publication_batches cs")
  case (Inl e)
  then show ?thesis
    using batch_loop_error batch_loop_fails[of cs "[]" "[]" 0] by (auto simp: publication_batches_def)
next
  case (Inr bs)
  then show ?thesis
    using batch_loop_ok[of cs "[]" "[]" 0 bs] by (simp add: publication_batches_def)
qed

section \<open>Advancing the baseline\<close>

definition op_matches :: "listing \<Rightarrow> publish_operation \<Rightarrow> bool" where
  "op_matches cur p \<longleftrightarrow> (if op_kind p = Delete then map_of cur (op_path p) = None
     else (\<exists>h n m. map_of cur (op_path p) = Some (h, n, m) \<and> staged_sha256 p = Some h
       \<and> (staged_mode p = None \<or> staged_mode p = Some m)))"

type_synonym tables = "(string \<times> string) list \<times> (string \<times> int) list \<times> (string \<times> int) list"

definition tables_at :: "tables \<Rightarrow> string \<Rightarrow> string option \<times> int option \<times> int option" where
  "tables_at t q = (case t of (hs, ss, ms) \<Rightarrow> (map_of hs q, map_of ss q, map_of ms q))"

definition listed_at :: "listing \<Rightarrow> string \<Rightarrow> string option \<times> int option \<times> int option" where
  "listed_at cur q = (case map_of cur q of None \<Rightarrow> (None, None, None) | Some (h, n, m) \<Rightarrow> (Some h, Some n, Some m))"

lemma map_of_delete: "map_of (AList.delete k xs) = (map_of xs)(k := None)"
  by (rule delete_conv')

lemma advance_one_effect:
  assumes "advance_one cur p t = Inr t'"
  shows "op_matches cur p \<and> tables_at t' q = (if q = op_path p then listed_at cur q else tables_at t q)"
proof -
  obtain hs ss ms where t: "t = (hs, ss, ms)" by (metis prod_cases3)
  show ?thesis
    using assms
    by (auto simp: advance_one_def t Let_def op_matches_def tables_at_def listed_at_def map_of_delete
        map_of_update split: if_splits option.splits prod.splits)
qed

lemma advance_all_effect:
  assumes "fold_res (advance_one cur) ops t = Inr t'"
  shows "list_all (op_matches cur) ops
    \<and> (\<forall>q. tables_at t' q = (if q \<in> op_path ` set ops then listed_at cur q else tables_at t q))"
  using assms
proof (induction ops arbitrary: t)
  case (Cons p ops)
  from Cons.prems obtain t1 where t1: "advance_one cur p t = Inr t1" "fold_res (advance_one cur) ops t1 = Inr t'"
    by auto
  from Cons.IH[OF t1(2)] advance_one_effect[OF t1(1)] show ?case by auto
qed simp

lemma advanced_staging:
  assumes "snapshot_ok s" and "advance_published_staging i cur s ops = Inr s'"
  shows "snapshot_ok s' \<and> list_all (op_matches cur) ops
    \<and> set (workspace_changes s' cur) = {c \<in> set (workspace_changes s cur). ch_path c \<notin> op_path ` set ops}"
proof -
  from assms(2) obtain hs ss ms where
    f: "fold_res (advance_one cur) ops (hashes s, sizes s, modes s) = Inr (hs, ss, ms)"
    and s': "hashes s' = hs" "sizes s' = ss" "modes s' = ms"
    by (auto simp: advance_published_staging_def)
  note e = advance_all_effect[OF f]
  have at: "(map_of (hashes s') q, map_of (sizes s') q, map_of (modes s') q) =
      (if q \<in> op_path ` set ops then listed_at cur q
       else (map_of (hashes s) q, map_of (sizes s) q, map_of (modes s) q))" for q
    using e by (simp add: tables_at_def s')
  have ok: "snapshot_ok s'"
  proof -
    have "(q \<in> dom (map_of (hashes s'))) = (q \<in> dom (map_of (modes s')))
        \<and> (q \<in> dom (map_of (hashes s'))) = (q \<in> dom (map_of (sizes s')))" for q
    proof (cases "q \<in> op_path ` set ops")
      case True
      then have "(map_of (hashes s') q, map_of (sizes s') q, map_of (modes s') q) = listed_at cur q"
        using at[of q] by simp
      then show ?thesis by (auto simp: listed_at_def domIff split: option.splits)
    next
      case False
      then have "map_of (hashes s') q = map_of (hashes s) q" "map_of (sizes s') q = map_of (sizes s) q"
        "map_of (modes s') q = map_of (modes s) q"
        using at[of q] by simp_all
      then show ?thesis using assms(1) unfolding snapshot_ok_def by (metis domIff)
    qed
    then show ?thesis unfolding snapshot_ok_def by blast
  qed
  have same: "change_at s' cur q = change_at s cur q" if "q \<notin> op_path ` set ops" for q
    using at[of q] that by (simp add: change_at_def Let_def)
  have none: "change_at s' cur q = None" if "q \<in> op_path ` set ops" for q
    using at[of q] that
    by (auto simp: change_at_None[OF ok] base_view_def staged_view_def listed_at_def split: option.splits)
  have "c \<in> set (workspace_changes s' cur) \<longleftrightarrow> c \<in> set (workspace_changes s cur) \<and> ch_path c \<notin> op_path ` set ops"
    for c
  proof (cases "ch_path c \<in> op_path ` set ops")
    case True
    then show ?thesis using none by (simp add: set_workspace_changes[OF ok])
  next
    case False
    then show ?thesis
      using same by (simp add: set_workspace_changes[OF ok] set_workspace_changes[OF assms(1)])
  qed
  with ok e show ?thesis by blast
qed

text \<open>Claim C36. Advancing the baseline after a publication settles exactly what was published: it succeeds only
  if every published operation still matches the staging area, afterwards no published path counts
  as changed, and every other pending change is still reported as it was.\<close>

theorem advance_settles_published:
  assumes "snapshot_ok s" and "advance_published_staging i cur s ops = Inr s'"
  shows "snapshot_ok s' \<and> list_all (op_matches cur) ops
    \<and> set (workspace_changes s' cur) = {c \<in> set (workspace_changes s cur). ch_path c \<notin> op_path ` set ops}"
  by (rule advanced_staging[OF assms])

section \<open>The refreshed listing\<close>

lemma lstat_lookup:
  assumes "reject_links t (butlast p) = Inr ()" and "\<not> is_link (Some t)"
  shows "(\<forall>n. lstat behind d t p = Inr n \<longrightarrow> lookup t p = Some n)
    \<and> (lstat behind d t p = Inl FileNotFound \<longrightarrow> lookup t p = None)"
  using assms
proof (induction behind d t p rule: lstat.induct)
  case (2 behind d es p ps)
  then show ?case
    by (cases ps) (auto simp: is_link_def split: option.splits node.splits)
qed (auto simp: is_link_def)

definition file_entry :: "(string \<Rightarrow> string) \<Rightarrow> node option \<Rightarrow> (string \<times> int \<times> int) option" where
  "file_entry sha n = (case n of Some (File c m k) \<Rightarrow> Some (sha c, int (length c), m) | _ \<Rightarrow> None)"

lemma visible_at_entry:
  "visible_at extra sha t (name_parts s) =
    (if list_ex (is_hidden_part extra) (split_on (CHR ''/'') s) then None else file_entry sha (lookup t (name_parts s)))"
  by (auto simp: visible_at_def file_entry_def name_parts_def list_all_iff list_ex_iff)

lemma link_at_entry:
  "link_at extra t (name_parts s) \<longleftrightarrow>
    \<not> list_ex (is_hidden_part extra) (split_on (CHR ''/'') s) \<and> is_link (lookup t (name_parts s))"
  by (auto simp: link_at_def name_parts_def list_all_iff list_ex_iff)

lemma refresh_one_effect:
  assumes "refresh_one extra sha behind t p (cur, ls) = Inr (cur', ls')"
    and "reject_links t (butlast (name_parts p)) = Inr ()" and "is_dir (Some t)"
  shows "map_of cur' s = (if s = p then visible_at extra sha t (name_parts s) else map_of cur s)
    \<and> (s \<in> set ls' \<longleftrightarrow> (if s = p then link_at extra t (name_parts s) else s \<in> set ls))"
proof (cases "list_ex (is_hidden_part extra) (split_on (CHR ''/'') p)")
  case True
  with assms(1) show ?thesis
    by (auto simp: refresh_one_def visible_at_entry link_at_entry map_of_delete)
next
  case False
  have "\<not> is_link (Some t)" using assms(3) by (cases t) (auto simp: is_link_def)
  note ll = lstat_lookup[OF assms(2) this, of behind "[]"]
  show ?thesis
  proof (cases "lstat behind [] t (name_parts p)")
    case (Inl e)
    with assms(1) False have "e = FileNotFound" "cur' = AList.delete p cur" "ls' = filter (\<lambda>l. l \<noteq> p) ls"
      by (auto simp: refresh_one_def Let_def split: if_splits)
    with ll Inl False show ?thesis
      by (auto simp: visible_at_entry link_at_entry file_entry_def is_link_def map_of_delete)
  next
    case (Inr n)
    with ll have l: "lookup t (name_parts p) = Some n" by blast
    with assms(1) False Inr show ?thesis
      by (cases n) (auto simp: refresh_one_def Let_def visible_at_entry link_at_entry file_entry_def
          is_link_def map_of_delete map_of_update)
  qed
qed

text \<open>Refreshing a recent listing for the paths that a mutation touched is as good as walking the
  whole tree: if the listing was right everywhere else and no touched path leads through a link,
  the refreshed listing and the refreshed links are those of the tree as it is now.\<close>

theorem refresh_matches_walk:
  assumes "wf_node t" and "is_dir (Some t)"
    and "\<And>s. s \<notin> set paths \<Longrightarrow> map_of cur s = visible_at extra sha t (name_parts s)
      \<and> (s \<in> set ls \<longleftrightarrow> link_at extra t (name_parts s))"
    and "\<And>p. p \<in> set paths \<Longrightarrow> reject_links t (butlast (name_parts p)) = Inr ()"
    and "refresh_visible_files extra sha behind t cur ls paths = Inr (cur', ls')"
  shows "map_of cur' = map_of (listing_of extra sha t) \<and> set ls' = set (links_of extra sha t)"
proof -
  have "map_of cur' s = visible_at extra sha t (name_parts s) \<and> (s \<in> set ls' \<longleftrightarrow> link_at extra t (name_parts s))" for s
    using assms(3-5) unfolding refresh_visible_files_def
  proof (induction paths arbitrary: cur ls)
    case Nil
    then show ?case by simp
  next
    case (Cons p paths)
    from Cons.prems(3) obtain c1 l1 where r: "refresh_one extra sha behind t p (cur, ls) = Inr (c1, l1)"
      "fold_res (refresh_one extra sha behind t) paths (c1, l1) = Inr (cur', ls')"
      by auto
    note e = refresh_one_effect[OF r(1) Cons.prems(2)[OF list.set_intros(1)] assms(2)]
    show ?case
    proof (rule Cons.IH[OF _ _ r(2)])
      fix q assume "q \<notin> set paths"
      with e[of q] Cons.prems(1)[of q]
      show "map_of c1 q = visible_at extra sha t (name_parts q) \<and> (q \<in> set l1 \<longleftrightarrow> link_at extra t (name_parts q))"
        by (cases "q = p") auto
    next
      fix q assume "q \<in> set paths"
      then show "reject_links t (butlast (name_parts q)) = Inr ()" using Cons.prems(2) by simp
    qed
  qed
  then show ?thesis
    using map_of_listing[OF assms(1,2)] set_links[OF assms(1,2)] by (auto simp: fun_eq_iff)
qed

section \<open>Seeding\<close>

definition tables_of :: "baseline_snapshot \<Rightarrow> string \<Rightarrow> string option \<times> int option \<times> int option" where
  "tables_of s q = (map_of (hashes s) q, map_of (sizes s) q, map_of (modes s) q)"

definition seeded_entry :: "(string \<Rightarrow> string) \<Rightarrow> node option \<Rightarrow> string option \<times> int option \<times> int option" where
  "seeded_entry sha n = (case n of
     Some (File c m k) \<Rightarrow> (Some (sha c), Some (int (length c)), Some m) | _ \<Rightarrow> (None, None, None))"

definition copies :: "node option \<Rightarrow> node option \<Rightarrow> bool" where
  "copies src n \<longleftrightarrow> (case n of
     None \<Rightarrow> True
   | Some (File c m k) \<Rightarrow> (\<exists>k'. src = Some (File c m k'))
   | Some (Dir es) \<Rightarrow> src = Some (Dir [])
   | _ \<Rightarrow> False)"

definition seed_inv ::
  "string list \<Rightarrow> (string \<Rightarrow> string) \<Rightarrow> executor_config \<Rightarrow> node \<Rightarrow> seed_state \<Rightarrow> bool" where
  "seed_inv extra sha cfg source st \<longleftrightarrow>
     wf_node (seed_work st) \<and> shape (seed_work st) [] = Some (Dir [])
     \<and> (\<forall>s. tables_of (seed_snapshot st) s = seeded_entry sha (shape (seed_work st) (name_parts s)))
     \<and> (\<forall>q. copies (shape source q) (shape (seed_work st) q))
     \<and> (\<forall>s. map_of (hashes (seed_snapshot st)) s \<noteq> None \<longrightarrow> \<not> seed_skipped extra s)
     \<and> int (length (hashes (seed_snapshot st))) \<le> seed_files st
     \<and> seed_files st \<le> limits cfg max_staged_files \<and> seed_total st \<le> limits cfg max_staging_bytes"

definition at_directory :: "node \<Rightarrow> node \<Rightarrow> string \<Rightarrow> node \<Rightarrow> bool" where
  "at_directory source work pre n \<longleftrightarrow>
     (\<exists>d. list_all valid_name d \<and> pre = (if d = [] then [] else join ''/'' d @ ''/'')
        \<and> lookup source d = Some n \<and> is_dir (Some n) \<and> shape work d = Some (Dir []))"

lemma join_snoc: "d \<noteq> [] \<Longrightarrow> join s (d @ [x]) = join s d @ s @ x"
proof (induction d)
  case (Cons a d)
  then show ?case by (cases d) auto
qed simp

lemma entry_path:
  assumes "list_all valid_name d" and "valid_name x"
  shows "name_parts ((if d = [] then [] else join ''/'' d @ ''/'') @ x) = d @ [x]"
proof -
  have "(if d = [] then [] else join ''/'' d @ ''/'') @ x = join ''/'' (d @ [x])"
    by (simp add: join_snoc)
  then show ?thesis using assms by (simp add: name_parts_join)
qed

lemma at_directory_entry:
  assumes "at_directory source work pre (Dir es)" and "wf_node source" and "(x, n) \<in> set es"
  shows "\<exists>d. name_parts (pre @ x) = d @ [x] \<and> shape work d = Some (Dir []) \<and> lookup source (d @ [x]) = Some n
    \<and> list_all valid_name (d @ [x]) \<and> pre @ x @ ''/'' = join ''/'' (d @ [x]) @ ''/''"
proof -
  from assms(1) obtain d where d: "list_all valid_name d" "pre = (if d = [] then [] else join ''/'' d @ ''/'')"
    "lookup source d = Some (Dir es)" "shape work d = Some (Dir [])" by (auto simp: at_directory_def)
  have w: "wf_node (Dir es)"
    using d(3) assms(2)
  proof (induction source d rule: lookup.induct)
    case (2 ds p ps)
    then show ?case using wf_child[OF 2(3)] by (auto split: option.splits)
  qed auto
  with assms(3) have x: "valid_name x" "map_of es x = Some n" by (auto simp: list_all_iff)
  have "lookup source (d @ [x]) = Some n" using d(3) x(2) by (simp add: lookup_append)
  moreover have "pre @ x @ ''/'' = join ''/'' (d @ [x]) @ ''/''" using d(2) by (auto simp: join_snoc)
  ultimately show ?thesis using entry_path[OF d(1) x(1)] d x(1) by auto
qed

lemma name_parts_inj: "name_parts a = name_parts b \<Longrightarrow> a = b"
  unfolding name_parts_def by (metis join_split_on)

lemma shape_source_file: "lookup source p = Some (File c m k) \<Longrightarrow> shape source p = Some (File c m k)"
  by (simp add: shape_leaf_iff)

lemma length_update_le: "length (AList.update k v xs) \<le> Suc (length xs)"
  by (induction xs) auto

lemma shape_nothing: "shape (Dir []) q = (if q = [] then Some (Dir []) else None)"
  using lookup_nil_dir[of q] by (simp add: shape_def)

lemma tables_snapshot_ok:
  assumes "\<And>s. tables_of snap s = seeded_entry sha (f s)"
  shows "snapshot_ok snap"
proof -
  have "(map_of (hashes snap) s = None) = (map_of (modes snap) s = None)
      \<and> (map_of (hashes snap) s = None) = (map_of (sizes snap) s = None)" for s
    using assms[of s] by (cases "f s"; cases "the (f s)") (simp_all add: tables_of_def seeded_entry_def)
  then show ?thesis unfolding snapshot_ok_def dom_def by (intro conjI Collect_cong) metis+
qed

lemma tables_views:
  assumes "tables_of snap s = seeded_entry sha n"
  shows "base_view snap s = map_option (\<lambda>(h, n, m). (h, m)) (file_entry sha n)"
    and "s \<in> set (map fst (hashes snap)) \<longleftrightarrow> file_entry sha n \<noteq> None"
  using assms map_of_eq_None_iff[of "hashes snap" s]
  by (cases n; cases "the n"; simp add: base_view_def tables_of_def seeded_entry_def file_entry_def)+

text \<open>A new file never lands on or above something that was seeded before.\<close>

lemma seed_file_keeps:
  assumes "seed_file extra sha mtimes cfg pre e st = Inr st'" and "seed_inv extra sha cfg source st"
    and "wf_node source" and "at_directory source (seed_work st) pre (Dir es)" and "e \<in> set es"
  shows "seed_inv extra sha cfg source st' \<and> (\<forall>d. shape (seed_work st) d = Some (Dir []) \<longrightarrow> shape (seed_work st') d = Some (Dir []))"
proof -
  obtain x n where e: "e = (x, n)" by (cases e)
  from at_directory_entry[OF assms(4,3), of x n] assms(5) e obtain d where
    d: "name_parts (pre @ x) = d @ [x]" "shape (seed_work st) d = Some (Dir [])"
      "lookup source (d @ [x]) = Some n" "list_all valid_name (d @ [x])" by auto
  show ?thesis
  proof (cases "seed_skipped extra (pre @ x)")
    case True
    with assms(1,2) show ?thesis by (simp add: seed_file_def e)
  next
    case False
    with assms(1) obtain c m k where n: "n = File c m k"
      and lim: "seed_files st + 1 \<le> limits cfg max_staged_files"
        "seed_total st + int (length c) \<le> limits cfg max_staging_bytes"
      and st': "st' = st\<lparr>seed_files := seed_files st + 1, seed_total := seed_total st + int (length c),
          seed_snapshot := record_seeded sha mtimes (pre @ x) c m (seed_snapshot st),
          seed_paths := seed_paths st @ [pre @ x],
          seed_work := put (d @ [x]) (File c m 1) (seed_work st)\<rparr>"
      by (auto simp: seed_file_def e Let_def d(1) split: node.splits if_splits)
    let ?p = "d @ [x]" and ?w = "seed_work st"
    have sp: "shape (put ?p (File c m 1) ?w) q =
        (if q = ?p then Some (File c m 1) else if under ?p q then None else shape ?w q)" for q
      by (rule shape_put) (use d(2) in \<open>simp_all add: is_dir_shape\<close>)
    have inv: "wf_node ?w" "\<And>s. tables_of (seed_snapshot st) s = seeded_entry sha (shape ?w (name_parts s))"
      "\<And>q. copies (shape source q) (shape ?w q)"
      "\<And>s. map_of (hashes (seed_snapshot st)) s \<noteq> None \<Longrightarrow> \<not> seed_skipped extra s"
      "shape ?w [] = Some (Dir [])"
      using assms(2) by (auto simp: seed_inv_def)
    have src: "shape source ?p = Some (File c m k)" using d(3) n by (simp add: shape_source_file)
    have notdir: "shape ?w ?p \<noteq> Some (Dir [])"
      using inv(3)[of ?p] src by (auto simp: copies_def)
    have below: "shape ?w (?p @ r) = None" if "r \<noteq> []" for r
      using shape_above[of ?w ?p r] that notdir by blast
    have keepdirs: "shape (put ?p (File c m 1) ?w) q = Some (Dir [])" if "shape ?w q = Some (Dir [])" for q
    proof -
      have "q \<noteq> ?p" using that notdir by blast
      moreover have "\<not> under ?p q"
      proof
        assume "under ?p q"
        then obtain r where r: "q = ?p @ r" unfolding under_iff by blast
        with \<open>q \<noteq> ?p\<close> have "r \<noteq> []" by fastforce
        from below[OF this] that show False unfolding r by simp
      qed
      ultimately show ?thesis using that by (simp only: sp if_False)
    qed
    have wf: "wf_node (put ?p (File c m 1) ?w)" using inv(1) d(4) by (intro wf_put) simp_all
    have tab: "tables_of (record_seeded sha mtimes (pre @ x) c m (seed_snapshot st)) s
        = seeded_entry sha (shape (put ?p (File c m 1) ?w) (name_parts s))" for s
    proof (cases "s = pre @ x")
      case True
      then show ?thesis
        using sp[of ?p] by (simp add: d(1) tables_of_def record_seeded_def map_of_update seeded_entry_def)
    next
      case False
      then have ne: "name_parts s \<noteq> ?p" using name_parts_inj[of s "pre @ x"] d(1) by auto
      have "tables_of (record_seeded sha mtimes (pre @ x) c m (seed_snapshot st)) s = tables_of (seed_snapshot st) s"
        using False by (simp add: tables_of_def record_seeded_def map_of_update)
      moreover have "seeded_entry sha (shape (put ?p (File c m 1) ?w) (name_parts s)) = seeded_entry sha (shape ?w (name_parts s))"
      proof (cases "under ?p (name_parts s)")
        case True
        then obtain r where r: "name_parts s = ?p @ r" unfolding under_iff by blast
        with ne have "r \<noteq> []" by fastforce
        from below[OF this] have "shape ?w (name_parts s) = None" by (simp only: r)
        with ne True show ?thesis by (simp only: sp if_False if_True)
      qed (simp only: sp ne if_False)
      ultimately show ?thesis using inv(2) by simp
    qed
    have cop: "copies (shape source q) (shape (put ?p (File c m 1) ?w) q)" for q
    proof (cases "q = ?p")
      case True
      have "shape (put ?p (File c m 1) ?w) ?p = Some (File c m 1)" using sp[of ?p] by (simp only: refl if_True)
      then show ?thesis unfolding True copies_def src by simp
    next
      case False
      then show ?thesis using inv(3)[of q] by (cases "under ?p q") (simp_all only: sp if_False if_True copies_def option.case)
    qed
    have skip: "\<not> seed_skipped extra s"
      if "map_of (hashes (record_seeded sha mtimes (pre @ x) c m (seed_snapshot st))) s \<noteq> None" for s
      using that inv(4)[of s] False by (auto simp: record_seeded_def map_of_update split: if_splits)
    have root: "shape (put ?p (File c m 1) ?w) [] = Some (Dir [])" by (rule keepdirs[OF inv(5)])
    have "int (length (hashes (record_seeded sha mtimes (pre @ x) c m (seed_snapshot st)))) \<le> seed_files st + 1"
      using assms(2) length_update_le[of "pre @ x" "sha c" "hashes (seed_snapshot st)"]
      by (simp add: seed_inv_def record_seeded_def)
    then show ?thesis
      unfolding seed_inv_def st'
      using wf tab cop skip lim keepdirs root by (simp del: shape_simps)
  qed
qed

lemma at_directory_mono:
  assumes "at_directory source w pre n" and "\<forall>d. shape w d = Some (Dir []) \<longrightarrow> shape w' d = Some (Dir [])"
  shows "at_directory source w' pre n"
  using assms unfolding at_directory_def by blast

lemma seed_directory_keeps:
  assumes "seed_directory extra pre e (retained, st) = Inr (retained', st')"
    and "seed_inv extra sha cfg source st" and "wf_node source"
    and "at_directory source (seed_work st) pre (Dir es)" and "e \<in> set es" and "walks_as_dir (snd e)"
    and "\<forall>(p, n) \<in> set retained. at_directory source (seed_work st) p n"
  shows "seed_inv extra sha cfg source st'
    \<and> (\<forall>d. shape (seed_work st) d = Some (Dir []) \<longrightarrow> shape (seed_work st') d = Some (Dir []))
    \<and> (\<forall>(p, n) \<in> set retained'. at_directory source (seed_work st') p n)"
proof -
  obtain x n where e: "e = (x, n)" by (cases e)
  from at_directory_entry[OF assms(4,3), of x n] assms(5) e obtain d where
    d: "name_parts (pre @ x) = d @ [x]" "shape (seed_work st) d = Some (Dir [])"
      "lookup source (d @ [x]) = Some n" "list_all valid_name (d @ [x])"
      "pre @ x @ ''/'' = join ''/'' (d @ [x]) @ ''/''" by auto
  show ?thesis
  proof (cases "seed_skipped extra (pre @ x)")
    case True
    with assms(1,2,7) show ?thesis by (auto simp: seed_directory_def e Let_def split: if_splits)
  next
    case False
    let ?p = "d @ [x]" and ?w = "seed_work st"
    from assms(1) False obtain w where nl: "\<not> is_link (Some n)" and w: "make_dirs ?p ?w = Inr w"
      and r': "retained' = retained @ [(pre @ x @ ''/'', n)]"
      and st': "st' = st\<lparr>seed_paths := seed_paths st @ [pre @ x], seed_work := w\<rparr>"
      by (auto simp: seed_directory_def e Let_def d(1) split: if_splits)
    obtain ns where n: "n = Dir ns" using assms(6) nl by (cases n) (auto simp: e walks_as_dir_def is_link_def)
    have src: "shape source ?p = Some (Dir [])" using d(3) n by (simp add: shape_def)
    have inv: "wf_node ?w" "\<And>s. tables_of (seed_snapshot st) s = seeded_entry sha (shape ?w (name_parts s))"
      "\<And>q. copies (shape source q) (shape ?w q)"
      using assms(2) by (auto simp: seed_inv_def)
    have old: "shape ?w ?p = None \<or> shape ?w ?p = Some (Dir [])"
      using inv(3)[of ?p] src by (auto simp: copies_def shape_def split: option.splits node.splits)
    have above: "shape ?w q = Some (Dir [])" if "under q ?p" "q \<noteq> ?p" for q
    proof -
      from that(1) obtain r where r: "?p = q @ r" unfolding under_iff by blast
      with that(2) have "r \<noteq> []" by fastforce
      then have "d = q @ butlast r" using r by (metis butlast_append butlast_snoc)
      then show ?thesis using shape_above[of ?w q "butlast r"] d(2) by (cases "butlast r = []") auto
    qed
    have sp: "shape w q = (if q = ?p then Some (Dir []) else shape ?w q)" for q
      using shape_make_dirs[OF w, of q] above[of q] by (cases "q = ?p"; cases "under q ?p") simp_all
    have keep: "\<forall>d. shape ?w d = Some (Dir []) \<longrightarrow> shape w d = Some (Dir [])" by (simp only: sp) simp
    have ent: "seeded_entry sha (shape w q) = seeded_entry sha (shape ?w q)" for q
      using old by (cases "q = ?p") (auto simp: sp seeded_entry_def)
    have cop: "copies (shape source q) (shape w q)" for q
    proof (cases "q = ?p")
      case True
      have "shape w ?p = Some (Dir [])" using sp[of ?p] by (simp only: refl if_True)
      then show ?thesis unfolding True copies_def src by simp
    next
      case False
      then show ?thesis using inv(3)[of q] by (simp only: sp if_False)
    qed
    have "wf_node w" by (rule wf_make_dirs[OF w inv(1) d(4)])
    then have "seed_inv extra sha cfg source st'"
      using assms(2) cop keep inv(2) unfolding seed_inv_def st' by (simp add: ent del: shape_simps)
    moreover have "at_directory source w (pre @ x @ ''/'') n"
      unfolding at_directory_def using d(3-5) n sp[of ?p]
      by (intro exI[of _ ?p]) (simp only: refl if_True, simp)
    ultimately show ?thesis
      using keep at_directory_mono[OF _ keep] assms(7) unfolding st' r' by auto
  qed
qed

definition dirs_kept :: "seed_state \<Rightarrow> seed_state \<Rightarrow> bool" where
  "dirs_kept a b \<longleftrightarrow> (\<forall>d. shape (seed_work a) d = Some (Dir []) \<longrightarrow> shape (seed_work b) d = Some (Dir []))"

lemma seed_level_keeps:
  assumes "seed_level extra sha mtimes cfg pre es st = Inr (retained, st')"
    and "seed_inv extra sha cfg source st" and "wf_node source"
    and "at_directory source (seed_work st) pre (Dir es)"
  shows "seed_inv extra sha cfg source st' \<and> dirs_kept st st'
    \<and> (\<forall>(p, n) \<in> set retained. at_directory source (seed_work st') p n)"
proof -
  let ?ds = "sort_key fst (filter (\<lambda>e. walks_as_dir (snd e)) es)"
  let ?fs = "sort_key fst (filter (\<lambda>e. \<not> walks_as_dir (snd e)) es)"
  from assms(1) obtain st1 where s1: "fold_res (seed_directory extra pre) ?ds ([], st) = Inr (retained, st1)"
    and s2: "fold_res (seed_file extra sha mtimes cfg pre) ?fs st1 = Inr st'"
    by (auto simp: seed_level_def)
  have one: "seed_inv extra sha cfg source st2 \<and> dirs_kept st st2
      \<and> (\<forall>(p, n) \<in> set r2. at_directory source (seed_work st2) p n)"
    if "fold_res (seed_directory extra pre) xs (r, s0) = Inr (r2, st2)" "set xs \<subseteq> set ?ds"
      "seed_inv extra sha cfg source s0" "dirs_kept st s0" "\<forall>(p, n) \<in> set r. at_directory source (seed_work s0) p n"
    for xs r s0 r2 st2
    using that
  proof (induction xs arbitrary: r s0)
    case (Cons e xs)
    from Cons.prems(1) obtain r1 s1 where a: "seed_directory extra pre e (r, s0) = Inr (r1, s1)"
      "fold_res (seed_directory extra pre) xs (r1, s1) = Inr (r2, st2)" by auto
    have at: "at_directory source (seed_work s0) pre (Dir es)"
      using Cons.prems(4) assms(4) unfolding dirs_kept_def by (blast intro: at_directory_mono)
    have "e \<in> set es" "walks_as_dir (snd e)" using Cons.prems(2) by auto
    from seed_directory_keeps[OF a(1) Cons.prems(3) assms(3) at this Cons.prems(5)]
    show ?case using Cons.IH[OF a(2)] Cons.prems(2,4) by (simp add: dirs_kept_def)
  qed auto
  from one[OF s1 subset_refl assms(2)]
  have st1: "seed_inv extra sha cfg source st1" "dirs_kept st st1"
    "\<forall>(p, n) \<in> set retained. at_directory source (seed_work st1) p n" by (auto simp: dirs_kept_def)
  have two: "seed_inv extra sha cfg source st2 \<and> dirs_kept st1 st2"
    if "fold_res (seed_file extra sha mtimes cfg pre) xs s0 = Inr st2" "set xs \<subseteq> set ?fs"
      "seed_inv extra sha cfg source s0" "dirs_kept st1 s0" for xs s0 st2
    using that
  proof (induction xs arbitrary: s0)
    case (Cons e xs)
    from Cons.prems(1) obtain s1 where a: "seed_file extra sha mtimes cfg pre e s0 = Inr s1"
      "fold_res (seed_file extra sha mtimes cfg pre) xs s1 = Inr st2" by auto
    have at: "at_directory source (seed_work s0) pre (Dir es)"
      using Cons.prems(4) st1(2) assms(4) unfolding dirs_kept_def by (blast intro: at_directory_mono)
    have "e \<in> set es" using Cons.prems(2) by auto
    from seed_file_keeps[OF a(1) Cons.prems(3) assms(3) at this]
    show ?case using Cons.IH[OF a(2)] Cons.prems(2,4) by (simp add: dirs_kept_def)
  qed auto
  from two[OF s2 subset_refl st1(1)] have "seed_inv extra sha cfg source st'" "dirs_kept st1 st'"
    by (auto simp: dirs_kept_def)
  then show ?thesis
    using st1(2,3) unfolding dirs_kept_def by (blast intro: at_directory_mono)
qed

lemma seed_loop_keeps:
  assumes "seed_loop extra sha mtimes cfg pending st = Inr st'" and "seed_inv extra sha cfg source st"
    and "wf_node source" and "\<forall>(p, n) \<in> set pending. at_directory source (seed_work st) p n"
  shows "seed_inv extra sha cfg source st'"
  using assms
proof (induction extra sha mtimes cfg pending st rule: seed_loop.induct)
  case (2 extra sha mtimes cfg pre n pending st)
  from 2(5) have at: "at_directory source (seed_work st) pre n" by simp
  then obtain es where n: "n = Dir es" by (cases n) (auto simp: at_directory_def is_dir_def)
  from 2(2) n obtain r s1 where l: "seed_level extra sha mtimes cfg pre es st = Inr (r, s1)"
    "seed_loop extra sha mtimes cfg (r @ pending) s1 = Inr st'" by (auto split: sum.splits)
  from seed_level_keeps[OF l(1) 2(3,4) at[unfolded n]]
  have k: "seed_inv extra sha cfg source s1" "dirs_kept st s1"
    "\<forall>(p, n) \<in> set r. at_directory source (seed_work s1) p n" by auto
  have "\<forall>(p, n) \<in> set (r @ pending). at_directory source (seed_work s1) p n"
    using k(2,3) 2(5) unfolding dirs_kept_def by (auto intro: at_directory_mono)
  then show ?case using 2(1)[of "(r, s1)" r s1] l k(1) 2(4) n by simp
qed simp

text \<open>Claim C34. Seeding copies and records faithfully: every staged file is a verbatim copy of the file at the
  same place of the source, the snapshot lists exactly the staged files with their digests, sizes and permission
  bits, no secret or excluded path is among them, and the file and byte limits hold. The first change
  list of the seeded area has an entry only for a seeded path with a hidden segment, one for each.\<close>

theorem seeding_is_faithful:
  assumes "wf_node source" and "is_dir (Some source)"
    and "seed_staging nfc extra sha mtimes cfg free fresh_id source work = Inr (snap, staged)"
    and "0 \<le> limits cfg max_staged_files" and "0 \<le> limits cfg max_staging_bytes"
  shows "(\<forall>q c m k. lookup staged q = Some (File c m k) \<longrightarrow> (\<exists>k'. lookup source q = Some (File c m k')))
    \<and> (\<forall>s. tables_of snap s = seeded_entry sha (lookup staged (name_parts s)))
    \<and> (\<forall>s \<in> set (map fst (hashes snap)). \<not> is_secret_path extra s \<and> \<not> is_staging_excluded s)
    \<and> int (length (hashes snap)) \<le> limits cfg max_staged_files \<and> total_bytes snap \<le> limits cfg max_staging_bytes
    \<and> ch_path ` set (workspace_changes snap (listing_of extra sha staged)) =
        {s \<in> set (map fst (hashes snap)). list_ex (is_hidden_part extra) (split_on (CHR ''/'') s)}"
proof -
  from assms(3) obtain st where l: "seed_loop extra sha mtimes cfg [([], source)] seed_start = Inr st"
    and snap: "snap = (seed_snapshot st)\<lparr>snapshot_id := fresh_id, total_bytes := seed_total st\<rparr>"
    and staged: "staged = seed_work st"
    by (auto simp: seed_staging_def)
  have "seed_inv extra sha cfg source seed_start"
    using assms(2,4,5) is_dir_shape[of source "[]"]
    by (simp add: seed_inv_def seed_start_def tables_of_def seeded_entry_def copies_def shape_nothing del: shape_simps)
  moreover have "at_directory source (seed_work seed_start) [] source"
    using assms(2) unfolding at_directory_def
    by (intro exI[of _ "[]"]) (simp add: seed_start_def shape_def)
  ultimately have inv: "seed_inv extra sha cfg source st"
    using seed_loop_keeps[OF l _ assms(1)] by simp
  have entry: "seeded_entry sha (shape staged q) = seeded_entry sha (lookup staged q)" for q
    by (auto simp: seeded_entry_def shape_def split: option.splits node.splits)
  have tab: "tables_of snap s = seeded_entry sha (lookup staged (name_parts s))" for s
    using inv entry unfolding seed_inv_def snap staged by (simp add: tables_of_def)
  have ok: "snapshot_ok snap"
    by (rule tables_snapshot_ok[OF tab])
  have verbatim: "\<exists>k'. lookup source q = Some (File c m k')" if "lookup staged q = Some (File c m k)" for q c m k
  proof -
    have "shape staged q = Some (File c m k)" using that by (simp add: shape_leaf_iff)
    moreover have "copies (shape source q) (shape staged q)" using inv by (simp add: seed_inv_def staged)
    ultimately have "\<exists>k'. shape source q = Some (File c m k')" by (simp only: copies_def option.case node.case)
    then show ?thesis by (simp add: shape_leaf_iff)
  qed
  have wfs: "wf_node staged" "is_dir (Some staged)"
    using inv by (auto simp: seed_inv_def staged is_dir_shape[symmetric] shape_def is_dir_def split: node.splits)
  have changed: "change_at snap (listing_of extra sha staged) s \<noteq> None \<longleftrightarrow>
      s \<in> set (map fst (hashes snap)) \<and> list_ex (is_hidden_part extra) (split_on (CHR ''/'') s)" for s
    unfolding change_at_None[OF ok] staged_view_def map_of_listing[OF wfs] visible_at_entry
      tables_views[OF tab] by (cases "file_entry sha (lookup staged (name_parts s))") auto
  have "ch_path ` set (workspace_changes snap (listing_of extra sha staged)) =
      {s \<in> set (map fst (hashes snap)). list_ex (is_hidden_part extra) (split_on (CHR ''/'') s)}"
    unfolding changed_paths[OF ok] using changed by blast
  moreover have "\<forall>s \<in> set (map fst (hashes snap)). \<not> is_secret_path extra s \<and> \<not> is_staging_excluded s"
  proof
    fix s assume "s \<in> set (map fst (hashes snap))"
    then have "map_of (hashes (seed_snapshot st)) s \<noteq> None" by (simp add: snap map_of_eq_None_iff)
    with inv show "\<not> is_secret_path extra s \<and> \<not> is_staging_excluded s"
      unfolding seed_inv_def seed_skipped_def by blast
  qed
  ultimately show ?thesis
    using verbatim tab inv by (auto simp: seed_inv_def snap)
qed

section \<open>Samples\<close>

definition sample_snapshot :: baseline_snapshot where
  "sample_snapshot = \<lparr>snapshot_id = ''s'', hashes = [(''a'', ''h1''), (''B'', ''h2''), (''c'', ''h3'')],
     total_bytes = 6, sizes = [(''a'', 1), (''B'', 2), (''c'', 3)],
     modes = [(''a'', 0x1A4), (''B'', 0x1A4), (''c'', 0x1A4)], source_signatures = []\<rparr>"

definition sample_listing :: listing where
  "sample_listing = [(''d'', (''h4'', 4, 0x1A4)), (''a'', (''h1'', 1, 0x1A4)), (''B'', (''h2'', 2, 0x1ED))]"

lemma sample_snapshot_ok: "snapshot_ok sample_snapshot"
  by (auto simp: snapshot_ok_def sample_snapshot_def dom_def)

theorem workspace_changes_exact_witness:
  "distinct (map ch_path (workspace_changes sample_snapshot sample_listing))
    \<and> map (\<lambda>c. (ch_path c, ch_operation c)) (workspace_changes sample_snapshot sample_listing)
      = [(''B'', Update), (''c'', Delete), (''d'', Create)]"
proof -
  have "map (\<lambda>c. (ch_path c, ch_operation c)) (workspace_changes sample_snapshot sample_listing)
      = [(''B'', Update), (''c'', Delete), (''d'', Create)]" by code_simp
  then show ?thesis using workspace_changes_exact[OF sample_snapshot_ok, of sample_listing] by blast
qed

definition sample_publication :: "publish_operation list" where
  "sample_publication = [\<lparr>op_path = ''B'', op_kind = Update, base_sha256 = Some ''h2'', staged_sha256 = Some ''h2'',
     op_content = None, base_mode = Some 0x1A4, staged_mode = Some 0x1ED, content_base64 = None\<rparr>,
   \<lparr>op_path = ''c'', op_kind = Delete, base_sha256 = Some ''h3'', staged_sha256 = None,
     op_content = None, base_mode = Some 0x1A4, staged_mode = None, content_base64 = None\<rparr>]"

theorem advance_settles_published_witness:
  "\<exists>s'. advance_published_staging ''t'' sample_listing sample_snapshot sample_publication = Inr s' \<and> snapshot_ok s'
     \<and> ch_path ` set (workspace_changes s' sample_listing) = {''d''}"
proof -
  let ?r = "advance_published_staging ''t'' sample_listing sample_snapshot sample_publication"
  have "?r \<noteq> Inl OtherErr" "case ?r of Inl _ \<Rightarrow> False | Inr _ \<Rightarrow> True" by code_simp+
  then obtain s' where s': "?r = Inr s'" by (cases ?r) auto
  note a = advance_settles_published[OF sample_snapshot_ok s']
  let ?rest = "filter (\<lambda>c. ch_path c \<notin> set (map op_path sample_publication)) (workspace_changes sample_snapshot sample_listing)"
  have "ch_path ` set (workspace_changes s' sample_listing) = set (map ch_path ?rest)"
    using a by auto
  moreover have "map ch_path ?rest = [''d'']" by code_simp
  ultimately have "ch_path ` set (workspace_changes s' sample_listing) = {''d''}" by (simp only: list.set)
  with s' a show ?thesis by blast
qed

text \<open>A listing from before \<open>b/c.py\<close> was written and while \<open>b/old\<close> still existed.\<close>

definition stale_listing :: listing where
  "stale_listing = [(''a'', (''x'', 1, 0x1ED)), (''b/old'', (''z'', 1, 0x1A4))]"

theorem refresh_matches_walk_witness:
  "\<exists>cur' ls'. refresh_visible_files [] (\<lambda>c. c) (\<lambda>_. Inl FileNotFound) sample_tree stale_listing [''b/link'']
       [''b/c.py'', ''b/old''] = Inr (cur', ls')
     \<and> map_of cur' = map_of (listing_of [] (\<lambda>c. c) sample_tree) \<and> set ls' = {''b/link''}"
proof -
  let ?r = "refresh_visible_files [] (\<lambda>c. c) (\<lambda>_. Inl FileNotFound) sample_tree stale_listing [''b/link'']
       [''b/c.py'', ''b/old'']"
  have full: "listing_of [] (\<lambda>c. c) sample_tree = [(''a'', (''x'', 1, 0x1ED)), (''b/c.py'', (''yy'', 2, 0x1A4))]"
    and links: "links_of [] (\<lambda>c. c) sample_tree = [''b/link'']"
    by code_simp+
  have ex: "?r = Inr ([(''a'', (''x'', 1, 0x1ED)), (''b/c.py'', (''yy'', 2, 0x1A4))], [''b/link''])" by code_simp
  have rej: "reject_links sample_tree (butlast (name_parts p)) = Inr ()" if "p \<in> set [''b/c.py'', ''b/old'']" for p
  proof -
    have "reject_links sample_tree (butlast (name_parts ''b/c.py'')) = Inr ()"
      "reject_links sample_tree (butlast (name_parts ''b/old'')) = Inr ()" by code_simp+
    with that show ?thesis by auto
  qed
  have right: "map_of stale_listing s = visible_at [] (\<lambda>c. c) sample_tree (name_parts s)
      \<and> (s \<in> set [''b/link''] \<longleftrightarrow> link_at [] sample_tree (name_parts s))" if "s \<notin> set [''b/c.py'', ''b/old'']" for s
  proof -
    have "s \<noteq> ''b/c.py''" "s \<noteq> ''b/old''" using that by simp_all
    then have "map_of stale_listing s = map_of (listing_of [] (\<lambda>c. c) sample_tree) s"
      unfolding full stale_listing_def by (simp only: map_of.simps fun_upd_apply fst_conv snd_conv if_False)
    moreover have "s \<in> set [''b/link''] \<longleftrightarrow> s \<in> set (links_of [] (\<lambda>c. c) sample_tree)" by (simp only: links)
    ultimately show ?thesis
      by (simp only: map_of_listing[OF sample_tree_wf] set_links[OF sample_tree_wf])
  qed
  from refresh_matches_walk[OF sample_tree_wf right rej ex] links ex show ?thesis by auto
qed

definition sample_config :: executor_config where
  "sample_config = \<lparr>token = replicate 32 (CHR ''t''), workspace_id = ''w'', limits = default_limit,
     git_history_depth = 0, secret_patterns = [], never_publish = []\<rparr>"

definition seed_source :: node where
  "seed_source = Dir [(''pkg'', Dir [(''m.py'', File ''code'' 0x1ED 1)]), (''.env'', File ''KEY'' 0x1A4 1),
     (''.local-chat-notes'', File ''mine'' 0x1A4 1)]"

lemma seed_source_wf: "wf_node seed_source" "is_dir (Some seed_source)"
  by code_simp+

theorem seeding_is_faithful_witness:
  "\<exists>snap staged. seed_staging (\<lambda>s. s) [] (\<lambda>c. c) (\<lambda>_. 7) sample_config 9000000000 ''id'' seed_source (Dir []) = Inr (snap, staged)
     \<and> tables_of snap ''pkg/m.py'' = (Some ''code'', Some 4, Some 0x1ED)
     \<and> tables_of snap ''.env'' = (None, None, None)
     \<and> ch_path ` set (workspace_changes snap (listing_of [] (\<lambda>c. c) staged)) = {''.local-chat-notes''}"
proof -
  let ?r = "seed_staging (\<lambda>s. s) [] (\<lambda>c. c) (\<lambda>_. 7) sample_config 9000000000 ''id'' seed_source (Dir [])"
  have "case ?r of Inl _ \<Rightarrow> False | Inr (snap, staged) \<Rightarrow>
      lookup staged (name_parts ''pkg/m.py'') = Some (File ''code'' 0x1ED 1) \<and> lookup staged (name_parts ''.env'') = None
      \<and> map fst (hashes snap) = [''.local-chat-notes'', ''pkg/m.py'']"
    by code_simp
  then obtain snap staged where r: "?r = Inr (snap, staged)"
    and f: "lookup staged (name_parts ''pkg/m.py'') = Some (File ''code'' 0x1ED 1)"
      "lookup staged (name_parts ''.env'') = None" "map fst (hashes snap) = [''.local-chat-notes'', ''pkg/m.py'']"
    by (cases ?r) auto
  have "list_ex (is_hidden_part []) (split_on (CHR ''/'') ''.local-chat-notes'')"
    "\<not> list_ex (is_hidden_part []) (split_on (CHR ''/'') ''pkg/m.py'')" by code_simp+
  then have "{s \<in> set [''.local-chat-notes'', ''pkg/m.py'']. list_ex (is_hidden_part []) (split_on (CHR ''/'') s)}
      = {''.local-chat-notes''}" by auto
  moreover note seeding_is_faithful[OF seed_source_wf r]
  ultimately show ?thesis using r f by (auto simp: seeded_entry_def sample_config_def)
qed

text \<open>A file of the user whose name starts with the staging prefix is copied into a fresh staging area and
  is at once reported as a deletion, although nothing has touched it.\<close>

theorem staging_prefix_file_is_deleted:
  "\<exists>snap staged c. seed_staging (\<lambda>s. s) [] (\<lambda>c. c) (\<lambda>_. 7) sample_config 9000000000 ''id'' seed_source (Dir []) = Inr (snap, staged)
     \<and> lookup staged [''.local-chat-notes''] = Some (File ''mine'' 0x1A4 1)
     \<and> workspace_changes snap (listing_of [] (\<lambda>c. c) staged) = [c]
     \<and> ch_path c = ''.local-chat-notes'' \<and> ch_operation c = Delete"
proof -
  let ?r = "seed_staging (\<lambda>s. s) [] (\<lambda>c. c) (\<lambda>_. 7) sample_config 9000000000 ''id'' seed_source (Dir [])"
  have "case ?r of Inl _ \<Rightarrow> False | Inr (snap, staged) \<Rightarrow>
      lookup staged [''.local-chat-notes''] = Some (File ''mine'' 0x1A4 1)
      \<and> (case workspace_changes snap (listing_of [] (\<lambda>c. c) staged) of
           [c] \<Rightarrow> ch_path c = ''.local-chat-notes'' \<and> ch_operation c = Delete | _ \<Rightarrow> False)"
    by code_simp
  then show ?thesis by (auto split: sum.splits prod.splits list.splits)
qed

end
