(* ===== verification/Checkpoints.thy ===== *)
theory Checkpoints
  imports Staging
begin

text \<open>
  Recovery checkpoints of the staging area (\<open>executor/checkpoints.py\<close>): creating one, pruning the
  store, restoring one, and the context manager \<open>checkpointed\<close> around every mutation.

  The store has the content-addressed objects and the manifests by checkpoint id, in the order the
  directory lists them.  A manifest is the value the code writes; one that is not the JSON it wrote
  is outside the model.  The SHA-256 function, the Unicode normalisation, the configured secret
  globs, what lies behind links, and the default file mode are the fields of \<open>fs_env\<close>.
\<close>

section \<open>The store\<close>

record fs_env =
  sha :: "string \<Rightarrow> string"
  nfc :: "string \<Rightarrow> string"
  extra_globs :: "string list"
  behind_links :: "path \<Rightarrow> bool"
  link_leads :: "path \<Rightarrow> string \<Rightarrow> (bool \<times> int) option"
  new_file_mode :: int

record manifest =
  created_ns :: int
  m_files :: "(string \<times> (string \<times> int \<times> int option)) list"
  m_links :: "(string \<times> string) list"

record store =
  objects :: "(string \<times> string) list"
  checkpoints :: "(string \<times> manifest) list"

definition DEFAULT_MAX_CHECKPOINTS :: int where "DEFAULT_MAX_CHECKPOINTS = 8"
definition DEFAULT_MAX_CHECKPOINT_FILES :: int where "DEFAULT_MAX_CHECKPOINT_FILES = 300000"
definition DEFAULT_MAX_CHECKPOINT_BYTES :: int where "DEFAULT_MAX_CHECKPOINT_BYTES = 2500000000"
definition MAX_LINK_TARGET_BYTES :: nat where "MAX_LINK_TARGET_BYTES = 4096"

text \<open>\<open>_CHECKPOINT_ID\<close>\<close>

definition checkpoint_id_ok :: "string \<Rightarrow> bool" where
  "checkpoint_id_ok i \<longleftrightarrow> 20 \<le> length i \<and> length i \<le> 64 \<and> list_all (\<lambda>c. c \<in> set ''0123456789abcdef-'') i"

section \<open>Pruning\<close>

text \<open>\<open>_referenced_objects\<close>: sizes by digest, the last file with a digest decides.\<close>

definition referenced_objects :: "manifest \<Rightarrow> (string \<times> int) list" where
  "referenced_objects m =
     fold (\<lambda>f d. if fst (snd f) \<noteq> [] then AList.update (fst (snd f)) (max 0 (fst (snd (snd f)))) d else d) (m_files m) []"

text \<open>\<open>_checkpoint_order\<close>: by creation time, then by name.\<close>

definition in_checkpoint_order :: "(string \<times> manifest) list \<Rightarrow> (string \<times> manifest) list" where
  "in_checkpoint_order cs = sort_key (\<lambda>c. max 0 (created_ns (snd c))) (sort_key fst cs)"

definition all_references :: "(string \<times> manifest) list \<Rightarrow> (string \<times> int) list" where
  "all_references cs = fold (\<lambda>c d. fold (\<lambda>r. AList.update (fst r) (snd r)) (referenced_objects (snd c)) d) cs []"

definition kept_directories :: "(string \<times> manifest) list \<Rightarrow> (string \<times> manifest) list" where
  "kept_directories cs = filter (\<lambda>c. checkpoint_id_ok (fst c)) cs"

definition removable :: "string \<Rightarrow> (string \<times> manifest) list \<Rightarrow> (string \<times> manifest) list" where
  "removable current cs = filter (\<lambda>c. fst c \<noteq> current) (kept_directories cs)"

definition remove_checkpoint :: "string \<Rightarrow> (string \<times> manifest) list \<Rightarrow> (string \<times> manifest) list" where
  "remove_checkpoint i cs = filter (\<lambda>c. fst c \<noteq> i) cs"

lemma mem_in_checkpoint_order [simp]: "set (in_checkpoint_order cs) = set cs"
  by (simp add: in_checkpoint_order_def)

lemma oldest_mem: "cs \<noteq> [] \<Longrightarrow> hd (in_checkpoint_order cs) \<in> set cs"
  by (metis hd_in_set mem_in_checkpoint_order set_empty)

lemma remove_checkpoint_shorter:
  assumes "removable current cs \<noteq> []"
  shows "length (remove_checkpoint (fst (hd (in_checkpoint_order (removable current cs)))) cs) < length cs"
proof -
  from oldest_mem[OF assms] have "hd (in_checkpoint_order (removable current cs)) \<in> set cs"
    by (auto simp: removable_def kept_directories_def)
  then show ?thesis unfolding remove_checkpoint_def by (auto intro!: length_filter_less)
qed

text \<open>The loop of \<open>_prune\<close>: it ends with the retained references, or with an error when only the
  current checkpoint is left and still too large.\<close>

function prune_loop :: "string \<Rightarrow> int \<Rightarrow> (string \<times> manifest) list \<Rightarrow>
    (exn + (string \<times> int) list) \<times> (string \<times> manifest) list" where
  "prune_loop current max_storage cs =
     (let referenced = all_references (kept_directories cs)
      in if sum_list (map snd referenced) \<le> max_storage then (Inr referenced, cs)
         else if removable current cs = [] then (Inl (ToolError LIMIT_EXCEEDED), cs)
         else prune_loop current max_storage
                (remove_checkpoint (fst (hd (in_checkpoint_order (removable current cs)))) cs))"
  by pat_completeness auto
termination
  by (relation "measure (\<lambda>(current, max_storage, cs). length cs)") (auto simp: remove_checkpoint_shorter)

declare prune_loop.simps [simp del]

definition keep_ids :: "string \<Rightarrow> int \<Rightarrow> (string \<times> manifest) list \<Rightarrow> string list" where
  "keep_ids current max_count cs =
     (let directories = in_checkpoint_order (kept_directories cs)
      in current # map fst (drop (length directories - nat (max 1 max_count)) directories))"

definition prune :: "string \<Rightarrow> int \<Rightarrow> int \<Rightarrow> store \<Rightarrow> (exn + unit) \<times> store" where
  "prune current max_count max_storage st =
     (let keep = keep_ids current max_count (checkpoints st);
          cs = filter (\<lambda>c. checkpoint_id_ok (fst c) \<longrightarrow> fst c \<in> set keep) (checkpoints st)
      in case prune_loop current max_storage cs of
           (Inl e, cs') \<Rightarrow> (Inl e, st\<lparr>checkpoints := cs'\<rparr>)
         | (Inr referenced, cs') \<Rightarrow>
             (Inr (), \<lparr>objects = filter (\<lambda>b. fst b \<in> fst ` set referenced) (objects st), checkpoints = cs'\<rparr>))"

section \<open>Creating a checkpoint\<close>

text \<open>\<open>_link_targets\<close>\<close>

definition short_link :: "node \<Rightarrow> string \<Rightarrow> (string \<times> string) option" where
  "short_link t l = (case lookup t (name_parts l) of
        Some (Link g r) \<Rightarrow> if length g \<le> MAX_LINK_TARGET_BYTES then Some (l, g) else None
      | _ \<Rightarrow> None)"

definition link_targets :: "node \<Rightarrow> string list \<Rightarrow> (string \<times> string) list" where
  "link_targets t links = sort_key fst (List.map_filter (short_link t) links)"

text \<open>The loop that stores the missing objects; \<open>_store_object\<close> verifies what it copied.\<close>

definition store_object ::
  "fs_env \<Rightarrow> node \<Rightarrow> string \<times> (string \<times> int \<times> int) \<Rightarrow> (string \<times> string) list \<Rightarrow> exn + (string \<times> string) list" where
  "store_object env t f objs =
     (let digest = fst (snd f)
      in if digest \<in> fst ` set objs then Inr objs
         else (case lookup t (name_parts (fst f)) of
             Some (File c m k) \<Rightarrow>
               if sha env c \<noteq> digest then Inl (ToolError CHECKPOINT_CORRUPT)
               else Inr (AList.update digest c objs)
           | _ \<Rightarrow> Inl FileNotFound))"

definition new_manifest_for :: "int \<Rightarrow> listing \<Rightarrow> (string \<times> string) list \<Rightarrow> manifest" where
  "new_manifest_for now files links =
     \<lparr>created_ns = now, m_files = map (\<lambda>(s, (d, z, m)). (s, (d, z, Some m))) (sort_key fst files), m_links = links\<rparr>"

definition create_checkpoint ::
  "fs_env \<Rightarrow> int \<Rightarrow> int \<Rightarrow> int \<Rightarrow> int \<Rightarrow> int \<Rightarrow> string \<Rightarrow> node \<Rightarrow> store \<Rightarrow> (exn + string) \<times> store" where
  "create_checkpoint env max_files max_total max_count free now fresh t st =
     (let files = listing_of (extra_globs env) (sha env) t;
          links = link_targets t (links_of (extra_globs env) (sha env) t);
          total = sum_list (map (\<lambda>f. fst (snd (snd f))) files)
      in if int (length files + length links) > max_files \<or> total > max_total
         then (Inl (ToolError LIMIT_EXCEEDED), st)
         else if free \<le> total + REQUIRED_TEMP_HEADROOM_BYTES then (Inl (ToolError LIMIT_EXCEEDED), st)
         else if fresh \<in> fst ` set (checkpoints st) then (Inl (OSErr False), st)
         else (case run_steps (store_object env t) files (objects st) of
             (Inl e, objs) \<Rightarrow> (Inl e, st\<lparr>objects := objs\<rparr>)
           | (Inr _, objs) \<Rightarrow>
               (case prune fresh max_count max_total
                   \<lparr>objects = objs, checkpoints = checkpoints st @ [(fresh, new_manifest_for now files links)]\<rparr> of
                  (Inl e, st') \<Rightarrow> (Inl e, st'\<lparr>checkpoints := remove_checkpoint fresh (checkpoints st')\<rparr>)
                | (Inr _, st') \<Rightarrow> (Inr fresh, st'))))"

section \<open>Restoring a checkpoint\<close>

definition load_manifest :: "store \<Rightarrow> string \<Rightarrow> exn + manifest" where
  "load_manifest st i =
     (if \<not> checkpoint_id_ok i then Inl (ToolError INVALID_ARGUMENTS)
      else (case map_of (checkpoints st) i of
          None \<Rightarrow> Inl (ToolError CHECKPOINT_NOT_FOUND)
        | Some m \<Rightarrow> Inr m))"

definition check_name :: "fs_env \<Rightarrow> string \<Rightarrow> unit \<Rightarrow> exn + unit" where
  "check_name env s u = rbind (normalize_relative (nfc env) (extra_globs env) False s) (\<lambda>_. Inr ())"

definition check_link :: "fs_env \<Rightarrow> string \<times> string \<Rightarrow> unit \<Rightarrow> exn + unit" where
  "check_link env l u = (if NUL \<in> set (snd l) then Inl (ToolError CHECKPOINT_CORRUPT) else check_name env (fst l) ())"

definition checked_path :: "fs_env \<Rightarrow> node \<Rightarrow> string \<Rightarrow> exn + path" where
  "checked_path env t s = safe_path (nfc env) (extra_globs env) (behind_links env) t False False s"

text \<open>\<open>_remove_new_links\<close>: operating-system errors skip a link, a path that is refused ends it.\<close>

definition remove_new_link ::
  "fs_env \<Rightarrow> (string \<times> string) list \<Rightarrow> string \<Rightarrow> string list \<times> node \<Rightarrow> exn + string list \<times> node" where
  "remove_new_link env expected s st =
     (case st of (removed, t) \<Rightarrow>
       (case lookup t (name_parts s) of
          Some (Link g r) \<Rightarrow>
            if map_of expected s = Some g then Inr st
            else (case checked_path env t s of
                Inl e \<Rightarrow> if is_os_error e then Inr st else Inl e
              | Inr p \<Rightarrow> Inr (removed @ [s], remove_at p t))
        | _ \<Rightarrow> Inr st))"

text \<open>\<open>_content_and_mode\<close> of a present and of a recorded file.\<close>

definition current_state :: "listing \<Rightarrow> string \<Rightarrow> string option \<times> int option" where
  "current_state cur s = (case map_of cur s of None \<Rightarrow> (None, None) | Some (d, z, m) \<Rightarrow> (Some d, Some m))"

definition expected_state :: "(string \<times> (string \<times> int \<times> int option)) list \<Rightarrow> string \<Rightarrow> string option \<times> int option" where
  "expected_state fs s = (case map_of fs s of None \<Rightarrow> (None, None) | Some (d, z, m) \<Rightarrow> (Some d, m))"

definition changed_since :: "listing \<Rightarrow> (string \<times> (string \<times> int \<times> int option)) list \<Rightarrow> string list" where
  "changed_since cur fs =
     filter (\<lambda>s. current_state cur s \<noteq> expected_state fs s) (sort_paths (map fst cur @ map fst fs))"

definition prepare ::
  "fs_env \<Rightarrow> store \<Rightarrow> (string \<times> (string \<times> int \<times> int option)) list \<Rightarrow> string \<Rightarrow>
   (string \<times> (string \<times> int option)) list \<Rightarrow> exn + (string \<times> (string \<times> int option)) list" where
  "prepare env st fs s prepared =
     (case map_of fs s of
        None \<Rightarrow> Inr prepared
      | Some (digest, z, m) \<Rightarrow>
          (case map_of (objects st) digest of
             None \<Rightarrow> Inl (ToolError CHECKPOINT_CORRUPT)
           | Some c \<Rightarrow>
               if sha env c \<noteq> digest then Inl (ToolError CHECKPOINT_CORRUPT)
               else Inr (AList.update s (c, m) prepared)))"

definition set_mode :: "path \<Rightarrow> int option \<Rightarrow> node \<Rightarrow> node" where
  "set_mode p m t = (case (m, lookup t p) of (Some m', Some (File c _ k)) \<Rightarrow> put p (File c m' k) t | _ \<Rightarrow> t)"

definition restore_one ::
  "fs_env \<Rightarrow> (string \<times> (string \<times> int option)) list \<Rightarrow> string \<Rightarrow> node \<Rightarrow> exn + node" where
  "restore_one env prepared s t =
     rbind (checked_path env t s) (\<lambda>p.
       (case map_of prepared s of
          None \<Rightarrow>
            if \<not> path_exists (behind_links env) t p then Inr t
            else (case lookup t p of
                Some (File c m k) \<Rightarrow> Inr (remove_at p t)
              | _ \<Rightarrow> Inl UnsafePath)
        | Some (c, m) \<Rightarrow>
            rbind (make_dirs (butlast p) t) (\<lambda>t1.
            rbind (atomic_write (new_file_mode env) t1 p c) (\<lambda>t2. Inr (set_mode p m t2)))))"

text \<open>\<open>_recreate_links\<close>: a directory that took the place of a link is left alone.\<close>

definition recreate_link ::
  "fs_env \<Rightarrow> string \<times> string \<Rightarrow> string list \<times> node \<Rightarrow> exn + string list \<times> node" where
  "recreate_link env l st =
     (case st of (restored, t) \<Rightarrow>
       rbind (checked_path env t (fst l)) (\<lambda>p.
         let place = (\<lambda>t'. rbind (make_dirs (butlast p) t') (\<lambda>t1.
               Inr (restored @ [fst l], put p (Link (snd l) (link_leads env p (snd l))) t1)))
         in (case lookup t p of
               Some (Link g r) \<Rightarrow> if g = snd l then Inr st else place (remove_at p t)
             | Some (Dir es) \<Rightarrow> Inr st
             | Some _ \<Rightarrow> place (remove_at p t)
             | None \<Rightarrow> place t)))"

text \<open>Steps that also collect the paths they touched.\<close>

definition collect_steps :: "('a \<Rightarrow> 'b list \<times> 's \<Rightarrow> 'e + 'b list \<times> 's) \<Rightarrow> 'a list \<Rightarrow> 's \<Rightarrow> ('e + 'b list) \<times> 's" where
  "collect_steps f xs s =
     (case run_steps f xs ([], s) of (Inl e, acc, s') \<Rightarrow> (Inl e, s') | (Inr _, acc, s') \<Rightarrow> (Inr acc, s'))"

lemma collect_steps_Inr [simp, res_simps]:
  "collect_steps f xs s = (Inr acc, s') \<longleftrightarrow> fold_res f xs ([], s) = Inr (acc, s')"
proof -
  obtain r a s1 where r: "run_steps f xs ([], s) = (r, a, s1)" by (metis prod_cases3)
  show ?thesis
  proof (cases r)
    case (Inl e)
    have "fold_res f xs ([], s) \<noteq> Inr (acc, s')"
    proof
      assume "fold_res f xs ([], s) = Inr (acc, s')"
      from run_steps_Inr[THEN iffD2, OF this, of "()"] r Inl show False by simp
    qed
    then show ?thesis unfolding collect_steps_def r Inl by simp
  next
    case (Inr u)
    then have "fold_res f xs ([], s) = Inr (a, s1)" using r by (metis run_steps_Inr)
    then show ?thesis unfolding collect_steps_def r Inr by auto
  qed
qed

definition restore_checkpoint ::
  "fs_env \<Rightarrow> int \<Rightarrow> int \<Rightarrow> store \<Rightarrow> string \<Rightarrow> node \<Rightarrow> (exn + string list) \<times> node" where
  "restore_checkpoint env max_files max_total st i t =
     (case load_manifest st i of Inl e \<Rightarrow> (Inl e, t) | Inr m \<Rightarrow>
      if max_files < int (length (m_files m)) then (Inl (ToolError LIMIT_EXCEEDED), t)
      else case fold_res (check_name env) (map fst (m_files m)) () of Inl e \<Rightarrow> (Inl e, t) | Inr _ \<Rightarrow>
      if max_total < sum_list (map (\<lambda>f. max 0 (fst (snd (snd f)))) (m_files m)) then (Inl (ToolError LIMIT_EXCEEDED), t)
      else case fold_res (check_link env) (m_links m) () of Inl e \<Rightarrow> (Inl e, t) | Inr _ \<Rightarrow>
      case collect_steps (remove_new_link env (m_links m)) (links_of (extra_globs env) (sha env) t) t of
        (Inl e, t1) \<Rightarrow> (Inl e, t1)
      | (Inr removed, t1) \<Rightarrow>
          (let changed = changed_since (listing_of (extra_globs env) (sha env) t1) (m_files m)
           in case fold_res (prepare env st (m_files m)) changed [] of Inl e \<Rightarrow> (Inl e, t1) | Inr prepared \<Rightarrow>
              case run_steps (restore_one env prepared) changed t1 of
                (Inl e, t2) \<Rightarrow> (Inl e, t2)
              | (Inr _, t2) \<Rightarrow>
                  (case collect_steps (recreate_link env) (m_links m) t2 of
                     (Inl e, t3) \<Rightarrow> (Inl e, t3)
                   | (Inr restored, t3) \<Rightarrow> (Inr (sort_paths (changed @ removed @ restored)), t3))))"

section \<open>Lemmas on references\<close>

definition sum_sizes :: "('a \<times> int) list \<Rightarrow> int" where
  "sum_sizes d = sum_list (map snd d)"

definition sizes_ok :: "('a \<times> int) list \<Rightarrow> bool" where
  "sizes_ok d \<longleftrightarrow> (\<forall>x\<in>set d. 0 \<le> snd x)"

lemma sizes_ok_simps [simp]: "sizes_ok []" "sizes_ok (x # d) \<longleftrightarrow> 0 \<le> snd x \<and> sizes_ok d"
  by (auto simp: sizes_ok_def)

lemma update_sizes:
  "0 \<le> v \<Longrightarrow> sizes_ok d \<Longrightarrow> sizes_ok (AList.update k v d) \<and> sum_sizes (AList.update k v d) \<le> sum_sizes d + v"
  by (induction d) (auto simp: sum_sizes_def)

lemma update_keys [simp]: "fst ` set (AList.update k v d) = insert k (fst ` set d)"
  using dom_map_of_conv_image_fst[of "AList.update k v d"] dom_map_of_conv_image_fst[of d]
  by (simp add: map_of_update)

definition add_reference :: "string \<times> (string \<times> int \<times> 'a) \<Rightarrow> (string \<times> int) list \<Rightarrow> (string \<times> int) list" where
  "add_reference f d = (if fst (snd f) \<noteq> [] then AList.update (fst (snd f)) (max 0 (fst (snd (snd f)))) d else d)"

lemma referenced_objects_fold: "referenced_objects m = fold add_reference (m_files m) []"
  by (simp add: referenced_objects_def add_reference_def[abs_def])

lemma fold_add_reference:
  "sizes_ok d \<Longrightarrow> sizes_ok (fold add_reference fs d)
    \<and> sum_sizes (fold add_reference fs d) \<le> sum_sizes d + sum_list (map (\<lambda>f. max 0 (fst (snd (snd f)))) fs)
    \<and> fst ` set (fold add_reference fs d) = fst ` set d \<union> (fst ` snd ` set fs - {[]})"
proof (induction fs arbitrary: d)
  case (Cons f fs)
  have "sizes_ok (add_reference f d)"
    "sum_sizes (add_reference f d) \<le> sum_sizes d + max 0 (fst (snd (snd f)))"
    "fst ` set (add_reference f d) = fst ` set d \<union> ({fst (snd f)} - {[]})"
    using update_sizes[of "max 0 (fst (snd (snd f)))" d] Cons.prems by (auto simp: add_reference_def)
  with Cons.IH[of "add_reference f d"] show ?case by auto
qed simp

lemma fold_update_sizes:
  "sizes_ok rs \<Longrightarrow> sizes_ok d \<Longrightarrow> sizes_ok (fold (\<lambda>r. AList.update (fst r) (snd r)) rs d)
    \<and> sum_sizes (fold (\<lambda>r. AList.update (fst r) (snd r)) rs d) \<le> sum_sizes d + sum_sizes rs
    \<and> fst ` set (fold (\<lambda>r. AList.update (fst r) (snd r)) rs d) = fst ` set d \<union> fst ` set rs"
proof (induction rs arbitrary: d)
  case (Cons r rs)
  note u = update_sizes[of "snd r" d "fst r"]
  from Cons.prems u have "sizes_ok (AList.update (fst r) (snd r) d)" by simp
  with Cons.IH[of "AList.update (fst r) (snd r) d"] Cons.prems u show ?case
    by (auto simp: sum_sizes_def)
qed (simp add: sum_sizes_def)

definition manifest_total :: "manifest \<Rightarrow> int" where
  "manifest_total m = sum_list (map (\<lambda>f. max 0 (fst (snd (snd f)))) (m_files m))"

lemma referenced_objects_facts:
  "sizes_ok (referenced_objects m)" "sum_sizes (referenced_objects m) \<le> manifest_total m"
  "fst ` set (referenced_objects m) = fst ` snd ` set (m_files m) - {[]}"
  using fold_add_reference[of "[]" "m_files m"]
  by (simp_all add: referenced_objects_fold manifest_total_def sum_sizes_def)

lemma all_references_single: "sum_sizes (all_references [c]) \<le> manifest_total (snd c)"
  using fold_update_sizes[OF referenced_objects_facts(1), of "[]" "snd c"] referenced_objects_facts(2)[of "snd c"]
  by (simp add: all_references_def sum_sizes_def)

definition needed_objects :: "(string \<times> manifest) list \<Rightarrow> string set" where
  "needed_objects cs = (\<Union>c\<in>set cs. fst ` snd ` set (m_files (snd c)) - {[]})"

lemma all_references_keys: "fst ` set (all_references cs) = needed_objects cs"
proof -
  have "sizes_ok d \<Longrightarrow>
      fst ` set (fold (\<lambda>c d. fold (\<lambda>r. AList.update (fst r) (snd r)) (referenced_objects (snd c)) d) cs d)
      = fst ` set d \<union> (\<Union>c\<in>set cs. fst ` snd ` set (m_files (snd c)) - {[]})" for d
  proof (induction cs arbitrary: d)
    case (Cons c cs)
    note f = fold_update_sizes[OF referenced_objects_facts(1)[of "snd c"] Cons.prems]
    show ?case using Cons.IH[OF conjunct1[OF f]] f referenced_objects_facts(3)[of "snd c"] by auto
  qed simp
  from this[of "[]"] show ?thesis by (simp add: all_references_def needed_objects_def)
qed

lemma needed_keys: "fst ` set (filter (\<lambda>b. fst b \<in> N) objs) = fst ` set objs \<inter> N"
  by auto

lemma needed_mono: "(i, m) \<in> set cs \<Longrightarrow> fst ` snd ` set (m_files m) - {[]} \<subseteq> needed_objects cs"
  using UN_upper[of "(i, m)" "set cs" "\<lambda>c. fst ` snd ` set (m_files (snd c)) - {[]}"]
  by (simp add: needed_objects_def)

section \<open>Lemmas on pruning\<close>

text \<open>Pruning drops checkpoints, never the current one, and stops only within the budget or with
  nothing else to drop.\<close>

lemma prune_loop_facts:
  "set (snd (prune_loop current mx cs)) \<subseteq> set cs
    \<and> filter (\<lambda>c. fst c = current) (snd (prune_loop current mx cs)) = filter (\<lambda>c. fst c = current) cs
    \<and> (distinct (map fst cs) \<longrightarrow> distinct (map fst (snd (prune_loop current mx cs))))
    \<and> (case fst (prune_loop current mx cs) of
         Inr refs \<Rightarrow> refs = all_references (kept_directories (snd (prune_loop current mx cs))) \<and> sum_sizes refs \<le> mx
       | Inl e \<Rightarrow> e = ToolError LIMIT_EXCEEDED \<and> removable current (snd (prune_loop current mx cs)) = []
           \<and> mx < sum_sizes (all_references (kept_directories (snd (prune_loop current mx cs)))))"
proof (induction current mx cs rule: prune_loop.induct)
  case (1 current mx cs)
  let ?victim = "fst (hd (in_checkpoint_order (removable current cs)))"
  show ?case
  proof (cases "sum_sizes (all_references (kept_directories cs)) \<le> mx \<or> removable current cs = []")
    case True
    then show ?thesis by (auto simp: prune_loop.simps[of current mx cs] Let_def sum_sizes_def)
  next
    case False
    then have step: "prune_loop current mx cs = prune_loop current mx (remove_checkpoint ?victim cs)"
      by (simp add: prune_loop.simps[of current mx cs] Let_def sum_sizes_def)
    have "?victim \<noteq> current" using oldest_mem[of "removable current cs"] False by (auto simp: removable_def)
    then have keep: "filter (\<lambda>c. fst c = current) (remove_checkpoint ?victim cs) = filter (\<lambda>c. fst c = current) cs"
      by (auto simp: remove_checkpoint_def intro: filter_cong)
    have "distinct (map fst cs) \<Longrightarrow> distinct (map fst (remove_checkpoint ?victim cs))"
      unfolding remove_checkpoint_def by (rule distinct_map_filter)
    moreover have "set (remove_checkpoint ?victim cs) \<subseteq> set cs" by (auto simp: remove_checkpoint_def)
    moreover note 1[OF refl _ _] 
    ultimately show ?thesis using False unfolding step keep[symmetric]
      by (simp add: sum_sizes_def) blast
  qed
qed

definition store_ok :: "fs_env \<Rightarrow> store \<Rightarrow> bool" where
  "store_ok env st \<longleftrightarrow> distinct (map fst (checkpoints st))
     \<and> (\<forall>d c. map_of (objects st) d = Some c \<longrightarrow> sha env c = d)
     \<and> (\<forall>(i, m) \<in> set (checkpoints st). checkpoint_id_ok i \<longrightarrow>
          fst ` snd ` set (m_files m) \<subseteq> fst ` set (objects st) - {[]})"

lemma distinct_filter_key: "distinct (map fst cs) \<Longrightarrow> (i, m) \<in> set cs \<Longrightarrow> filter (\<lambda>c. fst c = i) cs = [(i, m)]"
proof (induction cs)
  case (Cons c cs)
  show ?case
  proof (cases "c = (i, m)")
    case True
    with Cons.prems have "filter (\<lambda>c. fst c = i) cs = []" by (force simp: filter_empty_conv)
    with True show ?thesis by simp
  next
    case False
    with Cons.prems have "(i, m) \<in> set cs" "fst c \<noteq> i" by (auto simp: image_iff)
    with Cons show ?thesis by simp
  qed
qed simp

lemma kept_only_current:
  assumes "distinct (map fst cs)" and "(i, m) \<in> set cs" and "checkpoint_id_ok i" and "removable i cs = []"
  shows "kept_directories cs = [(i, m)]"
proof -
  have "kept_directories cs = filter (\<lambda>c. fst c = i) cs"
    using assms(3,4) unfolding removable_def kept_directories_def
    by (auto simp: filter_empty_conv intro: filter_cong)
  with distinct_filter_key[OF assms(1,2)] show ?thesis by simp
qed

text \<open>Claim C40. Pruning always ends within the storage budget: if the current checkpoint alone fits, the
  loop drops checkpoints until the retained ones fit, keeps the current one, keeps every object that a
  retained checkpoint needs, and retains no more checkpoints than asked for besides the current one.\<close>

theorem prune_reaches_budget:
  assumes "distinct (map fst (checkpoints st))" and "(i, m) \<in> set (checkpoints st)" and "checkpoint_id_ok i"
    and "manifest_total m \<le> mx"
  shows "\<exists>st'. prune i max_count mx st = (Inr (), st') \<and> (i, m) \<in> set (checkpoints st')
    \<and> set (checkpoints st') \<subseteq> set (checkpoints st) \<and> distinct (map fst (checkpoints st'))
    \<and> sum_sizes (all_references (kept_directories (checkpoints st'))) \<le> mx
    \<and> length (kept_directories (checkpoints st')) \<le> nat (max 1 max_count) + 1
    \<and> objects st' = filter (\<lambda>b. fst b \<in> needed_objects (kept_directories (checkpoints st'))) (objects st)"
proof -
  let ?keep = "keep_ids i max_count (checkpoints st)"
  let ?cs = "filter (\<lambda>c. checkpoint_id_ok (fst c) \<longrightarrow> fst c \<in> set ?keep) (checkpoints st)"
  obtain r cs' where l: "prune_loop i mx ?cs = (r, cs')" by fastforce
  have d: "distinct (map fst ?cs)" using assms(1) by (rule distinct_map_filter)
  have "i \<in> set ?keep" by (simp add: keep_ids_def Let_def)
  then have mem: "(i, m) \<in> set ?cs" using assms(2) by simp
  note f = prune_loop_facts[of i mx ?cs, unfolded l fst_conv snd_conv]
  from f d have d': "distinct (map fst cs')" and sub: "set cs' \<subseteq> set ?cs" by blast+
  have "(i, m) \<in> set (filter (\<lambda>c. fst c = i) cs')" using f mem by simp
  then have mem': "(i, m) \<in> set cs'" by simp
  have refs: "r = Inr (all_references (kept_directories cs')) \<and> sum_sizes (all_references (kept_directories cs')) \<le> mx"
  proof (cases r)
    case (Inl e)
    with f have "removable i cs' = []" "mx < sum_sizes (all_references (kept_directories cs'))" by simp_all
    with kept_only_current[OF d' mem' assms(3)] all_references_single[of "(i, m)"] assms(4) show ?thesis by simp
  qed (use f in auto)
  have "fst ` set (kept_directories cs') \<subseteq> set ?keep" using sub by (auto simp: kept_directories_def)
  then have "card (fst ` set (kept_directories cs')) \<le> length ?keep"
    using card_length[of ?keep] card_mono[OF finite_set] le_trans by blast
  moreover have "card (fst ` set (kept_directories cs')) = length (kept_directories cs')"
    using distinct_card[of "map fst (kept_directories cs')"] distinct_map_filter[OF d'] by (simp add: kept_directories_def)
  moreover have "length ?keep \<le> nat (max 1 max_count) + 1" by (simp add: keep_ids_def Let_def)
  ultimately have count: "length (kept_directories cs') \<le> nat (max 1 max_count) + 1" by linarith
  have "prune i max_count mx st = (Inr (), \<lparr>objects = filter (\<lambda>b. fst b \<in> fst ` set (all_references (kept_directories cs')))
      (objects st), checkpoints = cs'\<rparr>)"
    using l refs by (simp add: prune_def Let_def)
  then show ?thesis using mem' sub d' refs count by (auto simp: all_references_keys)
qed

lemma map_of_filter_key: "map_of (filter (\<lambda>b. P (fst b)) xs) k = (if P k then map_of xs k else None)"
  by (induction xs) auto

lemma store_objects_ok:
  assumes "fold_res (store_object env t) fs objs = Inr objs'"
    and "\<forall>d c. map_of objs d = Some c \<longrightarrow> sha env c = d"
  shows "(\<forall>d c. map_of objs' d = Some c \<longrightarrow> sha env c = d)
    \<and> fst ` set objs' = fst ` set objs \<union> fst ` snd ` set fs"
  using assms
proof (induction fs arbitrary: objs)
  case (Cons f fs)
  then obtain o1 where o1: "store_object env t f objs = Inr o1" "fold_res (store_object env t) fs o1 = Inr objs'"
    by auto
  then have "fst (snd f) \<in> fst ` set objs \<and> o1 = objs
      \<or> (\<exists>c. o1 = AList.update (fst (snd f)) c objs \<and> sha env c = fst (snd f))"
    by (auto simp: store_object_def Let_def split: if_splits option.splits node.splits)
  then have "\<forall>d c. map_of o1 d = Some c \<longrightarrow> sha env c = d" "fst ` set o1 = insert (fst (snd f)) (fst ` set objs)"
    using Cons.prems(2) by (elim disjE exE conjE; simp add: map_of_update insert_absorb)+
  with Cons.IH[OF o1(2)] show ?case by (simp add: image_Un insert_commute)
qed simp

lemma store_objects_succeed:
  assumes "\<forall>f\<in>set fs. \<exists>c m k. lookup t (name_parts (fst f)) = Some (File c m k) \<and> fst (snd f) = sha env c"
  shows "\<exists>objs'. fold_res (store_object env t) fs objs = Inr objs'"
  using assms
proof (induction fs arbitrary: objs)
  case (Cons f fs)
  then obtain o1 where "store_object env t f objs = Inr o1"
    by (force simp: store_object_def Let_def)
  with Cons show ?case by auto
qed simp

lemma listing_facts:
  assumes "wf_node t" and "is_dir (Some t)" and "f \<in> set (listing_of extra h t)"
  shows "\<exists>c m k. lookup t (name_parts (fst f)) = Some (File c m k) \<and> snd f = (h c, int (length c), m)"
  using assms(3) set_listing[OF assms(1,2), of "fst f" "snd f" extra h]
  by (auto simp: visible_at_def split: if_splits option.splits node.splits)

lemma mem_new_manifest:
  "(s, (d, z, mo)) \<in> set (m_files (new_manifest_for now files links)) \<longleftrightarrow> (\<exists>m. mo = Some m \<and> (s, (d, z, m)) \<in> set files)"
  by (force simp: new_manifest_for_def image_iff)

lemma new_manifest_digests:
  "fst ` snd ` set (m_files (new_manifest_for now files links)) = fst ` snd ` set files"
proof -
  have "map (fst \<circ> snd) (map (\<lambda>(s, (d, z, m)). (s, (d, z, Some m))) xs) = map (fst \<circ> snd) xs"
    for xs :: listing by (induction xs) auto
  from arg_cong[where f = set, OF this[of "sort_key fst files"]] show ?thesis
    by (simp add: new_manifest_for_def image_comp comp_assoc)
qed

lemma manifest_total_new:
  assumes "\<forall>f\<in>set files. 0 \<le> fst (snd (snd f))"
  shows "manifest_total (new_manifest_for now files links) = sum_list (map (\<lambda>f. fst (snd (snd f))) files)"
proof -
  have "manifest_total (new_manifest_for now files links) = sum_list (map (\<lambda>f. max 0 (fst (snd (snd f)))) (sort_key fst files))"
    by (simp add: manifest_total_def new_manifest_for_def comp_def case_prod_unfold)
  also have "\<dots> = sum_list (map (\<lambda>f. max 0 (fst (snd (snd f)))) files)"
    by (simp only: sum_mset_sum_list[symmetric] mset_map mset_sort)
  also have "\<dots> = sum_list (map (\<lambda>f. fst (snd (snd f))) files)"
    using assms by (intro arg_cong[where f = sum_list] map_cong) auto
  finally show ?thesis .
qed

text \<open>Creating a checkpoint fails only when the staging area exceeds the limits, when the state
  volume is too full, or when the identifier is taken; then no checkpoint is added. Otherwise the
  store keeps its integrity (every object has the content of its digest, every retained checkpoint
  has all its objects) and the budget, and the new manifest records the listing.\<close>

theorem create_records_listing:
  assumes "wf_node t" and "is_dir (Some t)" and "store_ok env st" and "checkpoint_id_ok fresh"
    and "\<forall>c. sha env c \<noteq> []"
  shows "case create_checkpoint env mf mt mc free now fresh t st of
      (Inr i, st') \<Rightarrow> i = fresh \<and> store_ok env st'
        \<and> load_manifest st' fresh = Inr (new_manifest_for now (listing_of (extra_globs env) (sha env) t)
            (link_targets t (links_of (extra_globs env) (sha env) t)))
        \<and> sum_sizes (all_references (kept_directories (checkpoints st'))) \<le> mt
        \<and> length (kept_directories (checkpoints st')) \<le> nat (max 1 mc) + 1
    | (Inl e, st') \<Rightarrow> st' = st \<and> (fresh \<in> fst ` set (checkpoints st) \<or> e = ToolError LIMIT_EXCEEDED \<and>
        (mf < int (length (listing_of (extra_globs env) (sha env) t)
            + length (link_targets t (links_of (extra_globs env) (sha env) t)))
         \<or> min mt (free - REQUIRED_TEMP_HEADROOM_BYTES - 1)
             < sum_list (map (\<lambda>f. fst (snd (snd f))) (listing_of (extra_globs env) (sha env) t))))"
proof -
  let ?files = "listing_of (extra_globs env) (sha env) t"
  let ?links = "link_targets t (links_of (extra_globs env) (sha env) t)"
  let ?total = "sum_list (map (\<lambda>f. fst (snd (snd f))) ?files)" and ?m = "new_manifest_for now ?files ?links"
  show ?thesis
  proof (cases "int (length ?files + length ?links) > mf \<or> ?total > mt \<or> free \<le> ?total + REQUIRED_TEMP_HEADROOM_BYTES
      \<or> fresh \<in> fst ` set (checkpoints st)")
    case True
    then show ?thesis by (auto simp: create_checkpoint_def Let_def)
  next
    case False
    obtain objs where o: "fold_res (store_object env t) ?files (objects st) = Inr objs"
      using store_objects_succeed[of ?files t env "objects st"] listing_facts[OF assms(1,2)] by (metis fst_conv)
    let ?st1 = "\<lparr>objects = objs, checkpoints = checkpoints st @ [(fresh, ?m)]\<rparr>"
    have "\<forall>d c. map_of (objects st) d = Some c \<longrightarrow> sha env c = d" using assms(3) by (simp add: store_ok_def)
    note so = store_objects_ok[OF o this]
    have objs: "\<forall>d c. map_of objs d = Some c \<longrightarrow> sha env c = d" "fst ` set objs = fst ` set (objects st) \<union> fst ` snd ` set ?files"
      by (rule conjunct1[OF so], rule conjunct2[OF so])
    have sizes: "\<forall>f\<in>set ?files. 0 \<le> fst (snd (snd f)) \<and> fst (snd f) \<noteq> []"
    proof
      fix f assume "f \<in> set ?files"
      from listing_facts[OF assms(1,2) this] obtain c m where "snd f = (sha env c, int (length c), m)" by blast
      then show "0 \<le> fst (snd (snd f)) \<and> fst (snd f) \<noteq> []" using assms(5) by simp
    qed
    have "distinct (map fst (checkpoints ?st1))" using assms(3) False by (auto simp: store_ok_def)
    moreover have "manifest_total ?m \<le> mt" using manifest_total_new[of ?files] sizes False by simp
    ultimately obtain st' where p: "prune fresh mc mt ?st1 = (Inr (), st')" "(fresh, ?m) \<in> set (checkpoints st')"
      "set (checkpoints st') \<subseteq> set (checkpoints ?st1)" "distinct (map fst (checkpoints st'))"
      "sum_sizes (all_references (kept_directories (checkpoints st'))) \<le> mt"
      "length (kept_directories (checkpoints st')) \<le> nat (max 1 mc) + 1"
      "objects st' = filter (\<lambda>b. fst b \<in> needed_objects (kept_directories (checkpoints st'))) objs"
      using prune_reaches_budget[of ?st1 fresh ?m mt mc] assms(4) by auto
    have c: "create_checkpoint env mf mt mc free now fresh t st = (Inr fresh, st')"
      using False p(1) by (simp add: create_checkpoint_def Let_def run_steps_Inr[THEN iffD2, OF o, of "()"])
    have needed: "fst ` snd ` set (m_files m) \<subseteq> fst ` set objs - {[]}"
      if im: "(i, m) \<in> set (checkpoints ?st1)" "checkpoint_id_ok i" for i m
    proof (cases "(i, m) \<in> set (checkpoints st)")
      case True
      then have "fst ` snd ` set (m_files m) \<subseteq> fst ` set (objects st) - {[]}"
        using assms(3) im(2) unfolding store_ok_def by blast
      then show ?thesis using objs(2) by blast
    next
      case False
      then have "m = ?m" using im(1) by simp
      moreover have "fst ` snd ` set ?files \<subseteq> - {[]}" using sizes by auto
      ultimately show ?thesis using objs(2) by (auto simp only: new_manifest_digests)
    qed
    have "store_ok env st'"
      unfolding store_ok_def p(7) needed_keys
    proof (intro conjI ballI allI impI)
      show "distinct (map fst (checkpoints st'))" by (rule p(4))
      show "sha env c = d"
        if "map_of (filter (\<lambda>b. fst b \<in> needed_objects (kept_directories (checkpoints st'))) objs) d = Some c" for d c
        using that objs(1)
        unfolding map_of_filter_key[where P = "\<lambda>k. k \<in> needed_objects (kept_directories (checkpoints st'))"]
        by (simp split: if_splits)
      fix x assume x: "x \<in> set (checkpoints st')"
      have "fst ` snd ` set (m_files m) \<subseteq> fst ` set objs \<inter> needed_objects (kept_directories (checkpoints st')) - {[]}"
        if im: "x = (i, m)" "checkpoint_id_ok i" for i m
      proof -
        have "fst ` snd ` set (m_files m) \<subseteq> fst ` set objs - {[]}" using needed[OF _ im(2)] p(3) x im(1) by blast
        moreover have "(i, m) \<in> set (kept_directories (checkpoints st'))" using x im by (simp add: kept_directories_def)
        ultimately show ?thesis using needed_mono by blast
      qed
      then show "case x of (i, m) \<Rightarrow> checkpoint_id_ok i \<longrightarrow> fst ` snd ` set (m_files m)
          \<subseteq> fst ` set objs \<inter> needed_objects (kept_directories (checkpoints st')) - {[]}" by (cases x) blast
    qed
    moreover have "load_manifest st' fresh = Inr ?m"
      using p(2,4) assms(4) by (simp add: load_manifest_def)
    ultimately show ?thesis using c p(5,6) by simp
  qed
qed

section \<open>Samples\<close>

definition plain_env :: fs_env where
  "plain_env = \<lparr>sha = (\<lambda>c. CHR ''#'' # c), nfc = (\<lambda>s. s), extra_globs = [], behind_links = (\<lambda>_. False),
     link_leads = (\<lambda>_ _. None), new_file_mode = 0x1A4\<rparr>"

definition sample_id :: string where "sample_id = ''0123456789abcdef-0123''"

definition empty_store :: store where "empty_store = \<lparr>objects = [], checkpoints = []\<rparr>"

definition sample_work :: node where
  "sample_work = Dir [(''k'', File ''old'' 0x1A4 1), (''d'', Dir [(''x'', File ''one'' 0x1ED 1)]), (''l'', Link ''d/x'' None)]"

definition sample_manifest :: manifest where
  "sample_manifest = \<lparr>created_ns = 5, m_files = [(''d/x'', (''#one'', 3, Some 0x1ED)), (''k'', (''#old'', 3, Some 0x1A4))],
     m_links = [(''l'', ''d/x'')]\<rparr>"

definition sample_store :: store where
  "sample_store = \<lparr>objects = [(''#old'', ''old''), (''#one'', ''one'')], checkpoints = [(sample_id, sample_manifest)]\<rparr>"

lemma sample_created:
  "create_checkpoint plain_env 10 100 DEFAULT_MAX_CHECKPOINTS 2000000000 5 sample_id sample_work empty_store
    = (Inr sample_id, sample_store)"
  by code_simp

theorem create_records_listing_witness:
  "load_manifest sample_store sample_id = Inr (new_manifest_for 5 (listing_of [] (sha plain_env) sample_work)
      (link_targets sample_work (links_of [] (sha plain_env) sample_work)))
   \<and> store_ok plain_env sample_store \<and> sum_sizes (all_references (kept_directories (checkpoints sample_store))) \<le> 100"
proof -
  have "wf_node sample_work" "is_dir (Some sample_work)" by (auto simp: sample_work_def valid_name_def)
  moreover have "store_ok plain_env empty_store" "checkpoint_id_ok sample_id" "\<forall>c. sha plain_env c \<noteq> []"
    by (auto simp: store_ok_def empty_store_def plain_env_def checkpoint_id_ok_def sample_id_def)
  moreover have "extra_globs plain_env = []" by (simp add: plain_env_def)
  ultimately show ?thesis
    using create_records_listing[where t = sample_work and env = plain_env and st = empty_store and fresh = sample_id and mf = 10 and mt = 100
      and mc = DEFAULT_MAX_CHECKPOINTS and free = 2000000000 and now = 5] sample_created by simp
qed

text \<open>An older checkpoint has to go for the budget.\<close>

definition older_manifest :: manifest where
  "older_manifest = \<lparr>created_ns = 1, m_files = [(''k'', (''#older'', 5, Some 0x1A4))], m_links = []\<rparr>"

definition two_store :: store where
  "two_store = \<lparr>objects = [(''#older'', ''older''), (''#old'', ''old''), (''#one'', ''one'')],
     checkpoints = [(''0000000000000001-0001'', older_manifest), (sample_id, sample_manifest)]\<rparr>"

theorem prune_reaches_budget_witness:
  "\<exists>st'. prune sample_id 8 6 two_store = (Inr (), st') \<and> (sample_id, sample_manifest) \<in> set (checkpoints st')
     \<and> sum_sizes (all_references (kept_directories (checkpoints two_store))) = 11
     \<and> sum_sizes (all_references (kept_directories (checkpoints st'))) \<le> 6"
proof -
  have "distinct (map fst (checkpoints two_store))" "(sample_id, sample_manifest) \<in> set (checkpoints two_store)" "checkpoint_id_ok sample_id"
    "manifest_total sample_manifest \<le> 6"
    by (simp_all add: two_store_def sample_id_def checkpoint_id_ok_def manifest_total_def sample_manifest_def)
  from prune_reaches_budget[OF this, of 8] obtain st' where "prune sample_id 8 6 two_store = (Inr (), st')"
    "(sample_id, sample_manifest) \<in> set (checkpoints st')" "sum_sizes (all_references (kept_directories (checkpoints st'))) \<le> 6" by blast
  moreover have "sum_sizes (all_references (kept_directories (checkpoints two_store))) = 11" by code_simp
  ultimately show ?thesis by blast
qed

end
