(* ===== verification/TreeView.thy ===== *)
theory TreeView
  imports FileTree
begin

text \<open>
  What the listing of a tree can see of a path, and what each operation on the tree does to it: the
  shared vocabulary of the rollback, the write and the patch proofs.  \<open>seen\<close> abstracts a tree to the
  content and permission bits of its visible files and the targets of its visible links.
\<close>

definition leaf :: "node option \<Rightarrow> (string \<times> int + string) option" where
  "leaf n = (case n of Some (File c m k) \<Rightarrow> Some (Inl (c, m)) | Some (Link g r) \<Rightarrow> Some (Inr g) | _ \<Rightarrow> None)"

definition hidden :: "string list \<Rightarrow> string \<Rightarrow> bool" where
  "hidden extra s \<longleftrightarrow> list_ex (is_hidden_part extra) (name_parts s)"

definition seen :: "string list \<Rightarrow> node \<Rightarrow> string \<Rightarrow> (string \<times> int + string) option" where
  "seen extra t s = (if hidden extra s then None else leaf (lookup t (name_parts s)))"

text \<open>A name that a well-formed tree can have.\<close>

definition proper :: "string \<Rightarrow> bool" where
  "proper s \<longleftrightarrow> list_all valid_name (name_parts s)"

definition good_tree :: "node \<Rightarrow> bool" where
  "good_tree t \<longleftrightarrow> wf_node t \<and> is_dir (Some t)"

lemma leaf_simps [simp]:
  "leaf None = None" "leaf (Some (File c m k)) = Some (Inl (c, m))" "leaf (Some (Link g r)) = Some (Inr g)"
  "leaf (Some Special) = None" "leaf (Some (Dir es)) = None"
  by (simp_all add: leaf_def)

lemma leaf_iff:
  "leaf n = Some (Inl (c, m)) \<longleftrightarrow> (\<exists>k. n = Some (File c m k))"
  "leaf n = Some (Inr g) \<longleftrightarrow> (\<exists>r. n = Some (Link g r))"
  by (auto simp: leaf_def split: option.splits node.splits)

lemma leaf_shape: "leaf (shape t q) = leaf (lookup t q)"
  by (auto simp: leaf_def shape_def split: option.splits node.splits)

lemma name_parts_not_Nil [simp]: "name_parts s \<noteq> []"
  by (simp add: name_parts_def split_on_not_Nil)

lemma join_name_parts [simp]: "join ''/'' (name_parts s) = s"
  by (simp add: name_parts_def join_split_on)

lemma name_parts_eq_iff: "name_parts a = name_parts b \<longleftrightarrow> a = b"
  by (metis join_name_parts)

lemma good_tree_shape: "good_tree t \<longleftrightarrow> wf_node t \<and> shape t [] = Some (Dir [])"
  using is_dir_shape[of t "[]"] by (simp add: good_tree_def)

lemma seen_shape: "seen extra t s = (if hidden extra s then None else leaf (shape t (name_parts s)))"
  by (simp add: seen_def leaf_shape)

lemma list_all_not: "list_all (\<lambda>x. \<not> P x) xs \<longleftrightarrow> \<not> list_ex P xs"
  by (auto simp: list_all_iff list_ex_iff)

lemma visible_at_seen:
  "visible_at extra h t (name_parts s) =
    (case seen extra t s of Some (Inl (c, m)) \<Rightarrow> Some (h c, int (length c), m) | _ \<Rightarrow> None)"
  by (cases "lookup t (name_parts s)"; cases "the (lookup t (name_parts s))")
    (simp_all add: visible_at_def seen_def hidden_def list_all_not)

lemma link_at_seen: "link_at extra t (name_parts s) \<longleftrightarrow> (\<exists>g. seen extra t s = Some (Inr g))"
  by (cases "lookup t (name_parts s)"; cases "the (lookup t (name_parts s))")
    (simp_all add: link_at_def seen_def hidden_def is_link_def list_all_not)

lemma listing_seen:
  "good_tree t \<Longrightarrow> map_of (listing_of extra h t) s =
    (case seen extra t s of Some (Inl (c, m)) \<Rightarrow> Some (h c, int (length c), m) | _ \<Rightarrow> None)"
  by (simp add: good_tree_def map_of_listing visible_at_seen)

lemma links_seen: "good_tree t \<Longrightarrow> s \<in> set (links_of extra h t) \<longleftrightarrow> (\<exists>g. seen extra t s = Some (Inr g))"
  by (simp add: good_tree_def set_links link_at_seen)

lemma seen_proper: "good_tree t \<Longrightarrow> seen extra t s \<noteq> None \<Longrightarrow> proper s \<and> \<not> hidden extra s"
  using lookup_valid[of t "name_parts s"]
  by (auto simp: seen_def good_tree_def proper_def leaf_def split: if_splits option.splits)

section \<open>Operations\<close>

text \<open>\<open>mkdir\<close> adds directories where nothing was.\<close>

lemma make_dirs_shape:
  assumes "make_dirs p t = Inr t'"
  shows "shape t' q = shape t q \<or> (shape t q = None \<and> shape t' q = Some (Dir []))"
  using assms
proof (induction p t arbitrary: t' q rule: make_dirs.induct)
  case (3 p ps es)
  let ?c = "case map_of es p of None \<Rightarrow> Dir [] | Some c \<Rightarrow> c"
  from 3(2) obtain c' where c': "make_dirs ps ?c = Inr c'" "t' = Dir (AList.update p c' es)" by auto
  show ?case
  proof (cases q)
    case (Cons x xs)
    show ?thesis
    proof (cases "x = p")
      case True
      have "shape (Dir []) xs = None \<or> xs = []" using lookup_nil_dir[of xs] by (auto simp: shape_def)
      moreover have "\<exists>es'. c' = Dir es'" if "?c = Dir []"
        using c'(1) that by (cases ps) auto
      ultimately show ?thesis
        using 3(1)[OF c'(1), of xs] True Cons c'(2) by (cases "map_of es p") (auto simp: map_of_update)
    qed (use Cons c' in \<open>auto simp: map_of_update\<close>)
  qed (use c' in auto)
qed auto

lemma make_dirs_good: "make_dirs p t = Inr t' \<Longrightarrow> good_tree t \<Longrightarrow> list_all valid_name p \<Longrightarrow> good_tree t'"
  using shape_make_dirs[of p t t' "[]"] by (auto simp: good_tree_shape wf_make_dirs simp del: shape_simps)

lemma make_dirs_is_dir: "make_dirs p t = Inr t' \<Longrightarrow> is_dir (lookup t' p)"
  using shape_make_dirs[of p t t' p] by (simp add: is_dir_shape)

lemma make_dirs_seen: "make_dirs p t = Inr t' \<Longrightarrow> seen extra t' s = seen extra t s"
  using make_dirs_shape[of p t t' "name_parts s"] by (auto simp: seen_shape)

lemma make_dirs_keeps_dir: "make_dirs p t = Inr t' \<Longrightarrow> is_dir (lookup t q) \<Longrightarrow> is_dir (lookup t' q)"
  using make_dirs_shape[of p t t' q] by (auto simp: is_dir_shape)

text \<open>Nothing is seen below something that is not a directory.\<close>

lemma below_leaf: "\<not> is_dir (lookup t p) \<Longrightarrow> under p q \<Longrightarrow> q \<noteq> p \<Longrightarrow> shape t q = None"
proof -
  assume a: "\<not> is_dir (lookup t p)" "under p q" "q \<noteq> p"
  then obtain r where "q = p @ r" "r \<noteq> []" unfolding under_iff by fastforce
  show "shape t q = None"
  proof (rule ccontr)
    assume "shape t q \<noteq> None"
    with \<open>q = p @ r\<close> \<open>r \<noteq> []\<close> have "shape t p = Some (Dir [])" using shape_above[of t p r] by simp
    with a(1) show False by (simp add: is_dir_shape)
  qed
qed

lemma put_shape:
  assumes "p \<noteq> []" and "is_dir (lookup t (butlast p))" and "\<not> is_dir (lookup t p)" and "\<not> is_dir (Some n)"
  shows "shape (put p n t) q = (if q = p then Some n else shape t q)"
  using shape_put[OF assms(1,2,4), of q] below_leaf[OF assms(3), of q] by simp

lemma put_seen:
  assumes "p = name_parts s" and "is_dir (lookup t (butlast p))" and "\<not> is_dir (lookup t p)" and "\<not> is_dir (Some n)"
  shows "seen extra (put p n t) s' = (if s' = s then (if hidden extra s then None else leaf (Some n)) else seen extra t s')"
  using put_shape[OF _ assms(2-4), of "name_parts s'"] assms(1)
  by (auto simp: seen_shape name_parts_eq_iff)

lemma put_keeps_dir:
  assumes "p \<noteq> []" and "is_dir (lookup t (butlast p))" and "\<not> is_dir (lookup t p)" and "\<not> is_dir (Some n)"
  shows "is_dir (lookup t q) \<Longrightarrow> is_dir (lookup (put p n t) q)"
  using put_shape[OF assms, of q] assms(3) by (auto simp: is_dir_shape)

lemma put_good:
  assumes "good_tree t" and "p \<noteq> []" and "is_dir (lookup t (butlast p))" and "\<not> is_dir (lookup t p)"
    and "\<not> is_dir (Some n)" and "list_all valid_name p"
  shows "good_tree (put p n t)"
proof -
  have "wf_node n" using assms(5) by (cases n) auto
  moreover have "is_dir (lookup (put p n t) [])"
    using put_keeps_dir[OF assms(2-5), of "[]"] assms(1) by (simp add: good_tree_def)
  ultimately show ?thesis using assms(1,6) wf_put by (simp add: good_tree_def)
qed

lemma remove_shape:
  assumes "p \<noteq> []" and "\<not> is_dir (lookup t p)"
  shows "shape (remove_at p t) q = (if q = p then None else shape t q)"
  using shape_remove[OF assms(1), of t q] below_leaf[OF assms(2), of q] by auto

lemma remove_seen:
  assumes "p = name_parts s" and "\<not> is_dir (lookup t p)"
  shows "seen extra (remove_at p t) s' = (if s' = s then None else seen extra t s')"
  using remove_shape[OF _ assms(2), of "name_parts s'"] assms(1)
  by (auto simp: seen_shape name_parts_eq_iff)

lemma remove_keeps_dir:
  assumes "p \<noteq> []" and "\<not> is_dir (lookup t p)"
  shows "is_dir (lookup t q) \<Longrightarrow> is_dir (lookup (remove_at p t) q)"
  using remove_shape[OF assms, of q] assms(2) by (auto simp: is_dir_shape)

lemma remove_good:
  assumes "good_tree t" and "p \<noteq> []" and "\<not> is_dir (lookup t p)"
  shows "good_tree (remove_at p t)"
  using remove_keeps_dir[OF assms(2,3), of "[]"] assms(1) by (simp add: good_tree_def wf_remove)

lemma remove_absent:
  assumes "p \<noteq> []" and "\<not> is_dir (lookup t p)"
  shows "lookup (remove_at p t) p = None"
  using remove_shape[OF assms, of p] by (simp add: shape_leaf_iff)

text \<open>An atomic write replaces one file and leaves the rest of the tree alone.\<close>

lemma replace_file_Inr:
  "replace_file t p c m = Inr t' \<longleftrightarrow>
    is_dir (lookup t (butlast p)) \<and> \<not> is_dir (lookup t p) \<and> t' = put p (File c m 1) t"
  by (auto simp: replace_file_def)

lemma lookup_put_here:
  assumes "p \<noteq> []" and "is_dir (lookup t (butlast p))" and "\<not> is_dir (lookup t p)"
  shows "lookup (put p (File c m k) t) p = Some (File c m k)"
  using put_shape[OF assms, of "File c m k" p] by (simp add: shape_leaf_iff)

section \<open>Checked paths\<close>

lemma normalize_proper:
  assumes "normalize_relative f extra allow s = Inr n" and "proper s"
  shows "n = s \<and> path_parts n = name_parts s"
proof -
  have ok: "\<forall>p\<in>set (name_parts s). CHR ''/'' \<notin> set p \<and> p \<noteq> [] \<and> p \<noteq> ''.''"
    using assms(2) unfolding proper_def list_all_iff valid_name_def by blast
  have "[] \<in> set (name_parts [])" "''.'' \<in> set (name_parts ''.'')" by (simp_all add: name_parts_def)
  with ok have "s \<noteq> []" "s \<noteq> ''.''" by (metis, metis)
  moreover have "posix_parts s = name_parts s" using posix_parts_relative[OF name_parts_not_Nil ok] by simp
  ultimately have n: "n = s" using normalize_relative_parts[OF assms(1)] by simp
  with \<open>s \<noteq> ''.''\<close> \<open>s \<noteq> []\<close> show ?thesis by (simp add: path_parts_def name_parts_def)
qed

lemma safe_path_proper:
  assumes "safe_path f extra beyond t False allow s = Inr p" and "proper s"
  shows "p = name_parts s"
proof -
  from assms(1) obtain n where "normalize_relative f extra allow s = Inr n" "p = path_parts n"
    by (auto simp: safe_path_def Let_def split: if_splits)
  with normalize_proper[OF this(1) assms(2)] show ?thesis by metis
qed

text \<open>Along directories there is no link, and what is there exists.\<close>

lemma reject_links_dirs: "lookup t (p @ [x]) \<noteq> None \<Longrightarrow> reject_links t p = Inr ()"
proof (induction t p rule: reject_links.induct)
  case (2 es p ps)
  then obtain c where c: "map_of es p = Some c" "lookup c (ps @ [x]) \<noteq> None" by (auto split: option.splits)
  then have "\<not> is_link (Some c)" by (cases c; cases ps) (auto simp: is_link_def)
  with 2 c show ?case by (cases c) (auto simp: is_link_def)
qed auto

lemma exists_at_present: "lookup n q = Some c \<Longrightarrow> \<not> is_link (Some c) \<Longrightarrow> exists_at beyond d n q"
proof (induction beyond d n q rule: exists_at.induct)
  case (1 beyond d n)
  then show ?case by (cases n) (auto simp: is_link_def)
qed (auto split: option.splits)

lemma normalize_error: "normalize_relative f extra allow s = Inl e \<Longrightarrow> e = UnsafePath"
  by (auto simp: normalize_relative_def Let_def split: if_splits)

text \<open>With directories all the way, only the path rules can refuse a name.\<close>

lemma safe_path_dirs:
  assumes "proper s" and "reject_links t (butlast (name_parts s)) = Inr ()"
  shows "safe_path f extra beyond t False allow s =
    (case normalize_relative f extra allow s of Inl e \<Rightarrow> Inl e | Inr n \<Rightarrow> Inr (name_parts s))"
proof (cases "normalize_relative f extra allow s")
  case (Inr n)
  from normalize_proper[OF this assms(1)] have "path_parts n = name_parts s" by blast
  with Inr assms(2) show ?thesis by (simp add: safe_path_def Let_def)
qed (simp add: safe_path_def)

end
