(* ===== verification/Rollback.thy ===== *)
theory Rollback
  imports Checkpoints TreeView
begin

text \<open>
  Restoring a checkpoint gives back what the listing showed when it was created, whatever happened to
  the tree in between, and the context manager \<open>checkpointed\<close> (\<open>executor/checkpoints.py\<close>) around a
  mutation.  The interface between the two is the locale \<open>recovery\<close>.
\<close>

section \<open>The context manager\<close>

text \<open>\<open>checkpointed\<close>: take a checkpoint, run the body, and go back if the body raises.  A failing
  rollback replaces the error of the body.\<close>

definition with_recovery ::
  "('w \<Rightarrow> 's \<Rightarrow> (exn + 'i) \<times> 's) \<Rightarrow> ('s \<Rightarrow> 'i \<Rightarrow> 'w \<Rightarrow> (exn + 'p) \<times> 'w) \<Rightarrow> ('i \<Rightarrow> 'w \<Rightarrow> (exn + 'a) \<times> 'w) \<Rightarrow>
   'w \<Rightarrow> 's \<Rightarrow> (exn + 'a) \<times> 'w \<times> 's" where
  "with_recovery acquire undo body w s =
     (case acquire w s of
        (Inl e, s') \<Rightarrow> (Inl e, w, s')
      | (Inr i, s') \<Rightarrow>
          (case body i w of
             (Inr a, w') \<Rightarrow> (Inr a, w', s')
           | (Inl e, w') \<Rightarrow>
               (case undo s' i w' of
                  (Inl e', w'') \<Rightarrow> (Inl e', w'', s')
                | (Inr p, w'') \<Rightarrow> (Inl e, w'', s'))))"

definition checkpointed ::
  "fs_env \<Rightarrow> int \<Rightarrow> int \<Rightarrow> int \<Rightarrow> int \<Rightarrow> string \<Rightarrow> (string \<Rightarrow> node \<Rightarrow> (exn + 'a) \<times> node) \<Rightarrow> node \<Rightarrow> store \<Rightarrow>
   (exn + 'a) \<times> node \<times> store" where
  "checkpointed env max_files max_total free now fresh =
     with_recovery (create_checkpoint env max_files max_total DEFAULT_MAX_CHECKPOINTS free now fresh)
       (restore_checkpoint env DEFAULT_MAX_CHECKPOINT_FILES DEFAULT_MAX_CHECKPOINT_BYTES)"

section \<open>Lemmas on the steps of a restore\<close>

lemma checked_path_proper: "checked_path env t s = Inr p \<Longrightarrow> proper s \<Longrightarrow> p = name_parts s"
  unfolding checked_path_def by (rule safe_path_proper)

lemma parts_valid: "proper s \<Longrightarrow> list_all valid_name (name_parts s) \<and> list_all valid_name (butlast (name_parts s))"
  by (auto simp: proper_def list_all_iff dest: in_set_butlastD)

text \<open>Removing the new links.\<close>

lemma remove_new_link_effect:
  assumes "remove_new_link env expected s (removed, t) = Inr (removed', t')" and "good_tree t" and "proper s"
  shows "good_tree t' \<and> (\<forall>x. seen ex t' x = (case seen ex t x of
      Some (Inr g) \<Rightarrow> if x = s \<and> map_of expected s \<noteq> Some g then None else Some (Inr g) | v \<Rightarrow> v))"
proof (cases "lookup t (name_parts s)")
  case (Some n)
  show ?thesis
  proof (cases n)
    case (Link g r)
    show ?thesis
    proof (cases "map_of expected s = Some g")
      case True
      then show ?thesis
        using assms Some Link by (auto simp: remove_new_link_def seen_def split: option.splits sum.splits)
    next
      case False
      have dirs: "reject_links t (butlast (name_parts s)) = Inr ()"
        using reject_links_dirs[of t "butlast (name_parts s)" "last (name_parts s)"] Some by simp
      have "checked_path env t s = Inl e \<Longrightarrow> \<not> is_os_error e" for e
        using safe_path_dirs[OF assms(3) dirs]
        by (auto simp: checked_path_def UnsafePath_def split: sum.splits dest!: normalize_error)
      then obtain p where p: "checked_path env t s = Inr p" "t' = remove_at p t"
        using assms(1) Some Link False by (auto simp: remove_new_link_def split: sum.splits if_splits)
      have nd: "\<not> is_dir (lookup t (name_parts s))" using Some Link by simp
      have "p = name_parts s" by (rule checked_path_proper[OF p(1) assms(3)])
      then show ?thesis
        using remove_good[OF assms(2) name_parts_not_Nil nd] remove_seen[OF refl nd] p(2) Some Link False
        by (auto simp: seen_def split: option.splits sum.splits)
    qed
  qed (use assms Some in \<open>auto simp: remove_new_link_def seen_def split: option.splits sum.splits\<close>)
qed (use assms in \<open>auto simp: remove_new_link_def seen_def split: option.splits sum.splits\<close>)

lemma remove_new_links_effect:
  assumes "fold_res (remove_new_link env expected) ls (removed, t) = Inr (removed', t')" and "good_tree t"
    and "\<forall>s\<in>set ls. proper s"
  shows "good_tree t' \<and> (\<forall>x. seen ex t' x = (case seen ex t x of
      Some (Inr g) \<Rightarrow> if x \<in> set ls \<and> map_of expected x \<noteq> Some g then None else Some (Inr g) | v \<Rightarrow> v))"
  using assms
proof (induction ls arbitrary: removed t)
  case Nil
  then show ?case by (auto split: option.splits sum.splits)
next
  case (Cons s ls)
  then obtain r1 t1 where s: "remove_new_link env expected s (removed, t) = Inr (r1, t1)"
    "fold_res (remove_new_link env expected) ls (r1, t1) = Inr (removed', t')" by auto
  from remove_new_link_effect[OF s(1) Cons.prems(2)] Cons.prems(3) have e: "good_tree t1"
    "\<And>x. seen ex t1 x = (case seen ex t x of
      Some (Inr g) \<Rightarrow> if x = s \<and> map_of expected s \<noteq> Some g then None else Some (Inr g) | v \<Rightarrow> v)" by auto
  show ?case using Cons.IH[OF s(2) e(1)] Cons.prems(3) e(2) by (auto split: option.splits sum.splits)
qed

text \<open>Restoring one file.\<close>

lemma set_mode_put:
  assumes "p \<noteq> []" and "is_dir (lookup t (butlast p))" and "\<not> is_dir (lookup t p)"
  shows "set_mode p (Some m) (put p (File c m' k) t) = put p (File c m k) (put p (File c m' k) t)"
  using lookup_put_here[OF assms] by (simp add: set_mode_def)

lemma write_with_mode:
  assumes "good_tree t" and "is_dir (lookup t (butlast (name_parts s)))" and "\<not> is_dir (lookup t (name_parts s))" and "proper s"
  shows "good_tree (set_mode (name_parts s) (Some m) (put (name_parts s) (File c m' 1) t))
    \<and> (\<forall>x. seen ex (set_mode (name_parts s) (Some m) (put (name_parts s) (File c m' 1) t)) x =
        (if x = s then (if hidden ex s then None else Some (Inl (c, m))) else seen ex t x))"
proof -
  let ?p = "name_parts s" let ?t1 = "put ?p (File c m' 1) t"
  have g1: "good_tree ?t1" using put_good[OF assms(1) name_parts_not_Nil assms(2,3)] parts_valid[OF assms(4)] by simp
  have d1: "is_dir (lookup ?t1 (butlast ?p))" by (rule put_keeps_dir[OF name_parts_not_Nil assms(2,3)]) (simp_all add: assms(2))
  have l1: "\<not> is_dir (lookup ?t1 ?p)" using lookup_put_here[OF name_parts_not_Nil assms(2,3)] by simp
  have "good_tree (put ?p (File c m 1) ?t1)" using put_good[OF g1 name_parts_not_Nil d1 l1] parts_valid[OF assms(4)] by simp
  moreover have "seen ex (put ?p (File c m 1) ?t1) x =
      (if x = s then (if hidden ex s then None else Some (Inl (c, m))) else seen ex t x)" for x
    using put_seen[OF refl d1 l1, of "File c m 1"] put_seen[OF refl assms(2,3), of "File c m' 1"] by simp
  ultimately show ?thesis by (simp add: set_mode_put[OF name_parts_not_Nil assms(2,3)])
qed

lemma restore_one_effect:
  assumes "restore_one env prepared s t = Inr t'" and "good_tree t" and "proper s" and "\<not> hidden ex s"
    and "\<forall>c mo. map_of prepared s = Some (c, mo) \<longrightarrow> mo \<noteq> None"
    and "map_of prepared s = None \<longrightarrow> (\<exists>f. seen ex t s = Some (Inl f))"
  shows "good_tree t' \<and> (\<forall>x. seen ex t' x = (if x = s then
      (case map_of prepared s of Some (c, Some m) \<Rightarrow> Some (Inl (c, m)) | _ \<Rightarrow> None) else seen ex t x))"
proof -
  let ?p = "name_parts s"
  from assms(1) obtain p where "checked_path env t s = Inr p" by (auto simp: restore_one_def)
  from this checked_path_proper[OF this assms(3)] have cp: "checked_path env t s = Inr ?p" by simp
  show ?thesis
  proof (cases "map_of prepared s")
    case None
    with assms(6) obtain c m where "seen ex t s = Some (Inl (c, m))" by auto
    then obtain k where l: "lookup t ?p = Some (File c m k)" using assms(4) by (auto simp: seen_def leaf_iff)
    then have "path_exists (behind_links env) t ?p"
      using exists_at_present[of t ?p] by (auto simp: path_exists_def is_link_def)
    with assms(1) cp None l have t': "t' = remove_at ?p t" by (simp add: restore_one_def)
    have nd: "\<not> is_dir (lookup t ?p)" using l by simp
    show ?thesis using remove_good[OF assms(2) name_parts_not_Nil nd] remove_seen[OF refl nd] None by (simp add: t')
  next
    case (Some cm)
    with assms(5) obtain c m where cm: "cm = (c, Some m)" by (cases cm) auto
    from assms(1) cp Some cm obtain t1 t2 where t1: "make_dirs (butlast ?p) t = Inr t1"
      and t2: "atomic_write (new_file_mode env) t1 ?p c = Inr t2" and t': "t' = set_mode ?p (Some m) t2"
      by (auto simp: restore_one_def)
    from t2 obtain m' where w: "is_dir (lookup t1 (butlast ?p))" "\<not> is_dir (lookup t1 ?p)" "t2 = put ?p (File c m' 1) t1"
      by (auto simp: atomic_write_def replace_file_Inr)
    have g1: "good_tree t1" using make_dirs_good[OF t1 assms(2)] parts_valid[OF assms(3)] by simp
    show ?thesis
      using write_with_mode[OF g1 w(1,2) assms(3), of m c m' ex] make_dirs_seen[OF t1, of ex] assms(4) Some cm
      by (simp add: t' w(3))
  qed
qed

lemma restore_all_effect:
  assumes "fold_res (restore_one env prepared) ss t = Inr t'" and "good_tree t" and "distinct ss"
    and "\<forall>s\<in>set ss. proper s \<and> \<not> hidden ex s
      \<and> (\<forall>c mo. map_of prepared s = Some (c, mo) \<longrightarrow> mo \<noteq> None)
      \<and> (map_of prepared s = None \<longrightarrow> (\<exists>f. seen ex t s = Some (Inl f)))"
  shows "good_tree t' \<and> (\<forall>x. seen ex t' x = (if x \<in> set ss then
      (case map_of prepared x of Some (c, Some m) \<Rightarrow> Some (Inl (c, m)) | _ \<Rightarrow> None) else seen ex t x))"
  using assms
proof (induction ss arbitrary: t)
  case (Cons s ss)
  from Cons.prems(1) obtain t1 where s: "restore_one env prepared s t = Inr t1"
    "fold_res (restore_one env prepared) ss t1 = Inr t'" by auto
  from restore_one_effect[OF s(1) Cons.prems(2), of ex] Cons.prems(4) have e: "good_tree t1"
    "\<And>x. seen ex t1 x = (if x = s then
      (case map_of prepared s of Some (c, Some m) \<Rightarrow> Some (Inl (c, m)) | _ \<Rightarrow> None) else seen ex t x)" by simp_all
  have "\<forall>x\<in>set ss. proper x \<and> \<not> hidden ex x
      \<and> (\<forall>c mo. map_of prepared x = Some (c, mo) \<longrightarrow> mo \<noteq> None)
      \<and> (map_of prepared x = None \<longrightarrow> (\<exists>f. seen ex t1 x = Some (Inl f)))"
    using Cons.prems(3,4) e(2) by auto
  from Cons.IH[OF s(2) e(1) _ this] Cons.prems(3) show ?case by (auto simp: e(2))
qed simp

lemma prepare_effect:
  assumes "fold_res (prepare env st fs) ss [] = Inr prepared"
  shows "\<forall>x. if x \<in> set ss \<and> map_of fs x \<noteq> None
    then (\<exists>d z mo c. map_of fs x = Some (d, z, mo) \<and> sha env c = d \<and> map_of prepared x = Some (c, mo))
    else map_of prepared x = None"
proof -
  have "\<forall>x. if x \<in> set ss \<and> map_of fs x \<noteq> None
    then (\<exists>d z mo c. map_of fs x = Some (d, z, mo) \<and> sha env c = d \<and> map_of prepared x = Some (c, mo))
    else map_of prepared x = map_of acc x"
    if "fold_res (prepare env st fs) ss acc = Inr prepared" for acc
    using that
  proof (induction ss arbitrary: acc)
    case (Cons s ss)
    from Cons.prems obtain a1 where a1: "prepare env st fs s acc = Inr a1"
      "fold_res (prepare env st fs) ss a1 = Inr prepared" by auto
    have "if map_of fs s = None then a1 = acc
      else (\<exists>d z mo c. map_of fs s = Some (d, z, mo) \<and> sha env c = d \<and> a1 = AList.update s (c, mo) acc)"
      using a1(1) by (auto simp: prepare_def split: option.splits prod.splits if_splits)
    note a = this
    show ?case
    proof
      fix x
      show "if x \<in> set (s # ss) \<and> map_of fs x \<noteq> None
        then (\<exists>d z mo c. map_of fs x = Some (d, z, mo) \<and> sha env c = d \<and> map_of prepared x = Some (c, mo))
        else map_of prepared x = map_of acc x"
      proof (cases "x \<in> set ss \<and> map_of fs x \<noteq> None")
        case True
        then show ?thesis using spec[OF Cons.IH[OF a1(2)], of x] by auto
      next
        case False
        then have same: "map_of prepared x = map_of a1 x" using Cons.IH[OF a1(2)] by meson
        show ?thesis
        proof (cases "x = s")
          case True
          with a same show ?thesis by (auto simp: map_of_update split: if_splits)
        next
          case ne: False
          then have "map_of a1 x = map_of acc x" using a by (auto simp: map_of_update split: if_splits)
          with same False ne show ?thesis by auto
        qed
      qed
    qed
  qed simp
  from this[OF assms] show ?thesis by (simp only: map_of.simps)
qed

text \<open>Putting the links back.\<close>

lemma recreate_place:
  assumes "make_dirs (butlast (name_parts s)) t = Inr t1" and "good_tree t" and "proper s" and "\<not> hidden ex s"
    and "\<not> is_dir (lookup t (name_parts s))"
  shows "good_tree (put (name_parts s) (Link g r) t1)
    \<and> (\<forall>x. seen ex (put (name_parts s) (Link g r) t1) x = (if x = s then Some (Inr g) else seen ex t x))
    \<and> (\<forall>q. is_dir (lookup t q) \<longrightarrow> is_dir (lookup (put (name_parts s) (Link g r) t1) q))"
proof -
  let ?p = "name_parts s"
  have d1: "is_dir (lookup t1 (butlast ?p))" by (rule make_dirs_is_dir[OF assms(1)])
  have "0 < length ?p" by simp
  then have "length (butlast ?p) < length ?p" by (simp only: length_butlast)
  then have "length ?p \<noteq> length (take (length ?p) (butlast ?p))" by (simp only: length_take)
  then have "\<not> under ?p (butlast ?p)" unfolding under_def by metis
  then have "shape t1 ?p = shape t ?p"
    using shape_make_dirs[OF assms(1), of ?p] by (cases "under ?p (butlast ?p)") auto
  then have n1: "\<not> is_dir (lookup t1 ?p)" using assms(5) by (simp add: is_dir_shape)
  have g1: "good_tree t1" using make_dirs_good[OF assms(1,2)] parts_valid[OF assms(3)] by simp
  have "good_tree (put ?p (Link g r) t1)" using put_good[OF g1 name_parts_not_Nil d1 n1] parts_valid[OF assms(3)] by simp
  moreover have "seen ex (put ?p (Link g r) t1) x = (if x = s then Some (Inr g) else seen ex t x)" for x
    using put_seen[OF refl d1 n1, of "Link g r"] make_dirs_seen[OF assms(1), of ex] assms(4) by simp
  moreover have "is_dir (lookup t q) \<Longrightarrow> is_dir (lookup (put ?p (Link g r) t1) q)" for q
    using put_keeps_dir[OF name_parts_not_Nil d1 n1, of "Link g r" q] make_dirs_keeps_dir[OF assms(1), of q] by simp
  ultimately show ?thesis by blast
qed

lemma recreate_link_effect:
  assumes "recreate_link env (s, g) (restored, t) = Inr (restored', t')" and "good_tree t" and "proper s" and "\<not> hidden ex s"
  shows "good_tree t' \<and> (\<forall>x. x \<noteq> s \<longrightarrow> seen ex t' x = seen ex t x)
    \<and> (seen ex t' s = Some (Inr g) \<or> seen ex t' s = None \<and> is_dir (lookup t' (name_parts s)))
    \<and> (\<forall>q. is_dir (lookup t q) \<longrightarrow> is_dir (lookup t' q))"
proof -
  let ?p = "name_parts s"
  from assms(1) obtain p where "checked_path env t s = Inr p" by (auto simp: recreate_link_def)
  from this checked_path_proper[OF this assms(3)] have cp: "checked_path env t s = Inr ?p" by simp
  have placed: ?thesis if "make_dirs (butlast ?p) t0 = Inr t1" "t' = put ?p (Link g r) t1" "good_tree t0"
      "\<not> is_dir (lookup t0 ?p)" "\<And>x. x \<noteq> s \<Longrightarrow> seen ex t0 x = seen ex t x"
      "\<And>q. is_dir (lookup t q) \<Longrightarrow> is_dir (lookup t0 q)" for t0 t1 r
    using recreate_place[OF that(1,3) assms(3,4) that(4), of g r] that(2,5,6) by simp
  have removed: ?thesis if nd: "\<not> is_dir (lookup t ?p)" and "make_dirs (butlast ?p) (remove_at ?p t) = Inr t1"
      "t' = put ?p (Link g r) t1" for t1 r
    using placed[OF that(2,3) remove_good[OF assms(2) name_parts_not_Nil nd] _
        _ remove_keeps_dir[OF name_parts_not_Nil nd]]
      remove_absent[OF name_parts_not_Nil nd] remove_seen[OF refl nd, of ex] by simp
  have leafs: "seen ex t s = leaf (lookup t ?p)" using assms(4) by (simp add: seen_def)
  show ?thesis
  proof (cases "lookup t ?p")
    case None
    with assms(1) cp obtain t1 r where "make_dirs (butlast ?p) t = Inr t1" "t' = put ?p (Link g r) t1"
      by (auto simp: recreate_link_def Let_def)
    with placed[of t] None assms(2) show ?thesis by simp
  next
    case (Some n)
    show ?thesis
    proof (cases n)
      case (Dir es)
      then show ?thesis using assms(1,2) cp Some leafs by (auto simp: recreate_link_def Let_def)
    next
      case (Link g' r')
      show ?thesis
      proof (cases "g' = g")
        case True
        then show ?thesis using assms(1,2) cp Some Link leafs by (auto simp: recreate_link_def Let_def)
      next
        case False
        with assms(1) cp Some Link obtain t1 r where "make_dirs (butlast ?p) (remove_at ?p t) = Inr t1" "t' = put ?p (Link g r) t1"
          by (auto simp: recreate_link_def Let_def)
        with removed Some Link show ?thesis by simp
      qed
    next
      case (File c m k)
      with assms(1) cp Some obtain t1 r where "make_dirs (butlast ?p) (remove_at ?p t) = Inr t1" "t' = put ?p (Link g r) t1"
        by (auto simp: recreate_link_def Let_def)
      with removed Some File show ?thesis by simp
    next
      case Special
      with assms(1) cp Some obtain t1 r where "make_dirs (butlast ?p) (remove_at ?p t) = Inr t1" "t' = put ?p (Link g r) t1"
        by (auto simp: recreate_link_def Let_def)
      with removed Some Special show ?thesis by simp
    qed
  qed
qed

lemma recreate_links_effect:
  assumes "fold_res (recreate_link env) ls (restored, t) = Inr (restored', t')" and "good_tree t"
    and "\<forall>(s, g)\<in>set ls. proper s \<and> \<not> hidden ex s \<and> map_of ls0 s = Some g"
  shows "good_tree t' \<and> (\<forall>x. x \<notin> fst ` set ls \<longrightarrow> seen ex t' x = seen ex t x)
    \<and> (\<forall>(s, g)\<in>set ls. seen ex t' s = Some (Inr g) \<or> seen ex t' s = None \<and> is_dir (lookup t' (name_parts s)))
    \<and> (\<forall>q. is_dir (lookup t q) \<longrightarrow> is_dir (lookup t' q))"
  using assms
proof (induction ls arbitrary: restored t)
  case (Cons l ls)
  obtain s g where l: "l = (s, g)" by (cases l)
  from Cons.prems(1) obtain r1 t1 where a: "recreate_link env (s, g) (restored, t) = Inr (r1, t1)"
    "fold_res (recreate_link env) ls (r1, t1) = Inr (restored', t')" by (auto simp: l)
  from recreate_link_effect[OF a(1) Cons.prems(2), of ex] Cons.prems(3) l have e: "good_tree t1"
    "\<forall>x. x \<noteq> s \<longrightarrow> seen ex t1 x = seen ex t x"
    "seen ex t1 s = Some (Inr g) \<or> seen ex t1 s = None \<and> is_dir (lookup t1 (name_parts s))"
    "\<forall>q. is_dir (lookup t q) \<longrightarrow> is_dir (lookup t1 q)" by auto
  from Cons.IH[OF a(2) e(1)] Cons.prems(3) have ih: "good_tree t'"
    "\<forall>x. x \<notin> fst ` set ls \<longrightarrow> seen ex t' x = seen ex t1 x"
    "\<forall>(s, g)\<in>set ls. seen ex t' s = Some (Inr g) \<or> seen ex t' s = None \<and> is_dir (lookup t' (name_parts s))"
    "\<forall>q. is_dir (lookup t1 q) \<longrightarrow> is_dir (lookup t' q)" by auto
  have "seen ex t' s = Some (Inr g) \<or> seen ex t' s = None \<and> is_dir (lookup t' (name_parts s))"
  proof (cases "s \<in> fst ` set ls")
    case True
    then obtain g' where "(s, g') \<in> set ls" by auto
    moreover from this have "g' = g" using Cons.prems(3) l by auto
    ultimately show ?thesis using ih(3) by auto
  qed (use e ih in auto)
  then show ?case using ih e by (auto simp: l)
qed simp

section \<open>The whole restore\<close>

lemma restore_phases:
  assumes "restore_checkpoint env mf mt st i t = (Inr ps, t')" and "load_manifest st i = Inr m"
  obtains removed t1 prepared t2 restored where
    "fold_res (remove_new_link env (m_links m)) (links_of (extra_globs env) (sha env) t) ([], t) = Inr (removed, t1)"
    "fold_res (prepare env st (m_files m)) (changed_since (listing_of (extra_globs env) (sha env) t1) (m_files m)) [] = Inr prepared"
    "fold_res (restore_one env prepared) (changed_since (listing_of (extra_globs env) (sha env) t1) (m_files m)) t1 = Inr t2"
    "fold_res (recreate_link env) (m_links m) ([], t2) = Inr (restored, t')"
  using assms by (simp add: restore_checkpoint_def Let_def split: prod.splits sum.splits if_splits)

text \<open>What a manifest remembers of a tree, up to the digest of the content.\<close>

definition file_view :: "fs_env \<Rightarrow> node \<Rightarrow> string \<Rightarrow> (string \<times> int) option" where
  "file_view env t s = (case seen (extra_globs env) t s of Some (Inl (c, m)) \<Rightarrow> Some (sha env c, m) | _ \<Rightarrow> None)"

definition link_view :: "fs_env \<Rightarrow> node \<Rightarrow> string \<Rightarrow> string option" where
  "link_view env t s = (case seen (extra_globs env) t s of Some (Inr g) \<Rightarrow> Some g | _ \<Rightarrow> None)"

lemma distinct_visible: "good_tree t \<Longrightarrow> (s, v) \<in> set (listing_of ex h t) \<longleftrightarrow> map_of (listing_of ex h t) s = Some v"
  using set_listing[of t s v ex h] map_of_listing[of t ex h s] by (simp add: good_tree_def)

lemma map_of_new_manifest:
  assumes "good_tree t"
  shows "map_of (m_files (new_manifest_for now (listing_of ex h t) links)) s =
    map_option (\<lambda>(d, z, m). (d, z, Some m)) (map_of (listing_of ex h t) s)"
proof (rule map_of_graph)
  fix s v
  show "(s, v) \<in> set (m_files (new_manifest_for now (listing_of ex h t) links)) \<longleftrightarrow>
      map_option (\<lambda>(d, z, m). (d, z, Some m)) (map_of (listing_of ex h t) s) = Some v"
    by (cases v) (auto simp: mem_new_manifest distinct_visible[OF assms])
qed

lemma set_link_targets:
  "(s, g) \<in> set (link_targets t ls) \<longleftrightarrow> s \<in> set ls \<and> (\<exists>r. lookup t (name_parts s) = Some (Link g r))
     \<and> length g \<le> MAX_LINK_TARGET_BYTES"
proof -
  have "y \<in> set (List.map_filter f xs) \<longleftrightarrow> (\<exists>x\<in>set xs. f x = Some y)" for f :: "string \<Rightarrow> (string \<times> string) option" and y xs
    by (induction xs) (auto simp: List.map_filter_simps split: option.splits)
  moreover have "short_link t l = Some (s, g) \<longleftrightarrow> l = s \<and> (\<exists>r. lookup t (name_parts s) = Some (Link g r))
     \<and> length g \<le> MAX_LINK_TARGET_BYTES" for l
    by (auto simp: short_link_def split: option.splits node.splits)
  ultimately show ?thesis by (auto simp: link_targets_def)
qed

lemma map_of_link_targets:
  "map_of (link_targets t ls) s = Some g \<longleftrightarrow> (s, g) \<in> set (link_targets t ls)"
proof
  assume m: "(s, g) \<in> set (link_targets t ls)"
  then obtain g' where g': "map_of (link_targets t ls) s = Some g'" using weak_map_of_SomeI by fast
  then have "(s, g') \<in> set (link_targets t ls)" by (rule map_of_SomeD)
  with m g' show "map_of (link_targets t ls) s = Some g" by (auto simp: set_link_targets)
qed (rule map_of_SomeD)

text \<open>The manifest of a tree, and what restoring it leaves of another one.\<close>

lemma current_state_seen:
  "good_tree t \<Longrightarrow> current_state (listing_of (extra_globs env) (sha env) t) s =
    (case file_view env t s of None \<Rightarrow> (None, None) | Some (d, m) \<Rightarrow> (Some d, Some m))"
  by (auto simp: current_state_def listing_seen file_view_def split: option.splits sum.splits)

lemma expected_state_new:
  "good_tree t \<Longrightarrow> expected_state (m_files (new_manifest_for now (listing_of (extra_globs env) (sha env) t) links)) s =
    (case file_view env t s of None \<Rightarrow> (None, None) | Some (d, m) \<Rightarrow> (Some d, Some m))"
  by (auto simp: expected_state_def map_of_new_manifest listing_seen file_view_def split: option.splits sum.splits)

lemma mem_changed_since:
  assumes "good_tree t1" and "good_tree t"
  shows "s \<in> set (changed_since (listing_of (extra_globs env) (sha env) t1)
      (m_files (new_manifest_for now (listing_of (extra_globs env) (sha env) t) links))) \<longleftrightarrow>
    file_view env t1 s \<noteq> file_view env t s"
proof -
  let ?cur = "listing_of (extra_globs env) (sha env) t1"
  let ?fs = "m_files (new_manifest_for now (listing_of (extra_globs env) (sha env) t) links)"
  have "current_state ?cur s \<noteq> expected_state ?fs s \<longleftrightarrow> file_view env t1 s \<noteq> file_view env t s"
    by (auto simp: current_state_seen[OF assms(1)] expected_state_new[OF assms(2)] split: option.splits)
  moreover have "s \<in> set (map fst ?cur @ map fst ?fs)" if "current_state ?cur s \<noteq> expected_state ?fs s"
  proof (rule ccontr)
    assume "s \<notin> set (map fst ?cur @ map fst ?fs)"
    then have "map_of ?cur s = None" "map_of ?fs s = None" by (simp_all add: map_of_eq_None_iff)
    with that show False by (simp add: current_state_def expected_state_def)
  qed
  ultimately show ?thesis unfolding changed_since_def by auto
qed

lemma file_view_Some: "file_view env t s = Some (d, m) \<longleftrightarrow> (\<exists>c. seen (extra_globs env) t s = Some (Inl (c, m)) \<and> sha env c = d)"
  by (auto simp: file_view_def split: option.splits sum.splits)

lemma file_view_None: "file_view env t s = None \<longleftrightarrow> (\<nexists>f. seen (extra_globs env) t s = Some (Inl f))"
  by (auto simp: file_view_def split: option.splits sum.splits)

lemma file_view_proper: "good_tree t \<Longrightarrow> file_view env t s \<noteq> None \<Longrightarrow> proper s \<and> \<not> hidden (extra_globs env) s"
  using seen_proper[of t "extra_globs env" s] by (cases "seen (extra_globs env) t s = None") (auto simp: file_view_def)

text \<open>The files: what is prepared is what the manifest says, and writing it gives the view back.\<close>

lemma prepared_view:
  assumes "good_tree t"
    and "fold_res (prepare env st (m_files m)) ss [] = Inr prepared"
    and "m = new_manifest_for now (listing_of (extra_globs env) (sha env) t) links" and "s \<in> set ss"
  shows "case file_view env t s of None \<Rightarrow> map_of prepared s = None
    | Some (d, k) \<Rightarrow> (\<exists>c. map_of prepared s = Some (c, Some k) \<and> sha env c = d)"
proof -
  have "map_of (m_files m) s = map_option (\<lambda>(d, z, k). (d, z, Some k)) (map_of (listing_of (extra_globs env) (sha env) t) s)"
    unfolding assms(3) by (rule map_of_new_manifest[OF assms(1)])
  then show ?thesis
    using spec[OF prepare_effect[OF assms(2)], of s] assms(4) listing_seen[OF assms(1), of "extra_globs env" "sha env" s]
    by (auto simp: file_view_def split: option.splits sum.splits)
qed

lemma restore_files:
  assumes "good_tree t" and "good_tree t1"
    and m: "m = new_manifest_for now (listing_of (extra_globs env) (sha env) t) links"
    and ch: "ch = changed_since (listing_of (extra_globs env) (sha env) t1) (m_files m)"
    and "fold_res (prepare env st (m_files m)) ch [] = Inr prepared"
    and "fold_res (restore_one env prepared) ch t1 = Inr t2"
  shows "good_tree t2 \<and> file_view env t2 = file_view env t
    \<and> (\<forall>s g. seen (extra_globs env) t2 s = Some (Inr g) \<longrightarrow> seen (extra_globs env) t1 s = Some (Inr g))"
proof -
  let ?ex = "extra_globs env"
  have mem: "s \<in> set ch \<longleftrightarrow> file_view env t1 s \<noteq> file_view env t s" for s
    unfolding ch m by (rule mem_changed_since[OF assms(2,1)])
  note prep = prepared_view[OF assms(1,5) m]
  have steps: "proper s \<and> \<not> hidden ?ex s \<and> (\<forall>c mo. map_of prepared s = Some (c, mo) \<longrightarrow> mo \<noteq> None)
      \<and> (map_of prepared s = None \<longrightarrow> (\<exists>f. seen ?ex t1 s = Some (Inl f)))" if s: "s \<in> set ch" for s
  proof -
    have "file_view env t1 s \<noteq> None \<or> file_view env t s \<noteq> None" using s[unfolded mem] by metis
    then have "proper s \<and> \<not> hidden ?ex s" using file_view_proper assms(1,2) by blast
    moreover have "map_of prepared s = None \<longrightarrow> (\<exists>f. seen ?ex t1 s = Some (Inl f))"
      using prep[OF s] s[unfolded mem] file_view_None[of env t1 s] by (auto split: option.splits)
    ultimately show ?thesis using prep[OF s] by (auto split: option.splits)
  qed
  have "distinct ch" by (simp add: ch changed_since_def)
  from restore_all_effect[OF assms(6,2) this, of ?ex] steps have g2: "good_tree t2"
    and s2: "\<And>x. seen ?ex t2 x = (if x \<in> set ch then
      (case map_of prepared x of Some (c, Some k) \<Rightarrow> Some (Inl (c, k)) | _ \<Rightarrow> None) else seen ?ex t1 x)"
    by simp_all
  have "file_view env t2 s = file_view env t s" for s
  proof (cases "s \<in> set ch")
    case True
    with prep[OF True] s2[of s] show ?thesis
      by (cases "file_view env t s") (auto simp: file_view_def[of env t2])
  next
    case False
    with s2[of s] mem[of s] show ?thesis by (simp add: file_view_def[of env t2] file_view_def[of env t1])
  qed
  moreover have "seen ?ex t1 s = Some (Inr g)" if "seen ?ex t2 s = Some (Inr g)" for s g
    using that s2[of s] by (auto split: if_splits option.splits)
  ultimately show ?thesis using g2 by blast
qed

text \<open>The links a manifest records.\<close>

lemma manifest_links:
  assumes "good_tree t" and "ls = link_targets t (links_of (extra_globs env) h t)"
  shows "map_of ls s = Some g \<longleftrightarrow> link_view env t s = Some g \<and> length g \<le> MAX_LINK_TARGET_BYTES"
    and "(s, g) \<in> set ls \<longleftrightarrow> map_of ls s = Some g"
proof -
  have "seen (extra_globs env) t s = Some (Inr g') \<Longrightarrow> lookup t (name_parts s) = Some (Link g r) \<Longrightarrow> g' = g" for g' r
    by (auto simp: seen_def split: if_splits)
  moreover have "seen (extra_globs env) t s = Some (Inr g) \<Longrightarrow> \<exists>r. lookup t (name_parts s) = Some (Link g r)"
    by (auto simp: seen_def leaf_iff split: if_splits)
  ultimately show "map_of ls s = Some g \<longleftrightarrow> link_view env t s = Some g \<and> length g \<le> MAX_LINK_TARGET_BYTES"
    unfolding assms(2) map_of_link_targets set_link_targets links_seen[OF assms(1)]
    by (auto simp: link_view_def split: option.splits sum.splits)
  show "(s, g) \<in> set ls \<longleftrightarrow> map_of ls s = Some g" by (simp add: assms(2) map_of_link_targets)
qed

lemma link_view_seen: "link_view env t s = Some g \<longleftrightarrow> seen (extra_globs env) t s = Some (Inr g)"
  by (auto simp: link_view_def split: option.splits sum.splits)

lemma file_not_link: "link_view env t s = Some g \<Longrightarrow> file_view env t s = None"
  by (auto simp: link_view_seen file_view_None)

lemma restore_views:
  assumes t: "good_tree t" and t0: "good_tree t0"
    and m: "m = new_manifest_for now (listing_of (extra_globs env) (sha env) t)
      (link_targets t (links_of (extra_globs env) (sha env) t))"
    and "load_manifest st i = Inr m" and "restore_checkpoint env mf mt st i t0 = (Inr ps, t')"
  shows "good_tree t' \<and> file_view env t' = file_view env t
    \<and> (\<forall>s g. link_view env t' s = Some g \<longrightarrow> link_view env t s = Some g)
    \<and> (\<forall>s g. link_view env t s = Some g \<longrightarrow> length g \<le> MAX_LINK_TARGET_BYTES \<longrightarrow>
        link_view env t' s = Some g \<or> is_dir (lookup t' (name_parts s)))"
proof -
  let ?ex = "extra_globs env"
  obtain removed t1 prepared t2 restored where
    p1: "fold_res (remove_new_link env (m_links m)) (links_of ?ex (sha env) t0) ([], t0) = Inr (removed, t1)" and
    p2: "fold_res (prepare env st (m_files m)) (changed_since (listing_of ?ex (sha env) t1) (m_files m)) [] = Inr prepared" and
    p3: "fold_res (restore_one env prepared) (changed_since (listing_of ?ex (sha env) t1) (m_files m)) t1 = Inr t2" and
    p4: "fold_res (recreate_link env) (m_links m) ([], t2) = Inr (restored, t')"
    using restore_phases[OF assms(5,4)] .
  have "m_links m = link_targets t (links_of ?ex (sha env) t)" by (simp add: m new_manifest_for_def)
  note links = manifest_links[OF t this]
  have "\<forall>s\<in>set (links_of ?ex (sha env) t0). proper s"
    using links_seen[OF t0] seen_proper[OF t0, of ?ex] by auto
  from remove_new_links_effect[OF p1 t0 this, of ?ex] have g1: "good_tree t1"
    and s1: "\<And>s g. seen ?ex t1 s = Some (Inr g) \<Longrightarrow> map_of (m_links m) s = Some g"
    using links_seen[OF t0, of _ ?ex "sha env"] by (auto split: option.splits sum.splits if_splits)
  from restore_files[OF t g1 m refl p2 p3] have g2: "good_tree t2" and v2: "file_view env t2 = file_view env t"
    and s2: "\<And>s g. seen ?ex t2 s = Some (Inr g) \<Longrightarrow> map_of (m_links m) s = Some g" using s1 by auto
  have "\<forall>(s, g)\<in>set (m_links m). proper s \<and> \<not> hidden ?ex s \<and> map_of (m_links m) s = Some g"
    using links seen_proper[OF t, of ?ex] by (auto simp: link_view_seen)
  from recreate_links_effect[OF p4 g2 this] have g': "good_tree t'"
    and same: "\<And>x. x \<notin> fst ` set (m_links m) \<Longrightarrow> seen ?ex t' x = seen ?ex t2 x"
    and link: "\<And>s g. map_of (m_links m) s = Some g \<Longrightarrow>
      seen ?ex t' s = Some (Inr g) \<or> seen ?ex t' s = None \<and> is_dir (lookup t' (name_parts s))"
    unfolding links(2)[symmetric] by blast+
  have "file_view env t' s = file_view env t s
      \<and> (\<forall>g. link_view env t' s = Some g \<longrightarrow> map_of (m_links m) s = Some g)" for s
  proof (cases "map_of (m_links m) s")
    case None
    then have e: "seen ?ex t' s = seen ?ex t2 s" by (intro same) (simp add: map_of_eq_None_iff)
    then have "file_view env t' s = file_view env t2 s" by (simp only: file_view_def)
    then have "file_view env t' s = file_view env t s" by (simp only: v2)
    moreover have "map_of (m_links m) s = Some g" if "link_view env t' s = Some g" for g
      using that s2 unfolding link_view_seen e by blast
    ultimately show ?thesis by blast
  next
    case (Some g)
    then have "file_view env t s = None" using links(1) file_not_link by blast
    moreover have "file_view env t' s = None" using link[OF Some] by (auto simp: file_view_None)
    ultimately show ?thesis using link[OF Some] Some by (auto simp: link_view_seen)
  qed
  with g' link links(1) show ?thesis by (auto simp: fun_eq_iff link_view_seen) 
qed

section \<open>The interface\<close>

text \<open>What a user of \<open>with_recovery\<close> relies on: acquiring keeps the store in order, and going back
  from any good state restores the state in which it was acquired.\<close>

locale recovery =
  fixes acquire :: "'w \<Rightarrow> 's \<Rightarrow> (exn + 'i) \<times> 's"
    and undo :: "'s \<Rightarrow> 'i \<Rightarrow> 'w \<Rightarrow> (exn + 'p) \<times> 'w"
    and restored :: "'w \<Rightarrow> 'w \<Rightarrow> bool" and good :: "'w \<Rightarrow> bool" and ok :: "'s \<Rightarrow> bool"
  assumes acquire_ok: "ok s \<Longrightarrow> good w \<Longrightarrow> acquire w s = (r, s') \<Longrightarrow> ok s'"
    and undo_restores: "ok s \<Longrightarrow> good w \<Longrightarrow> acquire w s = (Inr i, s') \<Longrightarrow> good w' \<Longrightarrow>
      undo s' i w' = (Inr p, w'') \<Longrightarrow> good w'' \<and> restored w w''"
begin

lemma success_keeps_body:
  "with_recovery acquire undo body w s = (Inr a, w', s') \<Longrightarrow> \<exists>i. acquire w s = (Inr i, s') \<and> body i w = (Inr a, w')"
  by (auto simp: with_recovery_def split: prod.splits sum.splits)

lemma store_stays_ok:
  "ok s \<Longrightarrow> good w \<Longrightarrow> with_recovery acquire undo body w s = (r, w', s') \<Longrightarrow> ok s'"
  using acquire_ok by (auto simp: with_recovery_def split: prod.splits sum.splits)

lemma failure_is_undone:
  assumes "ok s" and "good w" and "\<And>i w. good w \<Longrightarrow> good (snd (body i w))"
    and "with_recovery acquire undo body w s = (Inl e, w', s')"
  shows "w' = w \<or> (good w' \<and> restored w w')
    \<or> (\<exists>i e1 w1. acquire w s = (Inr i, s') \<and> body i w = (Inl e1, w1) \<and> undo s' i w1 = (Inl e, w'))"
proof (cases "acquire w s")
  case (Pair r s1)
  show ?thesis
  proof (cases r)
    case (Inr i)
    from assms(4) Pair Inr obtain e1 w1 where b: "body i w = (Inl e1, w1)" and s1: "s1 = s'"
      by (auto simp: with_recovery_def split: prod.splits sum.splits)
    have "good w1" using assms(3)[OF assms(2), of i] b by simp
    with assms(1,2,4) Pair Inr b s1 undo_restores[of s w i s' w1] show ?thesis
      by (auto simp: with_recovery_def split: prod.splits sum.splits)
  qed (use assms(4) Pair in \<open>auto simp: with_recovery_def\<close>)
qed

end

text \<open>The tree is back: the same files with the same digests and permission bits, no other links, and every
  recorded link again unless a directory stands in its place.\<close>

definition restored_tree :: "fs_env \<Rightarrow> node \<Rightarrow> node \<Rightarrow> bool" where
  "restored_tree env t t' \<longleftrightarrow> file_view env t' = file_view env t
    \<and> (\<forall>s g. link_view env t' s = Some g \<longrightarrow> link_view env t s = Some g)
    \<and> (\<forall>s g. link_view env t s = Some g \<longrightarrow> length g \<le> MAX_LINK_TARGET_BYTES \<longrightarrow>
        link_view env t' s = Some g \<or> is_dir (lookup t' (name_parts s)))"

definition env_ok :: "fs_env \<Rightarrow> string \<Rightarrow> bool" where
  "env_ok env fresh \<longleftrightarrow> checkpoint_id_ok fresh \<and> (\<forall>c. sha env c \<noteq> [])"

lemma create_facts:
  assumes "store_ok env st" and "env_ok env fresh" and "good_tree t"
    and "create_checkpoint env mf mt mc free now fresh t st = (r, st')"
  shows "store_ok env st' \<and> (\<forall>i. r = Inr i \<longrightarrow>
    load_manifest st' i = Inr (new_manifest_for now (listing_of (extra_globs env) (sha env) t)
            (link_targets t (links_of (extra_globs env) (sha env) t))))"
  using create_records_listing[where t = t and env = env and st = st and fresh = fresh and mf = mf and mt = mt
      and mc = mc and free = free and now = now] assms
  by (auto simp: good_tree_def env_ok_def split: sum.splits)

interpretation staging: recovery "create_checkpoint env mf mt mc free now fresh" "restore_checkpoint env mf' mt'"
  "restored_tree env" good_tree "\<lambda>st. store_ok env st \<and> env_ok env fresh"
  for env mf mt mc free now fresh mf' mt'
proof unfold_locales
  fix s :: store and w r s'
  assume "store_ok env s \<and> env_ok env fresh" "good_tree w" "create_checkpoint env mf mt mc free now fresh w s = (r, s')"
  then show "store_ok env s' \<and> env_ok env fresh" using create_facts by blast
next
  fix s :: store and w i s' w' p w''
  assume a: "store_ok env s \<and> env_ok env fresh" "good_tree w"
    "create_checkpoint env mf mt mc free now fresh w s = (Inr i, s')" "good_tree w'"
    "restore_checkpoint env mf' mt' s' i w' = (Inr p, w'')"
  then have "load_manifest s' i = Inr (new_manifest_for now (listing_of (extra_globs env) (sha env) w)
            (link_targets w (links_of (extra_globs env) (sha env) w)))"
    using create_facts[of env s fresh w mf mt mc free now "Inr i" s'] by blast
  from restore_views[OF a(2,4) refl this a(5)] show "good_tree w'' \<and> restored_tree env w w''"
    by (simp add: restored_tree_def)
qed

text \<open>Claim C29. A mutation is all or nothing: whatever the body did to the staging tree before it raised, either no
  checkpoint could be taken and nothing has run, or the listing is again what it was (digests,
  permission bits, links), or the rollback itself was refused and its error is reported. The
  checkpoint store stays in order in every case.\<close>

theorem failed_mutation_is_undone:
  assumes "good_tree t" and "store_ok env st" and "env_ok env fresh" and "\<And>i t. good_tree t \<Longrightarrow> good_tree (snd (body i t))"
    and "checkpointed env mf mt free now fresh body t st = (Inl e, t', st')"
  shows "store_ok env st' \<and> (t' = t \<or> restored_tree env t t'
    \<or> (\<exists>i e1 t1. create_checkpoint env mf mt DEFAULT_MAX_CHECKPOINTS free now fresh t st = (Inr i, st') \<and> body i t = (Inl e1, t1)
        \<and> restore_checkpoint env DEFAULT_MAX_CHECKPOINT_FILES DEFAULT_MAX_CHECKPOINT_BYTES st' i t1 = (Inl e, t')))"
  using staging.failure_is_undone[OF _ assms(1,4) assms(5)[unfolded checkpointed_def]] assms(2,3)
    staging.store_stays_ok[OF _ assms(1) assms(5)[unfolded checkpointed_def]] by blast

section \<open>Samples\<close>

text \<open>A command that rewrites one file, deletes a directory and a link, leaves a new file, and fails.\<close>

definition messy_work :: node where
  "messy_work = Dir [(''k'', File ''new'' 0x1ED 1), (''j'', File ''j'' 0x1A4 1)]"

definition messy_body :: "string \<Rightarrow> node \<Rightarrow> (exn + unit) \<times> node" where
  "messy_body i t = (Inl TimeoutErr, messy_work)"

lemma messy_listing:
  "listing_of [] (sha plain_env) messy_work = [(''j'', (''#j'', 1, 0x1A4)), (''k'', (''#new'', 3, 0x1ED))]"
  "links_of [] (sha plain_env) messy_work = []"
  by code_simp+

lemma messy_changed:
  "changed_since [(''j'', (''#j'', 1, 0x1A4)), (''k'', (''#new'', 3, 0x1ED))] (m_files sample_manifest) = [''d/x'', ''j'', ''k'']"
  by code_simp

lemma sample_checks:
  "fold_res (check_name plain_env) (map fst (m_files sample_manifest)) () = Inr ()"
  "fold_res (check_link plain_env) (m_links sample_manifest) () = Inr ()"
  by code_simp+

lemma messy_prepared:
  "fold_res (prepare plain_env sample_store (m_files sample_manifest)) [''d/x'', ''j'', ''k''] []
    = Inr [(''d/x'', (''one'', Some 0x1ED)), (''k'', (''old'', Some 0x1A4))]"
  by code_simp

lemma messy_steps:
  "run_steps (restore_one plain_env [(''d/x'', (''one'', Some 0x1ED)), (''k'', (''old'', Some 0x1A4))]) [''d/x'', ''j'', ''k''] messy_work
    = (Inr (), Dir [(''k'', File ''old'' 0x1A4 1), (''d'', Dir [(''x'', File ''one'' 0x1ED 1)])])"
  by code_simp

lemma messy_links:
  "collect_steps (recreate_link plain_env) (m_links sample_manifest)
     (Dir [(''k'', File ''old'' 0x1A4 1), (''d'', Dir [(''x'', File ''one'' 0x1ED 1)])])
    = (Inr [''l''], Dir [(''k'', File ''old'' 0x1A4 1), (''d'', Dir [(''x'', File ''one'' 0x1ED 1)]), (''l'', Link ''d/x'' None)])"
  by code_simp

lemma no_steps: "collect_steps f [] t = (Inr [], t)"
  by (simp add: collect_steps_def)

lemma messy_restored:
  "\<exists>ps. restore_checkpoint plain_env DEFAULT_MAX_CHECKPOINT_FILES DEFAULT_MAX_CHECKPOINT_BYTES sample_store sample_id messy_work
    = (Inr ps, Dir [(''k'', File ''old'' 0x1A4 1), (''d'', Dir [(''x'', File ''one'' 0x1ED 1)]), (''l'', Link ''d/x'' None)])"
proof -
  have "load_manifest sample_store sample_id = Inr sample_manifest" by code_simp
  moreover have "extra_globs plain_env = []" by (simp add: plain_env_def)
  moreover have "length (m_files sample_manifest) = 2" "sum_list (map (\<lambda>f. max 0 (fst (snd (snd f)))) (m_files sample_manifest)) = 6"
    by (simp_all add: sample_manifest_def)
  ultimately show ?thesis
    by (simp del: One_nat_def fold_res.simps run_steps.simps add: Let_def no_steps restore_checkpoint_def DEFAULT_MAX_CHECKPOINT_FILES_def DEFAULT_MAX_CHECKPOINT_BYTES_def
        sample_checks messy_listing messy_changed messy_prepared messy_steps messy_links)
qed

theorem failed_mutation_is_undone_witness:
  "\<exists>t' st'. checkpointed plain_env 10 100 2000000000 5 sample_id messy_body sample_work empty_store = (Inl TimeoutErr, t', st')
     \<and> store_ok plain_env st' \<and> restored_tree plain_env sample_work t'
     \<and> lookup t' [''d'', ''x''] = Some (File ''one'' 0x1ED 1) \<and> lookup t' [''j''] = None"
proof -
  let ?u = "restore_checkpoint plain_env DEFAULT_MAX_CHECKPOINT_FILES DEFAULT_MAX_CHECKPOINT_BYTES"
  obtain ps t' where u: "?u sample_store sample_id messy_work = (Inr ps, t')"
    and l: "lookup t' [''d'', ''x''] = Some (File ''one'' 0x1ED 1)" "lookup t' [''j''] = None"
    using messy_restored by auto
  then have r: "checkpointed plain_env 10 100 2000000000 5 sample_id messy_body sample_work empty_store
      = (Inl TimeoutErr, t', sample_store)"
    by (simp add: checkpointed_def with_recovery_def sample_created messy_body_def)
  have g: "good_tree sample_work" "store_ok plain_env empty_store" "env_ok plain_env sample_id"
    by (auto simp: good_tree_def sample_work_def valid_name_def store_ok_def empty_store_def env_ok_def plain_env_def
        checkpoint_id_ok_def sample_id_def)
  have b: "good_tree (snd (messy_body i t))" for i t by (simp add: messy_body_def messy_work_def good_tree_def valid_name_def)
  have "restored_tree plain_env sample_work sample_work" by (simp add: restored_tree_def)
  with failed_mutation_is_undone[OF g b r] r l u show ?thesis
    by (auto simp: sample_created messy_body_def)
qed

section \<open>Rollbacks that are refused\<close>

text \<open>The context manager creates a checkpoint under the configured limits but restores it under the default
  ones, which the profile for large workspaces exceeds.\<close>

definition flat_env :: fs_env where
  "flat_env = plain_env\<lparr>sha := (\<lambda>_. ''#'')\<rparr>"

definition one_file :: "string \<Rightarrow> node" where
  "one_file c = Dir [(''d'', File c 0x1A4 1)]"

definition wiping_body :: "string \<Rightarrow> node \<Rightarrow> (exn + unit) \<times> node" where
  "wiping_body i t = (Inl TimeoutErr, Dir [])"

lemma one_file_listing:
  "listing_of [] (\<lambda>_. ''#'') (one_file c) = [(''d'', (''#'', int (length c), 0x1A4))]"
  "links_of [] (\<lambda>_. ''#'') (one_file c) = []"
  by code_simp+

definition one_file_store :: "string \<Rightarrow> store" where
  "one_file_store c = \<lparr>objects = [(''#'', c)], checkpoints = [(sample_id, \<lparr>created_ns = 5,
     m_files = [(''d'', (''#'', int (length c), Some 0x1A4))], m_links = []\<rparr>)]\<rparr>"

lemma one_file_created:
  assumes "int (length c) \<le> mt" and "int (length c) + REQUIRED_TEMP_HEADROOM_BYTES < free" and "1 \<le> mf"
  shows "create_checkpoint flat_env mf mt DEFAULT_MAX_CHECKPOINTS free 5 sample_id (one_file c) empty_store
    = (Inr sample_id, one_file_store c)"
proof -
  let ?m = "\<lparr>created_ns = 5, m_files = [(''d'', (''#'', int (length c), Some 0x1A4))], m_links = []\<rparr>"
  have m: "new_manifest_for 5 [(''d'', (''#'', int (length c), 0x1A4))] (link_targets (one_file c) []) = ?m"
    by (simp add: new_manifest_for_def link_targets_def List.map_filter_simps)
  have id: "checkpoint_id_ok sample_id" by (simp add: checkpoint_id_ok_def sample_id_def)
  have refs: "all_references [(sample_id, ?m)] = [(''#'', int (length c))]"
    by (simp add: all_references_def referenced_objects_def)
  have "prune sample_id DEFAULT_MAX_CHECKPOINTS mt \<lparr>objects = [(''#'', c)], checkpoints = [(sample_id, ?m)]\<rparr>
      = (Inr (), one_file_store c)"
    using assms(1) id refs
    by (simp add: prune_def Let_def keep_ids_def kept_directories_def prune_loop.simps one_file_store_def)
  moreover have "run_steps (store_object flat_env (one_file c)) [(''d'', (''#'', int (length c), 0x1A4))] []
      = (Inr (), [(''#'', c)])"
    by (simp add: store_object_def one_file_def name_parts_def flat_env_def plain_env_def)
  moreover have "link_targets (one_file c) [] = []" by (simp add: link_targets_def List.map_filter_simps)
  ultimately show ?thesis
    using assms m one_file_listing[of c]
    by (simp add: create_checkpoint_def Let_def flat_env_def plain_env_def empty_store_def)
qed

text \<open>A failed mutation in a large workspace is not rolled back: for every file size between the
  default checkpoint budget and the budget of the large profile, the checkpoint is accepted, the
  command that deletes the file and fails runs, and the rollback is refused, so the file stays deleted.\<close>

theorem large_workspace_is_not_rolled_back:
  assumes "DEFAULT_MAX_CHECKPOINT_BYTES < int (length c)" and "int (length c) \<le> large_limit max_checkpoint_bytes"
  shows "checkpointed flat_env (large_limit max_staged_files) (large_limit max_checkpoint_bytes) 9000000000 5 sample_id
    wiping_body (one_file c) empty_store = (Inl (ToolError LIMIT_EXCEEDED), Dir [], one_file_store c)"
proof -
  have c: "create_checkpoint flat_env (large_limit max_staged_files) (large_limit max_checkpoint_bytes)
      DEFAULT_MAX_CHECKPOINTS 9000000000 5 sample_id (one_file c) empty_store = (Inr sample_id, one_file_store c)"
    using assms by (intro one_file_created) (simp_all add: REQUIRED_TEMP_HEADROOM_BYTES_def)
  have "load_manifest (one_file_store c) sample_id = Inr \<lparr>created_ns = 5,
     m_files = [(''d'', (''#'', int (length c), Some 0x1A4))], m_links = []\<rparr>"
    by (simp add: load_manifest_def one_file_store_def checkpoint_id_ok_def sample_id_def)
  moreover have "check_name flat_env ''d'' () = Inr ()" by code_simp
  ultimately have "restore_checkpoint flat_env DEFAULT_MAX_CHECKPOINT_FILES DEFAULT_MAX_CHECKPOINT_BYTES
      (one_file_store c) sample_id (Dir []) = (Inl (ToolError LIMIT_EXCEEDED), Dir [])"
    using assms(1) by (simp add: restore_checkpoint_def DEFAULT_MAX_CHECKPOINT_FILES_def)
  with c show ?thesis by (simp add: checkpointed_def with_recovery_def wiping_body_def)
qed

theorem large_workspace_is_not_rolled_back_witness:
  "\<exists>c. snd (snd (checkpointed flat_env (large_limit max_staged_files) (large_limit max_checkpoint_bytes) 9000000000 5 sample_id
    wiping_body (one_file c) empty_store)) = one_file_store c
    \<and> fst (snd (checkpointed flat_env (large_limit max_staged_files) (large_limit max_checkpoint_bytes) 9000000000 5 sample_id
    wiping_body (one_file c) empty_store)) = Dir []"
  using large_workspace_is_not_rolled_back[of "replicate 2600000000 (CHR ''x'')"]
  by (intro exI[of _ "replicate 2600000000 (CHR ''x'')"]) (simp add: DEFAULT_MAX_CHECKPOINT_BYTES_def)

text \<open>Two ways in which a failing command keeps its effect under every limit: it replaced a file by a
  directory, or it left a file whose name the path rules refuse (here one with a colon). In both cases the
  rollback raises before the file \<open>k\<close> is written back.\<close>

theorem rollback_blocked_by_what_the_command_left:
  "(\<exists>st'. checkpointed plain_env 10 100 2000000000 5 sample_id
       (\<lambda>i t. (Inl TimeoutErr :: exn + unit, Dir [(''k'', Dir [])])) (Dir [(''k'', File ''old'' 0x1A4 1)]) empty_store
     = (Inl IsADirectory, Dir [(''k'', Dir [])], st'))
   \<and> (\<exists>st'. checkpointed plain_env 10 100 2000000000 5 sample_id
       (\<lambda>i t. (Inl TimeoutErr :: exn + unit, Dir [(''a:b'', File ''x'' 0x1A4 1), (''k'', File ''new'' 0x1A4 1)]))
       (Dir [(''k'', File ''old'' 0x1A4 1)]) empty_store
     = (Inl UnsafePath, Dir [(''a:b'', File ''x'' 0x1A4 1), (''k'', File ''new'' 0x1A4 1)], st'))"
proof -
  let ?k = "Dir [(''k'', File ''old'' 0x1A4 1)]"
  let ?st = "\<lparr>objects = [(''#old'', ''old'')], checkpoints = [(sample_id, \<lparr>created_ns = 5,
     m_files = [(''k'', (''#old'', 3, Some 0x1A4))], m_links = []\<rparr>)]\<rparr>"
  have c: "create_checkpoint plain_env 10 100 DEFAULT_MAX_CHECKPOINTS 2000000000 5 sample_id ?k empty_store
      = (Inr sample_id, ?st)"
    by code_simp
  have "restore_checkpoint plain_env DEFAULT_MAX_CHECKPOINT_FILES DEFAULT_MAX_CHECKPOINT_BYTES ?st sample_id
      (Dir [(''k'', Dir [])]) = (Inl IsADirectory, Dir [(''k'', Dir [])])"
    by code_simp
  moreover have "restore_checkpoint plain_env DEFAULT_MAX_CHECKPOINT_FILES DEFAULT_MAX_CHECKPOINT_BYTES ?st sample_id
      (Dir [(''a:b'', File ''x'' 0x1A4 1), (''k'', File ''new'' 0x1A4 1)])
      = (Inl UnsafePath, Dir [(''a:b'', File ''x'' 0x1A4 1), (''k'', File ''new'' 0x1A4 1)])"
    by code_simp
  ultimately show ?thesis using c by (simp add: checkpointed_def with_recovery_def)
qed

end
