(* ===== verification/Mutations.thy ===== *)
theory Mutations
  imports Rollback StreamEdit
begin

text \<open>
  What the file tools share (\<open>executor/mutations.py\<close>): the check of a caller-supplied hash, line
  counting, the guard against a whole-file mutation that drops most of a file, and the vocabulary of
  their proofs: the leaves of a tree, steps that may raise, the checkpoint around them.  The bounded diffs
  of that file are a preview made with \<open>difflib\<close>; they change nothing and are not modelled.
\<close>

section \<open>Reading a file\<close>

text \<open>\<open>handle.read(64 * 1024)\<close> until it returns nothing.\<close>

definition CHUNK_BYTES :: nat where
  "CHUNK_BYTES = 65536"

function chunked :: "nat \<Rightarrow> string \<Rightarrow> string list" where
  "chunked n s = (if n = 0 \<or> s = [] then [] else take n s # chunked n (drop n s))"
  by pat_completeness auto
termination
  by (relation "measure (\<lambda>(n, s). length s)") auto

declare chunked.simps [simp del]

definition read_chunks :: "string \<Rightarrow> string list" where
  "read_chunks c = chunked CHUNK_BYTES c"

lemma concat_chunked: "0 < n \<Longrightarrow> concat (chunked n s) = s"
proof (induction n s rule: chunked.induct)
  case (1 n s)
  then show ?case by (cases "s = []") (subst chunked.simps, simp)+
qed

lemma chunked_not_Nil: "c \<in> set (chunked n s) \<Longrightarrow> c \<noteq> []"
proof (induction n s rule: chunked.induct)
  case (1 n s)
  then show ?case by (subst (asm) (2) chunked.simps) (auto split: if_splits)
qed

lemma concat_read_chunks [simp]: "concat (read_chunks c) = c"
  by (simp add: read_chunks_def concat_chunked CHUNK_BYTES_def)

text \<open>\<open>read_text\<close>: strict decoding (a NUL is text here), and universal newlines.\<close>

definition decodes :: "string \<Rightarrow> bool" where
  "decodes c = valid_text (map (\<lambda>b. if b = NUL then CHR 0x20 else b) c)"

fun universal_newlines :: "string \<Rightarrow> string" where
  "universal_newlines [] = []"
| "universal_newlines [c] = [if c = CHR 0x0D then CHR 0x0A else c]"
| "universal_newlines (c # d # s) =
     (if c = CHR 0x0D then CHR 0x0A # (if d = CHR 0x0A then universal_newlines s else universal_newlines (d # s))
      else c # universal_newlines (d # s))"

definition read_text :: "string \<Rightarrow> exn + string" where
  "read_text c = (if decodes c then Inr (universal_newlines c) else Inl UnicodeErr)"

section \<open>Hash check\<close>

definition check_expected_sha256 :: "pyval \<Rightarrow> string option \<Rightarrow> exn + unit" where
  "check_expected_sha256 expected actual =
     (case expected of
        PNone \<Rightarrow> Inr ()
      | PStr e \<Rightarrow> if Some e \<noteq> actual then Inl (ToolError STAGING_CONFLICT) else Inr ()
      | _ \<Rightarrow> Inl (ToolError INVALID_ARGUMENTS))"

section \<open>Shrink guard\<close>

definition newlines :: "string \<Rightarrow> int" where
  "newlines s = int (length (filter (\<lambda>c. c = CHR 0x0A) s))"

text \<open>\<open>_count_lines\<close>: newline characters, and one more for an unterminated last line.\<close>

definition count_lines :: "string \<Rightarrow> int" where
  "count_lines c = (if c = [] then 0 else newlines c + (if last c = CHR 0x0A then 0 else 1))"

text \<open>The loop over the chunks of the file: the count so far and the last byte read.\<close>

definition count_chunk :: "string \<Rightarrow> int \<times> string \<Rightarrow> int \<times> string" where
  "count_chunk chunk st = (fst st + newlines chunk, drop (length chunk - 1) chunk)"

definition count_lines_chunked :: "string list \<Rightarrow> int" where
  "count_lines_chunked chunks =
     (if concat chunks = [] then 0
      else (case fold count_chunk chunks (0, []) of (n, lst) \<Rightarrow> n + (if lst = [CHR 0x0A] then 0 else 1)))"

record shrink =
  old_bytes :: int
  new_bytes :: int
  old_lines :: int
  new_lines :: int

text \<open>The new content of the file: all of it, or so many replacements of one text by another.\<close>

datatype change = Whole string | Replaced string string int

fun new_size :: "change \<Rightarrow> int \<Rightarrow> int" where
  "new_size (Whole c) old = int (length c)"
| "new_size (Replaced a b n) old = old + max 0 n * (int (length b) - int (length a))"

fun new_line_count :: "change \<Rightarrow> int \<Rightarrow> int" where
  "new_line_count (Whole c) old = newlines c + 1"
| "new_line_count (Replaced a b n) old = max 1 (old + max 0 n * (newlines b - newlines a))"

text \<open>\<open>guard_shrink\<close>; halving is exact, so the ratio is written without division.\<close>

definition guard_shrink :: "node option \<Rightarrow> change \<Rightarrow> bool \<Rightarrow> exn + shrink option" where
  "guard_shrink n ch advisory =
     (case n of
        Some (File c m k) \<Rightarrow>
          (let ob = int (length c); ol = count_lines c; nb = new_size ch ob; nl = new_line_count ch ol
           in if ob < 200 \<or> ol < 20 \<or> \<not> (2 * nb < ob \<and> 2 * nl < ol) then Inr None
              else if \<not> advisory then Inl (ToolError STAGING_SHRINK_WARNING)
              else Inr (Some \<lparr>old_bytes = ob, new_bytes = nb, old_lines = ol, new_lines = nl\<rparr>))
      | _ \<Rightarrow> Inr None)"

section \<open>Lemmas\<close>

lemma check_expected_Inr:
  "check_expected_sha256 e a = Inr u \<longleftrightarrow> e = PNone \<or> (\<exists>h. e = PStr h \<and> a = Some h)"
  by (auto simp: check_expected_sha256_def split: pyval.splits if_splits)

lemma guard_shrink_Inr:
  "guard_shrink (Some (File c m k)) ch False = Inr w \<Longrightarrow>
    int (length c) < 200 \<or> count_lines c < 20 \<or> int (length c) \<le> 2 * new_size ch (int (length c))
    \<or> count_lines c \<le> 2 * new_line_count ch (count_lines c)"
  by (auto simp: guard_shrink_def Let_def split: if_splits)

lemma guard_shrink_advisory: "\<exists>w. guard_shrink n ch True = Inr w"
  by (auto simp: guard_shrink_def Let_def split: option.splits node.splits)

lemma newlines_simps [simp]:
  "newlines [] = 0" "newlines (c # s) = (if c = CHR 0x0A then 1 else 0) + newlines s"
  "newlines (a @ b) = newlines a + newlines b"
  by (simp_all add: newlines_def)

text \<open>Counting by chunks is counting the whole file.\<close>

lemma fold_count_chunk:
  assumes "\<forall>c\<in>set chunks. c \<noteq> []" and "chunks \<noteq> []"
  shows "fold count_chunk chunks st = (fst st + newlines (concat chunks), [last (concat chunks)])"
  using assms
proof (induction chunks arbitrary: st)
  case (Cons c chunks)
  have lst: "drop (length c - 1) c = [last c]" if "c \<noteq> []" for c :: string
    using that by (induction c) (auto simp: Cons_nth_drop_Suc[symmetric] last_conv_nth drop_Cons' )
  show ?case
  proof (cases "chunks = []")
    case True
    then show ?thesis using Cons.prems lst[of c] by (simp add: count_chunk_def)
  next
    case False
    then have "concat chunks \<noteq> []" using Cons.prems by (cases chunks) auto
    with Cons False show ?thesis by (simp add: count_chunk_def)
  qed
qed simp

lemma count_lines_chunked_eq: "count_lines_chunked (read_chunks c) = count_lines c"
proof (cases "read_chunks c = []")
  case False
  have ne: "\<forall>d\<in>set (read_chunks c). d \<noteq> []" using chunked_not_Nil by (auto simp: read_chunks_def)
  with False have "concat (read_chunks c) \<noteq> []" by (cases "read_chunks c") auto
  with fold_count_chunk[OF ne False, of "(0, [])"] show ?thesis
    by (simp add: count_lines_chunked_def count_lines_def)
next
  case True
  then have "c = []" using concat_read_chunks[of c] by simp
  with True show ?thesis by (simp add: count_lines_chunked_def count_lines_def)
qed

section \<open>What a file operation does to the tree\<close>

text \<open>The content and permission bits of every file and the target of every link, by path.\<close>

definition leaves :: "node \<Rightarrow> path \<Rightarrow> (string \<times> int + string) option" where
  "leaves t q = leaf (lookup t q)"

definition mode_after :: "int \<Rightarrow> (string \<times> int + string) option \<Rightarrow> int" where
  "mode_after new_mode v = (case v of Some (Inl (c, m)) \<Rightarrow> m | _ \<Rightarrow> new_mode)"

lemma replace_file_leaves:
  assumes "replace_file t p c m = Inr t'" and "p \<noteq> []"
  shows "leaves t' = (leaves t)(p := Some (Inl (c, m)))"
  using put_shape[OF assms(2), of t "File c m 1"] assms(1)
  by (auto simp: replace_file_Inr leaves_def fun_eq_iff leaf_shape[symmetric])

lemma replace_file_good:
  assumes "replace_file t p c m = Inr t'" and "p \<noteq> []" and "good_tree t" and "list_all valid_name p"
  shows "good_tree t' \<and> lookup t' p = Some (File c m 1)"
  using assms put_good[OF assms(3,2), of "File c m 1"] lookup_put_here[OF assms(2), of t c m 1]
  by (auto simp: replace_file_Inr)

lemma remove_leaves:
  assumes "p \<noteq> []" and "\<not> is_dir (lookup t p)"
  shows "leaves (remove_at p t) = (leaves t)(p := None)"
  using remove_shape[OF assms] by (auto simp: leaves_def fun_eq_iff leaf_shape[symmetric])

lemma make_dirs_leaves:
  assumes "make_dirs p t = Inr t'"
  shows "leaves t' = leaves t"
proof
  fix q
  show "leaves t' q = leaves t q"
    using make_dirs_shape[OF assms, of q] by (auto simp: leaves_def leaf_shape[symmetric])
qed

lemma link_exists: "lookup n q = Some (Link g (Some x)) \<Longrightarrow> exists_at beyond d n q"
  by (induction beyond d n q rule: exists_at.induct) (auto split: option.splits)

lemma mode_of_checked:
  assumes "path_exists b t p \<longrightarrow> require_regular_file (lookup t p) = Inr ()"
  shows "replacement_mode nm (lookup t p) = mode_after nm (leaves t p)"
proof (cases "\<exists>g x. lookup t p = Some (Link g (Some x))")
  case True
  then obtain g x where "lookup t p = Some (Link g (Some x))" by auto
  moreover from link_exists[OF this] have "path_exists b t p" by (simp add: path_exists_def)
  ultimately show ?thesis using assms by (simp add: require_regular_file_def)
next
  case False
  then show ?thesis
    by (cases "lookup t p"; cases "the (lookup t p)")
      (auto simp: replacement_mode_def mode_after_def leaves_def split: option.splits)
qed

section \<open>Steps and checkpoints\<close>

text \<open>A step that raises leaves the tree as it found it.\<close>

definition step_from :: "node \<Rightarrow> exn + node \<Rightarrow> (exn + unit) \<times> node" where
  "step_from t r = (case r of Inl e \<Rightarrow> (Inl e, t) | Inr t' \<Rightarrow> (Inr (), t'))"

lemma step_from_Inr [simp]: "step_from t r = (Inr u, t') \<longleftrightarrow> r = Inr t'"
  by (auto simp: step_from_def split: sum.splits)

lemma step_from_good: "good_tree t \<Longrightarrow> (\<And>t'. r = Inr t' \<Longrightarrow> good_tree t') \<Longrightarrow> good_tree (snd (step_from t r))"
  by (auto simp: step_from_def split: sum.splits)

lemma sbind_good: "good_tree (snd r) \<Longrightarrow> (\<And>x s. r = (Inr x, s) \<Longrightarrow> good_tree (snd (f x s))) \<Longrightarrow> good_tree (snd (sbind r f))"
  by (auto simp: sbind_def split: prod.splits sum.splits)

text \<open>Operations in order, each on what the one before left; the first failure ends the run.\<close>

fun run_all :: "('o \<Rightarrow> 's \<Rightarrow> (exn + 'r) \<times> 's) \<Rightarrow> (exn \<Rightarrow> exn) \<Rightarrow> 'r list \<Rightarrow> 'o list \<Rightarrow> 's \<Rightarrow> (exn + 'r list) \<times> 's" where
  "run_all run wrap results [] s = (Inr results, s)"
| "run_all run wrap results (x # xs) s =
     (case run x s of
        (Inl e, s1) \<Rightarrow> (Inl (wrap e), s1)
      | (Inr r, s1) \<Rightarrow> run_all run wrap (results @ [r]) xs s1)"

text \<open>What a sequence needs of its operations: an invariant that each of them keeps, even when it fails, and
  an abstract operation that each of them implements when it succeeds.\<close>

locale keeping =
  fixes run :: "'o \<Rightarrow> 's \<Rightarrow> (exn + 'r) \<times> 's" and inv :: "'s \<Rightarrow> bool" and ok :: "'o \<Rightarrow> bool"
  assumes keeps: "inv s \<Longrightarrow> ok x \<Longrightarrow> inv (snd (run x s))"
begin

lemma run_all_keeps: "inv s \<Longrightarrow> \<forall>x\<in>set xs. ok x \<Longrightarrow> inv (snd (run_all run wrap results xs s))"
proof (induction xs arbitrary: results s)
  case (Cons x xs)
  with keeps[OF Cons.prems(1), of x] show ?case by (auto split: prod.splits sum.splits)
qed simp

end

locale implementing = keeping +
  fixes view :: "'s \<Rightarrow> 'v" and effect :: "'o \<Rightarrow> 'v \<Rightarrow> 'v"
  assumes implements: "inv s \<Longrightarrow> ok x \<Longrightarrow> run x s = (Inr r, s') \<Longrightarrow> view s' = effect x (view s)"
begin

lemma run_all_implements:
  assumes "run_all run wrap results xs s = (Inr rs, s')" and "inv s" and "\<forall>x\<in>set xs. ok x"
  shows "view s' = fold effect xs (view s) \<and> length rs = length results + length xs"
  using assms
proof (induction xs arbitrary: results s)
  case (Cons x xs)
  from Cons.prems(1) obtain r s1 where o: "run x s = (Inr r, s1)"
    "run_all run wrap (results @ [r]) xs s1 = (Inr rs, s')" by (auto split: prod.splits sum.splits)
  have "inv s1" using keeps[OF Cons.prems(2), of x] Cons.prems(3) o(1) by simp
  with Cons.IH[OF o(2)] implements[OF Cons.prems(2) _ o(1)] Cons.prems(3) show ?case by simp
qed simp

end

record checkpoint_args =
  ck_files :: int
  ck_bytes :: int
  ck_free :: int
  ck_now :: int
  ck_id :: string

definition under_checkpoint ::
  "fs_env \<Rightarrow> checkpoint_args \<Rightarrow> (string \<Rightarrow> node \<Rightarrow> (exn + 'a) \<times> node) \<Rightarrow> node \<Rightarrow> store \<Rightarrow> (exn + 'a) \<times> node \<times> store" where
  "under_checkpoint env ck = checkpointed env (ck_files ck) (ck_bytes ck) (ck_free ck) (ck_now ck) (ck_id ck)"

definition sample_ck :: checkpoint_args where
  "sample_ck = \<lparr>ck_files = 10, ck_bytes = 100, ck_free = 2000000000, ck_now = 5, ck_id = sample_id\<rparr>"

section \<open>Checked paths\<close>

lemma safe_path_valid:
  assumes "safe_path f extra beyond t must allow s = Inr p"
  shows "list_all valid_name p \<and> (\<not> must \<longrightarrow> p \<noteq> [])"
proof -
  from assms obtain n where n: "normalize_relative f extra allow s = Inr n" "p = path_parts n" "\<not> must \<longrightarrow> p \<noteq> []"
    by (auto simp: safe_path_def Let_def split: if_splits option.splits)
  have "list_all valid_name (path_parts n)"
  proof (cases "s = [] \<or> posix_parts s = []")
    case True
    then have "n = ''.'' \<or> n = []" using n(1) normalize_relative_parts[OF n(1)]
      by (cases "s = []") (auto simp: normalize_relative_def split: if_splits)
    then show ?thesis by (auto simp: path_parts_def)
  next
    case False
    with normalize_relative_parts[OF n(1)] have ps: "n = join ''/'' (posix_parts s)"
      "\<forall>p\<in>set (posix_parts s). safe_segment f extra allow p" by auto
    then have v: "list_all valid_name (posix_parts s)" by (auto simp: list_all_iff safe_segment_def valid_name_def)
    have "path_parts n = posix_parts s \<or> path_parts n = []"
      using split_join_valid[OF _ v] False ps(1) by (auto simp: path_parts_def)
    with v show ?thesis by auto
  qed
  with n show ?thesis by simp
qed

text \<open>Only the name decides where a checked path leads.\<close>

lemma safe_path_same:
  "safe_path f extra b t m1 allow s = Inr p \<Longrightarrow> safe_path f extra b' t' m2 allow s = Inr q \<Longrightarrow> p = q"
  by (auto simp: safe_path_def Let_def split: if_splits option.splits)

end
