(* ===== verification/Write_Tool.thy ===== *)
theory Write_Tool
  imports Mutations
begin

text \<open>
  The write tool (\<open>executor/tools/write.py\<close>): validation against the staged state, the commit under a
  checkpoint, and the facts it reports.  Arguments are the parsed JSON object; texts are their UTF-8 bytes.
\<close>

definition WRITE_MODES :: "string list" where
  "WRITE_MODES = [''replace'', ''append'']"

definition WRITE_ARGUMENTS :: "string list" where
  "WRITE_ARGUMENTS = [''path'', ''content'', ''expected_sha256'', ''create_parents'', ''mode'']"

record prepared_write =
  pw_relative :: string
  pw_path :: path
  pw_content :: string
  requested_bytes :: int
  pw_old_hash :: "string option"
  pw_old_size :: int
  pw_mode :: string
  create_parents :: bool
  pw_shrink :: "shrink option"

record write_limits =
  wl_max_bytes :: int
  wl_staging :: "int option"

text \<open>\<open>_validate_new_parents\<close>: every existing prefix of the parent chain is checked.\<close>

definition validate_new_parents :: "fs_env \<Rightarrow> node \<Rightarrow> path \<Rightarrow> exn + unit" where
  "validate_new_parents env t parent =
     fold_res (\<lambda>i u. if path_exists (behind_links env) t (take i parent)
        then rbind (safe_path (nfc env) (extra_globs env) (behind_links env) t True False (join ''/'' (take i parent))) (\<lambda>_. Inr ())
        else Inr ()) [1..<length parent + 1] ()"

definition parent_text :: "path \<Rightarrow> string" where
  "parent_text p = (if butlast p = [] then ''.'' else join ''/'' (butlast p))"

definition check_parent :: "fs_env \<Rightarrow> node \<Rightarrow> path \<Rightarrow> bool \<Rightarrow> exn + unit" where
  "check_parent env t p create =
     (if path_exists (behind_links env) t (butlast p)
      then rbind (safe_path (nfc env) (extra_globs env) (behind_links env) t True False (parent_text p)) (\<lambda>_. Inr ())
      else if \<not> create then Inl (ToolError PATH_MISSING)
      else validate_new_parents env t (butlast p))"

text \<open>What is there now: nothing, or a regular UTF-8 text file with its hash and size.\<close>

definition current_text :: "fs_env \<Rightarrow> node \<Rightarrow> path \<Rightarrow> exn + (string \<times> int) option" where
  "current_text env t p =
     (if \<not> path_exists (behind_links env) t p then Inr None
      else rbind (require_regular_file (lookup t p)) (\<lambda>_.
        (case lookup t p of
           Some (File c m k) \<Rightarrow> rbind (validate_utf8_chunks (read_chunks c)) (\<lambda>_. Inr (Some (sha env c, int (length c))))
         | _ \<Rightarrow> Inl (ToolError PATH_INVALID_TYPE))))"

definition write_request_ok :: "pydict \<Rightarrow> int \<Rightarrow> exn + (string \<times> string \<times> string)" where
  "write_request_ok args max_bytes =
     (case dget args ''path'' of
        PStr relative \<Rightarrow>
          if relative = [] then Inl (ToolError INVALID_ARGUMENTS)
          else (case dget args ''content'' of
             PStr txt \<Rightarrow>
               if NUL \<in> set txt then Inl (ToolError INVALID_UTF8)
               else (case dget_or args ''mode'' (PStr ''replace'') of
                  PStr md \<Rightarrow>
                    if md \<notin> set WRITE_MODES then Inl (ToolError INVALID_ARGUMENTS)
                    else if int (length txt) > max_bytes then Inl (ToolError LIMIT_EXCEEDED)
                    else Inr (relative, txt, md)
                | _ \<Rightarrow> Inl (ToolError INVALID_ARGUMENTS))
           | _ \<Rightarrow> Inl (ToolError INVALID_UTF8))
      | _ \<Rightarrow> Inl (ToolError INVALID_ARGUMENTS))"

definition prepare_write ::
  "fs_env \<Rightarrow> write_limits \<Rightarrow> pydict \<Rightarrow> node \<Rightarrow> exn + prepared_write" where
  "prepare_write env lims args t =
     rbind (write_request_ok args (wl_max_bytes lims)) (\<lambda>(relative, txt, md).
     rbind (safe_path (nfc env) (extra_globs env) (behind_links env) t False False relative) (\<lambda>p.
     rbind (current_text env t p) (\<lambda>old.
       let requested = int (length txt);
           old_hash = map_option fst old;
           size = (case old of None \<Rightarrow> 0 | Some (h, n) \<Rightarrow> n);
           appending = (md = ''append'');
           resulting = (if appending then size + requested else requested)
       in rbind (ensure (appending \<longrightarrow> resulting \<le> wl_max_bytes lims) (ToolError LIMIT_EXCEEDED)) (\<lambda>_.
          rbind (ensure (case wl_staging lims of None \<Rightarrow> True | Some cap \<Rightarrow> resulting \<le> cap) (ToolError LIMIT_EXCEEDED)) (\<lambda>_.
          rbind (check_expected_sha256 (dget args ''expected_sha256'') old_hash) (\<lambda>_.
          rbind (if old \<noteq> None \<and> \<not> appending
                 then guard_shrink (lookup t p) (Whole txt) (dget args ''expected_sha256'' \<noteq> PNone)
                 else Inr None) (\<lambda>warning.
          let create = truthy (dget_or args ''create_parents'' (PBool False))
          in rbind (check_parent env t p create) (\<lambda>_.
             Inr \<lparr>pw_relative = relative, pw_path = p, pw_content = txt, requested_bytes = requested,
               pw_old_hash = old_hash, pw_old_size = size, pw_mode = md, create_parents = create,
               pw_shrink = warning\<rparr>))))))))"

text \<open>New parents stay behind when the write after them fails.\<close>

definition commit_write :: "fs_env \<Rightarrow> prepared_write \<Rightarrow> node \<Rightarrow> (exn + unit) \<times> node" where
  "commit_write env w t =
     sbind (step_from t (if create_parents w then make_dirs (butlast (pw_path w)) t else Inr t)) (\<lambda>_ t1.
       step_from t1
         (rbind (safe_path (nfc env) (extra_globs env) (behind_links env) t1 False False (pw_relative w)) (\<lambda>p.
          rbind (if path_exists (behind_links env) t1 p then require_regular_file (lookup t1 p) else Inr ()) (\<lambda>_.
            if pw_mode w = ''append'' \<and> pw_old_hash w \<noteq> None
            then atomic_append (new_file_mode env) t1 p (pw_content w)
            else atomic_write (new_file_mode env) t1 p (pw_content w)))))"

record write_report =
  wr_path :: string
  wr_old_sha :: "string option"
  wr_new_sha :: string
  wr_size :: int
  wr_old_size :: int
  wr_appended :: int
  wr_shrink :: "shrink option"

text \<open>\<open>write_result\<close> hashes the file it finds after the commit.\<close>

definition write_result :: "fs_env \<Rightarrow> prepared_write \<Rightarrow> node \<Rightarrow> exn + write_report" where
  "write_result env w t =
     (case lookup t (pw_path w) of
        Some (File c m k) \<Rightarrow>
          Inr \<lparr>wr_path = pw_relative w, wr_old_sha = pw_old_hash w, wr_new_sha = sha env c,
            wr_size = (if pw_mode w = ''append'' then pw_old_size w + requested_bytes w else requested_bytes w),
            wr_old_size = pw_old_size w,
            wr_appended = (if pw_mode w = ''append'' then requested_bytes w else 0), wr_shrink = pw_shrink w\<rparr>
      | _ \<Rightarrow> Inl FileNotFound)"

definition write_tool ::
  "fs_env \<Rightarrow> write_limits \<Rightarrow> checkpoint_args \<Rightarrow> pydict \<Rightarrow> node \<Rightarrow> store \<Rightarrow>
   (exn + write_report) \<times> node \<times> store" where
  "write_tool env lims ck args t st =
     (if \<not> set (dkeys args) \<subseteq> set WRITE_ARGUMENTS then (Inl (ToolError INVALID_ARGUMENTS), t, st)
      else (case prepare_write env lims args t of
         Inl e \<Rightarrow> (Inl e, t, st)
       | Inr w \<Rightarrow>
           (case under_checkpoint env ck (\<lambda>_. commit_write env w) t st of
              (Inl e, t', st') \<Rightarrow> (Inl e, t', st')
            | (Inr _, t', st') \<Rightarrow> (write_result env w t', t', st'))))"

section \<open>Lemmas\<close>

lemma current_text_Inr:
  "current_text env t p = Inr (Some (h, n)) \<Longrightarrow>
    \<exists>c m k. lookup t p = Some (File c m k) \<and> k \<le> 1 \<and> h = sha env c \<and> n = int (length c) \<and> valid_text c"
  by (auto simp: current_text_def require_regular_file_def validate_utf8_chunks_eq split: if_splits option.splits node.splits)

lemma current_text_None: "current_text env t p = Inr None \<Longrightarrow> \<not> path_exists (behind_links env) t p"
  by (auto simp: current_text_def split: if_splits option.splits node.splits)

lemma file_exists: "lookup t p = Some (File c m k) \<Longrightarrow> path_exists b t p"
  using exists_at_present[of t p "File c m k"] by (simp add: path_exists_def is_link_def)

lemma dir_exists: "is_dir (lookup t p) \<Longrightarrow> path_exists b t p"
  using exists_at_present[of t p] by (cases "lookup t p"; cases "the (lookup t p)") (auto simp: path_exists_def is_link_def)

lemma write_request_Inr:
  "write_request_ok args mx = Inr (r, c, md) \<Longrightarrow>
    dget args ''path'' = PStr r \<and> dget args ''content'' = PStr c \<and> NUL \<notin> set c \<and> md \<in> set WRITE_MODES
    \<and> int (length c) \<le> mx \<and> (md = ''append'' \<longleftrightarrow> dget args ''mode'' = PStr ''append'')"
  by (auto simp: write_request_ok_def dget_def dget_or_def split: pyval.splits if_splits option.splits)

text \<open>What a prepared write guarantees.\<close>

definition write_ready :: "fs_env \<Rightarrow> write_limits \<Rightarrow> pydict \<Rightarrow> node \<Rightarrow> prepared_write \<Rightarrow> bool" where
  "write_ready env lims args t w \<longleftrightarrow>
     safe_path (nfc env) (extra_globs env) (behind_links env) t False False (pw_relative w) = Inr (pw_path w)
     \<and> dget args ''path'' = PStr (pw_relative w) \<and> dget args ''content'' = PStr (pw_content w)
     \<and> requested_bytes w = int (length (pw_content w)) \<and> requested_bytes w \<le> wl_max_bytes lims
     \<and> (case pw_old_hash w of
          None \<Rightarrow> pw_old_size w = 0 \<and> \<not> path_exists (behind_links env) t (pw_path w)
        | Some h \<Rightarrow> (\<exists>c m k. lookup t (pw_path w) = Some (File c m k) \<and> k \<le> 1 \<and> h = sha env c
            \<and> pw_old_size w = int (length c)
            \<and> (pw_mode w \<noteq> ''append'' \<and> dget args ''expected_sha256'' = PNone \<longrightarrow>
                guard_shrink (Some (File c m k)) (Whole (pw_content w)) False = Inr (pw_shrink w))))
     \<and> (pw_mode w = ''append'' \<longleftrightarrow> dget args ''mode'' = PStr ''append'')
     \<and> (pw_mode w = ''append'' \<longrightarrow> pw_old_size w + requested_bytes w \<le> wl_max_bytes lims)
     \<and> (\<forall>h. dget args ''expected_sha256'' = PStr h \<longrightarrow> pw_old_hash w = Some h)"

lemma prepare_write_ready:
  assumes "prepare_write env lims args t = Inr w"
  shows "write_ready env lims args t w"
proof -
  from assms obtain x where x: "write_request_ok args (wl_max_bytes lims) = Inr x"
    unfolding prepare_write_def by (elim rbind_InrE)
  obtain r c md where req: "write_request_ok args (wl_max_bytes lims) = Inr (r, c, md)" using x by (cases x) auto
  from assms obtain p old warning where
    p: "safe_path (nfc env) (extra_globs env) (behind_links env) t False False r = Inr p" and
    old: "current_text env t p = Inr old" and
    lim: "md = ''append'' \<longrightarrow> (case old of None \<Rightarrow> 0 | Some (h, n) \<Rightarrow> n) + int (length c) \<le> wl_max_bytes lims" and
    exp: "check_expected_sha256 (dget args ''expected_sha256'') (map_option fst old) = Inr ()" and
    guard: "(if old \<noteq> None \<and> md \<noteq> ''append'' then guard_shrink (lookup t p) (Whole c) (dget args ''expected_sha256'' \<noteq> PNone)
       else Inr None) = Inr warning" and
    w: "w = \<lparr>pw_relative = r, pw_path = p, pw_content = c, requested_bytes = int (length c),
        pw_old_hash = map_option fst old, pw_old_size = (case old of None \<Rightarrow> 0 | Some (h, n) \<Rightarrow> n), pw_mode = md,
        create_parents = truthy (dget_or args ''create_parents'' (PBool False)), pw_shrink = warning\<rparr>"
    unfolding prepare_write_def Let_def req rbind_simps prod.case
    by - (elim ensure_InrE rbind_InrE, drule sum.inject(2)[THEN iffD1], rule that, (assumption | erule sym | simp)+)
  note r = write_request_Inr[OF req]
  show ?thesis
  proof (cases old)
    case None
    with old have "\<not> path_exists (behind_links env) t p" using current_text_None by simp
    with None r p lim exp show ?thesis by (auto simp: write_ready_def w check_expected_Inr)
  next
    case (Some hn)
    obtain h n where hn: "hn = (h, n)" by (cases hn)
    from current_text_Inr[of env t p h n] old Some hn obtain d m k where
      "lookup t p = Some (File d m k)" "k \<le> 1" "h = sha env d" "n = int (length d)" by auto
    with Some hn r p lim exp guard show ?thesis by (auto simp: write_ready_def w check_expected_Inr)
  qed
qed

text \<open>The commit puts one file in place.\<close>

definition written_text :: "prepared_write \<Rightarrow> (string \<times> int + string) option \<Rightarrow> string" where
  "written_text w v = (case v of
     Some (Inl (old, m)) \<Rightarrow> if pw_mode w = ''append'' then old @ pw_content w else pw_content w
   | _ \<Rightarrow> pw_content w)"

lemma ready_old_hash:
  assumes "write_ready env lims args t w"
  shows "pw_old_hash w = (case leaves t (pw_path w) of Some (Inl (old, m)) \<Rightarrow> Some (sha env old) | _ \<Rightarrow> None)"
proof (cases "pw_old_hash w")
  case None
  with assms have "\<not> path_exists (behind_links env) t (pw_path w)" by (simp add: write_ready_def)
  then have "\<nexists>c m k. lookup t (pw_path w) = Some (File c m k)" using file_exists by blast
  with None show ?thesis by (auto simp: leaves_def leaf_def split: option.splits node.splits)
next
  case (Some h)
  with assms show ?thesis by (auto simp: write_ready_def leaves_def)
qed

lemma replaced_content:
  assumes "path_exists b t p \<longrightarrow> require_regular_file (lookup t p) = Inr ()"
    and "(if app \<and> h \<noteq> None then atomic_append nm t p c else atomic_write nm t p c) = Inr t'"
    and "h = (case leaves t p of Some (Inl (old, m)) \<Rightarrow> Some (sha env old) | _ \<Rightarrow> None)"
  shows "replace_file t p (case leaves t p of Some (Inl (old, m)) \<Rightarrow> if app then old @ c else c | _ \<Rightarrow> c)
      (mode_after nm (leaves t p)) = Inr t'"
proof (cases "\<exists>old m k. lookup t p = Some (File old m k)")
  case True
  then obtain old m k where l: "lookup t p = Some (File old m k)" by auto
  then have "leaves t p = Some (Inl (old, m))" by (simp add: leaves_def)
  with assms(2,3) l show ?thesis
    by (auto simp: atomic_append_def atomic_write_def replacement_mode_def mode_after_def split: if_splits)
next
  case False
  then have n: "\<nexists>x. leaves t p = Some (Inl x)" by (auto simp: leaves_def leaf_iff)
  then have "h = None" using assms(3) by (auto split: option.splits sum.splits)
  with assms(2) n mode_of_checked[OF assms(1)] show ?thesis
    by (auto simp: atomic_write_def split: option.splits sum.splits)
qed

lemma commit_write_effect:
  assumes "write_ready env lims args t w" and "commit_write env w t = (Inr u, t')"
  shows "leaves t' = (leaves t)(pw_path w :=
      Some (Inl (written_text w (leaves t (pw_path w)), mode_after (new_file_mode env) (leaves t (pw_path w)))))"
    and "lookup t' (pw_path w) \<noteq> None"
proof -
  let ?p = "pw_path w"
  from assms(1) have sp: "safe_path (nfc env) (extra_globs env) (behind_links env) t False False (pw_relative w) = Inr ?p"
    by (simp add: write_ready_def)
  from safe_path_valid[OF sp] have p: "?p \<noteq> []" by simp
  from assms(2) obtain t1 p' where t1: "(if create_parents w then make_dirs (butlast ?p) t else Inr t) = Inr t1"
    and p': "safe_path (nfc env) (extra_globs env) (behind_links env) t1 False False (pw_relative w) = Inr p'"
    and reg: "path_exists (behind_links env) t1 p' \<longrightarrow> require_regular_file (lookup t1 p') = Inr ()"
    and put: "(if pw_mode w = ''append'' \<and> pw_old_hash w \<noteq> None then atomic_append (new_file_mode env) t1 p' (pw_content w)
       else atomic_write (new_file_mode env) t1 p' (pw_content w)) = Inr t'"
    unfolding commit_write_def sbind_eq_Inr step_from_Inr by (elim exE conjE rbind_InrE) (simp split: if_splits)
  have eq: "p' = ?p" using safe_path_same[OF p' sp] .
  have l: "leaves t1 = leaves t" using t1 make_dirs_leaves by (auto split: if_splits)
  have "replace_file t1 ?p (written_text w (leaves t ?p)) (mode_after (new_file_mode env) (leaves t ?p)) = Inr t'"
    using replaced_content[OF reg put] ready_old_hash[OF assms(1)] unfolding eq l written_text_def by blast
  from replace_file_leaves[OF this p] l show "leaves t' = (leaves t)(?p :=
      Some (Inl (written_text w (leaves t ?p), mode_after (new_file_mode env) (leaves t ?p))))" by simp
  then have "leaves t' ?p \<noteq> None" by simp
  then show "lookup t' ?p \<noteq> None" by (cases "lookup t' ?p") (auto simp: leaves_def)
qed

text \<open>Whatever happens, the tree stays well formed.\<close>

lemma atomic_good:
  assumes "(if b then atomic_append nm t p c else atomic_write nm t p c) = Inr t'"
    and "good_tree t" and "list_all valid_name p" and "p \<noteq> []"
  shows "good_tree t'"
  using assms replace_file_good[OF _ assms(4,2,3)]
  by (auto simp: atomic_append_def atomic_write_def split: if_splits option.splits node.splits)

lemma commit_write_good:
  assumes "good_tree t" and "list_all valid_name (pw_path w)"
  shows "good_tree (snd (commit_write env w t))"
  unfolding commit_write_def
proof (rule sbind_good, goal_cases)
  case 1
  have "list_all valid_name (butlast (pw_path w))" using assms(2) by (auto simp: list_all_iff dest: in_set_butlastD)
  then show ?case using assms(1) make_dirs_good by (intro step_from_good) (auto split: if_splits)
next
  case (2 x t1)
  have "list_all valid_name (butlast (pw_path w))" using assms(2) by (auto simp: list_all_iff dest: in_set_butlastD)
  with 2 have g: "good_tree t1" using assms(1) make_dirs_good by (auto split: if_splits)
  show ?case
  proof (rule step_from_good[OF g])
    fix t'
    assume r: "rbind (safe_path (nfc env) (extra_globs env) (behind_links env) t1 False False (pw_relative w)) (\<lambda>p.
          rbind (if path_exists (behind_links env) t1 p then require_regular_file (lookup t1 p) else Inr ()) (\<lambda>_.
            if pw_mode w = ''append'' \<and> pw_old_hash w \<noteq> None
            then atomic_append (new_file_mode env) t1 p (pw_content w)
            else atomic_write (new_file_mode env) t1 p (pw_content w))) = Inr t'"
    then show "good_tree t'"
      by (elim rbind_InrE) (rule atomic_good, assumption, rule g, (drule safe_path_valid, simp)+)
  qed
qed

section \<open>Properties\<close>

text \<open>A successful \<open>write\<close> changes exactly one path of the staging tree: the checked path now holds the
  content (after the old content, when appending) with the permission bits it had, and every other
  file and link is what it was.  The reported hashes and size are the real ones, a supplied
  \<open>expected_sha256\<close> was the hash of the replaced content, the result fits the write limit, and a
  replacement without that confirmation does not drop most of a file.\<close>

theorem write_tool_contract:
  assumes "write_tool env lims ck args t st = (Inr rep, t', st')"
  shows "\<exists>r c p new. dget args ''path'' = PStr r \<and> dget args ''content'' = PStr c
    \<and> safe_path (nfc env) (extra_globs env) (behind_links env) t False False r = Inr p
    \<and> new = (case leaves t p of
        Some (Inl (old, m)) \<Rightarrow> if dget args ''mode'' = PStr ''append'' then old @ c else c | _ \<Rightarrow> c)
    \<and> leaves t' = (leaves t)(p := Some (Inl (new, mode_after (new_file_mode env) (leaves t p))))
    \<and> wr_new_sha rep = sha env new \<and> wr_size rep = int (length new) \<and> int (length new) \<le> wl_max_bytes lims
    \<and> wr_old_sha rep = (case leaves t p of Some (Inl (old, m)) \<Rightarrow> Some (sha env old) | _ \<Rightarrow> None)
    \<and> (\<forall>h. dget args ''expected_sha256'' = PStr h \<longrightarrow> wr_old_sha rep = Some h)
    \<and> (\<forall>old m. leaves t p = Some (Inl (old, m)) \<and> dget args ''mode'' \<noteq> PStr ''append'' \<and> dget args ''expected_sha256'' = PNone \<longrightarrow>
        length old < 200 \<or> count_lines old < 20 \<or> length old \<le> 2 * length c \<or> count_lines old \<le> 2 * (newlines c + 1))"
proof -
  from assms obtain w u where w: "prepare_write env lims args t = Inr w"
    and c: "under_checkpoint env ck (\<lambda>_. commit_write env w) t st = (Inr u, t', st')"
    and rep: "write_result env w t' = Inr rep"
    by (auto simp: write_tool_def split: if_splits sum.splits prod.splits)
  note ready = prepare_write_ready[OF w]
  from staging.success_keeps_body[OF c[unfolded under_checkpoint_def checkpointed_def]]
  have b: "commit_write env w t = (Inr u, t')" by blast
  let ?p = "pw_path w" and ?v = "leaves t (pw_path w)"
  note e = commit_write_effect[OF ready b]
  from e have here: "leaf (lookup t' ?p) = Some (Inl (written_text w ?v, mode_after (new_file_mode env) ?v))"
    by (simp add: leaves_def[of t', symmetric])
  then obtain k where here': "lookup t' ?p = Some (File (written_text w ?v) (mode_after (new_file_mode env) ?v) k)"
    unfolding leaf_iff by blast
  note oh = ready_old_hash[OF ready]
  have size: "pw_old_size w = (case ?v of Some (Inl (old, m)) \<Rightarrow> int (length old) | _ \<Rightarrow> 0)"
    using ready oh by (auto simp: write_ready_def leaves_def split: option.splits sum.splits)
  have app: "pw_mode w = ''append'' \<longleftrightarrow> dget args ''mode'' = PStr ''append''" using ready by (simp add: write_ready_def)
  have new: "written_text w ?v = (case ?v of Some (Inl (old, m)) \<Rightarrow>
      if dget args ''mode'' = PStr ''append'' then old @ pw_content w else pw_content w | _ \<Rightarrow> pw_content w)"
    unfolding written_text_def app ..
  have sizes: "wr_size rep = int (length (written_text w ?v))" "int (length (written_text w ?v)) \<le> wl_max_bytes lims"
    using rep here' size ready app
    by (auto simp: write_result_def write_ready_def written_text_def split: option.splits sum.splits)
  have facts: "wr_new_sha rep = sha env (written_text w ?v)" "wr_old_sha rep = pw_old_hash w"
    using rep here' by (auto simp: write_result_def)
  have kept: "length old < 200 \<or> count_lines old < 20 \<or> length old \<le> 2 * length (pw_content w)
      \<or> count_lines old \<le> 2 * (newlines (pw_content w) + 1)"
    if "?v = Some (Inl (old, m))" "dget args ''mode'' \<noteq> PStr ''append''" "dget args ''expected_sha256'' = PNone" for old m
  proof -
    from that(1) obtain k where "lookup t ?p = Some (File old m k)" unfolding leaves_def leaf_iff by blast
    then have "guard_shrink (Some (File old m k)) (Whole (pw_content w)) False = Inr (pw_shrink w)"
      using ready oh that app by (auto simp: write_ready_def)
    from guard_shrink_Inr[OF this] show ?thesis by auto
  qed
  show ?thesis
    by (rule exI[of _ "pw_relative w"], rule exI[of _ "pw_content w"], rule exI[of _ ?p], rule exI[of _ "written_text w ?v"])
      (use ready new e(1) facts sizes oh kept in \<open>auto simp: write_ready_def\<close>)
qed

definition sample_limits :: write_limits where
  "sample_limits = \<lparr>wl_max_bytes = 50, wl_staging = Some 60\<rparr>"

definition sample_append :: pydict where
  "sample_append = [(''path'', PStr ''d/x''), (''content'', PStr ''+2''), (''mode'', PStr ''append''),
     (''expected_sha256'', PStr ''#one'')]"

definition sample_prepared :: prepared_write where
  "sample_prepared = \<lparr>pw_relative = ''d/x'', pw_path = [''d'', ''x''], pw_content = ''+2'', requested_bytes = 2,
     pw_old_hash = Some ''#one'', pw_old_size = 3, pw_mode = ''append'', create_parents = False, pw_shrink = None\<rparr>"

definition appended_work :: node where
  "appended_work = Dir [(''k'', File ''old'' 0x1A4 1), (''d'', Dir [(''x'', File ''one+2'' 0x1ED 1)]), (''l'', Link ''d/x'' None)]"

lemma sample_safe:
  "safe_path (nfc plain_env) (extra_globs plain_env) (behind_links plain_env) sample_work False False ''d/x'' = Inr [''d'', ''x'']"
  "check_parent plain_env sample_work [''d'', ''x''] False = Inr ()"
  by code_simp+

lemma sample_current: "current_text plain_env sample_work [''d'', ''x''] = Inr (Some (''#one'', 3))"
  by (simp add: current_text_def sample_work_def plain_env_def path_exists_def require_regular_file_def
      validate_utf8_chunks_eq valid_text_def Let_def ord_def)

lemma sample_prepare: "prepare_write plain_env sample_limits sample_append sample_work = Inr sample_prepared"
proof -
  have "write_request_ok sample_append 50 = Inr (''d/x'', ''+2'', ''append'')" by code_simp
  moreover have "dget sample_append ''expected_sha256'' = PStr ''#one''" "\<not> truthy (dget_or sample_append ''create_parents'' (PBool False))"
    by code_simp+
  ultimately show ?thesis
    by (simp add: prepare_write_def sample_limits_def sample_safe sample_current sample_prepared_def check_expected_sha256_def)
qed

lemma sample_commit: "commit_write plain_env sample_prepared sample_work = (Inr (), appended_work)"
proof -
  have "path_exists (behind_links plain_env) sample_work [''d'', ''x'']" by code_simp
  moreover have "atomic_append 420 sample_work [''d'', ''x''] ''+2'' = Inr appended_work" by code_simp
  ultimately show ?thesis
    using sample_safe(1) by (simp add: commit_write_def sample_prepared_def step_from_def sample_work_def require_regular_file_def)
     (simp add: plain_env_def sample_work_def)
qed

theorem write_tool_contract_witness:
  "\<exists>rep. write_tool plain_env sample_limits sample_ck sample_append sample_work empty_store = (Inr rep, appended_work, sample_store)
    \<and> wr_new_sha rep = ''#one+2'' \<and> wr_size rep = 5 \<and> leaves appended_work [''d'', ''x''] = Some (Inl (''one+2'', 0x1ED))"
proof -
  have "\<exists>rep. write_result plain_env sample_prepared appended_work = Inr rep"
    by (simp add: write_result_def sample_prepared_def appended_work_def)
  moreover have "set (dkeys sample_append) \<subseteq> set WRITE_ARGUMENTS" by code_simp
  ultimately obtain rep where r: "write_tool plain_env sample_limits sample_ck sample_append sample_work empty_store
      = (Inr rep, appended_work, sample_store)"
    by (auto simp: write_tool_def sample_prepare under_checkpoint_def checkpointed_def with_recovery_def sample_ck_def
        sample_created sample_commit)
  have "leaves sample_work [''d'', ''x''] = Some (Inl (''one'', 0x1ED))" by (simp add: leaves_def sample_work_def)
  moreover have "dget sample_append ''path'' = PStr ''d/x''" "dget sample_append ''content'' = PStr ''+2''" "dget sample_append ''mode'' = PStr ''append''"
    by code_simp+
  ultimately show ?thesis
    using write_tool_contract[OF r] r sample_safe(1) by (auto simp: plain_env_def mode_after_def)
qed

end
