(* ===== verification/Edit_Tool.thy ===== *)
theory Edit_Tool
  imports Mutations
begin

text \<open>
  The edit tool (\<open>executor/tools/edit.py\<close>): an exact replacement with a required number of
  occurrences, retried once in the other line-ending convention, under a checkpoint; and the hints it
  gives when the count does not match.  Its byte loop is \<open>stream_replace\<close>.
\<close>

definition EDIT_ARGUMENTS :: "string list" where
  "EDIT_ARGUMENTS = [''path'', ''old_str'', ''new_str'', ''expected_occurrences'', ''expected_sha256'']"

definition EDIT_DIFF_MEMORY_BYTES :: nat where "EDIT_DIFF_MEMORY_BYTES = 1000000"
definition MAX_DIAGNOSTIC_MATCH_LINES :: nat where "MAX_DIAGNOSTIC_MATCH_LINES = 10"

abbreviation CR :: char where "CR \<equiv> CHR 0x0D"
abbreviation LF :: char where "LF \<equiv> CHR 0x0A"

record prepared_edit =
  pe_relative :: string
  pe_path :: path
  pe_old :: string
  pe_new :: string
  expected_occurrences :: int
  pe_old_hash :: string
  original_small :: "string option"

record applied_edit =
  ae_old :: string
  ae_new :: string
  actual_occurrences :: nat
  line_ending_adjustment :: "string option"
  ae_shrink :: "shrink option"

record edit_limits =
  el_target :: nat
  el_result :: nat

section \<open>Preparation\<close>

definition edit_request_ok :: "pydict \<Rightarrow> exn + (string \<times> string \<times> string \<times> int)" where
  "edit_request_ok args =
     (case dget args ''path'' of
        PStr relative \<Rightarrow>
          if relative = [] then Inl (ToolError INVALID_ARGUMENTS)
          else (case (dget args ''old_str'', dget args ''new_str'') of
             (PStr old, PStr new) \<Rightarrow>
               if old = [] \<or> NUL \<in> set old \<or> NUL \<in> set new then Inl (ToolError EDIT_MALFORMED_CONTEXT)
               else (case dget_or args ''expected_occurrences'' (PInt 1) of
                  PInt n \<Rightarrow> if 1 \<le> n \<and> n \<le> 1000 then Inr (relative, old, new, n) else Inl (ToolError EDIT_MALFORMED_CONTEXT)
                | _ \<Rightarrow> Inl (ToolError EDIT_MALFORMED_CONTEXT))
           | _ \<Rightarrow> Inl (ToolError EDIT_MALFORMED_CONTEXT))
      | _ \<Rightarrow> Inl (ToolError INVALID_ARGUMENTS))"

text \<open>The target as it is: its hash, and its decoded text unless it is large.\<close>

definition edit_target :: "fs_env \<Rightarrow> nat \<Rightarrow> node \<Rightarrow> path \<Rightarrow> exn + (string \<times> string option)" where
  "edit_target env max_target t p =
     rbind (require_regular_file (lookup t p)) (\<lambda>_.
       (case lookup t p of
          Some (File c m k) \<Rightarrow>
            if length c > max_target then Inl (ToolError LIMIT_EXCEEDED)
            else rbind (if length c \<le> EDIT_DIFF_MEMORY_BYTES then rbind (read_text c) (\<lambda>s. Inr (Some s)) else Inr None)
              (\<lambda>small. Inr (sha env c, small))
        | _ \<Rightarrow> Inl (ToolError PATH_INVALID_TYPE)))"

definition prepare_edit :: "fs_env \<Rightarrow> nat \<Rightarrow> pydict \<Rightarrow> node \<Rightarrow> exn + prepared_edit" where
  "prepare_edit env max_target args t =
     rbind (edit_request_ok args) (\<lambda>(relative, old, new, n).
     rbind (safe_path (nfc env) (extra_globs env) (behind_links env) t True False relative) (\<lambda>p.
     rbind (edit_target env max_target t p) (\<lambda>(old_hash, small).
     rbind (check_expected_sha256 (dget args ''expected_sha256'') (Some old_hash)) (\<lambda>_.
       Inr \<lparr>pe_relative = relative, pe_path = p, pe_old = old, pe_new = new, expected_occurrences = n,
         pe_old_hash = old_hash, original_small = small\<rparr>))))"

section \<open>Hints for a count that does not match\<close>

text \<open>\<open>_line_endings\<close>.\<close>

definition line_endings :: "string \<Rightarrow> string" where
  "line_endings s =
     (let crlf = count_sub [CR, LF] s; lf = count_sub [LF] s - crlf
      in if crlf = 0 \<and> lf = 0 then ''none''
         else if crlf \<noteq> 0 \<and> lf \<noteq> 0 then ''mixed'' else if crlf \<noteq> 0 then ''crlf'' else ''lf'')"

text \<open>The lines on which the text is found; the search goes on one character after each hit.\<close>

fun match_lines :: "nat \<Rightarrow> int \<Rightarrow> string \<Rightarrow> string \<Rightarrow> int list" where
  "match_lines 0 line old s = []"
| "match_lines (Suc k) line old s =
     (case find_sub old s of
        None \<Rightarrow> []
      | Some i \<Rightarrow> (line + newlines (take i s)) # match_lines k (line + newlines (take (Suc i) s)) old (drop (Suc i) s))"

text \<open>\<open>str.splitlines\<close> on the bytes of the text: the length of the line boundary at the front, if any.\<close>

definition line_break :: "string \<Rightarrow> nat" where
  "line_break s =
     (if startswith s [CR, LF] then 2
      else if s \<noteq> [] \<and> hd s \<in> set [LF, CR, CHR 0x0B, CHR 0x0C, CHR 0x1C, CHR 0x1D, CHR 0x1E] then 1
      else if startswith s [CHR 0xC2, CHR 0x85] then 2
      else if startswith s [CHR 0xE2, CHR 0x80, CHR 0xA8] \<or> startswith s [CHR 0xE2, CHR 0x80, CHR 0xA9] then 3
      else 0)"

function split_lines :: "string \<Rightarrow> string \<Rightarrow> string list" where
  "split_lines acc s =
     (if s = [] then (if acc = [] then [] else [acc])
      else if line_break s = 0 then split_lines (acc @ [hd s]) (tl s)
      else acc # split_lines [] (drop (line_break s) s))"
  by pat_completeness auto
termination
  by (relation "measure (\<lambda>(acc, s). length s)") auto

declare split_lines.simps [simp del]

definition splitlines :: "string \<Rightarrow> string list" where
  "splitlines s = split_lines [] s"

definition first_nonblank :: "string \<Rightarrow> string" where
  "first_nonblank old = (case filter (\<lambda>l. l \<noteq> []) (map strip (splitlines old)) of [] \<Rightarrow> [] | l # _ \<Rightarrow> l)"

fun line_with :: "nat \<Rightarrow> string \<Rightarrow> string list \<Rightarrow> nat option" where
  "line_with n first [] = None"
| "line_with n first (l # ls) = (if contains l first then Some n else line_with (Suc n) first ls)"

datatype hint = SetExpectedOccurrences | LineEndingsDiffer | WhitespaceOnly | FirstLineAt nat | NothingSimilar

record diagnostics =
  file_line_endings :: string
  old_str_line_endings :: string
  found_on :: "int list option"
  closest_line :: "nat option"
  hints :: "hint list"

text \<open>\<open>_diagnostics\<close>; the escaped excerpt it adds for the closest line is left out.\<close>

definition diagnose :: "string \<Rightarrow> string \<Rightarrow> nat \<Rightarrow> diagnostics" where
  "diagnose txt old actual =
     (let fe = line_endings txt; oe = line_endings old
      in if actual \<noteq> 0 then
           \<lparr>file_line_endings = fe, old_str_line_endings = oe,
            found_on = Some (match_lines MAX_DIAGNOSTIC_MATCH_LINES 1 old txt), closest_line = None,
            hints = [SetExpectedOccurrences]\<rparr>
         else
           (let first = first_nonblank old;
                closest = (if first = [] then None else line_with 1 first (splitlines txt));
                hs = (if fe \<noteq> oe \<and> fe \<noteq> ''none'' \<and> oe \<noteq> ''none'' then [LineEndingsDiffer] else [])
                   @ (if collapse_spaces old \<noteq> [] \<and> contains (collapse_spaces txt) (collapse_spaces old) then [WhitespaceOnly] else [])
                   @ (case closest of None \<Rightarrow> [] | Some n \<Rightarrow> [FirstLineAt n])
            in \<lparr>file_line_endings = fe, old_str_line_endings = oe, found_on = None, closest_line = closest,
                hints = (if hs = [] then [NothingSimilar] else hs)\<rparr>))"

text \<open>\<open>_match_error\<close>: the code and the details of the error.\<close>

record match_error =
  me_code :: err_code
  me_expected :: int
  me_actual :: nat
  me_adjustment :: "string option"
  me_diagnostics :: "diagnostics option"

definition match_error_of :: "prepared_edit \<Rightarrow> nat \<Rightarrow> string \<Rightarrow> string option \<Rightarrow> match_error" where
  "match_error_of e actual matched_old adjustment =
     \<lparr>me_code = (if actual = 0 then EDIT_NO_MATCH
        else if int actual > expected_occurrences e then EDIT_TOO_MANY_MATCHES else EDIT_TOO_FEW_MATCHES),
      me_expected = expected_occurrences e, me_actual = actual, me_adjustment = adjustment,
      me_diagnostics = map_option (\<lambda>txt. diagnose txt (if actual \<noteq> 0 then matched_old else pe_old e) actual)
        (original_small e)\<rparr>"

section \<open>The edit\<close>

definition to_lf :: "string \<Rightarrow> string" where "to_lf s = replace_all [CR, LF] [LF] s"
definition to_crlf :: "string \<Rightarrow> string" where "to_crlf s = replace_all [LF] [CR, LF] s"

definition line_ending_variant :: "string \<Rightarrow> string \<Rightarrow> (string \<times> string \<times> string) option" where
  "line_ending_variant old new =
     (if contains old [CR, LF] then Some (to_lf old, to_lf new, ''crlf_to_lf'')
      else if contains old [LF] then Some (to_crlf old, to_crlf (to_lf new), ''lf_to_crlf'')
      else None)"

text \<open>The first part of \<open>apply_edit\<close>: the exact texts, or their translation when only that matches.
  The result: the texts used, the new content, the count, the adjustment.\<close>

definition find_edit ::
  "nat \<Rightarrow> string \<Rightarrow> string \<Rightarrow> string \<Rightarrow> exn + (string \<times> string \<times> string \<times> nat \<times> string option)" where
  "find_edit limit old new src =
     rbind (stream_replace old new limit (read_chunks src)) (\<lambda>(out, actual).
       (case if actual = 0 then line_ending_variant old new else None of
          None \<Rightarrow> Inr (old, new, out, actual, None)
        | Some (alt_old, alt_new, label) \<Rightarrow>
            rbind (stream_replace alt_old alt_new limit (read_chunks src)) (\<lambda>(alt_out, alt_actual).
              if alt_actual \<noteq> 0 then Inr (alt_old, alt_new, alt_out, alt_actual, Some label)
              else Inr (old, new, out, actual, None))))"

text \<open>The temporary file replaces the target only at the very end.\<close>

definition apply_edit :: "fs_env \<Rightarrow> nat \<Rightarrow> prepared_edit \<Rightarrow> node \<Rightarrow> (exn + applied_edit) \<times> node" where
  "apply_edit env limit e t =
     (case lookup t (pe_path e) of
        Some (File src m k) \<Rightarrow>
          (case rbind (find_edit limit (pe_old e) (pe_new e) src) (\<lambda>(old, new, out, actual, adjustment).
             if int actual \<noteq> expected_occurrences e
             then Inl (ToolError (me_code (match_error_of e actual old adjustment)))
             else rbind (guard_shrink (lookup t (pe_path e)) (Replaced old new (int actual)) True) (\<lambda>warning.
                  rbind (atomic_write (new_file_mode env) t (pe_path e) out) (\<lambda>t'.
                    Inr (\<lparr>ae_old = old, ae_new = new, actual_occurrences = actual,
                          line_ending_adjustment = adjustment, ae_shrink = warning\<rparr>, t'))))
           of Inl x \<Rightarrow> (Inl x, t) | Inr (a, t') \<Rightarrow> (Inr a, t'))
      | _ \<Rightarrow> (Inl FileNotFound, t))"

record edit_report =
  er_path :: string
  er_old_sha :: string
  er_new_sha :: string
  er_expected :: int
  er_actual :: nat
  er_size :: nat
  er_adjustment :: "string option"
  er_shrink :: "shrink option"

text \<open>\<open>edit_result\<close> reads the file again, as text for the diff of a small one.\<close>

definition edit_result :: "fs_env \<Rightarrow> prepared_edit \<Rightarrow> applied_edit \<Rightarrow> node \<Rightarrow> exn + edit_report" where
  "edit_result env e a t =
     (case lookup t (pe_path e) of
        Some (File c m k) \<Rightarrow>
          rbind (if original_small e \<noteq> None then rbind (read_text c) (\<lambda>_. Inr ()) else Inr ()) (\<lambda>_.
            Inr \<lparr>er_path = pe_relative e, er_old_sha = pe_old_hash e, er_new_sha = sha env c,
              er_expected = expected_occurrences e, er_actual = actual_occurrences a, er_size = length c,
              er_adjustment = line_ending_adjustment a, er_shrink = ae_shrink a\<rparr>)
      | _ \<Rightarrow> Inl FileNotFound)"

definition edit_tool ::
  "fs_env \<Rightarrow> edit_limits \<Rightarrow> checkpoint_args \<Rightarrow> pydict \<Rightarrow> node \<Rightarrow> store \<Rightarrow> (exn + edit_report) \<times> node \<times> store" where
  "edit_tool env lims ck args t st =
     (if \<not> set (dkeys args) \<subseteq> set EDIT_ARGUMENTS then (Inl (ToolError INVALID_ARGUMENTS), t, st)
      else (case prepare_edit env (el_target lims) args t of
         Inl x \<Rightarrow> (Inl x, t, st)
       | Inr e \<Rightarrow>
           (case under_checkpoint env ck (\<lambda>_. apply_edit env (el_result lims) e) t st of
              (Inl x, t', st') \<Rightarrow> (Inl x, t', st')
            | (Inr a, t', st') \<Rightarrow> (edit_result env e a t', t', st'))))"

section \<open>Lemmas\<close>

lemma replace_all_not_Nil: "s \<noteq> [] \<Longrightarrow> new \<noteq> [] \<Longrightarrow> replace_all old new s \<noteq> []"
  by (subst replace_all.simps) (auto split: list.splits)

lemma variant_not_Nil: "line_ending_variant old new = Some (a, b, l) \<Longrightarrow> old \<noteq> [] \<Longrightarrow> a \<noteq> []"
  using replace_all_not_Nil by (auto simp: line_ending_variant_def to_lf_def to_crlf_def split: if_splits)

lemma stream_replace_file:
  "old \<noteq> [] \<Longrightarrow> stream_replace old new limit (read_chunks src) = Inr (r, n) \<longleftrightarrow>
     valid_text src \<and> length (replace_all old new src) \<le> limit \<and> r = replace_all old new src \<and> n = count_sub old src"
  using stream_replace_correct[of old new limit "read_chunks src" r n] by simp

text \<open>The texts the edit settles on, and how often they occur.\<close>

definition edit_choice :: "string \<Rightarrow> string \<Rightarrow> string \<Rightarrow> string \<times> string \<times> string option" where
  "edit_choice old new src =
     (if count_sub old src \<noteq> 0 then (old, new, None)
      else (case line_ending_variant old new of
          Some (a, b, l) \<Rightarrow> if count_sub a src \<noteq> 0 then (a, b, Some l) else (old, new, None)
        | None \<Rightarrow> (old, new, None)))"

lemma find_edit_Inr:
  assumes "old \<noteq> []" and "find_edit limit old new src = Inr (o', n', out, cnt, adj)"
  shows "valid_text src \<and> (o', n', adj) = edit_choice old new src \<and> out = replace_all o' n' src
    \<and> cnt = count_sub o' src \<and> length out \<le> limit"
proof (cases "count_sub old src = 0")
  case True
  show ?thesis
  proof (cases "line_ending_variant old new")
    case None
    with True assms(2) show ?thesis
      by (auto simp: find_edit_def edit_choice_def stream_replace_file[OF assms(1)])
  next
    case (Some abl)
    obtain a b l where abl: "abl = (a, b, l)" by (cases abl)
    have a: "a \<noteq> []" using variant_not_Nil[of old new a b l] Some abl assms(1) by simp
    from True Some abl assms(2) show ?thesis
      by (auto simp: find_edit_def edit_choice_def stream_replace_file[OF assms(1)] stream_replace_file[OF a] split: if_splits)
  qed
next
  case False
  with assms show ?thesis by (auto simp: find_edit_def edit_choice_def stream_replace_file[OF assms(1)])
qed

lemma find_edit_total:
  assumes "old \<noteq> []" and "valid_text src" and "edit_choice old new src = (o', n', adj)"
    and "length (replace_all old new src) \<le> limit"
    and "\<And>a b l. line_ending_variant old new = Some (a, b, l) \<Longrightarrow> length (replace_all a b src) \<le> limit"
  shows "find_edit limit old new src = Inr (o', n', replace_all o' n' src, count_sub o' src, adj)"
proof -
  have s: "stream_replace old new limit (read_chunks src) = Inr (replace_all old new src, count_sub old src)"
    using assms(1,2,4) by (simp add: stream_replace_file)
  show ?thesis
  proof (cases "line_ending_variant old new")
    case None
    with s assms(3) show ?thesis by (auto simp: find_edit_def edit_choice_def split: if_splits)
  next
    case (Some abl)
    obtain a b l where abl: "abl = (a, b, l)" by (cases abl)
    with Some have v: "line_ending_variant old new = Some (a, b, l)" by simp
    then have "stream_replace a b limit (read_chunks src) = Inr (replace_all a b src, count_sub a src)"
      using assms(2,5) variant_not_Nil[OF v assms(1)] by (simp add: stream_replace_file)
    with s v assms(3) show ?thesis by (auto simp: find_edit_def edit_choice_def split: if_splits)
  qed
qed

lemma apply_edit_unchanged: "apply_edit env limit e t = (Inl x, t') \<Longrightarrow> t' = t"
  by (auto simp: apply_edit_def split: option.splits node.splits sum.splits prod.splits)

lemma apply_edit_Inr:
  assumes "apply_edit env limit e t = (Inr a, t')" and "pe_old e \<noteq> []" and "pe_path e \<noteq> []"
  shows "\<exists>src m k. lookup t (pe_path e) = Some (File src m k) \<and> valid_text src
    \<and> (ae_old a, ae_new a, line_ending_adjustment a) = edit_choice (pe_old e) (pe_new e) src
    \<and> int (count_sub (ae_old a) src) = expected_occurrences e \<and> actual_occurrences a = count_sub (ae_old a) src
    \<and> leaves t' = (leaves t)(pe_path e := Some (Inl (replace_all (ae_old a) (ae_new a) src, m)))
    \<and> replace_file t (pe_path e) (replace_all (ae_old a) (ae_new a) src) m = Inr t'
    \<and> length (replace_all (ae_old a) (ae_new a) src) \<le> limit"
proof -
  from assms(1) obtain src m k where l: "lookup t (pe_path e) = Some (File src m k)"
    by (auto simp: apply_edit_def split: option.splits node.splits)
  from assms(1) l obtain o' n' out cnt adj w where f: "find_edit limit (pe_old e) (pe_new e) src = Inr (o', n', out, cnt, adj)"
    and c: "int cnt = expected_occurrences e" and r: "atomic_write (new_file_mode env) t (pe_path e) out = Inr t'"
    and a: "a = \<lparr>ae_old = o', ae_new = n', actual_occurrences = cnt, line_ending_adjustment = adj, ae_shrink = w\<rparr>"
    by (auto simp: apply_edit_def split: sum.splits if_splits)
  have "replace_file t (pe_path e) out m = Inr t'" using r l by (simp add: atomic_write_def replacement_mode_def)
  with find_edit_Inr[OF assms(2) f] l c a replace_file_leaves[OF this assms(3)] show ?thesis by auto
qed

text \<open>What a prepared edit guarantees.\<close>

lemma edit_request_Inr:
  "edit_request_ok args = Inr (r, old, new, n) \<Longrightarrow>
    dget args ''path'' = PStr r \<and> dget args ''old_str'' = PStr old \<and> old \<noteq> [] \<and> dget args ''new_str'' = PStr new
    \<and> dget_or args ''expected_occurrences'' (PInt 1) = PInt n \<and> 1 \<le> n"
  by (auto simp: edit_request_ok_def split: pyval.splits if_splits)

lemma edit_target_Inr:
  "edit_target env mt t p = Inr (h, small) \<Longrightarrow>
    \<exists>c m k. lookup t p = Some (File c m k) \<and> k \<le> 1 \<and> h = sha env c \<and> length c \<le> mt
      \<and> small = (if length c \<le> EDIT_DIFF_MEMORY_BYTES then Some (universal_newlines c) else None)"
  by (auto simp: edit_target_def require_regular_file_def read_text_def split: if_splits option.splits node.splits)

lemma safe_path_must: "safe_path f extra b t True allow s = Inr p \<Longrightarrow> list_all valid_name p"
  using safe_path_valid by blast

lemma prepare_edit_Inr:
  assumes "prepare_edit env mt args t = Inr e"
  shows "\<exists>c m k. lookup t (pe_path e) = Some (File c m k) \<and> k \<le> 1 \<and> pe_old_hash e = sha env c
    \<and> safe_path (nfc env) (extra_globs env) (behind_links env) t True False (pe_relative e) = Inr (pe_path e)
    \<and> dget args ''path'' = PStr (pe_relative e) \<and> dget args ''old_str'' = PStr (pe_old e) \<and> pe_old e \<noteq> []
    \<and> dget args ''new_str'' = PStr (pe_new e)
    \<and> dget_or args ''expected_occurrences'' (PInt 1) = PInt (expected_occurrences e) \<and> 1 \<le> expected_occurrences e
    \<and> (\<forall>h. dget args ''expected_sha256'' = PStr h \<longrightarrow> h = sha env c)
    \<and> original_small e = (if length c \<le> EDIT_DIFF_MEMORY_BYTES then Some (universal_newlines c) else None)"
proof -
  from assms obtain x where x: "edit_request_ok args = Inr x" unfolding prepare_edit_def by (elim rbind_InrE)
  obtain r old new n where req: "edit_request_ok args = Inr (r, old, new, n)" using x by (cases x) auto
  from assms obtain p h small where
    p: "safe_path (nfc env) (extra_globs env) (behind_links env) t True False r = Inr p" and
    tgt: "edit_target env mt t p = Inr (h, small)" and
    exp: "check_expected_sha256 (dget args ''expected_sha256'') (Some h) = Inr ()" and
    e: "e = \<lparr>pe_relative = r, pe_path = p, pe_old = old, pe_new = new, expected_occurrences = n,
         pe_old_hash = h, original_small = small\<rparr>"
    unfolding prepare_edit_def req rbind_simps prod.case by (auto elim!: rbind_InrE split: prod.splits)
  from edit_target_Inr[OF tgt] edit_request_Inr[OF req] p exp show ?thesis
    by (auto simp: e check_expected_Inr)
qed

lemma file_path_not_root: "good_tree t \<Longrightarrow> lookup t p = Some (File c m k) \<Longrightarrow> p \<noteq> []"
  by (auto simp: good_tree_def)

lemma apply_edit_good:
  assumes "good_tree t" and "list_all valid_name (pe_path e)"
  shows "good_tree (snd (apply_edit env limit e t))"
proof (cases "apply_edit env limit e t")
  case (Pair r t')
  show ?thesis
  proof (cases r)
    case (Inr a)
    with Pair obtain src m k out where l: "lookup t (pe_path e) = Some (File src m k)"
      and r: "atomic_write (new_file_mode env) t (pe_path e) out = Inr t'"
      by (auto simp: apply_edit_def split: option.splits node.splits sum.splits if_splits)
    with replace_file_good[OF _ file_path_not_root[OF assms(1) l] assms] Pair show ?thesis
      by (auto simp: atomic_write_def)
  qed (use Pair apply_edit_unchanged[of env limit e t] assms(1) in auto)
qed

section \<open>Properties\<close>

text \<open>Claim C30. A successful \<open>edit\<close> replaced every occurrence of the searched text, exactly as often as the
  caller expected, in a regular file that was valid text, and nothing else: the permission bits and
  every other path are what they were.  The texts used are the ones given, unless those do not occur
  at all and their line-ending translation does.  The reported hashes, size and count are the real
  ones, and a supplied \<open>expected_sha256\<close> was the hash of the file before.\<close>

theorem edit_tool_contract:
  assumes "edit_tool env lims ck args t st = (Inr rep, t', st')" and "good_tree t"
  shows "\<exists>r old new p src m k o' n'. dget args ''path'' = PStr r \<and> dget args ''old_str'' = PStr old
    \<and> dget args ''new_str'' = PStr new \<and> safe_path (nfc env) (extra_globs env) (behind_links env) t True False r = Inr p
    \<and> lookup t p = Some (File src m k) \<and> k \<le> 1 \<and> valid_text src
    \<and> (o', n', er_adjustment rep) = edit_choice old new src
    \<and> dget_or args ''expected_occurrences'' (PInt 1) = PInt (int (count_sub o' src)) \<and> count_sub o' src \<noteq> 0
    \<and> leaves t' = (leaves t)(p := Some (Inl (replace_all o' n' src, m)))
    \<and> er_actual rep = count_sub o' src \<and> er_old_sha rep = sha env src
    \<and> er_new_sha rep = sha env (replace_all o' n' src) \<and> er_size rep = length (replace_all o' n' src)
    \<and> er_size rep \<le> el_result lims \<and> (\<forall>h. dget args ''expected_sha256'' = PStr h \<longrightarrow> h = sha env src)"
proof -
  from assms(1) obtain e a where e: "prepare_edit env (el_target lims) args t = Inr e"
    and c: "under_checkpoint env ck (\<lambda>_. apply_edit env (el_result lims) e) t st = (Inr a, t', st')"
    and rep: "edit_result env e a t' = Inr rep"
    by (auto simp: edit_tool_def split: if_splits sum.splits prod.splits)
  from staging.success_keeps_body[OF c[unfolded under_checkpoint_def checkpointed_def]]
  have b: "apply_edit env (el_result lims) e t = (Inr a, t')" by blast
  from prepare_edit_Inr[OF e] obtain src m k where l: "lookup t (pe_path e) = Some (File src m k)" and k: "k \<le> 1" and
    pre: "pe_old_hash e = sha env src" "pe_old e \<noteq> []" "1 \<le> expected_occurrences e"
      "\<forall>h. dget args ''expected_sha256'' = PStr h \<longrightarrow> h = sha env src" and
    args: "safe_path (nfc env) (extra_globs env) (behind_links env) t True False (pe_relative e) = Inr (pe_path e)"
      "dget args ''path'' = PStr (pe_relative e)" "dget args ''old_str'' = PStr (pe_old e)" "dget args ''new_str'' = PStr (pe_new e)"
      "dget_or args ''expected_occurrences'' (PInt 1) = PInt (expected_occurrences e)"
    by blast
  note ne = file_path_not_root[OF assms(2) l]
  from apply_edit_Inr[OF b pre(2) ne] l have post: "valid_text src"
    "(ae_old a, ae_new a, line_ending_adjustment a) = edit_choice (pe_old e) (pe_new e) src"
    "int (count_sub (ae_old a) src) = expected_occurrences e" "actual_occurrences a = count_sub (ae_old a) src"
    "leaves t' = (leaves t)(pe_path e := Some (Inl (replace_all (ae_old a) (ae_new a) src, m)))"
    "length (replace_all (ae_old a) (ae_new a) src) \<le> el_result lims" by auto
  then have "leaf (lookup t' (pe_path e)) = Some (Inl (replace_all (ae_old a) (ae_new a) src, m))"
    by (simp add: leaves_def[of t', symmetric])
  then obtain k' where here: "lookup t' (pe_path e) = Some (File (replace_all (ae_old a) (ae_new a) src) m k')"
    unfolding leaf_iff by blast
  have r: "er_adjustment rep = line_ending_adjustment a" "er_actual rep = actual_occurrences a" "er_old_sha rep = pe_old_hash e"
    "er_new_sha rep = sha env (replace_all (ae_old a) (ae_new a) src)" "er_size rep = length (replace_all (ae_old a) (ae_new a) src)"
    using rep here by (auto simp: edit_result_def split: if_splits)
  show ?thesis
    by (rule exI[of _ "pe_relative e"], rule exI[of _ "pe_old e"], rule exI[of _ "pe_new e"], rule exI[of _ "pe_path e"],
        rule exI[of _ src], rule exI[of _ m], rule exI[of _ k], rule exI[of _ "ae_old a"], rule exI[of _ "ae_new a"])
      (use l k pre args post r in auto)
qed

text \<open>Decoded text has no carriage return left.\<close>

lemma universal_newlines_no_CR: "CR \<notin> set (universal_newlines s)"
  by (induction s rule: universal_newlines.induct) auto

lemma startswith_set: "startswith s p \<Longrightarrow> set p \<subseteq> set s"
  by (auto simp: startswith_iff)

lemma count_sub_absent: "c \<in> set old \<Longrightarrow> c \<notin> set s \<Longrightarrow> count_sub old s = 0"
proof (induction s)
  case Nil
  then show ?case by (subst count_sub.simps) (auto simp: startswith_def)
next
  case (Cons x s)
  then show ?case using startswith_set[of "x # s" old] by (subst count_sub.simps) auto
qed

lemma find_sub_absent: "c \<in> set old \<Longrightarrow> c \<notin> set s \<Longrightarrow> find_sub old s = None"
proof (induction s)
  case Nil
  then show ?case by (subst find_sub.simps) (auto simp: startswith_def)
next
  case (Cons x s)
  then show ?case using startswith_set[of "x # s" old] by (subst find_sub.simps) auto
qed

lemma contains_set: "contains s p \<Longrightarrow> set p \<subseteq> set s"
proof (induction s)
  case Nil
  then show ?case by (auto dest: startswith_set)
next
  case (Cons x s)
  from Cons.prems have "startswith (x # s) p \<or> contains s p" by (subst (asm) contains.simps) simp
  then show ?case using startswith_set[of "x # s" p] Cons.IH by (auto simp del: contains.simps)
qed

text \<open>The hints of a failed edit do not see how the file ends its lines: the text they are computed
  from was read with universal newlines, so the file is never reported to have CR LF or mixed line
  ends, and when the searched text matched only in its CR LF translation no matching line is listed,
  however many matches there are.\<close>

theorem edit_hints_miss_crlf:
  assumes "prepare_edit env mt args t = Inr e"
    and "me_diagnostics (match_error_of e actual matched_old adjustment) = Some d"
  shows "file_line_endings d \<notin> {''crlf'', ''mixed''}
    \<and> (actual \<noteq> 0 \<and> contains matched_old [CR, LF] \<longrightarrow> found_on d = Some [])"
proof -
  from prepare_edit_Inr[OF assms(1)] assms(2) obtain c where
    d: "d = diagnose (universal_newlines c) (if actual \<noteq> 0 then matched_old else pe_old e) actual"
    by (auto simp: match_error_of_def split: if_splits)
  have n: "CR \<notin> set (universal_newlines c)" by (rule universal_newlines_no_CR)
  then have "count_sub [CR, LF] (universal_newlines c) = 0" by (intro count_sub_absent[of CR]) auto
  moreover have "find_sub matched_old (universal_newlines c) = None" if "contains matched_old [CR, LF]"
    using contains_set[OF that] n by (intro find_sub_absent[of CR]) auto
  ultimately show ?thesis
    by (auto simp: d diagnose_def Let_def line_endings_def MAX_DIAGNOSTIC_MATCH_LINES_def numeral_eq_Suc)
qed

definition crlf_work :: node where
  "crlf_work = Dir [(''f'', File [CHR ''a'', CR, LF, CHR ''b''] 0x1A4 1)]"

definition crlf_edit :: pydict where
  "crlf_edit = [(''path'', PStr ''f''), (''old_str'', PStr [CHR ''a'', LF]), (''new_str'', PStr ''x''),
     (''expected_occurrences'', PInt 2)]"

definition crlf_prepared :: prepared_edit where
  "crlf_prepared = \<lparr>pe_relative = ''f'', pe_path = [''f''], pe_old = [CHR ''a'', LF], pe_new = ''x'', expected_occurrences = 2,
     pe_old_hash = [CHR ''#'', CHR ''a'', CR, LF, CHR ''b''], original_small = Some [CHR ''a'', LF, CHR ''b'']\<rparr>"

lemma crlf_prepare: "prepare_edit plain_env 100 crlf_edit crlf_work = Inr crlf_prepared"
proof -
  have "edit_request_ok crlf_edit = Inr (''f'', [CHR ''a'', LF], ''x'', 2)" by code_simp
  moreover have "safe_path (nfc plain_env) (extra_globs plain_env) (behind_links plain_env) crlf_work True False ''f'' = Inr [''f'']"
    by code_simp
  moreover have "edit_target plain_env 100 crlf_work [''f''] = Inr ([CHR ''#'', CHR ''a'', CR, LF, CHR ''b''], Some [CHR ''a'', LF, CHR ''b''])"
    by (simp add: edit_target_def crlf_work_def plain_env_def require_regular_file_def EDIT_DIFF_MEMORY_BYTES_def
        read_text_def decodes_def valid_text_def Let_def ord_def)
  moreover have "dget crlf_edit ''expected_sha256'' = PNone" by code_simp
  ultimately show ?thesis by (simp add: prepare_edit_def crlf_prepared_def check_expected_sha256_def)
qed

lemma crlf_found: "find_edit 100 [CHR ''a'', LF] ''x'' [CHR ''a'', CR, LF, CHR ''b'']
    = Inr ([CHR ''a'', CR, LF], ''x'', ''xb'', 1, Some ''lf_to_crlf'')"
proof -
  have v: "valid_text [CHR ''a'', CR, LF, CHR ''b'']" by (simp add: valid_text_def Let_def ord_def)
  have "line_ending_variant [CHR ''a'', LF] ''x'' = Some ([CHR ''a'', CR, LF], ''x'', ''lf_to_crlf'')" by code_simp
  moreover have "count_sub [CHR ''a'', LF] [CHR ''a'', CR, LF, CHR ''b''] = 0" by code_simp
  moreover have "count_sub [CHR ''a'', CR, LF] [CHR ''a'', CR, LF, CHR ''b''] = 1" by code_simp
  moreover have "replace_all [CHR ''a'', CR, LF] ''x'' [CHR ''a'', CR, LF, CHR ''b''] = ''xb''" by code_simp
  moreover have "replace_all [CHR ''a'', LF] ''x'' [CHR ''a'', CR, LF, CHR ''b''] = [CHR ''a'', CR, LF, CHR ''b'']" by code_simp
  ultimately show ?thesis using find_edit_total[OF _ v, of "[CHR ''a'', LF]" "''x''" "[CHR ''a'', CR, LF]" "''x''" "Some ''lf_to_crlf''" 100]
    by (simp add: edit_choice_def)
qed

text \<open>One match found by translation where two were expected: no line is listed, and the file seems to end
  its lines with LF.\<close>

theorem edit_hints_miss_crlf_witness:
  "fst (apply_edit plain_env 100 crlf_prepared crlf_work) = Inl (ToolError EDIT_TOO_FEW_MATCHES)
   \<and> (\<exists>d. me_diagnostics (match_error_of crlf_prepared 1 [CHR ''a'', CR, LF] (Some ''lf_to_crlf'')) = Some d
        \<and> file_line_endings d \<notin> {''crlf'', ''mixed''} \<and> found_on d = Some [])"
proof -
  have "lookup crlf_work [''f''] = Some (File [CHR ''a'', CR, LF, CHR ''b''] 0x1A4 1)" by (simp add: crlf_work_def)
  then have "fst (apply_edit plain_env 100 crlf_prepared crlf_work) = Inl (ToolError EDIT_TOO_FEW_MATCHES)"
    by (simp add: apply_edit_def crlf_prepared_def crlf_found match_error_of_def)
  moreover obtain d where d: "me_diagnostics (match_error_of crlf_prepared 1 [CHR ''a'', CR, LF] (Some ''lf_to_crlf'')) = Some d"
    by (simp add: match_error_of_def crlf_prepared_def)
  moreover have "contains [CHR ''a'', CR, LF] [CR, LF]" by code_simp
  ultimately show ?thesis using edit_hints_miss_crlf[OF crlf_prepare d] by auto
qed

definition sample_edit :: pydict where
  "sample_edit = [(''path'', PStr ''k''), (''old_str'', PStr ''l''), (''new_str'', PStr ''LL''), (''expected_sha256'', PStr ''#old'')]"

definition sample_edit_prepared :: prepared_edit where
  "sample_edit_prepared = \<lparr>pe_relative = ''k'', pe_path = [''k''], pe_old = ''l'', pe_new = ''LL'', expected_occurrences = 1,
     pe_old_hash = ''#old'', original_small = Some ''old''\<rparr>"

definition edited_work :: node where
  "edited_work = Dir [(''k'', File ''oLLd'' 0x1A4 1), (''d'', Dir [(''x'', File ''one'' 0x1ED 1)]), (''l'', Link ''d/x'' None)]"

lemma sample_edit_prepare: "prepare_edit plain_env 100 sample_edit sample_work = Inr sample_edit_prepared"
proof -
  have "edit_request_ok sample_edit = Inr (''k'', ''l'', ''LL'', 1)" by code_simp
  moreover have "safe_path (nfc plain_env) (extra_globs plain_env) (behind_links plain_env) sample_work True False ''k'' = Inr [''k'']"
    by code_simp
  moreover have "edit_target plain_env 100 sample_work [''k''] = Inr (''#old'', Some ''old'')"
    by (simp add: edit_target_def sample_work_def plain_env_def require_regular_file_def EDIT_DIFF_MEMORY_BYTES_def
        read_text_def decodes_def valid_text_def Let_def ord_def)
  moreover have "dget sample_edit ''expected_sha256'' = PStr ''#old''" by code_simp
  ultimately show ?thesis by (simp add: prepare_edit_def sample_edit_prepared_def check_expected_sha256_def)
qed

lemma sample_edit_apply:
  "apply_edit plain_env 100 sample_edit_prepared sample_work = (Inr \<lparr>ae_old = ''l'', ae_new = ''LL'', actual_occurrences = 1,
     line_ending_adjustment = None, ae_shrink = None\<rparr>, edited_work)"
proof -
  have "valid_text ''old''" by (simp add: valid_text_def Let_def ord_def)
  moreover have "count_sub ''l'' ''old'' = 1" "replace_all ''l'' ''LL'' ''old'' = ''oLLd''" "line_ending_variant ''l'' ''LL'' = None"
    by code_simp+
  ultimately have "find_edit 100 ''l'' ''LL'' ''old'' = Inr (''l'', ''LL'', ''oLLd'', 1, None)"
    using find_edit_total[of "''l''" "''old''" "''LL''" "''l''" "''LL''" None 100] by (simp add: edit_choice_def)
  moreover have "atomic_write 420 sample_work [''k''] ''oLLd'' = Inr edited_work" by code_simp
  moreover have "lookup sample_work [''k''] = Some (File ''old'' 420 1)" by (simp add: sample_work_def)
  ultimately show ?thesis
    by (simp add: apply_edit_def sample_edit_prepared_def guard_shrink_def Let_def plain_env_def)
qed

theorem edit_tool_contract_witness:
  "\<exists>rep. edit_tool plain_env \<lparr>el_target = 100, el_result = 100\<rparr> sample_ck sample_edit sample_work empty_store
      = (Inr rep, edited_work, sample_store)
    \<and> er_new_sha rep = ''#oLLd'' \<and> er_actual rep = 1 \<and> leaves edited_work [''k''] = Some (Inl (''oLLd'', 0x1A4))"
proof -
  have "read_text ''oLLd'' = Inr ''oLLd''" by (simp add: read_text_def decodes_def valid_text_def Let_def ord_def)
  then have "\<exists>rep. edit_result plain_env sample_edit_prepared \<lparr>ae_old = ''l'', ae_new = ''LL'', actual_occurrences = 1,
      line_ending_adjustment = None, ae_shrink = None\<rparr> edited_work = Inr rep"
    by (simp add: edit_result_def sample_edit_prepared_def edited_work_def)
  moreover have "set (dkeys sample_edit) \<subseteq> set EDIT_ARGUMENTS" by code_simp
  ultimately obtain rep where r: "edit_tool plain_env \<lparr>el_target = 100, el_result = 100\<rparr> sample_ck sample_edit sample_work empty_store
      = (Inr rep, edited_work, sample_store)"
    by (auto simp: edit_tool_def sample_edit_prepare under_checkpoint_def checkpointed_def with_recovery_def sample_ck_def
        sample_created sample_edit_apply)
  have "good_tree sample_work" by (simp add: good_tree_def sample_work_def valid_name_def)
  note c = edit_tool_contract[OF r this]
  have "dget sample_edit ''path'' = PStr ''k''" "dget sample_edit ''old_str'' = PStr ''l''" "dget sample_edit ''new_str'' = PStr ''LL''"
    "safe_path (nfc plain_env) (extra_globs plain_env) (behind_links plain_env) sample_work True False ''k'' = Inr [''k'']"
    "lookup sample_work [''k''] = Some (File ''old'' 0x1A4 1)" "edit_choice ''l'' ''LL'' ''old'' = (''l'', ''LL'', None)"
    "count_sub ''l'' ''old'' = 1" "replace_all ''l'' ''LL'' ''old'' = ''oLLd''"
    by code_simp+
  with c r show ?thesis by (auto simp: plain_env_def)
qed

end
