(* ===== verification/Patch_Tool.thy ===== *)
theory Patch_Tool
  imports Write_Tool Edit_Tool
begin

text \<open>
  The patch tool (\<open>executor/tools/apply_patch.py\<close>): several writes, edits and deletions in order under
  one checkpoint, the abstract operation each of them implements on the leaves of the tree, and what
  "all or nothing" means for them.
\<close>

definition PATCH_OPERATIONS :: "string list" where
  "PATCH_OPERATIONS = [''write'', ''edit'', ''delete'']"

definition PATCH_WRITE_ARGUMENTS :: "string list" where
  "PATCH_WRITE_ARGUMENTS = filter (\<lambda>a. a \<noteq> ''mode'') WRITE_ARGUMENTS"

definition DELETE_ARGUMENTS :: "string list" where
  "DELETE_ARGUMENTS = [''path'', ''expected_sha256'']"

record patch_limits =
  max_operations :: nat
  max_patch_bytes :: nat
  pl_write :: write_limits
  pl_edit :: edit_limits

datatype patch_result =
    WroteFile write_report (created: bool)
  | EditedFile edit_report
  | DeletedFile (del_path: string) (del_sha: string) (del_bytes: nat)

section \<open>The request\<close>

definition text_bytes :: "pydict \<Rightarrow> string \<Rightarrow> nat" where
  "text_bytes d key = (case dget d key of PStr s \<Rightarrow> length s | _ \<Rightarrow> 0)"

definition patch_payload_bytes :: "pyval list \<Rightarrow> nat" where
  "patch_payload_bytes ops =
     sum_list (map (\<lambda>item. case item of
       PDict d \<Rightarrow> text_bytes d ''content'' + text_bytes d ''old_str'' + text_bytes d ''new_str'' | _ \<Rightarrow> 0) ops)"

definition allowed_fields :: "string \<Rightarrow> string list" where
  "allowed_fields operation =
     ''operation'' # (if operation = ''write'' then PATCH_WRITE_ARGUMENTS
       else if operation = ''edit'' then EDIT_ARGUMENTS else DELETE_ARGUMENTS)"

text \<open>\<open>_validate_shape\<close>: the validated operation.\<close>

definition validate_shape :: "fs_env \<Rightarrow> pyval \<Rightarrow> exn + pydict" where
  "validate_shape env item =
     (case item of
        PDict d \<Rightarrow>
          (case dget d ''operation'' of
             PStr operation \<Rightarrow>
               if operation \<notin> set PATCH_OPERATIONS then Inl (ToolError APPLY_PATCH_MALFORMED)
               else if \<not> set (dkeys d) \<subseteq> set (allowed_fields operation) then Inl (ToolError APPLY_PATCH_MALFORMED)
               else (case dget d ''path'' of
                  PStr p \<Rightarrow>
                    if p = [] then Inl (ToolError APPLY_PATCH_MALFORMED)
                    else rbind (normalize_relative (nfc env) (extra_globs env) False p) (\<lambda>_. Inr d)
                | _ \<Rightarrow> Inl (ToolError APPLY_PATCH_MALFORMED))
           | _ \<Rightarrow> Inl (ToolError APPLY_PATCH_MALFORMED))
      | _ \<Rightarrow> Inl (ToolError APPLY_PATCH_MALFORMED))"

text \<open>\<open>apply_patch_paths\<close>: for permissions and the status refresh.\<close>

definition apply_patch_paths :: "fs_env \<Rightarrow> pydict \<Rightarrow> exn + string list" where
  "apply_patch_paths env args =
     rbind (fold_res (\<lambda>item acc. case item of
         PDict d \<Rightarrow> (case dget d ''path'' of
             PStr p \<Rightarrow> rbind (normalize_relative (nfc env) (extra_globs env) False p) (\<lambda>n. Inr (acc @ [n]))
           | _ \<Rightarrow> Inr acc)
       | _ \<Rightarrow> Inr acc) (case dget args ''operations'' of PList items \<Rightarrow> items | _ \<Rightarrow> []) [])
       (\<lambda>paths. Inr (dedup paths))"

section \<open>The operations\<close>

definition delete_file :: "fs_env \<Rightarrow> pydict \<Rightarrow> node \<Rightarrow> exn + (patch_result \<times> node)" where
  "delete_file env args t =
     (case dget args ''path'' of
        PStr relative \<Rightarrow>
          (case safe_path (nfc env) (extra_globs env) (behind_links env) t True False relative of
             Inl e \<Rightarrow> Inl (if e = FileNotFound then ToolError PATH_MISSING else e)
           | Inr p \<Rightarrow>
               rbind (require_regular_file (lookup t p)) (\<lambda>_.
                 (case lookup t p of
                    Some (File c m k) \<Rightarrow>
                      rbind (check_expected_sha256 (dget args ''expected_sha256'') (Some (sha env c))) (\<lambda>_.
                        Inr (DeletedFile relative (sha env c) (length c), remove_at p t))
                  | _ \<Rightarrow> Inl (ToolError PATH_INVALID_TYPE))))
      | _ \<Rightarrow> Inl (ToolError PATH_UNSAFE))"

text \<open>A result that is computed from the tree left by a step.\<close>

definition with_result :: "exn + 'a \<Rightarrow> node \<Rightarrow> (exn + 'a) \<times> node" where
  "with_result r t = (r, t)"

definition apply_one :: "fs_env \<Rightarrow> patch_limits \<Rightarrow> pydict \<Rightarrow> node \<Rightarrow> (exn + patch_result) \<times> node" where
  "apply_one env lims item t =
     (let args = filter (\<lambda>a. fst a \<noteq> ''operation'') item
      in if dget item ''operation'' = PStr ''write'' then
           (case prepare_write env (pl_write lims) args t of
              Inl e \<Rightarrow> (Inl e, t)
            | Inr w \<Rightarrow> sbind (commit_write env w t) (\<lambda>_ t1.
                with_result (rbind (write_result env w t1) (\<lambda>r. Inr (WroteFile r (pw_old_hash w = None)))) t1))
         else if dget item ''operation'' = PStr ''edit'' then
           (case prepare_edit env (el_target (pl_edit lims)) args t of
              Inl e \<Rightarrow> (Inl e, t)
            | Inr e \<Rightarrow> sbind (apply_edit env (el_result (pl_edit lims)) e t) (\<lambda>a t1.
                with_result (rbind (edit_result env e a t1) (\<lambda>r. Inr (EditedFile r))) t1))
         else (case delete_file env args t of Inl e \<Rightarrow> (Inl e, t) | Inr (r, t1) \<Rightarrow> (Inr r, t1)))"

text \<open>\<open>_operation_failed\<close> keeps the code of the cause.\<close>

definition operation_failed :: "exn \<Rightarrow> exn" where
  "operation_failed e = ToolError (classify_error e)"

definition patch_loop :: "fs_env \<Rightarrow> patch_limits \<Rightarrow> patch_result list \<Rightarrow> pydict list \<Rightarrow> node \<Rightarrow> (exn + patch_result list) \<times> node" where
  "patch_loop env lims = run_all (apply_one env lims) operation_failed"

fun result_path :: "patch_result \<Rightarrow> string" where
  "result_path (WroteFile r c) = wr_path r"
| "result_path (EditedFile r) = er_path r"
| "result_path (DeletedFile p h n) = p"

fun result_operation :: "patch_result \<Rightarrow> string" where
  "result_operation (WroteFile r c) = ''write''"
| "result_operation (EditedFile r) = ''edit''"
| "result_operation (DeletedFile p h n) = ''delete''"

fun result_shrink :: "patch_result \<Rightarrow> shrink list" where
  "result_shrink (WroteFile r c) = (case wr_shrink r of None \<Rightarrow> [] | Some s \<Rightarrow> [s])"
| "result_shrink (EditedFile r) = (case er_shrink r of None \<Rightarrow> [] | Some s \<Rightarrow> [s])"
| "result_shrink (DeletedFile p h n) = []"

record patch_report =
  pr_results :: "patch_result list"
  pr_paths :: "string list"
  operation_counts :: "(string \<times> nat) list"
  shrink_warnings :: "shrink list"

definition patch_report_of :: "patch_result list \<Rightarrow> patch_report" where
  "patch_report_of results =
     \<lparr>pr_results = results, pr_paths = dedup (map result_path results),
      operation_counts = map (\<lambda>name. (name, length (filter (\<lambda>r. result_operation r = name) results))) PATCH_OPERATIONS,
      shrink_warnings = concat (map result_shrink results)\<rparr>"

definition apply_patch ::
  "fs_env \<Rightarrow> patch_limits \<Rightarrow> checkpoint_args \<Rightarrow> pydict \<Rightarrow> node \<Rightarrow> store \<Rightarrow> (exn + patch_report) \<times> node \<times> store" where
  "apply_patch env lims ck args t st =
     (if \<not> set (dkeys args) \<subseteq> {''operations''} then (Inl (ToolError INVALID_ARGUMENTS), t, st)
      else (case dget args ''operations'' of
         PList ops \<Rightarrow>
           if ops = [] then (Inl (ToolError APPLY_PATCH_MALFORMED), t, st)
           else if length ops > max_operations lims then (Inl (ToolError LIMIT_EXCEEDED), t, st)
           else if patch_payload_bytes ops > max_patch_bytes lims then (Inl (ToolError LIMIT_EXCEEDED), t, st)
           else (case map_res (validate_shape env) ops of
              Inl e \<Rightarrow> (Inl e, t, st)
            | Inr items \<Rightarrow>
                (case under_checkpoint env ck (\<lambda>_. patch_loop env lims [] items) t st of
                   (Inl e, t', st') \<Rightarrow> (Inl e, t', st')
                 | (Inr results, t', st') \<Rightarrow> (Inr (patch_report_of results), t', st')))
       | _ \<Rightarrow> (Inl (ToolError APPLY_PATCH_MALFORMED), t, st)))"

section \<open>The abstract operations\<close>

text \<open>What an operation means for the leaves of the tree, without any of its checks.\<close>

definition target_of :: "fs_env \<Rightarrow> pydict \<Rightarrow> path" where
  "target_of env item = (case dget item ''path'' of
     PStr s \<Rightarrow> (case normalize_relative (nfc env) (extra_globs env) False s of Inr n \<Rightarrow> path_parts n | Inl e \<Rightarrow> [])
   | _ \<Rightarrow> [])"

fun text_of :: "pyval \<Rightarrow> string" where
  "text_of (PStr s) = s"
| "text_of _ = []"

definition patch_effect ::
  "fs_env \<Rightarrow> pydict \<Rightarrow> (path \<Rightarrow> (string \<times> int + string) option) \<Rightarrow> path \<Rightarrow> (string \<times> int + string) option" where
  "patch_effect env item v =
     (let p = target_of env item
      in if dget item ''operation'' = PStr ''write''
         then v(p := Some (Inl (text_of (dget item ''content''), mode_after (new_file_mode env) (v p))))
         else if dget item ''operation'' = PStr ''edit''
         then (case v p of
             Some (Inl (src, m)) \<Rightarrow>
               (case edit_choice (text_of (dget item ''old_str'')) (text_of (dget item ''new_str'')) src of
                  (old, new, _) \<Rightarrow> v(p := Some (Inl (replace_all old new src, m))))
           | _ \<Rightarrow> v)
         else v(p := None))"

section \<open>Lemmas\<close>

lemma safe_path_target:
  "safe_path (nfc env) (extra_globs env) b t must False s = Inr p \<Longrightarrow> dget item ''path'' = PStr s \<Longrightarrow> target_of env item = p"
  by (auto simp: target_of_def safe_path_def Let_def split: if_splits option.splits)

lemma dget_filter: "k \<noteq> ''operation'' \<Longrightarrow> dget (filter (\<lambda>a. fst a \<noteq> ''operation'') d) k = dget d k"
  by (induction d) (auto simp: dget_def split: if_splits)

lemma patch_keys:
  "''mode'' \<notin> set (dkeys d) \<Longrightarrow> dget d ''mode'' = PNone"
  by (auto simp: dget_def dkeys_def split: option.splits dest!: map_of_SomeD) force

lemma validate_shape_Inr:
  assumes "validate_shape env item = Inr d"
  shows "item = PDict d" and "\<exists>s. dget d ''path'' = PStr s" and "dget d ''operation'' = PStr ''write'' \<longrightarrow> dget d ''mode'' = PNone"
proof -
  show "item = PDict d" "\<exists>s. dget d ''path'' = PStr s"
    using assms by (auto simp: validate_shape_def split: pyval.splits if_splits)
  have "set (dkeys d) \<subseteq> set (allowed_fields ''write'')" if "dget d ''operation'' = PStr ''write''"
    using assms that by (auto simp: validate_shape_def split: pyval.splits if_splits)
  moreover have "''mode'' \<notin> set (allowed_fields ''write'')"
    by (simp add: allowed_fields_def PATCH_WRITE_ARGUMENTS_def)
  ultimately show "dget d ''operation'' = PStr ''write'' \<longrightarrow> dget d ''mode'' = PNone"
    using patch_keys[of d] by blast
qed

text \<open>Each operation of a patch does what its abstract operation says.\<close>

lemma apply_one_write:
  assumes "apply_one env lims item t = (Inr r, t')" and "dget item ''operation'' = PStr ''write''" and "dget item ''mode'' = PNone"
  shows "leaves t' = patch_effect env item (leaves t)"
proof -
  let ?args = "filter (\<lambda>a. fst a \<noteq> ''operation'') item"
  from assms(1,2) obtain w u t1 where w: "prepare_write env (pl_write lims) ?args t = Inr w"
    and c: "commit_write env w t = (Inr u, t1)" and t': "t' = t1"
    by (auto simp: apply_one_def with_result_def Let_def split: sum.splits)
  note ready = prepare_write_ready[OF w]
  have app: "pw_mode w \<noteq> ''append''" using ready assms(3) by (simp add: write_ready_def dget_filter)
  have "dget item ''content'' = PStr (pw_content w)" "target_of env item = pw_path w"
    using ready safe_path_target[of env _ t False "pw_relative w" "pw_path w" item] by (auto simp: write_ready_def dget_filter)
  with commit_write_effect(1)[OF ready c] app assms(2) t' show ?thesis
    by (auto simp: patch_effect_def Let_def written_text_def split: option.splits sum.splits)
qed

lemma apply_one_edit:
  assumes "apply_one env lims item t = (Inr r, t')" and "dget item ''operation'' = PStr ''edit''" and "good_tree t"
  shows "leaves t' = patch_effect env item (leaves t)"
proof -
  let ?args = "filter (\<lambda>a. fst a \<noteq> ''operation'') item"
  from assms(1,2) obtain e a where e: "prepare_edit env (el_target (pl_edit lims)) ?args t = Inr e"
    and b: "apply_edit env (el_result (pl_edit lims)) e t = (Inr a, t')"
    by (auto simp: apply_one_def with_result_def Let_def split: sum.splits)
  from prepare_edit_Inr[OF e] obtain src m k where l: "lookup t (pe_path e) = Some (File src m k)"
    and ne: "pe_old e \<noteq> []"
    and args: "safe_path (nfc env) (extra_globs env) (behind_links env) t True False (pe_relative e) = Inr (pe_path e)"
      "dget item ''path'' = PStr (pe_relative e)" "dget item ''old_str'' = PStr (pe_old e)" "dget item ''new_str'' = PStr (pe_new e)"
    by (auto simp: dget_filter)
  have "target_of env item = pe_path e" using safe_path_target[OF args(1,2)] .
  moreover have "leaves t (pe_path e) = Some (Inl (src, m))" by (simp add: leaves_def l)
  moreover obtain o' n' adj where ch: "edit_choice (pe_old e) (pe_new e) src = (o', n', adj)" by (metis prod_cases3)
  ultimately show ?thesis
    using apply_edit_Inr[OF b ne file_path_not_root[OF assms(3) l]] l args assms(2)
    by (auto simp: patch_effect_def Let_def)
qed

lemma delete_file_Inr:
  assumes "delete_file env args t = Inr (r, t')"
  shows "\<exists>s p c m k. dget args ''path'' = PStr s \<and> safe_path (nfc env) (extra_globs env) (behind_links env) t True False s = Inr p
    \<and> lookup t p = Some (File c m k) \<and> k \<le> 1 \<and> r = DeletedFile s (sha env c) (length c) \<and> t' = remove_at p t
    \<and> (\<forall>h. dget args ''expected_sha256'' = PStr h \<longrightarrow> h = sha env c)"
  using assms by (auto simp: delete_file_def require_regular_file_def check_expected_Inr
      split: pyval.splits sum.splits option.splits node.splits)

lemma apply_one_delete:
  assumes "apply_one env lims item t = (Inr r, t')" and "dget item ''operation'' \<noteq> PStr ''write''"
    and "dget item ''operation'' \<noteq> PStr ''edit''" and "good_tree t"
  shows "leaves t' = patch_effect env item (leaves t)"
proof -
  let ?args = "filter (\<lambda>a. fst a \<noteq> ''operation'') item"
  from assms(1-3) have "delete_file env ?args t = Inr (r, t')"
    by (auto simp: apply_one_def Let_def split: sum.splits)
  from delete_file_Inr[OF this] obtain s p c m k where d: "dget item ''path'' = PStr s"
    "safe_path (nfc env) (extra_globs env) (behind_links env) t True False s = Inr p" "lookup t p = Some (File c m k)" "t' = remove_at p t"
    by (auto simp: dget_filter)
  with assms(2,3) safe_path_target[OF d(2,1)] remove_leaves[of p t] file_path_not_root[OF assms(4) d(3)] show ?thesis
    by (auto simp: patch_effect_def Let_def)
qed

lemma apply_one_effect:
  assumes "apply_one env lims item t = (Inr r, t')" and "good_tree t" and "dget item ''operation'' = PStr ''write'' \<longrightarrow> dget item ''mode'' = PNone"
  shows "leaves t' = patch_effect env item (leaves t)"
  using apply_one_write[OF assms(1)] apply_one_edit[OF assms(1) _ assms(2)] apply_one_delete[OF assms(1) _ _ assms(2)] assms(3)
  by blast

lemma with_result_good: "good_tree (snd r) \<Longrightarrow> good_tree (snd (sbind r (\<lambda>x t1. with_result (f x t1) t1)))"
  by (rule sbind_good) (auto simp: with_result_def)

lemma apply_one_good:
  assumes "good_tree t"
  shows "good_tree (snd (apply_one env lims item t))"
proof -
  let ?args = "filter (\<lambda>a. fst a \<noteq> ''operation'') item"
  have w: "good_tree (snd (commit_write env w t))" if "prepare_write env (pl_write lims) ?args t = Inr w" for w
    using prepare_write_ready[OF that] commit_write_good[OF assms] safe_path_valid by (fastforce simp: write_ready_def)
  have e: "good_tree (snd (apply_edit env (el_result (pl_edit lims)) e t))"
    if "prepare_edit env (el_target (pl_edit lims)) ?args t = Inr e" for e
    using prepare_edit_Inr[OF that] apply_edit_good[OF assms] safe_path_valid by fastforce
  have d: "good_tree t'" if "delete_file env ?args t = Inr (r, t')" for r t'
    using delete_file_Inr[OF that] remove_good[OF assms] file_path_not_root[OF assms] by fastforce
  consider "dget item ''operation'' = PStr ''write''" | "dget item ''operation'' = PStr ''edit''"
    | "dget item ''operation'' \<noteq> PStr ''write''" "dget item ''operation'' \<noteq> PStr ''edit''" by blast
  then show ?thesis
  proof cases
    case 1
    then show ?thesis using assms w
      by (cases "prepare_write env (pl_write lims) ?args t") (auto simp: apply_one_def Let_def intro!: with_result_good)
  next
    case 2
    then show ?thesis using assms e
      by (cases "prepare_edit env (el_target (pl_edit lims)) ?args t") (auto simp: apply_one_def Let_def intro!: with_result_good)
  next
    case 3
    then show ?thesis using assms d by (auto simp: apply_one_def Let_def split: sum.splits)
  qed
qed

interpretation patch: implementing "apply_one env lims" good_tree
  "\<lambda>item. dget item ''operation'' = PStr ''write'' \<longrightarrow> dget item ''mode'' = PNone" leaves "patch_effect env"
  for env lims
  by unfold_locales (auto intro: apply_one_good apply_one_effect)

end
