(* ===== verification/Recovery.thy ===== *)
theory Recovery
  imports Rollback
begin

text \<open>
  When a rollback cannot be refused.  A body that keeps every directory, puts no directory where a file
  or a link was, and only leaves names the path rules accept, can always be undone within the limits
  of the restore.  The proof follows the phases of \<open>restore_checkpoint\<close>.
\<close>

text \<open>The directories of a tree are still there, and its files and links are not buried.\<close>

definition keeps_shape :: "node \<Rightarrow> node \<Rightarrow> bool" where
  "keeps_shape t t' \<longleftrightarrow> (\<forall>q. is_dir (lookup t q) \<longrightarrow> is_dir (lookup t' q))
     \<and> (\<forall>q. leaf (lookup t q) \<noteq> None \<longrightarrow> \<not> is_dir (lookup t' q))"

definition name_ok :: "fs_env \<Rightarrow> string \<Rightarrow> bool" where
  "name_ok env s \<longleftrightarrow> check_name env s () = Inr ()"

definition names_ok :: "fs_env \<Rightarrow> node \<Rightarrow> bool" where
  "names_ok env t \<longleftrightarrow> (\<forall>s. seen (extra_globs env) t s \<noteq> None \<longrightarrow> name_ok env s)"

text \<open>A target of a link cannot contain a NUL byte.\<close>

definition links_ok :: "fs_env \<Rightarrow> node \<Rightarrow> bool" where
  "links_ok env t \<longleftrightarrow> (\<forall>s g. seen (extra_globs env) t s = Some (Inr g) \<longrightarrow> NUL \<notin> set g)"

section \<open>Directories that are there\<close>

lemma reject_links_dir: "is_dir (lookup t q) \<Longrightarrow> reject_links t q = Inr ()"
proof (induction t q rule: reject_links.induct)
  case (2 es p ps)
  then obtain c where c: "map_of es p = Some c" "is_dir (lookup c ps)" by (auto split: option.splits)
  then have "\<not> is_link (Some c)" by (cases c; cases ps) (auto simp: is_link_def)
  with 2 c show ?case by (cases c) (auto simp: is_link_def)
qed auto

lemma update_same: "map_of al k = Some v \<Longrightarrow> AList.update k v al = al"
  by (induction al) (auto split: if_splits)

lemma make_dirs_there: "is_dir (lookup t q) \<Longrightarrow> make_dirs q t = Inr t"
proof (induction q t rule: make_dirs.induct)
  case (3 p ps es)
  then obtain c where "map_of es p = Some c" "is_dir (lookup c ps)" by (auto split: option.splits)
  with 3 show ?case by (simp add: update_same)
qed auto

lemma parent_is_dir: "lookup t p \<noteq> None \<Longrightarrow> p \<noteq> [] \<Longrightarrow> is_dir (lookup t (butlast p))"
  using shape_above[of t "butlast p" "[last p]"] by (simp add: shape_def is_dir_shape split: option.splits)

lemma checked_in_dir:
  assumes "name_ok env s" and "proper s" and "is_dir (lookup t (butlast (name_parts s)))"
  shows "checked_path env t s = Inr (name_parts s)"
  using assms(1) safe_path_dirs[OF assms(2) reject_links_dir[OF assms(3)]]
  by (auto simp: checked_path_def name_ok_def check_name_def)

text \<open>Steps that change no directory.\<close>

definition same_dirs :: "node \<Rightarrow> node \<Rightarrow> bool" where
  "same_dirs t t' \<longleftrightarrow> (\<forall>q. is_dir (lookup t' q) = is_dir (lookup t q))"

lemma same_dirs_trans: "same_dirs a b \<Longrightarrow> same_dirs b c \<Longrightarrow> same_dirs a c"
  by (simp add: same_dirs_def)

lemma same_dirs_shape: "same_dirs a b \<Longrightarrow> keeps_shape t a \<Longrightarrow> keeps_shape t b"
  by (simp add: same_dirs_def keeps_shape_def)

lemma same_dirs_refl [simp]: "same_dirs t t"
  by (simp add: same_dirs_def)

lemma put_same_dirs:
  assumes "p \<noteq> []" and "is_dir (lookup t (butlast p))" and "\<not> is_dir (lookup t p)" and "\<not> is_dir (Some n)"
  shows "same_dirs t (put p n t)"
  using put_shape[OF assms] assms(3,4) by (cases n) (auto simp: same_dirs_def is_dir_shape)

lemma remove_same_dirs:
  assumes "p \<noteq> []" and "\<not> is_dir (lookup t p)"
  shows "same_dirs t (remove_at p t)"
  using remove_shape[OF assms] assms(2) by (auto simp: same_dirs_def is_dir_shape)

lemma set_mode_same_dirs: "p \<noteq> [] \<Longrightarrow> same_dirs t (set_mode p m t)"
  using parent_is_dir[of t p] put_same_dirs[of p t]
  by (auto simp: set_mode_def split: option.splits node.splits)

section \<open>The phases\<close>

lemma remove_new_link_total:
  assumes "name_ok env s" and "proper s"
  shows "\<exists>removed' t'. remove_new_link env expected s (removed, t) = Inr (removed', t') \<and> same_dirs t t'"
proof (cases "lookup t (name_parts s)")
  case (Some n)
  show ?thesis
  proof (cases n)
    case (Link g r)
    have "is_dir (lookup t (butlast (name_parts s)))" using parent_is_dir[of t "name_parts s"] Some by simp
    from checked_in_dir[OF assms this] remove_same_dirs[of "name_parts s" t] Some Link show ?thesis
      by (simp add: remove_new_link_def)
  qed (simp_all add: Some remove_new_link_def)
qed (simp add: remove_new_link_def)

lemma remove_new_links_total:
  assumes "\<forall>s\<in>set ls. name_ok env s \<and> proper s"
  shows "\<exists>removed' t'. fold_res (remove_new_link env expected) ls (removed, t) = Inr (removed', t') \<and> same_dirs t t'"
  using assms
proof (induction ls arbitrary: removed t)
  case (Cons s ls)
  from Cons.prems remove_new_link_total[of env s expected removed t] obtain r1 t1 where
    "remove_new_link env expected s (removed, t) = Inr (r1, t1)" "same_dirs t t1" by auto
  moreover from Cons obtain r2 t2 where "fold_res (remove_new_link env expected) ls (r1, t1) = Inr (r2, t2)" "same_dirs t1 t2"
    by (metis list.set_intros(2))
  ultimately show ?case using same_dirs_trans by fastforce
qed simp

lemma prepare_total:
  assumes "\<forall>s\<in>set ss. \<forall>d z m. map_of fs s = Some (d, z, m) \<longrightarrow> (\<exists>c. map_of (objects st) d = Some c \<and> sha env c = d)"
  shows "\<exists>prepared. fold_res (prepare env st fs) ss acc = Inr prepared"
  using assms
proof (induction ss arbitrary: acc)
  case (Cons s ss)
  have "\<exists>a. prepare env st fs s acc = Inr a"
    using Cons.prems by (cases "map_of fs s") (auto simp: prepare_def)
  with Cons show ?case by auto
qed simp

lemma restore_one_total:
  assumes "name_ok env s" and "proper s" and "is_dir (lookup t (butlast (name_parts s)))"
    and "map_of prepared s = None \<Longrightarrow> \<exists>c m k. lookup t (name_parts s) = Some (File c m k)"
    and "map_of prepared s \<noteq> None \<Longrightarrow> \<not> is_dir (lookup t (name_parts s))"
  shows "\<exists>t'. restore_one env prepared s t = Inr t' \<and> same_dirs t t'"
proof -
  let ?p = "name_parts s"
  note cp = checked_in_dir[OF assms(1-3)]
  show ?thesis
  proof (cases "map_of prepared s")
    case None
    with assms(4) obtain c m k where l: "lookup t ?p = Some (File c m k)" by blast
    then have "path_exists (behind_links env) t ?p"
      using exists_at_present[of t ?p] by (auto simp: path_exists_def is_link_def)
    with None l cp remove_same_dirs[of ?p t] show ?thesis by (simp add: restore_one_def)
  next
    case (Some cm)
    obtain c m where cm: "cm = (c, m)" by (cases cm)
    have nd: "\<not> is_dir (lookup t ?p)" using assms(5) Some by simp
    let ?n = "File c (replacement_mode (new_file_mode env) (lookup t ?p)) 1"
    have "restore_one env prepared s t = Inr (set_mode ?p m (put ?p ?n t))"
      using Some cm cp nd assms(3) make_dirs_there[OF assms(3)]
      by (simp add: restore_one_def atomic_write_def replace_file_def)
    moreover have "same_dirs t (set_mode ?p m (put ?p ?n t))"
      using put_same_dirs[OF name_parts_not_Nil assms(3) nd, of ?n] set_mode_same_dirs[of ?p] same_dirs_trans by fastforce
    ultimately show ?thesis by blast
  qed
qed

lemma recreate_link_total:
  assumes "name_ok env s" and "proper s" and "is_dir (lookup t (butlast (name_parts s)))"
  shows "\<exists>r' t'. recreate_link env (s, g) (restored, t) = Inr (r', t') \<and> same_dirs t t'"
proof -
  let ?p = "name_parts s" let ?n = "Link g (link_leads env ?p g)"
  note cp = checked_in_dir[OF assms]
  have absent: ?thesis if "lookup t ?p = None"
    using that cp make_dirs_there[OF assms(3)] put_same_dirs[OF name_parts_not_Nil assms(3), of ?n]
    by (simp add: recreate_link_def Let_def)
  have there: "\<exists>r' t'. rbind (make_dirs (butlast ?p) (remove_at ?p t)) (\<lambda>t1. Inr (restored @ [s], put ?p ?n t1)) = Inr (r', t') \<and> same_dirs t t'"
    if nd: "\<not> is_dir (lookup t ?p)"
  proof -
    let ?t = "remove_at ?p t"
    have s: "same_dirs t ?t" by (rule remove_same_dirs[OF name_parts_not_Nil nd])
    then have d: "is_dir (lookup ?t (butlast ?p))" "\<not> is_dir (lookup ?t ?p)" using assms(3) nd by (simp_all add: same_dirs_def)
    from put_same_dirs[OF name_parts_not_Nil d, of ?n] s make_dirs_there[OF d(1)] show ?thesis
      by (auto intro: same_dirs_trans)
  qed
  show ?thesis
  proof (cases "lookup t ?p")
    case (Some n)
    then show ?thesis using cp there by (cases n) (auto simp: recreate_link_def Let_def)
  qed (rule absent)
qed

text \<open>All files: what the manifest or the listing names.\<close>

lemma restore_all_total:
  assumes "good_tree t" and "distinct ss"
    and "\<forall>s\<in>set ss. name_ok env s \<and> proper s \<and> \<not> hidden ex s \<and> is_dir (lookup t (butlast (name_parts s)))
      \<and> \<not> is_dir (lookup t (name_parts s)) \<and> (\<forall>c mo. map_of prepared s = Some (c, mo) \<longrightarrow> mo \<noteq> None)
      \<and> (map_of prepared s = None \<longrightarrow> (\<exists>f. seen ex t s = Some (Inl f)))"
  shows "\<exists>t'. fold_res (restore_one env prepared) ss t = Inr t' \<and> same_dirs t t'"
  using assms
proof (induction ss arbitrary: t)
  case (Cons s ss)
  have s: "name_ok env s" "proper s" "\<not> hidden ex s" "is_dir (lookup t (butlast (name_parts s)))" "\<not> is_dir (lookup t (name_parts s))"
    "\<forall>c mo. map_of prepared s = Some (c, mo) \<longrightarrow> mo \<noteq> None" "map_of prepared s = None \<longrightarrow> (\<exists>f. seen ex t s = Some (Inl f))"
    using Cons.prems(3) by auto
  have "map_of prepared s = None \<Longrightarrow> \<exists>c m k. lookup t (name_parts s) = Some (File c m k)"
    using s(3,7) by (auto simp: seen_def leaf_iff)
  from restore_one_total[OF s(1,2,4) this s(5)] obtain t1 where t1: "restore_one env prepared s t = Inr t1" "same_dirs t t1"
    by blast
  from restore_one_effect[OF t1(1) Cons.prems(1) s(2,3,6,7)] have e: "good_tree t1"
    "\<And>x. x \<noteq> s \<Longrightarrow> seen ex t1 x = seen ex t x" by simp_all
  have "\<exists>t'. fold_res (restore_one env prepared) ss t1 = Inr t' \<and> same_dirs t1 t'"
  proof (rule Cons.IH[OF e(1)])
    show "distinct ss" using Cons.prems(2) by simp
    have "x \<noteq> s" if "x \<in> set ss" for x using that Cons.prems(2) by auto
    then show "\<forall>x\<in>set ss. name_ok env x \<and> proper x \<and> \<not> hidden ex x \<and> is_dir (lookup t1 (butlast (name_parts x)))
      \<and> \<not> is_dir (lookup t1 (name_parts x)) \<and> (\<forall>c mo. map_of prepared x = Some (c, mo) \<longrightarrow> mo \<noteq> None)
      \<and> (map_of prepared x = None \<longrightarrow> (\<exists>f. seen ex t1 x = Some (Inl f)))"
      using Cons.prems(3) t1(2) e(2) by (simp add: same_dirs_def)
  qed
  with t1 show ?case using same_dirs_trans by auto
qed simp

lemma recreate_links_total:
  assumes "\<forall>(s, g)\<in>set ls. name_ok env s \<and> proper s \<and> is_dir (lookup t (butlast (name_parts s)))"
  shows "\<exists>r' t'. fold_res (recreate_link env) ls (restored, t) = Inr (r', t') \<and> same_dirs t t'"
  using assms
proof (induction ls arbitrary: restored t)
  case (Cons l ls)
  obtain s g where l: "l = (s, g)" by (cases l)
  with Cons.prems recreate_link_total[of env s t g restored] obtain r1 t1 where
    1: "recreate_link env (s, g) (restored, t) = Inr (r1, t1)" "same_dirs t t1" by auto
  have "\<forall>(s, g)\<in>set ls. name_ok env s \<and> proper s \<and> is_dir (lookup t1 (butlast (name_parts s)))"
    using Cons.prems 1(2) by (auto simp: same_dirs_def)
  from Cons.IH[OF this, of r1] obtain r2 t2 where "fold_res (recreate_link env) ls (r1, t1) = Inr (r2, t2)" "same_dirs t1 t2" by auto
  with 1 l show ?case using same_dirs_trans by fastforce
qed simp

lemma checks_total:
  "\<forall>s\<in>set ss. name_ok env s \<Longrightarrow> fold_res (check_name env) ss () = Inr ()"
  "\<forall>(s, g)\<in>set ls. name_ok env s \<and> NUL \<notin> set g \<Longrightarrow> fold_res (check_link env) ls () = Inr ()"
proof -
  show "\<forall>s\<in>set ss. name_ok env s \<Longrightarrow> fold_res (check_name env) ss () = Inr ()"
    by (induction ss) (auto simp: name_ok_def)
  show "\<forall>(s, g)\<in>set ls. name_ok env s \<and> NUL \<notin> set g \<Longrightarrow> fold_res (check_link env) ls () = Inr ()"
    by (induction ls) (auto simp: name_ok_def check_link_def)
qed

section \<open>The whole restore\<close>

lemma seen_parent:
  assumes "seen ex t s \<noteq> None"
  shows "is_dir (lookup t (butlast (name_parts s)))" and "\<not> is_dir (lookup t (name_parts s))"
proof -
  have "leaf (lookup t (name_parts s)) \<noteq> None" using assms by (auto simp: seen_def split: if_splits)
  then show "\<not> is_dir (lookup t (name_parts s))" "is_dir (lookup t (butlast (name_parts s)))"
    using parent_is_dir[of t "name_parts s"] by (cases "lookup t (name_parts s)"; cases "the (lookup t (name_parts s))"; auto)+
qed

text \<open>A visible path of the old tree has its place in every tree that keeps the shape.\<close>

lemma kept_place:
  assumes "keeps_shape t t1" and "seen ex t s \<noteq> None"
  shows "is_dir (lookup t1 (butlast (name_parts s)))" and "\<not> is_dir (lookup t1 (name_parts s))"
proof -
  have "leaf (lookup t (name_parts s)) \<noteq> None" using assms(2) by (auto simp: seen_def split: if_splits)
  then show "\<not> is_dir (lookup t1 (name_parts s))" using assms(1) by (simp add: keeps_shape_def)
  show "is_dir (lookup t1 (butlast (name_parts s)))" using seen_parent(1)[OF assms(2)] assms(1) by (simp add: keeps_shape_def)
qed

lemma recorded_objects:
  assumes "store_ok env st" and "load_manifest st i = Inr m" and "map_of (m_files m) s = Some (d, z, mo)"
  shows "\<exists>c. map_of (objects st) d = Some c \<and> sha env c = d"
proof -
  have i: "checkpoint_id_ok i" "(i, m) \<in> set (checkpoints st)"
    using assms(2) by (auto simp: load_manifest_def dest: map_of_SomeD split: if_splits option.splits)
  have "(s, (d, z, mo)) \<in> set (m_files m)" using assms(3) by (rule map_of_SomeD)
  then have "d \<in> fst ` snd ` set (m_files m)" by force
  moreover have "fst ` snd ` set (m_files m) \<subseteq> fst ` set (objects st) - {[]}"
  proof -
    have "case (i, m) of (i, m) \<Rightarrow> checkpoint_id_ok i \<longrightarrow> fst ` snd ` set (m_files m) \<subseteq> fst ` set (objects st) - {[]}"
      using assms(1)[unfolded store_ok_def, THEN conjunct2, THEN conjunct2] i(2) by (rule bspec)
    with i(1) show ?thesis by (simp only: prod.case simp_thms)
  qed
  ultimately have "d \<in> fst ` set (objects st)" by (rule subsetD[THEN DiffD1, rotated])
  then obtain c where c: "map_of (objects st) d = Some c"
    using map_of_eq_None_iff[of "objects st" d] by (cases "map_of (objects st) d") auto
  have "\<forall>d c. map_of (objects st) d = Some c \<longrightarrow> sha env c = d" using assms(1) unfolding store_ok_def by (rule conjunct1[OF conjunct2])
  with c show ?thesis by blast
qed

lemma restore_succeeds:
  assumes t: "good_tree t" "good_tree t0" and shape: "keeps_shape t t0"
    and names: "names_ok env t" "names_ok env t0" "links_ok env t"
    and m: "m = new_manifest_for now (listing_of (extra_globs env) (sha env) t)
      (link_targets t (links_of (extra_globs env) (sha env) t))"
    and st: "store_ok env st" "load_manifest st i = Inr m"
    and lims: "int (length (m_files m)) \<le> mf" "manifest_total m \<le> mt"
  shows "\<exists>ps t'. restore_checkpoint env mf mt st i t0 = (Inr ps, t')"
proof -
  let ?ex = "extra_globs env"
  have ml: "m_links m = link_targets t (links_of ?ex (sha env) t)" by (simp add: m new_manifest_for_def)
  have seen_files: "seen ?ex t s \<noteq> None" if "s \<in> fst ` set (m_files m)" for s
  proof -
    have "map_of (m_files m) s \<noteq> None" using that by (simp add: map_of_eq_None_iff)
    then have "map_of (listing_of ?ex (sha env) t) s \<noteq> None" unfolding m map_of_new_manifest[OF t(1)] by simp
    then show ?thesis using listing_seen[OF t(1), of ?ex "sha env" s] by (cases "seen ?ex t s") simp_all
  qed
  have seen_links: "seen ?ex t s = Some (Inr g)" if "(s, g) \<in> set (m_links m)" for s g
    using that manifest_links[OF t(1) ml, of s g] by (simp add: link_view_seen)
  have c1: "fold_res (check_name env) (map fst (m_files m)) () = Inr ()"
    using seen_files names(1) by (intro checks_total(1)) (auto simp: names_ok_def)
  have c2: "fold_res (check_link env) (m_links m) () = Inr ()"
    using seen_links names(1,3) by (intro checks_total(2)) (fastforce simp: names_ok_def links_ok_def)
  have new: "\<forall>s\<in>set (links_of ?ex (sha env) t0). name_ok env s \<and> proper s"
    using links_seen[OF t(2)] seen_proper[OF t(2), of ?ex] names(2) by (fastforce simp: names_ok_def)
  obtain removed t1 where p1: "fold_res (remove_new_link env (m_links m)) (links_of ?ex (sha env) t0) ([], t0) = Inr (removed, t1)"
    "same_dirs t0 t1" using remove_new_links_total[OF new, of "m_links m" "[]" t0] by blast
  have "\<forall>s\<in>set (links_of ?ex (sha env) t0). proper s" using new by blast
  from remove_new_links_effect[OF p1(1) t(2) this, of ?ex] have g1: "good_tree t1"
    and s1: "\<And>x. seen ?ex t1 x \<noteq> None \<Longrightarrow> seen ?ex t0 x \<noteq> None"
    by (auto split: option.splits sum.splits)
  note k1 = same_dirs_shape[OF p1(2) shape]
  let ?ch = "changed_since (listing_of ?ex (sha env) t1) (m_files m)"
  have mem: "s \<in> set ?ch \<longleftrightarrow> file_view env t1 s \<noteq> file_view env t s" for s
    unfolding m by (rule mem_changed_since[OF g1 t(1)])
  obtain prepared where p2: "fold_res (prepare env st (m_files m)) ?ch [] = Inr prepared"
    using prepare_total[of ?ch "m_files m" st env "[]"] recorded_objects[OF st] by blast
  note prep = prepared_view[OF t(1) p2 m]
  have steps: "name_ok env s \<and> proper s \<and> \<not> hidden ?ex s \<and> is_dir (lookup t1 (butlast (name_parts s)))
      \<and> \<not> is_dir (lookup t1 (name_parts s)) \<and> (\<forall>c mo. map_of prepared s = Some (c, mo) \<longrightarrow> mo \<noteq> None)
      \<and> (map_of prepared s = None \<longrightarrow> (\<exists>f. seen ?ex t1 s = Some (Inl f)))" if s: "s \<in> set ?ch" for s
  proof -
    have "file_view env t1 s \<noteq> None \<or> file_view env t s \<noteq> None" using s[unfolded mem] by metis
    then have v: "seen ?ex t1 s \<noteq> None \<or> seen ?ex t s \<noteq> None" by (auto simp: file_view_def)
    then have "name_ok env s" using s1 names(1,2) by (auto simp: names_ok_def)
    moreover have "proper s \<and> \<not> hidden ?ex s" using v seen_proper[OF g1] seen_proper[OF t(1)] by blast
    moreover have "is_dir (lookup t1 (butlast (name_parts s))) \<and> \<not> is_dir (lookup t1 (name_parts s))"
      using v kept_place[OF k1] seen_parent by blast
    moreover have "map_of prepared s = None \<longrightarrow> (\<exists>f. seen ?ex t1 s = Some (Inl f))"
      using prep[OF s] s[unfolded mem] file_view_None[of env t1 s] by (auto split: option.splits)
    ultimately show ?thesis using prep[OF s] by (auto split: option.splits)
  qed
  have "distinct ?ch" by (simp add: changed_since_def)
  from restore_all_total[OF g1 this, of env ?ex prepared] steps obtain t2 where
    p3: "fold_res (restore_one env prepared) ?ch t1 = Inr t2" "same_dirs t1 t2" by blast
  note k2 = same_dirs_shape[OF p3(2) k1]
  have "\<forall>(s, g)\<in>set (m_links m). name_ok env s \<and> proper s \<and> is_dir (lookup t2 (butlast (name_parts s)))"
  proof (intro ballI, clarify)
    fix s g assume "(s, g) \<in> set (m_links m)"
    then have "seen ?ex t s \<noteq> None" using seen_links by simp
    then show "name_ok env s \<and> proper s \<and> is_dir (lookup t2 (butlast (name_parts s)))"
      using names(1) seen_proper[OF t(1)] kept_place[OF k2] by (auto simp: names_ok_def)
  qed
  from recreate_links_total[OF this, of "[]"] obtain restored t' where
    p4: "fold_res (recreate_link env) (m_links m) ([], t2) = Inr (restored, t')" by blast
  have "\<not> mt < sum_list (map (\<lambda>f. max 0 (fst (snd (snd f)))) (m_files m))"
    using lims(2) by (simp add: manifest_total_def)
  moreover have "collect_steps (remove_new_link env (m_links m)) (links_of ?ex (sha env) t0) t0 = (Inr removed, t1)"
    "run_steps (restore_one env prepared) ?ch t1 = (Inr (), t2)" "collect_steps (recreate_link env) (m_links m) t2 = (Inr restored, t')"
    using p1(1) p3(1) p4 by simp_all
  ultimately show ?thesis using st(2) lims(1) c1 c2 p2 by (simp add: restore_checkpoint_def Let_def del: collect_steps_Inr run_steps_Inr)
qed

text \<open>The context manager restores under the default limits; a checkpoint taken within them fits.\<close>

lemma create_limits:
  assumes "create_checkpoint env mf mt mc free now fresh t st = (Inr i, st')" and "good_tree t" and "\<forall>c. sha env c \<noteq> []"
  shows "i = fresh \<and> int (length (listing_of (extra_globs env) (sha env) t)) \<le> mf
    \<and> manifest_total (new_manifest_for now (listing_of (extra_globs env) (sha env) t) links) \<le> mt"
proof -
  let ?files = "listing_of (extra_globs env) (sha env) t"
  have "\<forall>f\<in>set ?files. 0 \<le> fst (snd (snd f))"
    using listing_facts[of t _ "extra_globs env" "sha env"] assms(2) by (force simp: good_tree_def)
  from manifest_total_new[OF this, of now links] assms(1) show ?thesis
    by (auto simp: create_checkpoint_def Let_def split: if_splits sum.splits prod.splits)
qed

lemma checkpointed_restores:
  assumes t: "good_tree t" "names_ok env t" "links_ok env t" and st: "store_ok env st" "env_ok env fresh"
    and body: "\<And>i e t1. body i t = (Inl e, t1) \<Longrightarrow> good_tree t1 \<and> keeps_shape t t1 \<and> names_ok env t1"
    and lims: "mf \<le> DEFAULT_MAX_CHECKPOINT_FILES" "mt \<le> DEFAULT_MAX_CHECKPOINT_BYTES"
    and fail: "checkpointed env mf mt free now fresh body t st = (Inl e, t', st')"
  shows "restored_tree env t t'"
proof (cases "create_checkpoint env mf mt DEFAULT_MAX_CHECKPOINTS free now fresh t st")
  case (Pair r s1)
  show ?thesis
  proof (cases r)
    case (Inl e1)
    then show ?thesis using fail Pair by (auto simp: checkpointed_def with_recovery_def restored_tree_def)
  next
    case (Inr i)
    let ?m = "new_manifest_for now (listing_of (extra_globs env) (sha env) t)
      (link_targets t (links_of (extra_globs env) (sha env) t))"
    obtain e1 t1 where b: "body i t = (Inl e1, t1)"
      using fail Pair Inr by (auto simp: checkpointed_def with_recovery_def split: prod.splits sum.splits)
    from create_facts[OF st t(1) Pair] Inr have s1: "store_ok env s1" "load_manifest s1 i = Inr ?m" by auto
    have sha: "\<forall>c. sha env c \<noteq> []" using st(2) by (simp add: env_ok_def)
    have len: "length (m_files ?m) = length (listing_of (extra_globs env) (sha env) t)" by (simp add: new_manifest_for_def)
    from create_limits[OF Pair[unfolded Inr] t(1) sha, of "link_targets t (links_of (extra_globs env) (sha env) t)"] lims
    have fit: "int (length (m_files ?m)) \<le> DEFAULT_MAX_CHECKPOINT_FILES" "manifest_total ?m \<le> DEFAULT_MAX_CHECKPOINT_BYTES"
      unfolding len by linarith+
    from body[OF b] have b1: "good_tree t1" "keeps_shape t t1" "names_ok env t1" by auto
    from restore_succeeds[OF t(1) b1(1,2) t(2) b1(3) t(3) refl s1 fit] obtain ps t2 where
      r: "restore_checkpoint env DEFAULT_MAX_CHECKPOINT_FILES DEFAULT_MAX_CHECKPOINT_BYTES s1 i t1 = (Inr ps, t2)" by blast
    from restore_views[OF t(1) b1(1) refl s1(2) r] have "restored_tree env t t2" by (simp add: restored_tree_def)
    moreover have "t' = t2" using fail Pair Inr b r by (simp add: checkpointed_def with_recovery_def)
    ultimately show ?thesis by simp
  qed
qed

end
