(* ===== verification/Atomicity.thy ===== *)
theory Atomicity
  imports Patch_Tool Recovery
begin

text \<open>
  When the file tools are all or nothing: the bodies of \<open>write\<close>, \<open>edit\<close> and \<open>apply_patch\<close> keep the tree in a
  shape that a restore accepts, as long as no operation of a patch needs a directory where the tree had a
  file; and what happens when one does, or when a path is hidden from the checkpoint.
\<close>

definition tame :: "fs_env \<Rightarrow> node \<Rightarrow> node \<Rightarrow> bool" where
  "tame env t cur \<longleftrightarrow> good_tree cur \<and> keeps_shape t cur \<and> names_ok env cur"

text \<open>No file or link of the tree lies on the way to the path.\<close>

definition clear_way :: "node \<Rightarrow> path \<Rightarrow> bool" where
  "clear_way t p \<longleftrightarrow> (\<forall>q. under q p \<and> q \<noteq> p \<longrightarrow> leaf (lookup t q) = None)"

lemma tame_refl: "good_tree t \<Longrightarrow> names_ok env t \<Longrightarrow> tame env t t"
  by (auto simp: tame_def keeps_shape_def leaf_def split: option.splits node.splits)

section \<open>Accepted names\<close>

lemma accepted_name:
  assumes "safe_path (nfc env) (extra_globs env) b t must False s0 = Inr p" and "p \<noteq> []"
  shows "\<exists>s. p = name_parts s \<and> name_ok env s"
proof -
  from assms(1) obtain n where n: "normalize_relative (nfc env) (extra_globs env) False s0 = Inr n" "p = path_parts n"
    by (auto simp: safe_path_def Let_def split: if_splits option.splits)
  then have p: "p = name_parts n" and "n \<noteq> ''.''" "n \<noteq> []" using assms(2) by (auto simp: path_parts_def name_parts_def split: if_splits)
  have s0: "s0 \<noteq> []" using n(1) \<open>n \<noteq> ''.''\<close> by (auto simp: normalize_relative_def)
  note ps = normalize_relative_parts[OF n(1) s0]
  then have "posix_parts s0 \<noteq> []" using \<open>n \<noteq> []\<close> by auto
  from safe_segments_normal[OF this] ps have "normalize_relative (nfc env) (extra_globs env) False n = Inr n" by blast
  with p show ?thesis by (auto simp: name_ok_def check_name_def)
qed

section \<open>Steps that stay tame\<close>

lemma step_from_keeps: "P t \<Longrightarrow> (\<And>t'. r = Inr t' \<Longrightarrow> P t') \<Longrightarrow> P (snd (step_from t r))"
  by (simp add: step_from_def split: sum.split)

lemma tame_make_dirs:
  assumes "tame env t cur" and "make_dirs q cur = Inr cur'" and "list_all valid_name q"
    and "\<forall>q'. under q' q \<longrightarrow> leaf (lookup t q') = None"
  shows "tame env t cur'"
proof -
  have "is_dir (lookup cur' q') \<longleftrightarrow> under q' q \<or> is_dir (lookup cur q')" for q'
    using shape_make_dirs[OF assms(2), of q'] by (auto simp: is_dir_shape)
  then have "keeps_shape t cur'" using assms(1,4) by (auto simp: tame_def keeps_shape_def)
  moreover have "names_ok env cur'" using assms(1) make_dirs_seen[OF assms(2)] by (simp add: tame_def names_ok_def)
  ultimately show ?thesis using assms(1,3) make_dirs_good[OF assms(2)] by (simp add: tame_def)
qed

lemma tame_replace:
  assumes "tame env t cur" and "replace_file cur p c m = Inr cur'" and "p = name_parts s" and "name_ok env s"
    and "list_all valid_name p"
  shows "tame env t cur'"
proof -
  from assms(2) have r: "is_dir (lookup cur (butlast p))" "\<not> is_dir (lookup cur p)" "cur' = put p (File c m 1) cur"
    by (auto simp: replace_file_Inr)
  have ne: "p \<noteq> []" by (simp add: assms(3))
  have "same_dirs cur cur'" using put_same_dirs[OF ne r(1,2)] r(3) by simp
  moreover have "names_ok env cur'"
    using assms(1,4) put_seen[OF assms(3) r(1,2), of "File c m 1"] r(3) by (auto simp: tame_def names_ok_def)
  moreover have "good_tree cur'" using replace_file_good[OF assms(2) ne _ assms(5)] assms(1) by (simp add: tame_def)
  ultimately show ?thesis using assms(1) same_dirs_shape by (auto simp: tame_def)
qed

lemma tame_remove:
  assumes "tame env t cur" and "p \<noteq> []" and "\<not> is_dir (lookup cur p)"
  shows "tame env t (remove_at p cur)"
proof -
  have "seen ex (remove_at p cur) s \<noteq> None \<Longrightarrow> seen ex cur s \<noteq> None" for ex s
    using remove_shape[OF assms(2,3), of "name_parts s"] by (auto simp: seen_shape split: if_splits)
  then show ?thesis
    using assms remove_good[OF _ assms(2,3)] same_dirs_shape[OF remove_same_dirs[OF assms(2,3)]]
    by (auto simp: tame_def names_ok_def)
qed

lemma tame_atomic:
  assumes "(if b then atomic_append nm cur p c else atomic_write nm cur p c) = Inr cur'"
    and "tame env t cur" and "p = name_parts s" and "name_ok env s" and "list_all valid_name p"
  shows "tame env t cur'"
  using assms(1) tame_replace[OF assms(2) _ assms(3-5)]
  by (auto simp: atomic_append_def atomic_write_def split: if_splits option.splits node.splits)

lemma commit_write_tame:
  assumes "write_ready env lims args cur w" and "tame env t cur" and "clear_way t (pw_path w)"
  shows "tame env t (snd (commit_write env w cur))"
proof -
  let ?p = "pw_path w"
  from assms(1) have sp: "safe_path (nfc env) (extra_globs env) (behind_links env) cur False False (pw_relative w) = Inr ?p"
    by (simp add: write_ready_def)
  from safe_path_valid[OF sp] have p: "?p \<noteq> []" "list_all valid_name ?p" by simp_all
  then have b: "list_all valid_name (butlast ?p)" by (auto simp: list_all_iff dest: in_set_butlastD)
  obtain s where s: "?p = name_parts s" "name_ok env s" using accepted_name[OF sp p(1)] by blast
  have way: "\<forall>q'. under q' (butlast ?p) \<longrightarrow> leaf (lookup t q') = None"
  proof (intro allI impI)
    fix q' assume "under q' (butlast ?p)"
    then obtain r where "butlast ?p = q' @ r" unfolding under_iff by blast
    then have "?p = q' @ (r @ [last ?p])" using p(1) by (metis append_assoc append_butlast_last_id)
    then have "under q' ?p \<and> q' \<noteq> ?p" unfolding under_iff by (metis append_self_conv snoc_eq_iff_butlast)
    then show "leaf (lookup t q') = None" using assms(3) by (simp add: clear_way_def)
  qed
  let ?mk = "if create_parents w then make_dirs (butlast ?p) cur else Inr cur"
  show ?thesis
  proof (cases ?mk)
    case (Inl e)
    then show ?thesis using assms(2) by (simp add: commit_write_def step_from_def)
  next
    case (Inr t1)
    then have t1: "tame env t t1" using tame_make_dirs[OF assms(2) _ b way] assms(2) by (auto split: if_splits)
    let ?r = "rbind (safe_path (nfc env) (extra_globs env) (behind_links env) t1 False False (pw_relative w)) (\<lambda>p.
          rbind (if path_exists (behind_links env) t1 p then require_regular_file (lookup t1 p) else Inr ()) (\<lambda>_.
            if pw_mode w = ''append'' \<and> pw_old_hash w \<noteq> None
            then atomic_append (new_file_mode env) t1 p (pw_content w)
            else atomic_write (new_file_mode env) t1 p (pw_content w)))"
    have "step_from cur ?mk = (Inr (), t1)" by (simp add: Inr)
    then have "commit_write env w cur = step_from t1 ?r" by (simp only: commit_write_def sbind_simps)
    moreover have "tame env t t'" if r: "?r = Inr t'" for t'
    proof -
      from r obtain p where "safe_path (nfc env) (extra_globs env) (behind_links env) t1 False False (pw_relative w) = Inr p"
        and put: "(if pw_mode w = ''append'' \<and> pw_old_hash w \<noteq> None then atomic_append (new_file_mode env) t1 p (pw_content w)
            else atomic_write (new_file_mode env) t1 p (pw_content w)) = Inr t'"
        by (elim rbind_InrE) 
      then have "p = ?p" using safe_path_same[OF _ sp] by blast
      from tame_atomic[OF put[unfolded this] t1 s p(2)] show ?thesis .
    qed
    ultimately show ?thesis using t1 by (simp only:) (rule step_from_keeps, blast+)
  qed
qed

lemma apply_edit_tame:
  assumes "prepare_edit env mt args cur = Inr e" and "tame env t cur"
  shows "tame env t (snd (apply_edit env limit e cur))"
proof -
  from prepare_edit_Inr[OF assms(1)] obtain src m k where l: "lookup cur (pe_path e) = Some (File src m k)"
    and sp: "safe_path (nfc env) (extra_globs env) (behind_links env) cur True False (pe_relative e) = Inr (pe_path e)" by blast
  have ne: "pe_path e \<noteq> []" using file_path_not_root[OF _ l] assms(2) by (simp add: tame_def)
  obtain s where s: "pe_path e = name_parts s" "name_ok env s" using accepted_name[OF sp ne] by blast
  have v: "list_all valid_name (pe_path e)" using safe_path_valid[OF sp] by simp
  show ?thesis
  proof (cases "apply_edit env limit e cur")
    case (Pair r t')
    then have "tame env t t'"
    proof (cases r)
      case (Inr a)
      with Pair l obtain out where "atomic_write (new_file_mode env) cur (pe_path e) out = Inr t'"
        by (auto simp: apply_edit_def split: sum.splits if_splits)
      then show ?thesis using tame_atomic[of False _ cur _ out t', OF _ assms(2) s v] by simp
    qed (use apply_edit_unchanged assms(2) in blast)
    then show ?thesis by (simp add: Pair)
  qed
qed

lemma delete_file_tame:
  assumes "delete_file env args cur = Inr (r, t')" and "tame env t cur"
  shows "tame env t t'"
proof -
  from delete_file_Inr[OF assms(1)] obtain p c m k where d: "lookup cur p = Some (File c m k)" "t' = remove_at p cur" by blast
  have "p \<noteq> []" using file_path_not_root[OF _ d(1)] assms(2) by (simp add: tame_def)
  from tame_remove[OF assms(2) this] d show ?thesis by simp
qed

lemma snd_with_result: "snd (sbind r (\<lambda>x t1. with_result (f x t1) t1)) = snd r"
  by (cases r; cases "fst r") (auto simp: with_result_def)

lemma apply_one_tame:
  assumes "tame env t cur" and "clear_way t (target_of env item)"
  shows "tame env t (snd (apply_one env lims item cur))"
proof -
  let ?args = "filter (\<lambda>a. fst a \<noteq> ''operation'') item"
  consider "dget item ''operation'' = PStr ''write''" | "dget item ''operation'' = PStr ''edit''"
    | "dget item ''operation'' \<noteq> PStr ''write''" "dget item ''operation'' \<noteq> PStr ''edit''" by blast
  then show ?thesis
  proof cases
    case 1
    show ?thesis
    proof (cases "prepare_write env (pl_write lims) ?args cur")
      case (Inr w)
      note ready = prepare_write_ready[OF Inr]
      have "target_of env item = pw_path w"
        using ready safe_path_target[of env _ cur False "pw_relative w" "pw_path w" item] by (auto simp: write_ready_def dget_filter)
      with commit_write_tame[OF ready assms(1)] assms(2) 1 Inr show ?thesis
        by (simp add: apply_one_def Let_def snd_with_result)
    qed (use 1 assms(1) in \<open>simp add: apply_one_def Let_def\<close>)
  next
    case 2
    then show ?thesis using assms(1) apply_edit_tame[OF _ assms(1)]
      by (cases "prepare_edit env (el_target (pl_edit lims)) ?args cur") (auto simp: apply_one_def Let_def snd_with_result)
  next
    case 3
    then show ?thesis using assms(1) delete_file_tame[OF _ assms(1)] by (auto simp: apply_one_def Let_def split: sum.splits)
  qed
qed

interpretation tame_patch: keeping "apply_one env lims" "tame env t" "\<lambda>item. clear_way t (target_of env item)"
  for env lims t
  by unfold_locales (rule apply_one_tame)

section \<open>Properties\<close>

text \<open>Claim C28. A successful patch is the composition of its operations: the leaves of the staging tree afterwards
  are those before with the abstract operations (put this content, replace all occurrences, remove)
  applied in order, and there is one result for each operation.\<close>

theorem apply_patch_refines:
  assumes "apply_patch env lims ck args t st = (Inr rep, t', st')" and "good_tree t"
  shows "\<exists>items. dget args ''operations'' = PList (map PDict items) \<and> items \<noteq> []
    \<and> leaves t' = fold (patch_effect env) items (leaves t) \<and> length (pr_results rep) = length items"
proof -
  from assms(1) obtain ops items results where ops: "dget args ''operations'' = PList ops" "ops \<noteq> []"
    and items: "map_res (validate_shape env) ops = Inr items"
    and c: "under_checkpoint env ck (\<lambda>_. patch_loop env lims [] items) t st = (Inr results, t', st')"
    and rep: "rep = patch_report_of results"
    by (auto simp: apply_patch_def split: if_splits pyval.splits sum.splits prod.splits)
  from staging.success_keeps_body[OF c[unfolded under_checkpoint_def checkpointed_def]]
  have b: "patch_loop env lims [] items t = (Inr results, t')" by blast
  have l2: "list_all2 (\<lambda>x y. validate_shape env x = Inr y) ops items" using items by (simp add: map_res_Inr)
  then have "list_all2 (\<lambda>x y. x = PDict y) ops items" by (rule list_all2_mono) (rule validate_shape_Inr(1))
  then have eq: "ops = map PDict items" by (induction rule: list_all2_induct) auto
  have "\<forall>item\<in>set items. dget item ''operation'' = PStr ''write'' \<longrightarrow> dget item ''mode'' = PNone"
    using l2 validate_shape_Inr(3) by (fastforce simp: list_all2_conv_all_nth in_set_conv_nth)
  from patch.run_all_implements[OF b[unfolded patch_loop_def] assms(2) this] ops eq rep show ?thesis by (auto simp: patch_report_of_def)
qed

text \<open>Claim C27. A patch is all or nothing: when it fails, whichever operation failed and for whatever reason, the
  listing of the staging tree is what it was, provided that no operation goes through a path that was
  a file, that the names in the tree are ones the path rules accept, and that the checkpoint limits
  are not above the defaults the rollback uses.\<close>

theorem failed_patch_is_undone:
  assumes "apply_patch env lims ck args t st = (Inl e, t', st')" and "good_tree t" and "store_ok env st"
    and "env_ok env (ck_id ck)" and "names_ok env t" and "links_ok env t"
    and "ck_files ck \<le> DEFAULT_MAX_CHECKPOINT_FILES" and "ck_bytes ck \<le> DEFAULT_MAX_CHECKPOINT_BYTES"
    and "\<And>ops d. dget args ''operations'' = PList ops \<Longrightarrow> PDict d \<in> set ops \<Longrightarrow> clear_way t (target_of env d)"
  shows "restored_tree env t t'"
proof (cases "t' = t")
  case False
  with assms(1) obtain ops items where ops: "dget args ''operations'' = PList ops"
    and items: "map_res (validate_shape env) ops = Inr items"
    and c: "under_checkpoint env ck (\<lambda>_. patch_loop env lims [] items) t st = (Inl e, t', st')"
    by (auto simp: apply_patch_def split: if_splits pyval.splits sum.splits prod.splits)
  have "\<forall>d\<in>set items. PDict d \<in> set ops"
    using items validate_shape_Inr(1) by (fastforce simp: map_res_Inr list_all2_conv_all_nth in_set_conv_nth)
  then have way: "\<forall>d\<in>set items. clear_way t (target_of env d)" using assms(9)[OF ops] by blast
  have "good_tree t1 \<and> keeps_shape t t1 \<and> names_ok env t1" if "patch_loop env lims [] items t = (Inl e1, t1)" for e1 t1
    using tame_patch.run_all_keeps[OF tame_refl[OF assms(2,5)] way, of lims operation_failed "[]"] that by (simp add: patch_loop_def tame_def)
  from checkpointed_restores[OF assms(2,5,6,3,4) this assms(7,8) c[unfolded under_checkpoint_def]] show ?thesis .
qed (simp add: restored_tree_def)

section \<open>Patches that stay half applied\<close>

definition half_work :: node where
  "half_work = Dir [(''a'', File ''x'' 0x1A4 1), (''venv'', Dir [(''m'', File ''y'' 0x1A4 1)])]"

definition delete_op :: "string \<Rightarrow> pydict" where
  "delete_op p = [(''operation'', PStr ''delete''), (''path'', PStr p)]"

definition nested_op :: pydict where
  "nested_op = [(''operation'', PStr ''write''), (''path'', PStr ''a/b''), (''content'', PStr ''z''), (''create_parents'', PBool True)]"

definition half_limits :: patch_limits where
  "half_limits = \<lparr>max_operations = 5, max_patch_bytes = 50, pl_write = \<lparr>wl_max_bytes = 50, wl_staging = None\<rparr>,
     pl_edit = \<lparr>el_target = 50, el_result = 50\<rparr>\<rparr>"

lemma half_delete:
  "apply_one plain_env half_limits (delete_op ''a'') half_work
    = (Inr (DeletedFile ''a'' ''#x'' 1), Dir [(''venv'', Dir [(''m'', File ''y'' 0x1A4 1)])])"
  by code_simp

lemma half_hidden:
  "apply_one plain_env half_limits (delete_op ''venv/m'') half_work
    = (Inr (DeletedFile ''venv/m'' ''#y'' 1), Dir [(''a'', File ''x'' 0x1A4 1), (''venv'', Dir [])])"
  by code_simp

definition half_done :: node where
  "half_done = Dir [(''venv'', Dir [(''m'', File ''y'' 0x1A4 1)]), (''a'', Dir [(''b'', File ''z'' 0x1A4 1)])]"

lemma half_write:
  "apply_one plain_env half_limits nested_op (Dir [(''venv'', Dir [(''m'', File ''y'' 0x1A4 1)])])
    = (Inr (WroteFile \<lparr>wr_path = ''a/b'', wr_old_sha = None, wr_new_sha = ''#z'', wr_size = 1, wr_old_size = 0, wr_appended = 0,
        wr_shrink = None\<rparr> True), half_done)"
  by code_simp

lemma half_missing:
  "apply_one plain_env half_limits (delete_op ''c'') half_done = (Inl (ToolError PATH_MISSING), half_done)"
  "apply_one plain_env half_limits (delete_op ''c'') (Dir [(''a'', File ''x'' 0x1A4 1), (''venv'', Dir [])])
    = (Inl (ToolError PATH_MISSING), Dir [(''a'', File ''x'' 0x1A4 1), (''venv'', Dir [])])"
  by code_simp+

definition half_manifest :: manifest where
  "half_manifest = \<lparr>created_ns = 5, m_files = [(''a'', (''#x'', 1, Some 0x1A4))], m_links = []\<rparr>"

definition half_store :: store where
  "half_store = \<lparr>objects = [(''#x'', ''x'')], checkpoints = [(sample_id, half_manifest)]\<rparr>"

lemma half_created:
  "create_checkpoint plain_env 10 100 DEFAULT_MAX_CHECKPOINTS 2000000000 5 sample_id half_work empty_store = (Inr sample_id, half_store)"
  by code_simp

lemma half_lists:
  "listing_of [] (sha plain_env) half_done = [(''a/b'', (''#z'', 1, 0x1A4))]" "links_of [] (sha plain_env) half_done = []"
  "listing_of [] (sha plain_env) (Dir [(''a'', File ''x'' 0x1A4 1), (''venv'', Dir [])]) = [(''a'', (''#x'', 1, 0x1A4))]"
  "links_of [] (sha plain_env) (Dir [(''a'', File ''x'' 0x1A4 1), (''venv'', Dir [])]) = []"
  by code_simp+

lemma half_changes:
  "changed_since [(''a/b'', (''#z'', 1, 0x1A4))] (m_files half_manifest) = [''a'', ''a/b'']"
  "changed_since [(''a'', (''#x'', 1, 0x1A4))] (m_files half_manifest) = []"
  "fold_res (check_name plain_env) (map fst (m_files half_manifest)) () = Inr ()"
  "fold_res (prepare plain_env half_store (m_files half_manifest)) [''a'', ''a/b''] [] = Inr [(''a'', (''x'', Some 0x1A4))]"
  "run_steps (restore_one plain_env [(''a'', (''x'', Some 0x1A4))]) [''a'', ''a/b''] half_done = (Inl IsADirectory, half_done)"
  by code_simp+

lemma half_restores:
  "restore_checkpoint plain_env DEFAULT_MAX_CHECKPOINT_FILES DEFAULT_MAX_CHECKPOINT_BYTES half_store sample_id half_done = (Inl IsADirectory, half_done)"
  "restore_checkpoint plain_env DEFAULT_MAX_CHECKPOINT_FILES DEFAULT_MAX_CHECKPOINT_BYTES half_store sample_id
     (Dir [(''a'', File ''x'' 0x1A4 1), (''venv'', Dir [])]) = (Inr [], Dir [(''a'', File ''x'' 0x1A4 1), (''venv'', Dir [])])"
proof -
  have l: "load_manifest half_store sample_id = Inr half_manifest" "sort_paths [] = []" by code_simp+
  have m: "m_links half_manifest = []" "length (m_files half_manifest) = 1" "sum_list (map (\<lambda>f. max 0 (fst (snd (snd f)))) (m_files half_manifest)) = 1"
    "extra_globs plain_env = []"
    by (simp_all add: half_manifest_def plain_env_def)
  show "restore_checkpoint plain_env DEFAULT_MAX_CHECKPOINT_FILES DEFAULT_MAX_CHECKPOINT_BYTES half_store sample_id half_done = (Inl IsADirectory, half_done)"
    using l m by (simp del: One_nat_def fold_res.simps(2) run_steps.simps add: Let_def no_steps restore_checkpoint_def DEFAULT_MAX_CHECKPOINT_FILES_def
        DEFAULT_MAX_CHECKPOINT_BYTES_def half_lists half_changes)
  show "restore_checkpoint plain_env DEFAULT_MAX_CHECKPOINT_FILES DEFAULT_MAX_CHECKPOINT_BYTES half_store sample_id
     (Dir [(''a'', File ''x'' 0x1A4 1), (''venv'', Dir [])]) = (Inr [], Dir [(''a'', File ''x'' 0x1A4 1), (''venv'', Dir [])])"
    using l m by (simp del: One_nat_def fold_res.simps(2) add: Let_def no_steps restore_checkpoint_def DEFAULT_MAX_CHECKPOINT_FILES_def
        DEFAULT_MAX_CHECKPOINT_BYTES_def half_lists half_changes)
qed

text \<open>Two patches whose last operation fails are not undone.  Deleting a file and writing below its
  name puts a directory in its place, which the rollback cannot replace: the caller gets that error and
  the first two operations stay.  And a deletion below a directory name that checkpoints leave out
  (\<open>venv\<close>) is accepted and stays, while the failure is reported as an operation that was not applied.\<close>

theorem patch_can_stay_half_applied:
  "(\<exists>st'. apply_patch plain_env half_limits sample_ck
       [(''operations'', PList (map PDict [delete_op ''a'', nested_op, delete_op ''c'']))] half_work empty_store
     = (Inl IsADirectory, half_done, st'))
   \<and> (\<exists>st'. apply_patch plain_env half_limits sample_ck
       [(''operations'', PList (map PDict [delete_op ''venv/m'', delete_op ''c'']))] half_work empty_store
     = (Inl (ToolError PATH_MISSING), Dir [(''a'', File ''x'' 0x1A4 1), (''venv'', Dir [])], st'))"
proof -
  have v: "map_res (validate_shape plain_env) (map PDict [delete_op ''a'', nested_op, delete_op ''c''])
      = Inr [delete_op ''a'', nested_op, delete_op ''c'']"
    "map_res (validate_shape plain_env) (map PDict [delete_op ''venv/m'', delete_op ''c'']) = Inr [delete_op ''venv/m'', delete_op ''c'']"
    by code_simp+
  have p: "patch_payload_bytes (map PDict [delete_op ''a'', nested_op, delete_op ''c'']) = 1"
    "patch_payload_bytes (map PDict [delete_op ''venv/m'', delete_op ''c'']) = 0" by code_simp+
  note defs = apply_patch_def under_checkpoint_def checkpointed_def with_recovery_def half_created half_restores sample_ck_def
    half_limits_def dget_def dkeys_def
  have 1: "patch_loop plain_env half_limits [] [delete_op ''a'', nested_op, delete_op ''c''] half_work = (Inl (ToolError PATH_MISSING), half_done)"
    by (simp del: One_nat_def add: half_delete half_write half_missing operation_failed_def patch_loop_def)
  have 2: "patch_loop plain_env half_limits [] [delete_op ''venv/m'', delete_op ''c''] half_work
      = (Inl (ToolError PATH_MISSING), Dir [(''a'', File ''x'' 0x1A4 1), (''venv'', Dir [])])"
    by (simp del: One_nat_def add: half_hidden half_missing operation_failed_def patch_loop_def)
  have A: "\<exists>st'. apply_patch plain_env half_limits sample_ck
       [(''operations'', PList (map PDict [delete_op ''a'', nested_op, delete_op ''c'']))] half_work empty_store
     = (Inl IsADirectory, half_done, st')"
    using v(1) p(1) 1 by (simp add: defs del: map_res.simps)
  have B: "\<exists>st'. apply_patch plain_env half_limits sample_ck
       [(''operations'', PList (map PDict [delete_op ''venv/m'', delete_op ''c'']))] half_work empty_store
     = (Inl (ToolError PATH_MISSING), Dir [(''a'', File ''x'' 0x1A4 1), (''venv'', Dir [])], st')"
    using v(2) p(2) 2 by (simp add: defs del: map_res.simps One_nat_def)
  show ?thesis using A B by blast
qed

text \<open>A patch that succeeds, and one that is undone.\<close>

lemma half_steps:
  "patch_loop plain_env half_limits [] [delete_op ''a'', nested_op] half_work = (Inr [DeletedFile ''a'' ''#x'' 1,
     WroteFile \<lparr>wr_path = ''a/b'', wr_old_sha = None, wr_new_sha = ''#z'', wr_size = 1, wr_old_size = 0, wr_appended = 0,
        wr_shrink = None\<rparr> True], half_done)"
  by (simp del: One_nat_def add: half_delete half_write patch_loop_def)

lemma half_good: "good_tree half_work"
  by (simp add: half_work_def good_tree_def valid_name_def)

theorem apply_patch_refines_witness:
  "\<exists>rep. apply_patch plain_env half_limits sample_ck
       [(''operations'', PList (map PDict [delete_op ''a'', nested_op]))] half_work empty_store = (Inr rep, half_done, half_store)
     \<and> leaves half_done = fold (patch_effect plain_env) [delete_op ''a'', nested_op] (leaves half_work)
     \<and> length (pr_results rep) = 2"
proof -
  have v: "map_res (validate_shape plain_env) (map PDict [delete_op ''a'', nested_op]) = Inr [delete_op ''a'', nested_op]"
    "patch_payload_bytes (map PDict [delete_op ''a'', nested_op]) = 1" by code_simp+
  let ?args = "[(''operations'', PList (map PDict [delete_op ''a'', nested_op]))]"
  obtain rep where r: "apply_patch plain_env half_limits sample_ck ?args half_work empty_store = (Inr rep, half_done, half_store)"
    using v half_steps by (simp add: apply_patch_def under_checkpoint_def checkpointed_def with_recovery_def half_created
        sample_ck_def half_limits_def dget_def dkeys_def del: map_res.simps One_nat_def)
  from apply_patch_refines[OF r half_good] obtain items where i: "dget ?args ''operations'' = PList (map PDict items)"
    "leaves half_done = fold (patch_effect plain_env) items (leaves half_work)" "length (pr_results rep) = length items" by blast
  have "items = [delete_op ''a'', nested_op]" using i(1) by (auto simp: dget_def)
  with i r show ?thesis by simp
qed

lemma half_names: "names_ok plain_env half_work" "links_ok plain_env half_work"
proof -
  have s: "s = ''a''" if "seen [] half_work s \<noteq> None" for s
  proof -
    have l: "leaf (lookup half_work (name_parts s)) \<noteq> None" and h: "\<not> hidden [] s" using that by (auto simp: seen_def split: if_splits)
    from l have "name_parts s = [''a''] \<or> (\<exists>ps. name_parts s = ''venv'' # ps)"
      by (cases "name_parts s") (auto simp: half_work_def leaf_def split: if_splits option.splits node.splits list.splits elim: lookup.elims)
    moreover have "is_hidden_part [] ''venv''" by code_simp
    ultimately have "name_parts s = [''a'']" using h by (auto simp: hidden_def)
    then show ?thesis using join_name_parts[of s] by simp
  qed
  have "name_ok plain_env ''a''" by code_simp
  then show "names_ok plain_env half_work" using s by (auto simp: names_ok_def plain_env_def)
  have "seen [] half_work ''a'' = Some (Inl (''x'', 0x1A4))" by code_simp
  then show "links_ok plain_env half_work" using s by (fastforce simp: links_ok_def plain_env_def)
qed

theorem failed_patch_is_undone_witness:
  "\<exists>e t' st'. apply_patch plain_env half_limits sample_ck
       [(''operations'', PList (map PDict [delete_op ''a'', delete_op ''c'']))] half_work empty_store = (Inl e, t', st')
     \<and> file_view plain_env t' ''a'' = Some (''#x'', 0x1A4)"
proof -
  let ?items = "[delete_op ''a'', delete_op ''c'']" let ?args = "[(''operations'', PList (map PDict ?items))]"
  have v: "map_res (validate_shape plain_env) (map PDict ?items) = Inr ?items" "patch_payload_bytes (map PDict ?items) = 0" by code_simp+
  have "apply_one plain_env half_limits (delete_op ''c'') (Dir [(''venv'', Dir [(''m'', File ''y'' 0x1A4 1)])])
      = (Inl (ToolError PATH_MISSING), Dir [(''venv'', Dir [(''m'', File ''y'' 0x1A4 1)])])" by code_simp
  then have l: "patch_loop plain_env half_limits [] ?items half_work = (Inl (ToolError PATH_MISSING), Dir [(''venv'', Dir [(''m'', File ''y'' 0x1A4 1)])])"
    by (simp del: One_nat_def add: half_delete operation_failed_def patch_loop_def)
  obtain rr w where R: "restore_checkpoint plain_env DEFAULT_MAX_CHECKPOINT_FILES DEFAULT_MAX_CHECKPOINT_BYTES half_store sample_id
      (Dir [(''venv'', Dir [(''m'', File ''y'' 0x1A4 1)])]) = (rr, w)" by (metis surj_pair)
  have "\<exists>e t' st'. apply_patch plain_env half_limits sample_ck ?args half_work empty_store = (Inl e, t', st')"
    using v l R by (cases rr) (simp_all add: apply_patch_def under_checkpoint_def checkpointed_def with_recovery_def half_created
        sample_ck_def half_limits_def dget_def dkeys_def del: map_res.simps One_nat_def)
  then obtain e t' st' where r: "apply_patch plain_env half_limits sample_ck ?args half_work empty_store = (Inl e, t', st')" by blast
  have st: "store_ok plain_env empty_store" "env_ok plain_env (ck_id sample_ck)"
    by (auto simp: store_ok_def empty_store_def env_ok_def plain_env_def checkpoint_id_ok_def sample_ck_def sample_id_def)
  have way: "clear_way half_work (target_of plain_env d)" if "dget ?args ''operations'' = PList ops" "PDict d \<in> set ops" for ops d
  proof -
    have "target_of plain_env (delete_op ''a'') = [''a'']" "target_of plain_env (delete_op ''c'') = [''c'']" by code_simp+
    then have "target_of plain_env d = [''a''] \<or> target_of plain_env d = [''c'']" using that by (auto simp: dget_def)
    then show ?thesis by (auto simp: clear_way_def under_iff Cons_eq_append_conv half_work_def)
  qed
  have "ck_files sample_ck \<le> DEFAULT_MAX_CHECKPOINT_FILES" "ck_bytes sample_ck \<le> DEFAULT_MAX_CHECKPOINT_BYTES"
    by (simp_all add: sample_ck_def DEFAULT_MAX_CHECKPOINT_FILES_def DEFAULT_MAX_CHECKPOINT_BYTES_def)
  from failed_patch_is_undone[OF r half_good st half_names this way] have "file_view plain_env t' = file_view plain_env half_work"
    by (simp add: restored_tree_def)
  moreover have "file_view plain_env half_work ''a'' = Some (''#x'', 0x1A4)" by code_simp
  ultimately show ?thesis using r by auto
qed

end
