(* ===== verification/Drift.thy ===== *)
theory Drift
  imports Rollback
begin

text \<open>
  Bringing changes of the host into the staging area (\<open>executor/drift.py\<close>): the walk over the host files
  that hashes only what changed, the three-way comparison of baseline, host and staging for every path,
  and the installation of a host file.  A baseline and its conflicts are those of \<open>executor/state.py\<close>.
\<close>

section \<open>Data\<close>

record conflict =
  cf_path :: string
  base_sha256 :: "string option"
  host_sha256 :: "string option"
  staged_sha256 :: "string option"

record baseline =
  bl_snapshot :: baseline_snapshot
  bl_conflicts :: "(string \<times> conflict) list"

record host_file =
  hf_sha256 :: string
  hf_size :: int
  hf_mode :: int
  hf_signature :: "int \<times> int"

record rebase_report =
  absorbed :: "string list"
  conflicting :: "string list"
  resolved :: "string list"

section \<open>The host files\<close>

text \<open>The digest of a file is reused while its size and modification time are the recorded ones.\<close>

definition host_digest :: "(string \<Rightarrow> string) \<Rightarrow> baseline_snapshot \<Rightarrow> string \<Rightarrow> int \<times> int \<Rightarrow> string \<Rightarrow> string" where
  "host_digest h previous relative sig c =
     (case map_of (hashes previous) relative of
        Some d \<Rightarrow> if map_of (source_signatures previous) relative = Some sig then d else h c
      | None \<Rightarrow> h c)"

record host_state =
  hs_files :: "(string \<times> host_file) list"
  hs_total :: int

definition host_one ::
  "string list \<Rightarrow> (string \<Rightarrow> string) \<Rightarrow> (string \<Rightarrow> int) \<Rightarrow> executor_config \<Rightarrow> baseline_snapshot \<Rightarrow> string \<Rightarrow> string \<times> node \<Rightarrow>
   host_state \<Rightarrow> exn + host_state" where
  "host_one extra h mtimes cfg previous prefix e st =
     (let relative = prefix @ fst e
      in if seed_skipped extra relative then Inr st
         else (case snd e of
             File c m k \<Rightarrow>
               if k > 1 then Inl UnsafePath
               else (let sig = (int (length c), mtimes relative); total = hs_total st + int (length c)
                 in if int (length (hs_files st)) \<ge> limits cfg max_staged_files \<or> total > limits cfg max_staging_bytes
                    then Inl OtherErr
                    else Inr \<lparr>hs_files = AList.update relative
                        \<lparr>hf_sha256 = host_digest h previous relative sig c, hf_size = int (length c), hf_mode = m, hf_signature = sig\<rparr>
                        (hs_files st), hs_total = total\<rparr>)
           | _ \<Rightarrow> Inl UnsafePath))"

definition host_directories :: "string list \<Rightarrow> string \<Rightarrow> string \<times> node \<Rightarrow> (string \<times> node) list \<Rightarrow> exn + (string \<times> node) list" where
  "host_directories extra prefix e retained =
     (let relative = prefix @ fst e
      in if is_link (Some (snd e)) then Inl UnsafePath
         else if seed_skipped extra relative then Inr retained
         else Inr (retained @ [(relative @ ''/'', snd e)]))"

definition host_level ::
  "string list \<Rightarrow> (string \<Rightarrow> string) \<Rightarrow> (string \<Rightarrow> int) \<Rightarrow> executor_config \<Rightarrow> baseline_snapshot \<Rightarrow> string \<Rightarrow> (string \<times> node) list \<Rightarrow>
   host_state \<Rightarrow> exn + (string \<times> node) list \<times> host_state" where
  "host_level extra h mtimes cfg previous prefix es st =
     rbind (fold_res (host_directories extra prefix)
              (sort_key fst (filter (\<lambda>e. walks_as_dir (snd e)) es)) []) (\<lambda>retained.
     rbind (fold_res (host_one extra h mtimes cfg previous prefix)
              (sort_key fst (filter (\<lambda>e. \<not> walks_as_dir (snd e)) es)) st) (\<lambda>st'.
       Inr (retained, st')))"

lemma host_directories_Inr:
  assumes "fold_res (host_directories extra prefix) xs r = Inr r'"
  shows "r' = r @ map (\<lambda>e. (prefix @ fst e @ ''/'', snd e)) (filter (\<lambda>e. \<not> seed_skipped extra (prefix @ fst e)) xs)"
  using assms
proof (induction xs arbitrary: r)
  case (Cons e xs)
  from Cons.prems obtain r1 where s: "host_directories extra prefix e r = Inr r1"
    "fold_res (host_directories extra prefix) xs r1 = Inr r'" by auto
  have "r1 = r @ (if seed_skipped extra (prefix @ fst e) then [] else [(prefix @ fst e @ ''/'', snd e)])"
    using s(1) by (auto simp: host_directories_def Let_def split: if_splits)
  with Cons.IH[OF s(2)] show ?case by auto
qed simp

lemma host_level_smaller:
  assumes "host_level extra h mtimes cfg previous prefix es st = Inr (retained, st')"
  shows "stack_size retained < size (Dir es)"
proof -
  from assms have "fold_res (host_directories extra prefix) (sort_key fst (filter (\<lambda>e. walks_as_dir (snd e)) es)) [] = Inr retained"
    by (auto simp: host_level_def)
  from host_directories_Inr[OF this] stack_size_sublist[of "\<lambda>e. prefix @ fst e @ ''/''"] show ?thesis by simp
qed

function host_loop ::
  "string list \<Rightarrow> (string \<Rightarrow> string) \<Rightarrow> (string \<Rightarrow> int) \<Rightarrow> executor_config \<Rightarrow> baseline_snapshot \<Rightarrow> (string \<times> node) list \<Rightarrow>
   host_state \<Rightarrow> exn + host_state" where
  "host_loop extra h mtimes cfg previous [] st = Inr st"
| "host_loop extra h mtimes cfg previous ((prefix, n) # pending) st =
     (case host_level extra h mtimes cfg previous prefix (case n of Dir es \<Rightarrow> es | _ \<Rightarrow> []) st of
        Inl e \<Rightarrow> Inl e
      | Inr (retained, st') \<Rightarrow> host_loop extra h mtimes cfg previous (retained @ pending) st')"
  by pat_completeness auto
termination
proof (relation "measure (\<lambda>(extra, h, mtimes, cfg, previous, pending, st). stack_size pending)", goal_cases)
  case (2 extra h mtimes cfg previous prefix n pending st r retained st')
  then have "host_level extra h mtimes cfg previous prefix (case n of Dir es \<Rightarrow> es | _ \<Rightarrow> []) st = Inr (retained, st')"
    by simp
  from host_level_smaller[OF this] have "stack_size retained < Suc (size n)"
    by (cases n) auto
  then show ?case by (simp add: stack_size_def)
qed simp

definition host_files ::
  "string list \<Rightarrow> (string \<Rightarrow> string) \<Rightarrow> (string \<Rightarrow> int) \<Rightarrow> executor_config \<Rightarrow> baseline_snapshot \<Rightarrow> node \<Rightarrow> exn + (string \<times> host_file) list" where
  "host_files extra h mtimes cfg previous source =
     rbind (host_loop extra h mtimes cfg previous [([], source)] \<lparr>hs_files = [], hs_total = 0\<rparr>) (\<lambda>st. Inr (hs_files st))"

section \<open>Installing a host file\<close>

definition remove_staged :: "path \<Rightarrow> node \<Rightarrow> node" where
  "remove_staged p t = (case lookup t p of Some (File c m k) \<Rightarrow> remove_at p t | Some (Link g r) \<Rightarrow> remove_at p t | _ \<Rightarrow> t)"

text \<open>\<open>_install\<close>: directories made for the file stay when the copy after them fails.\<close>

definition install :: "fs_env \<Rightarrow> node \<Rightarrow> string \<Rightarrow> host_file option \<Rightarrow> node \<Rightarrow> (exn + unit) \<times> node" where
  "install env source s host t =
     (case checked_path env t s of
        Inl e \<Rightarrow> (Inl e, t)
      | Inr p \<Rightarrow>
          (case host of
             None \<Rightarrow> (Inr (), remove_staged p t)
           | Some hf \<Rightarrow>
               (case make_dirs (butlast p) t of
                  Inl e \<Rightarrow> (Inl e, t)
                | Inr t1 \<Rightarrow>
                    (case checked_path env t1 s of
                       Inl e \<Rightarrow> (Inl e, t1)
                     | Inr _ \<Rightarrow>
                         (case lookup source (name_parts s) of
                            Some (File c m k) \<Rightarrow>
                              if sha env c \<noteq> hf_sha256 hf then (Inl (OSErr False), t1)
                              else if is_dir (lookup t1 p) then (Inl IsADirectory, t1)
                              else (Inr (), put p (File c (hf_mode hf) 1) t1)
                          | Some _ \<Rightarrow> (Inl (OSErr False), t1)
                          | None \<Rightarrow> (Inl FileNotFound, t1))))))"

section \<open>Rebasing\<close>

type_synonym entry = "(string \<times> int) option"

definition entry_of :: "string option \<Rightarrow> int option \<Rightarrow> entry" where
  "entry_of d m = (case d of None \<Rightarrow> None | Some h \<Rightarrow> Some (h, case m of Some k \<Rightarrow> k | None \<Rightarrow> 0x1A4))"

definition base_entry :: "baseline_snapshot \<Rightarrow> string \<Rightarrow> entry" where
  "base_entry snap s = entry_of (map_of (hashes snap) s) (map_of (modes snap) s)"

definition host_entry :: "(string \<times> host_file) list \<Rightarrow> string \<Rightarrow> entry" where
  "host_entry host s = map_option (\<lambda>hf. (hf_sha256 hf, hf_mode hf)) (map_of host s)"

definition staged_entry :: "listing \<Rightarrow> string \<Rightarrow> entry" where
  "staged_entry staged s = map_option (\<lambda>(d, z, m). (d, m)) (map_of staged s)"

definition conflict_of :: "string \<Rightarrow> entry \<Rightarrow> entry \<Rightarrow> entry \<Rightarrow> conflict" where
  "conflict_of s b h g = \<lparr>cf_path = s, base_sha256 = map_option fst b, host_sha256 = map_option fst h, staged_sha256 = map_option fst g\<rparr>"

definition adopt :: "(string \<times> host_file) list \<Rightarrow> string \<Rightarrow> baseline_snapshot \<Rightarrow> baseline_snapshot" where
  "adopt host s snap =
     (case map_of host s of
        None \<Rightarrow> snap\<lparr>hashes := AList.delete s (hashes snap), sizes := AList.delete s (sizes snap),
          modes := AList.delete s (modes snap), source_signatures := AList.delete s (source_signatures snap)\<rparr>
      | Some hf \<Rightarrow> snap\<lparr>hashes := AList.update s (hf_sha256 hf) (hashes snap), sizes := AList.update s (hf_size hf) (sizes snap),
          modes := AList.update s (hf_mode hf) (modes snap),
          source_signatures := AList.update s (hf_signature hf) (source_signatures snap)\<rparr>)"

record rebase_state =
  rb_snapshot :: baseline_snapshot
  rb_conflicts :: "(string \<times> conflict) list"
  rb_report :: rebase_report
  rb_work :: node

text \<open>What the branches of the loop have in common.\<close>

definition settled :: "string \<Rightarrow> rebase_state \<Rightarrow> rebase_state" where
  "settled s st = st\<lparr>rb_conflicts := AList.delete s (rb_conflicts st)\<rparr>"

definition note_resolved :: "string \<Rightarrow> rebase_state \<Rightarrow> rebase_state" where
  "note_resolved s st = st\<lparr>rb_report := (rb_report st)\<lparr>resolved := resolved (rb_report st) @ [s]\<rparr>\<rparr>"

definition note_absorbed :: "string \<Rightarrow> rebase_state \<Rightarrow> rebase_state" where
  "note_absorbed s st = st\<lparr>rb_report := (rb_report st)\<lparr>absorbed := absorbed (rb_report st) @ [s]\<rparr>\<rparr>"

definition adopted :: "(string \<times> host_file) list \<Rightarrow> string \<Rightarrow> rebase_state \<Rightarrow> rebase_state" where
  "adopted host s st = settled s (st\<lparr>rb_snapshot := adopt host s (rb_snapshot st)\<rparr>)"

definition in_conflict :: "string \<Rightarrow> conflict \<Rightarrow> rebase_state \<Rightarrow> rebase_state" where
  "in_conflict s cf st = st\<lparr>rb_conflicts := AList.update s cf (rb_conflicts st),
     rb_report := (rb_report st)\<lparr>conflicting := conflicting (rb_report st) @ [s]\<rparr>\<rparr>"

definition same_as_before :: "(string \<times> host_file) list \<Rightarrow> string \<Rightarrow> rebase_state \<Rightarrow> rebase_state" where
  "same_as_before host s st =
     (let st1 = (case map_of host s of None \<Rightarrow> st
          | Some hf \<Rightarrow> st\<lparr>rb_snapshot := (rb_snapshot st)\<lparr>source_signatures :=
              AList.update s (hf_signature hf) (source_signatures (rb_snapshot st))\<rparr>\<rparr>)
      in case map_of (rb_conflicts st1) s of None \<Rightarrow> st1 | Some _ \<Rightarrow> note_resolved s (settled s st1))"

text \<open>The loop body for one path.\<close>

definition rebase_path ::
  "fs_env \<Rightarrow> node \<Rightarrow> (string \<times> host_file) list \<Rightarrow> listing \<Rightarrow> string list \<Rightarrow> string list \<Rightarrow> string \<Rightarrow>
   rebase_state \<Rightarrow> (exn + unit) \<times> rebase_state" where
  "rebase_path env source host staged keep taken s st =
     (let b = base_entry (rb_snapshot st) s; h = host_entry host s; g = staged_entry staged s
      in if s \<in> set taken then
           (case install env source s (map_of host s) (rb_work st) of
              (Inl e, w) \<Rightarrow> (Inl e, st\<lparr>rb_work := w\<rparr>)
            | (Inr _, w) \<Rightarrow> (Inr (), note_resolved s (adopted host s (st\<lparr>rb_work := w\<rparr>))))
         else if s \<in> set keep then (Inr (), note_resolved s (adopted host s st))
         else if h = b then (Inr (), same_as_before host s st)
         else if g = h then (Inr (), note_absorbed s (adopted host s st))
         else if g = b then
           (case install env source s (map_of host s) (rb_work st) of
              (Inl e, w) \<Rightarrow>
                if e = UnsafePath \<or> is_os_error e
                then (Inr (), in_conflict s (conflict_of s b h g) (st\<lparr>rb_work := w\<rparr>))
                else (Inl e, st\<lparr>rb_work := w\<rparr>)
            | (Inr _, w) \<Rightarrow> (Inr (), note_absorbed s (adopted host s (st\<lparr>rb_work := w\<rparr>))))
         else (Inr (), in_conflict s (conflict_of s b h g) st))"

fun rebase_loop ::
  "fs_env \<Rightarrow> node \<Rightarrow> (string \<times> host_file) list \<Rightarrow> listing \<Rightarrow> string list \<Rightarrow> string list \<Rightarrow> string list \<Rightarrow>
   rebase_state \<Rightarrow> (exn + unit) \<times> rebase_state" where
  "rebase_loop env source host staged keep taken [] st = (Inr (), st)"
| "rebase_loop env source host staged keep taken (s # ss) st =
     sbind (rebase_path env source host staged keep taken s st) (\<lambda>_. rebase_loop env source host staged keep taken ss)"

definition normalize_all :: "fs_env \<Rightarrow> string list \<Rightarrow> exn + string list" where
  "normalize_all env = map_res (normalize_relative (nfc env) (extra_globs env) False)"

text \<open>The state at the start of the loop and the paths it visits.\<close>

definition rebase_start :: "baseline \<Rightarrow> node \<Rightarrow> rebase_state" where
  "rebase_start bl work = \<lparr>rb_snapshot = bl_snapshot bl, rb_conflicts = bl_conflicts bl,
     rb_report = \<lparr>absorbed = [], conflicting = [], resolved = []\<rparr>, rb_work = work\<rparr>"

definition rebase_paths :: "(string \<times> host_file) list \<Rightarrow> baseline \<Rightarrow> string list" where
  "rebase_paths host bl = sort_paths (map fst host @ map fst (hashes (bl_snapshot bl)) @ map fst (bl_conflicts bl))"

definition rebased :: "string \<Rightarrow> rebase_state \<Rightarrow> baseline \<times> rebase_report" where
  "rebased fresh st =
     (let changed = absorbed (rb_report st) \<noteq> [] \<or> resolved (rb_report st) \<noteq> []; snap = rb_snapshot st
      in (\<lparr>bl_snapshot = snap\<lparr>snapshot_id := (if changed then fresh else snapshot_id snap),
             total_bytes := sum_list (map snd (sizes snap))\<rparr>, bl_conflicts = rb_conflicts st\<rparr>, rb_report st))"

definition rebase ::
  "fs_env \<Rightarrow> (string \<Rightarrow> int) \<Rightarrow> executor_config \<Rightarrow> string \<Rightarrow> node \<Rightarrow> baseline \<Rightarrow> string list \<Rightarrow> string list \<Rightarrow> node \<Rightarrow>
   (exn + baseline \<times> rebase_report) \<times> node" where
  "rebase env mtimes cfg fresh source bl keep_staged take_host work =
     (case rbind (normalize_all env keep_staged) (\<lambda>keep. rbind (normalize_all env take_host) (\<lambda>taken.
         rbind (ensure (set keep \<union> set taken \<subseteq> fst ` set (bl_conflicts bl) \<and> set keep \<inter> set taken = {})
           (ToolError INVALID_ARGUMENTS)) (\<lambda>_.
         rbind (host_files (extra_globs env) (sha env) mtimes cfg (bl_snapshot bl) source) (\<lambda>host.
           Inr (keep, taken, host))))) of
        Inl e \<Rightarrow> (Inl e, work)
      | Inr (keep, taken, host) \<Rightarrow>
          (case rebase_loop env source host (listing_of (extra_globs env) (sha env) work) keep taken
               (rebase_paths host bl) (rebase_start bl work) of
             (Inl e, st) \<Rightarrow> (Inl e, rb_work st)
           | (Inr _, st) \<Rightarrow> (Inr (rebased fresh st), rb_work st)))"

section \<open>What installing a host file does\<close>

text \<open>A refused or failed installation changes nothing that is seen.\<close>

lemma remove_staged_effect:
  assumes "good_tree t"
  shows "good_tree (remove_staged (name_parts s) t)
    \<and> (\<forall>x. seen ex (remove_staged (name_parts s) t) x = (if x = s then None else seen ex t x))"
proof (cases "leaf (lookup t (name_parts s)) = None")
  case True
  then have "remove_staged (name_parts s) t = t"
    by (auto simp: remove_staged_def leaf_def split: option.splits node.splits)
  with True assms show ?thesis by (simp add: seen_def)
next
  case False
  then have nd: "\<not> is_dir (lookup t (name_parts s))"
    by (cases "lookup t (name_parts s)"; cases "the (lookup t (name_parts s))") auto
  have "remove_staged (name_parts s) t = remove_at (name_parts s) t"
    using False by (auto simp: remove_staged_def leaf_def split: option.splits node.splits)
  then show ?thesis using remove_good[OF assms name_parts_not_Nil nd] remove_seen[OF refl nd] by simp
qed

lemma install_effect:
  assumes "install env source s host t = (r, t')" and "good_tree t" and "proper s"
  shows "good_tree t' \<and> (\<forall>x. x \<noteq> s \<longrightarrow> seen ex t' x = seen ex t x)
    \<and> (case r of Inl e \<Rightarrow> seen ex t' s = seen ex t s
       | Inr _ \<Rightarrow> (case host of
            None \<Rightarrow> seen ex t' s = None
          | Some hf \<Rightarrow> \<exists>c. sha env c = hf_sha256 hf
              \<and> seen ex t' s = (if hidden ex s then None else Some (Inl (c, hf_mode hf)))))"
proof (cases "checked_path env t s")
  case (Inl e)
  with assms show ?thesis by (auto simp: install_def)
next
  case (Inr p)
  from checked_path_proper[OF this assms(3)] Inr have cp: "checked_path env t s = Inr (name_parts s)" by simp
  show ?thesis
  proof (cases host)
    case None
    with assms(1) cp have r: "r = Inr ()" "t' = remove_staged (name_parts s) t" by (auto simp: install_def)
    show ?thesis using remove_staged_effect[OF assms(2), of s ex] unfolding r None by simp
  next
    case (Some hf)
    show ?thesis
    proof (cases "make_dirs (butlast (name_parts s)) t")
      case (Inl e)
      with assms cp Some show ?thesis by (auto simp: install_def)
    next
      case (Inr t1)
      have same: "seen ex t1 x = seen ex t x" for x using make_dirs_seen[OF Inr] by simp
      have g1: "good_tree t1" using make_dirs_good[OF Inr assms(2)] parts_valid[OF assms(3)] by simp
      show ?thesis
      proof (cases r)
        case (Inl e)
        with assms(1) cp Some Inr have "t' = t1"
          by (auto simp: install_def split: sum.splits option.splits node.splits if_splits)
        with Inl g1 same show ?thesis by simp
      next
        case (Inr u)
        with assms(1) cp Some \<open>make_dirs (butlast (name_parts s)) t = Inr t1\<close> obtain c where c: "sha env c = hf_sha256 hf"
          "\<not> is_dir (lookup t1 (name_parts s))" "t' = put (name_parts s) (File c (hf_mode hf) 1) t1"
          by (auto simp: install_def split: sum.splits option.splits node.splits if_splits)
        have d1: "is_dir (lookup t1 (butlast (name_parts s)))"
          by (rule make_dirs_is_dir[OF \<open>make_dirs (butlast (name_parts s)) t = Inr t1\<close>])
        have "good_tree t'" unfolding c(3)
          using put_good[OF g1 name_parts_not_Nil d1 c(2)] parts_valid[OF assms(3)] by simp
        then show ?thesis using put_seen[OF refl d1 c(2), of "File c (hf_mode hf) 1" ex] c(1) Inr Some same
          by (auto simp: c(3))
      qed
    qed
  qed
qed

text \<open>In terms of digests and permission bits.\<close>

lemma install_view:
  assumes "install env source s (map_of host s) t = (r, t')" and "good_tree t" and "proper s"
  shows "good_tree t' \<and> (\<forall>x. file_view env t' x =
    (if x = s \<and> isOK r then (if hidden (extra_globs env) s then None else host_entry host s) else file_view env t x))"
proof (intro conjI allI)
  note e = install_effect[OF assms, of "extra_globs env"]
  then show "good_tree t'" by blast
  fix x
  show "file_view env t' x =
    (if x = s \<and> isOK r then (if hidden (extra_globs env) s then None else host_entry host s) else file_view env t x)"
  proof (cases "x = s \<and> isOK r")
    case True
    then obtain u where "r = Inr u" by (auto simp: isOK_iff)
    with e True show ?thesis
      by (cases "map_of host s") (auto simp: file_view_def host_entry_def seen_def)
  next
    case False
    then have "seen (extra_globs env) t' x = seen (extra_globs env) t x"
      using e by (cases r; cases "x = s") auto
    with False show ?thesis unfolding file_view_def by (simp only: if_False)
  qed
qed

section \<open>The three-way decision\<close>

text \<open>What the loop body decides for a path, from the baseline, the host and the staged entry.\<close>

datatype merge_decision = TakeHost | KeepStaged | Unchanged | Agreed | HostOnly | Diverged

definition decide :: "string list \<Rightarrow> string list \<Rightarrow> string \<Rightarrow> entry \<Rightarrow> entry \<Rightarrow> entry \<Rightarrow> merge_decision" where
  "decide keep taken s b h g =
     (if s \<in> set taken then TakeHost else if s \<in> set keep then KeepStaged else if h = b then Unchanged
      else if g = h then Agreed else if g = b then HostOnly else Diverged)"

text \<open>What becomes of a path: \<open>ok\<close> says whether it could be settled, which only the installation of a
  host file can prevent.\<close>

definition settles :: "merge_decision \<Rightarrow> bool \<Rightarrow> bool" where
  "settles d ok \<longleftrightarrow> (case d of HostOnly \<Rightarrow> ok | Diverged \<Rightarrow> False | _ \<Rightarrow> True)"

definition installs :: "merge_decision \<Rightarrow> bool" where
  "installs d \<longleftrightarrow> d = TakeHost \<or> d = HostOnly"

definition path_outcome ::
  "fs_env \<Rightarrow> merge_decision \<Rightarrow> bool \<Rightarrow> string \<Rightarrow> entry \<Rightarrow> entry \<Rightarrow> entry \<Rightarrow>
   entry \<times> conflict option \<times> entry" where
  "path_outcome env d ok s b h g =
     (if settles d ok then (h, None, if installs d then (if hidden (extra_globs env) s then None else h) else g)
      else (b, Some (conflict_of s b h g), g))"

text \<open>The state of one path in the loop.\<close>

definition path_state :: "fs_env \<Rightarrow> rebase_state \<Rightarrow> string \<Rightarrow> entry \<times> conflict option \<times> entry" where
  "path_state env st s = (base_entry (rb_snapshot st) s, map_of (rb_conflicts st) s, file_view env (rb_work st) s)"

lemma base_entry_adopt:
  "base_entry (adopt host s snap) x = (if x = s then host_entry host s else base_entry snap x)"
  by (auto simp: base_entry_def entry_of_def adopt_def host_entry_def map_of_update map_of_delete split: option.splits)

lemma state_steps [simp]:
  "path_state env (settled s st) x =
     (if x = s then (base_entry (rb_snapshot st) s, None, file_view env (rb_work st) s) else path_state env st x)"
  "path_state env (note_resolved s st) = path_state env st"
  "path_state env (note_absorbed s st) = path_state env st"
  "path_state env (adopted host s st) x =
     (if x = s then (host_entry host s, None, file_view env (rb_work st) s) else path_state env st x)"
  "path_state env (in_conflict s cf st) x =
     (if x = s then (base_entry (rb_snapshot st) s, Some cf, file_view env (rb_work st) s) else path_state env st x)"
  "rb_work (settled s st) = rb_work st" "rb_work (note_resolved s st) = rb_work st"
  "rb_work (note_absorbed s st) = rb_work st" "rb_work (adopted host s st) = rb_work st"
  "rb_work (in_conflict s cf st) = rb_work st" "rb_work (same_as_before host s st) = rb_work st"
  by (auto simp: path_state_def settled_def note_resolved_def note_absorbed_def adopted_def in_conflict_def
      same_as_before_def base_entry_adopt map_of_update map_of_delete fun_eq_iff Let_def split: option.splits)

lemma same_as_before_state:
  "path_state env (same_as_before host s st) x =
    (if x = s then (base_entry (rb_snapshot st) s, None, file_view env (rb_work st) s) else path_state env st x)"
  by (auto simp: path_state_def same_as_before_def settled_def note_resolved_def base_entry_def map_of_delete
      Let_def split: option.splits)

lemma path_state_work: "path_state env (st\<lparr>rb_work := w\<rparr>) x =
    (base_entry (rb_snapshot st) x, map_of (rb_conflicts st) x, file_view env w x)"
  by (simp add: path_state_def)

text \<open>One pass of the loop body decides its path and leaves the other paths alone.\<close>

lemma rebase_path_effect:
  assumes "rebase_path env source host staged keep taken s st = (Inr u, st')"
    and "good_tree (rb_work st)" and "proper s"
    and "file_view env (rb_work st) s = staged_entry staged s"
  shows "good_tree (rb_work st') \<and> (\<forall>x. x \<noteq> s \<longrightarrow> path_state env st' x = path_state env st x)
    \<and> (\<exists>ok. path_state env st' s = path_outcome env
        (decide keep taken s (base_entry (rb_snapshot st) s) (host_entry host s) (staged_entry staged s)) ok s
        (base_entry (rb_snapshot st) s) (host_entry host s) (staged_entry staged s))"
proof -
  let ?b = "base_entry (rb_snapshot st) s" and ?h = "host_entry host s" and ?g = "staged_entry staged s"
  obtain r w where i: "install env source s (map_of host s) (rb_work st) = (r, w)" by fastforce
  note v = install_view[OF i assms(2,3)]
  have b: "path_state env st x = (base_entry (rb_snapshot st) x, map_of (rb_conflicts st) x, file_view env (rb_work st) x)" for x
    by (simp add: path_state_def)
  show ?thesis
  proof (cases "decide keep taken s ?b ?h ?g")
    case TakeHost
    then have t: "s \<in> set taken" by (auto simp: decide_def split: if_splits)
    with assms(1) i obtain u' where r: "r = Inr u'" "st' = note_resolved s (adopted host s (st\<lparr>rb_work := w\<rparr>))"
      by (cases r) (auto simp: rebase_path_def Let_def)
    with v TakeHost show ?thesis
      by (auto simp: path_state_work b path_outcome_def settles_def installs_def)
  next
    case KeepStaged
    then have "s \<notin> set taken" "s \<in> set keep" by (auto simp: decide_def split: if_splits)
    with assms KeepStaged show ?thesis
      by (auto simp: rebase_path_def Let_def path_outcome_def settles_def installs_def)
  next
    case Unchanged
    then have d: "s \<notin> set taken" "s \<notin> set keep" "?h = ?b" by (auto simp: decide_def split: if_splits)
    then have "st' = same_as_before host s st" using assms(1) by (auto simp: rebase_path_def Let_def)
    with assms Unchanged d(3) show ?thesis
      by (auto simp: same_as_before_state path_outcome_def settles_def installs_def)
  next
    case Agreed
    then have d: "s \<notin> set taken" "s \<notin> set keep" "?h \<noteq> ?b" "?g = ?h" by (auto simp: decide_def split: if_splits)
    then have "st' = note_absorbed s (adopted host s st)" using assms(1) by (auto simp: rebase_path_def Let_def)
    with assms Agreed show ?thesis
      by (auto simp: path_outcome_def settles_def installs_def)
  next
    case HostOnly
    then have d: "s \<notin> set taken" "s \<notin> set keep" "?h \<noteq> ?b" "?g \<noteq> ?h" "?g = ?b" by (auto simp: decide_def split: if_splits)
    show ?thesis
    proof (cases r)
      case (Inl e)
      with assms(1) i d have "st' = in_conflict s (conflict_of s ?b ?h ?g) (st\<lparr>rb_work := w\<rparr>)"
        by (auto simp: rebase_path_def Let_def split: if_splits)
      with v Inl assms(4) HostOnly show ?thesis
        by (auto simp: path_state_work b path_outcome_def settles_def installs_def intro!: exI[of _ False])
    next
      case (Inr u')
      with assms(1) i d have "st' = note_absorbed s (adopted host s (st\<lparr>rb_work := w\<rparr>))"
        by (auto simp: rebase_path_def Let_def)
      with v Inr HostOnly show ?thesis
        by (auto simp: path_state_work b path_outcome_def settles_def installs_def intro!: exI[of _ True])
    qed
  next
    case Diverged
    then have d: "s \<notin> set taken" "s \<notin> set keep" "?h \<noteq> ?b" "?g \<noteq> ?h" "?g \<noteq> ?b" by (auto simp: decide_def split: if_splits)
    then have "st' = in_conflict s (conflict_of s ?b ?h ?g) st" using assms(1) by (auto simp: rebase_path_def Let_def)
    with assms Diverged show ?thesis
      by (auto simp: path_outcome_def settles_def)
  qed
qed

text \<open>The loop visits a path once, so every decision is made from the state before the rebase.\<close>

definition merged ::
  "fs_env \<Rightarrow> (string \<times> host_file) list \<Rightarrow> listing \<Rightarrow> string list \<Rightarrow> string list \<Rightarrow> baseline_snapshot \<Rightarrow>
   rebase_state \<Rightarrow> string \<Rightarrow> bool" where
  "merged env host staged keep taken snap st' s \<longleftrightarrow>
     (\<exists>ok. path_state env st' s = path_outcome env
        (decide keep taken s (base_entry snap s) (host_entry host s) (staged_entry staged s)) ok s
        (base_entry snap s) (host_entry host s) (staged_entry staged s))"

lemma merged_cong:
  "base_entry snap1 s = base_entry snap s \<Longrightarrow>
    merged env host staged keep taken snap1 st' s = merged env host staged keep taken snap st' s"
  by (simp add: merged_def)

lemma rebase_loop_effect:
  assumes "rebase_loop env source host staged keep taken ss st = (Inr u, st')"
    and "good_tree (rb_work st)" and "distinct ss" and "\<forall>s\<in>set ss. proper s"
    and "\<forall>s\<in>set ss. file_view env (rb_work st) s = staged_entry staged s"
  shows "good_tree (rb_work st') \<and> (\<forall>x. x \<notin> set ss \<longrightarrow> path_state env st' x = path_state env st x)
    \<and> (\<forall>s\<in>set ss. merged env host staged keep taken (rb_snapshot st) st' s)"
  using assms
proof (induction ss arbitrary: st)
  case (Cons s ss)
  from Cons.prems(1) obtain u1 st1 where s: "rebase_path env source host staged keep taken s st = (Inr u1, st1)"
    "rebase_loop env source host staged keep taken ss st1 = (Inr u, st')" by auto
  from rebase_path_effect[OF s(1) Cons.prems(2)] Cons.prems(4,5) have e: "good_tree (rb_work st1)"
    "\<And>x. x \<noteq> s \<Longrightarrow> path_state env st1 x = path_state env st x"
    "merged env host staged keep taken (rb_snapshot st) st1 s" by (simp_all add: merged_def)
  have other: "base_entry (rb_snapshot st1) x = base_entry (rb_snapshot st) x"
    "file_view env (rb_work st1) x = file_view env (rb_work st) x" if "x \<noteq> s" for x
    using e(2)[OF that] by (simp_all add: path_state_def)
  have ne: "x \<noteq> s" if "x \<in> set ss" for x using Cons.prems(3) that by auto
  have ih: "good_tree (rb_work st')" "\<And>x. x \<notin> set ss \<Longrightarrow> path_state env st' x = path_state env st1 x"
    "\<And>x. x \<in> set ss \<Longrightarrow> merged env host staged keep taken (rb_snapshot st1) st' x"
    using Cons.IH[OF s(2) e(1)] Cons.prems(3-5) other(2) ne by simp_all
  have "s \<notin> set ss" using Cons.prems(3) by simp
  with ih(2) e(3) have "merged env host staged keep taken (rb_snapshot st) st' s" by (simp add: merged_def)
  moreover have "merged env host staged keep taken (rb_snapshot st) st' x" if "x \<in> set ss" for x
    using ih(3)[OF that] merged_cong[OF other(1)[OF ne[OF that]]] by simp
  ultimately show ?case using ih(1,2) e(2) by simp
qed simp

section \<open>What the walk of the host finds\<close>

text \<open>What the walk records of a host file that may be staged, and its digest and permission bits.\<close>

definition source_file :: "string list \<Rightarrow> (string \<Rightarrow> string) \<Rightarrow> (string \<Rightarrow> int) \<Rightarrow> node \<Rightarrow> string \<Rightarrow> host_file option" where
  "source_file extra h mtimes source s =
     (if seed_skipped extra s then None
      else (case lookup source (name_parts s) of
          Some (File c m k) \<Rightarrow> Some \<lparr>hf_sha256 = h c, hf_size = int (length c), hf_mode = m,
            hf_signature = (int (length c), mtimes s)\<rparr>
        | _ \<Rightarrow> None))"

definition source_entry :: "string list \<Rightarrow> (string \<Rightarrow> string) \<Rightarrow> node \<Rightarrow> string \<Rightarrow> entry" where
  "source_entry extra h source s =
     (if seed_skipped extra s then None
      else (case lookup source (name_parts s) of Some (File c m k) \<Rightarrow> Some (h c, m) | _ \<Rightarrow> None))"

lemma source_entry_file:
  "source_entry extra h source s = map_option (\<lambda>hf. (hf_sha256 hf, hf_mode hf)) (source_file extra h mtimes source s)"
  by (auto simp: source_entry_def source_file_def split: option.split node.split)

text \<open>A file with the recorded size and modification time has the recorded content.\<close>

definition signatures_sound :: "(string \<Rightarrow> string) \<Rightarrow> (string \<Rightarrow> int) \<Rightarrow> baseline_snapshot \<Rightarrow> node \<Rightarrow> bool" where
  "signatures_sound h mtimes previous source \<longleftrightarrow>
     (\<forall>s c m k d. lookup source (name_parts s) = Some (File c m k)
        \<longrightarrow> map_of (source_signatures previous) s = Some (int (length c), mtimes s)
        \<longrightarrow> map_of (hashes previous) s = Some d \<longrightarrow> d = h c)"

lemma host_digest_sound:
  assumes "signatures_sound h mtimes previous source" and "lookup source (name_parts s) = Some (File c m k)"
  shows "host_digest h previous s (int (length c), mtimes s) c = h c"
  using assms unfolding signatures_sound_def host_digest_def by (auto split: option.splits)

lemma posix_parts_valid: "q \<noteq> [] \<Longrightarrow> list_all valid_name q \<Longrightarrow> posix_parts (join ''/'' q) = q"
  by (rule posix_parts_relative) (auto simp: list_all_iff valid_name_def)

lemma skipped_above:
  assumes "list_all valid_name (a @ b)" and "a \<noteq> []" and "seed_skipped extra (join ''/'' a)"
  shows "seed_skipped extra (join ''/'' (a @ b))"
proof -
  have "posix_parts (join ''/'' a) = a" "posix_parts (join ''/'' (a @ b)) = a @ b"
    using assms(1,2) by (auto intro!: posix_parts_valid)
  with assms(3) show ?thesis by (auto simp: seed_skipped_def is_secret_path_def is_staging_excluded_def)
qed

text \<open>The paths of the files among some entries of a directory.\<close>

definition file_here :: "string list \<Rightarrow> string \<Rightarrow> (string \<times> node) list \<Rightarrow> string \<Rightarrow> bool" where
  "file_here extra pre es s \<longleftrightarrow> \<not> seed_skipped extra s \<and> (\<exists>x c m k. (x, File c m k) \<in> set es \<and> s = pre @ x)"

lemma file_here_Cons:
  "file_here extra pre ((x, n) # es) s \<longleftrightarrow>
    (\<not> seed_skipped extra s \<and> (\<exists>c m k. n = File c m k) \<and> s = pre @ x) \<or> file_here extra pre es s"
  unfolding file_here_def by (simp only: set_simps insert_iff prod.inject) blast

text \<open>The paths of the files below pending directories that are not skipped.\<close>

definition found :: "string list \<Rightarrow> (string \<times> node) list \<Rightarrow> string \<Rightarrow> bool" where
  "found extra pending s \<longleftrightarrow> \<not> seed_skipped extra s \<and>
     (\<exists>d\<in>set pending. \<exists>q c m k. q \<noteq> [] \<and> s = fst d @ join ''/'' q \<and> lookup (snd d) q = Some (File c m k))"

lemma found_append: "found extra (xs @ ys) s \<longleftrightarrow> found extra xs s \<or> found extra ys s"
  unfolding found_def set_append by blast

lemma host_files_of_level:
  assumes "fold_res (host_one extra h mtimes cfg previous pre) xs st = Inr st'" and "set xs \<subseteq> set es"
    and "at_directory source source pre (Dir es)" and "wf_node source" and "signatures_sound h mtimes previous source"
  shows "map_of (hs_files st') s =
    (if file_here extra pre xs s
     then source_file extra h mtimes source s else map_of (hs_files st) s)"
  using assms(1,2)
proof (induction xs arbitrary: st)
  case (Cons e xs)
  obtain x n where e: "e = (x, n)" by (cases e)
  from Cons.prems obtain st1 where s1: "host_one extra h mtimes cfg previous pre e st = Inr st1"
    "fold_res (host_one extra h mtimes cfg previous pre) xs st1 = Inr st'" by auto
  have "\<exists>d. name_parts (pre @ x) = d @ [x] \<and> lookup source (d @ [x]) = Some n"
    using at_directory_entry[OF assms(3,4), of x n] Cons.prems(2) e by auto
  then have l: "lookup source (name_parts (pre @ x)) = Some n" by auto
  have "map_of (hs_files st1) s =
      (if \<not> seed_skipped extra s \<and> (\<exists>c m k. n = File c m k) \<and> s = pre @ x
       then source_file extra h mtimes source s else map_of (hs_files st) s)"
  proof (cases "seed_skipped extra (pre @ x)")
    case True
    with s1(1) have "st1 = st" by (simp add: host_one_def e)
    with True show ?thesis by auto
  next
    case False
    with s1(1) obtain c m k where n: "n = File c m k"
      by (auto simp: host_one_def e Let_def split: node.splits if_splits)
    with s1(1) False have st1: "hs_files st1 = AList.update (pre @ x)
        \<lparr>hf_sha256 = h c, hf_size = int (length c), hf_mode = m, hf_signature = (int (length c), mtimes (pre @ x))\<rparr> (hs_files st)"
      using host_digest_sound[OF assms(5) l[unfolded n]]
      by (auto simp: host_one_def e Let_def split: if_splits)
    show ?thesis using False l n by (auto simp: st1 map_of_update source_file_def)
  qed
  then show ?case using Cons.IH[OF s1(2)] Cons.prems(2) by (auto simp: e file_here_Cons)
qed (simp add: file_here_def)

lemma host_directories_real:
  assumes "fold_res (host_directories extra prefix) xs r = Inr r'"
  shows "\<forall>e\<in>set xs. \<not> is_link (Some (snd e))"
  using assms
proof (induction xs arbitrary: r)
  case (Cons e xs)
  from Cons.prems obtain r1 where s: "host_directories extra prefix e r = Inr r1"
    "fold_res (host_directories extra prefix) xs r1 = Inr r'" by auto
  from s(1) have "\<not> is_link (Some (snd e))" by (auto simp: host_directories_def Let_def split: if_splits)
  with Cons.IH[OF s(2)] show ?case by simp
qed simp

lemma wf_lookup: "wf_node t \<Longrightarrow> lookup t d = Some n \<Longrightarrow> wf_node n"
proof (induction t d rule: lookup.induct)
  case (2 es p ps)
  then show ?case using wf_child[OF 2(2)] by (auto split: option.splits)
qed auto

lemma join_append: "a \<noteq> [] \<Longrightarrow> r \<noteq> [] \<Longrightarrow> join s (a @ r) = join s a @ s @ join s r"
proof (induction a)
  case (Cons x a)
  then show ?case by (cases "a = []") (simp_all add: join_Cons)
qed simp

text \<open>The files below a directory are the ones in it and those below the directories it retains.\<close>

lemma found_level:
  assumes "at_directory source source pre (Dir es)" and "wf_node source"
  shows "found extra [(pre, Dir es)] s \<longleftrightarrow>
    file_here extra pre es s
    \<or> found extra (map (\<lambda>e. (pre @ fst e @ ''/'', snd e))
        (filter (\<lambda>e. is_dir (Some (snd e)) \<and> \<not> seed_skipped extra (pre @ fst e)) es)) s"
    (is "?l \<longleftrightarrow> ?here \<or> found extra ?ds s")
proof
  assume ?l
  then obtain q c m k where q: "\<not> seed_skipped extra s" "q \<noteq> []" "s = pre @ join ''/'' q" "lookup (Dir es) q = Some (File c m k)"
    by (auto simp: found_def)
  then obtain x r n where x: "q = x # r" "map_of es x = Some n" "lookup n r = Some (File c m k)"
    by (cases q) (auto split: option.splits)
  then have mem: "(x, n) \<in> set es" by (simp add: map_of_SomeD)
  show "?here \<or> found extra ?ds s"
  proof (cases "r = []")
    case True
    with x q mem show ?thesis by (auto simp: file_here_def)
  next
    case False
    then have dir: "is_dir (Some n)" using x(3) by (cases n; cases r) auto
    obtain d where d: "name_parts (pre @ x) = d @ [x]" "lookup source (d @ [x]) = Some n"
      "list_all valid_name (d @ [x])" "pre @ x @ ''/'' = join ''/'' (d @ [x]) @ ''/''"
      using at_directory_entry[OF assms mem] by auto
    have "lookup source ((d @ [x]) @ r) = Some (File c m k)"
      using d(2) x(3) by (simp only: lookup_append[of source "d @ [x]"] option.case)
    then have "list_all valid_name ((d @ [x]) @ r)" using lookup_valid[OF assms(2), of "(d @ [x]) @ r"] by simp
    moreover have "pre @ x = join ''/'' (d @ [x])" using d(4) by (simp add: append_eq_append_conv2 append_assoc[symmetric] del: append_assoc)
    moreover have "s = join ''/'' ((d @ [x]) @ r)"
      using q(3) x(1) False d(4) join_append[of "d @ [x]" r "''/''"] by (simp add: join_Cons)
    ultimately have "\<not> seed_skipped extra (pre @ x)" using skipped_above[of "d @ [x]" r extra] q(1) by auto
    moreover have "s = (pre @ x @ ''/'') @ join ''/'' r" using q(3) x(1) False by (simp add: join_Cons)
    ultimately have "found extra ?ds s"
      unfolding found_def using q(1) mem dir False x(3)
      by (intro conjI bexI[of _ "(pre @ x @ ''/'', n)"]) (auto intro!: rev_image_eqI[of "(x, n)"])
    then show ?thesis ..
  qed
next
  assume "?here \<or> found extra ?ds s"
  have map_of: "map_of es x = Some n" if "(x, n) \<in> set es" for x n
    using wf_lookup[OF assms(2)] assms(1) that unfolding at_directory_def by (fastforce intro: map_of_is_SomeI)
  from \<open>?here \<or> found extra ?ds s\<close> show ?l
  proof
    assume ?here
    then obtain x c m k where x: "\<not> seed_skipped extra s" "(x, File c m k) \<in> set es" "s = pre @ x" by (auto simp: file_here_def)
    then show ?l unfolding found_def using map_of[OF x(2)] by (auto intro!: exI[of _ "[x]"])
  next
    assume "found extra ?ds s"
    then obtain x n q c m k where x: "\<not> seed_skipped extra s" "(x, n) \<in> set es" "q \<noteq> []"
      "s = (pre @ x @ ''/'') @ join ''/'' q" "lookup n q = Some (File c m k)" by (auto simp: found_def)
    then show ?l unfolding found_def using map_of[OF x(2)] by (auto simp: join_Cons intro!: exI[of _ "x # q"])
  qed
qed

text \<open>A level of the walk: what it retains is real and lies in the source again.\<close>

lemma host_level_effect:
  assumes "host_level extra h mtimes cfg previous pre es st = Inr (retained, st')"
    and "at_directory source source pre (Dir es)" and "wf_node source" and "signatures_sound h mtimes previous source"
  shows "(\<forall>(p, n)\<in>set retained. at_directory source source p n)
    \<and> (\<forall>s. map_of (hs_files st') s = (if file_here extra pre es s then source_file extra h mtimes source s
          else map_of (hs_files st) s))
    \<and> (\<forall>s. found extra [(pre, Dir es)] s \<longleftrightarrow> file_here extra pre es s \<or> found extra retained s)"
proof -
  let ?ds = "sort_key fst (filter (\<lambda>e. walks_as_dir (snd e)) es)"
  let ?fs = "sort_key fst (filter (\<lambda>e. \<not> walks_as_dir (snd e)) es)"
  from assms(1) have f: "fold_res (host_directories extra pre) ?ds [] = Inr retained"
    "fold_res (host_one extra h mtimes cfg previous pre) ?fs st = Inr st'" by (auto simp: host_level_def)
  have real: "walks_as_dir n \<longleftrightarrow> is_dir (Some n)" if "(x, n) \<in> set es" for x n
  proof (cases "walks_as_dir n")
    case True
    then have "(x, n) \<in> set ?ds" using that by simp
    then have "\<not> is_link (Some n)" using host_directories_real[OF f(1)] by fastforce
    with True show ?thesis by (cases n) (auto simp: walks_as_dir_def is_link_def)
  next
    case False
    then show ?thesis by (cases n) (simp_all add: walks_as_dir_def)
  qed
  have ret: "set retained = set (map (\<lambda>e. (pre @ fst e @ ''/'', snd e))
      (filter (\<lambda>e. is_dir (Some (snd e)) \<and> \<not> seed_skipped extra (pre @ fst e)) es))"
    using host_directories_Inr[OF f(1)] real by force
  have "at_directory source source p n" if "(p, n) \<in> set retained" for p n
  proof -
    from that ret obtain x where x: "p = pre @ x @ ''/''" "(x, n) \<in> set es" "is_dir (Some n)" by auto
    obtain d where d: "lookup source (d @ [x]) = Some n" "list_all valid_name (d @ [x])"
      "pre @ x @ ''/'' = join ''/'' (d @ [x]) @ ''/''"
      using at_directory_entry[OF assms(2,3) x(2)] by blast
    have "shape source (d @ [x]) = Some (Dir [])" using d(1) x(3) by (simp flip: is_dir_shape)
    with d x(1,3) show ?thesis unfolding at_directory_def by (intro exI[of _ "d @ [x]"]) simp
  qed
  moreover have "file_here extra pre ?fs s = file_here extra pre es s" for s
    unfolding file_here_def using walks_as_dir_def by auto
  moreover have "set ?fs \<subseteq> set es" by auto
  moreover have "found extra retained s = found extra (map (\<lambda>e. (pre @ fst e @ ''/'', snd e))
      (filter (\<lambda>e. is_dir (Some (snd e)) \<and> \<not> seed_skipped extra (pre @ fst e)) es)) s" for s
    unfolding found_def ret ..
  ultimately show ?thesis
    using host_files_of_level[OF f(2) _ assms(2-4)] found_level[OF assms(2,3)] by auto
qed

lemma host_loop_effect:
  assumes "host_loop extra h mtimes cfg previous pending st = Inr st'" and "wf_node source"
    and "signatures_sound h mtimes previous source" and "\<forall>(p, n)\<in>set pending. at_directory source source p n"
  shows "map_of (hs_files st') s =
    (if found extra pending s then source_file extra h mtimes source s else map_of (hs_files st) s)"
  using assms
proof (induction extra h mtimes cfg previous pending st rule: host_loop.induct)
  case (1 extra h mtimes cfg previous st)
  then show ?case by (simp add: found_def)
next
  case (2 extra h mtimes cfg previous pre n pending st)
  from 2(5) have at: "at_directory source source pre n" by simp
  then obtain es where n: "n = Dir es" by (cases n) (auto simp: at_directory_def is_dir_def)
  from 2(2) n obtain r s1 where l: "host_level extra h mtimes cfg previous pre es st = Inr (r, s1)"
    "host_loop extra h mtimes cfg previous (r @ pending) s1 = Inr st'" by (auto split: sum.splits)
  note e = host_level_effect[OF l(1) at[unfolded n] 2(3,4)]
  have "map_of (hs_files st') s =
      (if found extra (r @ pending) s then source_file extra h mtimes source s else map_of (hs_files s1) s)"
  proof (rule 2(1)[of "(r, s1)" r s1])
    show "\<forall>(p, n)\<in>set (r @ pending). at_directory source source p n" using e 2(5) by auto
    show "host_level extra h mtimes cfg previous pre (case n of Dir es \<Rightarrow> es | _ \<Rightarrow> []) st = Inr (r, s1)"
      using l(1) by (simp only: n node.case)
  qed (fact refl l(2) 2(3) 2(4))+
  moreover have "found extra ((pre, n) # pending) s \<longleftrightarrow> found extra [(pre, n)] s \<or> found extra pending s"
    using found_append[of extra "[(pre, n)]" pending s] by (simp only: append.simps)
  ultimately show ?case using e by (simp add: found_append n)
qed

lemma host_files_exact:
  assumes "host_files extra h mtimes cfg previous source = Inr host" and "good_tree source"
    and "signatures_sound h mtimes previous source"
  shows "map_of host = source_file extra h mtimes source"
proof
  fix s
  from assms(1) obtain st where st: "host_loop extra h mtimes cfg previous [([], source)] \<lparr>hs_files = [], hs_total = 0\<rparr> = Inr st"
    "host = hs_files st" by (auto simp: host_files_def)
  have wf: "wf_node source" and dir: "is_dir (Some source)" using assms(2) by (simp_all add: good_tree_def)
  have "at_directory source source [] source" using dir unfolding at_directory_def
    by (intro exI[of _ "[]"]) (cases source; simp add: shape_def)
  with host_loop_effect[OF st(1) wf assms(3), of s]
  have *: "map_of host s = (if found extra [([], source)] s then source_file extra h mtimes source s else None)"
    by (simp add: st(2))
  have "found extra [([], source)] s" if "source_file extra h mtimes source s \<noteq> None"
  proof -
    from that have "\<not> seed_skipped extra s" "\<exists>c m k. lookup source (name_parts s) = Some (File c m k)"
      by (auto simp: source_file_def split: if_splits option.splits node.splits)
    then show ?thesis unfolding found_def by (auto intro!: exI[of _ "name_parts s"])
  qed
  with * show "map_of host s = source_file extra h mtimes source s" by metis
qed

section \<open>The whole rebase\<close>

text \<open>The names of a baseline are names a tree can have.\<close>

definition baseline_names_ok :: "baseline \<Rightarrow> bool" where
  "baseline_names_ok bl \<longleftrightarrow> (\<forall>s\<in>fst ` set (hashes (bl_snapshot bl)) \<union> fst ` set (bl_conflicts bl). proper s)"

lemma base_entry_None: "base_entry snap s = None \<longleftrightarrow> s \<notin> fst ` set (hashes snap)"
  unfolding base_entry_def entry_of_def map_of_eq_None_iff[symmetric] by (simp split: option.split)

lemma host_entry_None: "host_entry host s = None \<longleftrightarrow> s \<notin> fst ` set host"
  by (simp add: host_entry_def map_of_eq_None_iff)

lemma source_entry_proper: "good_tree source \<Longrightarrow> source_entry extra h source s \<noteq> None \<Longrightarrow> proper s"
  using lookup_valid[of source "name_parts s"]
  by (auto simp: source_entry_def good_tree_def proper_def split: if_splits option.splits)

lemma staged_entry_view: "good_tree t \<Longrightarrow> staged_entry (listing_of (extra_globs env) (sha env) t) s = file_view env t s"
  by (auto simp: staged_entry_def listing_seen file_view_def split: option.splits sum.splits)

lemma rebase_parts:
  assumes "rebase env mtimes cfg fresh source bl keep_staged take_host work = (Inr (bl', report), work')"
  obtains keep taken host u st where
    "normalize_all env keep_staged = Inr keep" "normalize_all env take_host = Inr taken"
    "set keep \<union> set taken \<subseteq> fst ` set (bl_conflicts bl)" "set keep \<inter> set taken = {}"
    "host_files (extra_globs env) (sha env) mtimes cfg (bl_snapshot bl) source = Inr host"
    "rebase_loop env source host (listing_of (extra_globs env) (sha env) work) keep taken
       (rebase_paths host bl) (rebase_start bl work) = (Inr u, st)"
    "rebased fresh st = (bl', report)" "work' = rb_work st"
  using assms
  by (auto simp: rebase_def ensure_bind split: sum.splits prod.splits if_splits elim!: rbind_InrE)

text \<open>A path that is in no table is unchanged, so the outcome covers every path.\<close>

lemma rebase_outcome:
  assumes "rebase_loop env source host (listing_of (extra_globs env) (sha env) work) keep taken
       (rebase_paths host bl) (rebase_start bl work) = (Inr u, st)"
    and "good_tree work" and "\<forall>s\<in>set (rebase_paths host bl). proper s"
    and "set keep \<union> set taken \<subseteq> fst ` set (bl_conflicts bl)"
  shows "good_tree (rb_work st) \<and> (\<exists>ok. path_state env st s = path_outcome env
     (decide keep taken s (base_entry (bl_snapshot bl) s) (host_entry host s) (file_view env work s)) ok s
     (base_entry (bl_snapshot bl) s) (host_entry host s) (file_view env work s))"
proof -
  let ?listing = "listing_of (extra_globs env) (sha env) work"
  have "distinct (rebase_paths host bl)" by (simp add: rebase_paths_def)
  moreover have "good_tree (rb_work (rebase_start bl work))" using assms(2) by (simp add: rebase_start_def)
  moreover have "\<forall>s\<in>set (rebase_paths host bl).
      file_view env (rb_work (rebase_start bl work)) s = staged_entry ?listing s"
    using staged_entry_view[OF assms(2)] by (simp add: rebase_start_def)
  ultimately have e: "good_tree (rb_work st)"
    "\<And>x. x \<notin> set (rebase_paths host bl) \<Longrightarrow> path_state env st x = path_state env (rebase_start bl work) x"
    "\<And>x. x \<in> set (rebase_paths host bl) \<Longrightarrow> merged env host ?listing keep taken (bl_snapshot bl) st x"
    using rebase_loop_effect[OF assms(1)] assms(3) by (simp_all add: rebase_start_def)
  show ?thesis
  proof (cases "s \<in> set (rebase_paths host bl)")
    case True
    with e(1,3) show ?thesis by (simp add: merged_def staged_entry_view[OF assms(2)])
  next
    case False
    then have n: "s \<notin> fst ` set host" "s \<notin> fst ` set (hashes (bl_snapshot bl))" "s \<notin> fst ` set (bl_conflicts bl)"
      by (auto simp: rebase_paths_def)
    then have "base_entry (bl_snapshot bl) s = None" "host_entry host s = None" "map_of (bl_conflicts bl) s = None"
      by (simp_all add: base_entry_None host_entry_None map_of_eq_None_iff)
    moreover have "s \<notin> set keep" "s \<notin> set taken" using n(3) assms(4) by auto
    ultimately show ?thesis using e(1) e(2)[OF False]
      by (simp add: decide_def path_outcome_def settles_def installs_def path_state_def rebase_start_def)
  qed
qed

text \<open>The signatures a rebase records are those of the files whose digests it records.\<close>

definition sound_at :: "(string \<Rightarrow> string) \<Rightarrow> (string \<Rightarrow> int) \<Rightarrow> baseline_snapshot \<Rightarrow> node \<Rightarrow> string \<Rightarrow> bool" where
  "sound_at h mtimes previous source s \<longleftrightarrow>
     (\<forall>c m k d. lookup source (name_parts s) = Some (File c m k)
        \<longrightarrow> map_of (source_signatures previous) s = Some (int (length c), mtimes s)
        \<longrightarrow> map_of (hashes previous) s = Some d \<longrightarrow> d = h c)"

lemma signatures_sound_at: "signatures_sound h mtimes previous source \<longleftrightarrow> (\<forall>s. sound_at h mtimes previous source s)"
  by (simp only: signatures_sound_def sound_at_def)

lemma rebase_path_snapshot:
  assumes "rebase_path env source host staged keep taken s st = (r, st')"
  shows "rb_snapshot st' = rb_snapshot st \<or> rb_snapshot st' = adopt host s (rb_snapshot st)
    \<or> (\<exists>hf. map_of host s = Some hf \<and> host_entry host s = base_entry (rb_snapshot st) s
        \<and> rb_snapshot st' = (rb_snapshot st)\<lparr>source_signatures :=
            AList.update s (hf_signature hf) (source_signatures (rb_snapshot st))\<rparr>)"
proof -
  obtain q w where i: "install env source s (map_of host s) (rb_work st) = (q, w)" by fastforce
  have "rb_snapshot (same_as_before host s st) = rb_snapshot st \<or> (\<exists>hf. map_of host s = Some hf
        \<and> rb_snapshot (same_as_before host s st) = (rb_snapshot st)\<lparr>source_signatures :=
            AList.update s (hf_signature hf) (source_signatures (rb_snapshot st))\<rparr>)"
    by (auto simp: same_as_before_def settled_def note_resolved_def Let_def split: option.splits)
  with assms i show ?thesis
    by (cases q) (auto simp: rebase_path_def Let_def settled_def note_resolved_def note_absorbed_def adopted_def
        in_conflict_def split: if_splits)
qed

lemma rebase_path_sound:
  assumes "rebase_path env source host staged keep taken s st = (r, st')"
    and "map_of host = source_file extra h mtimes source"
    and "signatures_sound h mtimes (rb_snapshot st) source"
  shows "signatures_sound h mtimes (rb_snapshot st') source"
  unfolding signatures_sound_at
proof
  fix x
  have old: "sound_at h mtimes (rb_snapshot st) source x" using assms(3) by (simp add: signatures_sound_at)
  have new: "lookup source (name_parts s) = Some (File c m k) \<Longrightarrow> map_of host s = Some hf \<Longrightarrow> hf_sha256 hf = h c" for c m k hf
    unfolding assms(2) by (auto simp: source_file_def split: if_splits)
  from rebase_path_snapshot[OF assms(1)] show "sound_at h mtimes (rb_snapshot st') source x"
  proof (elim disjE exE conjE)
    assume "rb_snapshot st' = adopt host s (rb_snapshot st)"
    with old new show ?thesis
      by (cases "map_of host s") (auto simp: sound_at_def adopt_def map_of_update map_of_delete)
  next
    fix hf assume "map_of host s = Some hf" "host_entry host s = base_entry (rb_snapshot st) s"
      "rb_snapshot st' = (rb_snapshot st)\<lparr>source_signatures :=
            AList.update s (hf_signature hf) (source_signatures (rb_snapshot st))\<rparr>"
    with old new show ?thesis
      by (auto simp: sound_at_def map_of_update host_entry_def base_entry_def entry_of_def split: option.splits)
  qed (use old in simp)
qed

lemma rebase_loop_sound:
  assumes "rebase_loop env source host staged keep taken ss st = (r, st')"
    and "map_of host = source_file extra h mtimes source"
    and "signatures_sound h mtimes (rb_snapshot st) source"
  shows "signatures_sound h mtimes (rb_snapshot st') source"
  using assms(1,3)
proof (induction ss arbitrary: st)
  case (Cons s ss)
  obtain q st1 where s: "rebase_path env source host staged keep taken s st = (q, st1)" by fastforce
  note sound = rebase_path_sound[OF s assms(2) Cons.prems(2)]
  show ?case
  proof (cases q)
    case (Inl e)
    with Cons.prems(1) s sound show ?thesis by simp
  next
    case (Inr u)
    with Cons.prems(1) s have "rebase_loop env source host staged keep taken ss st1 = (r, st')" by simp
    from Cons.IH[OF this sound] show ?thesis .
  qed
qed simp

lemma outcome_of_nothing:
  "path_outcome env (decide keep taken s None None g) ok s None None g = (x, y, z) \<Longrightarrow> x = None \<and> y = None"
  by (auto simp: path_outcome_def settles_def decide_def split: if_splits)

lemma rebased_entries:
  "rebased fresh st = (bl', report) \<Longrightarrow>
    base_entry (bl_snapshot bl') s = base_entry (rb_snapshot st) s \<and> bl_conflicts bl' = rb_conflicts st"
  by (auto simp: rebased_def Let_def base_entry_def)

lemma rebased_tables:
  "rebased fresh st = (bl', report) \<Longrightarrow> hashes (bl_snapshot bl') = hashes (rb_snapshot st)
    \<and> source_signatures (bl_snapshot bl') = source_signatures (rb_snapshot st)"
  by (auto simp: rebased_def Let_def)

lemma rebase_merges:
  assumes "rebase env mtimes cfg fresh source bl keep_staged take_host work = (Inr (bl', report), work')"
    and "good_tree source" and "good_tree work" and "baseline_names_ok bl"
    and "signatures_sound (sha env) mtimes (bl_snapshot bl) source"
  obtains keep taken where "normalize_all env keep_staged = Inr keep" "normalize_all env take_host = Inr taken"
    "good_tree work'" "signatures_sound (sha env) mtimes (bl_snapshot bl') source"
    "\<And>s b h g. b = base_entry (bl_snapshot bl) s \<Longrightarrow> h = source_entry (extra_globs env) (sha env) source s \<Longrightarrow>
      g = file_view env work s \<Longrightarrow>
      \<exists>ok. (base_entry (bl_snapshot bl') s, map_of (bl_conflicts bl') s, file_view env work' s)
         = path_outcome env (decide keep taken s b h g) ok s b h g"
proof -
  obtain keep taken host u st where r: "normalize_all env keep_staged = Inr keep" "normalize_all env take_host = Inr taken"
    "set keep \<union> set taken \<subseteq> fst ` set (bl_conflicts bl)" "set keep \<inter> set taken = {}"
    "host_files (extra_globs env) (sha env) mtimes cfg (bl_snapshot bl) source = Inr host"
    "rebase_loop env source host (listing_of (extra_globs env) (sha env) work) keep taken
       (rebase_paths host bl) (rebase_start bl work) = (Inr u, st)"
    "rebased fresh st = (bl', report)" "work' = rb_work st"
    by (rule rebase_parts[OF assms(1)])
  note files = host_files_exact[OF r(5) assms(2,5)]
  then have host: "host_entry host = source_entry (extra_globs env) (sha env) source"
    by (simp add: fun_eq_iff host_entry_def source_entry_file[where mtimes=mtimes])
  have "proper s" if "s \<in> fst ` set host" for s
    using that source_entry_proper[OF assms(2)] host_entry_None[of host s] unfolding host by blast
  then have "\<forall>s\<in>set (rebase_paths host bl). proper s"
    using assms(4) by (auto simp: rebase_paths_def baseline_names_ok_def)
  note out = rebase_outcome[OF r(6) assms(3) this r(3), unfolded host]
  have eq: "(base_entry (bl_snapshot bl') s, map_of (bl_conflicts bl') s, file_view env work' s) = path_state env st s" for s
    using rebased_entries[OF r(7), of s] by (simp add: path_state_def r(8))
  have "signatures_sound (sha env) mtimes (rb_snapshot st) source"
    using rebase_loop_sound[OF r(6) files] assms(5) by (simp add: rebase_start_def)
  then have "signatures_sound (sha env) mtimes (bl_snapshot bl') source"
    unfolding signatures_sound_def by (simp only: rebased_tables[OF r(7)])
  with out eq r(1,2,8) show thesis by (intro that) auto
qed

text \<open>Claim C11. A rebase is a three-way merge of the baseline, the host and the staging area, path by path and for
  every path: the user's choice first, then "the host did not change it", "both sides agree", "only the
  host changed it" and otherwise a conflict that leaves the baseline and the staged file alone.  A path
  that is settled has the host's entry in the new baseline and no conflict; taking the host's file
  is what changes the staging area, and only a host file that cannot be installed turns such a path into a
  conflict.\<close>

theorem rebase_is_three_way_merge:
  assumes "rebase env mtimes cfg fresh source bl keep_staged take_host work = (Inr (bl', report), work')"
    and "good_tree source" and "good_tree work" and "baseline_names_ok bl"
    and "signatures_sound (sha env) mtimes (bl_snapshot bl) source"
  shows "good_tree work' \<and> baseline_names_ok bl' \<and> signatures_sound (sha env) mtimes (bl_snapshot bl') source
    \<and> (\<exists>keep taken. normalize_all env keep_staged = Inr keep \<and> normalize_all env take_host = Inr taken
       \<and> (\<forall>s. let b = base_entry (bl_snapshot bl) s; h = source_entry (extra_globs env) (sha env) source s;
              g = file_view env work s
            in \<exists>ok. (base_entry (bl_snapshot bl') s, map_of (bl_conflicts bl') s, file_view env work' s)
                 = path_outcome env (decide keep taken s b h g) ok s b h g))"
proof (rule rebase_merges[OF assms])
  fix keep taken
  assume m: "normalize_all env keep_staged = Inr keep" "normalize_all env take_host = Inr taken" "good_tree work'"
    "signatures_sound (sha env) mtimes (bl_snapshot bl') source"
    and out: "\<And>s b h g. b = base_entry (bl_snapshot bl) s \<Longrightarrow> h = source_entry (extra_globs env) (sha env) source s \<Longrightarrow>
      g = file_view env work s \<Longrightarrow>
      \<exists>ok. (base_entry (bl_snapshot bl') s, map_of (bl_conflicts bl') s, file_view env work' s)
         = path_outcome env (decide keep taken s b h g) ok s b h g"
  have "proper s" if "s \<in> fst ` set (hashes (bl_snapshot bl')) \<union> fst ` set (bl_conflicts bl')" for s
  proof -
    have "base_entry (bl_snapshot bl') s \<noteq> None \<or> map_of (bl_conflicts bl') s \<noteq> None"
      using that by (auto simp: base_entry_None map_of_eq_None_iff)
    with out[OF refl refl refl, of s]
    have "base_entry (bl_snapshot bl) s \<noteq> None \<or> source_entry (extra_globs env) (sha env) source s \<noteq> None"
      using outcome_of_nothing[of env keep taken s "file_view env work s"] by metis
    then show ?thesis
      using source_entry_proper[OF assms(2), of "extra_globs env" "sha env" s] assms(4)
      unfolding baseline_names_ok_def base_entry_None by blast
  qed
  then have "baseline_names_ok bl'" by (simp add: baseline_names_ok_def)
  with m out show ?thesis unfolding Let_def by blast
qed

lemma outcome_cases:
  "path_outcome env (decide keep taken s b h g) ok s b h g = (b', cf, g') \<Longrightarrow> s \<notin> set taken \<Longrightarrow>
    (g' = g \<or> g = b \<and> g' = (if hidden (extra_globs env) s then None else h))
    \<and> (b' = h \<and> cf = None \<or> b' = b \<and> g' = g \<and> cf = Some (conflict_of s b h g))"
  by (auto simp: path_outcome_def settles_def installs_def decide_def split: if_splits)

text \<open>A rebase never loses work and never hides a divergence: unless the user chose to take the host's
  file, a staged file changes only where it was still the baseline, and then to the host's file; and the
  new baseline of a path is either the host's entry, with no conflict left, or the old one, and then the path is
  listed as a conflict with the three digests and its staged file is as it was.\<close>

theorem rebase_keeps_staged_work:
  assumes "rebase env mtimes cfg fresh source bl keep_staged take_host work = (Inr (bl', report), work')"
    and "good_tree source" and "good_tree work" and "baseline_names_ok bl"
    and "signatures_sound (sha env) mtimes (bl_snapshot bl) source"
    and "normalize_all env take_host = Inr taken" and "s \<notin> set taken"
    and b: "b = base_entry (bl_snapshot bl) s" and h: "h = source_entry (extra_globs env) (sha env) source s"
  shows "(file_view env work' s = file_view env work s
       \<or> file_view env work s = b \<and> file_view env work' s = (if hidden (extra_globs env) s then None else h))
    \<and> (base_entry (bl_snapshot bl') s = h \<and> map_of (bl_conflicts bl') s = None
       \<or> base_entry (bl_snapshot bl') s = b \<and> file_view env work' s = file_view env work s
         \<and> map_of (bl_conflicts bl') s = Some (conflict_of s b h (file_view env work s)))"
proof -
  from assms(6) rebase_merges[OF assms(1-5)] obtain keep where
    "\<exists>ok. (base_entry (bl_snapshot bl') s, map_of (bl_conflicts bl') s, file_view env work' s)
      = path_outcome env (decide keep taken s b h (file_view env work s)) ok s b h (file_view env work s)"
    using b h by (metis sum.inject(2))
  then show ?thesis using outcome_cases[OF sym assms(7)] by blast
qed

section \<open>Samples\<close>

text \<open>The host changed \<open>a\<close>, both sides changed \<open>b\<close>, and the host put a file where the directory \<open>d\<close> was.\<close>

definition drift_source :: node where
  "drift_source = Dir [(''a'', File ''new'' 0x1A4 1), (''b'', File ''theirs'' 0x1A4 1), (''d'', File ''y'' 0x1A4 1)]"

definition drift_work :: node where
  "drift_work = Dir [(''a'', File ''old'' 0x1A4 1), (''b'', File ''mine'' 0x1A4 1), (''d'', Dir [(''x'', File ''one'' 0x1A4 1)])]"

definition drift_baseline :: baseline where
  "drift_baseline = \<lparr>bl_snapshot = \<lparr>snapshot_id = ''s'',
       hashes = [(''a'', ''#old''), (''b'', ''#base''), (''d/x'', ''#one'')], total_bytes = 10,
       sizes = [(''a'', 3), (''b'', 4), (''d/x'', 3)], modes = [(''a'', 0x1A4), (''b'', 0x1A4), (''d/x'', 0x1A4)],
       source_signatures = [(''a'', (3, 1)), (''b'', (4, 1)), (''d/x'', (3, 1))]\<rparr>, bl_conflicts = []\<rparr>"

definition drift_mtimes :: "string \<Rightarrow> int" where
  "drift_mtimes s = 2"

definition drift_rebase ::
  "baseline \<Rightarrow> string list \<Rightarrow> string list \<Rightarrow> node \<Rightarrow> (exn + baseline \<times> rebase_report) \<times> node" where
  "drift_rebase = rebase plain_env drift_mtimes sample_config ''t'' drift_source"

definition drift_result :: "baseline \<times> rebase_report \<times> node" where
  "drift_result = (case drift_rebase drift_baseline [] [] drift_work of
     (Inr (bl, rep), w) \<Rightarrow> (bl, rep, w) | (Inl e, w) \<Rightarrow> (drift_baseline, \<lparr>absorbed = [], conflicting = [], resolved = []\<rparr>, w))"

lemma drift_rebase_result:
  "drift_rebase drift_baseline [] [] drift_work = (Inr (fst drift_result, fst (snd drift_result)), snd (snd drift_result))"
proof -
  have "case fst (drift_rebase drift_baseline [] [] drift_work) of Inl e \<Rightarrow> False | Inr _ \<Rightarrow> True" by code_simp
  then show ?thesis unfolding drift_result_def by (auto split: sum.splits prod.splits)
qed

lemma drift_names: "proper ''a''" "proper ''b''" "proper ''d''" "proper ''d/x''"
  by code_simp+

lemma drift_good: "good_tree drift_source" "good_tree drift_work" "baseline_names_ok drift_baseline"
  using drift_names by (auto simp: good_tree_def drift_source_def drift_work_def baseline_names_ok_def drift_baseline_def valid_name_def)

lemma drift_signatures: "signatures_sound (sha plain_env) drift_mtimes (bl_snapshot drift_baseline) drift_source"
  by (auto simp: signatures_sound_def drift_baseline_def drift_mtimes_def split: if_splits)

theorem rebase_is_three_way_merge_witness:
  "good_tree (snd (snd drift_result)) \<and> baseline_names_ok (fst drift_result)
   \<and> absorbed (fst (snd drift_result)) = [''a'', ''d/x''] \<and> conflicting (fst (snd drift_result)) = [''b'', ''d'']
   \<and> map fst (bl_conflicts (fst drift_result)) = [''b'', ''d'']"
proof -
  have "absorbed (fst (snd drift_result)) = [''a'', ''d/x'']" "conflicting (fst (snd drift_result)) = [''b'', ''d'']"
    "map fst (bl_conflicts (fst drift_result)) = [''b'', ''d'']" by code_simp+
  with rebase_is_three_way_merge[OF drift_rebase_result[unfolded drift_rebase_def] drift_good drift_signatures]
  show ?thesis by blast
qed

theorem rebase_keeps_staged_work_witness:
  "file_view plain_env (snd (snd drift_result)) ''b'' = Some (''#mine'', 0x1A4)
   \<and> map_of (bl_conflicts (fst drift_result)) ''b'' \<noteq> None"
proof -
  have "normalize_all plain_env [] = Inr []" "''b'' \<notin> set []" by (simp_all add: normalize_all_def)
  note k = rebase_keeps_staged_work[OF drift_rebase_result[unfolded drift_rebase_def] drift_good drift_signatures this refl refl]
  have "base_entry (bl_snapshot drift_baseline) ''b'' \<noteq> file_view plain_env drift_work ''b''"
    and v: "file_view plain_env drift_work ''b'' = Some (''#mine'', 0x1A4)"
      "map_of (bl_conflicts (fst drift_result)) ''b'' \<noteq> None" by code_simp+
  with k have "file_view plain_env (snd (snd drift_result)) ''b'' = file_view plain_env drift_work ''b''" by metis
  with v show ?thesis by simp
qed

text \<open>A file that the host put where a directory was can never be taken: the rebase removes the staged
  files below the directory but not the directory, reports a conflict for the new file, reports it again
  on every later rebase, and fails with \<open>IsADirectoryError\<close> when the user chooses the host's file.  Keeping the
  staged version settles it by recording the host's file in the baseline, so that the next publication
  would delete it.\<close>

theorem host_file_over_directory_stays_in_conflict:
  "case drift_result of (bl, rep, w) \<Rightarrow>
     ''d'' \<in> set (conflicting rep) \<and> lookup w [''d''] = Some (Dir [])
     \<and> (case drift_rebase bl [] [] w of
          (Inr (bl2, rep2), w2) \<Rightarrow> ''d'' \<in> set (conflicting rep2) \<and> w2 = w | (Inl e, w2) \<Rightarrow> False)
     \<and> drift_rebase bl [] [''d''] w = (Inl IsADirectory, w)
     \<and> (case drift_rebase bl [''d''] [] w of
          (Inr (bl3, rep3), w3) \<Rightarrow> map (\<lambda>c. (ch_path c, ch_operation c))
              (workspace_changes (bl_snapshot bl3) (listing_of [] (sha plain_env) w3)) = [(''b'', Update), (''d'', Delete)]
        | (Inl e, w3) \<Rightarrow> False)"
  by code_simp

end
