(* ===== verification/State_Store.thy ===== *)
theory State_Store
  imports Drift
begin

text \<open>
  The persistent state of the executor (\<open>executor/state.py\<close>): the workspace that owns the volume and the
  publication baseline with its conflicts, as JSON documents.  A document is what \<open>json.loads\<close> returns,
  \<open>POther ''inf''\<close> and \<open>POther ''nan''\<close> standing for the numbers that JSON does not have and Python reads, the
  infinite ones and not-a-number.
\<close>

section \<open>Python conversions\<close>

text \<open>\<open>int(s)\<close>: white space around, a sign, and digits with single underscores between them.\<close>

fun digits_value :: "nat \<Rightarrow> string \<Rightarrow> nat option" where
  "digits_value n [] = Some n"
| "digits_value n [c] = (if is_digit c then Some (10 * n + (ord c - 48)) else None)"
| "digits_value n (c # d # cs) =
     (if \<not> is_digit c then None
      else if d = CHR ''_'' then (if cs = [] then None else digits_value (10 * n + (ord c - 48)) cs)
      else digits_value (10 * n + (ord c - 48)) (d # cs))"

definition int_of_text :: "string \<Rightarrow> int option" where
  "int_of_text s =
     (case strip s of
        [] \<Rightarrow> None
      | c # cs \<Rightarrow>
          if c = CHR ''-'' then (if cs = [] then None else map_option (\<lambda>n. - int n) (digits_value 0 cs))
          else if c = CHR ''+'' then (if cs = [] then None else map_option int (digits_value 0 cs))
          else map_option int (digits_value 0 (c # cs)))"

text \<open>\<open>int(v)\<close>: a fraction is cut off, infinity is an \<open>OverflowError\<close>, and a text with more digits than Python
  converts is a \<open>ValueError\<close>.\<close>

definition MAX_INT_DIGITS :: nat where "MAX_INT_DIGITS = 4300"

fun py_int :: "pyval \<Rightarrow> exn + int" where
  "py_int (PInt n) = Inr n"
| "py_int (PBool b) = Inr (if b then 1 else 0)"
| "py_int (PFloat x) = Inr (if x \<ge> 0 then \<lfloor>x\<rfloor> else \<lceil>x\<rceil>)"
| "py_int (PStr s) =
     (if length (filter is_digit s) > MAX_INT_DIGITS then Inl ValueErr
      else case int_of_text s of Some n \<Rightarrow> Inr n | None \<Rightarrow> Inl ValueErr)"
| "py_int (POther s) = (if s = ''inf'' then Inl OverflowErr else Inl ValueErr)"
| "py_int _ = Inl TypeErr"

text \<open>\<open>str(v)\<close>; \<open>shown\<close> is the text of a number with a fraction, a list or a dictionary.\<close>

fun py_str :: "(pyval \<Rightarrow> string) \<Rightarrow> pyval \<Rightarrow> string" where
  "py_str shown (PStr s) = s"
| "py_str shown (PInt n) = str_int n"
| "py_str shown (PBool b) = (if b then ''True'' else ''False'')"
| "py_str shown PNone = ''None''"
| "py_str shown v = shown v"

text \<open>\<open>v[i]\<close> and \<open>v[key]\<close>, with the exceptions of Python.  The keys of a parsed object are texts, so a number is
  never one.\<close>

fun py_index :: "pyval \<Rightarrow> nat \<Rightarrow> exn + pyval" where
  "py_index (PList xs) i = (if i < length xs then Inr (xs ! i) else Inl IndexErr)"
| "py_index (PStr s) i = (if i < length s then Inr (PStr [s ! i]) else Inl IndexErr)"
| "py_index (PDict d) i = Inl KeyErr"
| "py_index _ i = Inl TypeErr"

fun py_lookup :: "pyval \<Rightarrow> string \<Rightarrow> exn + pyval" where
  "py_lookup (PDict d) k = (case map_of d k of Some v \<Rightarrow> Inr v | None \<Rightarrow> Inl KeyErr)"
| "py_lookup _ k = Inl TypeErr"

text \<open>\<open>v.items()\<close> and \<open>for x in v\<close>.\<close>

fun py_items :: "pyval \<Rightarrow> exn + pydict" where
  "py_items (PDict d) = Inr d"
| "py_items _ = Inl AttributeErr"

fun py_iter :: "pyval \<Rightarrow> exn + pyval list" where
  "py_iter (PList xs) = Inr xs"
| "py_iter (PDict d) = Inr (map (\<lambda>e. PStr (fst e)) d)"
| "py_iter (PStr s) = Inr (map (\<lambda>c. PStr [c]) s)"
| "py_iter _ = Inl TypeErr"

section \<open>The volume\<close>

datatype file_doc = Absent | Unreadable | Document pyval

record state_volume =
  identity_file :: file_doc
  baseline_file :: file_doc

definition STATE_SCHEMA :: int where "STATE_SCHEMA = 1"

text \<open>\<open>json.dumps(value, sort_keys=True)\<close>, read again.\<close>

fun sort_keys :: "pyval \<Rightarrow> pyval" where
  "sort_keys (PList xs) = PList (map sort_keys xs)"
| "sort_keys (PDict d) = PDict (sort_key fst (map (\<lambda>e. (fst e, sort_keys (snd e))) d))"
| "sort_keys v = v"

text \<open>\<open>claim\<close>: the volume of another workspace, or one that cannot be read, is a mismatch.\<close>

definition claim_volume :: "string \<Rightarrow> state_volume \<Rightarrow> (exn + bool) \<times> state_volume" where
  "claim_volume wid v =
     (case identity_file v of
        Absent \<Rightarrow> (Inr False, v\<lparr>identity_file := Document (sort_keys (PDict [(''schema'', PInt STATE_SCHEMA), (''workspace_id'', PStr wid)]))\<rparr>)
      | Unreadable \<Rightarrow> (Inl OtherErr, v)
      | Document d \<Rightarrow>
          (case d of
             PDict identity \<Rightarrow> if dget identity ''workspace_id'' = PStr wid then (Inr True, v) else (Inl OtherErr, v)
           | _ \<Rightarrow> (Inl OtherErr, v)))"

section \<open>Saving\<close>

definition is_hex :: "char \<Rightarrow> bool" where
  "is_hex c \<longleftrightarrow> is_digit c \<or> 97 \<le> ord c \<and> ord c \<le> 102"

definition hash_ok :: "string \<Rightarrow> bool" where
  "hash_ok s \<longleftrightarrow> length s = 64 \<and> list_all is_hex s"

definition digest_doc :: "string option \<Rightarrow> pyval" where
  "digest_doc d = (case d of None \<Rightarrow> PNone | Some s \<Rightarrow> PStr s)"

text \<open>\<open>Conflict.to_dict\<close>\<close>

definition conflict_doc :: "conflict \<Rightarrow> pyval" where
  "conflict_doc c = PDict [(''path'', PStr (cf_path c)), (''base_sha256'', digest_doc (conflict.base_sha256 c)),
     (''host_sha256'', digest_doc (host_sha256 c)), (''staged_sha256'', digest_doc (conflict.staged_sha256 c))]"

definition default_to :: "'b \<Rightarrow> 'b option \<Rightarrow> 'b" where
  "default_to d x = (case x of None \<Rightarrow> d | Some y \<Rightarrow> y)"

definition file_row :: "baseline_snapshot \<Rightarrow> string \<times> string \<Rightarrow> string \<times> pyval" where
  "file_row snap e = (fst e, PList [PStr (snd e), PInt (default_to 0 (map_of (sizes snap) (fst e))),
     PInt (default_to 0x1A4 (map_of (modes snap) (fst e)))])"

definition baseline_doc :: "string \<Rightarrow> baseline \<Rightarrow> pyval" where
  "baseline_doc wid b =
     (let snap = bl_snapshot b
      in PDict [(''schema'', PInt STATE_SCHEMA), (''workspace_id'', PStr wid), (''snapshot_id'', PStr (snapshot_id snap)),
        (''files'', PDict (map (file_row snap) (sort_key fst (hashes snap)))),
        (''source_signatures'', PDict (map (\<lambda>e. (fst e, PList [PInt (fst (snd e)), PInt (snd (snd e))]))
            (sort_key fst (source_signatures snap)))),
        (''conflicts'', PList (map (\<lambda>e. conflict_doc (snd e)) (sort_key fst (bl_conflicts b))))])"

definition save_baseline :: "string \<Rightarrow> baseline \<Rightarrow> state_volume \<Rightarrow> state_volume" where
  "save_baseline wid b v = v\<lparr>baseline_file := Document (sort_keys (baseline_doc wid b))\<rparr>"

definition forget_baseline :: "state_volume \<Rightarrow> state_volume" where
  "forget_baseline v = v\<lparr>baseline_file := Absent\<rparr>"

section \<open>Loading\<close>

definition digest_of :: "pyval \<Rightarrow> string option" where
  "digest_of v = (case v of PStr s \<Rightarrow> if hash_ok s then Some s else None | _ \<Rightarrow> None)"

definition read_hash :: "(pyval \<Rightarrow> string) \<Rightarrow> string \<times> pyval \<Rightarrow> exn + string \<times> string" where
  "read_hash shown e = rbind (py_index (snd e) 0) (\<lambda>v. Inr (fst e, py_str shown v))"

definition read_number :: "nat \<Rightarrow> string \<times> pyval \<Rightarrow> exn + string \<times> int" where
  "read_number i e = rbind (py_index (snd e) i) (\<lambda>v. rbind (py_int v) (\<lambda>n. Inr (fst e, n)))"

definition read_signature :: "string \<times> pyval \<Rightarrow> exn + string \<times> (int \<times> int)" where
  "read_signature e =
     rbind (read_number 0 e) (\<lambda>a. rbind (read_number 1 e) (\<lambda>b. Inr (fst e, (snd a, snd b))))"

definition read_conflict :: "(pyval \<Rightarrow> string) \<Rightarrow> pyval \<Rightarrow> exn + string \<times> conflict" where
  "read_conflict shown item =
     rbind (py_lookup item ''path'') (\<lambda>p.
       let d = (case item of PDict d \<Rightarrow> d | _ \<Rightarrow> []); path = py_str shown p
       in Inr (path, \<lparr>cf_path = path, base_sha256 = digest_of (dget d ''base_sha256''),
            host_sha256 = digest_of (dget d ''host_sha256''), staged_sha256 = digest_of (dget d ''staged_sha256'')\<rparr>))"

definition or_else :: "pyval \<Rightarrow> pyval \<Rightarrow> pyval" where
  "or_else v w = (if truthy v then v else w)"

text \<open>The part of \<open>load\<close> inside its \<open>try\<close>.\<close>

definition read_tables ::
  "(pyval \<Rightarrow> string) \<Rightarrow> pydict \<Rightarrow>
   exn + (string \<times> string) list \<times> (string \<times> int) list \<times> (string \<times> int) list \<times> (string \<times> (int \<times> int)) list \<times> (string \<times> conflict) list" where
  "read_tables shown data =
     rbind (py_lookup (PDict data) ''files'') (\<lambda>f. rbind (py_items f) (\<lambda>files.
     rbind (map_res (read_hash shown) files) (\<lambda>hs.
     rbind (map_res (read_number 1) files) (\<lambda>ss.
     rbind (map_res (read_number 2) files) (\<lambda>ms.
     rbind (py_items (or_else (dget data ''source_signatures'') (PDict []))) (\<lambda>sigs.
     rbind (map_res read_signature sigs) (\<lambda>gs.
     rbind (py_iter (or_else (dget data ''conflicts'') (PList []))) (\<lambda>items.
     rbind (map_res (read_conflict shown) items) (\<lambda>cs.
       Inr (dict_of hs, dict_of ss, dict_of ms, dict_of gs, dict_of cs))))))))))"

text \<open>\<open>load\<close>: whatever is missing, unreadable or malformed is no baseline; these are the exceptions that are
  caught.\<close>

definition LOAD_CATCHES :: "exn list" where
  "LOAD_CATCHES = [AttributeErr, KeyErr, IndexErr, TypeErr, ValueErr]"

definition load_baseline :: "(pyval \<Rightarrow> string) \<Rightarrow> state_volume \<Rightarrow> exn + baseline option" where
  "load_baseline shown v =
     (case baseline_file v of
        Document (PDict data) \<Rightarrow>
          if \<not> eq_int (dget data ''schema'') STATE_SCHEMA then Inr None
          else (case read_tables shown data of
              Inl e \<Rightarrow> if e \<in> set LOAD_CATCHES then Inr None else Inl e
            | Inr (hs, ss, ms, gs, cs) \<Rightarrow>
                if \<not> list_all (\<lambda>e. hash_ok (snd e)) hs then Inr None
                else (let i = py_str shown (or_else (dget data ''snapshot_id'') (PStr []))
                  in Inr (if i = [] then None
                    else Some \<lparr>bl_snapshot = \<lparr>snapshot_id = i, hashes = hs, total_bytes = sum_list (map snd ss), sizes = ss,
                       modes = ms, source_signatures = gs\<rparr>, bl_conflicts = cs\<rparr>)))
      | _ \<Rightarrow> Inr None)"

section \<open>Lemmas\<close>

text \<open>A baseline that the code can hold: the tables are dictionaries with the same keys, digests are SHA-256
  texts, and a conflict is filed under its path.\<close>

definition optional_hash_ok :: "string option \<Rightarrow> bool" where
  "optional_hash_ok d \<longleftrightarrow> (case d of None \<Rightarrow> True | Some s \<Rightarrow> hash_ok s)"

definition conflict_ok :: "string \<times> conflict \<Rightarrow> bool" where
  "conflict_ok e \<longleftrightarrow> fst e = cf_path (snd e) \<and> optional_hash_ok (conflict.base_sha256 (snd e))
     \<and> optional_hash_ok (host_sha256 (snd e)) \<and> optional_hash_ok (conflict.staged_sha256 (snd e))"

definition storable :: "baseline \<Rightarrow> bool" where
  "storable b \<longleftrightarrow> snapshot_ok (bl_snapshot b) \<and> snapshot_id (bl_snapshot b) \<noteq> []
     \<and> distinct (map fst (hashes (bl_snapshot b))) \<and> distinct (map fst (sizes (bl_snapshot b)))
     \<and> distinct (map fst (modes (bl_snapshot b))) \<and> distinct (map fst (source_signatures (bl_snapshot b)))
     \<and> list_all (\<lambda>e. hash_ok (snd e)) (hashes (bl_snapshot b))
     \<and> total_bytes (bl_snapshot b) = sum_list (map snd (sizes (bl_snapshot b)))
     \<and> distinct (map fst (bl_conflicts b)) \<and> list_all conflict_ok (bl_conflicts b)"

text \<open>Sorting the keys of a dictionary keeps what it maps.\<close>

lemma mset_map_sort: "mset (map g (sort_key f d)) = mset (map g d)"
  by (simp only: mset_map mset_sort)

lemma distinct_sort_fst: "distinct (map fst (sort_key f d)) = distinct (map fst d)"
  by (rule mset_eq_imp_distinct_iff[OF mset_map_sort])

lemma map_of_sort: "distinct (map fst d) \<Longrightarrow> map_of (sort_key f d) = map_of d"
  by (subst map_of_inject_set) (simp_all add: distinct_sort_fst)

lemma map_of_map_snd: "map_of (map (\<lambda>e. (fst e, f (snd e))) d) k = map_option f (map_of d k)"
  by (induction d) auto

lemma dget_sort_keys:
  assumes "distinct (map fst d)" and "sort_keys (PDict d) = PDict d'"
  shows "dget d' k = (case map_of d k of None \<Rightarrow> PNone | Some v \<Rightarrow> sort_keys v)"
    and "map_of d' k = map_option sort_keys (map_of d k)"
proof -
  have "d' = sort_key fst (map (\<lambda>e. (fst e, sort_keys (snd e))) d)" using assms(2) by simp
  moreover have "distinct (map fst (map (\<lambda>e. (fst e, sort_keys (snd e))) d))" using assms(1) by (simp add: comp_def)
  ultimately show m: "map_of d' k = map_option sort_keys (map_of d k)" by (simp only: map_of_sort map_of_map_snd)
  show "dget d' k = (case map_of d k of None \<Rightarrow> PNone | Some v \<Rightarrow> sort_keys v)"
    by (simp add: dget_def m split: option.split)
qed

lemma sorted_rows: "map fst xs = map fst (sort_key fst ys) \<Longrightarrow> sort_key fst xs = xs"
  by (rule sort_key_id_if_sorted) simp

lemma map_res_rows: "(\<And>x. x \<in> set xs \<Longrightarrow> f (g x) = Inr (k x)) \<Longrightarrow> map_res f (map g xs) = Inr (map k xs)"
  by (induction xs) simp_all

text \<open>Dictionaries built from pairs.\<close>

lemma dict_of_facts: "distinct (map fst (dict_of ps)) \<and> set (dict_of ps) \<subseteq> set ps \<and> fst ` set (dict_of ps) = fst ` set ps"
proof -
  have "distinct (map fst (fold (\<lambda>p d. AList.update (fst p) (snd p) d) ps d0))
      \<and> set (fold (\<lambda>p d. AList.update (fst p) (snd p) d) ps d0) \<subseteq> set d0 \<union> set ps
      \<and> fst ` set (fold (\<lambda>p d. AList.update (fst p) (snd p) d) ps d0) = fst ` set d0 \<union> fst ` set ps"
    if "distinct (map fst d0)" for d0
    using that
  proof (induction ps arbitrary: d0)
    case (Cons p ps)
    have "fst ` set (AList.update (fst p) (snd p) d0) = insert (fst p) (fst ` set d0)"
      by (simp add: dom_update dom_map_of_conv_image_fst[symmetric] map_of_update)
    moreover have "set (AList.update (fst p) (snd p) d0) \<subseteq> insert p (set d0)" using set_update by fastforce
    ultimately show ?case using Cons.IH[of "AList.update (fst p) (snd p) d0"] distinct_update[OF Cons.prems] by auto
  qed simp
  from this[of "[]"] show ?thesis by (simp add: dict_of_def)
qed

lemma distinct_dict_of: "distinct (map fst (dict_of ps))" and set_dict_of: "set (dict_of ps) \<subseteq> set ps"
  using dict_of_facts[of ps] by blast+

lemma dom_dict_of: "dom (map_of (dict_of ps)) = fst ` set ps"
  using dict_of_facts[of ps] by (simp add: dom_map_of_conv_image_fst)

section \<open>Loading what was saved\<close>

lemma file_row_fixed: "sort_keys (snd (file_row snap e)) = snd (file_row snap e)"
  by (simp add: file_row_def)

lemma sort_keys_rows:
  assumes "\<And>e. fst (g e) = fst e \<and> sort_keys (snd (g e)) = snd (g e)"
  shows "sort_keys (PDict (map g (sort_key fst xs))) = PDict (map g (sort_key fst xs))"
proof -
  have "map (\<lambda>e. (fst e, sort_keys (snd e))) (map g (sort_key fst xs)) = map g (sort_key fst xs)"
    using assms by (simp add: prod_eq_iff)
  moreover have "map fst (map g (sort_key fst xs)) = map fst (sort_key fst xs)" using assms by simp
  ultimately show ?thesis
    unfolding sort_keys.simps using sorted_rows[of "map g (sort_key fst xs)" xs] by (simp only:)
qed

lemma digest_roundtrip: "optional_hash_ok d \<Longrightarrow> digest_of (digest_doc d) = d"
  by (auto simp: optional_hash_ok_def digest_of_def digest_doc_def split: option.splits)

lemma digest_doc_fixed: "sort_keys (digest_doc d) = digest_doc d"
  by (simp add: digest_doc_def split: option.split)

lemma conflict_roundtrip:
  assumes "conflict_ok e"
  shows "read_conflict shown (sort_keys (conflict_doc (snd e))) = Inr e"
proof -
  let ?d = "[(''path'', PStr (cf_path (snd e))), (''base_sha256'', digest_doc (conflict.base_sha256 (snd e))),
     (''host_sha256'', digest_doc (host_sha256 (snd e))), (''staged_sha256'', digest_doc (conflict.staged_sha256 (snd e)))]"
  obtain d' where d': "sort_keys (PDict ?d) = PDict d'" by simp
  have "distinct (map fst ?d)" by simp
  note g = dget_sort_keys[OF this d']
  have "map_of d' ''path'' = Some (PStr (cf_path (snd e)))" using g(2)[of "''path''"] by simp
  moreover have "dget d' ''base_sha256'' = digest_doc (conflict.base_sha256 (snd e))"
    "dget d' ''host_sha256'' = digest_doc (host_sha256 (snd e))"
    "dget d' ''staged_sha256'' = digest_doc (conflict.staged_sha256 (snd e))"
    using g(1) by (simp_all add: digest_doc_fixed)
  moreover have "sort_keys (conflict_doc (snd e)) = PDict d'" using d' by (simp only: conflict_doc_def)
  ultimately show ?thesis
    using assms by (cases e) (simp add: read_conflict_def conflict_ok_def digest_roundtrip Let_def)
qed

text \<open>The canonical form in which a baseline comes back.\<close>

definition stored_snapshot :: "baseline_snapshot \<Rightarrow> baseline_snapshot" where
  "stored_snapshot snap = \<lparr>snapshot_id = snapshot_id snap, hashes = sort_key fst (hashes snap), total_bytes = total_bytes snap,
     sizes = map (\<lambda>e. (fst e, default_to 0 (map_of (sizes snap) (fst e)))) (sort_key fst (hashes snap)),
     modes = map (\<lambda>e. (fst e, default_to 0x1A4 (map_of (modes snap) (fst e)))) (sort_key fst (hashes snap)),
     source_signatures = sort_key fst (source_signatures snap)\<rparr>"

lemma map_of_by_key: "map_of (map (\<lambda>e. (fst e, f (fst e))) es) k = (if k \<in> fst ` set es then Some (f k) else None)"
  by (induction es) auto

lemma map_of_defaults:
  assumes "dom (map_of hs) = dom (map_of xs)"
  shows "map_of (map (\<lambda>e. (fst e, default_to d (map_of xs (fst e)))) (sort_key fst hs)) = map_of xs"
proof
  fix k
  have "k \<in> fst ` set hs \<longleftrightarrow> map_of xs k \<noteq> None" using assms by (auto simp: dom_map_of_conv_image_fst[symmetric])
  then show "map_of (map (\<lambda>e. (fst e, default_to d (map_of xs (fst e)))) (sort_key fst hs)) k = map_of xs k"
    using map_of_by_key[of "\<lambda>s. default_to d (map_of xs s)" "sort_key fst hs" k]
    by (cases "map_of xs k") (simp_all add: default_to_def)
qed

lemma sum_defaults:
  assumes "distinct (map fst hs)" and "distinct (map fst xs)" and "dom (map_of hs) = dom (map_of xs)"
  shows "sum_list (map snd (map (\<lambda>e. (fst e, default_to 0 (map_of xs (fst e)))) (sort_key fst hs))) = sum_list (map snd (xs :: (string \<times> int) list))"
proof -
  let ?ys = "map (\<lambda>e. (fst e, default_to 0 (map_of xs (fst e)))) (sort_key fst hs)"
  have d: "distinct (map fst ?ys)" using assms(1) by (simp add: distinct_sort_fst comp_def)
  have "set ?ys = set xs" using map_of_inject_set[OF d assms(2)] map_of_defaults[OF assms(3), of 0] by simp
  moreover have "distinct ?ys" "distinct xs" using d assms(2) by (simp_all only: distinct_map)
  ultimately have "mset ?ys = mset xs" by (metis set_eq_iff_mset_eq_distinct)
  then have "mset (map snd ?ys) = mset (map snd xs)" by (simp only: mset_map)
  then show ?thesis by (metis sum_mset_sum_list)
qed

lemma stored_snapshot_same:
  assumes "storable b"
  defines "snap \<equiv> bl_snapshot b"
  shows "map_of (hashes (stored_snapshot snap)) = map_of (hashes snap)"
    and "map_of (sizes (stored_snapshot snap)) = map_of (sizes snap)"
    and "map_of (modes (stored_snapshot snap)) = map_of (modes snap)"
    and "map_of (source_signatures (stored_snapshot snap)) = map_of (source_signatures snap)"
    and "sum_list (map snd (sizes (stored_snapshot snap))) = total_bytes snap"
proof -
  have d: "distinct (map fst (hashes snap))" "distinct (map fst (sizes snap))" "distinct (map fst (source_signatures snap))"
    "dom (map_of (hashes snap)) = dom (map_of (sizes snap))" "dom (map_of (hashes snap)) = dom (map_of (modes snap))"
    "total_bytes snap = sum_list (map snd (sizes snap))"
    using assms(1) unfolding storable_def snapshot_ok_def snap_def by metis+
  show "map_of (hashes (stored_snapshot snap)) = map_of (hashes snap)"
    using map_of_sort[OF d(1)] by (simp add: stored_snapshot_def)
  show "map_of (sizes (stored_snapshot snap)) = map_of (sizes snap)"
    using map_of_defaults[OF d(4)] by (simp add: stored_snapshot_def)
  show "map_of (modes (stored_snapshot snap)) = map_of (modes snap)"
    using map_of_defaults[OF d(5)] by (simp add: stored_snapshot_def)
  show "map_of (source_signatures (stored_snapshot snap)) = map_of (source_signatures snap)"
    using map_of_sort[OF d(3)] by (simp add: stored_snapshot_def)
  show "sum_list (map snd (sizes (stored_snapshot snap))) = total_bytes snap"
    using sum_defaults[OF d(1,2,4)] d(6) by (simp add: stored_snapshot_def)
qed

text \<open>The top level of the stored document.\<close>

lemma stored_fields:
  assumes "sort_keys (baseline_doc wid b) = PDict d"
  shows "dget d ''schema'' = PInt STATE_SCHEMA" "dget d ''snapshot_id'' = PStr (snapshot_id (bl_snapshot b))"
    "py_lookup (PDict d) ''files'' = Inr (PDict (map (file_row (bl_snapshot b)) (sort_key fst (hashes (bl_snapshot b)))))"
    "dget d ''source_signatures'' = PDict (map (\<lambda>e. (fst e, PList [PInt (fst (snd e)), PInt (snd (snd e))]))
        (sort_key fst (source_signatures (bl_snapshot b))))"
    "dget d ''conflicts'' = PList (map (\<lambda>e. sort_keys (conflict_doc (snd e))) (sort_key fst (bl_conflicts b)))"
proof -
  let ?files = "PDict (map (file_row (bl_snapshot b)) (sort_key fst (hashes (bl_snapshot b))))"
  let ?sigs = "PDict (map (\<lambda>e. (fst e, PList [PInt (fst (snd e)), PInt (snd (snd e))]))
        (sort_key fst (source_signatures (bl_snapshot b))))"
  let ?top = "[(''schema'', PInt STATE_SCHEMA), (''workspace_id'', PStr wid), (''snapshot_id'', PStr (snapshot_id (bl_snapshot b))),
     (''files'', ?files), (''source_signatures'', ?sigs),
     (''conflicts'', PList (map (\<lambda>e. conflict_doc (snd e)) (sort_key fst (bl_conflicts b))))]"
  have "distinct (map fst ?top)" by simp
  moreover have "sort_keys (PDict ?top) = PDict d" using assms by (simp only: baseline_doc_def Let_def)
  ultimately have g: "\<And>k. dget d k = (case map_of ?top k of None \<Rightarrow> PNone | Some v \<Rightarrow> sort_keys v)"
    "\<And>k. map_of d k = map_option sort_keys (map_of ?top k)" by (rule dget_sort_keys)+
  have files: "sort_keys ?files = ?files" by (rule sort_keys_rows) (simp add: file_row_def)
  have sigs: "sort_keys ?sigs = ?sigs" by (rule sort_keys_rows) simp
  show "dget d ''schema'' = PInt STATE_SCHEMA" using g(1)[of "''schema''"] by (simp del: sort_keys.simps(2))
  show "dget d ''snapshot_id'' = PStr (snapshot_id (bl_snapshot b))"
    using g(1)[of "''snapshot_id''"] by (simp del: sort_keys.simps(2))
  show "dget d ''source_signatures'' = ?sigs"
    using g(1)[of "''source_signatures''"] sigs by (simp del: sort_keys.simps(2))
  show "py_lookup (PDict d) ''files'' = Inr ?files"
    using g(2)[of "''files''"] files by (simp del: sort_keys.simps(2))
  show "dget d ''conflicts'' = PList (map (\<lambda>e. sort_keys (conflict_doc (snd e))) (sort_key fst (bl_conflicts b)))"
    using g(1)[of "''conflicts''"] by (simp add: comp_def)
qed

lemma dict_of_rows:
  "distinct (map fst xs) \<Longrightarrow> dict_of (map (\<lambda>e. (fst e, f e)) (sort_key fst xs)) = map (\<lambda>e. (fst e, f e)) (sort_key fst xs)"
  by (rule dict_of_distinct) (simp add: comp_def distinct_sort_fst)

lemma or_else_empty: "py_items (or_else (PDict d) (PDict [])) = Inr d" "py_iter (or_else (PList xs) (PList [])) = Inr xs"
  by (simp_all add: or_else_def)

lemma read_stored_tables:
  assumes "storable b" and "sort_keys (baseline_doc wid b) = PDict d"
  shows "read_tables shown d = Inr (hashes (stored_snapshot (bl_snapshot b)), sizes (stored_snapshot (bl_snapshot b)),
    modes (stored_snapshot (bl_snapshot b)), source_signatures (stored_snapshot (bl_snapshot b)), sort_key fst (bl_conflicts b))"
proof -
  let ?snap = "bl_snapshot b"
  let ?hs = "sort_key fst (hashes ?snap)" and ?gs = "sort_key fst (source_signatures ?snap)" and ?cs = "sort_key fst (bl_conflicts b)"
  have dist: "distinct (map fst (hashes ?snap))" "distinct (map fst (source_signatures ?snap))" "distinct (map fst (bl_conflicts b))"
    and ok: "\<forall>e\<in>set (bl_conflicts b). conflict_ok e"
    using assms(1) by (simp_all add: storable_def list_all_iff)
  have h: "map_res (read_hash shown) (map (file_row ?snap) ?hs) = Inr ?hs"
    using map_res_rows[of ?hs "read_hash shown" "file_row ?snap" "\<lambda>e. e"] by (simp add: read_hash_def file_row_def)
  have s: "map_res (read_number i) (map (file_row ?snap) ?hs) =
      Inr (map (\<lambda>e. (fst e, default_to (if i = 1 then 0 else 0x1A4) (map_of (if i = 1 then sizes ?snap else modes ?snap) (fst e)))) ?hs)"
    if "i = 1 \<or> i = 2" for i
    using that by (intro map_res_rows) (auto simp: read_number_def file_row_def nth_Cons')
  have g: "map_res read_signature (map (\<lambda>e. (fst e, PList [PInt (fst (snd e)), PInt (snd (snd e))])) ?gs) = Inr ?gs"
    using map_res_rows[of ?gs read_signature "\<lambda>e. (fst e, PList [PInt (fst (snd e)), PInt (snd (snd e))])" "\<lambda>e. e"]
    by (simp add: read_signature_def read_number_def)
  have c: "map_res (read_conflict shown) (map (\<lambda>e. sort_keys (conflict_doc (snd e))) ?cs) = Inr ?cs"
    using map_res_rows[of ?cs "read_conflict shown" "\<lambda>e. sort_keys (conflict_doc (snd e))" "\<lambda>e. e"] conflict_roundtrip ok
    by simp
  have "dict_of ?hs = ?hs" "dict_of ?gs = ?gs" "dict_of ?cs = ?cs"
    using dist by (simp_all add: dict_of_distinct distinct_sort_fst)
  note dicts = this dict_of_rows[OF dist(1)]
  have s1: "map_res (read_number 1) (map (file_row ?snap) ?hs) = Inr (map (\<lambda>e. (fst e, default_to 0 (map_of (sizes ?snap) (fst e)))) ?hs)"
    and s2: "map_res (read_number 2) (map (file_row ?snap) ?hs) = Inr (map (\<lambda>e. (fst e, default_to 0x1A4 (map_of (modes ?snap) (fst e)))) ?hs)"
    using s[of 1] s[of 2] by (simp_all del: One_nat_def)
  show ?thesis
    unfolding read_tables_def stored_fields(3-5)[OF assms(2)] or_else_empty rbind_simps py_items.simps h s1 s2 g c dicts
    by (simp add: stored_snapshot_def)
qed

lemma map_res_fst:
  assumes "map_res f xs = Inr ys" and "\<And>x y. f x = Inr y \<Longrightarrow> fst y = fst x"
  shows "map fst ys = map fst xs"
proof (rule nth_equalityI)
  from assms(1) have l: "length xs = length ys" "\<And>i. i < length xs \<Longrightarrow> f (xs ! i) = Inr (ys ! i)"
    by (simp_all add: map_res_Inr list_all2_conv_all_nth)
  then show "length (map fst ys) = length (map fst xs)" by simp
  fix i assume "i < length (map fst ys)"
  then have "i < length xs" "i < length ys" using l(1) by simp_all
  then show "map fst ys ! i = map fst xs ! i" using assms(2)[OF l(2)] by simp
qed

lemma read_names:
  "read_hash shown e = Inr y \<Longrightarrow> fst y = fst e" "read_number i e = Inr z \<Longrightarrow> fst z = fst e"
  unfolding read_hash_def read_number_def by (auto elim!: rbind_InrE simp del: rbind_eq_Inr)

lemma digest_of_ok: "optional_hash_ok (digest_of v)"
  by (cases v) (simp_all add: digest_of_def optional_hash_ok_def)

lemma read_conflict_ok: "read_conflict shown item = Inr e \<Longrightarrow> conflict_ok e"
  unfolding read_conflict_def Let_def by (auto simp: conflict_ok_def digest_of_ok)

lemma read_tables_ok:
  assumes "read_tables shown d = Inr (hs, ss, ms, gs, cs)"
  shows "dom (map_of hs) = dom (map_of ss) \<and> dom (map_of hs) = dom (map_of ms)
    \<and> distinct (map fst hs) \<and> distinct (map fst ss) \<and> distinct (map fst ms) \<and> distinct (map fst gs)
    \<and> distinct (map fst cs) \<and> list_all conflict_ok cs"
proof -
  from assms obtain files hs0 ss0 ms0 gs0 items cs0 where r:
    "map_res (read_hash shown) files = Inr hs0" "map_res (read_number 1) files = Inr ss0"
    "map_res (read_number 2) files = Inr ms0" "map_res (read_conflict shown) items = Inr cs0"
    "hs = dict_of hs0" "ss = dict_of ss0" "ms = dict_of ms0" "gs = dict_of gs0" "cs = dict_of cs0"
    by (auto simp: read_tables_def simp del: One_nat_def)
  have "map fst hs0 = map fst files" "map fst ss0 = map fst files" "map fst ms0 = map fst files"
    using map_res_fst[OF r(1)] map_res_fst[OF r(2)] map_res_fst[OF r(3)] read_names by blast+
  then have "fst ` set hs0 = fst ` set ss0" "fst ` set hs0 = fst ` set ms0" by (metis image_set)+
  moreover have "\<forall>e\<in>set cs0. conflict_ok e"
  proof
    fix e assume "e \<in> set cs0"
    then obtain i where i: "i < length cs0" "e = cs0 ! i" by (auto simp: in_set_conv_nth)
    with r(4) have "read_conflict shown (items ! i) = Inr e" by (simp add: map_res_Inr list_all2_conv_all_nth)
    then show "conflict_ok e" by (rule read_conflict_ok)
  qed
  ultimately show ?thesis
    by (simp add: r dom_dict_of list_all_iff distinct_dict_of) (blast dest: set_dict_of[THEN subsetD])
qed

lemma load_result:
  assumes "load_baseline shown v = Inr (Some b)"
  shows "storable b"
proof -
  from assms obtain data hs ss ms gs cs where d: "baseline_file v = Document (PDict data)"
    "read_tables shown data = Inr (hs, ss, ms, gs, cs)" "list_all (\<lambda>e. hash_ok (snd e)) hs"
    "b = \<lparr>bl_snapshot = \<lparr>snapshot_id = py_str shown (or_else (dget data ''snapshot_id'') (PStr [])), hashes = hs,
        total_bytes = sum_list (map snd ss), sizes = ss, modes = ms, source_signatures = gs\<rparr>, bl_conflicts = cs\<rparr>"
    "py_str shown (or_else (dget data ''snapshot_id'') (PStr [])) \<noteq> []"
    by (auto simp: load_baseline_def Let_def split: file_doc.splits pyval.splits if_splits sum.splits)
  from read_tables_ok[OF d(2)] d(3,5) show ?thesis unfolding d(4) storable_def snapshot_ok_def
    by (elim conjE, intro conjI) simp_all
qed

lemma saved_reloads:
  assumes "storable b"
  shows "\<exists>b'. load_baseline shown (save_baseline wid b v) = Inr (Some b') \<and> storable b'
    \<and> snapshot_id (bl_snapshot b') = snapshot_id (bl_snapshot b)
    \<and> map_of (hashes (bl_snapshot b')) = map_of (hashes (bl_snapshot b))
    \<and> map_of (sizes (bl_snapshot b')) = map_of (sizes (bl_snapshot b))
    \<and> map_of (modes (bl_snapshot b')) = map_of (modes (bl_snapshot b))
    \<and> map_of (source_signatures (bl_snapshot b')) = map_of (source_signatures (bl_snapshot b))
    \<and> total_bytes (bl_snapshot b') = total_bytes (bl_snapshot b)
    \<and> map_of (bl_conflicts b') = map_of (bl_conflicts b)"
proof -
  let ?b' = "\<lparr>bl_snapshot = stored_snapshot (bl_snapshot b), bl_conflicts = sort_key fst (bl_conflicts b)\<rparr>"
  obtain d where d: "sort_keys (baseline_doc wid b) = PDict d" by (simp add: baseline_doc_def Let_def)
  have ok: "list_all (\<lambda>e. hash_ok (snd e)) (hashes (bl_snapshot b))" "snapshot_id (bl_snapshot b) \<noteq> []"
    "distinct (map fst (bl_conflicts b))" using assms by (simp_all add: storable_def)
  have "load_baseline shown (save_baseline wid b v) = Inr (Some ?b')"
    using ok(1,2) stored_snapshot_same(5)[OF assms]
    by (simp add: load_baseline_def save_baseline_def d stored_fields(1,2)[OF d] read_stored_tables[OF assms d]
        or_else_def stored_snapshot_def list_all_iff Let_def)
  with load_result[OF this] show ?thesis
    using stored_snapshot_same(1-4)[OF assms] map_of_sort[OF ok(3)] by (auto simp: stored_snapshot_def)
qed

section \<open>What can go wrong\<close>

fun holds_infinity :: "pyval \<Rightarrow> bool" where
  "holds_infinity (POther s) = (s = ''inf'')"
| "holds_infinity (PList xs) = list_ex holds_infinity xs"
| "holds_infinity (PDict d) = list_ex (\<lambda>e. holds_infinity (snd e)) d"
| "holds_infinity _ = False"

lemma map_res_Inl: "map_res f xs = Inl e \<Longrightarrow> \<exists>x\<in>set xs. f x = Inl e"
  by (induction xs) (auto simp: rbind_eq_Inl)

lemma caught:
  "AttributeErr \<in> set LOAD_CATCHES" "KeyErr \<in> set LOAD_CATCHES" "IndexErr \<in> set LOAD_CATCHES"
  "TypeErr \<in> set LOAD_CATCHES" "ValueErr \<in> set LOAD_CATCHES" "OverflowErr \<notin> set LOAD_CATCHES"
  by (simp_all add: LOAD_CATCHES_def)

lemma py_int_error: "py_int v = Inl e \<Longrightarrow> e \<in> set LOAD_CATCHES \<or> e = OverflowErr \<and> v = POther ''inf''"
  by (cases v) (auto simp: caught split: if_splits option.splits)

lemma py_index_error: "py_index v i = Inl e \<Longrightarrow> e \<in> set LOAD_CATCHES"
  by (cases v) (auto simp: caught split: if_splits)

lemma py_index_infinity: "py_index v i = Inr (POther ''inf'') \<Longrightarrow> holds_infinity v"
  by (cases v) (auto simp: list_ex_iff split: if_splits intro!: bexI[OF _ nth_mem])

lemma py_lookup_error: "py_lookup v k = Inl e \<Longrightarrow> e \<in> set LOAD_CATCHES"
  by (cases v) (auto simp: caught split: option.splits)

lemma py_items_error: "py_items v = Inl e \<Longrightarrow> e \<in> set LOAD_CATCHES"
  by (cases v) (auto simp: caught)

lemma py_iter_error: "py_iter v = Inl e \<Longrightarrow> e \<in> set LOAD_CATCHES"
  by (cases v) (auto simp: caught)

lemma read_number_error:
  "read_number i x = Inl e \<Longrightarrow> e \<in> set LOAD_CATCHES \<or> e = OverflowErr \<and> holds_infinity (snd x)"
  by (auto simp: read_number_def rbind_eq_Inl dest!: py_int_error dest: py_index_error py_index_infinity)

lemma read_signature_error:
  "read_signature x = Inl e \<Longrightarrow> e \<in> set LOAD_CATCHES \<or> e = OverflowErr \<and> holds_infinity (snd x)"
  by (auto simp: read_signature_def rbind_eq_Inl dest!: read_number_error)

lemma py_items_infinity:
  assumes "py_items v = Inr d" and "x \<in> set d" and "holds_infinity (snd x)"
  shows "holds_infinity v"
  using assms by (cases v) (auto simp: list_ex_iff)

lemma map_of_infinity: "map_of data k = Some v \<Longrightarrow> holds_infinity v \<Longrightarrow> holds_infinity (PDict data)"
  by (drule map_of_SomeD) (auto simp: list_ex_iff intro!: bexI[of _ "(k, v)"])

lemma or_else_infinity: "holds_infinity (or_else (dget data k) v) \<Longrightarrow> \<not> holds_infinity v \<Longrightarrow> holds_infinity (PDict data)"
  by (cases "map_of data k") (auto simp: or_else_def dget_def dest: map_of_infinity split: if_splits)

lemma read_tables_error:
  assumes "read_tables shown data = Inl e"
  shows "e \<in> set LOAD_CATCHES \<or> e = OverflowErr \<and> holds_infinity (PDict data)"
proof (cases "rbind (py_lookup (PDict data) ''files'') py_items")
  case (Inl x)
  then have "x \<in> set LOAD_CATCHES" by (auto simp: rbind_eq_Inl simp del: py_lookup.simps dest: py_lookup_error py_items_error)
  moreover from assms Inl have "e = x"
    by (cases "py_lookup (PDict data) ''files''") (simp_all add: read_tables_def)
  ultimately show ?thesis by simp
next
  case (Inr files)
  then obtain f where f: "map_of data ''files'' = Some f" "py_items f = Inr files" by (auto split: option.splits)
  define sig where "sig = or_else (dget data ''source_signatures'') (PDict [])"
  define con where "con = or_else (dget data ''conflicts'') (PList [])"
  have number: "e \<in> set LOAD_CATCHES \<or> e = OverflowErr \<and> holds_infinity (PDict data)" if "map_res (read_number i) files = Inl e" for i
    using map_res_Inl[OF that] read_number_error py_items_infinity[OF f(2)] map_of_infinity[OF f(1)] by blast
  have hash: "e \<in> set LOAD_CATCHES" if "map_res (read_hash shown) files = Inl e"
    using map_res_Inl[OF that] by (auto simp: read_hash_def rbind_eq_Inl dest: py_index_error)
  have signature: "e \<in> set LOAD_CATCHES \<or> e = OverflowErr \<and> holds_infinity (PDict data)"
    if items: "py_items sig = Inr sigs" and fails: "map_res read_signature sigs = Inl e" for sigs
  proof -
    obtain x where x: "x \<in> set sigs" "read_signature x = Inl e" using map_res_Inl[OF fails] by blast
    have "\<not> holds_infinity (PDict [])" by simp
    then have "holds_infinity sig \<Longrightarrow> holds_infinity (PDict data)" unfolding sig_def using or_else_infinity by blast
    with read_signature_error[OF x(2)] py_items_infinity[OF items x(1)] show ?thesis by blast
  qed
  have conflict: "e \<in> set LOAD_CATCHES" if "map_res (read_conflict shown) items = Inl e" for items
    using map_res_Inl[OF that] by (auto simp: read_conflict_def rbind_eq_Inl Let_def dest: py_lookup_error)
  from assms f consider "map_res (read_hash shown) files = Inl e" | i where "map_res (read_number i) files = Inl e"
    | "py_items sig = Inl e" | sigs where "py_items sig = Inr sigs" "map_res read_signature sigs = Inl e"
    | "py_iter con = Inl e" | items where "map_res (read_conflict shown) items = Inl e"
    unfolding read_tables_def sig_def[symmetric] con_def[symmetric] by (auto simp: rbind_eq_Inl simp del: One_nat_def)
  then show ?thesis by cases (use hash number signature conflict py_items_error py_iter_error in blast)+
qed

section \<open>Properties\<close>

text \<open>Claim C12. A saved baseline survives a restart: loading what was saved gives the same snapshot identifier, the same
  digest, size, permission bits and source signature for every path, the same total and the same
  conflicts, whatever was in the volume before.\<close>

theorem saved_baseline_reloads:
  assumes "storable b"
  shows "\<exists>b'. load_baseline shown (save_baseline wid b v) = Inr (Some b') \<and> storable b'
    \<and> snapshot_id (bl_snapshot b') = snapshot_id (bl_snapshot b)
    \<and> map_of (hashes (bl_snapshot b')) = map_of (hashes (bl_snapshot b))
    \<and> map_of (sizes (bl_snapshot b')) = map_of (sizes (bl_snapshot b))
    \<and> map_of (modes (bl_snapshot b')) = map_of (modes (bl_snapshot b))
    \<and> map_of (source_signatures (bl_snapshot b')) = map_of (source_signatures (bl_snapshot b))
    \<and> total_bytes (bl_snapshot b') = total_bytes (bl_snapshot b)
    \<and> map_of (bl_conflicts b') = map_of (bl_conflicts b)"
  by (rule saved_reloads[OF assms])

text \<open>Claim C13. What is loaded is a sound baseline: every table is a dictionary over the same paths, every digest has
  the form of a SHA-256, the total is the sum of the sizes, and every conflict is filed under its path; it is
  read from a document of the right schema; and whatever else the document holds, of all the exceptions that
  reading its tables can raise only an \<open>OverflowError\<close> escapes, and only if the document has an infinite number.\<close>

theorem loaded_baseline_is_sound:
  "case load_baseline shown v of
     Inr (Some b) \<Rightarrow> storable b \<and> (\<exists>d. baseline_file v = Document (PDict d) \<and> eq_int (dget d ''schema'') STATE_SCHEMA)
   | Inr None \<Rightarrow> True
   | Inl e \<Rightarrow> e = OverflowErr \<and> (\<exists>d. baseline_file v = Document d \<and> holds_infinity d)"
proof (cases "load_baseline shown v")
  case (Inl e)
  then obtain d where d: "baseline_file v = Document (PDict d)" "read_tables shown d = Inl e" "e \<notin> set LOAD_CATCHES"
    by (auto simp: load_baseline_def Let_def split: file_doc.splits pyval.splits if_splits sum.splits prod.splits)
  with read_tables_error[OF d(2)] Inl show ?thesis by simp
next
  case (Inr r)
  show ?thesis
  proof (cases r)
    case (Some b)
    with Inr have l: "load_baseline shown v = Inr (Some b)" by simp
    from l have "\<exists>d. baseline_file v = Document (PDict d) \<and> eq_int (dget d ''schema'') STATE_SCHEMA"
      by (auto simp: load_baseline_def split: file_doc.splits pyval.splits if_splits)
    with load_result[OF l] l show ?thesis by simp
  qed (use Inr in simp)
qed

text \<open>A volume belongs to one workspace for good: an empty one is taken by the first workspace that
  claims it, which then finds it again; any other workspace, and any document that is not the
  identity, is refused; and no claim ever changes the owner or the baseline.\<close>

theorem claim_binds_volume:
  "case claim_volume wid v of
     (Inr known, v') \<Rightarrow> claim_volume wid v' = (Inr True, v') \<and> baseline_file v' = baseline_file v
       \<and> (known \<longleftrightarrow> identity_file v \<noteq> Absent) \<and> (known \<longrightarrow> v' = v)
       \<and> (\<forall>other. other \<noteq> wid \<longrightarrow> claim_volume other v' = (Inl OtherErr, v'))
   | (Inl e, v') \<Rightarrow> v' = v \<and> identity_file v \<noteq> Absent"
proof (cases "identity_file v")
  case Absent
  have "\<exists>d. sort_keys (PDict [(''schema'', PInt STATE_SCHEMA), (''workspace_id'', PStr wid)]) = PDict d
      \<and> dget d ''workspace_id'' = PStr wid"
  proof -
    obtain d where d: "sort_keys (PDict [(''schema'', PInt STATE_SCHEMA), (''workspace_id'', PStr wid)]) = PDict d" by simp
    moreover have "dget d ''workspace_id'' = PStr wid" by (subst dget_sort_keys(1)[OF _ d]) simp_all
    ultimately show ?thesis by blast
  qed
  then obtain d where d: "sort_keys (PDict [(''schema'', PInt STATE_SCHEMA), (''workspace_id'', PStr wid)]) = PDict d"
    "dget d ''workspace_id'' = PStr wid" by blast
  show ?thesis unfolding claim_volume_def Absent file_doc.case d(1) using d(2) by simp
next
  case (Document d)
  then show ?thesis by (cases d) (auto simp: claim_volume_def)
qed (simp add: claim_volume_def)

definition new_volume :: state_volume where
  "new_volume = \<lparr>identity_file = Absent, baseline_file = Absent\<rparr>"

theorem claim_binds_volume_witness:
  "fst (claim_volume ''one'' new_volume) = Inr False
    \<and> fst (claim_volume ''two'' (snd (claim_volume ''one'' new_volume))) = Inl OtherErr"
proof -
  have c: "fst (claim_volume ''one'' new_volume) = Inr False" by (simp add: claim_volume_def new_volume_def)
  with claim_binds_volume[where wid = "''one''" and v = new_volume] show ?thesis by (auto split: prod.splits)
qed

text \<open>One malformed number is not treated like the others: a stored size that is infinite, which Python's
  reader accepts as \<open>Infinity\<close>, makes loading raise instead of giving no baseline, so the executor
  does not start over but fails to start.\<close>

theorem infinite_size_escapes:
  "load_baseline shown \<lparr>identity_file = Absent, baseline_file = Document (PDict [(''schema'', PInt 1),
     (''files'', PDict [(''a'', PList [PStr ''h'', POther ''inf'', PInt 0])])])\<rparr> = Inl OverflowErr
   \<and> load_baseline shown \<lparr>identity_file = Absent, baseline_file = Document (PDict [(''schema'', PInt 1),
     (''files'', PDict [(''a'', PList [PStr ''h'', PStr ''big'', PInt 0])])])\<rparr> = Inr None"
proof -
  have "int_of_text ''big'' = None" "length (filter is_digit ''big'') \<le> MAX_INT_DIGITS" by code_simp+
  then show ?thesis
    by (simp add: load_baseline_def read_tables_def dget_def STATE_SCHEMA_def read_hash_def read_number_def LOAD_CATCHES_def)
qed

definition sample_hash :: string where "sample_hash = replicate 64 (CHR ''a'')"

definition sample_baseline :: baseline where
  "sample_baseline = \<lparr>bl_snapshot = \<lparr>snapshot_id = ''s'', hashes = [(''b'', sample_hash), (''a'', sample_hash)], total_bytes = 3,
       sizes = [(''b'', 1), (''a'', 2)], modes = [(''b'', 0x1A4), (''a'', 0x1ED)], source_signatures = [(''b'', (1, 7))]\<rparr>,
     bl_conflicts = [(''c'', \<lparr>cf_path = ''c'', base_sha256 = None, host_sha256 = Some sample_hash, staged_sha256 = None\<rparr>)]\<rparr>"

theorem saved_baseline_reloads_witness:
  "\<exists>b'. load_baseline (\<lambda>_. []) (save_baseline ''w'' sample_baseline \<lparr>identity_file = Absent, baseline_file = Unreadable\<rparr>) = Inr (Some b')
     \<and> map_of (hashes (bl_snapshot b')) ''a'' = Some sample_hash \<and> map_of (bl_conflicts b') ''c'' \<noteq> None"
proof -
  have "storable sample_baseline"
    by (auto simp: storable_def sample_baseline_def snapshot_ok_def conflict_ok_def optional_hash_ok_def hash_ok_def
        sample_hash_def list_all_iff is_hex_def ord_def)
  from saved_baseline_reloads[OF this] obtain b' where b':
    "load_baseline (\<lambda>_. []) (save_baseline ''w'' sample_baseline \<lparr>identity_file = Absent, baseline_file = Unreadable\<rparr>) = Inr (Some b')"
    "map_of (hashes (bl_snapshot b')) = map_of (hashes (bl_snapshot sample_baseline))"
    "map_of (bl_conflicts b') = map_of (bl_conflicts sample_baseline)" by blast
  have "map_of (hashes (bl_snapshot sample_baseline)) ''a'' = Some sample_hash"
    "map_of (bl_conflicts sample_baseline) ''c'' \<noteq> None" by (simp_all add: sample_baseline_def)
  with b' show ?thesis by auto
qed

end
