(* ===== verification/Executor_Service.thy ===== *)
theory Executor_Service
  imports State_Store Mutations
begin

text \<open>
  The control plane of the executor (\<open>ExecutorService\<close> in \<open>executor/app.py\<close>) over the staging area, the
  baseline and the state volume: start, rebase, publication manifests, the receipt of a publication, the
  status and fingerprint of the staging area, and discarding it.  The tools themselves are in the theories
  of the tools; the sandbox repository, the checkpoint store and the HTTP layer are left out here.

  What is outside the service is in \<open>service_env\<close>: the file system and the hash, the configuration, the
  modification times of the host files, Python's \<open>str\<close> of an unusual value, the Base64 encoder and decoder.
\<close>

record service_env =
  sv_fs :: fs_env
  sv_config :: executor_config
  sv_mtimes :: "string \<Rightarrow> int"
  sv_shown :: "pyval \<Rightarrow> string"
  sv_b64encode :: "string \<Rightarrow> string"
  sv_b64decode :: "string \<Rightarrow> string option"

record service =
  sv_baseline :: baseline
  sv_work :: node
  sv_volume :: state_volume

section \<open>The staging area as the service sees it\<close>

definition sv_files :: "service_env \<Rightarrow> service \<Rightarrow> listing" where
  "sv_files E sv = listing_of (extra_globs (sv_fs E)) (sha (sv_fs E)) (sv_work sv)"

definition sv_changes :: "service_env \<Rightarrow> service \<Rightarrow> workspace_change list" where
  "sv_changes E sv = workspace_changes (bl_snapshot (sv_baseline sv)) (sv_files E sv)"

definition withheld :: "service_env \<Rightarrow> workspace_change list \<Rightarrow> string list" where
  "withheld E changes = filter (\<lambda>p. matches_publish_glob p (never_publish (sv_config E))) (map ch_path changes)"

text \<open>\<open>f"{mode:o}"\<close> of a permission field.\<close>

fun octal :: "nat \<Rightarrow> string" where
  "octal n = (if n < 8 then [char_of (48 + n)] else octal (n div 8) @ [char_of (48 + n mod 8)])"

declare octal.simps [simp del]

definition fingerprint_line :: "string \<times> (string \<times> int \<times> int) \<Rightarrow> string" where
  "fingerprint_line e =
     (case e of (path, digest, n, m) \<Rightarrow> path @ [NUL] @ digest @ [NUL] @ octal (nat m) @ [CHR 0x0A])"

text \<open>The text whose digest is the fingerprint; \<open>sorted\<close> compares code points, as the encoding does.\<close>

definition fingerprint_text :: "listing \<Rightarrow> string" where
  "fingerprint_text files = concat (map fingerprint_line (sort_key fst files))"

definition staged_fingerprint :: "(string \<Rightarrow> string) \<Rightarrow> listing \<Rightarrow> string" where
  "staged_fingerprint h files = h (fingerprint_text files)"

record status_report =
  st_created :: "string list"
  st_modified :: "string list"
  st_deleted :: "string list"
  st_permission_changes :: "string list"
  st_links :: "string list"
  st_conflicts :: "string list"
  st_never_publish :: "string list"
  st_fingerprint :: string
  st_staged :: bool

definition paths_with :: "op_kind \<Rightarrow> workspace_change list \<Rightarrow> string list" where
  "paths_with k changes = map ch_path (filter (\<lambda>c. ch_operation c = k) changes)"

definition workspace_status :: "service_env \<Rightarrow> service \<Rightarrow> status_report" where
  "workspace_status E sv =
     (let changes = sv_changes E sv
      in \<lparr>st_created = paths_with Create changes, st_modified = paths_with Update changes,
          st_deleted = paths_with Delete changes,
          st_permission_changes = map ch_path (filter permission_changed changes),
          st_links = links_of (extra_globs (sv_fs E)) (sha (sv_fs E)) (sv_work sv),
          st_conflicts = sort (map fst (bl_conflicts (sv_baseline sv))),
          st_never_publish = withheld E changes,
          st_fingerprint = staged_fingerprint (sha (sv_fs E)) (sv_files E sv), st_staged = (changes \<noteq> [])\<rparr>)"

section \<open>Saving and rebasing\<close>

definition save_state :: "service_env \<Rightarrow> service \<Rightarrow> service" where
  "save_state E sv = sv\<lparr>sv_volume := save_baseline (workspace_id (sv_config E)) (sv_baseline sv) (sv_volume sv)\<rparr>"

text \<open>Python's \<open>!=\<close> of two dictionaries.\<close>

definition dict_differs :: "(string \<times> 'v) list \<Rightarrow> (string \<times> 'v) list \<Rightarrow> bool" where
  "dict_differs a b \<longleftrightarrow> list_ex (\<lambda>k. map_of a k \<noteq> map_of b k) (map fst a @ map fst b)"

definition executor_rebase ::
  "service_env \<Rightarrow> string \<Rightarrow> node \<Rightarrow> string list \<Rightarrow> string list \<Rightarrow> service \<Rightarrow> (exn + rebase_report) \<times> service" where
  "executor_rebase E fresh source keep_staged take_host sv =
     (case rebase (sv_fs E) (sv_mtimes E) (sv_config E) fresh source (sv_baseline sv) keep_staged take_host (sv_work sv) of
        (Inl e, w) \<Rightarrow> (Inl e, sv\<lparr>sv_work := w\<rparr>)
      | (Inr (bl, report), w) \<Rightarrow>
          (let sv1 = sv\<lparr>sv_baseline := bl, sv_work := w\<rparr>
           in (Inr report,
               if snapshot_id (bl_snapshot bl) \<noteq> snapshot_id (bl_snapshot (sv_baseline sv))
                  \<or> dict_differs (bl_conflicts bl) (bl_conflicts (sv_baseline sv))
               then save_state E sv1 else sv1)))"

section \<open>Manifests\<close>

lemma batch_bytes_value [code_unfold]: "int PUBLISH_BATCH_MAX_BYTES = 32000000"
  by (simp add: PUBLISH_BATCH_MAX_BYTES_def)

definition MAX_MANIFEST_PATHS :: nat where "MAX_MANIFEST_PATHS = 10000"

definition selected_paths :: "service_env \<Rightarrow> pyval \<Rightarrow> exn + string list" where
  "selected_paths E paths =
     (case paths of
        PList xs \<Rightarrow>
          if xs = [] \<or> length xs > MAX_MANIFEST_PATHS \<or> \<not> list_all is_text xs then Inl (ToolError INVALID_ARGUMENTS)
          else map_res (normalize_relative (nfc (sv_fs E)) (extra_globs (sv_fs E)) False) (map text_of xs)
      | _ \<Rightarrow> Inl (ToolError INVALID_ARGUMENTS))"

text \<open>\<open>_publish_operation\<close>, with the validation of \<open>PublishOperation\<close>.\<close>

definition checked_operation :: "service_env \<Rightarrow> publish_operation \<Rightarrow> exn + publish_operation" where
  "checked_operation E op =
     (if publish_operation_ok (sha (sv_fs E)) (sv_b64decode E) op then Inr op else Inl ValueErr)"

definition change_to_operation :: "service_env \<Rightarrow> node \<Rightarrow> workspace_change \<Rightarrow> exn + publish_operation" where
  "change_to_operation E work c =
     (let base = \<lparr>op_path = ch_path c, op_kind = ch_operation c, base_sha256 = ch_base_sha256 c, staged_sha256 = None,
            op_content = None, base_mode = ch_base_mode c, staged_mode = None, content_base64 = None\<rparr>
      in if ch_operation c = Delete then checked_operation E base
         else (case lookup work (name_parts (ch_path c)) of
             Some (File raw m k) \<Rightarrow>
               (let staged = base\<lparr>publish_operation.staged_sha256 := ch_staged_sha256 c, staged_mode := ch_staged_mode c\<rparr>
                in checked_operation E
                     (if decodes raw then staged\<lparr>op_content := Some raw\<rparr>
                      else staged\<lparr>content_base64 := Some (sv_b64encode E raw)\<rparr>))
           | Some (Dir es) \<Rightarrow> Inl IsADirectory
           | _ \<Rightarrow> Inl FileNotFound))"

definition publishable :: "service_env \<Rightarrow> service \<Rightarrow> workspace_change list" where
  "publishable E sv =
     filter (\<lambda>c. map_of (bl_conflicts (sv_baseline sv)) (ch_path c) = None
                 \<and> \<not> matches_publish_glob (ch_path c) (never_publish (sv_config E))) (sv_changes E sv)"

text \<open>The changes that are offered: all, or the selected ones.  Only the first batch of a selection may
  not name anything that is not publishable.\<close>

definition offered :: "service_env \<Rightarrow> service \<Rightarrow> int \<Rightarrow> pyval \<Rightarrow> exn + workspace_change list" where
  "offered E sv batch paths =
     (if paths = PNone then Inr (publishable E sv)
      else rbind (selected_paths E paths) (\<lambda>chosen.
        if batch \<le> 1 \<and> \<not> set chosen \<subseteq> set (map ch_path (publishable E sv)) then Inl (ToolError INVALID_ARGUMENTS)
        else Inr (filter (\<lambda>c. ch_path c \<in> set chosen) (publishable E sv))))"

record manifest_request =
  mr_fresh :: string
  mr_run :: string
  mr_approval :: string
  mr_publication :: string
  mr_batch :: pyval
  mr_paths :: pyval

definition first_batch :: "workspace_change list list \<Rightarrow> workspace_change list" where
  "first_batch batches = (case batches of [] \<Rightarrow> [] | b # _ \<Rightarrow> b)"

definition executor_manifest :: "service_env \<Rightarrow> manifest_request \<Rightarrow> service \<Rightarrow> exn + publish_manifest" where
  "executor_manifest E r sv =
     (case mr_batch r of
        PInt n \<Rightarrow>
          if n < 1 then Inl (ToolError INVALID_ARGUMENTS)
          else rbind (offered E sv n (mr_paths r)) (\<lambda>pending.
               rbind (publication_batches pending) (\<lambda>batches.
               rbind (map_res (change_to_operation E (sv_work sv)) (first_batch batches)) (\<lambda>ops.
                 new_manifest \<lparr>manifest_id = mr_fresh r, man_run_id = mr_run r,
                   man_workspace_id = workspace_id (sv_config E),
                   source_snapshot_id = snapshot_id (bl_snapshot (sv_baseline sv)), approval_id = mr_approval r,
                   operations = ops,
                   publication_id = (if mr_publication r = [] then mr_fresh r else mr_publication r),
                   batch_index = n, batch_count = n - 1 + max 1 (int (length batches))\<rparr>)))
      | _ \<Rightarrow> Inl (ToolError INVALID_ARGUMENTS))"

section \<open>Receipts\<close>

text \<open>What \<open>advance_published_staging\<close> reads of a published operation.\<close>

definition received :: "published_operation \<Rightarrow> publish_operation" where
  "received p = \<lparr>op_path = pub_path p, op_kind = pub_kind p, base_sha256 = None, staged_sha256 = pub_sha256 p,
     op_content = None, base_mode = None, staged_mode = pub_mode p, content_base64 = None\<rparr>"

definition mark_published ::
  "service_env \<Rightarrow> string \<Rightarrow> publication_receipt \<Rightarrow> service \<Rightarrow> (exn + unit) \<times> service" where
  "mark_published E fresh r sv =
     (if rec_workspace_id r \<noteq> workspace_id (sv_config E) then (Inl (ToolError INVALID_ARGUMENTS), sv)
      else if rec_snapshot_id r \<noteq> snapshot_id (bl_snapshot (sv_baseline sv)) then (Inl (ToolError STAGING_CONFLICT), sv)
      else (case advance_published_staging fresh (sv_files E sv) (bl_snapshot (sv_baseline sv)) (map received (rec_operations r)) of
          Inl e \<Rightarrow> (Inl e, sv)
        | Inr snap \<Rightarrow> (Inr (), save_state E (sv\<lparr>sv_baseline := (sv_baseline sv)\<lparr>bl_snapshot := snap\<rparr>\<rparr>))))"

section \<open>Seeding, discarding and starting\<close>

definition seed_service :: "service_env \<Rightarrow> string \<Rightarrow> int \<Rightarrow> node \<Rightarrow> exn + baseline_snapshot \<times> node" where
  "seed_service E fresh free source =
     seed_staging (nfc (sv_fs E)) (extra_globs (sv_fs E)) (sha (sv_fs E)) (sv_mtimes E) (sv_config E) free fresh source (Dir [])"

text \<open>What seeding leaves in the staging area when it raises: every step makes its checks before it creates a directory
  or copies a file, so the tree is that of the last step that was done.  The check for unique paths comes after
  the last one.\<close>

fun fold_kept :: "('a \<Rightarrow> 's \<Rightarrow> exn + 's) \<Rightarrow> 'a list \<Rightarrow> 's \<Rightarrow> (exn + unit) \<times> 's" where
  "fold_kept f [] s = (Inr (), s)"
| "fold_kept f (x # xs) s = (case f x s of Inl e \<Rightarrow> (Inl e, s) | Inr s' \<Rightarrow> fold_kept f xs s')"

definition seed_level_kept ::
  "string list \<Rightarrow> (string \<Rightarrow> string) \<Rightarrow> (string \<Rightarrow> int) \<Rightarrow> executor_config \<Rightarrow> string \<Rightarrow> (string \<times> node) list \<Rightarrow>
   seed_state \<Rightarrow> (exn + (string \<times> node) list) \<times> seed_state" where
  "seed_level_kept extra h mtimes cfg prefix es st =
     (case fold_kept (seed_directory extra prefix) (sort_key fst (filter (\<lambda>e. walks_as_dir (snd e)) es)) ([], st) of
        (Inl e, (retained, st1)) \<Rightarrow> (Inl e, st1)
      | (Inr _, (retained, st1)) \<Rightarrow>
          (case fold_kept (seed_file extra h mtimes cfg prefix) (sort_key fst (filter (\<lambda>e. \<not> walks_as_dir (snd e)) es)) st1 of
             (Inl e, st2) \<Rightarrow> (Inl e, st2)
           | (Inr _, st2) \<Rightarrow> (Inr retained, st2)))"

lemma fold_kept_res: "fold_res f xs s = (case fold_kept f xs s of (Inl e, s') \<Rightarrow> Inl e | (Inr _, s') \<Rightarrow> Inr s')"
  by (induction xs arbitrary: s) (auto split: sum.split)

lemma seed_level_kept_res:
  "seed_level extra h mtimes cfg prefix es st =
     (case seed_level_kept extra h mtimes cfg prefix es st of (Inl e, st') \<Rightarrow> Inl e | (Inr retained, st') \<Rightarrow> Inr (retained, st'))"
  by (simp add: seed_level_def seed_level_kept_def fold_kept_res split: prod.split sum.split)

function seed_loop_kept ::
  "string list \<Rightarrow> (string \<Rightarrow> string) \<Rightarrow> (string \<Rightarrow> int) \<Rightarrow> executor_config \<Rightarrow> (string \<times> node) list \<Rightarrow>
   seed_state \<Rightarrow> seed_state" where
  "seed_loop_kept extra h mtimes cfg [] st = st"
| "seed_loop_kept extra h mtimes cfg ((prefix, n) # rest) st =
     (case seed_level_kept extra h mtimes cfg prefix (case n of Dir es \<Rightarrow> es | _ \<Rightarrow> []) st of
        (Inl e, st') \<Rightarrow> st'
      | (Inr retained, st') \<Rightarrow> seed_loop_kept extra h mtimes cfg (retained @ rest) st')"
  by pat_completeness auto
termination
proof (relation "measure (\<lambda>(extra, h, mtimes, cfg, rest, st). stack_size rest)", goal_cases)
  case (2 extra h mtimes cfg prefix n rest st r st' retained)
  then have "seed_level_kept extra h mtimes cfg prefix (case n of Dir es \<Rightarrow> es | _ \<Rightarrow> []) st = (Inr retained, st')" by simp
  then have "seed_level extra h mtimes cfg prefix (case n of Dir es \<Rightarrow> es | _ \<Rightarrow> []) st = Inr (retained, st')"
    by (simp add: seed_level_kept_res)
  from seed_level_smaller[OF this] have "stack_size retained < Suc (size n)" by (cases n) auto
  then show ?case by (simp add: stack_size_def)
qed simp

lemma seed_loop_kept_res:
  "seed_loop extra h mtimes cfg rest st = Inr st' \<Longrightarrow> seed_loop_kept extra h mtimes cfg rest st = st'"
  by (induction extra h mtimes cfg rest st rule: seed_loop.induct)
    (auto simp: seed_level_kept_res split: prod.splits sum.splits)

definition seed_left :: "service_env \<Rightarrow> int \<Rightarrow> node \<Rightarrow> node" where
  "seed_left E free source =
     (case validate_storage_capacity (sv_config E) free of
        Inl e \<Rightarrow> Dir []
      | Inr _ \<Rightarrow> seed_work (seed_loop_kept (extra_globs (sv_fs E)) (sha (sv_fs E)) (sv_mtimes E) (sv_config E) [([], source)] seed_start))"

text \<open>A seeding that ends well leaves what it returns.\<close>

lemma seed_left_done: "seed_service E fresh free source = Inr (snap, w) \<Longrightarrow> seed_left E free source = w"
  by (auto simp: seed_service_def seed_staging_def seed_left_def dest: seed_loop_kept_res simp del: seed_loop.simps seed_loop_kept.simps)

text \<open>The staging area is emptied and the stored baseline forgotten before the source is read again, so a
  failure leaves the old baseline in the memory of the service, with what the seeding had copied.\<close>

definition executor_discard ::
  "service_env \<Rightarrow> string \<Rightarrow> int \<Rightarrow> node \<Rightarrow> service \<Rightarrow> (exn + unit) \<times> service" where
  "executor_discard E fresh free source sv =
     (case seed_service E fresh free source of
        Inl e \<Rightarrow> (Inl e, sv\<lparr>sv_work := seed_left E free source, sv_volume := forget_baseline (sv_volume sv)\<rparr>)
      | Inr (snap, work) \<Rightarrow>
          (Inr (), save_state E \<lparr>sv_baseline = \<lparr>bl_snapshot = snap, bl_conflicts = []\<rparr>, sv_work = work,
             sv_volume = forget_baseline (sv_volume sv)\<rparr>))"

text \<open>\<open>__init__\<close>: \<open>work\<close> is the staging volume, if its directory is there.\<close>

definition executor_start ::
  "service_env \<Rightarrow> string \<Rightarrow> int \<Rightarrow> node \<Rightarrow> node option \<Rightarrow> state_volume \<Rightarrow> exn + service" where
  "executor_start E fresh free source work v =
     (case claim_volume (workspace_id (sv_config E)) v of
        (Inl e, v1) \<Rightarrow> Inl e
      | (Inr claimed, v1) \<Rightarrow>
          rbind (if claimed then load_baseline (sv_shown E) v1 else Inr None) (\<lambda>stored.
            case (stored, work) of
              (Some bl, Some w) \<Rightarrow>
                (case executor_rebase E fresh source [] [] \<lparr>sv_baseline = bl, sv_work = w, sv_volume = v1\<rparr> of
                   (Inl e, sv) \<Rightarrow> Inl e
                 | (Inr _, sv) \<Rightarrow> Inr sv)
            | _ \<Rightarrow>
                (let v2 = (if stored = None then v1 else forget_baseline v1)
                 in rbind (seed_service E fresh free source) (\<lambda>(snap, w).
                      Inr (save_state E \<lparr>sv_baseline = \<lparr>bl_snapshot = snap, bl_conflicts = []\<rparr>, sv_work = w, sv_volume = v2\<rparr>)))))"

end
