(* ===== verification/Service_State.thy ===== *)
theory Service_State
  imports Executor_Service
begin

text \<open>
  The invariant of the executor service over every sequence of its operations: the baseline in its memory can
  be stored, and a restart finds it on the state volume.  The last section shows what a failed discard does.
\<close>

section \<open>Tables that can be stored\<close>

definition tables_ok :: "baseline_snapshot \<Rightarrow> bool" where
  "tables_ok s \<longleftrightarrow> snapshot_ok s \<and> distinct (map fst (hashes s)) \<and> distinct (map fst (sizes s))
     \<and> distinct (map fst (modes s)) \<and> distinct (map fst (source_signatures s)) \<and> list_all (\<lambda>e. hash_ok (snd e)) (hashes s)"

definition conflicts_ok :: "(string \<times> conflict) list \<Rightarrow> bool" where
  "conflicts_ok cs \<longleftrightarrow> distinct (map fst cs) \<and> list_all conflict_ok cs"

lemma storable_iff:
  "storable b \<longleftrightarrow> tables_ok (bl_snapshot b) \<and> snapshot_id (bl_snapshot b) \<noteq> []
    \<and> total_bytes (bl_snapshot b) = sum_list (map snd (sizes (bl_snapshot b))) \<and> conflicts_ok (bl_conflicts b)"
  by (auto simp: storable_def tables_ok_def conflicts_ok_def)

lemma list_all_update: "list_all P es \<Longrightarrow> P (k, v) \<Longrightarrow> list_all P (AList.update k v es)"
  by (auto simp: list_all_iff dest!: set_update)

lemma list_all_delete: "list_all P es \<Longrightarrow> list_all P (AList.delete k es)"
  by (auto simp: list_all_iff AList.delete_eq)

lemma snapshot_ok_tables:
  "snapshot_ok s \<longleftrightarrow> (\<forall>k. (map_of (hashes s) k = None) = (map_of (modes s) k = None)
     \<and> (map_of (hashes s) k = None) = (map_of (sizes s) k = None))"
  unfolding snapshot_ok_def set_eq_iff domIff by (simp del: not_None_eq) blast

lemma tables_ok_put:
  assumes "tables_ok s" and "hash_ok d"
  shows "tables_ok (s\<lparr>hashes := AList.update k d (hashes s), sizes := AList.update k n (sizes s), modes := AList.update k m (modes s),
    source_signatures := AList.update k g (source_signatures s)\<rparr>)"
    "tables_ok (s\<lparr>hashes := AList.update k d (hashes s), sizes := AList.update k n (sizes s), modes := AList.update k m (modes s)\<rparr>)"
  using assms by (auto simp: tables_ok_def snapshot_ok_tables distinct_update list_all_update map_of_update)

lemma tables_ok_drop:
  assumes "tables_ok s"
  shows "tables_ok (s\<lparr>hashes := AList.delete k (hashes s), sizes := AList.delete k (sizes s), modes := AList.delete k (modes s),
    source_signatures := AList.delete k (source_signatures s)\<rparr>)"
    "tables_ok (s\<lparr>hashes := AList.delete k (hashes s), sizes := AList.delete k (sizes s), modes := AList.delete k (modes s)\<rparr>)"
  using assms by (auto simp: tables_ok_def snapshot_ok_tables distinct_delete list_all_delete map_of_delete)

lemma tables_ok_signature:
  "tables_ok s \<Longrightarrow> tables_ok (s\<lparr>source_signatures := AList.update k g (source_signatures s)\<rparr>)"
  by (auto simp: tables_ok_def snapshot_ok_tables distinct_update)

lemma tables_ok_outer [simp]: "tables_ok (s\<lparr>snapshot_id := i, total_bytes := n\<rparr>) = tables_ok s"
  by (simp add: tables_ok_def snapshot_ok_tables)

lemma tables_hash: "tables_ok s \<Longrightarrow> map_of (hashes s) k = Some d \<Longrightarrow> hash_ok d"
  using map_of_SomeD[of "hashes s" k d] unfolding tables_ok_def list_all_iff by fastforce

lemma conflicts_ok_update: "conflicts_ok cs \<Longrightarrow> conflict_ok (k, c) \<Longrightarrow> conflicts_ok (AList.update k c cs)"
  by (simp add: conflicts_ok_def distinct_update list_all_update)

lemma conflicts_ok_delete: "conflicts_ok cs \<Longrightarrow> conflicts_ok (AList.delete k cs)"
  by (simp add: conflicts_ok_def distinct_delete list_all_delete)

section \<open>Digests of listings\<close>

definition digests_ok :: "listing \<Rightarrow> bool" where
  "digests_ok l \<longleftrightarrow> list_all (\<lambda>e. hash_ok (fst (snd e))) l"

lemma visit_digests:
  assumes "\<And>c. hash_ok (h c)" and "digests_ok (fst st)"
  shows "digests_ok (fst (visit_entry extra h sigs clock [] prefix e st))"
  using assms
  by (cases st) (auto simp: visit_entry_def Let_def digests_ok_def trusted_def split: node.splits)

lemma fold_visit_digests:
  "(\<And>c. hash_ok (h c)) \<Longrightarrow> digests_ok (fst st) \<Longrightarrow> digests_ok (fst (fold (visit_entry extra h sigs clock [] prefix) es st))"
  by (induction es arbitrary: st) (auto simp: visit_digests)

lemma visible_digests:
  assumes "\<And>c. hash_ok (h c)" and "digests_ok (fst st)"
  shows "digests_ok (fst (visible_loop extra h sigs clock [] todo st))"
  using assms
proof (induction extra h sigs clock "[] :: hash_cache" todo st rule: visible_loop.induct)
  case (2 extra h sigs clock prefix n todo st)
  have "digests_ok (fst (fold (visit_entry extra h sigs clock [] prefix) (sort_key fst (case n of Dir es \<Rightarrow> es | _ \<Rightarrow> [])) st))"
    by (rule fold_visit_digests) (use 2(2,3) in auto)
  from 2(1)[OF refl 2(2) this] show ?case by (simp add: Let_def)
qed simp

lemma listing_digests: "(\<And>c. hash_ok (sha env c)) \<Longrightarrow> digests_ok (listing_of extra (sha env) t)"
  unfolding listing_of_def visible_files_def by (rule visible_digests) (simp_all add: digests_ok_def)

lemma digests_lookup: "digests_ok l \<Longrightarrow> map_of l k = Some (d, n, m) \<Longrightarrow> hash_ok d"
  using map_of_SomeD[of l k "(d, n, m)"] by (auto simp: digests_ok_def list_all_iff)


section \<open>Rebasing keeps the tables\<close>

definition hosts_ok :: "(string \<times> host_file) list \<Rightarrow> bool" where
  "hosts_ok host \<longleftrightarrow> list_all (\<lambda>e. hash_ok (hf_sha256 (snd e))) host"

lemma hosts_lookup: "hosts_ok host \<Longrightarrow> map_of host s = Some hf \<Longrightarrow> hash_ok (hf_sha256 hf)"
  using map_of_SomeD[of host s hf] by (auto simp: hosts_ok_def list_all_iff)

lemma host_digest_ok: "(\<And>c. hash_ok (h c)) \<Longrightarrow> tables_ok previous \<Longrightarrow> hash_ok (host_digest h previous s g c)"
  by (auto simp: host_digest_def tables_hash split: option.splits)

lemma host_one_ok:
  assumes "host_one extra h mtimes cfg previous prefix e st = Inr st'" and "hosts_ok (hs_files st)"
    and "\<And>c. hash_ok (h c)" and "tables_ok previous"
  shows "hosts_ok (hs_files st')"
  using assms(1,2) host_digest_ok[OF assms(3,4)]
  by (auto simp: host_one_def Let_def hosts_ok_def list_all_update split: if_splits node.splits)

lemma host_loop_ok:
  assumes "host_loop extra h mtimes cfg previous todo st = Inr st'" and "hosts_ok (hs_files st)"
    and "\<And>c. hash_ok (h c)" and "tables_ok previous"
  shows "hosts_ok (hs_files st')"
  using assms
proof (induction extra h mtimes cfg previous todo st arbitrary: st' rule: host_loop.induct)
  case (2 extra h mtimes cfg previous prefix n todo st)
  let ?es = "case n of Dir es \<Rightarrow> es | _ \<Rightarrow> []"
  from 2(2) obtain retained st1 where s: "host_level extra h mtimes cfg previous prefix ?es st = Inr (retained, st1)"
    "host_loop extra h mtimes cfg previous (retained @ todo) st1 = Inr st'"
    by (auto split: sum.splits)
  then have "fold_res (host_one extra h mtimes cfg previous prefix) (sort_key fst (filter (\<lambda>e. \<not> walks_as_dir (snd e)) ?es)) st = Inr st1"
    by (auto simp: host_level_def)
  then have "hosts_ok (hs_files st1)"
    by (rule fold_res_invariant) (use 2(3) host_one_ok[OF _ _ 2(4,5)] in auto)
  with 2(1)[OF s(1) refl s(2) _ 2(4,5)] show ?case by simp
qed simp

lemma host_files_ok:
  "host_files extra h mtimes cfg previous source = Inr host \<Longrightarrow> (\<And>c. hash_ok (h c)) \<Longrightarrow> tables_ok previous \<Longrightarrow> hosts_ok host"
  using host_loop_ok[of extra h mtimes cfg previous "[([], source)]" "\<lparr>hs_files = [], hs_total = 0\<rparr>"]
  by (auto simp: host_files_def hosts_ok_def)

lemma adopt_ok: "tables_ok snap \<Longrightarrow> hosts_ok host \<Longrightarrow> tables_ok (adopt host s snap)"
  using hosts_lookup[of host s] tables_ok_put(1) tables_ok_drop(1) by (auto simp: adopt_def split: option.splits)

lemma entry_digest_ok:
  "tables_ok snap \<Longrightarrow> optional_hash_ok (map_option fst (base_entry snap s))"
  "hosts_ok host \<Longrightarrow> optional_hash_ok (map_option fst (host_entry host s))"
  "digests_ok l \<Longrightarrow> optional_hash_ok (map_option fst (staged_entry l s))"
  using tables_hash[of snap s] hosts_lookup[of host s] digests_lookup[of l s]
  by (auto simp: optional_hash_ok_def base_entry_def entry_of_def host_entry_def staged_entry_def split: option.splits)

definition rb_ok :: "rebase_state \<Rightarrow> bool" where
  "rb_ok st \<longleftrightarrow> tables_ok (rb_snapshot st) \<and> conflicts_ok (rb_conflicts st)"

text \<open>How many paths the report settles, and what stays the same while none is.\<close>

definition settled_paths :: "rebase_state \<Rightarrow> nat" where
  "settled_paths st = length (absorbed (rb_report st)) + length (resolved (rb_report st))"

definition same_tables :: "rebase_state \<Rightarrow> rebase_state \<Rightarrow> bool" where
  "same_tables st st' \<longleftrightarrow> settled_paths st \<le> settled_paths st' \<and>
     (settled_paths st' = settled_paths st \<longrightarrow>
        hashes (rb_snapshot st') = hashes (rb_snapshot st) \<and> sizes (rb_snapshot st') = sizes (rb_snapshot st)
        \<and> modes (rb_snapshot st') = modes (rb_snapshot st))
     \<and> snapshot_id (rb_snapshot st') = snapshot_id (rb_snapshot st)"

lemma same_tables_trans: "same_tables a b \<Longrightarrow> same_tables b c \<Longrightarrow> same_tables a c"
  unfolding same_tables_def by (metis le_antisym le_trans)

lemma adopt_id [simp]: "snapshot_id (adopt host s snap) = snapshot_id snap"
  by (simp add: adopt_def split: option.split)

lemma branch_ok:
  assumes "rb_ok st" and "hosts_ok host"
  shows "rb_ok (note_resolved s (adopted host s (st\<lparr>rb_work := w\<rparr>)))" "rb_ok (note_resolved s (adopted host s st))"
    "rb_ok (note_absorbed s (adopted host s (st\<lparr>rb_work := w\<rparr>)))" "rb_ok (note_absorbed s (adopted host s st))"
    "rb_ok (same_as_before host s st)" "rb_ok (st\<lparr>rb_work := w\<rparr>)"
    "conflict_ok (s, cf) \<Longrightarrow> rb_ok (in_conflict s cf st)" "conflict_ok (s, cf) \<Longrightarrow> rb_ok (in_conflict s cf (st\<lparr>rb_work := w\<rparr>))"
  using assms adopt_ok conflicts_ok_delete conflicts_ok_update tables_ok_signature
  by (auto simp: rb_ok_def note_resolved_def note_absorbed_def adopted_def settled_def same_as_before_def in_conflict_def Let_def
      split: option.splits)

lemma branch_same:
  "same_tables st (note_resolved s (adopted host s (st\<lparr>rb_work := w\<rparr>)))" "same_tables st (note_resolved s (adopted host s st))"
  "same_tables st (note_absorbed s (adopted host s (st\<lparr>rb_work := w\<rparr>)))" "same_tables st (note_absorbed s (adopted host s st))"
  "same_tables st (same_as_before host s st)" "same_tables st (st\<lparr>rb_work := w\<rparr>)"
  "same_tables st (in_conflict s cf st)" "same_tables st (in_conflict s cf (st\<lparr>rb_work := w\<rparr>))"
  by (simp_all add: same_tables_def settled_paths_def note_resolved_def note_absorbed_def adopted_def settled_def
      same_as_before_def in_conflict_def Let_def split: option.split)

lemma rebase_path_keeps:
  assumes "rebase_path env source host staged keep taken s st = (r, st')" and "rb_ok st" and "hosts_ok host" and "digests_ok staged"
  shows "rb_ok st' \<and> same_tables st st'"
proof -
  have c: "conflict_ok (s, conflict_of s (base_entry (rb_snapshot st) s) (host_entry host s) (staged_entry staged s))"
    using assms(2-4) entry_digest_ok by (simp add: conflict_ok_def conflict_of_def rb_ok_def)
  obtain i w where i: "install env source s (map_of host s) (rb_work st) = (i, w)" by (rule prod.exhaust)
  show ?thesis
    using assms(1) i branch_ok(1-6)[OF assms(2,3)] branch_ok(7,8)[OF assms(2,3) c] branch_same
    by (cases i) (auto simp: rebase_path_def Let_def split: if_splits)
qed

lemma rebase_loop_keeps:
  assumes "rebase_loop env source host staged keep taken ss st = (r, st')" and "rb_ok st" and "hosts_ok host" and "digests_ok staged"
  shows "rb_ok st' \<and> same_tables st st'"
  using assms(1,2)
proof (induction ss arbitrary: st)
  case (Cons s ss)
  obtain w st1 where w: "rebase_path env source host staged keep taken s st = (w, st1)" by (rule prod.exhaust)
  note one = rebase_path_keeps[OF w Cons.prems(2) assms(3,4)]
  show ?case
  proof (cases w)
    case (Inl e)
    with Cons.prems(1) w one show ?thesis by simp
  next
    case (Inr u)
    with Cons.prems(1) w have "rebase_loop env source host staged keep taken ss st1 = (r, st')" by simp
    from Cons.IH[OF this] one same_tables_trans show ?thesis by blast
  qed
qed (simp add: same_tables_def)


section \<open>Seeding and advancing keep the tables\<close>

definition seed_sum :: "seed_state \<Rightarrow> bool" where
  "seed_sum st \<longleftrightarrow> tables_ok (seed_snapshot st)
     \<and> (distinct (seed_paths st) \<longrightarrow> fst ` set (sizes (seed_snapshot st)) \<subseteq> set (seed_paths st)
          \<and> seed_total st = sum_list (map snd (sizes (seed_snapshot st))))"

lemma update_new: "k \<notin> fst ` set es \<Longrightarrow> AList.update k v es = es @ [(k, v)]"
  by (induction es) auto

lemma seed_directory_sum:
  "seed_directory extra prefix e (r, st) = Inr (r', st') \<Longrightarrow> seed_sum st \<Longrightarrow> seed_sum st'"
  by (fastforce simp: seed_directory_def seed_sum_def Let_def split: if_splits)

lemma seed_directories_sum:
  "fold_res (seed_directory extra prefix) es (r, st) = Inr (r', st') \<Longrightarrow> seed_sum st \<Longrightarrow> seed_sum st'"
proof (induction es arbitrary: r st)
  case (Cons e es)
  then obtain r1 st1 where s: "seed_directory extra prefix e (r, st) = Inr (r1, st1)"
    "fold_res (seed_directory extra prefix) es (r1, st1) = Inr (r', st')" by auto
  from Cons.IH[OF s(2) seed_directory_sum[OF s(1) Cons.prems(2)]] show ?case .
qed simp

lemma seed_file_sum:
  assumes "seed_file extra h mtimes cfg prefix e st = Inr st'" and "seed_sum st" and "\<And>c. hash_ok (h c)"
  shows "seed_sum st'"
proof (cases "seed_skipped extra (prefix @ fst e)")
  case True
  with assms(1,2) show ?thesis by (simp add: seed_file_def Let_def)
next
  case False
  with assms(1) obtain c m k where st': "st' = st\<lparr>seed_files := seed_files st + 1, seed_total := seed_total st + int (length c),
      seed_snapshot := record_seeded h mtimes (prefix @ fst e) c m (seed_snapshot st),
      seed_paths := seed_paths st @ [prefix @ fst e],
      seed_work := put (name_parts (prefix @ fst e)) (File c m 1) (seed_work st)\<rparr>"
    by (auto simp: seed_file_def Let_def split: node.splits if_splits)
  have "tables_ok (record_seeded h mtimes (prefix @ fst e) c m (seed_snapshot st))"
    using tables_ok_put(1) assms(2,3) by (simp add: record_seeded_def seed_sum_def)
  moreover have "prefix @ fst e \<notin> fst ` set (sizes (seed_snapshot st))" if "distinct (seed_paths st @ [prefix @ fst e])"
    using assms(2) that by (auto simp: seed_sum_def subset_iff)
  ultimately show ?thesis using assms(2)
    by (auto simp: st' seed_sum_def record_seeded_def update_new image_subset_iff)
qed

lemma seed_loop_sum:
  assumes "seed_loop extra h mtimes cfg todo st = Inr st'" and "seed_sum st" and "\<And>c. hash_ok (h c)"
  shows "seed_sum st'"
  using assms
proof (induction extra h mtimes cfg todo st arbitrary: st' rule: seed_loop.induct)
  case (2 extra h mtimes cfg prefix n todo st)
  let ?es = "case n of Dir es \<Rightarrow> es | _ \<Rightarrow> []"
  from 2(2) obtain retained st2 where s: "seed_level extra h mtimes cfg prefix ?es st = Inr (retained, st2)"
    "seed_loop extra h mtimes cfg (retained @ todo) st2 = Inr st'" by (auto split: sum.splits)
  then obtain st1 where l: "fold_res (seed_directory extra prefix) (sort_key fst (filter (\<lambda>e. walks_as_dir (snd e)) ?es)) ([], st) = Inr (retained, st1)"
    "fold_res (seed_file extra h mtimes cfg prefix) (sort_key fst (filter (\<lambda>e. \<not> walks_as_dir (snd e)) ?es)) st1 = Inr st2"
    by (auto simp: seed_level_def)
  from l(2) seed_directories_sum[OF l(1) 2(3)] have "seed_sum st2"
    by (rule fold_res_invariant) (use seed_file_sum 2(4) in blast)
  from 2(1)[OF s(1) refl s(2) this 2(4)] show ?case .
qed simp

lemma seeded_storable:
  assumes "seed_service E fresh free source = Inr (snap, w)" and "fresh \<noteq> []" and "\<And>c. hash_ok (sha (sv_fs E) c)"
  shows "storable \<lparr>bl_snapshot = snap, bl_conflicts = []\<rparr>"
proof -
  from assms(1) obtain st where s: "seed_loop (extra_globs (sv_fs E)) (sha (sv_fs E)) (sv_mtimes E) (sv_config E) [([], source)] seed_start = Inr st"
    "unique_keys (nfc (sv_fs E)) (extra_globs (sv_fs E)) [] (seed_paths st) = Inr ()"
    "snap = (seed_snapshot st)\<lparr>snapshot_id := fresh, total_bytes := seed_total st\<rparr>"
    by (auto simp: seed_service_def seed_staging_def assert_unique_paths_def)
  have "seed_sum seed_start" by (simp add: seed_sum_def seed_start_def tables_ok_def snapshot_ok_def)
  from seed_loop_sum[OF s(1) this assms(3)] have "seed_sum st" .
  moreover have "distinct (seed_paths st)" using unique_keys_distinct[OF s(2)] map_res_distinct distinct_map by blast
  ultimately show ?thesis using assms(2) by (simp add: storable_iff s(3) seed_sum_def conflicts_ok_def)
qed

lemma advance_one_tables:
  assumes "advance_one cur p (hashes s, sizes s, modes s) = Inr (hs, ss, ms)" and "tables_ok s" and "digests_ok cur"
  shows "tables_ok (s\<lparr>hashes := hs, sizes := ss, modes := ms\<rparr>)"
proof (cases "op_kind p = Delete")
  case True
  with assms(1,2) tables_ok_drop(2)[OF assms(2), of "op_path p"] show ?thesis
    by (auto simp: advance_one_def Let_def split: if_splits)
next
  case False
  with assms(1) obtain d n m where v: "map_of cur (op_path p) = Some (d, n, m)"
    "hs = AList.update (op_path p) d (hashes s)" "ss = AList.update (op_path p) n (sizes s)" "ms = AList.update (op_path p) m (modes s)"
    by (auto simp: advance_one_def Let_def split: if_splits option.splits prod.splits)
  from tables_ok_put(2)[OF assms(2) digests_lookup[OF assms(3) v(1)]] show ?thesis unfolding v(2-4) .
qed

lemma advance_all_tables:
  assumes "fold_res (advance_one cur) ops (hashes s, sizes s, modes s) = Inr (hs, ss, ms)" and "tables_ok s" and "digests_ok cur"
  shows "tables_ok (s\<lparr>hashes := hs, sizes := ss, modes := ms\<rparr>)"
  using assms
proof (induction ops arbitrary: s)
  case (Cons p ops)
  then obtain hs1 ss1 ms1 where s: "advance_one cur p (hashes s, sizes s, modes s) = Inr (hs1, ss1, ms1)"
    "fold_res (advance_one cur) ops (hs1, ss1, ms1) = Inr (hs, ss, ms)" by auto
  from Cons.IH[of "s\<lparr>hashes := hs1, sizes := ss1, modes := ms1\<rparr>"] s(2) advance_one_tables[OF s(1) Cons.prems(2,3)] Cons.prems(3)
  show ?case by simp
qed auto

lemma advanced_tables:
  assumes "advance_published_staging fresh cur s ops = Inr s'" and "tables_ok s" and "digests_ok cur"
  shows "tables_ok s' \<and> snapshot_id s' = fresh \<and> total_bytes s' = sum_list (map snd (sizes s'))"
proof -
  from assms(1) obtain hs ss ms where f: "fold_res (advance_one cur) ops (hashes s, sizes s, modes s) = Inr (hs, ss, ms)"
    "s' = \<lparr>snapshot_id = fresh, hashes = hs, total_bytes = sum_list (map snd ss), sizes = ss, modes = ms,
       source_signatures = source_signatures s\<rparr>" by (auto simp: advance_published_staging_def)
  have "s' = s\<lparr>hashes := hs, sizes := ss, modes := ms, snapshot_id := fresh, total_bytes := sum_list (map snd ss)\<rparr>"
    by (cases s) (simp add: f(2))
  with advance_all_tables[OF f(1) assms(2,3)] show ?thesis by simp
qed


section \<open>Restarts\<close>

text \<open>What a restart makes of the volume: the same identifier, digests, sizes, permission bits and conflicts.
  The signatures of the host files may be older, so more files are hashed again.\<close>

definition resumes :: "baseline \<Rightarrow> baseline \<Rightarrow> bool" where
  "resumes b b' \<longleftrightarrow> snapshot_id (bl_snapshot b) = snapshot_id (bl_snapshot b')
     \<and> map_of (hashes (bl_snapshot b)) = map_of (hashes (bl_snapshot b'))
     \<and> map_of (sizes (bl_snapshot b)) = map_of (sizes (bl_snapshot b'))
     \<and> map_of (modes (bl_snapshot b)) = map_of (modes (bl_snapshot b'))
     \<and> map_of (bl_conflicts b) = map_of (bl_conflicts b')"

definition on_volume :: "service_env \<Rightarrow> service \<Rightarrow> bool" where
  "on_volume E sv \<longleftrightarrow> (\<exists>b. load_baseline (sv_shown E) (sv_volume sv) = Inr (Some b) \<and> resumes b (sv_baseline sv))"

definition service_ok :: "service_env \<Rightarrow> service \<Rightarrow> bool" where
  "service_ok E sv \<longleftrightarrow> storable (sv_baseline sv) \<and> (baseline_file (sv_volume sv) = Absent \<or> on_volume E sv)"

text \<open>What happens to the service: a tool changes the staging area, the host is merged in, a receipt or a discard
  succeeds or fails, and the executor starts again on the volumes that are there.\<close>

datatype service_event = ToolsRan | RebaseAsked | ReceiptGiven bool | DiscardAsked bool | Restarted

inductive service_step :: "service_env \<Rightarrow> service \<Rightarrow> service_event \<Rightarrow> service \<Rightarrow> bool" for E where
  tools: "service_step E sv ToolsRan (sv\<lparr>sv_work := w\<rparr>)"
| rebasing: "service_step E sv RebaseAsked sv'"
    if "executor_rebase E fresh source keep taken sv = (r, sv')" "fresh \<notin> {[], snapshot_id (bl_snapshot (sv_baseline sv))}"
| publishing: "service_step E sv (ReceiptGiven (r = Inr ())) sv'" if "mark_published E fresh receipt sv = (r, sv')" "fresh \<noteq> []"
| discarding: "service_step E sv (DiscardAsked (r = Inr ())) sv'" if "executor_discard E fresh free source sv = (r, sv')" "fresh \<noteq> []"
| restarting: "service_step E sv Restarted sv'"
    if "executor_start E fresh free source work (sv_volume sv) = Inr sv'" "fresh \<notin> {[], snapshot_id (bl_snapshot (sv_baseline sv))}"

inductive_cases service_stepE: "service_step E sv e sv'"

inductive service_run :: "service_env \<Rightarrow> service \<Rightarrow> service_event list \<Rightarrow> service \<Rightarrow> bool" for E sv0 where
  no_events: "service_run E sv0 [] sv0"
| one_more: "service_run E sv0 (es @ [e]) sv'" if "service_run E sv0 es sv" "service_step E sv e sv'"

text \<open>A discard has failed, and nothing has stored a baseline since for certain: no receipt was taken, no discard
  succeeded, and the executor was not started again.\<close>

definition unsaved :: "service_event list \<Rightarrow> bool" where
  "unsaved es \<longleftrightarrow> (\<exists>es0 es1. es = es0 @ DiscardAsked False # es1
     \<and> set es1 \<inter> {ReceiptGiven True, DiscardAsked True, Restarted} = {})"

lemma unsaved_snoc: "unsaved es \<Longrightarrow> e \<notin> {ReceiptGiven True, DiscardAsked True, Restarted} \<Longrightarrow> unsaved (es @ [e])"
  unfolding unsaved_def by (elim exE conjE, rule_tac x = es0 in exI, rule_tac x = "es1 @ [e]" in exI) auto

lemma unsaved_failed: "unsaved (es @ [DiscardAsked False])"
  unfolding unsaved_def by (intro exI[of _ es] exI[of _ "[]"]) simp

lemma saved_on_volume: "storable (sv_baseline sv) \<Longrightarrow> on_volume E (save_state E sv)"
  using saved_reloads[of "sv_baseline sv" "sv_shown E" "workspace_id (sv_config E)" "sv_volume sv"]
  by (auto simp: on_volume_def save_state_def resumes_def)

lemma saved_ok: "storable (sv_baseline sv) \<Longrightarrow> service_ok E (save_state E sv)"
  using saved_on_volume[of sv E] by (simp add: service_ok_def save_state_def)

lemma dict_differs_iff: "dict_differs a b \<longleftrightarrow> map_of a \<noteq> map_of b"
proof
  assume "map_of a \<noteq> map_of b"
  then obtain k where k: "map_of a k \<noteq> map_of b k" by (auto simp: fun_eq_iff)
  then have "k \<in> set (map fst a @ map fst b)"
    by (cases "map_of a k"; cases "map_of b k") (auto dest: map_of_SomeD intro: rev_image_eqI)
  with k show "dict_differs a b" by (auto simp: dict_differs_def list_ex_iff)
qed (auto simp: dict_differs_def list_ex_iff)

lemma executor_rebase_ok:
  assumes "executor_rebase E fresh source keep taken sv = (r, sv')" and "service_ok E sv"
    and "fresh \<notin> {[], snapshot_id (bl_snapshot (sv_baseline sv))}" and h: "\<And>c. hash_ok (sha (sv_fs E) c)"
  shows "service_ok E sv'"
proof -
  let ?b = "sv_baseline sv"
  obtain q w where q: "rebase (sv_fs E) (sv_mtimes E) (sv_config E) fresh source ?b keep taken (sv_work sv) = (q, w)"
    by (rule prod.exhaust)
  show ?thesis
  proof (cases q)
    case (Inl e)
    with assms(1,2) q show ?thesis by (auto simp: executor_rebase_def service_ok_def on_volume_def)
  next
    case (Inr z)
    obtain bl report where z: "z = (bl, report)" by (rule prod.exhaust)
    from q Inr z obtain host ks ts st u where l:
      "rebase_loop (sv_fs E) source host (listing_of (extra_globs (sv_fs E)) (sha (sv_fs E)) (sv_work sv)) ks ts
         (rebase_paths host ?b) (rebase_start ?b (sv_work sv)) = (Inr u, st)"
      "host_files (extra_globs (sv_fs E)) (sha (sv_fs E)) (sv_mtimes E) (sv_config E) (bl_snapshot ?b) source = Inr host"
      "(bl, report) = rebased fresh st"
      by (auto simp: rebase_def split: sum.splits prod.splits)
    have s0: "storable ?b" using assms(2) by (simp add: service_ok_def)
    then have "rb_ok (rebase_start ?b (sv_work sv))" "tables_ok (bl_snapshot ?b)"
      by (simp_all add: rb_ok_def rebase_start_def storable_iff)
    with rebase_loop_keeps[OF l(1) _ host_files_ok[OF l(2) h] listing_digests[OF h]]
    have k: "rb_ok st" "same_tables (rebase_start ?b (sv_work sv)) st" by blast+
    define changed where "changed \<longleftrightarrow> absorbed (rb_report st) \<noteq> [] \<or> resolved (rb_report st) \<noteq> []"
    have bl: "bl = \<lparr>bl_snapshot = (rb_snapshot st)\<lparr>snapshot_id := if changed then fresh else snapshot_id (rb_snapshot st),
        total_bytes := sum_list (map snd (sizes (rb_snapshot st)))\<rparr>, bl_conflicts = rb_conflicts st\<rparr>"
      using l(3) by (simp add: rebased_def changed_def Let_def)
    have id: "snapshot_id (rb_snapshot st) = snapshot_id (bl_snapshot ?b)"
      using k(2) by (simp add: same_tables_def rebase_start_def)
    have st: "storable bl" using k(1) s0 assms(3) id by (simp add: storable_iff bl rb_ok_def)
    show ?thesis
    proof (cases "changed \<or> dict_differs (rb_conflicts st) (bl_conflicts ?b)")
      case True
      with assms(1,3) q Inr z id have "sv' = save_state E (sv\<lparr>sv_baseline := bl, sv_work := w\<rparr>)"
        by (auto simp: executor_rebase_def Let_def bl)
      with saved_ok[of "sv\<lparr>sv_baseline := bl, sv_work := w\<rparr>" E] st show ?thesis by simp
    next
      case False
      then have "settled_paths st = settled_paths (rebase_start ?b (sv_work sv))"
        by (simp add: changed_def settled_paths_def rebase_start_def)
      with k(2) have "hashes (rb_snapshot st) = hashes (bl_snapshot ?b)" "sizes (rb_snapshot st) = sizes (bl_snapshot ?b)"
        "modes (rb_snapshot st) = modes (bl_snapshot ?b)" by (auto simp: same_tables_def rebase_start_def)
      with False id have "resumes b bl \<longleftrightarrow> resumes b ?b" for b by (simp add: resumes_def bl dict_differs_iff)
      moreover have "sv' = sv\<lparr>sv_baseline := bl, sv_work := w\<rparr>"
        using False assms(1,3) q Inr z id by (auto simp: executor_rebase_def Let_def bl)
      ultimately show ?thesis using assms(2) st by (simp add: service_ok_def on_volume_def)
    qed
  qed
qed


lemma mark_published_ok:
  assumes "mark_published E fresh receipt sv = (r, sv')" and "service_ok E sv" and "fresh \<noteq> []"
    and h: "\<And>c. hash_ok (sha (sv_fs E) c)"
  shows "service_ok E sv'"
proof (cases "sv' = sv")
  case False
  with assms(1) obtain snap where s: "advance_published_staging fresh (sv_files E sv) (bl_snapshot (sv_baseline sv)) (map received (rec_operations receipt)) = Inr snap"
    "sv' = save_state E (sv\<lparr>sv_baseline := (sv_baseline sv)\<lparr>bl_snapshot := snap\<rparr>\<rparr>)"
    by (auto simp: mark_published_def split: if_splits sum.splits)
  have "storable (sv_baseline sv)" using assms(2) by (simp add: service_ok_def)
  moreover have "digests_ok (sv_files E sv)" using listing_digests[OF h] by (simp add: sv_files_def)
  ultimately have "storable ((sv_baseline sv)\<lparr>bl_snapshot := snap\<rparr>)"
    using advanced_tables[OF s(1)] assms(3) by (simp add: storable_iff)
  with saved_ok[of "sv\<lparr>sv_baseline := (sv_baseline sv)\<lparr>bl_snapshot := snap\<rparr>\<rparr>" E] s(2) show ?thesis by simp
qed (use assms(2) in simp)

lemma executor_discard_ok:
  assumes "executor_discard E fresh free source sv = (r, sv')" and "service_ok E sv" and "fresh \<noteq> []"
    and h: "\<And>c. hash_ok (sha (sv_fs E) c)"
  shows "service_ok E sv'"
proof (cases "seed_service E fresh free source")
  case (Inl e)
  with assms(1,2) show ?thesis by (auto simp: executor_discard_def service_ok_def forget_baseline_def)
next
  case (Inr z)
  obtain snap w where z: "z = (snap, w)" by (rule prod.exhaust)
  have "storable \<lparr>bl_snapshot = snap, bl_conflicts = []\<rparr>" using seeded_storable[OF Inr[unfolded z] assms(3) h] .
  with saved_ok[of "\<lparr>sv_baseline = \<lparr>bl_snapshot = snap, bl_conflicts = []\<rparr>, sv_work = w, sv_volume = forget_baseline (sv_volume sv)\<rparr>" E]
  show ?thesis using assms(1) Inr z by (auto simp: executor_discard_def)
qed

lemma claim_keeps_baseline: "claim_volume wid v = (r, v') \<Longrightarrow> baseline_file v' = baseline_file v"
  by (auto simp: claim_volume_def split: file_doc.splits pyval.splits if_splits)

lemma load_same_file: "baseline_file v = baseline_file v' \<Longrightarrow> load_baseline shown v = load_baseline shown v'"
  by (simp add: load_baseline_def)

lemma resumes_refl: "resumes b b"
  by (simp add: resumes_def)

lemma executor_start_ok:
  assumes "executor_start E fresh free source work v = Inr sv" and "fresh \<noteq> []"
    and f: "\<And>b. load_baseline (sv_shown E) v = Inr (Some b) \<Longrightarrow> fresh \<noteq> snapshot_id (bl_snapshot b)"
    and h: "\<And>c. hash_ok (sha (sv_fs E) c)"
  shows "service_ok E sv"
proof -
  from assms(1) obtain claimed v1 stored where c: "claim_volume (workspace_id (sv_config E)) v = (Inr claimed, v1)"
    "(if claimed then load_baseline (sv_shown E) v1 else Inr None) = Inr stored"
    by (auto simp: executor_start_def split: prod.splits sum.splits)
  show ?thesis
  proof (cases "\<exists>bl w. stored = Some bl \<and> work = Some w")
    case True
    then obtain bl w where s: "stored = Some bl" "work = Some w" by blast
    then have l: "load_baseline (sv_shown E) v1 = Inr (Some bl)" using c(2) by (auto split: if_splits)
    then have "fresh \<noteq> snapshot_id (bl_snapshot bl)"
      using f load_same_file[OF claim_keeps_baseline[OF c(1)]] by simp
    moreover have "service_ok E \<lparr>sv_baseline = bl, sv_work = w, sv_volume = v1\<rparr>"
      using load_result[OF l] l resumes_refl by (auto simp: service_ok_def on_volume_def)
    moreover obtain q sv1 where q: "executor_rebase E fresh source [] [] \<lparr>sv_baseline = bl, sv_work = w, sv_volume = v1\<rparr> = (q, sv1)"
      by (rule prod.exhaust)
    moreover have "sv = sv1" using assms(1) c s q by (cases q) (auto simp: executor_start_def)
    ultimately show ?thesis using executor_rebase_ok[OF q] assms(2) h by simp
  next
    case False
    then have "sv = sv \<and> (\<exists>snap w v2. seed_service E fresh free source = Inr (snap, w)
      \<and> sv = save_state E \<lparr>sv_baseline = \<lparr>bl_snapshot = snap, bl_conflicts = []\<rparr>, sv_work = w, sv_volume = v2\<rparr>)"
      using assms(1) c by (auto simp: executor_start_def Let_def split: option.splits)
    then obtain snap w v2 where s: "seed_service E fresh free source = Inr (snap, w)"
      "sv = save_state E \<lparr>sv_baseline = \<lparr>bl_snapshot = snap, bl_conflicts = []\<rparr>, sv_work = w, sv_volume = v2\<rparr>" by blast
    from seeded_storable[OF s(1) assms(2) h] s(2) show ?thesis
      using saved_ok[of "\<lparr>sv_baseline = \<lparr>bl_snapshot = snap, bl_conflicts = []\<rparr>, sv_work = w, sv_volume = v2\<rparr>" E] by simp
  qed
qed

lemma service_step_ok:
  assumes "service_step E sv e sv'" and "service_ok E sv" and h: "\<And>c. hash_ok (sha (sv_fs E) c)"
  shows "service_ok E sv'"
  using assms(1)
proof cases
  case (tools w)
  with assms(2) show ?thesis by (simp add: service_ok_def on_volume_def)
next
  case (restarting fresh free source work)
  have "fresh \<noteq> snapshot_id (bl_snapshot b)" if "load_baseline (sv_shown E) (sv_volume sv) = Inr (Some b)" for b
  proof -
    have "baseline_file (sv_volume sv) \<noteq> Absent" using that by (auto simp: load_baseline_def)
    then have "resumes b (sv_baseline sv)" using assms(2) that by (auto simp: service_ok_def on_volume_def)
    with restarting(3) show ?thesis by (simp add: resumes_def)
  qed
  with executor_start_ok[OF restarting(2) _ _ h] restarting(3) show ?thesis by simp
qed (use executor_rebase_ok[OF _ assms(2) _ h] mark_published_ok[OF _ assms(2) _ h] executor_discard_ok[OF _ assms(2) _ h] in blast)+

text \<open>Only a failed discard takes the stored baseline away, and every event that succeeds in storing one brings it back.\<close>

lemma saved_present: "baseline_file (sv_volume (save_state E sv)) \<noteq> Absent"
  by (simp add: save_state_def save_baseline_def)

lemma rebase_present:
  assumes "executor_rebase E fresh source keep taken sv = (r, sv')" and "baseline_file (sv_volume sv) \<noteq> Absent"
  shows "baseline_file (sv_volume sv') \<noteq> Absent"
  using assms saved_present[of E] by (auto simp: executor_rebase_def Let_def split: sum.splits prod.splits if_splits)

lemma start_present:
  assumes "executor_start E fresh free source work v = Inr sv"
  shows "baseline_file (sv_volume sv) \<noteq> Absent"
proof -
  from assms obtain claimed v1 stored where c: "claim_volume (workspace_id (sv_config E)) v = (Inr claimed, v1)"
    "(if claimed then load_baseline (sv_shown E) v1 else Inr None) = Inr stored"
    by (auto simp: executor_start_def split: prod.splits sum.splits)
  show ?thesis
  proof (cases "\<exists>bl w. stored = Some bl \<and> work = Some w")
    case True
    then obtain bl w where s: "stored = Some bl" "work = Some w" by blast
    obtain q sv1 where q: "executor_rebase E fresh source [] [] \<lparr>sv_baseline = bl, sv_work = w, sv_volume = v1\<rparr> = (q, sv1)"
      by (rule prod.exhaust)
    have "load_baseline (sv_shown E) v1 = Inr (Some bl)" using c(2) s by (auto split: if_splits)
    then have "baseline_file v1 \<noteq> Absent" by (auto simp: load_baseline_def)
    moreover have "sv = sv1" using assms c s q by (cases q) (auto simp: executor_start_def)
    ultimately show ?thesis using rebase_present[OF q] by simp
  next
    case False
    then have "\<exists>sv2. sv = save_state E sv2" using assms c by (auto simp: executor_start_def Let_def split: option.splits)
    with saved_present show ?thesis by blast
  qed
qed

lemma step_present:
  assumes "service_step E sv e sv'" and "baseline_file (sv_volume sv') = Absent"
  shows "e = DiscardAsked False
    \<or> baseline_file (sv_volume sv) = Absent \<and> e \<notin> {ReceiptGiven True, DiscardAsked True, Restarted}"
  using assms(1)
proof cases
  case (publishing fresh receipt r)
  then show ?thesis using assms(2) saved_present[of E]
    by (auto simp: mark_published_def split: if_splits sum.splits)
next
  case (discarding fresh free source r)
  then show ?thesis using assms(2) saved_present[of E]
    by (auto simp: executor_discard_def split: sum.splits)
next
  case (rebasing fresh source keep taken r)
  with rebase_present[OF rebasing(2)] assms(2) show ?thesis by auto
next
  case (restarting fresh free source work)
  with start_present[OF restarting(2)] assms(2) show ?thesis by simp
qed (use assms(2) in simp)

text \<open>Claim C14. A restart resumes: after any sequence of tool calls, rebases, receipts, discards and restarts, loading the state
  volume gives the baseline that the service has in memory, with its identifier, digests, sizes, permission
  bits and conflicts (the signatures of the host files, which only save hashing, may be older); only after a discard
  that failed, and until a receipt or another discard succeeds or the executor starts again, there may be no
  baseline on the volume, so that the next start seeds again.\<close>

theorem restart_resumes:
  assumes "executor_start E fresh free source work v = Inr sv0" and "fresh \<noteq> []"
    and "\<And>b. load_baseline (sv_shown E) v = Inr (Some b) \<Longrightarrow> fresh \<noteq> snapshot_id (bl_snapshot b)"
    and "service_run E sv0 es sv" and "\<And>c. hash_ok (sha (sv_fs E) c)"
  shows "storable (sv_baseline sv) \<and>
    ((\<exists>b. load_baseline (sv_shown E) (sv_volume sv) = Inr (Some b) \<and> resumes b (sv_baseline sv))
     \<or> baseline_file (sv_volume sv) = Absent \<and> unsaved es)"
proof -
  have s0: "service_ok E sv0" by (rule executor_start_ok[OF assms(1-3,5)])
  from assms(4) have "service_ok E sv \<and> (baseline_file (sv_volume sv) = Absent \<longrightarrow> unsaved es)"
  proof (induction rule: service_run.induct)
    case no_events
    with s0 start_present[OF assms(1)] show ?case by simp
  next
    case (one_more es sv e sv')
    then have "service_ok E sv'" using service_step_ok[OF one_more.hyps(2) _ assms(5)] by simp
    moreover have "unsaved (es @ [e])" if "baseline_file (sv_volume sv') = Absent"
      using step_present[OF one_more.hyps(2) that]
    proof
      assume "e = DiscardAsked False"
      then show ?thesis using unsaved_failed by simp
    next
      assume "baseline_file (sv_volume sv) = Absent \<and> e \<notin> {ReceiptGiven True, DiscardAsked True, Restarted}"
      then show ?thesis using one_more.IH unsaved_snoc by simp
    qed
    ultimately show ?case by simp
  qed
  then show ?thesis by (auto simp: service_ok_def on_volume_def)
qed


section \<open>A discard that fails\<close>

lemma set_map_filter: "c \<in> set (List.map_filter f xs) \<longleftrightarrow> (\<exists>q\<in>set xs. f q = Some c)"
  by (induction xs) (auto simp: List.map_filter_simps split: option.splits)

lemma change_deletes:
  "change_at snap cur q = Some c \<and> ch_path c = p \<and> ch_operation c = Delete
    \<longleftrightarrow> q = p \<and> change_at snap cur p = Some c \<and> map_of cur p = None"
  by (cases "map_of cur q") (auto simp: change_at_def Let_def split: if_splits)

lemma deletions_of_changes:
  "(\<exists>c\<in>set (workspace_changes snap cur). ch_path c = p \<and> ch_operation c = Delete)
    \<longleftrightarrow> p \<in> fst ` set (hashes snap) \<and> p \<notin> fst ` set cur"
proof -
  have h: "x \<in> fst ` set d \<longleftrightarrow> map_of d x \<noteq> None" for d :: "(string \<times> 'v) list" and x
    by (simp add: map_of_eq_None_iff)
  have m: "c \<in> set (workspace_changes snap cur)
      \<longleftrightarrow> (\<exists>q\<in>fst ` set (hashes snap) \<union> fst ` set cur. change_at snap cur q = Some c)" for c
    unfolding workspace_changes_def set_map_filter by simp
  show ?thesis
  proof
    assume "\<exists>c\<in>set (workspace_changes snap cur). ch_path c = p \<and> ch_operation c = Delete"
    then obtain c where w: "c \<in> set (workspace_changes snap cur)" and d: "ch_path c = p" "ch_operation c = Delete" by blast
    obtain q where c: "change_at snap cur q = Some c" "ch_path c = p" "ch_operation c = Delete"
      and q: "q \<in> fst ` set (hashes snap) \<union> fst ` set cur" using w[unfolded m] d by blast
    have "q = p" "map_of cur p = None" using change_deletes[of snap cur q c p] c by simp_all
    then have "p \<notin> fst ` set cur" unfolding h by simp
    with q \<open>q = p\<close> show "p \<in> fst ` set (hashes snap) \<and> p \<notin> fst ` set cur" by blast
  next
    assume p: "p \<in> fst ` set (hashes snap) \<and> p \<notin> fst ` set cur"
    then have "map_of (hashes snap) p \<noteq> None" "map_of cur p = None" unfolding h by blast+
    then obtain c where c: "change_at snap cur p = Some c" "map_of cur p = None" by (auto simp: change_at_def Let_def)
    then have "ch_path c = p \<and> ch_operation c = Delete" using change_deletes[of snap cur p c p] by simp
    moreover have "c \<in> set (workspace_changes snap cur)" unfolding m using p c by blast
    ultimately show "\<exists>c\<in>set (workspace_changes snap cur). ch_path c = p \<and> ch_operation c = Delete" by blast
  qed
qed


section \<open>Examples\<close>

definition demo_env :: service_env where
  "demo_env = \<lparr>sv_fs = plain_env\<lparr>sha := \<lambda>_. replicate 64 (CHR ''0'')\<rparr>, sv_config = sample_config, sv_mtimes = (\<lambda>_. 7),
     sv_shown = (\<lambda>_. []), sv_b64encode = (\<lambda>s. s), sv_b64decode = Some\<rparr>"

definition demo_source :: node where
  "demo_source = Dir [(''a'', File ''x'' 0x1A4 1)]"

definition demo_receipt :: publication_receipt where
  "demo_receipt = \<lparr>rec_manifest_id = ''m'', rec_run_id = ''r'', rec_workspace_id = ''w'', rec_snapshot_id = ''s'',
     rec_publication_id = ''m'', rec_batch_index = 1, rec_batch_count = 1,
     rec_operations = [\<lparr>pub_path = ''a'', pub_kind = Delete, pub_sha256 = None, pub_mode = None\<rparr>]\<rparr>"

definition demo_start :: "exn + service" where
  "demo_start = executor_start demo_env ''s'' 9000000000 demo_source (Some (Dir [])) new_volume"

lemma demo_hash: "hash_ok (sha (sv_fs demo_env) c)"
  by (simp add: demo_env_def hash_ok_def list_all_iff is_hex_def is_digit_def ord_def)

lemma demo_started: "demo_start = Inr (projr demo_start)"
proof -
  have "isOK demo_start" by code_simp
  then show ?thesis by (rule isOK_projr)
qed

theorem restart_resumes_witness:
  "\<exists>sv b. service_run demo_env (projr demo_start) [ToolsRan, ReceiptGiven True] sv
     \<and> load_baseline (sv_shown demo_env) (sv_volume sv) = Inr (Some b) \<and> snapshot_id (bl_snapshot b) = ''t''"
proof -
  let ?sv1 = "(projr demo_start)\<lparr>sv_work := Dir []\<rparr>"
  let ?m = "mark_published demo_env ''t'' demo_receipt ?sv1"
  have m: "snapshot_id (bl_snapshot (sv_baseline (snd ?m))) = ''t''" "isOK (fst ?m)"
    by code_simp+
  then have r: "(fst ?m = Inr ()) = True" by (cases "fst ?m") simp_all
  have "service_run demo_env (projr demo_start) ([] @ [ToolsRan]) ?sv1" by (rule one_more[OF no_events tools])
  moreover have "service_step demo_env ?sv1 (ReceiptGiven (fst ?m = Inr ())) (snd ?m)"
    by (rule publishing[of _ "''t''" demo_receipt]) simp_all
  ultimately have run: "service_run demo_env (projr demo_start) [ToolsRan, ReceiptGiven True] (snd ?m)"
    unfolding r by (metis append_Cons append_Nil one_more)
  have "load_baseline (sv_shown demo_env) new_volume = Inr None" by (simp add: load_baseline_def new_volume_def)
  moreover have "\<not> unsaved [ToolsRan, ReceiptGiven True]" by (auto simp: unsaved_def Cons_eq_append_conv)
  ultimately show ?thesis
    using restart_resumes[OF demo_started[unfolded demo_start_def] _ _ run[unfolded demo_start_def] demo_hash] m(1) run
    unfolding demo_start_def by (auto simp: resumes_def)
qed

text \<open>The first file of the source is copied before the link is found, the second is not.\<close>

definition linked_source :: node where
  "linked_source = Dir [(''0'', File ''y'' 0x1A4 1), (''1'', Link ''gone'' None), (''a'', File ''x'' 0x1A4 1)]"

definition demo_request :: manifest_request where
  "demo_request = \<lparr>mr_fresh = ''m'', mr_run = ''r'', mr_approval = ''p'', mr_publication = [], mr_batch = PInt 1, mr_paths = PNone\<rparr>"


end
