(* ===== verification/Fingerprint.thy ===== *)
theory Fingerprint
  imports Service_State
begin

text \<open>
  The fingerprint of the staging area (\<open>staged_fingerprint\<close> in \<open>executor/app.py\<close>), to which check results are
  tied: the text that is hashed can be read back, so equal fingerprints mean equal staging areas.
\<close>

section \<open>Octal numbers\<close>

definition octal_value :: "string \<Rightarrow> nat" where
  "octal_value s = foldl (\<lambda>a c. 8 * a + (ord c - 48)) 0 s"

lemma ord_digit: "k < 8 \<Longrightarrow> ord (char_of (48 + k)) = 48 + k"
  by (simp add: ord_def)

lemma octal_value_octal: "octal_value (octal n) = n"
proof (induction n rule: octal.induct)
  case (1 n)
  show ?case
  proof (cases "n < 8")
    case True
    then show ?thesis by (subst octal.simps) (simp add: octal_value_def ord_digit)
  next
    case False
    have "ord (char_of (48 + n mod 8)) = 48 + n mod 8" by (rule ord_digit) simp
    with 1[OF False] False show ?thesis by (subst octal.simps) (simp add: octal_value_def)
  qed
qed

lemma octal_inj: "octal a = octal b \<Longrightarrow> a = b"
  by (metis octal_value_octal)

lemma octal_digits: "c \<in> set (octal n) \<Longrightarrow> 48 \<le> ord c \<and> ord c < 56"
proof (induction n rule: octal.induct)
  case (1 n)
  show ?case
  proof (cases "n < 8")
    case True
    with 1(2) have "c = char_of (48 + n)" by (subst (asm) octal.simps) simp
    with True show ?thesis by (simp add: ord_digit)
  next
    case False
    with 1(2) have "c \<in> set (octal (n div 8)) \<or> c = char_of (48 + n mod 8)" by (subst (asm) octal.simps) auto
    moreover have "ord (char_of (48 + n mod 8)) = 48 + n mod 8" by (rule ord_digit) simp
    moreover have "n mod 8 < 8" by simp
    ultimately show ?thesis using 1(1)[OF False] by auto
  qed
qed

section \<open>Reading the text back\<close>

lemma split_at_mark: "x \<notin> set a \<Longrightarrow> x \<notin> set b \<Longrightarrow> a @ x # r = b @ x # r' \<longleftrightarrow> a = b \<and> r = r'"
proof (induction a arbitrary: b)
  case Nil
  then show ?case by (cases b) auto
next
  case (Cons y a)
  then show ?case by (cases b) auto
qed

definition printable :: "string \<times> (string \<times> int \<times> int) \<Rightarrow> bool" where
  "printable e \<longleftrightarrow> NUL \<notin> set (fst e) \<and> NUL \<notin> set (fst (snd e)) \<and> 0 \<le> snd (snd (snd e))"

definition entry_key :: "string \<times> (string \<times> int \<times> int) \<Rightarrow> string \<times> string \<times> int" where
  "entry_key e = (fst e, fst (snd e), snd (snd (snd e)))"

lemma entry_key_eq: "entry_key e = (q, d, m) \<longleftrightarrow> (\<exists>n. e = (q, d, n, m))"
  by (cases e) (auto simp: entry_key_def)

lemma line_decodes:
  assumes "printable e" and "printable e'"
  shows "fingerprint_line e @ r = fingerprint_line e' @ r' \<longleftrightarrow> entry_key e = entry_key e' \<and> r = r'"
proof -
  obtain p d n m where e: "e = (p, d, n, m)" by (metis prod_cases4)
  obtain p' d' n' m' where e': "e' = (p', d', n', m')" by (metis prod_cases4)
  have lf: "CHR 0x0A \<notin> set (octal k)" for k
    using octal_digits[of "CHR 0x0A" k] by (auto simp: ord_def)
  have "nat m = nat m' \<longleftrightarrow> m = m'" using assms by (auto simp: e e' printable_def)
  then show ?thesis
    using assms lf[of "nat m"] lf[of "nat m'"]
    by (auto simp: e e' printable_def fingerprint_line_def entry_key_def split_at_mark dest: octal_inj)
qed

lemma line_not_empty: "fingerprint_line e \<noteq> []"
  by (auto simp: fingerprint_line_def split: prod.splits)

lemma lines_decode:
  "list_all printable xs \<Longrightarrow> list_all printable ys \<Longrightarrow>
    concat (map fingerprint_line xs) = concat (map fingerprint_line ys) \<longleftrightarrow> map entry_key xs = map entry_key ys"
proof (induction xs arbitrary: ys)
  case Nil
  then show ?case using line_not_empty by (cases ys) auto
next
  case (Cons x xs)
  show ?case
  proof (cases ys)
    case (Cons y ys')
    with Cons.prems Cons.IH[of ys'] line_decodes[of x y] show ?thesis by simp
  qed (use line_not_empty in simp)
qed

lemma map_of_entry_key:
  "map entry_key xs = map entry_key ys \<Longrightarrow>
    map_option (\<lambda>v. (fst v, snd (snd v))) (map_of xs q) = map_option (\<lambda>v. (fst v, snd (snd v))) (map_of ys q)"
proof (induction xs arbitrary: ys)
  case (Cons x xs)
  then obtain y ys' where "ys = y # ys'" "entry_key x = entry_key y" "map entry_key xs = map entry_key ys'" by (cases ys) auto
  moreover from Cons.IH[OF this(3)] have
    "map_option (\<lambda>v. (fst v, snd (snd v))) (map_of xs q) = map_option (\<lambda>v. (fst v, snd (snd v))) (map_of ys' q)" .
  ultimately show ?case by (cases x; cases y) (simp add: entry_key_def)
qed simp

lemma sorted_printable: "list_all printable (sort_key fst l) = list_all printable l"
  by (simp add: list_all_iff)

lemma hash_ok_no_nul: "hash_ok d \<Longrightarrow> NUL \<notin> set d"
  by (auto simp: hash_ok_def list_all_iff is_hex_def is_digit_def ord_def)

section \<open>Properties\<close>

text \<open>Claim C15. Equal fingerprints mean equal staging areas: for two listings of a service the texts that are
  hashed agree exactly when every path has the same digest and permission bits in both, so a check
  result is current only while no file changed (or SHA-256 collides).\<close>

theorem fingerprint_identifies_staging:
  assumes "distinct (map fst l)" and "distinct (map fst l')" and "digests_ok l" and "digests_ok l'"
    and "\<forall>e\<in>set l \<union> set l'. NUL \<notin> set (fst e) \<and> 0 \<le> snd (snd (snd e))"
    and "inj_on h {fingerprint_text l, fingerprint_text l'}"
  shows "staged_fingerprint h l = staged_fingerprint h l' \<longleftrightarrow> (\<forall>q. staged_view l q = staged_view l' q)"
proof -
  have pr: "list_all printable l" "list_all printable l'"
    using assms(3-5) hash_ok_no_nul by (auto simp: list_all_iff printable_def digests_ok_def)
  have view: "staged_view k q = map_option (\<lambda>v. (fst v, snd (snd v))) (map_of (sort_key fst k) q)" if "distinct (map fst k)" for k q
    using map_of_sort[OF that, of fst] by (cases "map_of k q") (auto simp: staged_view_def)
  have "staged_fingerprint h l = staged_fingerprint h l' \<longleftrightarrow> fingerprint_text l = fingerprint_text l'"
    using inj_on_eq_iff[OF assms(6)] by (simp add: staged_fingerprint_def)
  also have "\<dots> \<longleftrightarrow> map entry_key (sort_key fst l) = map entry_key (sort_key fst l')"
    using lines_decode pr by (simp add: fingerprint_text_def sorted_printable)
  also have "\<dots> \<longleftrightarrow> (\<forall>q. staged_view l q = staged_view l' q)"
  proof
    assume "map entry_key (sort_key fst l) = map entry_key (sort_key fst l')"
    from map_of_entry_key[OF this] view[OF assms(1)] view[OF assms(2)]
    show "\<forall>q. staged_view l q = staged_view l' q" by (simp only:) simp
  next
    assume v: "\<forall>q. staged_view l q = staged_view l' q"
    have keys: "(q, d, m) \<in> set (map entry_key k) \<longleftrightarrow> staged_view k q = Some (d, m)" if "distinct (map fst k)" for k q d m
    proof -
      have "(q, d, m) \<in> set (map entry_key k) \<longleftrightarrow> (\<exists>n. (q, d, n, m) \<in> set k)"
        using entry_key_eq by (simp only: set_map image_iff eq_commute[of "(q, d, m)"]) blast
      also have "\<dots> \<longleftrightarrow> (\<exists>n. map_of k q = Some (d, n, m))" using map_of_eq_Some_iff[OF that] by simp
      also have "\<dots> \<longleftrightarrow> staged_view k q = Some (d, m)" by (auto simp: staged_view_def)
      finally show ?thesis .
    qed
    have "x \<in> set (map entry_key l) \<longleftrightarrow> x \<in> set (map entry_key l')" for x
      using v keys[OF assms(1)] keys[OF assms(2)] by (cases x) (simp only:)
    then have same: "set (map entry_key l) = set (map entry_key l')" by blast
    let ?a = "map entry_key (sort_key fst l)" and ?b = "map entry_key (sort_key fst l')"
    have srt: "sorted (map fst (map entry_key (sort_key fst k)))" for k :: listing
      by (simp add: comp_def entry_key_def)
    have dst: "distinct (map fst (map entry_key (sort_key fst k)))" if "distinct (map fst k)" for k :: listing
      using that distinct_sort_fst[of fst k] by (simp add: comp_def entry_key_def)
    have ab: "set ?a = set ?b" using same by simp
    moreover have "inj_on fst (set ?a \<union> set ?b)"
      using dst[OF assms(1)] unfolding ab[symmetric] by (simp only: distinct_map Un_absorb)
    ultimately show "?a = ?b"
      using map_sorted_distinct_set_unique[of fst ?a ?b] srt dst[OF assms(1)] dst[OF assms(2)] by blast
  qed
  finally show ?thesis .
qed


definition one_listing :: "int \<Rightarrow> listing" where
  "one_listing m = [(''a'', (replicate 64 (CHR ''0''), 1, m))]"

theorem fingerprint_identifies_staging_witness:
  "staged_fingerprint (\<lambda>s. s) (one_listing 0x1A4) \<noteq> staged_fingerprint (\<lambda>s. s) (one_listing 0x1ED)"
proof -
  have d: "digests_ok (one_listing m)" for m
    by (simp add: one_listing_def digests_ok_def hash_ok_def list_all_iff is_hex_def is_digit_def ord_def)
  have "\<not> (\<forall>q. staged_view (one_listing 0x1A4) q = staged_view (one_listing 0x1ED) q)"
    by (auto simp: staged_view_def one_listing_def intro!: exI[of _ "''a''"])
  then show ?thesis
    using fingerprint_identifies_staging[of "one_listing 0x1A4" "one_listing 0x1ED" "\<lambda>s. s"] d
    by (simp add: one_listing_def)
qed

end
