(* ===== verification/Broker.thy ===== *)
theory Broker
  imports Mutations Recovery
begin

text \<open>
  The publication broker of the desktop application (\<open>src/workspace_broker.py\<close>): it alone writes to the
  user's folder.  A batch of reviewed operations is checked against the files on the host, applied in
  order, and undone from recovery copies when one of them fails.

  The host folder is a tree as in \<open>FileTree\<close>, with reparse points as links; names are compared exactly,
  while Windows folds their case.  The file system may refuse to copy, to write or to delete: for each of
  these a predicate of \<open>broker_env\<close> says at which paths.  \<open>chmod_to\<close> gives the permission bits that a file
  has after \<open>chmod\<close> (the identity on POSIX for ordinary bits; only the write bit counts on Windows) and
  \<open>temp_mode\<close> the ones \<open>mkstemp\<close> gives.  The recovery folder refuses nothing, and races with
  other programs are not modelled.
\<close>

unbundle bit_operations_syntax

record broker_env =
  b_sha :: "string \<Rightarrow> string"
  b_nfc :: "string \<Rightarrow> string"
  b_decode :: "string \<Rightarrow> string option"
  windows :: bool
  chmod_to :: "int \<Rightarrow> int"
  temp_mode :: int
  copy_refused :: "path \<Rightarrow> bool"
  write_refused :: "path \<Rightarrow> bool"
  restore_refused :: "path \<Rightarrow> bool"

text \<open>\<open>BrokerError\<close> is a \<open>RuntimeError\<close>.\<close>

definition BrokerError :: exn where
  "BrokerError = OtherErr"

section \<open>Host files\<close>

definition host_exists :: "node option \<Rightarrow> bool" where
  "host_exists n = (case n of None \<Rightarrow> False | Some (Link g r) \<Rightarrow> r \<noteq> None | Some _ \<Rightarrow> True)"

definition host_is_file :: "node option \<Rightarrow> bool" where
  "host_is_file n =
     (case n of Some (File c m k) \<Rightarrow> True | Some (Link g (Some (d, m))) \<Rightarrow> \<not> d | _ \<Rightarrow> False)"

text \<open>The walk of \<open>_target\<close>.  A link that leads nowhere does not exist for \<open>Path.exists\<close>, so it ends the
  walk like a missing component.\<close>

fun host_walk :: "node \<Rightarrow> path \<Rightarrow> exn + unit" where
  "host_walk t [] = Inr ()"
| "host_walk (Dir es) (p # ps) =
     (case map_of es p of
        None \<Rightarrow> Inr ()
      | Some (Link g r) \<Rightarrow> if r = None then Inr () else Inl BrokerError
      | Some (File c m k) \<Rightarrow> if 1 < k then Inl BrokerError else host_walk (File c m k) ps
      | Some n \<Rightarrow> host_walk n ps)"
| "host_walk t (p # ps) = Inr ()"

text \<open>After the walk no link leads out of the root, so the containment check can only fail for the root
  itself, whose parent lies outside.\<close>

definition host_target :: "node \<Rightarrow> path \<Rightarrow> bool \<Rightarrow> exn + unit" where
  "host_target t p may_not_exist =
     rbind (host_walk t p) (\<lambda>_.
       if p = [] then Inl BrokerError
       else if \<not> may_not_exist \<and> \<not> host_is_file (lookup t p) then Inl BrokerError
       else Inr ())"

definition hash_file :: "(string \<Rightarrow> string) \<Rightarrow> node option \<Rightarrow> exn + string" where
  "hash_file h n =
     (case n of
        Some (File c m k) \<Rightarrow> if 1 < k then Inl BrokerError else Inr (h c)
      | _ \<Rightarrow> Inl BrokerError)"

definition host_mode :: "node option \<Rightarrow> int option" where
  "host_mode n =
     (case n of Some (File c m k) \<Rightarrow> Some m | Some (Link g (Some (d, m))) \<Rightarrow> Some m | _ \<Rightarrow> None)"

definition modes_equivalent :: "bool \<Rightarrow> int option \<Rightarrow> int option \<Rightarrow> bool" where
  "modes_equivalent nt actual expected =
     (case (actual, expected) of
        (Some a, Some e) \<Rightarrow> if nt then (a AND 0x80 \<noteq> 0) = (e AND 0x80 \<noteq> 0) else a = e
      | _ \<Rightarrow> actual = expected)"

text \<open>\<open>_atomic_write\<close>: the missing directories, a temporary file beside the target, the replacement and
  the permission bits.\<close>

definition mode_given :: "broker_env \<Rightarrow> int option \<Rightarrow> int" where
  "mode_given env md = (case md of None \<Rightarrow> temp_mode env | Some m \<Rightarrow> chmod_to env m)"

definition write_host ::
  "broker_env \<Rightarrow> (path \<Rightarrow> bool) \<Rightarrow> path \<Rightarrow> string \<Rightarrow> int option \<Rightarrow> node \<Rightarrow> (exn + unit) \<times> node" where
  "write_host env refused p c md t =
     (case make_dirs (butlast p) t of
        Inl e \<Rightarrow> (Inl e, t)
      | Inr t1 \<Rightarrow>
          if refused p then (Inl PermissionErr, t1)
          else step_from t1 (replace_file t1 p c (mode_given env md)))"

definition unlink_host :: "(path \<Rightarrow> bool) \<Rightarrow> path \<Rightarrow> node \<Rightarrow> (exn + unit) \<times> node" where
  "unlink_host refused p t =
     (case lookup t p of
        None \<Rightarrow> (Inl FileNotFound, t)
      | Some (Dir es) \<Rightarrow> (Inl IsADirectory, t)
      | Some n \<Rightarrow> if refused p then (Inl PermissionErr, t) else (Inr (), remove_at p t))"

section \<open>One operation\<close>

record preimage =
  pi_existed :: bool
  pi_base_sha :: "string option"
  pi_base_mode :: "int option"
  pi_published_sha :: "string option"
  pi_published_mode :: "int option"

text \<open>The state of a batch: the host, the recovery metadata and copies, and the paths so far.\<close>

record batch_state =
  bs_host :: node
  bs_meta :: "(string \<times> preimage) list"
  bs_copies :: "(string \<times> string) list"
  bs_completed :: "string list"
  bs_touched :: "string list"

text \<open>Is the host file still the one that was reviewed?\<close>

definition review_host :: "broker_env \<Rightarrow> publish_operation \<Rightarrow> path \<Rightarrow> node \<Rightarrow> exn + preimage" where
  "review_host env op p t =
     rbind (host_target t p (op_kind op = Create)) (\<lambda>_.
       let existed = host_exists (lookup t p)
       in rbind (if existed then rbind (hash_file (b_sha env) (lookup t p)) (\<lambda>h. Inr (Some h)) else Inr None) (\<lambda>current.
            let md = (if existed then host_mode (lookup t p) else None)
            in if current \<noteq> base_sha256 op then Inl BrokerError
               else if \<not> modes_equivalent (windows env) md (base_mode op) then Inl BrokerError
               else Inr \<lparr>pi_existed = existed, pi_base_sha = current, pi_base_mode = md,
                         pi_published_sha = staged_sha256 op, pi_published_mode = staged_mode op\<rparr>))"

definition check_written :: "broker_env \<Rightarrow> publish_operation \<Rightarrow> node option \<Rightarrow> exn + unit" where
  "check_written env op n =
     rbind (hash_file (b_sha env) n) (\<lambda>h.
       if Some h \<noteq> staged_sha256 op then Inl BrokerError
       else if staged_mode op \<noteq> None \<and> \<not> modes_equivalent (windows env) (host_mode n) (staged_mode op)
       then Inl BrokerError
       else Inr ())"

definition put_operation ::
  "broker_env \<Rightarrow> publish_operation \<Rightarrow> path \<Rightarrow> node \<Rightarrow> (exn + unit) \<times> node" where
  "put_operation env op p t =
     (if op_kind op = Delete then unlink_host (write_refused env) p t
      else if op_content op = None \<and> content_base64 op = None then (Inl BrokerError, t)
      else case op_payload (b_decode env) op of
             Inl e \<Rightarrow> (Inl e, t)
           | Inr c \<Rightarrow>
               sbind (write_host env (write_refused env) p c (staged_mode op) t)
                 (\<lambda>_ t1. (check_written env op (lookup t1 p), t1)))"

definition keep_copy :: "broker_env \<Rightarrow> string \<Rightarrow> path \<Rightarrow> batch_state \<Rightarrow> exn + batch_state" where
  "keep_copy env relative p st =
     (case lookup (bs_host st) p of
        Some (File c m k) \<Rightarrow>
          if copy_refused env p then Inl PermissionErr
          else Inr (st\<lparr>bs_copies := AList.update relative c (bs_copies st)\<rparr>)
      | _ \<Rightarrow> Inl FileNotFound)"

definition publish_one :: "broker_env \<Rightarrow> publish_operation \<Rightarrow> batch_state \<Rightarrow> (exn + unit) \<times> batch_state" where
  "publish_one env op st =
     (case normalize_relative (b_nfc env) [] False (op_path op) of
        Inl e \<Rightarrow> (Inl e, st)
      | Inr relative \<Rightarrow>
          (let p = path_parts relative
           in case review_host env op p (bs_host st) of
                Inl e \<Rightarrow> (Inl e, st)
              | Inr pre \<Rightarrow>
                  (let st1 = st\<lparr>bs_meta := AList.update relative pre (bs_meta st)\<rparr>
                   in case (if pi_existed pre then keep_copy env relative p st1 else Inr st1) of
                        Inl e \<Rightarrow> (Inl e, st1)
                      | Inr st2 \<Rightarrow>
                          (let st3 = st2\<lparr>bs_touched := bs_touched st2 @ [relative]\<rparr>
                           in case put_operation env op p (bs_host st3) of
                                (Inl e, t1) \<Rightarrow> (Inl e, st3\<lparr>bs_host := t1\<rparr>)
                              | (Inr _, t1) \<Rightarrow>
                                  (Inr (), st3\<lparr>bs_host := t1, bs_completed := bs_completed st3 @ [relative]\<rparr>)))))"

fun publish_loop :: "broker_env \<Rightarrow> publish_operation list \<Rightarrow> batch_state \<Rightarrow> (exn + unit) \<times> batch_state" where
  "publish_loop env [] st = (Inr (), st)"
| "publish_loop env (op # ops) st = sbind (publish_one env op st) (\<lambda>_. publish_loop env ops)"

section \<open>Undoing a batch\<close>

definition restore_host ::
  "broker_env \<Rightarrow> (string \<times> preimage) list \<Rightarrow> (string \<times> string) list \<Rightarrow> string \<Rightarrow> node \<Rightarrow> (exn + unit) \<times> node" where
  "restore_host env meta cps relative t =
     (let p = path_parts relative
      in case host_target t p True of
           Inl e \<Rightarrow> (Inl e, t)
         | Inr _ \<Rightarrow>
             (case map_of meta relative of
                Some pre \<Rightarrow>
                  if pi_existed pre then
                    (case map_of cps relative of
                       None \<Rightarrow> (Inl FileNotFound, t)
                     | Some c \<Rightarrow>
                         sbind (write_host env (restore_refused env) p c (pi_base_mode pre) t) (\<lambda>_ t1.
                           (rbind (hash_file (b_sha env) (lookup t1 p)) (\<lambda>h.
                              ensure (Some h = pi_base_sha pre) BrokerError), t1)))
                  else if host_exists (lookup t p) then unlink_host (restore_refused env) p t
                  else (Inr (), t)
              | None \<Rightarrow>
                  if host_exists (lookup t p) then unlink_host (restore_refused env) p t else (Inr (), t)))"

definition restore_step ::
  "broker_env \<Rightarrow> (string \<times> preimage) list \<Rightarrow> (string \<times> string) list \<Rightarrow> string \<Rightarrow>
   node \<times> string list \<times> string list \<Rightarrow> node \<times> string list \<times> string list" where
  "restore_step env meta cps relative st =
     (case st of (t, restored, errors) \<Rightarrow>
        (case restore_host env meta cps relative t of
           (Inl e, t1) \<Rightarrow> (t1, restored, errors @ [relative])
         | (Inr _, t1) \<Rightarrow> (t1, restored @ [relative], errors)))"

text \<open>Newest first, and every path is tried.\<close>

definition restore_touched :: "broker_env \<Rightarrow> batch_state \<Rightarrow> node \<times> string list \<times> string list" where
  "restore_touched env st =
     fold (restore_step env (bs_meta st) (bs_copies st)) (rev (bs_touched st)) (bs_host st, [], [])"

section \<open>A batch\<close>

definition MAX_PUBLISH_FILES :: nat where "MAX_PUBLISH_FILES = PUBLISH_BATCH_MAX_OPERATIONS"
definition MAX_PUBLISH_BYTES :: int where "MAX_PUBLISH_BYTES = int PUBLISH_BATCH_MAX_BYTES"

lemma MAX_PUBLISH_BYTES_value [code]: "MAX_PUBLISH_BYTES = 32000000"
  by (simp add: MAX_PUBLISH_BYTES_def PUBLISH_BATCH_MAX_BYTES_def)

record broker =
  bk_identity :: string
  bk_never_publish :: "string list"

definition check_manifest :: "broker_env \<Rightarrow> broker \<Rightarrow> publish_manifest \<Rightarrow> string list \<Rightarrow> exn + unit" where
  "check_manifest env bk m approved =
     (if man_workspace_id m \<noteq> bk_identity bk then Inl BrokerError
      else if length (operations m) > MAX_PUBLISH_FILES then Inl BrokerError
      else rbind (map_res (normalize_relative (b_nfc env) [] False \<circ> op_path) (operations m)) (\<lambda>paths.
        rbind (assert_unique_paths (b_nfc env) [] paths) (\<lambda>_.
        rbind (map_res (normalize_relative (b_nfc env) [] False) approved) (\<lambda>wanted.
          if set paths \<noteq> set wanted then Inl BrokerError
          else if list_ex (\<lambda>path. matches_publish_glob path (bk_never_publish bk)) paths then Inl BrokerError
          else if sum_list (map op_payload_bytes (operations m)) > MAX_PUBLISH_BYTES then Inl BrokerError
          else Inr ()))))"

datatype batch_outcome =
    Published (published_paths: "string list")
  | Stopped (stop_reason: exn) (done_paths: "string list") (restored_paths: "string list") (rollback_errors: "string list")

definition batch_start :: "node \<Rightarrow> batch_state" where
  "batch_start t = \<lparr>bs_host = t, bs_meta = [], bs_copies = [], bs_completed = [], bs_touched = []\<rparr>"

text \<open>\<open>WorkspaceBroker.publish\<close>: an error before the checkpoint is made, or the outcome of the batch with
  the host and the recovery data it leaves.\<close>

definition publish ::
  "broker_env \<Rightarrow> broker \<Rightarrow> publish_manifest \<Rightarrow> string list \<Rightarrow> node \<Rightarrow> exn + batch_outcome \<times> batch_state" where
  "publish env bk m approved t =
     rbind (check_manifest env bk m approved) (\<lambda>_.
       case publish_loop env (operations m) (batch_start t) of
         (Inr _, st) \<Rightarrow> Inr (Published (bs_completed st), st)
       | (Inl e, st) \<Rightarrow>
           (case restore_touched env st of
              (t1, restored, errors) \<Rightarrow> Inr (Stopped e (bs_completed st) restored errors, st\<lparr>bs_host := t1\<rparr>)))"


section \<open>What a step on the host changes\<close>

lemma host_walk_empty [simp]: "host_walk (Dir []) q = Inr ()"
  by (cases q) auto

lemma host_walk_make_dirs: "make_dirs p t = Inr t' \<Longrightarrow> host_walk t q = Inr () \<Longrightarrow> host_walk t' q = Inr ()"
proof (induction p t arbitrary: t' q rule: make_dirs.induct)
  case (3 p ps es)
  let ?c = "case map_of es p of None \<Rightarrow> Dir [] | Some c \<Rightarrow> c"
  from 3(2) obtain c' where c': "make_dirs ps ?c = Inr c'" "t' = Dir (AList.update p c' es)" by auto
  have dirs: "\<exists>a. ?c = Dir a" "\<exists>b. c' = Dir b"
    using c'(1) by (cases ps; cases ?c; auto)+
  show ?case
  proof (cases q)
    case (Cons x xs)
    show ?thesis
    proof (cases "x = p")
      case True
      have "host_walk ?c xs = Inr ()" using 3(3) Cons True dirs(1) by (cases "map_of es p") auto
      from 3(1)[OF c'(1) this] True Cons c'(2) dirs(2) show ?thesis by (auto simp: map_of_update)
    qed (use 3(3) Cons c' in \<open>auto simp: map_of_update\<close>)
  qed simp
qed auto

lemma host_walk_put:
  "p \<noteq> [] \<Longrightarrow> is_dir (lookup t (butlast p)) \<Longrightarrow> host_walk t q = Inr () \<Longrightarrow> host_walk (put p (File c m 1) t) q = Inr ()"
proof (induction p "File c m 1" t arbitrary: q rule: put.induct)
  case (2 p ps es)
  show ?case
  proof (cases q)
    case (Cons x xs)
    show ?thesis
    proof (cases "x = p")
      case True
      show ?thesis
      proof (cases "ps = []")
        case True
        then show ?thesis using \<open>x = p\<close> Cons by (cases xs) (auto simp: map_of_update)
      next
        case False
        with 2(3) obtain d where d: "map_of es p = Some d" "is_dir (lookup d (butlast ps))"
          by (auto split: option.splits)
        then obtain ds where ds: "d = Dir ds" by (cases d; cases "butlast ps") auto
        obtain y ys where ps: "ps = y # ys" using False by (cases ps) auto
        have "host_walk d xs = Inr ()" using 2(4) Cons True d(1) ds by simp
        with 2(1)[of xs] False d have w: "host_walk (put ps (File c m 1) d) xs = Inr ()" by simp
        have "\<exists>es'. put ps (File c m 1) d = Dir es'" using ds ps by simp
        with w True Cons d(1) show ?thesis by (auto simp: map_of_update)
      qed
    qed (use 2(4) Cons in \<open>auto simp: map_of_update\<close>)
  qed simp
qed auto

lemma remove_at_leaf: "\<not> is_dir (Some n) \<Longrightarrow> remove_at p n = n"
  by (cases n; cases p) (auto simp: is_dir_def)

lemma remove_at_dir: "\<exists>es'. remove_at p (Dir es) = Dir es'"
  by (cases "(p, Dir es)" rule: remove_at.cases) (auto split: option.splits)

lemma host_walk_remove: "host_walk t q = Inr () \<Longrightarrow> host_walk (remove_at p t) q = Inr ()"
proof (induction p t arbitrary: q rule: remove_at.induct)
  case (2 p es)
  then show ?case by (cases q) (auto simp: delete_conv' split: option.splits)
next
  case (3 p a ps es)
  show ?case
  proof (cases q)
    case (Cons x xs)
    show ?thesis
    proof (cases "map_of es p")
      case (Some d)
      show ?thesis
      proof (cases "is_dir (Some d)")
        case True
        then obtain ds where ds: "d = Dir ds" by (cases d) auto
        with 3(2) Cons Some have "x = p \<Longrightarrow> host_walk d xs = Inr ()" by auto
        with 3(1)[OF Some] have "x = p \<Longrightarrow> host_walk (remove_at (a # ps) d) xs = Inr ()" by simp
        with 3(2) Cons Some ds remove_at_dir[of "a # ps" ds] show ?thesis by (auto simp: map_of_update)
      next
        case False
        with 3(2) Cons Some show ?thesis by (simp add: remove_at_leaf update_same)
      qed
    qed (use 3(2) in simp)
  qed simp
qed auto

text \<open>A step at one path: leaves elsewhere and every directory stay, new directories lie above the path,
  and no other path becomes unsafe.\<close>

definition touches :: "path \<Rightarrow> node \<Rightarrow> node \<Rightarrow> bool" where
  "touches p t t' \<longleftrightarrow> good_tree t' \<and> (\<forall>q. q \<noteq> p \<longrightarrow> leaves t' q = leaves t q)
     \<and> (\<forall>q. is_dir (lookup t q) \<longrightarrow> is_dir (lookup t' q))
     \<and> (\<forall>q. is_dir (lookup t' q) \<longrightarrow> is_dir (lookup t q) \<or> under q (butlast p))
     \<and> (\<forall>q. host_walk t q = Inr () \<longrightarrow> host_walk t' q = Inr ())"

lemma touches_refl: "good_tree t \<Longrightarrow> touches p t t"
  by (simp add: touches_def)

lemma touches_trans: "touches p t t1 \<Longrightarrow> touches p t1 t2 \<Longrightarrow> touches p t t2"
  unfolding touches_def by metis

lemma touchesD:
  assumes "touches p t t'"
  shows "good_tree t'" "q \<noteq> p \<Longrightarrow> leaves t' q = leaves t q"
    "is_dir (lookup t q) \<Longrightarrow> is_dir (lookup t' q)"
    "is_dir (lookup t' q) \<Longrightarrow> \<not> is_dir (lookup t q) \<Longrightarrow> under q (butlast p)"
    "host_walk t q = Inr () \<Longrightarrow> host_walk t' q = Inr ()"
  using assms by (auto simp: touches_def)

lemma make_dirs_touches:
  assumes "make_dirs (butlast p) t = Inr t'" and "good_tree t" and "list_all valid_name p"
  shows "touches p t t'"
proof -
  have "list_all valid_name (butlast p)" using assms(3) by (auto simp: list_all_iff dest: in_set_butlastD)
  with make_dirs_good[OF assms(1,2)] have "good_tree t'" by simp
  with make_dirs_leaves[OF assms(1)] make_dirs_keeps_dir[OF assms(1)] shape_make_dirs[OF assms(1)]
    host_walk_make_dirs[OF assms(1)] show ?thesis by (auto simp: touches_def is_dir_shape split: if_splits)
qed

lemma replace_file_touches:
  assumes "replace_file t p c m = Inr t'" and "good_tree t" and "p \<noteq> []" and "list_all valid_name p"
  shows "touches p t t'"
proof -
  from assms(1) have r: "is_dir (lookup t (butlast p))" "\<not> is_dir (lookup t p)" "t' = put p (File c m 1) t"
    by (simp_all add: replace_file_Inr)
  have g: "good_tree t'" using replace_file_good[OF assms(1,3,2,4)] by simp
  have l: "leaves t' q = leaves t q" if "q \<noteq> p" for q
    using replace_file_leaves[OF assms(1,3)] that by simp
  have s: "is_dir (lookup t' q) \<longleftrightarrow> is_dir (lookup t q)" for q
    using put_shape[OF assms(3) r(1,2), of "File c m 1" q] r(2,3) by (auto simp: is_dir_shape)
  have w: "host_walk t q = Inr () \<Longrightarrow> host_walk t' q = Inr ()" for q
    using host_walk_put[OF assms(3) r(1)] r(3) by simp
  show ?thesis using g l s w by (simp add: touches_def)
qed

lemma write_host_effect:
  assumes "write_host env refused p c md t = (r, t')" and "good_tree t" and "p \<noteq> []" and "list_all valid_name p"
  shows "touches p t t' \<and> (r = Inr u \<longrightarrow> lookup t' p = Some (File c (mode_given env md) 1))"
proof (cases "make_dirs (butlast p) t")
  case (Inl e)
  with assms(1,2) show ?thesis by (auto simp: write_host_def touches_refl)
next
  case (Inr t1)
  have m: "touches p t t1" by (rule make_dirs_touches[OF Inr assms(2,4)])
  show ?thesis
  proof (cases "refused p \<or> (\<exists>e. replace_file t1 p c (mode_given env md) = Inl e)")
    case True
    with assms(1) Inr m show ?thesis by (auto simp: write_host_def step_from_def split: if_splits sum.splits)
  next
    case False
    then obtain t2 where t2: "replace_file t1 p c (mode_given env md) = Inr t2" by (cases "replace_file t1 p c (mode_given env md)") auto
    from assms(1) Inr False t2 have "r = Inr ()" "t' = t2" by (simp_all add: write_host_def step_from_def)
    with touches_trans[OF m replace_file_touches[OF t2 touchesD(1)[OF m] assms(3,4)]]
      replace_file_good[OF t2 assms(3) touchesD(1)[OF m] assms(4)] show ?thesis by simp
  qed
qed

lemma unlink_host_effect:
  assumes "unlink_host refused p t = (r, t')" and "good_tree t" and "p \<noteq> []"
  shows "touches p t t' \<and> (r = Inr u \<longrightarrow> leaves t' p = None)"
proof (cases "t' = t \<and> r \<noteq> Inr u")
  case True
  with assms(2) show ?thesis by (simp add: touches_refl)
next
  case False
  with assms(1) have d: "\<not> is_dir (lookup t p)" and t': "t' = remove_at p t"
    by (auto simp: unlink_host_def is_dir_def split: option.splits node.splits if_splits)
  have s: "shape t' q = (if q = p then None else shape t q)" for q
    using remove_shape[OF assms(3) d] t' by simp
  have "leaves t' = (leaves t)(p := None)" using remove_leaves[OF assms(3) d] t' by simp
  moreover have "is_dir (lookup t' q) \<longleftrightarrow> is_dir (lookup t q)" for q
    using s[of q] d by (auto simp: is_dir_shape)
  moreover have "good_tree t'" using remove_good[OF assms(2,3) d] t' by simp
  moreover have "host_walk t q = Inr () \<Longrightarrow> host_walk t' q = Inr ()" for q
    using host_walk_remove t' by simp
  ultimately show ?thesis by (simp add: touches_def)
qed


section \<open>What one operation does\<close>

definition host_view :: "node \<Rightarrow> path \<Rightarrow> (string \<times> int) option" where
  "host_view t q = (case leaves t q of Some (Inl v) \<Rightarrow> Some v | _ \<Rightarrow> None)"

text \<open>What an operation means for its path.\<close>

definition published_leaf :: "broker_env \<Rightarrow> publish_operation \<Rightarrow> (string \<times> int + string) option" where
  "published_leaf env op =
     (if op_kind op = Delete then None
      else case op_payload (b_decode env) op of
             Inl e \<Rightarrow> None
           | Inr c \<Rightarrow> Some (Inl (c, mode_given env (staged_mode op))))"

lemma host_view_leaves: "leaves t q = leaves t' q \<Longrightarrow> host_view t q = host_view t' q"
  by (simp add: host_view_def)

lemma host_view_lookup:
  "host_view t q = Some (c, m) \<longleftrightarrow> (\<exists>k. lookup t q = Some (File c m k))"
  by (auto simp: host_view_def leaves_def leaf_iff(1)[symmetric] split: option.splits sum.splits)

lemma put_operation_effect:
  assumes "put_operation env op p t = (r, t')" and "good_tree t" and "p \<noteq> []" and "list_all valid_name p"
  shows "touches p t t' \<and> (r = Inr u \<longrightarrow> leaves t' p = published_leaf env op)"
proof (cases "op_kind op = Delete")
  case True
  with assms(1) have "unlink_host (write_refused env) p t = (r, t')" by (simp add: put_operation_def)
  from unlink_host_effect[OF this assms(2,3), of u] True show ?thesis by (simp add: published_leaf_def)
next
  case False
  show ?thesis
  proof (cases "op_content op = None \<and> content_base64 op = None \<or> (\<exists>e. op_payload (b_decode env) op = Inl e)")
    case True
    with False assms(1,2) show ?thesis by (auto simp: put_operation_def touches_refl split: if_splits)
  next
    case okay: False
    then obtain c where c: "op_payload (b_decode env) op = Inr c" by (cases "op_payload (b_decode env) op") auto
    obtain w t1 where w: "write_host env (write_refused env) p c (staged_mode op) t = (w, t1)" by (rule prod.exhaust)
    note e = write_host_effect[OF w assms(2-4)]
    show ?thesis
    proof (cases w)
      case (Inl x)
      with assms(1) False okay c w e show ?thesis by (auto simp: put_operation_def)
    next
      case (Inr x)
      with assms(1) False okay c w have "t' = t1" by (auto simp: put_operation_def)
      with Inr False c e[of x] show ?thesis by (simp add: published_leaf_def leaves_def)
    qed
  qed
qed

text \<open>What a passed review says of the host file.\<close>

lemma review_host_Inr:
  assumes "review_host env op p t = Inr pre"
  shows "p \<noteq> []" and "host_walk t p = Inr ()" and "\<not> is_dir (lookup t p)"
    and "map_option (b_sha env \<circ> fst) (host_view t p) = base_sha256 op"
    and "case host_view t p of
           None \<Rightarrow> \<not> pi_existed pre
         | Some (c, m) \<Rightarrow> pi_existed pre \<and> pi_base_sha pre = Some (b_sha env c) \<and> pi_base_mode pre = Some m
             \<and> is_dir (lookup t (butlast p)) \<and> (\<exists>k. lookup t p = Some (File c m k))"
proof -
  from assms have tg: "host_walk t p = Inr ()" "p \<noteq> []"
    by (auto simp: review_host_def host_target_def split: if_splits)
  show "p \<noteq> []" "host_walk t p = Inr ()" by fact+
  have v: "(\<not> host_exists (lookup t p) \<and> base_sha256 op = None \<and> \<not> pi_existed pre) \<or>
    (\<exists>c m k. lookup t p = Some (File c m k) \<and> base_sha256 op = Some (b_sha env c)
       \<and> pi_existed pre \<and> pi_base_sha pre = Some (b_sha env c) \<and> pi_base_mode pre = Some m)"
    using assms by (auto simp: review_host_def Let_def hash_file_def host_mode_def split: if_splits option.splits node.splits)
  then consider "\<not> host_exists (lookup t p)" "base_sha256 op = None" "\<not> pi_existed pre"
    | c m k where "lookup t p = Some (File c m k)" "base_sha256 op = Some (b_sha env c)"
      "pi_existed pre" "pi_base_sha pre = Some (b_sha env c)" "pi_base_mode pre = Some m" by auto
  then have "\<not> is_dir (lookup t p) \<and> map_option (b_sha env \<circ> fst) (host_view t p) = base_sha256 op \<and>
     (case host_view t p of
           None \<Rightarrow> \<not> pi_existed pre
         | Some (c, m) \<Rightarrow> pi_existed pre \<and> pi_base_sha pre = Some (b_sha env c) \<and> pi_base_mode pre = Some m
             \<and> is_dir (lookup t (butlast p)) \<and> (\<exists>k. lookup t p = Some (File c m k)))"
  proof cases
    case 1
    then show ?thesis by (auto simp: host_exists_def host_view_def leaves_def is_dir_def split: option.splits node.splits)
  next
    case 2
    then show ?thesis using parent_is_dir[of t p] tg(2) by (simp add: host_view_def leaves_def)
  qed
  then show "\<not> is_dir (lookup t p)" "map_option (b_sha env \<circ> fst) (host_view t p) = base_sha256 op"
    "case host_view t p of
           None \<Rightarrow> \<not> pi_existed pre
         | Some (c, m) \<Rightarrow> pi_existed pre \<and> pi_base_sha pre = Some (b_sha env c) \<and> pi_base_mode pre = Some m
             \<and> is_dir (lookup t (butlast p)) \<and> (\<exists>k. lookup t p = Some (File c m k))" by auto
qed

section \<open>The state of a batch\<close>

text \<open>The recovery data of a path is the host file as it was before the batch.\<close>

definition saved :: "broker_env \<Rightarrow> node \<Rightarrow> (string \<times> preimage) list \<Rightarrow> (string \<times> string) list \<Rightarrow> string \<Rightarrow> bool" where
  "saved env t0 meta cps relative \<longleftrightarrow>
     path_parts relative \<noteq> [] \<and> list_all valid_name (path_parts relative) \<and>
     (\<exists>pre. map_of meta relative = Some pre \<and>
        (case host_view t0 (path_parts relative) of
           None \<Rightarrow> \<not> pi_existed pre
         | Some (c, m) \<Rightarrow> pi_existed pre \<and> pi_base_sha pre = Some (b_sha env c) \<and> pi_base_mode pre = Some m
             \<and> map_of cps relative = Some c))"

definition places :: "string list \<Rightarrow> path set" where
  "places names = path_parts ` set names"

definition batch_inv :: "broker_env \<Rightarrow> node \<Rightarrow> batch_state \<Rightarrow> bool" where
  "batch_inv env t0 st \<longleftrightarrow>
     good_tree (bs_host st) \<and> distinct (bs_touched st)
     \<and> (\<forall>q. q \<notin> places (bs_touched st) \<longrightarrow> leaves (bs_host st) q = leaves t0 q)
     \<and> (\<forall>r\<in>set (bs_touched st). saved env t0 (bs_meta st) (bs_copies st) r)"

lemma path_parts_inj: "path_parts a = path_parts b \<Longrightarrow> path_parts a \<noteq> [] \<Longrightarrow> a = b"
  by (metis path_parts_def join_split_on)

lemma normalized_valid: "normalize_relative f extra allow s = Inr n \<Longrightarrow> list_all valid_name (path_parts n)"
proof -
  assume n: "normalize_relative f extra allow s = Inr n"
  then have "reject_links (Dir []) (path_parts n) = Inr ()" by (cases "path_parts n") auto
  with n have "path_parts n \<noteq> [] \<Longrightarrow> safe_path f extra (\<lambda>_. False) (Dir []) False allow s = Inr (path_parts n)"
    by (auto simp: safe_path_def Let_def path_exists_def reject_links_dir)
      (cases "butlast (path_parts n)"; simp)
  from safe_path_valid[OF this] show ?thesis by (cases "path_parts n = []") auto
qed

text \<open>One operation: the invariant of the batch, and what has become of its path.\<close>

lemma publish_one_effect:
  assumes "publish_one env op st = (r, st')" and "batch_inv env t0 st"
    and "normalize_relative (b_nfc env) [] False (op_path op) = Inr n" and "n \<notin> set (bs_touched st)"
  shows "batch_inv env t0 st' \<and> touches (path_parts n) (bs_host st) (bs_host st')
    \<and> (bs_touched st' = bs_touched st \<and> bs_host st' = bs_host st \<or>
       bs_touched st' = bs_touched st @ [n] \<and> \<not> is_dir (lookup (bs_host st) (path_parts n))
         \<and> host_walk (bs_host st) (path_parts n) = Inr ()
         \<and> (host_view t0 (path_parts n) \<noteq> None \<longrightarrow> is_dir (lookup (bs_host st) (butlast (path_parts n)))))
    \<and> (r = Inr u \<longrightarrow> bs_touched st' = bs_touched st @ [n] \<and> bs_completed st' = bs_completed st @ [n]
         \<and> leaves (bs_host st') (path_parts n) = published_leaf env op
         \<and> \<not> is_dir (lookup (bs_host st) (path_parts n))
         \<and> map_option (b_sha env \<circ> fst) (host_view t0 (path_parts n)) = base_sha256 op)"
proof -
  define p where "p = path_parts n"
  have inv: "good_tree (bs_host st)" "distinct (bs_touched st)"
    "\<And>q. q \<notin> places (bs_touched st) \<Longrightarrow> leaves (bs_host st) q = leaves t0 q"
    "\<And>r. r \<in> set (bs_touched st) \<Longrightarrow> saved env t0 (bs_meta st) (bs_copies st) r"
    using assms(2) by (auto simp: batch_inv_def)
  show ?thesis
  proof (cases "review_host env op p (bs_host st)")
    case (Inl e)
    with assms(1-3) inv(1) show ?thesis by (auto simp: publish_one_def Let_def p_def touches_refl)
  next
    case (Inr pre)
    note rv = review_host_Inr[OF Inr]
    have fresh: "p \<notin> places (bs_touched st)"
      using path_parts_inj[of n] rv(1) assms(4) by (auto simp: places_def p_def)
    have view: "host_view (bs_host st) p = host_view t0 p" by (rule host_view_leaves[OF inv(3)[OF fresh]])
    define st1 where "st1 = st\<lparr>bs_meta := AList.update n pre (bs_meta st)\<rparr>"
    define kc where "kc = (if pi_existed pre then keep_copy env n p st1 else Inr st1)"
    have eq: "publish_one env op st = (case kc of
        Inl e \<Rightarrow> (Inl e, st1)
      | Inr st2 \<Rightarrow> (case put_operation env op p (bs_host st2) of
          (Inl e, t1) \<Rightarrow> (Inl e, st2\<lparr>bs_touched := bs_touched st2 @ [n], bs_host := t1\<rparr>)
        | (Inr _, t1) \<Rightarrow> (Inr (), st2\<lparr>bs_touched := bs_touched st2 @ [n], bs_host := t1,
            bs_completed := bs_completed st2 @ [n]\<rparr>)))"
      using Inr assms(3)
      by (simp add: publish_one_def Let_def p_def[symmetric] st1_def[symmetric] kc_def[symmetric] split: sum.split prod.split)
    have kept: "saved env t0 (AList.update n pre (bs_meta st)) cps r"
      if "r \<in> set (bs_touched st)" "map_of cps r = map_of (bs_copies st) r" for cps r
      using inv(4)[OF that(1)] that assms(4) by (auto simp: saved_def map_of_update split: option.splits)
    show ?thesis
    proof (cases kc)
      case (Inl e)
      with assms(1) eq have s: "r = Inl e" "st' = st1" by simp_all
      have "batch_inv env t0 st1" using inv(1,2,3) kept[of _ "bs_copies st"] by (simp add: batch_inv_def st1_def)
      with s inv(1) show ?thesis by (simp add: touches_refl st1_def)
    next
      case (Inr st2)
      have st2: "bs_host st2 = bs_host st" "bs_touched st2 = bs_touched st" "bs_completed st2 = bs_completed st"
        "bs_meta st2 = AList.update n pre (bs_meta st)"
        using Inr by (auto simp: kc_def keep_copy_def st1_def split: if_splits option.splits node.splits)
      have cps: "\<And>x. x \<noteq> n \<Longrightarrow> map_of (bs_copies st2) x = map_of (bs_copies st) x"
        using Inr by (auto simp: kc_def keep_copy_def st1_def map_of_update split: if_splits option.splits node.splits)
      have mine: "saved env t0 (bs_meta st2) (bs_copies st2) n"
        using Inr rv(1,5) normalized_valid[OF assms(3)] view
        by (auto simp: saved_def st2(4) map_of_update p_def[symmetric] kc_def keep_copy_def st1_def
          split: option.splits if_splits node.splits)
      obtain w t1 where w: "put_operation env op p (bs_host st) = (w, t1)" by (rule prod.exhaust)
      have e: "touches p (bs_host st) t1" "w = Inr () \<Longrightarrow> leaves t1 p = published_leaf env op"
        using put_operation_effect[OF w inv(1) rv(1), of "()"] normalized_valid[OF assms(3)] by (simp_all add: p_def)
      have s: "bs_host st' = t1 \<and> bs_touched st' = bs_touched st @ [n] \<and> bs_meta st' = bs_meta st2
        \<and> bs_copies st' = bs_copies st2 \<and> r = w \<and> (w = Inr () \<longrightarrow> bs_completed st' = bs_completed st @ [n])"
        using assms(1) eq Inr w st2 by (auto split: sum.splits)
      have "leaves t1 q = leaves t0 q" if "q \<notin> places (bs_touched st @ [n])" for q
        using that touchesD(2)[OF e(1), of q] inv(3)[of q] by (auto simp: places_def p_def)
      moreover have "saved env t0 (bs_meta st2) (bs_copies st2) x" if "x \<in> set (bs_touched st @ [n])" for x
        using that mine kept[of x "bs_copies st2"] cps[of x] assms(4) st2(4) by auto
      ultimately have "batch_inv env t0 st'"
        using s inv(2) assms(4) touchesD(1)[OF e(1)] by (simp add: batch_inv_def)
      moreover have "host_view t0 p \<noteq> None \<longrightarrow> is_dir (lookup (bs_host st) (butlast p))"
        using rv(5) view by (auto split: option.splits)
      ultimately show ?thesis using s e rv(2,3,4) view by (cases w) (auto simp: p_def)
    qed
  qed
qed


section \<open>The whole batch\<close>

definition host_path_of :: "broker_env \<Rightarrow> publish_operation \<Rightarrow> path" where
  "host_path_of env op =
     (case normalize_relative (b_nfc env) [] False (op_path op) of Inl e \<Rightarrow> [] | Inr n \<Rightarrow> path_parts n)"

text \<open>What a completed operation has done, seen from the host before the batch.\<close>

definition performed :: "broker_env \<Rightarrow> node \<Rightarrow> node \<Rightarrow> publish_operation \<Rightarrow> bool" where
  "performed env t0 t' op \<longleftrightarrow>
     leaves t' (host_path_of env op) = published_leaf env op \<and> \<not> is_dir (lookup t0 (host_path_of env op))
     \<and> map_option (b_sha env \<circ> fst) (host_view t0 (host_path_of env op)) = base_sha256 op"

lemma batch_start_inv: "good_tree t \<Longrightarrow> batch_inv env t (batch_start t)"
  by (simp add: batch_inv_def batch_start_def)

lemma publish_loop_effect:
  assumes "publish_loop env ops st = (r, st')" and "batch_inv env t0 st"
    and "map_res (normalize_relative (b_nfc env) [] False \<circ> op_path) ops = Inr ns"
    and "distinct (bs_touched st @ ns)" and "\<forall>q. is_dir (lookup t0 q) \<longrightarrow> is_dir (lookup (bs_host st) q)"
  shows "batch_inv env t0 st' \<and> (\<forall>q. is_dir (lookup (bs_host st) q) \<longrightarrow> is_dir (lookup (bs_host st') q))
    \<and> (\<forall>q. q \<notin> places ns \<longrightarrow> leaves (bs_host st') q = leaves (bs_host st) q)
    \<and> set (bs_touched st') \<subseteq> set (bs_touched st) \<union> set ns
    \<and> (r = Inr u \<longrightarrow> bs_completed st' = bs_completed st @ ns \<and> bs_touched st' = bs_touched st @ ns
         \<and> (\<forall>op\<in>set ops. performed env t0 (bs_host st') op))"
  using assms
proof (induction ops arbitrary: st ns)
  case (Cons op ops)
  from Cons.prems(3) obtain n ms where n: "normalize_relative (b_nfc env) [] False (op_path op) = Inr n"
    and ms: "map_res (normalize_relative (b_nfc env) [] False \<circ> op_path) ops = Inr ms" and ns: "ns = n # ms" by (auto simp: comp_def)
  have t: "host_path_of env op = path_parts n" by (simp add: host_path_of_def n)
  obtain w st1 where w: "publish_one env op st = (w, st1)" by (rule prod.exhaust)
  have fresh: "n \<notin> set (bs_touched st)" using Cons.prems(4) ns by simp
  note one = publish_one_effect[OF w Cons.prems(2) n fresh]
  have i1: "batch_inv env t0 st1" and tc: "touches (path_parts n) (bs_host st) (bs_host st1)" using one by blast+
  have d1: "\<forall>q. is_dir (lookup (bs_host st) q) \<longrightarrow> is_dir (lookup (bs_host st1) q)" using touchesD(3)[OF tc] by blast
  have l1: "q \<noteq> path_parts n \<Longrightarrow> leaves (bs_host st1) q = leaves (bs_host st) q" for q using touchesD(2)[OF tc] by blast
  show ?case
  proof (cases w)
    case (Inl e)
    with Cons.prems(1) w have s: "r = Inl e" "st' = st1" by simp_all
    have "set (bs_touched st1) \<subseteq> set (bs_touched st) \<union> {n}" using one by auto
    with s i1 d1 l1 ns show ?thesis by (auto simp: places_def)
  next
    case (Inr x)
    with one have o: "bs_touched st1 = bs_touched st @ [n]" "bs_completed st1 = bs_completed st @ [n]"
      "leaves (bs_host st1) (path_parts n) = published_leaf env op" "\<not> is_dir (lookup (bs_host st) (path_parts n))"
      "map_option (b_sha env \<circ> fst) (host_view t0 (path_parts n)) = base_sha256 op" by simp_all
    from Inr Cons.prems(1) w have rest: "publish_loop env ops st1 = (r, st')" by simp
    have "distinct (bs_touched st1 @ ms)" using Cons.prems(4) ns o(1) by auto
    moreover have "\<forall>q. is_dir (lookup t0 q) \<longrightarrow> is_dir (lookup (bs_host st1) q)" using Cons.prems(5) d1 by blast
    ultimately have ih: "batch_inv env t0 st'" "\<forall>q. is_dir (lookup (bs_host st1) q) \<longrightarrow> is_dir (lookup (bs_host st') q)"
      "\<And>q. q \<notin> places ms \<Longrightarrow> leaves (bs_host st') q = leaves (bs_host st1) q"
      "set (bs_touched st') \<subseteq> set (bs_touched st1) \<union> set ms"
      "r = Inr u \<Longrightarrow> bs_completed st' = bs_completed st1 @ ms \<and> bs_touched st' = bs_touched st1 @ ms
         \<and> (\<forall>op\<in>set ops. performed env t0 (bs_host st') op)"
      using Cons.IH[OF rest i1 ms] by blast+
    have "path_parts n \<noteq> []" using o(4) i1 Cons.prems(2) by (auto simp: batch_inv_def good_tree_def)
    then have "path_parts n \<notin> places ms"
      using path_parts_inj[of n] Cons.prems(4) ns by (auto simp: places_def)
    then have "performed env t0 (bs_host st') op"
      using ih(3) o(3-5) Cons.prems(5) by (auto simp: performed_def t)
    moreover have "leaves (bs_host st') q = leaves (bs_host st) q" if "q \<notin> places ns" for q
      using that ih(3)[of q] l1[of q] ns by (simp add: places_def)
    moreover have "\<forall>q. is_dir (lookup (bs_host st) q) \<longrightarrow> is_dir (lookup (bs_host st') q)" using d1 ih(2) by blast
    moreover have "set (bs_touched st') \<subseteq> set (bs_touched st) \<union> set ns" using ih(4) o(1) ns by auto
    moreover have "r = Inr u \<longrightarrow> bs_completed st' = bs_completed st @ ns \<and> bs_touched st' = bs_touched st @ ns
         \<and> (\<forall>op\<in>set ops. performed env t0 (bs_host st') op)" using ih(5) o(1,2) ns by simp
    ultimately show ?thesis using ih(1) by simp
  qed
qed simp

text \<open>The permission bits of a finished batch passed the check after writing.\<close>

lemma put_operation_mode:
  assumes "put_operation env op p t = (Inr u, t')" and "good_tree t" and "p \<noteq> []" and "list_all valid_name p"
    and "op_kind op \<noteq> Delete" and "staged_mode op = Some k"
  shows "modes_equivalent (windows env) (Some (chmod_to env k)) (Some k)"
proof -
  from assms(1,5) obtain c where c: "op_payload (b_decode env) op = Inr c"
    by (auto simp: put_operation_def split: if_splits sum.splits)
  obtain r t1 where w: "write_host env (write_refused env) p c (Some k) t = (r, t1)" by (rule prod.exhaust)
  from assms(1,5,6) c w obtain v where r: "r = Inr v" and ch: "check_written env op (lookup t1 p) = Inr u"
    by (cases r) (auto simp: put_operation_def split: if_splits)
  have "lookup t1 p = Some (File c (chmod_to env k) 1)"
    using write_host_effect[OF w assms(2-4), of v] r by (simp add: mode_given_def)
  with ch assms(6) show ?thesis by (auto simp: check_written_def host_mode_def hash_file_def split: if_splits)
qed

lemma publish_one_mode:
  assumes "publish_one env op st = (Inr u, st')" and "good_tree (bs_host st)"
  shows "good_tree (bs_host st') \<and> (op_kind op \<noteq> Delete \<longrightarrow>
    (\<forall>k. staged_mode op = Some k \<longrightarrow> modes_equivalent (windows env) (Some (chmod_to env k)) (Some k)))"
proof -
  from assms(1) obtain n where n: "normalize_relative (b_nfc env) [] False (op_path op) = Inr n"
    by (auto simp: publish_one_def split: sum.splits)
  from assms(1) n obtain pre where pre: "review_host env op (path_parts n) (bs_host st) = Inr pre"
    by (auto simp: publish_one_def Let_def split: sum.splits)
  define st1 where "st1 = st\<lparr>bs_meta := AList.update n pre (bs_meta st)\<rparr>"
  obtain st2 where st2: "(if pi_existed pre then keep_copy env n (path_parts n) st1 else Inr st1) = Inr st2"
    using assms(1) n pre by (fastforce simp: publish_one_def Let_def st1_def split: sum.splits)
  then have h: "bs_host st2 = bs_host st"
    by (auto simp: keep_copy_def st1_def split: if_splits option.splits node.splits)
  obtain w t1 where w: "put_operation env op (path_parts n) (bs_host st) = (w, t1)" by (rule prod.exhaust)
  from assms(1) n pre st2 h w obtain v where p: "w = Inr v" "bs_host st' = t1"
    by (cases w) (auto simp: publish_one_def Let_def st1_def[symmetric])
  note v = review_host_Inr(1)[OF pre] normalized_valid[OF n]
  show ?thesis
    using touchesD(1)[OF conjunct1[OF put_operation_effect[OF w assms(2) v]]] put_operation_mode[OF w[unfolded p(1)] assms(2) v] p(2)
    by blast
qed

lemma publish_loop_modes:
  assumes "publish_loop env ops st = (Inr u, st')" and "good_tree (bs_host st)" and "op \<in> set ops"
    and "op_kind op \<noteq> Delete" and "staged_mode op = Some k"
  shows "modes_equivalent (windows env) (Some (chmod_to env k)) (Some k)"
  using assms(1-3)
proof (induction ops arbitrary: st)
  case (Cons o1 ops)
  obtain r st1 where w: "publish_one env o1 st = (r, st1)" by (rule prod.exhaust)
  with Cons.prems(1) obtain v where r: "r = Inr v" "publish_loop env ops st1 = (Inr u, st')" by (cases r) auto
  note one = publish_one_mode[OF w[unfolded r(1)] Cons.prems(2)]
  show ?case
  proof (cases "op = o1")
    case True
    with one assms(4,5) show ?thesis by blast
  next
    case False
    with Cons.IH[OF r(2)] one Cons.prems(3) show ?thesis by simp
  qed
qed simp

section \<open>Undoing it\<close>

definition modes_stable :: "broker_env \<Rightarrow> node \<Rightarrow> bool" where
  "modes_stable env t \<longleftrightarrow> (\<forall>q c m. host_view t q = Some (c, m) \<longrightarrow> chmod_to env m = m)"

lemma restore_host_effect:
  assumes "restore_host env meta cps x t = (r, t')" and "good_tree t" and "saved env t0 meta cps x" and "modes_stable env t0"
  shows "touches (path_parts x) t t' \<and> (r = Inr u \<longrightarrow> host_view t' (path_parts x) = host_view t0 (path_parts x))"
proof (cases "host_target t (path_parts x) True")
  case (Inl e)
  with assms(1,2) show ?thesis by (auto simp: restore_host_def touches_refl)
next
  case (Inr y)
  from assms(3) obtain pre where s: "path_parts x \<noteq> []" "list_all valid_name (path_parts x)" "map_of meta x = Some pre"
    "case host_view t0 (path_parts x) of
           None \<Rightarrow> \<not> pi_existed pre
         | Some (c, m) \<Rightarrow> pi_existed pre \<and> pi_base_sha pre = Some (b_sha env c) \<and> pi_base_mode pre = Some m
             \<and> map_of cps x = Some c" by (auto simp: saved_def)
  show ?thesis
  proof (cases "host_view t0 (path_parts x)")
    case None
    show ?thesis
    proof (cases "host_exists (lookup t (path_parts x))")
      case True
      with assms(1) Inr s(3,4) None have "unlink_host (restore_refused env) (path_parts x) t = (r, t')"
        by (simp add: restore_host_def Let_def)
      from unlink_host_effect[OF this assms(2) s(1), of u] None show ?thesis by (auto simp: host_view_def)
    next
      case False
      with assms(1) Inr s(3,4) None have "t' = t" by (simp add: restore_host_def Let_def)
      moreover have "host_view t (path_parts x) = None"
        using False by (auto simp: host_view_def leaves_def host_exists_def split: option.splits node.splits)
      ultimately show ?thesis using None assms(2) by (simp add: touches_refl)
    qed
  next
    case (Some v)
    obtain c m where v: "v = (c, m)" by (rule prod.exhaust)
    obtain w t1 where w: "write_host env (restore_refused env) (path_parts x) c (Some m) t = (w, t1)" by (rule prod.exhaust)
    note e = write_host_effect[OF w assms(2) s(1,2)]
    from assms(1) Inr s(3,4) Some v w have "t' = t1 \<and> (r = Inr u \<longrightarrow> w = Inr ())"
      by (cases w) (auto simp: restore_host_def Let_def)
    moreover have "chmod_to env m = m" using assms(4) Some v by (auto simp: modes_stable_def)
    then have "host_view t1 (path_parts x) = Some v" if "w = Inr ()"
      using that e[of "()"] v by (simp add: host_view_def leaves_def mode_given_def)
    ultimately show ?thesis using e[of "()"] Some by auto
  qed
qed

lemma restore_fold_effect:
  assumes "fold (restore_step env meta cps) xs (t, re, er) = (t', re', er')" and "good_tree t" and "distinct xs"
    and "\<forall>x\<in>set xs. saved env t0 meta cps x" and "modes_stable env t0"
  shows "good_tree t' \<and> set er \<subseteq> set er' \<and> (\<forall>q. q \<notin> places xs \<longrightarrow> leaves t' q = leaves t q)
    \<and> (\<forall>x\<in>set xs. x \<in> set er' \<or> host_view t' (path_parts x) = host_view t0 (path_parts x))"
  using assms
proof (induction xs arbitrary: t re er)
  case (Cons x xs)
  obtain w t1 where w: "restore_host env meta cps x t = (w, t1)" by (rule prod.exhaust)
  have e: "touches (path_parts x) t t1" "w = Inr () \<Longrightarrow> host_view t1 (path_parts x) = host_view t0 (path_parts x)"
    using restore_host_effect[OF w Cons.prems(2) _ Cons.prems(5), of "()"] Cons.prems(4) by simp_all
  obtain re1 er1 where s: "restore_step env meta cps x (t, re, er) = (t1, re1, er1)"
    and er1: "set er \<subseteq> set er1" "w = Inr () \<or> x \<in> set er1"
    using w by (cases w) (auto simp: restore_step_def)
  have ih: "good_tree t'" "set er1 \<subseteq> set er'" "\<And>q. q \<notin> places xs \<Longrightarrow> leaves t' q = leaves t1 q"
    "\<forall>y\<in>set xs. y \<in> set er' \<or> host_view t' (path_parts y) = host_view t0 (path_parts y)"
    using Cons.IH[of t1 re1 er1] Cons.prems s touchesD(1)[OF e(1)] by simp_all
  have "path_parts x \<noteq> []" using Cons.prems(4) by (simp add: saved_def)
  then have "path_parts x \<notin> places xs" using path_parts_inj[of x] Cons.prems(3) by (auto simp: places_def)
  from host_view_leaves[OF ih(3)[OF this]] e(2) er1(2) ih(2)
  have "x \<in> set er' \<or> host_view t' (path_parts x) = host_view t0 (path_parts x)" by auto
  moreover have "leaves t' q = leaves t q" if "q \<notin> places (x # xs)" for q
    using that ih(3)[of q] touchesD(2)[OF e(1), of q] by (simp add: places_def)
  ultimately show ?case using ih er1(1) by auto
qed simp


lemma restore_fold_errors:
  "fold (restore_step env meta cps) xs (t, re, er) = (t', re', er') \<Longrightarrow> set er' \<subseteq> set er \<union> set xs"
proof (induction xs arbitrary: t re er)
  case (Cons x xs)
  obtain t1 re1 er1 where s: "restore_step env meta cps x (t, re, er) = (t1, re1, er1)" by (rule prod_cases3)
  then have "set er1 \<subseteq> set er \<union> {x}" by (auto simp: restore_step_def split: prod.splits sum.splits)
  with Cons.IH[of t1 re1 er1] Cons.prems s show ?case by auto
qed simp

section \<open>When undoing cannot fail\<close>

text \<open>A path that can be restored: the way to it is safe, no directory has taken its place, and the
  directory of a file that was there still is.\<close>

definition ready :: "node \<Rightarrow> node \<Rightarrow> path \<Rightarrow> bool" where
  "ready t0 t p \<longleftrightarrow> host_walk t p = Inr () \<and> \<not> is_dir (lookup t p)
     \<and> (host_view t0 p \<noteq> None \<longrightarrow> is_dir (lookup t (butlast p)))"

definition unnested :: "path set \<Rightarrow> bool" where
  "unnested ps \<longleftrightarrow> (\<forall>p\<in>ps. \<forall>q\<in>ps. under p q \<longrightarrow> p = q)"

lemma under_butlast: "under p (butlast q) \<Longrightarrow> q \<noteq> [] \<Longrightarrow> under p q \<and> p \<noteq> q"
proof -
  assume a: "under p (butlast q)" "q \<noteq> []"
  then obtain r where "butlast q = p @ r" by (auto simp: under_iff)
  with a(2) have "q = p @ (r @ [last q])" by (metis append_assoc append_butlast_last_id)
  then show ?thesis unfolding under_iff by auto
qed

lemma ready_kept:
  assumes "ready t0 t p" and "touches q t t'" and "q \<noteq> []" and "under p q \<Longrightarrow> p = q"
  shows "ready t0 t' p"
proof -
  have "\<not> is_dir (lookup t' p)"
    using assms(1) touchesD(4)[OF assms(2), of p] under_butlast[OF _ assms(3), of p] assms(4) by (auto simp: ready_def)
  with assms(1) touchesD(3,5)[OF assms(2)] show ?thesis by (simp add: ready_def)
qed

lemma restore_host_total:
  assumes "saved env t0 meta cps x" and "ready t0 t (path_parts x)" and "\<not> restore_refused env (path_parts x)"
  shows "\<exists>t'. restore_host env meta cps x t = (Inr (), t')"
proof -
  from assms(1) obtain pre where s: "path_parts x \<noteq> []" "map_of meta x = Some pre"
    "case host_view t0 (path_parts x) of
           None \<Rightarrow> \<not> pi_existed pre
         | Some (c, m) \<Rightarrow> pi_existed pre \<and> pi_base_sha pre = Some (b_sha env c) \<and> pi_base_mode pre = Some m
             \<and> map_of cps x = Some c" by (auto simp: saved_def)
  have tg: "host_target t (path_parts x) True = Inr ()" using assms(2) s(1) by (simp add: host_target_def ready_def)
  show ?thesis
  proof (cases "host_view t0 (path_parts x)")
    case None
    with s tg assms(2,3) show ?thesis
      by (auto simp: restore_host_def Let_def unlink_host_def ready_def host_exists_def split: option.splits node.splits)
  next
    case (Some v)
    obtain c m where v: "v = (c, m)" by (rule prod.exhaust)
    have d: "is_dir (lookup t (butlast (path_parts x)))" "\<not> is_dir (lookup t (path_parts x))"
      using assms(2) Some by (simp_all add: ready_def)
    with s tg Some v assms(3) lookup_put_here[OF s(1) d] show ?thesis
      by (simp add: restore_host_def Let_def write_host_def make_dirs_there replace_file_def step_from_def hash_file_def)
  qed
qed

lemma restore_fold_total:
  assumes "\<forall>x\<in>set xs. saved env t0 meta cps x \<and> ready t0 t (path_parts x) \<and> \<not> restore_refused env (path_parts x)"
    and "good_tree t" and "unnested (places xs)" and "modes_stable env t0"
  shows "\<exists>t'. fold (restore_step env meta cps) xs (t, re, er) = (t', re @ xs, er)"
  using assms
proof (induction xs arbitrary: t re)
  case (Cons x xs)
  then obtain t1 where t1: "restore_host env meta cps x t = (Inr (), t1)"
    using restore_host_total[of env t0 meta cps x t] by auto
  have tc: "touches (path_parts x) t t1"
    using restore_host_effect[OF t1 Cons.prems(2) _ Cons.prems(4), of "()"] Cons.prems(1) by simp
  have ne: "path_parts x \<noteq> []" using Cons.prems(1) by (simp add: saved_def)
  have "ready t0 t1 (path_parts y)" if "y \<in> set xs" for y
    using Cons.prems(1,3) that by (intro ready_kept[OF _ tc ne]) (auto simp: unnested_def places_def)
  with Cons.IH[of t1 "re @ [x]"] Cons.prems t1 touchesD(1)[OF tc] show ?case
    by (auto simp: restore_step_def unnested_def places_def)
qed simp

lemma publish_loop_ready:
  assumes "publish_loop env ops st = (r, st')" and "batch_inv env t0 st"
    and "map_res (normalize_relative (b_nfc env) [] False \<circ> op_path) ops = Inr ns"
    and "distinct (bs_touched st @ ns)" and "unnested (places (bs_touched st @ ns))"
    and "\<forall>x\<in>set (bs_touched st). ready t0 (bs_host st) (path_parts x)"
  shows "\<forall>x\<in>set (bs_touched st'). ready t0 (bs_host st') (path_parts x)"
  using assms
proof (induction ops arbitrary: st ns)
  case (Cons op ops)
  from Cons.prems(3) obtain n ms where n: "normalize_relative (b_nfc env) [] False (op_path op) = Inr n"
    and ms: "map_res (normalize_relative (b_nfc env) [] False \<circ> op_path) ops = Inr ms" and ns: "ns = n # ms"
    by (auto simp: comp_def)
  obtain w st1 where w: "publish_one env op st = (w, st1)" by (rule prod.exhaust)
  have "n \<notin> set (bs_touched st)" using Cons.prems(4) ns by simp
  note one = publish_one_effect[OF w Cons.prems(2) n this]
  have i1: "batch_inv env t0 st1" and tc: "touches (path_parts n) (bs_host st) (bs_host st1)" using one by blast+
  have r1: "\<forall>x\<in>set (bs_touched st1). ready t0 (bs_host st1) (path_parts x)"
  proof (cases "bs_touched st1 = bs_touched st \<and> bs_host st1 = bs_host st")
    case True
    with Cons.prems(6) show ?thesis by simp
  next
    case False
    with one have o: "bs_touched st1 = bs_touched st @ [n]" "\<not> is_dir (lookup (bs_host st) (path_parts n))"
      "host_walk (bs_host st) (path_parts n) = Inr ()"
      "host_view t0 (path_parts n) \<noteq> None \<longrightarrow> is_dir (lookup (bs_host st) (butlast (path_parts n)))" by blast+
    then have "ready t0 (bs_host st) (path_parts n)" by (simp add: ready_def)
    moreover have ne: "path_parts n \<noteq> []" using o(2) Cons.prems(2) by (auto simp: batch_inv_def good_tree_def)
    ultimately have "ready t0 (bs_host st) (path_parts x) \<and> (under (path_parts x) (path_parts n) \<longrightarrow> path_parts x = path_parts n)"
      if "x \<in> set (bs_touched st1)" for x
      using Cons.prems(5,6) o(1) ns that by (auto simp: unnested_def places_def)
    with ready_kept[OF _ tc ne] show ?thesis by blast
  qed
  show ?case
  proof (cases w)
    case (Inl e)
    with Cons.prems(1) w r1 show ?thesis by simp
  next
    case (Inr x)
    with one have o: "bs_touched st1 = bs_touched st @ [n]" by simp
    from Inr Cons.prems(1) w have rest: "publish_loop env ops st1 = (r, st')" by simp
    show ?thesis using Cons.IH[OF rest i1 ms _ _ r1] Cons.prems(4,5) o ns by simp
  qed
qed simp

section \<open>Publication\<close>

lemma check_manifest_Inr:
  assumes "check_manifest env bk m approved = Inr u"
  obtains ns wanted where "map_res (normalize_relative (b_nfc env) [] False \<circ> op_path) (operations m) = Inr ns"
    "distinct ns" "map_res (normalize_relative (b_nfc env) [] False) approved = Inr wanted" "set wanted = set ns"
    "\<forall>x\<in>set ns. \<not> matches_publish_glob x (bk_never_publish bk)"
    "man_workspace_id m = bk_identity bk" "length (operations m) \<le> MAX_PUBLISH_FILES"
    "sum_list (map op_payload_bytes (operations m)) \<le> MAX_PUBLISH_BYTES"
proof -
  from assms obtain ns wanted where n: "map_res (normalize_relative (b_nfc env) [] False \<circ> op_path) (operations m) = Inr ns"
    "unique_keys (b_nfc env) [] [] ns = Inr ()" "map_res (normalize_relative (b_nfc env) [] False) approved = Inr wanted"
    "set ns = set wanted" "\<not> list_ex (\<lambda>path. matches_publish_glob path (bk_never_publish bk)) ns"
    "man_workspace_id m = bk_identity bk" "length (operations m) \<le> MAX_PUBLISH_FILES"
    "sum_list (map op_payload_bytes (operations m)) \<le> MAX_PUBLISH_BYTES"
    by (auto simp: check_manifest_def assert_unique_paths_def split: if_splits)
  from unique_keys_distinct[OF n(2)] obtain ms where
    "map_res (normalize_relative (b_nfc env) [] False) ns = Inr ms" "distinct (map (casefold \<circ> b_nfc env) ms)" by auto
  then have "distinct ns" using map_res_distinct distinct_map by blast
  with n that show thesis by (auto simp: list_ex_iff)
qed


lemma publish_cases:
  assumes "publish env bk m approved t = Inr (out, st)"
  obtains (finished) st1 where "check_manifest env bk m approved = Inr ()"
      "publish_loop env (operations m) (batch_start t) = (Inr (), st1)" "out = Published (bs_completed st1)" "st = st1"
  | (failed) st1 e t1 restored errors where "check_manifest env bk m approved = Inr ()"
      "publish_loop env (operations m) (batch_start t) = (Inl e, st1)"
      "restore_touched env st1 = (t1, restored, errors)"
      "out = Stopped e (bs_completed st1) restored errors" "st = st1\<lparr>bs_host := t1\<rparr>"
proof -
  have c: "check_manifest env bk m approved = Inr ()" using assms by (auto simp: publish_def)
  obtain r st1 where l: "publish_loop env (operations m) (batch_start t) = (r, st1)" by (rule prod.exhaust)
  obtain t1 restored errors where f: "restore_touched env st1 = (t1, restored, errors)" by (rule prod_cases3)
  show thesis
  proof (cases r)
    case (Inl e)
    with assms c l f failed[OF c _ f] show thesis by (simp add: publish_def)
  next
    case (Inr u)
    with assms c l finished[OF c] show thesis by (auto simp: publish_def)
  qed
qed

text \<open>The batch before it is undone: its invariant, for the paths it may touch.\<close>

lemma publish_loop_start:
  assumes "publish_loop env (operations m) (batch_start t) = (r, st)" and "good_tree t"
    and "check_manifest env bk m approved = Inr ()"
  obtains ns where "map_res (normalize_relative (b_nfc env) [] False \<circ> op_path) (operations m) = Inr ns"
    "batch_inv env t st" "set (bs_touched st) \<subseteq> set ns" "distinct ns"
proof -
  obtain ns where ns: "map_res (normalize_relative (b_nfc env) [] False \<circ> op_path) (operations m) = Inr ns" "distinct ns"
    by (rule check_manifest_Inr[OF assms(3)])
  have "distinct (bs_touched (batch_start t) @ ns)" "\<forall>q. is_dir (lookup t q) \<longrightarrow> is_dir (lookup (bs_host (batch_start t)) q)"
    using ns(2) by (simp_all add: batch_start_def)
  from publish_loop_effect[OF assms(1) batch_start_inv[OF assms(2)] ns(1) this] that[OF ns(1)] ns(2)
  show thesis by (simp add: batch_start_def)
qed

lemma places_targets:
  "map_res (normalize_relative (b_nfc env) [] False \<circ> op_path) ops = Inr ns \<Longrightarrow> places ns = host_path_of env ` set ops"
proof (induction ops arbitrary: ns)
  case (Cons op ops)
  then obtain n ms where n: "normalize_relative (b_nfc env) [] False (op_path op) = Inr n" "ns = n # ms"
    "map_res (normalize_relative (b_nfc env) [] False \<circ> op_path) ops = Inr ms" by (auto simp: comp_def)
  from Cons.IH[OF n(3)] n(1,2) show ?case by (simp add: places_def host_path_of_def)
qed (simp add: places_def)

lemma publish_done:
  assumes "publish env bk m approved t = Inr (Published paths, st)" and "good_tree t"
  shows "man_workspace_id m = bk_identity bk
    \<and> map_res (normalize_relative (b_nfc env) [] False \<circ> op_path) (operations m) = Inr paths
    \<and> distinct paths
    \<and> (\<exists>ns. map_res (normalize_relative (b_nfc env) [] False) approved = Inr ns \<and> set ns = set paths)
    \<and> (\<forall>x\<in>set paths. \<not> matches_publish_glob x (bk_never_publish bk) \<and> saved env t (bs_meta st) (bs_copies st) x)
    \<and> (\<forall>op\<in>set (operations m). performed env t (bs_host st) op)
    \<and> (\<forall>q. q \<notin> host_path_of env ` set (operations m) \<longrightarrow> leaves (bs_host st) q = leaves t q)"
  using assms(1)
proof (cases rule: publish_cases)
  case (finished st1)
  obtain ns wanted where ns: "map_res (normalize_relative (b_nfc env) [] False \<circ> op_path) (operations m) = Inr ns"
    "distinct ns" "map_res (normalize_relative (b_nfc env) [] False) approved = Inr wanted" "set wanted = set ns"
    "\<forall>x\<in>set ns. \<not> matches_publish_glob x (bk_never_publish bk)" "man_workspace_id m = bk_identity bk"
    by (rule check_manifest_Inr[OF finished(1)])
  have "distinct (bs_touched (batch_start t) @ ns)" "\<forall>q. is_dir (lookup t q) \<longrightarrow> is_dir (lookup (bs_host (batch_start t)) q)"
    using ns(2) by (simp_all add: batch_start_def)
  note e = publish_loop_effect[OF finished(2) batch_start_inv[OF assms(2)] ns(1) this, of "()"]
  have "paths = ns" "bs_touched st = ns" using e finished(3,4) by (simp_all add: batch_start_def)
  with e ns finished(4) places_targets[OF ns(1)] show ?thesis by (simp add: batch_inv_def batch_start_def)
qed simp

lemma published_modes:
  assumes "publish env bk m approved t = Inr (Published paths, st)" and "good_tree t" and "op \<in> set (operations m)"
    and "op_kind op \<noteq> Delete" and "staged_mode op = Some k"
  shows "modes_equivalent (windows env) (Some (chmod_to env k)) (Some k)"
  using assms(1)
proof (cases rule: publish_cases)
  case (finished st1)
  show ?thesis by (rule publish_loop_modes[OF finished(2) _ assms(3-5)]) (simp add: batch_start_def assms(2))
qed simp

text \<open>Claim C7. A published batch is exactly its approved operations: the manifest is for this workspace,
  its paths are the approved ones and none is withheld by the policy; each operation found the
  host file it was reviewed against and left the staged content, and a directory never gave way to a
  file; nothing else changed; and the recovery copies hold every host file as it was.\<close>

theorem published_batch_is_exact:
  assumes "publish env bk m approved t = Inr (Published paths, st)" and "good_tree t"
  shows "man_workspace_id m = bk_identity bk
    \<and> map_res (normalize_relative (b_nfc env) [] False \<circ> op_path) (operations m) = Inr paths
    \<and> distinct paths
    \<and> (\<exists>ns. map_res (normalize_relative (b_nfc env) [] False) approved = Inr ns \<and> set ns = set paths)
    \<and> (\<forall>x\<in>set paths. \<not> matches_publish_glob x (bk_never_publish bk) \<and> saved env t (bs_meta st) (bs_copies st) x)
    \<and> (\<forall>op\<in>set (operations m). performed env t (bs_host st) op)
    \<and> (\<forall>q. q \<notin> host_path_of env ` set (operations m) \<longrightarrow> leaves (bs_host st) q = leaves t q)"
  by (rule publish_done[OF assms])

text \<open>Claim C8. A batch that stops leaves no file changed, except at the paths it reports as rollback
  errors; and for each of these the recovery copy is the file as it was.\<close>

theorem stopped_batch_is_undone:
  assumes "publish env bk m approved t = Inr (Stopped e completed restored errors, st)"
    and "good_tree t" and "modes_stable env t"
  shows "(\<forall>q. q \<notin> places errors \<longrightarrow> host_view (bs_host st) q = host_view t q)
    \<and> (\<forall>x\<in>set errors. saved env t (bs_meta st) (bs_copies st) x) \<and> set errors \<subseteq> set (bs_touched st)"
  using assms(1)
proof (cases rule: publish_cases)
  case (failed st1 e' t1 restored' errors')
  obtain ns where ns: "map_res (normalize_relative (b_nfc env) [] False \<circ> op_path) (operations m) = Inr ns" "batch_inv env t st1"
    by (rule publish_loop_start[OF failed(2) assms(2) failed(1)])
  have f: "fold (restore_step env (bs_meta st1) (bs_copies st1)) (rev (bs_touched st1)) (bs_host st1, [], []) = (t1, restored, errors)"
    using failed(3,4) by (simp add: restore_touched_def)
  have i: "good_tree (bs_host st1)" "distinct (rev (bs_touched st1))"
    "\<forall>x\<in>set (rev (bs_touched st1)). saved env t (bs_meta st1) (bs_copies st1) x"
    "\<And>q. q \<notin> places (bs_touched st1) \<Longrightarrow> leaves (bs_host st1) q = leaves t q"
    using ns(2) by (auto simp: batch_inv_def)
  have r: "\<And>q. q \<notin> places (rev (bs_touched st1)) \<Longrightarrow> leaves t1 q = leaves (bs_host st1) q"
    "\<And>x. x \<in> set (rev (bs_touched st1)) \<Longrightarrow> x \<in> set errors \<or> host_view t1 (path_parts x) = host_view t (path_parts x)"
    using restore_fold_effect[OF f i(1-3) assms(3)] by blast+
  have sub: "set errors \<subseteq> set (bs_touched st1)" using restore_fold_errors[OF f] by simp
  have "host_view t1 q = host_view t q" if "q \<notin> places errors" for q
  proof (cases "q \<in> places (bs_touched st1)")
    case True
    then obtain x where "x \<in> set (bs_touched st1)" "q = path_parts x" by (auto simp: places_def)
    with r(2)[of x] that show ?thesis by (auto simp: places_def)
  next
    case False
    with r(1)[of q] i(4)[of q] have "leaves t1 q = leaves t q" by (simp add: places_def)
    then show ?thesis by (rule host_view_leaves)
  qed
  with sub i(3) failed(5) show ?thesis by auto
qed simp


text \<open>Undoing cannot fail when no path of the batch lies below another and the file system
  accepts the restored files: every touched file is restored, and the host is as it was.\<close>

theorem unnested_batch_is_undone:
  assumes "publish env bk m approved t = Inr (Stopped e completed restored errors, st)"
    and "good_tree t" and "modes_stable env t"
    and "unnested (host_path_of env ` set (operations m))" and "\<forall>p. \<not> restore_refused env p"
  shows "errors = [] \<and> restored = rev (bs_touched st) \<and> host_view (bs_host st) = host_view t"
  using assms(1)
proof (cases rule: publish_cases)
  case (failed st1 e' t1 restored' errors')
  obtain ns where ns: "map_res (normalize_relative (b_nfc env) [] False \<circ> op_path) (operations m) = Inr ns"
    "batch_inv env t st1" "set (bs_touched st1) \<subseteq> set ns" "distinct ns"
    by (rule publish_loop_start[OF failed(2) assms(2) failed(1)])
  have un: "unnested (places ns)" using assms(4) places_targets[OF ns(1)] by simp
  have rd: "\<forall>x\<in>set (bs_touched st1). ready t (bs_host st1) (path_parts x)"
    by (rule publish_loop_ready[OF failed(2) batch_start_inv[OF assms(2)] ns(1)])
      (use ns(4) un in \<open>simp_all add: batch_start_def\<close>)
  have i: "good_tree (bs_host st1)" "distinct (rev (bs_touched st1))"
    "\<forall>x\<in>set (rev (bs_touched st1)). saved env t (bs_meta st1) (bs_copies st1) x"
    "\<And>q. q \<notin> places (bs_touched st1) \<Longrightarrow> leaves (bs_host st1) q = leaves t q"
    using ns(2) by (auto simp: batch_inv_def)
  have "unnested (places (rev (bs_touched st1)))" using un ns(3) by (auto simp: unnested_def places_def)
  then obtain t2 where t2: "fold (restore_step env (bs_meta st1) (bs_copies st1)) (rev (bs_touched st1)) (bs_host st1, [], [])
      = (t2, [] @ rev (bs_touched st1), [])"
    using restore_fold_total[OF _ i(1) _ assms(3), of "rev (bs_touched st1)" "bs_meta st1" "bs_copies st1" "[]" "[]"]
      i(3) rd assms(5) by auto
  then have s: "t1 = t2" "restored = rev (bs_touched st1)" "errors = []"
    using failed(3,4) by (simp_all add: restore_touched_def)
  have r: "\<And>q. q \<notin> places (rev (bs_touched st1)) \<Longrightarrow> leaves t2 q = leaves (bs_host st1) q"
    "\<And>x. x \<in> set (rev (bs_touched st1)) \<Longrightarrow> host_view t2 (path_parts x) = host_view t (path_parts x)"
    using restore_fold_effect[OF t2 i(1-3) assms(3)] by auto
  have "host_view t2 q = host_view t q" for q
  proof (cases "q \<in> places (bs_touched st1)")
    case True
    with r(2) show ?thesis by (auto simp: places_def)
  next
    case False
    with r(1)[of q] i(4)[of q] have "leaves t2 q = leaves t q" by (simp add: places_def)
    then show ?thesis by (rule host_view_leaves)
  qed
  with s failed(5) show ?thesis by auto
qed simp

section \<open>Examples\<close>

definition sample_broker_env :: broker_env where
  "sample_broker_env = \<lparr>b_sha = (\<lambda>s. s), b_nfc = (\<lambda>s. s), b_decode = Some, windows = False, chmod_to = (\<lambda>m. m),
     temp_mode = 384, copy_refused = (\<lambda>_. False), write_refused = (\<lambda>_. False), restore_refused = (\<lambda>_. False)\<rparr>"

definition sample_broker :: broker where
  "sample_broker = \<lparr>bk_identity = ''w'', bk_never_publish = [''*.log'']\<rparr>"

definition sample_host :: node where
  "sample_host = Dir [(''a'', File ''x'' 420 1), (''c'', File ''y'' 420 1), (''l'', Link ''gone'' None)]"

definition sample_put :: "string \<Rightarrow> string option \<Rightarrow> string option \<Rightarrow> publish_operation" where
  "sample_put path base staged =
     \<lparr>op_path = path, op_kind = (case base of None \<Rightarrow> Create | Some _ \<Rightarrow> if staged = None then Delete else Update),
      base_sha256 = base, staged_sha256 = staged, op_content = staged,
      base_mode = map_option (\<lambda>_. 420) base, staged_mode = map_option (\<lambda>_. 420) staged, content_base64 = None\<rparr>"

definition sample_batch :: "publish_operation list \<Rightarrow> publish_manifest" where
  "sample_batch ops = \<lparr>manifest_id = ''m'', man_run_id = ''r'', man_workspace_id = ''w'', source_snapshot_id = ''s'',
     approval_id = ''p'', operations = ops, publication_id = ''m'', batch_index = 1, batch_count = 1\<rparr>"

definition sample_publish :: "publish_operation list \<Rightarrow> exn + batch_outcome \<times> batch_state" where
  "sample_publish ops = publish sample_broker_env sample_broker (sample_batch ops) (map op_path ops) sample_host"

definition good_ops :: "publish_operation list" where
  "good_ops = [sample_put ''a'' (Some ''x'') (Some ''n''), sample_put ''d/e'' None (Some ''z''), sample_put ''c'' (Some ''y'') None]"

definition stale_ops :: "publish_operation list" where
  "stale_ops = [sample_put ''a'' (Some ''x'') (Some ''n''), sample_put ''d/e'' None (Some ''z''), sample_put ''c'' (Some ''old'') None]"

definition nested_ops :: "publish_operation list" where
  "nested_ops = [sample_put ''a'' (Some ''x'') None, sample_put ''a/b'' None (Some ''z''), sample_put ''c'' (Some ''old'') None]"

definition link_ops :: "publish_operation list" where
  "link_ops = [sample_put ''l'' None (Some ''z''), sample_put ''c'' (Some ''old'') None]"

lemma sample_host_good: "good_tree sample_host"
  by (simp add: good_tree_def sample_host_def valid_name_def)

lemma sample_modes_stable: "modes_stable sample_broker_env t"
  by (simp add: modes_stable_def sample_broker_env_def)

lemma outcome_state:
  "isOK r \<Longrightarrow> fst (projr r) = out \<Longrightarrow> r = Inr (out, snd (projr r))"
  by (cases r) auto

theorem published_batch_is_exact_witness:
  "leaves (bs_host (snd (projr (sample_publish good_ops)))) [''c''] = None
    \<and> leaves (bs_host (snd (projr (sample_publish good_ops)))) [''l''] = Some (Inr ''gone'')"
proof -
  have o: "isOK (sample_publish good_ops)" "fst (projr (sample_publish good_ops)) = Published [''a'', ''d/e'', ''c'']"
    by code_simp+
  have t: "host_path_of sample_broker_env ` set (operations (sample_batch good_ops)) = {[''a''], [''d'', ''e''], [''c'']}"
    by code_simp
  have l: "sample_put ''c'' (Some ''y'') None \<in> set (operations (sample_batch good_ops))"
    "host_path_of sample_broker_env (sample_put ''c'' (Some ''y'') None) = [''c'']"
    "published_leaf sample_broker_env (sample_put ''c'' (Some ''y'') None) = None" by code_simp+
  have h: "leaves sample_host [''l''] = Some (Inr ''gone'')" by code_simp
  from published_batch_is_exact[OF outcome_state[OF o, unfolded sample_publish_def] sample_host_good] t l h
  show ?thesis unfolding sample_publish_def performed_def by fastforce
qed

theorem stopped_batch_is_undone_witness:
  "host_view (bs_host (snd (projr (sample_publish stale_ops)))) [''a''] = Some (''x'', 420)"
proof -
  have o: "isOK (sample_publish stale_ops)" "fst (projr (sample_publish stale_ops)) = Stopped OtherErr [''a'', ''d/e''] [''d/e'', ''a''] []"
    by code_simp+
  have h: "host_view sample_host [''a''] = Some (''x'', 420)" by code_simp
  from stopped_batch_is_undone[OF outcome_state[OF o, unfolded sample_publish_def] sample_host_good sample_modes_stable] h
  show ?thesis unfolding sample_publish_def by (simp add: places_def)
qed

theorem unnested_batch_is_undone_witness:
  "host_view (bs_host (snd (projr (sample_publish stale_ops)))) = host_view sample_host"
proof -
  have o: "isOK (sample_publish stale_ops)" "fst (projr (sample_publish stale_ops)) = Stopped OtherErr [''a'', ''d/e''] [''d/e'', ''a''] []"
    by code_simp+
  have t: "host_path_of sample_broker_env ` set (operations (sample_batch stale_ops)) = {[''a''], [''d'', ''e''], [''c'']}"
    by code_simp
  have "unnested (host_path_of sample_broker_env ` set (operations (sample_batch stale_ops)))"
    unfolding t by (simp add: unnested_def)
  moreover have "\<forall>p. \<not> restore_refused sample_broker_env p" by (simp add: sample_broker_env_def)
  ultimately show ?thesis
    using unnested_batch_is_undone[OF outcome_state[OF o, unfolded sample_publish_def] sample_host_good sample_modes_stable]
    unfolding sample_publish_def by simp
qed

text \<open>A batch that deletes a file and creates one below the same name cannot be undone: the
  directory stays, the deleted file is not restored, and the host is left partially published.\<close>

theorem nested_batch_stays_half_undone:
  "(case sample_publish nested_ops of
      Inr (Stopped e completed restored errors, st) \<Rightarrow>
        errors = [''a''] \<and> host_view (bs_host st) [''a''] = None \<and> is_dir (lookup (bs_host st) [''a''])
    | _ \<Rightarrow> False)
   \<and> host_view sample_host [''a''] = Some (''x'', 420)"
  by code_simp

text \<open>A link that leads nowhere passes the check against links: it is replaced, and undoing the batch
  removes what replaced it, so the link is lost although no error is reported.\<close>

lemma dangling_link_is_lost:
  "(case sample_publish link_ops of
      Inr (Stopped e completed restored errors, st) \<Rightarrow> errors = [] \<and> lookup (bs_host st) [''l''] = None
    | _ \<Rightarrow> False)
   \<and> lookup sample_host [''l''] = Some (Link ''gone'' None)"
  by code_simp

end
