(* ===== verification/Publication.thy ===== *)
theory Publication
  imports Fingerprint Broker
begin

unbundle bit_operations_syntax

text \<open>
  One batch of a publication from end to end: the worker of the desktop (\<open>PublicationWorker\<close> in
  \<open>src/workers.py\<close>) checks what the policy requires, lets the broker write the batch to the host, hands
  the receipt to the executor, records the batch in the ledger (\<open>PublicationLedger\<close> in
  \<open>src/workspace_broker.py\<close>) and asks for the next batch.  The gateway between the desktop and the executor
  passes these requests on; a request that it cannot deliver is an error like one of the executor.
\<close>

section \<open>The ledger\<close>

datatype batch_status = BatchPublished | BatchFailed | BaselineFailed

record batch_entry =
  be_manifest :: string
  be_status :: batch_status
  be_operations :: nat
  be_checkpoint :: "string option"
  be_error :: "string option"

datatype ledger_state = InProgress | Completed | Ended batch_status

record ledger_record =
  lr_publication :: string
  lr_workspace :: string
  lr_run :: string
  lr_batches :: "(int \<times> batch_entry) list"
  lr_batch_count :: int
  lr_published :: "int list"
  lr_remaining :: int
  lr_state :: ledger_state

definition MAX_LEDGER_ERROR :: nat where "MAX_LEDGER_ERROR = 2000"

text \<open>\<open>PublicationLedger.record\<close> of a batch, over the record that is stored already; the times are left out.\<close>

definition ledger_new :: "publish_manifest \<Rightarrow> ledger_record" where
  "ledger_new m = \<lparr>lr_publication = publication_id m, lr_workspace = man_workspace_id m, lr_run = man_run_id m,
     lr_batches = [], lr_batch_count = 0, lr_published = [], lr_remaining = 0, lr_state = InProgress\<rparr>"

definition ledger_error :: "string option \<Rightarrow> string option" where
  "ledger_error e = (case e of None \<Rightarrow> None | Some s \<Rightarrow> if s = [] then None else Some (take MAX_LEDGER_ERROR s))"

definition published_batches :: "(int \<times> batch_entry) list \<Rightarrow> int list" where
  "published_batches bs = sort (map fst (filter (\<lambda>e. be_status (snd e) = BatchPublished) bs))"

definition ledger_put ::
  "publish_manifest \<Rightarrow> batch_status \<Rightarrow> string option \<Rightarrow> string option \<Rightarrow> ledger_record option \<Rightarrow> ledger_record" where
  "ledger_put m status checkpoint err stored =
     (let r = (case stored of None \<Rightarrow> ledger_new m | Some r \<Rightarrow> r);
          batches = AList.update (batch_index m) \<lparr>be_manifest = manifest_id m, be_status = status,
              be_operations = length (operations m), be_checkpoint = checkpoint, be_error = ledger_error err\<rparr> (lr_batches r);
          done_batches = published_batches batches
      in r\<lparr>lr_batches := batches, lr_batch_count := batch_count m, lr_published := done_batches,
           lr_remaining := max 0 (batch_count m - int (length done_batches)),
           lr_state := (if status = BatchPublished then (if has_more_batches m then InProgress else Completed) else Ended status)\<rparr>)"

section \<open>The worker\<close>

record world =
  w_host :: node
  w_service :: service

text \<open>\<open>_verify_checks\<close>: the results of the review are the status and the \<open>current\<close> flag by name.\<close>

definition check_passed :: "(string \<times> string \<times> bool) list \<Rightarrow> string \<Rightarrow> bool" where
  "check_passed results name = (case map_of results name of Some (status, current) \<Rightarrow> status = ''passed'' \<and> current | None \<Rightarrow> False)"

definition verify_checks :: "string list \<Rightarrow> (string \<times> string \<times> bool) list option \<Rightarrow> exn + unit" where
  "verify_checks required review =
     (if required = [] then Inr ()
      else case review of
        None \<Rightarrow> Inl BrokerError
      | Some results \<Rightarrow> ensure (list_all (check_passed results) required) BrokerError)"

record batch_result =
  br_paths :: "string list"
  br_marked :: "exn + unit"
  br_next :: "(exn + publish_manifest) option"

text \<open>A publication that had more than one batch at its start, \<open>self.multi_batch\<close>.\<close>

definition multi_batch :: "publish_manifest \<Rightarrow> bool" where
  "multi_batch m = (1 < (if batch_count m = 0 then 1 else batch_count m))"

text \<open>The request for the batch after \<open>m\<close>, with the same selection.\<close>

definition next_request :: "string \<Rightarrow> string \<Rightarrow> pyval \<Rightarrow> publish_manifest \<Rightarrow> manifest_request" where
  "next_request fresh approval paths m =
     \<lparr>mr_fresh = fresh, mr_run = man_run_id m, mr_approval = approval, mr_publication = publication_id m,
      mr_batch = PInt (batch_index m + 1), mr_paths = paths\<rparr>"

text \<open>Whether the worker has a client of the gateway, \<open>reseed_client\<close>, and the fresh names of its requests.\<close>

record worker_ids =
  wi_client :: bool
  wi_snapshot :: string
  wi_manifest :: string
  wi_approval :: string

text \<open>An answer without operations is no next batch.\<close>

definition following :: "exn + publish_manifest \<Rightarrow> (exn + publish_manifest) option" where
  "following r = (case r of Inl e \<Rightarrow> Some (Inl e) | Inr m \<Rightarrow> if operations m = [] then None else Some (Inr m))"

definition publish_batch ::
  "broker_env \<Rightarrow> broker \<Rightarrow> service_env \<Rightarrow> worker_ids \<Rightarrow> string list \<Rightarrow> (string \<times> string \<times> bool) list option \<Rightarrow> pyval \<Rightarrow>
   publish_manifest \<Rightarrow> world \<Rightarrow> (exn + batch_result) \<times> world" where
  "publish_batch B bk E ids required review paths m w =
     (case verify_checks required (if wi_client ids then review else None) of
        Inl e \<Rightarrow> (Inl e, w)
      | Inr _ \<Rightarrow>
          (case publish B bk m (map op_path (operations m)) (w_host w) of
             Inl e \<Rightarrow> (Inl e, w)
           | Inr (Stopped e completed restored errors, st) \<Rightarrow> (Inl BrokerError, w\<lparr>w_host := bs_host st\<rparr>)
           | Inr (Published names, st) \<Rightarrow>
               (case (if wi_client ids then mark_published E (wi_snapshot ids) (receipt_from_manifest m) (w_service w)
                      else (Inl BrokerError, w_service w)) of
                  (marked, sv) \<Rightarrow>
                    (Inr \<lparr>br_paths = names, br_marked = marked,
                       br_next = (if multi_batch m \<and> wi_client ids \<and> marked = Inr () \<and> has_more_batches m
                         then following (executor_manifest E (next_request (wi_manifest ids) (wi_approval ids) paths m) sv)
                         else None)\<rparr>,
                     w\<lparr>w_host := bs_host st, w_service := sv\<rparr>))))"


section \<open>What a manifest holds\<close>

lemma manifest_facts:
  assumes "executor_manifest E r sv = Inr m"
  obtains n todo batches where "mr_batch r = PInt n" "1 \<le> n" "offered E sv n (mr_paths r) = Inr todo"
    "publication_batches todo = Inr batches"
    "map_res (change_to_operation E (sv_work sv)) (first_batch batches) = Inr (operations m)"
    "man_workspace_id m = workspace_id (sv_config E)" "source_snapshot_id m = snapshot_id (bl_snapshot (sv_baseline sv))"
    "batch_index m = n" "batch_count m = n - 1 + max 1 (int (length batches))"
    "distinct (map (casefold \<circ> op_path) (operations m))"
proof -
  obtain n where n: "mr_batch r = PInt n" "1 \<le> n"
    using assms by (cases "mr_batch r") (auto simp: executor_manifest_def split: if_splits)
  with assms obtain todo batches ops where s: "offered E sv n (mr_paths r) = Inr todo" "publication_batches todo = Inr batches"
    "map_res (change_to_operation E (sv_work sv)) (first_batch batches) = Inr ops"
    "new_manifest \<lparr>manifest_id = mr_fresh r, man_run_id = mr_run r, man_workspace_id = workspace_id (sv_config E),
       source_snapshot_id = snapshot_id (bl_snapshot (sv_baseline sv)), approval_id = mr_approval r, operations = ops,
       publication_id = (if mr_publication r = [] then mr_fresh r else mr_publication r),
       batch_index = n, batch_count = n - 1 + max 1 (int (length batches))\<rparr> = Inr m"
    by (auto simp: executor_manifest_def)
  with that[OF n s(1,2)] show thesis by (auto simp: new_manifest_def split: if_splits)
qed

lemma first_batch_subset: "publication_batches cs = Inr bs \<Longrightarrow> set (first_batch bs) \<subseteq> set cs"
  using batch_loop_ok[of cs "[]" "[]" 0 bs] by (cases bs) (auto simp: publication_batches_def first_batch_def)

lemma offered_publishable: "offered E sv n paths = Inr todo \<Longrightarrow> set todo \<subseteq> set (publishable E sv)"
  by (auto simp: offered_def split: if_splits)

text \<open>The operation of a change: its fields, and the staged file as its payload.\<close>

lemma change_to_operation_Inr:
  assumes "change_to_operation E work c = Inr op"
  shows "op_path op = ch_path c" and "op_kind op = ch_operation c" and "publish_operation.base_sha256 op = ch_base_sha256 c"
    and "base_mode op = ch_base_mode c" and "publish_operation_ok (sha (sv_fs E)) (sv_b64decode E) op"
    and "ch_operation c \<noteq> Delete \<Longrightarrow> publish_operation.staged_sha256 op = ch_staged_sha256 c \<and> staged_mode op = ch_staged_mode c"
  using assms
  by (auto simp: change_to_operation_def checked_operation_def Let_def split: if_splits option.splits node.splits)

lemma operations_of_changes:
  assumes "map_res (change_to_operation E work) cs = Inr ops" and "op \<in> set ops"
  obtains c where "c \<in> set cs" "change_to_operation E work c = Inr op"
proof -
  have l: "list_all2 (\<lambda>c op. change_to_operation E work c = Inr op) cs ops" using assms(1) by (simp add: map_res_Inr)
  obtain i where "i < length ops" "op = ops ! i" using assms(2) by (auto simp: in_set_conv_nth)
  with l have "cs ! i \<in> set cs" "change_to_operation E work (cs ! i) = Inr op"
    by (auto simp: list_all2_conv_all_nth)
  then show thesis by (rule that)
qed

section \<open>The host and the baseline\<close>

text \<open>The digest and the permission bits of a host file, and whether the baseline knows them.\<close>

definition host_says :: "service_env \<Rightarrow> node \<Rightarrow> string \<Rightarrow> (string \<times> int) option" where
  "host_says E host q = map_option (\<lambda>(c, m). (sha (sv_fs E) c, m)) (host_view host (name_parts q))"

text \<open>Two files agree in content, and in their permission bits as far as the host has them: on Windows only
  the write bit (\<open>_modes_equivalent\<close>).\<close>

definition view_agrees :: "bool \<Rightarrow> (string \<times> int) option \<Rightarrow> (string \<times> int) option \<Rightarrow> bool" where
  "view_agrees nt actual expected \<longleftrightarrow>
     map_option fst actual = map_option fst expected \<and> modes_equivalent nt (map_option snd actual) (map_option snd expected)"

definition in_step :: "broker_env \<Rightarrow> service_env \<Rightarrow> world \<Rightarrow> string \<Rightarrow> bool" where
  "in_step B E w q \<longleftrightarrow>
     view_agrees (windows B) (host_says E (w_host w) q) (base_view (bl_snapshot (sv_baseline (w_service w))) q)"

text \<open>What the proofs need of the executor: a good tree, and a baseline over names that a tree can have.\<close>

definition service_sound :: "service \<Rightarrow> bool" where
  "service_sound sv \<longleftrightarrow> good_tree (sv_work sv) \<and> snapshot_ok (bl_snapshot (sv_baseline sv))
     \<and> (\<forall>q\<in>fst ` set (hashes (bl_snapshot (sv_baseline sv))). proper q)"

lemma change_path_proper:
  assumes "service_sound sv" and "c \<in> set (sv_changes E sv)"
  shows "proper (ch_path c)"
proof -
  let ?s = "bl_snapshot (sv_baseline sv)" and ?x = "extra_globs (sv_fs E)"
  have "change_at ?s (sv_files E sv) (ch_path c) = Some c"
    using assms set_workspace_changes by (auto simp: service_sound_def sv_changes_def)
  then have "ch_path c \<in> set (map fst (hashes ?s) @ map fst (sv_files E sv))"
    using change_at_domain assms(1) by (auto simp: service_sound_def)
  moreover have "proper (ch_path c)" if "ch_path c \<in> fst ` set (sv_files E sv)"
  proof -
    from that have "map_of (sv_files E sv) (ch_path c) \<noteq> None" by (simp add: map_of_eq_None_iff)
    then have "seen ?x (sv_work sv) (ch_path c) \<noteq> None"
      using assms(1) by (auto simp: sv_files_def listing_seen service_sound_def split: option.splits)
    then show ?thesis using seen_proper assms(1) by (auto simp: service_sound_def)
  qed
  ultimately show ?thesis using assms(1) by (auto simp: service_sound_def)
qed

lemma publishable_changes: "c \<in> set (publishable E sv) \<Longrightarrow> c \<in> set (sv_changes E sv)"
  by (simp add: publishable_def)

text \<open>An operation of a manifest and the change it comes from.\<close>

lemma manifest_operation:
  assumes "executor_manifest E r sv = Inr m" and "op \<in> set (operations m)"
  obtains c where "c \<in> set (publishable E sv)" "change_to_operation E (sv_work sv) c = Inr op"
proof (rule manifest_facts[OF assms(1)])
  fix n todo batches
  assume a: "offered E sv n (mr_paths r) = Inr todo" "publication_batches todo = Inr batches"
    "map_res (change_to_operation E (sv_work sv)) (first_batch batches) = Inr (operations m)"
  obtain c where c: "c \<in> set (first_batch batches)" "change_to_operation E (sv_work sv) c = Inr op"
    by (rule operations_of_changes[OF a(3) assms(2)])
  with first_batch_subset[OF a(2)] offered_publishable[OF a(1)] show thesis by (intro that) auto
qed

lemma published_target:
  assumes "map_res (normalize_relative (b_nfc B) [] False \<circ> op_path) ops = Inr ns" and "op \<in> set ops" and "proper (op_path op)"
  shows "host_path_of B op = name_parts (op_path op)"
proof -
  obtain n where "normalize_relative (b_nfc B) [] False (op_path op) = Inr n"
    using assms(1,2) by (fastforce simp: map_res_Inr list_all2_conv_all_nth in_set_conv_nth)
  with normalize_proper[OF this assms(3)] show ?thesis by (auto simp: host_path_of_def)
qed


lemma publish_batch_done:
  assumes "publish_batch B bk E ids required review paths m w = (Inr res, w')" and "br_marked res = Inr ()"
  obtains st where "publish B bk m (map op_path (operations m)) (w_host w) = Inr (Published (br_paths res), st)"
    "mark_published E (wi_snapshot ids) (receipt_from_manifest m) (w_service w) = (br_marked res, w_service w')"
    "w_host w' = bs_host st"
  using assms
  by (auto simp: publish_batch_def split: sum.splits prod.splits batch_outcome.splits if_splits)

lemma mark_published_done:
  assumes "mark_published E fresh receipt sv = (Inr (), sv')"
  obtains snap where "advance_published_staging fresh (sv_files E sv) (bl_snapshot (sv_baseline sv)) (map received (rec_operations receipt)) = Inr snap"
    "sv_baseline sv' = (sv_baseline sv)\<lparr>bl_snapshot := snap\<rparr>" "sv_work sv' = sv_work sv"
    "rec_snapshot_id receipt = snapshot_id (bl_snapshot (sv_baseline sv))"
  using assms by (auto simp: mark_published_def save_state_def split: if_splits sum.splits)

text \<open>What the baseline says after the receipt.\<close>

lemma advanced_view:
  assumes "advance_published_staging fresh cur s ops = Inr s'"
  shows "list_all (op_matches cur) ops
    \<and> (\<forall>q. base_view s' q = (if q \<in> op_path ` set ops then staged_view cur q else base_view s q))"
proof -
  from assms obtain hs ss ms where f: "fold_res (advance_one cur) ops (hashes s, sizes s, modes s) = Inr (hs, ss, ms)"
    "hashes s' = hs" "sizes s' = ss" "modes s' = ms" by (auto simp: advance_published_staging_def)
  note e = advance_all_effect[OF f(1), folded f(2-4)]
  have base: "base_view s' q = (case tables_at (hashes s', sizes s', modes s') q of (h, n, m) \<Rightarrow>
      (case h of None \<Rightarrow> None | Some h \<Rightarrow> map_option (\<lambda>m. (h, m)) m))"
    "base_view s q = (case tables_at (hashes s, sizes s, modes s) q of (h, n, m) \<Rightarrow>
      (case h of None \<Rightarrow> None | Some h \<Rightarrow> map_option (\<lambda>m. (h, m)) m))" for q
    by (simp_all add: base_view_def tables_at_def)
  have listed: "staged_view cur q = (case listed_at cur q of (h, n, m) \<Rightarrow>
      (case h of None \<Rightarrow> None | Some h \<Rightarrow> map_option (\<lambda>m. (h, m)) m))" for q
    by (simp add: staged_view_def listed_at_def split: option.split)
  have "base_view s' q = (if q \<in> op_path ` set ops then staged_view cur q else base_view s q)" for q
    unfolding base listed e[THEN conjunct2, rule_format, of q] by simp
  with e show ?thesis by blast
qed

lemma staged_of_change:
  assumes "change_at s cur q = Some c"
  shows "if ch_operation c = Delete then staged_view cur q = None
    else staged_view cur q = Some (the (ch_staged_sha256 c), the (ch_staged_mode c)) \<and> ch_staged_mode c \<noteq> None"
  using assms by (auto simp: change_at_def Let_def staged_view_def split: if_splits)

definition receipt_paths :: "publish_manifest \<Rightarrow> string set" where
  "receipt_paths m = op_path ` set (operations m)"

lemma receipt_paths_received:
  "op_path ` set (map received (rec_operations (receipt_from_manifest m))) = receipt_paths m"
  by (simp add: receipt_paths_def receipt_from_manifest_def received_def published_of_def image_image comp_def)

lemma published_view:
  assumes "leaves t q = published_leaf B op" and "publish_operation_ok h (b_decode B) op"
    and "op_kind op \<noteq> Delete \<Longrightarrow> staged_mode op = Some k"
  shows "map_option (\<lambda>(c, m). (h c, m)) (host_view t q) =
    (if op_kind op = Delete then None else Some (the (publish_operation.staged_sha256 op), chmod_to B k))"
proof (cases "op_kind op = Delete")
  case True
  with assms(1) show ?thesis by (simp add: host_view_def published_leaf_def)
next
  case False
  with assms(2,3) obtain b where "op_payload (b_decode B) op = Inr b" "publish_operation.staged_sha256 op = Some (h b)"
    by (auto simp: publish_operation_ok_def split: sum.splits)
  with False assms(1,3) show ?thesis by (simp add: host_view_def published_leaf_def mode_given_def)
qed

text \<open>Claim C1. A published and acknowledged batch keeps host, baseline and staging in step: at its paths the new
  baseline is the staged file and the host file agrees with it, in content and in its permission bits as
  the host compares them (all of them, on Windows the write bit); every path that was in step stays so,
  the staging area is untouched, and exactly the changes of the batch are settled.\<close>

theorem published_batch_stays_in_step:
  assumes "executor_manifest E r (w_service w) = Inr m"
    and "publish_batch B bk E ids required review paths m w = (Inr res, w')" and "br_marked res = Inr ()"
    and "b_sha B = sha (sv_fs E)" and "b_decode B = sv_b64decode E"
    and "good_tree (w_host w)" and "service_sound (w_service w)"
  shows "(\<forall>q\<in>receipt_paths m. in_step B E w' q
        \<and> base_view (bl_snapshot (sv_baseline (w_service w'))) q = staged_view (sv_files E (w_service w)) q)
    \<and> (\<forall>q. proper q \<longrightarrow> in_step B E w q \<longrightarrow> in_step B E w' q)
    \<and> sv_work (w_service w') = sv_work (w_service w)
    \<and> set (sv_changes E (w_service w')) = {c \<in> set (sv_changes E (w_service w)). ch_path c \<notin> receipt_paths m}"
proof -
  let ?sv = "w_service w" and ?cur = "sv_files E (w_service w)"
  obtain st where p: "publish B bk m (map op_path (operations m)) (w_host w) = Inr (Published (br_paths res), st)"
    "mark_published E (wi_snapshot ids) (receipt_from_manifest m) ?sv = (br_marked res, w_service w')" "w_host w' = bs_host st"
    by (rule publish_batch_done[OF assms(2,3)])
  obtain snap where a: "advance_published_staging (wi_snapshot ids) ?cur (bl_snapshot (sv_baseline ?sv))
        (map received (rec_operations (receipt_from_manifest m))) = Inr snap"
    "sv_baseline (w_service w') = (sv_baseline ?sv)\<lparr>bl_snapshot := snap\<rparr>" "sv_work (w_service w') = sv_work ?sv"
    by (rule mark_published_done[OF p(2)[unfolded assms(3)]])
  have base: "base_view (bl_snapshot (sv_baseline (w_service w'))) q =
      (if q \<in> receipt_paths m then staged_view ?cur q else base_view (bl_snapshot (sv_baseline ?sv)) q)" for q
    using advanced_view[OF a(1)] a(2) receipt_paths_received[of m] by simp
  have x: "map_res (normalize_relative (b_nfc B) [] False \<circ> op_path) (operations m) = Inr (br_paths res)"
    "\<And>op. op \<in> set (operations m) \<Longrightarrow> leaves (bs_host st) (host_path_of B op) = published_leaf B op"
    "\<And>q. q \<notin> host_path_of B ` set (operations m) \<Longrightarrow> leaves (bs_host st) q = leaves (w_host w) q"
    using publish_done[OF p(1) assms(6)] by (auto simp: performed_def)
  have ops: "proper (op_path op) \<and> host_path_of B op = name_parts (op_path op)
      \<and> view_agrees (windows B) (host_says E (bs_host st) (op_path op)) (staged_view ?cur (op_path op))"
    if o: "op \<in> set (operations m)" for op
  proof -
    obtain c where c: "c \<in> set (publishable E ?sv)" "change_to_operation E (sv_work ?sv) c = Inr op"
      by (rule manifest_operation[OF assms(1) o])
    note f = change_to_operation_Inr[OF c(2)]
    have pr: "proper (op_path op)" using change_path_proper[OF assms(7) publishable_changes[OF c(1)]] f(1) by simp
    have tg: "host_path_of B op = name_parts (op_path op)" by (rule published_target[OF x(1) o pr])
    have ch: "change_at (bl_snapshot (sv_baseline ?sv)) ?cur (ch_path c) = Some c"
      using publishable_changes[OF c(1)] set_workspace_changes assms(7) by (auto simp: service_sound_def sv_changes_def)
    note s = staged_of_change[OF this]
    define k where "k = the (ch_staged_mode c)"
    have sm: "op_kind op \<noteq> Delete \<Longrightarrow> staged_mode op = Some k" using f(2,6) s by (auto simp: k_def)
    have "host_says E (bs_host st) (op_path op) =
        (if op_kind op = Delete then None else Some (the (publish_operation.staged_sha256 op), chmod_to B k))"
      unfolding host_says_def tg[symmetric] by (rule published_view[OF x(2)[OF o] _ sm]) (use f(5) assms(5) in simp)
    moreover have "op_kind op \<noteq> Delete \<Longrightarrow> modes_equivalent (windows B) (Some (chmod_to B k)) (Some k)"
      using published_modes[OF p(1) assms(6) o _ sm] by blast
    ultimately have "view_agrees (windows B) (host_says E (bs_host st) (op_path op)) (staged_view ?cur (op_path op))"
      using f s by (cases "ch_operation c = Delete") (simp_all add: view_agrees_def k_def modes_equivalent_def)
    with pr tg show ?thesis by simp
  qed
  have settled: "in_step B E w' q \<and> base_view (bl_snapshot (sv_baseline (w_service w'))) q = staged_view ?cur q"
    if "q \<in> receipt_paths m" for q
    using that ops base[of q] p(3) by (auto simp: receipt_paths_def in_step_def)
  have "in_step B E w' q" if "proper q" "in_step B E w q" for q
  proof (cases "q \<in> receipt_paths m")
    case False
    have "name_parts q \<notin> host_path_of B ` set (operations m)"
      using False ops by (auto simp: receipt_paths_def name_parts_eq_iff)
    from host_view_leaves[OF x(3)[OF this]] that(2) False base[of q] p(3) show ?thesis
      by (simp add: in_step_def host_says_def)
  qed (use settled in blast)
  moreover have "set (sv_changes E (w_service w')) = {c \<in> set (sv_changes E ?sv). ch_path c \<notin> receipt_paths m}"
    using advanced_staging[OF _ a(1)] assms(7) a(2,3) receipt_paths_received[of m]
    by (simp add: sv_changes_def sv_files_def service_sound_def)
  ultimately show ?thesis using settled a(3) by blast
qed

section \<open>Batches of what remains\<close>

lemma batch_loop_acc:
  "batch_loop cs (a @ bs) current used = (case batch_loop cs bs current used of Inl e \<Rightarrow> Inl e | Inr out \<Rightarrow> Inr (a @ out))"
  by (induction cs arbitrary: bs current used) (auto simp: Let_def)

text \<open>The first batch is a prefix of the changes, and the other batches are those of the rest.\<close>

lemma batch_loop_first:
  assumes "batch_loop cs bs current used = Inr out" and "current \<noteq> []"
  shows "\<exists>first rest rem. out = bs @ first # rest \<and> first @ rem = current @ cs \<and> first \<noteq> []
    \<and> batch_loop rem [] [] 0 = Inr rest"
  using assms
proof (induction cs arbitrary: current used)
  case Nil
  then show ?case by auto
next
  case (Cons c cs)
  let ?n = "batch_item_size c"
  have n: "?n \<le> int PUBLISH_BATCH_MAX_BYTES" using Cons.prems(1) by (auto simp: Let_def split: if_splits)
  show ?case
  proof (cases "length current \<ge> PUBLISH_BATCH_MAX_OPERATIONS \<or> used + ?n > int PUBLISH_BATCH_MAX_BYTES")
    case True
    then have "batch_loop cs ((bs @ [current]) @ []) [c] ?n = Inr out" using Cons.prems n by (simp add: Let_def)
    then obtain rest where r: "batch_loop cs [] [c] ?n = Inr rest" "out = (bs @ [current]) @ rest"
      unfolding batch_loop_acc by (auto split: sum.splits)
    have "batch_loop (c # cs) [] [] 0 = Inr rest" using r(1) n by (simp add: Let_def)
    with r(2) Cons.prems(2) show ?thesis by auto
  next
    case False
    then have "batch_loop cs bs (current @ [c]) (used + ?n) = Inr out" using Cons.prems n by (auto simp: Let_def)
    from Cons.IH[OF this] show ?thesis by auto
  qed
qed

lemma publication_batches_first:
  assumes "publication_batches cs = Inr bs" and "cs \<noteq> []"
  obtains first rest rem where "bs = first # rest" "cs = first @ rem" "first \<noteq> []" "publication_batches rem = Inr rest"
proof -
  obtain c ds where cs: "cs = c # ds" using assms(2) by (cases cs) auto
  with assms(1) have "batch_loop ds [] [c] (batch_item_size c) = Inr bs"
    by (auto simp: publication_batches_def Let_def split: if_splits)
  from batch_loop_first[OF this] obtain first rest rem where "bs = first # rest" "first @ rem = cs" "first \<noteq> []"
    "publication_batches rem = Inr rest" unfolding cs publication_batches_def by auto
  then show thesis by (intro that) simp_all
qed

lemma publication_batches_empty: "publication_batches cs = Inr [] \<longleftrightarrow> cs = []"
proof
  assume "publication_batches cs = Inr []"
  then show "cs = []" by (metis list.distinct(1) publication_batches_first)
qed (simp add: publication_batches_def)

text \<open>The changes of a service are in the order of the folded paths.\<close>

lemma changes_sorted:
  "sorted (map (casefold \<circ> ch_path) (sv_changes E sv)) \<and> distinct (map ch_path (sv_changes E sv))"
proof -
  have "sorted (map casefold (map ch_path (sv_changes E sv)))"
    unfolding sv_changes_def map_path_changes using sorted_sort_paths by (metis (no_types, lifting) sorted_filter)
  then have "sorted (map (casefold \<circ> ch_path) (sv_changes E sv))" by (simp only: map_map)
  then show ?thesis by (simp add: sv_changes_def map_path_changes)
qed

lemma changes_list:
  assumes "set (sv_changes E sv') = {c \<in> set (sv_changes E sv). ch_path c \<notin> R}"
    and "inj_on casefold (ch_path ` set (sv_changes E sv))"
  shows "sv_changes E sv' = filter (\<lambda>c. ch_path c \<notin> R) (sv_changes E sv)"
proof (rule map_sorted_distinct_set_unique[where f = "casefold \<circ> ch_path"])
  let ?xs = "sv_changes E sv'" and ?ys = "filter (\<lambda>c. ch_path c \<notin> R) (sv_changes E sv)"
  have "inj_on ch_path (set (sv_changes E sv))" using changes_sorted by (simp add: distinct_map)
  with assms(2) have "inj_on (casefold \<circ> ch_path) (set (sv_changes E sv))" by (rule comp_inj_on[rotated])
  then show i: "inj_on (casefold \<circ> ch_path) (set ?xs \<union> set ?ys)" by (rule inj_on_subset) (use assms(1) in auto)
  show "sorted (map (casefold \<circ> ch_path) ?xs)" using changes_sorted by blast
  show "sorted (map (casefold \<circ> ch_path) ?ys)" using changes_sorted by (blast intro: sorted_filter)
  have "distinct ?xs" "distinct ?ys" using changes_sorted by (auto simp: distinct_map)
  with i show "distinct (map (casefold \<circ> ch_path) ?xs)" "distinct (map (casefold \<circ> ch_path) ?ys)"
    by (auto simp: distinct_map intro: inj_on_subset)
  show "set ?xs = set ?ys" using assms(1) by auto
qed

lemma map_res_fields: "map_res f xs = Inr ys \<Longrightarrow> (\<And>x y. f x = Inr y \<Longrightarrow> g y = h x) \<Longrightarrow> map g ys = map h xs"
  by (induction xs arbitrary: ys) auto

section \<open>All batches of a publication\<close>

text \<open>One batch after the other, each published and acknowledged, until there is no next one.\<close>

inductive publication_run ::
  "broker_env \<Rightarrow> broker \<Rightarrow> service_env \<Rightarrow> pyval \<Rightarrow> publish_manifest \<Rightarrow> world \<Rightarrow> publish_manifest list \<Rightarrow> world \<Rightarrow> bool"
  for B bk E paths where
  last_batch: "publication_run B bk E paths m w [m] w'"
    if "publish_batch B bk E ids required review paths m w = (Inr res, w')" "br_marked res = Inr ()" "br_next res = None"
| more_batches: "publication_run B bk E paths m w (m # ms) w''"
    if "publish_batch B bk E ids required review paths m w = (Inr res, w')" "br_marked res = Inr ()"
      "br_next res = Some (Inr m')" "publication_run B bk E paths m' w' ms w''"

lemma base_view_listed:
  assumes "snapshot_ok s"
  shows "q \<in> fst ` set (hashes s) \<longleftrightarrow> base_view s q \<noteq> None"
proof -
  have m: "map_of (hashes s) q = None \<longleftrightarrow> map_of (modes s) q = None" using assms unfolding snapshot_ok_tables by blast
  have "q \<in> fst ` set (hashes s) \<longleftrightarrow> map_of (hashes s) q \<noteq> None"
    unfolding dom_map_of_conv_image_fst[symmetric] by blast
  with m show ?thesis by (cases "map_of (hashes s) q"; cases "map_of (modes s) q") (simp_all add: base_view_def)
qed

text \<open>One step of the run, on the side of the executor.\<close>

lemma batch_settles:
  assumes "executor_manifest E r (w_service w) = Inr m" and "mr_batch r = PInt n" and "mr_paths r = paths"
    and "publish_batch B bk E ids required review paths m w = (Inr res, w')" and "br_marked res = Inr ()"
    and "service_sound (w_service w)" and "inj_on casefold (ch_path ` set (sv_changes E (w_service w)))"
    and "offered E (w_service w) n paths = Inr todo"
  obtains first rem rest where "todo = first @ rem" "publication_batches rem = Inr rest"
    "map op_path (operations m) = map ch_path first" "batch_count m = n + int (length rest)" "batch_index m = n"
    "todo \<noteq> [] \<Longrightarrow> first \<noteq> []" "service_sound (w_service w')"
    "\<And>k. k \<ge> 2 \<Longrightarrow> offered E (w_service w') k paths = Inr rem"
    "inj_on casefold (ch_path ` set (sv_changes E (w_service w')))"
proof -
  let ?sv = "w_service w" and ?sv' = "w_service w'"
  obtain n' todo' batches where f: "mr_batch r = PInt n'" "1 \<le> n'" "offered E ?sv n' (mr_paths r) = Inr todo'"
    "publication_batches todo' = Inr batches" "map_res (change_to_operation E (sv_work ?sv)) (first_batch batches) = Inr (operations m)"
    "batch_index m = n'" "batch_count m = n' - 1 + max 1 (int (length batches))"
    using manifest_facts[OF assms(1)] by metis
  then have n: "n' = n" "todo' = todo" using assms(2,3,8) by auto
  have ps: "map op_path (operations m) = map ch_path (first_batch batches)"
    by (rule map_res_fields[OF f(5)]) (rule change_to_operation_Inr(1))
  obtain first rem rest where b: "todo = first @ rem" "publication_batches rem = Inr rest" "first_batch batches = first"
    "max 1 (int (length batches)) = 1 + int (length rest)" "todo \<noteq> [] \<Longrightarrow> first \<noteq> []"
  proof (cases "todo = []")
    case True
    with f(4) n have "batches = []" by (simp add: publication_batches_def)
    with True that[of "[]" "[]" "[]"] show thesis by (simp add: publication_batches_def first_batch_def)
  next
    case False
    obtain first rest rem where "batches = first # rest" "todo = first @ rem" "first \<noteq> []" "publication_batches rem = Inr rest"
      by (rule publication_batches_first[OF f(4)[unfolded n] False])
    with that[of first rem rest] show thesis by (simp add: first_batch_def)
  qed
  obtain st where p: "mark_published E (wi_snapshot ids) (receipt_from_manifest m) ?sv = (br_marked res, ?sv')"
    by (rule publish_batch_done[OF assms(4,5)])
  obtain snap where a: "advance_published_staging (wi_snapshot ids) (sv_files E ?sv) (bl_snapshot (sv_baseline ?sv))
        (map received (rec_operations (receipt_from_manifest m))) = Inr snap"
    "sv_baseline ?sv' = (sv_baseline ?sv)\<lparr>bl_snapshot := snap\<rparr>" "sv_work ?sv' = sv_work ?sv"
    by (rule mark_published_done[OF p[unfolded assms(5)]])
  have ok: "snapshot_ok (bl_snapshot (sv_baseline ?sv))" using assms(6) by (simp add: service_sound_def)
  note adv = advanced_staging[OF ok a(1)]
  have R: "receipt_paths m = ch_path ` set first" using ps b(3) by (metis image_set list.set_map receipt_paths_def)
  have ch: "set (sv_changes E ?sv') = {c \<in> set (sv_changes E ?sv). ch_path c \<notin> receipt_paths m}"
    using adv a(2,3) receipt_paths_received[of m] by (simp add: sv_changes_def sv_files_def)
  note ls = changes_list[OF ch assms(7)]
  have pb: "publishable E ?sv' = filter (\<lambda>c. ch_path c \<notin> receipt_paths m) (publishable E ?sv)"
    using ls a(2) by (simp add: publishable_def conj_commute)
  have sub: "set todo \<subseteq> set (publishable E ?sv)" by (rule offered_publishable[OF assms(8)])
  have todo: "todo = filter P (publishable E ?sv) \<Longrightarrow> filter (\<lambda>c. ch_path c \<notin> receipt_paths m) todo = filter P (publishable E ?sv')" for P
    using pb by (simp add: conj_commute)
  have "distinct (map ch_path (publishable E ?sv))"
    using changes_sorted[of E ?sv] by (auto simp: publishable_def intro: distinct_map_filter)
  then have "distinct (map ch_path todo)"
    using assms(8) by (auto simp: offered_def intro: distinct_map_filter split: if_splits)
  then have rem: "filter (\<lambda>c. ch_path c \<notin> receipt_paths m) todo = rem"
    unfolding b(1) R by (auto simp: filter_id_conv filter_empty_conv)
  have off: "offered E ?sv' k paths = Inr rem" if "k \<ge> 2" for k
    using assms(8) pb rem that by (auto simp: offered_def conj_commute split: if_splits)
  have inj: "inj_on casefold (ch_path ` set (sv_changes E ?sv'))"
    by (rule inj_on_subset[OF assms(7)]) (use ch in auto)
  have "proper q" if "q \<in> fst ` set (hashes snap)" for q
  proof (cases "q \<in> receipt_paths m")
    case True
    then obtain c where "c \<in> set first" "q = ch_path c" using R by auto
    with sub b(1) have "c \<in> set (publishable E ?sv)" by auto
    from change_path_proper[OF assms(6) publishable_changes[OF this]] \<open>q = ch_path c\<close> show ?thesis by simp
  next
    case False
    with that have "base_view (bl_snapshot (sv_baseline ?sv)) q \<noteq> None"
      using advanced_view[OF a(1)] adv receipt_paths_received[of m] by (simp add: base_view_listed)
    with assms(6) show ?thesis unfolding service_sound_def base_view_listed[OF ok, symmetric] by blast
  qed
  then have "service_sound ?sv'" using assms(6) adv a(2,3) by (simp add: service_sound_def)
  with that[OF b(1,2)] ps b(3-5) f(6,7) n off inj show thesis by simp
qed

lemma publish_batch_next:
  assumes "publish_batch B bk E ids required review paths m w = (Inr res, w')" and "br_marked res = Inr ()"
    and "1 \<le> batch_index m"
  shows "br_next res = (if has_more_batches m
    then following (executor_manifest E (next_request (wi_manifest ids) (wi_approval ids) paths m) (w_service w')) else None)"
  using assms
  by (auto simp: publish_batch_def has_more_batches_def multi_batch_def split: sum.splits prod.splits batch_outcome.splits if_splits)

text \<open>The selection as the client sends it, and what a batch of a selection can hold.\<close>

definition paths_given :: "string list option \<Rightarrow> pyval" where
  "paths_given p = (case p of None \<Rightarrow> PNone | Some ps \<Rightarrow> if ps = [] then PNone else PList (map PStr ps))"

definition normal_paths :: "service_env \<Rightarrow> string list \<Rightarrow> string set" where
  "normal_paths E ps = {n. \<exists>p\<in>set ps. normalize_relative (nfc (sv_fs E)) (extra_globs (sv_fs E)) False p = Inr n}"

lemma selected_operations:
  assumes "executor_manifest E r sv = Inr m" and "mr_paths r = PList (map PStr ps)"
  shows "receipt_paths m \<subseteq> normal_paths E ps"
proof
  fix q
  assume "q \<in> receipt_paths m"
  then obtain op where op: "op \<in> set (operations m)" "q = op_path op" by (auto simp: receipt_paths_def)
  show "q \<in> normal_paths E ps"
  proof (rule manifest_facts[OF assms(1)])
    fix n todo batches
    assume a: "offered E sv n (mr_paths r) = Inr todo" "publication_batches todo = Inr batches"
      "map_res (change_to_operation E (sv_work sv)) (first_batch batches) = Inr (operations m)"
    obtain c where c: "c \<in> set (first_batch batches)" "change_to_operation E (sv_work sv) c = Inr op"
      by (rule operations_of_changes[OF a(3) op(1)])
    then have t: "c \<in> set todo" using first_batch_subset[OF a(2)] by blast
    from a(1) assms(2) obtain ns where ns: "selected_paths E (PList (map PStr ps)) = Inr ns"
      "todo = filter (\<lambda>c. ch_path c \<in> set ns) (publishable E sv)"
      by (auto simp: offered_def split: sum.splits if_splits)
    have "map_res (normalize_relative (nfc (sv_fs E)) (extra_globs (sv_fs E)) False) (map text_of (map PStr ps)) = Inr ns"
      using ns(1) unfolding selected_paths_def by (simp split: if_splits)
    then have "list_all2 (\<lambda>p n. normalize_relative (nfc (sv_fs E)) (extra_globs (sv_fs E)) False p = Inr n) ps ns"
      by (simp add: map_res_Inr comp_def)
    then have "set ns \<subseteq> normal_paths E ps" by (induction rule: list_all2_induct) (auto simp: normal_paths_def)
    with t ns(2) change_to_operation_Inr(1)[OF c(2)] op(2) show ?thesis by auto
  qed
qed

lemma next_batch_selected:
  assumes "publish_batch B bk E ids required review (paths_given (Some ps)) m w = (Inr res, w')" and "ps \<noteq> []"
    and "br_next res = Some (Inr m2)"
  shows "receipt_paths m2 \<subseteq> normal_paths E ps"
proof -
  have p: "paths_given (Some ps) = PList (map PStr ps)" using assms(2) by (simp add: paths_given_def)
  obtain sv where "executor_manifest E (next_request (wi_manifest ids) (wi_approval ids) (PList (map PStr ps)) m) sv = Inr m2"
    using assms(1,3) unfolding p
    by (auto simp: publish_batch_def following_def split: sum.splits prod.splits batch_outcome.splits if_splits)
  from selected_operations[OF this] show ?thesis by (simp add: next_request_def)
qed

lemma manifest_is_empty:
  assumes "executor_manifest E r sv = Inr m" and "operations m = []" and "mr_batch r = PInt n" and "offered E sv n (mr_paths r) = Inr todo"
  shows "todo = []"
proof (rule ccontr)
  assume ne: "todo \<noteq> []"
  obtain batches where f: "publication_batches todo = Inr batches"
    "map_res (change_to_operation E (sv_work sv)) (first_batch batches) = Inr (operations m)"
    using manifest_facts[OF assms(1)] assms(3,4) by (metis pyval.inject(2) sum.inject(2))
  obtain first rest rem where b: "batches = first # rest" "todo = first @ rem" "first \<noteq> []" "publication_batches rem = Inr rest"
    by (rule publication_batches_first[OF f(1) ne])
  from f(2) b(1) assms(2) have "first = []" by (cases first) (auto simp: first_batch_def)
  with b(3) show False by simp
qed

text \<open>By induction on the run: each batch takes a prefix of what is left and leaves the announced rest.\<close>

lemma run_settles:
  assumes "publication_run B bk E paths m w ms w''"
    and "executor_manifest E r (w_service w) = Inr m" and "mr_batch r = PInt n" and "mr_paths r = paths"
    and "service_sound (w_service w)" and "inj_on casefold (ch_path ` set (sv_changes E (w_service w)))"
    and "offered E (w_service w) n paths = Inr todo"
  shows "concat (map (map op_path \<circ> operations) ms) = map ch_path todo
    \<and> map batch_index ms = [n..batch_count m] \<and> (\<forall>m'\<in>set ms. batch_count m' = batch_count m)
    \<and> (\<forall>k\<ge>2. offered E (w_service w'') k paths = Inr [])"
  using assms
proof (induction arbitrary: r n todo rule: publication_run.induct)
  case (last_batch ids required review m w res w')
  obtain first rem rest where s: "todo = first @ rem" "publication_batches rem = Inr rest"
    "map op_path (operations m) = map ch_path first" "batch_count m = n + int (length rest)" "batch_index m = n"
    "\<And>k. k \<ge> 2 \<Longrightarrow> offered E (w_service w') k paths = Inr rem" and n: "1 \<le> n"
    using batch_settles[OF last_batch.prems(1-3) last_batch.hyps(1,2) last_batch.prems(4-6)]
      manifest_facts[OF last_batch.prems(1)] last_batch.prems(2) by (metis pyval.inject(2))
  have "rem = []"
  proof (cases "has_more_batches m")
    case True
    with publish_batch_next[OF last_batch.hyps(1,2)] last_batch.hyps(3) s(5) n
    obtain m' where "executor_manifest E (next_request (wi_manifest ids) (wi_approval ids) paths m) (w_service w') = Inr m'"
      "operations m' = []" by (auto simp: following_def split: sum.splits if_splits)
    from manifest_is_empty[OF this, of "n + 1" rem] s(5,6) n show ?thesis by (simp add: next_request_def)
  next
    case False
    with s(2,4,5) show ?thesis by (simp add: has_more_batches_def publication_batches_empty)
  qed
  with s show ?case by (simp add: publication_batches_def)
next
  case (more_batches ids required review m w res w' m' ms w'')
  obtain first rem rest where s: "todo = first @ rem" "publication_batches rem = Inr rest"
    "map op_path (operations m) = map ch_path first" "batch_count m = n + int (length rest)" "batch_index m = n"
    "service_sound (w_service w')" "\<And>k. k \<ge> 2 \<Longrightarrow> offered E (w_service w') k paths = Inr rem"
    "inj_on casefold (ch_path ` set (sv_changes E (w_service w')))"
    by (rule batch_settles[OF more_batches.prems(1-3) more_batches.hyps(1,2) more_batches.prems(4-6)]) blast
  have n: "1 \<le> n" using manifest_facts[OF more_batches.prems(1)] more_batches.prems(2) by (metis pyval.inject(2))
  let ?r = "next_request (wi_manifest ids) (wi_approval ids) paths m"
  have m': "executor_manifest E ?r (w_service w') = Inr m'" "n < batch_count m"
    using publish_batch_next[OF more_batches.hyps(1,2)] more_batches.hyps(3) s(5) n
    by (auto simp: following_def has_more_batches_def split: sum.splits if_splits)
  have r: "mr_batch ?r = PInt (n + 1)" "mr_paths ?r = paths" using s(5) by (simp_all add: next_request_def)
  have off: "offered E (w_service w') (n + 1) paths = Inr rem" using s(7) n by simp
  note IH = more_batches.IH[OF m'(1) r s(6,8) off]
  obtain todo' batches where f: "offered E (w_service w') (n + 1) paths = Inr todo'" "publication_batches todo' = Inr batches"
    "batch_count m' = n + max 1 (int (length batches))"
    using manifest_facts[OF m'(1)] r by (metis add_diff_cancel_right' pyval.inject(2))
  with off s(2) have "batch_count m' = n + max 1 (int (length rest))" by simp
  with s(4) m'(2) have count: "batch_count m' = batch_count m" by (cases rest) auto
  with IH s(1,3,5) m'(2) show ?case by (simp add: upto_rec1)
qed


text \<open>Claim C3. A publication that starts with the first batch and runs until there is no next batch takes exactly the
  offered changes, in their order: the batches are numbered from 1 to the announced count, the count that the
  first manifest announces is never corrected, every offered path is in exactly the batches' operations, and
  afterwards nothing of the selection is left to publish.\<close>

theorem publication_takes_announced_batches:
  assumes "executor_manifest E r (w_service w) = Inr m" and "mr_batch r = PInt 1"
    and "offered E (w_service w) 1 (mr_paths r) = Inr todo" and "publication_run B bk E (mr_paths r) m w ms w'"
    and "service_sound (w_service w)" and "inj_on casefold (ch_path ` set (sv_changes E (w_service w)))"
  shows "concat (map (map op_path \<circ> operations) ms) = map ch_path todo
    \<and> map batch_index ms = [1..batch_count m] \<and> (\<forall>m'\<in>set ms. batch_count m' = batch_count m)
    \<and> (\<forall>k\<ge>2. offered E (w_service w') k (mr_paths r) = Inr [])"
  by (rule run_settles[OF assms(4,1,2) refl assms(5,6,3)])

section \<open>The ledger of a publication\<close>

definition ledger_after :: "(publish_manifest \<Rightarrow> string) \<Rightarrow> publish_manifest list \<Rightarrow> ledger_record option" where
  "ledger_after checkpoint ms = fold (\<lambda>m r. Some (ledger_put m BatchPublished (Some (checkpoint m)) None r)) ms None"

lemma ledger_put_fields:
  "lr_published (ledger_put m st cp e r) = published_batches (lr_batches (ledger_put m st cp e r))"
  "lr_batch_count (ledger_put m st cp e r) = batch_count m"
  "lr_remaining (ledger_put m st cp e r) = max 0 (batch_count m - int (length (published_batches (lr_batches (ledger_put m st cp e r)))))"
  "lr_state (ledger_put m st cp e r) =
     (if st = BatchPublished then (if has_more_batches m then InProgress else Completed) else Ended st)"
  by (simp_all add: ledger_put_def Let_def)

lemma ledger_after_snoc:
  "ledger_after cp (ms @ [m]) = Some (ledger_put m BatchPublished (Some (cp m)) None (ledger_after cp ms))"
  by (simp add: ledger_after_def)

lemma ledger_after_prefix:
  assumes "map batch_index ms = [1..int (length ms)]" and "ms \<noteq> []"
  shows "\<exists>r. ledger_after cp ms = Some r \<and> map fst (lr_batches r) = [1..int (length ms)]
    \<and> list_all (\<lambda>e. be_status (snd e) = BatchPublished) (lr_batches r)
    \<and> lr_published r = [1..int (length ms)] \<and> lr_batch_count r = batch_count (last ms)
    \<and> lr_remaining r = max 0 (batch_count (last ms) - int (length ms))
    \<and> lr_state r = (if has_more_batches (last ms) then InProgress else Completed)"
  using assms
proof (induction ms rule: rev_induct)
  case (snoc m ms)
  let ?n = "int (length ms)"
  have up: "[1..1 + ?n] = [1..?n] @ [1 + ?n]" by (simp add: upto_rec2)
  have "map batch_index ms @ [batch_index m] = [1..1 + ?n]" using snoc.prems(1) by simp
  then have i: "map batch_index ms = [1..?n]" "batch_index m = 1 + ?n" unfolding up by simp_all
  define old where "old = (case ledger_after cp ms of None \<Rightarrow> [] | Some r \<Rightarrow> lr_batches r)"
  have old: "map fst old = [1..?n]" "list_all (\<lambda>e. be_status (snd e) = BatchPublished) old"
    using snoc.IH[OF i(1)] by (cases "ms = []"; auto simp: old_def ledger_after_def)+
  have keys: "batch_index m \<notin> fst ` set old" using old(1) i(2) by (simp flip: set_map)
  have up_new: "AList.update (batch_index m) b old = old @ [(batch_index m, b)]" for b
    using keys by (rule update_new_key)
  define b where "b = \<lparr>be_manifest = manifest_id m, be_status = BatchPublished, be_operations = length (operations m),
    be_checkpoint = Some (cp m), be_error = ledger_error None\<rparr>"
  let ?r = "ledger_put m BatchPublished (Some (cp m)) None (ledger_after cp ms)"
  have b: "be_status b = BatchPublished" "lr_batches ?r = old @ [(batch_index m, b)]"
    using up_new[of b] by (cases "ledger_after cp ms"; simp add: ledger_put_def Let_def old_def ledger_new_def b_def)+
  have all: "published_batches (old @ [(batch_index m, b)]) = [1..1 + ?n]"
    using old b(1) i(2) by (simp add: published_batches_def list_all_iff up sorted_sort_id flip: up)
  have "length (published_batches (old @ [(batch_index m, b)])) = length ms + 1" unfolding all by simp
  with old b i(2) all show ?case
    unfolding ledger_after_snoc by (simp add: ledger_put_fields up)
qed simp

text \<open>The ledger follows a publication: recording the batches of a run as they are published, the record
  always lists exactly the batches so far, what remains of the announced count, and turns from in progress
  to completed with the last batch, when nothing remains.\<close>

theorem ledger_follows_publication:
  assumes "executor_manifest E r (w_service w) = Inr m" and "mr_batch r = PInt 1"
    and "offered E (w_service w) 1 (mr_paths r) = Inr todo" and "publication_run B bk E (mr_paths r) m w ms w'"
    and "service_sound (w_service w)" and "inj_on casefold (ch_path ` set (sv_changes E (w_service w)))"
    and "0 < k" and "k \<le> length ms"
  shows "\<exists>l. ledger_after cp (take k ms) = Some l \<and> lr_published l = [1..int k] \<and> lr_batch_count l = batch_count m
    \<and> lr_remaining l = batch_count m - int k \<and> lr_state l = (if k < length ms then InProgress else Completed)"
proof -
  have s: "map batch_index ms = [1..batch_count m]" "\<forall>m'\<in>set ms. batch_count m' = batch_count m"
    using run_settles[OF assms(4,1,2) refl assms(5,6,3)] by blast+
  from arg_cong[OF s(1), of length] assms(7,8) have n: "batch_count m = int (length ms)" by auto
  have t: "map batch_index (take k ms) = [1..int k]"
    unfolding take_map[symmetric] s(1) n by (rule nth_equalityI) (use assms(8) in \<open>simp_all add: nth_upto\<close>)
  have "ms \<noteq> []" using assms(7,8) by auto
  then have "last (take k ms) = ms ! (k - 1)" using assms(7,8) by (simp add: last_conv_nth min_def)
  moreover have "batch_index (ms ! (k - 1)) = int k"
    using arg_cong[OF s(1), of "\<lambda>xs. xs ! (k - 1)"] assms(7,8) n by (simp add: nth_upto)
  moreover have "ms ! (k - 1) \<in> set ms" using assms(7,8) by simp
  ultimately have last: "last (take k ms) = ms ! (k - 1)" "ms ! (k - 1) \<in> set ms" "batch_index (ms ! (k - 1)) = int k" by blast+
  have "map batch_index (take k ms) = [1..int (length (take k ms))]" "take k ms \<noteq> []" using t assms(7,8) by (auto simp: min_def)
  from ledger_after_prefix[OF this, of cp] last s(2) n assms(7,8) show ?thesis
    by (auto simp: min_def has_more_batches_def)
qed

section \<open>Witnesses\<close>

text \<open>A Windows host, where \<open>chmod\<close> keeps the write bit only.\<close>

definition windows_bits :: "int \<Rightarrow> int" where
  "windows_bits k = (if k AND 0x80 \<noteq> 0 then 0x1B6 else 0x124)"

definition demo_broker_env :: broker_env where
  "demo_broker_env = sample_broker_env\<lparr>b_sha := sha (sv_fs demo_env), windows := True, chmod_to := windows_bits\<rparr>"

definition demo_broker :: broker where
  "demo_broker = \<lparr>bk_identity = workspace_id (sv_config demo_env), bk_never_publish = never_publish (sv_config demo_env)\<rparr>"

definition demo_world :: world where
  "demo_world = \<lparr>w_host = demo_source, w_service = (projr demo_start)\<lparr>sv_work := Dir [(''b'', File ''z'' 0x1A4 1)]\<rparr>\<rparr>"

definition demo_manifest :: publish_manifest where
  "demo_manifest = projr (executor_manifest demo_env demo_request (w_service demo_world))"

definition demo_ids :: worker_ids where
  "demo_ids = \<lparr>wi_client = True, wi_snapshot = ''t'', wi_manifest = ''n'', wi_approval = ''q''\<rparr>"

definition demo_publish :: "(exn + batch_result) \<times> world" where
  "demo_publish = publish_batch demo_broker_env demo_broker demo_env demo_ids [] None PNone demo_manifest demo_world"

lemma demo_manifest_is: "executor_manifest demo_env demo_request (w_service demo_world) = Inr demo_manifest"
proof -
  have "isOK (executor_manifest demo_env demo_request (w_service demo_world))" by code_simp
  then show ?thesis unfolding demo_manifest_def by (rule isOK_projr)
qed

lemma demo_published:
  "publish_batch demo_broker_env demo_broker demo_env demo_ids [] None PNone demo_manifest demo_world =
     (Inr (projr (fst demo_publish)), snd demo_publish)"
  "br_marked (projr (fst demo_publish)) = Inr ()" "br_next (projr (fst demo_publish)) = None"
proof -
  have "isOK (fst demo_publish)" by code_simp
  from isOK_projr[OF this] show "publish_batch demo_broker_env demo_broker demo_env demo_ids [] None PNone demo_manifest demo_world =
     (Inr (projr (fst demo_publish)), snd demo_publish)" unfolding demo_publish_def by (metis prod.collapse)
  show "br_marked (projr (fst demo_publish)) = Inr ()" by code_simp
  have "Option.is_none (br_next (projr (fst demo_publish)))" by code_simp
  then show "br_next (projr (fst demo_publish)) = None" by (simp add: Option.is_none_def)
qed

lemma demo_sound: "service_sound (w_service demo_world)"
proof -
  let ?b = "bl_snapshot (sv_baseline (w_service demo_world))"
  have "map fst (hashes ?b) = [''a'']" "map fst (sizes ?b) = [''a'']" "map fst (modes ?b) = [''a'']" by code_simp+
  then have "snapshot_ok ?b" "fst ` set (hashes ?b) = {''a''}"
    by (simp_all add: snapshot_ok_def dom_map_of_conv_image_fst flip: set_map)
  moreover have "proper ''a''" by (simp add: proper_def name_parts_def valid_name_def)
  ultimately show ?thesis by (simp add: service_sound_def demo_world_def good_tree_def valid_name_def)
qed

theorem published_batch_stays_in_step_witness:
  "receipt_paths demo_manifest = {''a'', ''b''} \<and> in_step demo_broker_env demo_env (snd demo_publish) ''b''
   \<and> sv_changes demo_env (w_service (snd demo_publish)) = []"
proof -
  have r: "map op_path (operations demo_manifest) = [''a'', ''b'']"
    "map ch_path (sv_changes demo_env (w_service demo_world)) = [''a'', ''b'']" by code_simp+
  then have p: "receipt_paths demo_manifest = {''a'', ''b''}"
    "ch_path ` set (sv_changes demo_env (w_service demo_world)) = {''a'', ''b''}"
    by (simp_all add: receipt_paths_def flip: set_map)
  have e: "b_sha demo_broker_env = sha (sv_fs demo_env)" "b_decode demo_broker_env = sv_b64decode demo_env"
    "good_tree (w_host demo_world)"
    by (simp_all add: demo_broker_env_def demo_env_def sample_broker_env_def demo_world_def demo_source_def
      good_tree_def valid_name_def)
  note s = published_batch_stays_in_step[OF demo_manifest_is demo_published(1,2) e demo_sound]
  from s[THEN conjunct1] have "in_step demo_broker_env demo_env (snd demo_publish) ''b''" unfolding p(1) by simp
  moreover from s[THEN conjunct2, THEN conjunct2, THEN conjunct2]
  have "set (sv_changes demo_env (w_service (snd demo_publish))) = {}" unfolding p(1) using p(2) by auto
  ultimately show ?thesis using p(1) by simp
qed

lemma demo_request_parts: "mr_paths demo_request = PNone" "mr_batch demo_request = PInt 1"
  by (simp_all add: demo_request_def)

lemma demo_run: "publication_run demo_broker_env demo_broker demo_env PNone demo_manifest demo_world [demo_manifest] (snd demo_publish)"
  by (rule last_batch[OF demo_published])

lemma demo_inj: "inj_on casefold (ch_path ` set (sv_changes demo_env (w_service demo_world)))"
proof -
  have "map ch_path (sv_changes demo_env (w_service demo_world)) = [''a'', ''b'']" by code_simp
  then have "ch_path ` set (sv_changes demo_env (w_service demo_world)) = {''a'', ''b''}" by (simp flip: set_map)
  moreover have "casefold ''a'' \<noteq> casefold ''b''" by code_simp
  ultimately show ?thesis by simp
qed

theorem publication_takes_announced_batches_witness:
  "offered demo_env (w_service (snd demo_publish)) 2 PNone = Inr [] \<and> batch_count demo_manifest = 1"
proof -
  have o: "offered demo_env (w_service demo_world) 1 PNone = Inr (publishable demo_env (w_service demo_world))"
    by (simp add: offered_def)
  have "batch_count demo_manifest = 1" by code_simp
  with publication_takes_announced_batches[OF demo_manifest_is demo_request_parts(2) _ _ demo_sound demo_inj,
    unfolded demo_request_parts(1), OF o demo_run]
  show ?thesis by simp
qed

theorem ledger_follows_publication_witness:
  "\<exists>l. ledger_after (\<lambda>_. ''c'') [demo_manifest] = Some l \<and> lr_remaining l = 0 \<and> lr_state l = Completed"
proof -
  have o: "offered demo_env (w_service demo_world) 1 PNone = Inr (publishable demo_env (w_service demo_world))"
    by (simp add: offered_def)
  have c: "batch_count demo_manifest = 1" by code_simp
  show ?thesis
    using ledger_follows_publication[OF demo_manifest_is demo_request_parts(2) _ _ demo_sound demo_inj, unfolded demo_request_parts(1),
      OF o demo_run, of 1 "\<lambda>_. ''c''"] c by auto
qed

end
