(* ===== verification/Broker_Progress.thy ===== *)
theory Broker_Progress
  imports Broker
begin

text \<open>
  When a batch is published: if every host file is still the reviewed one, nothing but directories lies
  on the way to it, no path of the batch lies below another and the file system refuses nothing, then
  the broker performs the whole batch.
\<close>

section \<open>What an operation needs\<close>

definition passable :: "node \<Rightarrow> path \<Rightarrow> bool" where
  "passable t p \<longleftrightarrow> (\<forall>q. under q p \<longrightarrow> shape t q = None \<or> shape t q = Some (Dir []))"

definition awaited :: "broker_env \<Rightarrow> publish_operation \<Rightarrow> path \<Rightarrow> node \<Rightarrow> bool" where
  "awaited env op p t \<longleftrightarrow> p \<noteq> [] \<and> passable t (butlast p)
     \<and> (case lookup t p of
          None \<Rightarrow> op_kind op = Create \<and> base_sha256 op = None \<and> base_mode op = None
        | Some (File c m k) \<Rightarrow> k \<le> 1 \<and> base_sha256 op = Some (b_sha env c) \<and> modes_equivalent (windows env) (Some m) (base_mode op)
        | _ \<Rightarrow> False)"

definition doable :: "broker_env \<Rightarrow> publish_operation \<Rightarrow> path \<Rightarrow> bool" where
  "doable env op p \<longleftrightarrow> \<not> copy_refused env p \<and> \<not> write_refused env p \<and> publish_operation_ok (b_sha env) (b_decode env) op
     \<and> (\<forall>k. staged_mode op = Some k \<longrightarrow> modes_equivalent (windows env) (Some (chmod_to env k)) (Some k))"

text \<open>A step at \<open>p\<close>: everything else keeps its shape, and new directories lie above \<open>p\<close>.\<close>

definition alters :: "path \<Rightarrow> node \<Rightarrow> node \<Rightarrow> bool" where
  "alters p t t' \<longleftrightarrow> (\<forall>q. q \<noteq> p \<longrightarrow> shape t' q = shape t q \<or> shape t q = None \<and> shape t' q = Some (Dir []) \<and> under q (butlast p))"

lemma passable_child:
  assumes "passable (Dir es) (p # ps)" and "map_of es p = Some c"
  shows "is_dir (Some c) \<and> passable c ps"
proof -
  have "shape c q = None \<or> shape c q = Some (Dir [])" if "under q ps" for q
    using assms that unfolding passable_def by (auto simp: shape_def dest!: spec[of _ "p # q"])
  moreover from this[of "[]"] have "is_dir (Some c)" using is_dir_shape[of c "[]"] by (auto simp: shape_def)
  ultimately show ?thesis by (simp add: passable_def)
qed

lemma make_dirs_passable:
  assumes "is_dir (Some t)" and "passable t p"
  shows "\<exists>t'. make_dirs p t = Inr t'"
  using assms
proof (induction p t rule: make_dirs.induct)
  case (3 p ps es)
  let ?c = "case map_of es p of None \<Rightarrow> Dir [] | Some c \<Rightarrow> c"
  have "is_dir (Some ?c) \<and> passable ?c ps"
  proof (cases "map_of es p")
    case None
    then show ?thesis by (simp add: passable_def)
  next
    case (Some c)
    with passable_child[OF 3(3) Some] show ?thesis by simp
  qed
  with 3(1) show ?case by auto
qed (auto simp: passable_def)

lemma host_walk_passable:
  assumes "passable t (butlast p)" and "case lookup t p of None \<Rightarrow> True | Some (File c m k) \<Rightarrow> k \<le> 1 | _ \<Rightarrow> False"
  shows "host_walk t p = Inr ()"
  using assms
proof (induction t p rule: host_walk.induct)
  case (2 es p ps)
  show ?case
  proof (cases "map_of es p")
    case (Some c)
    show ?thesis
    proof (cases "ps = []")
      case True
      with Some 2(5) show ?thesis by (cases c) auto
    next
      case False
      with 2(4) have "passable (Dir es) (p # butlast ps)" by simp
      from passable_child[OF this Some] obtain ds where c: "c = Dir ds" "passable c (butlast ps)" by (auto simp: is_dir_def split: node.splits)
      with 2(3)[OF Some] 2(5) Some show ?thesis by simp
    qed
  qed simp
qed simp_all

text \<open>The review passes.\<close>

lemma awaited_review:
  assumes "awaited env op p t"
  obtains pre where "review_host env op p t = Inr pre" "pi_existed pre \<longrightarrow> (\<exists>c m k. lookup t p = Some (File c m k))"
proof (cases "lookup t p")
  case None
  with assms have "host_walk t p = Inr ()" "op_kind op = Create" "base_sha256 op = None" "base_mode op = None" "p \<noteq> []"
    using host_walk_passable[of t p] by (simp_all add: awaited_def)
  with None show thesis
    by (intro that[of "\<lparr>pi_existed = False, pi_base_sha = None, pi_base_mode = None, pi_published_sha = staged_sha256 op, pi_published_mode = staged_mode op\<rparr>"])
      (simp_all add: review_host_def host_target_def host_exists_def modes_equivalent_def)
next
  case (Some n)
  with assms obtain c m k where n: "lookup t p = Some (File c m k)" "k \<le> 1" "base_sha256 op = Some (b_sha env c)"
    "modes_equivalent (windows env) (Some m) (base_mode op)" "p \<noteq> []" "passable t (butlast p)"
    by (auto simp: awaited_def split: node.splits)
  then have "host_walk t p = Inr ()" using host_walk_passable[of t p] by simp
  with n show thesis
    by (intro that[of "\<lparr>pi_existed = True, pi_base_sha = Some (b_sha env c), pi_base_mode = Some m, pi_published_sha = staged_sha256 op, pi_published_mode = staged_mode op\<rparr>"])
      (simp_all add: review_host_def host_target_def host_exists_def host_is_file_def hash_file_def host_mode_def)
qed

text \<open>The operation succeeds.\<close>

lemma write_host_succeeds:
  assumes "passable t (butlast p)" and "p \<noteq> []" and "is_dir (Some t)" and "\<not> is_dir (lookup t p)" and "\<not> refused p"
  shows "\<exists>t'. write_host env refused p c md t = (Inr (), t') \<and> lookup t' p = Some (File c (mode_given env md) 1)
    \<and> alters p t t' \<and> is_dir (Some t')"
proof -
  obtain t1 where t1: "make_dirs (butlast p) t = Inr t1" using make_dirs_passable[OF assms(3,1)] by blast
  note s = shape_make_dirs[OF t1]
  have d: "is_dir (lookup t1 (butlast p))" using s[of "butlast p"] by (simp add: is_dir_shape)
  have "\<not> under p (butlast p)" using under_butlast[of p p] assms(2) by blast
  then have nd: "\<not> is_dir (lookup t1 p)" using s[of p] assms(4) by (simp add: is_dir_shape)
  let ?t2 = "put p (File c (mode_given env md) 1) t1"
  have "write_host env refused p c md t = (Inr (), ?t2)"
    using t1 d(1) nd assms(5) by (simp add: write_host_def replace_file_def step_from_def)
  moreover have sh: "shape ?t2 q = (if q = p then Some (File c (mode_given env md) 1) else if under q (butlast p) then Some (Dir []) else shape t q)" for q
    using put_shape[OF assms(2) d(1) nd, of "File c (mode_given env md) 1" q] s by simp
  moreover have "alters p t ?t2" using sh assms(1) by (auto simp: alters_def passable_def)
  moreover have "is_dir (Some ?t2)" using sh[of "[]"] assms(2) is_dir_shape[of ?t2 "[]"] by simp
  moreover have "lookup ?t2 p = Some (File c (mode_given env md) 1)" by (rule lookup_put_here[OF assms(2) d nd])
  ultimately show ?thesis by blast
qed

lemma awaited_put:
  assumes "awaited env op p t" and "doable env op p" and "is_dir (Some t)"
  shows "\<exists>t'. put_operation env op p t = (Inr (), t') \<and> alters p t t' \<and> is_dir (Some t')"
proof (cases "op_kind op = Delete")
  case True
  with assms(1) obtain c m k where n: "lookup t p = Some (File c m k)" "p \<noteq> []"
    by (auto simp: awaited_def split: option.splits node.splits)
  then have sh: "shape (remove_at p t) q = (if q = p then None else shape t q)" for q by (intro remove_shape) simp_all
  have "put_operation env op p t = (Inr (), remove_at p t)"
    using True n assms(2) by (simp add: put_operation_def unlink_host_def doable_def)
  moreover have "is_dir (Some (remove_at p t))"
    using sh[of "[]"] n(2) assms(3) is_dir_shape[of "remove_at p t" "[]"] is_dir_shape[of t "[]"] by simp
  ultimately show ?thesis using sh by (simp add: alters_def)
next
  case False
  with assms(2) obtain c where c: "op_payload (b_decode env) op = Inr c" "publish_operation.staged_sha256 op = Some (b_sha env c)"
    "\<not> (op_content op = None \<and> content_base64 op = None)" by (auto simp: doable_def publish_operation_ok_def split: sum.splits)
  have "\<not> is_dir (lookup t p)" "passable t (butlast p)" "p \<noteq> []"
    using assms(1) by (auto simp: awaited_def is_dir_def split: option.splits node.splits)
  from write_host_succeeds[OF this(2,3) assms(3) this(1)] assms(2) obtain t' where
    w: "write_host env (write_refused env) p c (staged_mode op) t = (Inr (), t')"
      "lookup t' p = Some (File c (mode_given env (staged_mode op)) 1)" "alters p t t'" "is_dir (Some t')"
    unfolding doable_def by blast
  then have "check_written env op (lookup t' p) = Inr ()"
    using c(2) assms(2) by (cases "staged_mode op") (auto simp: check_written_def hash_file_def host_mode_def mode_given_def doable_def)
  with w False c show ?thesis by (simp add: put_operation_def)
qed

lemma same_leaf: "shape t' p = shape t p \<Longrightarrow> lookup t' p = lookup t p \<or> is_dir (lookup t p)"
  by (cases "lookup t p"; cases "lookup t' p"; cases "the (lookup t p)"; cases "the (lookup t' p)") (auto simp: shape_def)

text \<open>Another operation of the batch does not disturb it.\<close>

lemma awaited_kept:
  assumes "awaited env op p t" and "alters q t t'" and "\<not> under p q" and "\<not> under q p"
  shows "awaited env op p t'"
proof -
  have ne: "p \<noteq> []" and ok: "passable t (butlast p)" using assms(1) by (simp_all add: awaited_def)
  have "shape t' r = None \<or> shape t' r = Some (Dir [])" if "under r (butlast p)" for r
  proof -
    have "under r p" using under_butlast[OF that ne] by simp
    with assms(4) have "r \<noteq> q" by auto
    with assms(2) ok that show ?thesis unfolding alters_def passable_def by metis
  qed
  moreover have "shape t' p = shape t p"
  proof -
    have "p \<noteq> q" "q \<noteq> []" using assms(3,4) by auto
    moreover from this have "\<not> under p (butlast q)" using under_butlast[of p q] assms(3) by blast
    ultimately show ?thesis using assms(2) unfolding alters_def by blast
  qed
  ultimately show ?thesis using assms(1) same_leaf[of t' p t]
    by (auto simp: awaited_def passable_def is_dir_def split: option.splits node.splits)
qed

section \<open>The whole batch\<close>

lemma awaited_publish_one:
  assumes "normalize_relative (b_nfc env) [] False (op_path op) = Inr n" and "awaited env op (path_parts n) (bs_host st)"
    and "doable env op (path_parts n)" and "is_dir (Some (bs_host st))"
  shows "\<exists>st'. publish_one env op st = (Inr (), st') \<and> alters (path_parts n) (bs_host st) (bs_host st') \<and> is_dir (Some (bs_host st'))"
proof -
  let ?p = "path_parts n"
  obtain pre where pre: "review_host env op ?p (bs_host st) = Inr pre"
    "pi_existed pre \<longrightarrow> (\<exists>c m k. lookup (bs_host st) ?p = Some (File c m k))" by (rule awaited_review[OF assms(2)])
  obtain t' where t': "put_operation env op ?p (bs_host st) = (Inr (), t')" "alters ?p (bs_host st) t'" "is_dir (Some t')"
    using awaited_put[OF assms(2-4)] by blast
  let ?st1 = "st\<lparr>bs_meta := AList.update n pre (bs_meta st)\<rparr>"
  obtain st2 where st2: "(if pi_existed pre then keep_copy env n ?p ?st1 else Inr ?st1) = Inr st2" "bs_host st2 = bs_host st"
    using pre(2) assms(3) by (cases "pi_existed pre") (auto simp: keep_copy_def doable_def)
  show ?thesis
    using assms(1) pre(1) st2 t' by (simp add: publish_one_def Let_def)
qed

lemma awaited_loop:
  assumes "\<forall>op\<in>set ops. awaited env op (host_path_of env op) (bs_host st) \<and> doable env op (host_path_of env op)"
    and "map_res (normalize_relative (b_nfc env) [] False \<circ> op_path) ops = Inr ns"
    and "distinct ns" and "unnested (host_path_of env ` set ops)" and "is_dir (Some (bs_host st))"
  shows "\<exists>st'. publish_loop env ops st = (Inr (), st')"
  using assms
proof (induction ops arbitrary: st ns)
  case (Cons op ops)
  then obtain n ms where n: "normalize_relative (b_nfc env) [] False (op_path op) = Inr n" "ns = n # ms"
    and ms: "map_res (normalize_relative (b_nfc env) [] False \<circ> op_path) ops = Inr ms" by (auto simp: comp_def)
  have tg: "host_path_of env op = path_parts n" using n(1) by (simp add: host_path_of_def)
  obtain st1 where st1: "publish_one env op st = (Inr (), st1)" "alters (path_parts n) (bs_host st) (bs_host st1)" "is_dir (Some (bs_host st1))"
    using awaited_publish_one[OF n(1), of st] Cons.prems(1,5) tg by auto
  have "awaited env o' (host_path_of env o') (bs_host st1)" if o: "o' \<in> set ops" for o'
  proof -
    have a: "awaited env o' (host_path_of env o') (bs_host st)" using Cons.prems(1) o by simp
    have "host_path_of env o' \<in> places ms" using places_targets[OF ms] o by blast
    moreover have "path_parts n \<notin> places ms"
      using path_parts_inj[of n] Cons.prems(1,3) n(2) tg by (auto simp: places_def awaited_def)
    ultimately have "host_path_of env o' \<noteq> host_path_of env op" using tg by metis
    with Cons.prems(4) o have "\<not> under (host_path_of env o') (host_path_of env op)" "\<not> under (host_path_of env op) (host_path_of env o')"
      unfolding unnested_def by (metis image_eqI list.set_intros(1,2))+
    then show ?thesis using awaited_kept[OF a st1(2)] tg by simp
  qed
  with Cons.IH[OF _ ms, of st1] Cons.prems(1,3,4) n(2) st1 show ?case by (auto simp: unnested_def)
qed simp

lemma awaited_batch:
  assumes "check_manifest env bk m approved = Inr ()" and "is_dir (Some t)"
    and "\<forall>op\<in>set (operations m). awaited env op (host_path_of env op) t \<and> doable env op (host_path_of env op)"
    and "unnested (host_path_of env ` set (operations m))"
  shows "\<exists>paths st. publish env bk m approved t = Inr (Published paths, st)"
proof -
  obtain ns where ns: "map_res (normalize_relative (b_nfc env) [] False \<circ> op_path) (operations m) = Inr ns" "distinct ns"
    by (rule check_manifest_Inr[OF assms(1)])
  have "\<exists>st'. publish_loop env (operations m) (batch_start t) = (Inr (), st')"
    by (rule awaited_loop[OF _ ns assms(4)]) (use assms(2,3) in \<open>simp_all add: batch_start_def\<close>)
  with assms(1) show ?thesis by (auto simp: publish_def)
qed

text \<open>A batch that the broker has accepted is published when nothing stands in its way: every host file is
  still the reviewed one (or still missing), only directories lie above the paths, no path of
  the batch lies below another, payloads are valid and the file system refuses nothing.\<close>

theorem undisturbed_batch_is_published:
  assumes "check_manifest env bk m approved = Inr ()" and "is_dir (Some t)"
    and "\<forall>op\<in>set (operations m). awaited env op (host_path_of env op) t \<and> doable env op (host_path_of env op)"
    and "unnested (host_path_of env ` set (operations m))"
  shows "\<exists>paths st. publish env bk m approved t = Inr (Published paths, st)"
  by (rule awaited_batch[OF assms])

theorem undisturbed_batch_is_published_witness: "\<exists>paths st. sample_publish good_ops = Inr (Published paths, st)"
proof -
  have c: "check_manifest sample_broker_env sample_broker (sample_batch good_ops) (map op_path good_ops) = Inr ()"
    by code_simp
  have l: "lookup sample_host [''a''] = Some (File ''x'' 420 1)" "lookup sample_host [''d'', ''e''] = None"
    "lookup sample_host [''c''] = Some (File ''y'' 420 1)" by (simp_all add: sample_host_def)
  have p: "host_path_of sample_broker_env (sample_put ''a'' (Some ''x'') (Some ''n'')) = [''a'']"
    "host_path_of sample_broker_env (sample_put ''d/e'' None (Some ''z'')) = [''d'', ''e'']"
    "host_path_of sample_broker_env (sample_put ''c'' (Some ''y'') None) = [''c'']" by code_simp+
  have "passable sample_host []" "passable sample_host [''d'']"
    by (auto simp: passable_def sample_host_def under_iff append_eq_Cons_conv shape_def Cons_eq_append_conv)
  then have a: "\<forall>op\<in>set good_ops. awaited sample_broker_env op (host_path_of sample_broker_env op) sample_host
      \<and> doable sample_broker_env op (host_path_of sample_broker_env op)"
    by (simp add: good_ops_def p awaited_def l) (simp add: doable_def sample_put_def publish_operation_ok_def op_payload_def
      sample_broker_env_def modes_equivalent_def)
  have t: "host_path_of sample_broker_env ` set (operations (sample_batch good_ops)) = {[''a''], [''d'', ''e''], [''c'']}"
    by code_simp
  have "unnested (host_path_of sample_broker_env ` set (operations (sample_batch good_ops)))"
    unfolding t by (simp add: unnested_def)
  with undisturbed_batch_is_published[OF c _ _ this] a show ?thesis
    by (simp add: sample_publish_def sample_batch_def sample_host_def)
qed

end
