(* ===== verification/Manifests.thy ===== *)
theory Manifests
  imports Publication Broker_Progress
begin

text \<open>
  What the broker makes of a manifest that the executor offers.  The executor promises sizes, unique paths
  and the publication rules of its configuration; the broker (\<open>WorkspaceBroker._check_manifest\<close>) checks
  them again with its own path rules.  The two agree except on names that are fine on the sandbox's
  file system and not portable: those the executor offers and the broker refuses, with the whole batch.
\<close>

text \<open>What is relied on: the length of base64 text, and that the normal form of a path is that of its parts.\<close>

definition b64_sized :: "service_env \<Rightarrow> bool" where
  "b64_sized E \<longleftrightarrow> (\<forall>b. let e = sv_b64encode E b in
     int (length e) * 3 div 4 - int (length (filter (\<lambda>c. c = CHR ''='') (drop (length e - 2) e))) = int (length b))"

definition nfc_by_parts :: "(string \<Rightarrow> string) \<Rightarrow> bool" where
  "nfc_by_parts f \<longleftrightarrow> (\<forall>s. (\<forall>p\<in>set (name_parts s). f p = p) \<longrightarrow> f s = s)"

definition portable :: "(string \<Rightarrow> string) \<Rightarrow> string \<Rightarrow> bool" where
  "portable f s \<longleftrightarrow> list_all (safe_segment f [] False) (name_parts s)"

lemma normalize_portable:
  assumes "proper s" and "portable f s"
  shows "normalize_relative f [] False s = Inr s"
  using assms safe_segments_normal[of "name_parts s" f "[]" False]
  by (simp add: portable_def list_all_iff name_parts_def)

lemma normalize_proper_iff:
  assumes "proper s"
  shows "normalize_relative f [] False s = (if portable f s then Inr s else Inl UnsafePath)"
proof (cases "normalize_relative f [] False s")
  case (Inl e)
  with normalize_portable[OF assms] normalize_error[OF Inl] show ?thesis by auto
next
  case (Inr n)
  have ok: "\<forall>p\<in>set (name_parts s). CHR ''/'' \<notin> set p \<and> p \<noteq> [] \<and> p \<noteq> ''.''"
    using assms unfolding proper_def list_all_iff valid_name_def by blast
  then have "s \<noteq> []" "posix_parts s = name_parts s"
    using posix_parts_relative[OF name_parts_not_Nil ok] by (auto simp: name_parts_def)
  with normalize_relative_parts[OF Inr] normalize_proper[OF Inr assms] Inr show ?thesis
    by (simp add: portable_def list_all_iff)
qed

lemma map_res_checked:
  assumes "\<And>x. x \<in> set xs \<Longrightarrow> f x = (if P x then Inr (g x) else Inl e)"
  shows "map_res f xs = (if list_all P xs then Inr (map g xs) else Inl e)"
  using assms by (induction xs) auto

lemma map_res_map: "map_res f (map g xs) = map_res (f \<circ> g) xs"
  by (induction xs) auto

lemma unique_keys_portable:
  assumes "\<forall>s\<in>set ss. proper s \<and> portable f s \<and> f s = s" and "distinct (map casefold ss)"
    and "casefold ` set ss \<inter> set aliases = {}"
  shows "unique_keys f [] aliases ss = Inr ()"
  using assms by (induction ss arbitrary: aliases) (auto simp: normalize_portable Let_def)

lemma publishable_at:
  assumes "service_sound sv" and "c \<in> set (publishable E sv)"
  shows "change_at (bl_snapshot (sv_baseline sv)) (sv_files E sv) (ch_path c) = Some c"
  using publishable_changes[OF assms(2)] set_workspace_changes assms(1) by (auto simp: service_sound_def sv_changes_def)

lemma change_at_size:
  assumes "change_at s cur q = Some c"
  shows "ch_staged_size c = map_option (fst \<circ> snd) (map_of cur q)" and "ch_operation c \<noteq> Delete \<Longrightarrow> map_of cur q \<noteq> None"
  using assms by (auto simp: change_at_def Let_def split: if_splits)

lemma staged_parts:
  assumes "change_at s cur q = Some c"
  shows "if ch_operation c = Delete then map_of cur q = None
    else \<exists>h n md. map_of cur q = Some (h, n, md) \<and> ch_staged_sha256 c = Some h \<and> ch_staged_mode c = Some md"
  using assms by (auto simp: change_at_def Let_def split: if_splits)

lemma base_parts:
  assumes "change_at s cur q = Some c" and "snapshot_ok s"
  shows "case base_view s q of None \<Rightarrow> ch_base_sha256 c = None \<and> ch_base_mode c = None \<and> ch_operation c = Create
    | Some (h, md) \<Rightarrow> ch_base_sha256 c = Some h \<and> ch_base_mode c = Some md"
proof -
  have "map_of (hashes s) q = None \<longleftrightarrow> map_of (modes s) q = None" using assms(2) unfolding snapshot_ok_tables by blast
  then consider "map_of (hashes s) q = None" "map_of (modes s) q = None"
    | h md where "map_of (hashes s) q = Some h" "map_of (modes s) q = Some md" by auto
  then show ?thesis
    using assms(1) by cases (auto simp: change_at_def Let_def base_view_def split: if_splits)
qed

text \<open>The payload of an operation is as large as the change it was made of.\<close>

lemma payload_of_change:
  assumes "service_sound sv" and "b64_sized E" and "c \<in> set (publishable E sv)"
    and "change_to_operation E (sv_work sv) c = Inr op"
  shows "op_payload_bytes op = batch_item_size c"
proof -
  note ch = publishable_at[OF assms(1,3)]
  show ?thesis
  proof (cases "ch_operation c = Delete")
    case True
    with assms(4) show ?thesis
      by (auto simp: change_to_operation_def checked_operation_def Let_def op_payload_bytes_def batch_item_size_def split: if_splits)
  next
    case False
    with assms(4) obtain raw md k where f: "lookup (sv_work sv) (name_parts (ch_path c)) = Some (File raw md k)"
      "content_base64 op = None \<and> op_content op = Some raw \<or> content_base64 op = Some (sv_b64encode E raw)"
      by (auto simp: change_to_operation_def checked_operation_def Let_def split: if_splits option.splits node.splits)
    have "op_payload_bytes op = int (length raw)"
      using f(2) assms(2) by (auto simp: op_payload_bytes_def b64_sized_def Let_def)
    moreover have "ch_staged_size c = map_option (fst \<circ> snd) (map_of (sv_files E sv) (ch_path c))"
      "map_of (sv_files E sv) (ch_path c) \<noteq> None" using change_at_size[OF ch] False by blast+
    moreover have "map_of (sv_files E sv) (ch_path c) \<noteq> None \<Longrightarrow>
        map_of (sv_files E sv) (ch_path c) = Some (sha (sv_fs E) raw, int (length raw), md)"
      using f(1) assms(1) by (auto simp: sv_files_def listing_seen seen_def service_sound_def split: if_splits)
    ultimately show ?thesis using False by (simp add: batch_item_size_def)
  qed
qed


lemma payloads_of_changes:
  assumes "map_res (change_to_operation E (sv_work sv)) cs = Inr ops" and "set cs \<subseteq> set (publishable E sv)"
    and "service_sound sv" and "b64_sized E"
  shows "map op_payload_bytes ops = map batch_item_size cs"
  using assms(1,2) payload_of_change[OF assms(3,4)]
  by (induction cs arbitrary: ops) auto

lemma accepted_manifest:
  assumes "executor_manifest E r sv = Inr m" and "service_sound sv" and "b64_sized E" and "nfc_by_parts (b_nfc B)"
    and "bk_identity bk = workspace_id (sv_config E)" and "bk_never_publish bk = never_publish (sv_config E)"
  shows "check_manifest B bk m (map op_path (operations m)) =
    (if list_all (portable (b_nfc B) \<circ> op_path) (operations m) then Inr () else Inl UnsafePath)"
proof -
  obtain n todo batches where f: "offered E sv n (mr_paths r) = Inr todo" "publication_batches todo = Inr batches"
    "map_res (change_to_operation E (sv_work sv)) (first_batch batches) = Inr (operations m)"
    "man_workspace_id m = workspace_id (sv_config E)" "distinct (map (casefold \<circ> op_path) (operations m))"
    using manifest_facts[OF assms(1)] by metis
  have sub: "set (first_batch batches) \<subseteq> set (publishable E sv)"
    using first_batch_subset[OF f(2)] offered_publishable[OF f(1)] by blast
  have paths: "map op_path (operations m) = map ch_path (first_batch batches)"
    by (rule map_res_fields[OF f(3)]) (rule change_to_operation_Inr(1))
  have proper: "\<forall>s\<in>set (map op_path (operations m)). proper s"
    unfolding paths using sub change_path_proper[OF assms(2) publishable_changes] by auto
  have size: "length (operations m) \<le> MAX_PUBLISH_FILES \<and> sum_list (map op_payload_bytes (operations m)) \<le> MAX_PUBLISH_BYTES"
  proof (cases batches)
    case (Cons b bs)
    have "batch_ok b" using batch_loop_ok[of todo "[]" "[]" 0 batches] f(2) Cons by (simp add: publication_batches_def)
    moreover have "length (operations m) = length b" using arg_cong[OF paths, of length] Cons by (simp add: first_batch_def)
    moreover have "map op_payload_bytes (operations m) = map batch_item_size b"
      using payloads_of_changes[OF f(3) sub assms(2,3)] Cons by (simp add: first_batch_def)
    ultimately show ?thesis by (simp add: batch_ok_def MAX_PUBLISH_FILES_def MAX_PUBLISH_BYTES_def)
  qed (use f(3) in \<open>simp add: first_batch_def MAX_PUBLISH_BYTES_def\<close>)
  have norm: "map_res (normalize_relative (b_nfc B) [] False \<circ> op_path) (operations m) =
      (if list_all (portable (b_nfc B) \<circ> op_path) (operations m) then Inr (map op_path (operations m)) else Inl UnsafePath)"
    by (rule map_res_checked) (use proper normalize_proper_iff in auto)
  have norm': "map_res (normalize_relative (b_nfc B) [] False) (map op_path (operations m)) =
      map_res (normalize_relative (b_nfc B) [] False \<circ> op_path) (operations m)"
    by (rule map_res_map)
  show ?thesis
  proof (cases "list_all (portable (b_nfc B) \<circ> op_path) (operations m)")
    case True
    then have "\<forall>s\<in>set (map op_path (operations m)). portable (b_nfc B) s \<and> b_nfc B s = s"
      using assms(4) by (auto simp: list_all_iff portable_def safe_segment_def nfc_by_parts_def)
    then have "unique_keys (b_nfc B) [] [] (map op_path (operations m)) = Inr ()"
      using proper f(5) by (intro unique_keys_portable) auto
    moreover have "\<not> list_ex (\<lambda>path. matches_publish_glob path (bk_never_publish bk)) (map op_path (operations m))"
      unfolding paths using sub assms(6) by (auto simp: list_ex_iff publishable_def)
    ultimately show ?thesis using True size assms(5) f(4) norm'
      by (simp add: check_manifest_def norm assert_unique_paths_def)
  next
    case False
    then show ?thesis using size assms(5) f(4) by (simp add: check_manifest_def norm)
  qed
qed


text \<open>Claim C4. The broker accepts a manifest of the executor exactly when every path in it is portable: size, number
  of operations, uniqueness of the folded paths and the publication rules are already kept by the executor; a
  staged name with a colon, a backslash, a trailing dot or a device name is offered and makes the
  broker refuse the whole batch.\<close>

theorem broker_accepts_portable_manifests:
  assumes "executor_manifest E r sv = Inr m" and "service_sound sv" and "b64_sized E" and "nfc_by_parts (b_nfc B)"
    and "bk_identity bk = workspace_id (sv_config E)" and "bk_never_publish bk = never_publish (sv_config E)"
  shows "check_manifest B bk m (map op_path (operations m)) =
    (if list_all (portable (b_nfc B) \<circ> op_path) (operations m) then Inr () else Inl UnsafePath)"
  by (rule accepted_manifest[OF assms])

section \<open>A batch that goes through\<close>

lemma advance_one_total: "op_matches cur p \<Longrightarrow> \<exists>t'. advance_one cur p t = Inr t'"
  by (cases t; cases "op_kind p = Delete") (auto simp: advance_one_def op_matches_def Let_def)

lemma advance_all_total: "list_all (op_matches cur) ops \<Longrightarrow> \<exists>t'. fold_res (advance_one cur) ops t = Inr t'"
proof (induction ops arbitrary: t)
  case (Cons p ops)
  then have ok: "op_matches cur p" "list_all (op_matches cur) ops" by simp_all
  obtain t1 where t1: "advance_one cur p t = Inr t1" using advance_one_total[OF ok(1)] by blast
  obtain t2 where "fold_res (advance_one cur) ops t1 = Inr t2" using Cons.IH[OF ok(2)] by blast
  with t1 show ?case by (cases t2) simp
qed (simp del: split_paired_Ex)

text \<open>The operation of a change, on the staged side and on the host.\<close>

lemma operation_matches:
  assumes "change_at s cur (ch_path c) = Some c" and "change_to_operation E work c = Inr op"
  shows "op_matches cur (received (published_of op))"
proof -
  have m: "if ch_operation c = Delete then map_of cur (ch_path c) = None
    else \<exists>h n md. map_of cur (ch_path c) = Some (h, n, md) \<and> ch_staged_sha256 c = Some h \<and> ch_staged_mode c = Some md"
    using staged_parts[OF assms(1)] by simp
  with change_to_operation_Inr[OF assms(2)] show ?thesis
    by (auto simp: op_matches_def received_def published_of_def split: if_splits)
qed

text \<open>Nothing but directories lies above the path, and a plain file or nothing at it.\<close>

definition host_clear :: "node \<Rightarrow> path \<Rightarrow> bool" where
  "host_clear t p \<longleftrightarrow> p \<noteq> [] \<and> passable t (butlast p)
     \<and> (case lookup t p of None \<Rightarrow> True | Some (File c m k) \<Rightarrow> k \<le> 1 | _ \<Rightarrow> False)"

lemma operation_awaited:
  assumes "snapshot_ok s" and "change_at s cur (ch_path c) = Some c" and "change_to_operation E work c = Inr op"
    and "view_agrees (windows B) (host_says E t (op_path op)) (base_view s (op_path op))" and "host_clear t (name_parts (op_path op))"
    and "b_sha B = sha (sv_fs E)"
  shows "awaited B op (name_parts (op_path op)) t"
proof -
  let ?p = "name_parts (op_path op)"
  note f = change_to_operation_Inr[OF assms(3)]
  note b = base_parts[OF assms(2,1)]
  have v: "view_agrees (windows B) (map_option (\<lambda>(x, m). (sha (sv_fs E) x, m)) (host_view t ?p)) (base_view s (ch_path c))"
    using assms(4) f(1) by (simp add: host_says_def)
  show ?thesis
  proof (cases "lookup t ?p")
    case None
    then have "host_view t ?p = None" by (simp add: host_view_def leaves_def)
    with v have "base_view s (ch_path c) = None" by (simp add: view_agrees_def)
    with b f None assms(5) show ?thesis by (simp add: awaited_def host_clear_def)
  next
    case (Some n)
    with assms(5) obtain x m k where n: "n = File x m k" "k \<le> 1" by (auto simp: host_clear_def split: node.splits)
    then have "host_view t ?p = Some (x, m)" using Some by (simp add: host_view_def leaves_def)
    with v obtain k where "base_view s (ch_path c) = Some (sha (sv_fs E) x, k)" "modes_equivalent (windows B) (Some m) (Some k)"
      by (cases "base_view s (ch_path c)") (auto simp: view_agrees_def)
    with b f Some n assms(5,6) show ?thesis by (simp add: awaited_def host_clear_def)
  qed
qed

text \<open>The receipt is taken: the staging area is what the manifest says.\<close>

lemma receipt_is_taken:
  assumes "executor_manifest E r sv = Inr m" and "service_sound sv"
  shows "fst (mark_published E fresh (receipt_from_manifest m) sv) = Inr ()"
proof -
  let ?s = "bl_snapshot (sv_baseline sv)" and ?ops = "map received (rec_operations (receipt_from_manifest m))"
  have id: "man_workspace_id m = workspace_id (sv_config E)" "source_snapshot_id m = snapshot_id ?s"
    by (rule manifest_facts[OF assms(1)], assumption)+
  have "op_matches (sv_files E sv) (received (published_of op))" if o: "op \<in> set (operations m)" for op
  proof -
    obtain c where c: "c \<in> set (publishable E sv)" "change_to_operation E (sv_work sv) c = Inr op"
      by (rule manifest_operation[OF assms(1) o])
    then show ?thesis using operation_matches[OF publishable_at[OF assms(2)]] by blast
  qed
  then have "list_all (op_matches (sv_files E sv)) ?ops" by (auto simp: list_all_iff receipt_from_manifest_def)
  from advance_all_total[OF this, of "(hashes ?s, sizes ?s, modes ?s)"]
  obtain snap where "advance_published_staging fresh (sv_files E sv) ?s ?ops = Inr snap"
    by (auto simp: advance_published_staging_def)
  with id show ?thesis by (simp add: mark_published_def) (simp add: receipt_from_manifest_def)
qed

text \<open>What a batch needs of the outside world, operation by operation: a portable name, a host file that still
  agrees with the baseline, directories above and a plain file or nothing at the path, a file system that
  refuses nothing, and permission bits that the host can take.\<close>

definition undisturbed :: "broker_env \<Rightarrow> service_env \<Rightarrow> world \<Rightarrow> publish_operation \<Rightarrow> bool" where
  "undisturbed B E w op \<longleftrightarrow>
     portable (b_nfc B) (op_path op) \<and> in_step B E w (op_path op) \<and> host_clear (w_host w) (name_parts (op_path op))
     \<and> \<not> copy_refused B (name_parts (op_path op)) \<and> \<not> write_refused B (name_parts (op_path op))
     \<and> (\<forall>k. staged_mode op = Some k \<longrightarrow> modes_equivalent (windows B) (Some (chmod_to B k)) (Some k))"

text \<open>Claim C2. Nothing but the outside world can stop a batch: a manifest of the executor is published to the
  host and acknowledged by the executor whenever the worker has a client and the required checks have
  passed, the workspace and its withheld paths are the same on both sides, no path of the batch lies below
  another, and at each of its paths the name is portable, the host file agrees with the baseline as the
  host compares files, only directories lie above and a plain file or nothing is there, nothing is refused
  and the host takes the staged permission bits as it compares them.\<close>

theorem offered_batch_goes_through:
  assumes "executor_manifest E r (w_service w) = Inr m" and "service_sound (w_service w)" and "b64_sized E"
    and "nfc_by_parts (b_nfc B)" and "b_sha B = sha (sv_fs E)" and "b_decode B = sv_b64decode E"
    and "bk_identity bk = workspace_id (sv_config E)" and "bk_never_publish bk = never_publish (sv_config E)"
    and "\<forall>op\<in>set (operations m). undisturbed B E w op" and "unnested (name_parts ` receipt_paths m)"
    and "is_dir (Some (w_host w))" and "wi_client ids" and "verify_checks required review = Inr ()"
  shows "\<exists>res w'. publish_batch B bk E ids required review paths m w = (Inr res, w') \<and> br_marked res = Inr ()"
proof -
  let ?sv = "w_service w"
  have ok: "check_manifest B bk m (map op_path (operations m)) = Inr ()"
    using accepted_manifest[OF assms(1-4,7,8)] assms(9) by (simp add: list_all_iff undisturbed_def)
  have one: "host_path_of B op = name_parts (op_path op) \<and> awaited B op (host_path_of B op) (w_host w) \<and> doable B op (host_path_of B op)"
    if o: "op \<in> set (operations m)" for op
  proof -
    obtain c where c: "c \<in> set (publishable E ?sv)" "change_to_operation E (sv_work ?sv) c = Inr op"
      by (rule manifest_operation[OF assms(1) o])
    have pr: "proper (op_path op)"
      using change_path_proper[OF assms(2) publishable_changes[OF c(1)]] change_to_operation_Inr(1)[OF c(2)] by simp
    have u: "undisturbed B E w op" using assms(9) o by blast
    have n: "normalize_relative (b_nfc B) [] False (op_path op) = Inr (op_path op)"
      using u pr by (intro normalize_portable) (simp_all add: undisturbed_def)
    have tg: "host_path_of B op = name_parts (op_path op)" using n normalize_proper[OF n pr] by (simp add: host_path_of_def)
    have "awaited B op (name_parts (op_path op)) (w_host w)"
      by (rule operation_awaited[OF _ publishable_at[OF assms(2) c(1)] c(2)])
        (use u assms(2,5) in \<open>simp_all add: undisturbed_def in_step_def service_sound_def\<close>)
    moreover have "doable B op (name_parts (op_path op))"
      using u assms(5,6) change_to_operation_Inr(5)[OF c(2)] by (simp add: doable_def undisturbed_def)
    ultimately show ?thesis using tg by simp
  qed
  have targets: "host_path_of B ` set (operations m) = name_parts ` receipt_paths m"
    unfolding receipt_paths_def image_image using one by (intro image_cong) auto
  obtain ns st where p: "publish B bk m (map op_path (operations m)) (w_host w) = Inr (Published ns, st)"
    using awaited_batch[OF ok assms(11) _ assms(10)[folded targets]] one by blast
  obtain sv' where "mark_published E (wi_snapshot ids) (receipt_from_manifest m) ?sv = (Inr (), sv')"
    using receipt_is_taken[OF assms(1,2), of "wi_snapshot ids"] by (metis prod.collapse)
  with p assms(12,13) show ?thesis by (simp add: publish_batch_def)
qed

section \<open>Witness\<close>

text \<open>Base64 text of the right shape, a staged file with a colon in its name and the path rules of the model.\<close>

definition shape_encode :: "string \<Rightarrow> string" where
  "shape_encode b = (let pad = (3 - length b mod 3) mod 3
     in replicate (4 * ((length b + 2) div 3) - pad) (CHR ''A'') @ replicate pad (CHR ''=''))"

definition sized_env :: service_env where
  "sized_env = demo_env\<lparr>sv_b64encode := shape_encode\<rparr>"

definition colon_service :: service where
  "colon_service = (projr demo_start)\<lparr>sv_work := Dir [(''a'', File ''x'' 0x1A4 1), (''b:c'', File ''z'' 0x1A4 1)]\<rparr>"

definition colon_manifest :: publish_manifest where
  "colon_manifest = projr (executor_manifest sized_env demo_request colon_service)"

lemma shape_encode_sized: "b64_sized (sized_env)"
proof -
  have "int (length (shape_encode b)) * 3 div 4
      - int (length (filter (\<lambda>c. c = CHR ''='') (drop (length (shape_encode b) - 2) (shape_encode b)))) = int (length b)" for b
  proof -
    obtain k r where n: "length b = 3 * k + r" "r < 3" by (rule that[of "length b div 3" "length b mod 3"]) simp_all
    then have m: "length b mod 3 = r" "(length b + 2) div 3 = (if r = 0 then k else k + 1)" by presburger+
    from n(2) consider "r = 0" | "r = 1" | "r = 2" by linarith
    then show ?thesis
      by cases (simp_all only: shape_encode_def m Let_def, simp_all add: n drop_replicate)
  qed
  then show ?thesis by (simp add: b64_sized_def Let_def sized_env_def)
qed

theorem broker_accepts_portable_manifests_witness:
  "check_manifest demo_broker_env demo_broker colon_manifest (map op_path (operations colon_manifest)) = Inl UnsafePath"
proof -
  have "isOK (executor_manifest sized_env demo_request colon_service)" by code_simp
  from isOK_projr[OF this] have m: "executor_manifest sized_env demo_request colon_service = Inr colon_manifest"
    by (simp add: colon_manifest_def)
  have s: "service_sound colon_service" using demo_sound
    by (simp add: service_sound_def demo_world_def colon_service_def good_tree_def valid_name_def)
  have c: "bk_identity demo_broker = workspace_id (sv_config sized_env)" "bk_never_publish demo_broker = never_publish (sv_config sized_env)"
    by (simp_all add: demo_broker_def sized_env_def)
  have f: "nfc_by_parts (b_nfc demo_broker_env)" by (simp add: nfc_by_parts_def demo_broker_env_def sample_broker_env_def)
  have "\<not> list_all (portable (b_nfc demo_broker_env) \<circ> op_path) (operations colon_manifest)" by code_simp
  with broker_accepts_portable_manifests[OF m s shape_encode_sized f c] show ?thesis by simp
qed

definition plain_manifest :: publish_manifest where
  "plain_manifest = projr (executor_manifest sized_env demo_request (w_service demo_world))"

theorem offered_batch_goes_through_witness:
  "\<exists>res w'. publish_batch demo_broker_env demo_broker sized_env demo_ids [] None PNone plain_manifest demo_world = (Inr res, w')
     \<and> br_marked res = Inr ()"
proof -
  have "isOK (executor_manifest sized_env demo_request (w_service demo_world))" by code_simp
  from isOK_projr[OF this] have m: "executor_manifest sized_env demo_request (w_service demo_world) = Inr plain_manifest"
    by (simp add: plain_manifest_def)
  have paths: "map op_path (operations plain_manifest) = [''a'', ''b'']" by code_simp
  then have rp: "receipt_paths plain_manifest = {''a'', ''b''}" by (simp add: receipt_paths_def flip: set_map)
  have at: "name_parts ''a'' = [''a'']" "name_parts ''b'' = [''b'']" by code_simp+
  have ok: "portable (b_nfc demo_broker_env) s \<and> in_step demo_broker_env sized_env demo_world s \<and> host_clear (w_host demo_world) (name_parts s)"
    if "s \<in> {''a'', ''b''}" for s
  proof -
    have "list_all (\<lambda>s. portable (b_nfc demo_broker_env) s \<and> in_step demo_broker_env sized_env demo_world s) [''a'', ''b'']" by code_simp
    moreover have "passable demo_source []" by (simp add: passable_def demo_source_def)
    then have "host_clear (w_host demo_world) [''a'']" "host_clear (w_host demo_world) [''b'']"
      by (simp_all add: host_clear_def demo_world_def) (simp_all add: demo_source_def)
    ultimately show ?thesis using that at by auto
  qed
  have "undisturbed demo_broker_env sized_env demo_world op" if "op \<in> set (operations plain_manifest)" for op
  proof -
    have "op_path op \<in> {''a'', ''b''}" using rp that by (auto simp: receipt_paths_def)
    from ok[OF this] show ?thesis
      by (simp add: undisturbed_def) (simp add: demo_broker_env_def sample_broker_env_def modes_equivalent_def windows_bits_def)
  qed
  then have u: "\<forall>op\<in>set (operations plain_manifest). undisturbed demo_broker_env sized_env demo_world op" by blast
  have e: "nfc_by_parts (b_nfc demo_broker_env)" "b_sha demo_broker_env = sha (sv_fs sized_env)"
    "b_decode demo_broker_env = sv_b64decode sized_env" "bk_identity demo_broker = workspace_id (sv_config sized_env)"
    "bk_never_publish demo_broker = never_publish (sv_config sized_env)"
    by (simp_all add: nfc_by_parts_def demo_broker_env_def sample_broker_env_def demo_broker_def sized_env_def demo_env_def)
  have n: "unnested (name_parts ` receipt_paths plain_manifest)" by (simp add: rp at unnested_def)
  show ?thesis
    by (rule offered_batch_goes_through[OF m demo_sound shape_encode_sized e u n])
      (simp_all add: demo_world_def demo_source_def verify_checks_def demo_ids_def)
qed

end
