(* ===== verification/Window.thy ===== *)
theory Window
  imports Prelude Complex_Main
begin

text \<open>
  Sliding windows of a rate limiter: a list of the recent admission times, of which the old ones are
  dropped before a new one is admitted.  Both limiters of the program, the gateway's and the egress
  proxy's, are interpretations of the locale; they differ in when a time is old.
\<close>

text \<open>Requests at the given times, one after the other: the window and the times admitted so far.\<close>

fun serve :: "(real \<Rightarrow> real list \<Rightarrow> bool \<times> real list) \<Rightarrow> real list \<Rightarrow> real list \<Rightarrow> real list \<Rightarrow> real list \<times> real list" where
  "serve admit [] w taken = (w, taken)"
| "serve admit (t # ts) w taken =
     (case admit t w of (ok, w') \<Rightarrow> serve admit ts w' (if ok then taken @ [t] else taken))"

lemma dropWhile_sorted_filter:
  assumes "sorted xs" and "\<And>s t. P t \<Longrightarrow> s \<le> t \<Longrightarrow> P s"
  shows "dropWhile P xs = filter (\<lambda>x. \<not> P x) xs"
  using assms(1)
proof (induction xs)
  case (Cons x xs)
  then show ?case using assms(2) by (auto simp: filter_id_conv intro!: sym[OF filter_True])
qed simp

locale sliding_window =
  fixes old :: "real \<Rightarrow> real \<Rightarrow> bool"
    and limit :: nat
    and admit :: "real \<Rightarrow> real list \<Rightarrow> bool \<times> real list"
  assumes old_earlier: "old now t \<Longrightarrow> s \<le> t \<Longrightarrow> old now s"
    and old_later: "old now t \<Longrightarrow> now \<le> now' \<Longrightarrow> old now' t"
    and not_old: "\<not> old now now"
    and admits: "admit now w = (if length (dropWhile (old now) w) < limit then (True, dropWhile (old now) w @ [now])
      else (False, dropWhile (old now) w))"
begin

text \<open>How many of the admitted times count at a given time.\<close>

definition load :: "real \<Rightarrow> real list \<Rightarrow> nat" where
  "load now taken = length (filter (\<lambda>t. \<not> old now t \<and> t \<le> now) taken)"

definition kept :: "real \<Rightarrow> real list \<Rightarrow> real list \<Rightarrow> bool" where
  "kept now w taken \<longleftrightarrow> sorted taken \<and> (\<forall>t\<in>set taken. t \<le> now) \<and> w = dropWhile (old now) taken \<and> (\<forall>u. load u taken \<le> limit)"

lemma kept_empty: "kept now [] []"
  by (simp add: kept_def load_def)

lemma kept_bound: "kept now w taken \<Longrightarrow> length (filter (\<lambda>t. \<not> old u t \<and> t \<le> u) taken) \<le> limit"
  by (simp add: kept_def load_def)

lemma window_filter:
  assumes "kept now w taken" and "now \<le> u"
  shows "dropWhile (old u) w = filter (\<lambda>t. \<not> old u t) taken"
proof -
  have w: "w = filter (\<lambda>t. \<not> old now t) taken"
    using assms(1) dropWhile_sorted_filter[of taken "old now"] old_earlier by (simp add: kept_def)
  have "sorted w" using assms(1) sorted_filter[of "\<lambda>x. x" taken] by (simp add: w kept_def)
  then have "dropWhile (old u) w = filter (\<lambda>t. \<not> old u t) w"
    using dropWhile_sorted_filter[of w "old u"] old_earlier by blast
  also have "\<dots> = filter (\<lambda>t. \<not> old u t) taken" unfolding w filter_filter using old_later[OF _ assms(2)] by (metis)
  finally show ?thesis .
qed

lemma load_window:
  assumes "kept now w taken" and "now \<le> u"
  shows "load u taken = length (dropWhile (old u) w)"
proof -
  have "filter (\<lambda>t. \<not> old u t \<and> t \<le> u) taken = filter (\<lambda>t. \<not> old u t) taken"
    using assms by (intro filter_cong) (auto simp: kept_def)
  with window_filter[OF assms] show ?thesis by (simp add: load_def)
qed

lemma load_snoc: "load u (taken @ [t]) = load u taken + (if \<not> old u t \<and> t \<le> u then 1 else 0)"
  by (simp add: load_def)

lemma load_later:
  assumes "\<forall>t\<in>set taken. t \<le> now" and "now \<le> u"
  shows "load u taken \<le> load now taken"
proof -
  have "filter (\<lambda>t. \<not> old u t \<and> t \<le> u) taken = filter (\<lambda>t. \<not> old u t) (filter (\<lambda>t. \<not> old now t \<and> t \<le> now) taken)"
    unfolding filter_filter by (rule filter_cong) (use assms old_later in fastforce)+
  then show ?thesis by (simp only: load_def length_filter_le)
qed

lemma admit_keeps:
  assumes "kept now w taken" and "now \<le> u" and "admit u w = (ok, w')"
  shows "kept u w' (if ok then taken @ [u] else taken) \<and> (ok \<longleftrightarrow> load u taken < limit)"
proof -
  have k: "sorted taken" "\<forall>t\<in>set taken. t \<le> u" "\<forall>v. load v taken \<le> limit"
    using assms(1,2) by (auto simp: kept_def)
  have w: "dropWhile (old u) w = dropWhile (old u) taken"
    using window_filter[OF assms(1,2)] dropWhile_sorted_filter[OF k(1), of "old u"] old_earlier by simp
  have l: "load u taken = length (dropWhile (old u) taken)" using load_window[OF assms(1,2)] w by simp
  show ?thesis
  proof (cases ok)
    case True
    with assms(3) admits[of u w] have o: "w' = dropWhile (old u) taken @ [u]" "load u taken < limit"
      by (auto simp: w l split: if_splits)
    have "dropWhile (old u) (taken @ [u]) = dropWhile (old u) taken @ [u]"
      using dropWhile_sorted_filter[of "taken @ [u]" "old u"] dropWhile_sorted_filter[OF k(1), of "old u"] old_earlier k(1,2) not_old
      by (simp add: sorted_append)
    moreover have "load v (taken @ [u]) \<le> limit" for v
      using k(3) load_later[OF k(2), of v] o(2) by (auto simp: load_snoc not_le order_less_imp_le)
    ultimately show ?thesis using True o k by (simp add: kept_def sorted_append)
  next
    case False
    with assms(3) admits[of u w] have "w' = dropWhile (old u) taken" "\<not> load u taken < limit"
      by (auto simp: w l split: if_splits)
    with False k show ?thesis by (simp add: kept_def)
  qed
qed

lemma serve_keeps:
  assumes "serve admit ts w taken = (w', taken')" and "kept now w taken" and "sorted ts" and "\<forall>t\<in>set ts. now \<le> t"
  shows "\<exists>now'. kept now' w' taken' \<and> now' \<in> insert now (set ts)"
  using assms
proof (induction ts arbitrary: w taken now)
  case (Cons t ts)
  obtain ok w1 where a: "admit t w = (ok, w1)" by (rule prod.exhaust)
  have k: "kept t w1 (if ok then taken @ [t] else taken)"
    by (rule admit_keeps[OF Cons.prems(2) _ a, THEN conjunct1]) (use Cons.prems(4) in simp)
  have "serve admit ts w1 (if ok then taken @ [t] else taken) = (w', taken')" using Cons.prems(1) a by simp
  from Cons.IH[OF this k] Cons.prems(3) show ?case by auto
qed auto

lemma serve_kept:
  assumes "sorted ts" and "serve admit ts [] [] = (w, taken)" and "\<forall>t\<in>set ts. t \<le> u"
  shows "\<exists>now\<le>u. kept now w taken"
proof -
  define t0 where "t0 = (case ts of [] \<Rightarrow> u | t # _ \<Rightarrow> t)"
  have "\<forall>t\<in>set ts. t0 \<le> t" "t0 \<le> u" using assms by (cases ts; auto simp: t0_def)+
  then show ?thesis using serve_keeps[OF assms(2) kept_empty assms(1)] assms(3) by blast
qed

text \<open>The limit holds in every window, whenever the clock is read.\<close>

theorem window_bound:
  assumes "sorted ts"
  shows "length (filter (\<lambda>t. \<not> old now t \<and> t \<le> now) (snd (serve admit ts [] []))) \<le> limit"
proof -
  obtain w taken where s: "serve admit ts [] [] = (w, taken)" by (rule prod.exhaust)
  have "\<forall>t\<in>set ts. t \<le> Max (set ts \<union> {0})" by simp
  from serve_kept[OF assms s this] show ?thesis using kept_bound by (auto simp: s)
qed

text \<open>A request is refused only when the window is full.\<close>

theorem window_exact:
  assumes "sorted (ts @ [t])" and "serve admit ts [] [] = (w, taken)"
  shows "fst (admit t w) \<longleftrightarrow> length (filter (\<lambda>s. \<not> old t s \<and> s \<le> t) taken) < limit"
proof -
  have "sorted ts" "\<forall>s\<in>set ts. s \<le> t" using assms(1) by (simp_all add: sorted_append)
  from serve_kept[OF this(1) assms(2) this(2)] obtain now where k: "now \<le> t" "kept now w taken" by blast
  obtain ok w' where a: "admit t w = (ok, w')" by (rule prod.exhaust)
  from admit_keeps[OF k(2,1) a] a show ?thesis by (simp add: load_def)
qed

end

end
