(* ===== verification/Gateway_Guard.thy ===== *)
theory Gateway_Guard
  imports Window State_Store "HOL-Library.Sublist"
begin

text \<open>
  The security middleware of the gateway (\<open>server/auth.py\<close>) and the configuration it reads
  (\<open>GatewayConfig\<close> in \<open>server/config.py\<close>): which requests reach the application, in what order the checks
  come, and how fast requests may come.  Header bytes are decoded as Latin-1, so a character of a
  text here is one code point below 256; configured texts are UTF-8 bytes as everywhere else.  Times are
  reals.
\<close>

section \<open>Latin-1 text\<close>

definition latin1_space :: "char \<Rightarrow> bool" where
  "latin1_space c \<longleftrightarrow> is_space c \<or> ord c = 0x85 \<or> ord c = 0xA0"

definition latin1_strip :: "string \<Rightarrow> string" where
  "latin1_strip s = rev (dropWhile latin1_space (rev (dropWhile latin1_space s)))"

definition latin1_lower :: "char \<Rightarrow> char" where
  "latin1_lower c = (if 0xC0 \<le> ord c \<and> ord c \<le> 0xDE \<and> ord c \<noteq> 0xD7 then char_of (ord c + 32) else ascii_lower c)"

definition latin1_utf8 :: "string \<Rightarrow> string" where
  "latin1_utf8 s = concat (map (\<lambda>c. if ord c < 128 then [c] else [char_of (192 + ord c div 64), char_of (128 + ord c mod 64)]) s)"

lemma latin1_utf8_ascii: "\<forall>c\<in>set s. ord c < 128 \<Longrightarrow> latin1_utf8 s = s"
  by (induction s) (auto simp: latin1_utf8_def)

section \<open>Configuration\<close>

record gateway_config =
  session_token :: string
  allowed_hosts :: "string list"
  max_body_bytes :: int
  max_events_per_run :: int
  max_journal_runs :: int
  requests_per_minute :: int
  chat_requests_per_minute :: int

definition new_gateway_config :: "gateway_config \<Rightarrow> exn + gateway_config" where
  "new_gateway_config g =
     (if length (session_token g) < 32 then Inl ValueErr
      else if max_body_bytes g < 1 \<or> max_events_per_run g < 100 \<or> max_journal_runs g < 10
              \<or> requests_per_minute g < 10 \<or> chat_requests_per_minute g < 1
      then Inl ValueErr
      else Inr g)"

section \<open>A request\<close>

record http_request =
  rq_path :: string
  rq_method :: string
  rq_headers :: "(string \<times> string) list"

text \<open>The dictionary of the headers: names in lower case, the last of several values.\<close>

definition header :: "http_request \<Rightarrow> string \<Rightarrow> string option" where
  "header q name = map_of (rev (map (\<lambda>(k, v). (map latin1_lower k, v)) (rq_headers q))) name"

definition header_or :: "http_request \<Rightarrow> string \<Rightarrow> string \<Rightarrow> string" where
  "header_or q name fallback = (case header q name of None \<Rightarrow> fallback | Some v \<Rightarrow> v)"

definition host_name :: "string \<Rightarrow> string" where
  "host_name raw =
     (let value = map latin1_lower (latin1_strip raw)
      in if startswith value ''[''
         then (if CHR '']'' \<in> set value then takeWhile (\<lambda>c. c \<noteq> CHR '']'') value @ '']'' else value)
         else takeWhile (\<lambda>c. c \<noteq> CHR '':'') value)"

text \<open>\<open>int\<close> of a header, with Python's limit on the number of digits.\<close>

definition header_int :: "string \<Rightarrow> int option" where
  "header_int s = (if length (filter is_digit s) > MAX_INT_DIGITS then None else int_of_text (latin1_strip s))"

datatype verdict = Refused (status: nat) (code: string) | Passed

section \<open>The limiter\<close>

definition gateway_admit :: "int \<Rightarrow> real \<Rightarrow> real list \<Rightarrow> bool \<times> real list" where
  "gateway_admit limit now window =
     (let w = dropWhile (\<lambda>t. t < now - 60) window
      in if limit \<le> int (length w) then (False, w) else (True, w @ [now]))"

definition CHAT_PATH :: string where "CHAT_PATH = ''/v1/chat/stream''"

definition within_rate_limit ::
  "gateway_config \<Rightarrow> string \<Rightarrow> real \<Rightarrow> real list \<times> real list \<Rightarrow> bool \<times> (real list \<times> real list)" where
  "within_rate_limit g path now windows =
     (case windows of (requests, chats) \<Rightarrow>
        (case gateway_admit (requests_per_minute g) now requests of
           (False, requests') \<Rightarrow> (False, (requests', chats))
         | (True, requests') \<Rightarrow>
             if path \<noteq> CHAT_PATH then (True, (requests', chats))
             else (case gateway_admit (chat_requests_per_minute g) now chats of
                     (ok, chats') \<Rightarrow> (ok, (requests', chats')))))"

section \<open>The middleware\<close>

text \<open>The checks after the limiter.\<close>

definition check_request :: "gateway_config \<Rightarrow> http_request \<Rightarrow> verdict" where
  "check_request g q =
     (if rq_path q \<noteq> ''/health''
         \<and> latin1_utf8 (header_or q ''authorization'' []) \<noteq> ''Bearer '' @ session_token g
      then Refused 401 ''auth.invalid_token''
      else if upper (rq_method q) \<in> {''POST'', ''PUT'', ''PATCH''}
         \<and> map latin1_lower (latin1_strip (takeWhile (\<lambda>c. c \<noteq> CHR '';'') (header_or q ''content-type'' []))) \<noteq> ''application/json''
      then Refused 415 ''request.invalid_content_type''
      else case header_int (header_or q ''content-length'' ''0'') of
          None \<Rightarrow> Refused 400 ''request.invalid_length''
        | Some n \<Rightarrow> if n > max_body_bytes g then Refused 413 ''request.too_large'' else Passed)"

definition gateway_call ::
  "gateway_config \<Rightarrow> http_request \<Rightarrow> real \<Rightarrow> real list \<times> real list \<Rightarrow> verdict \<times> (real list \<times> real list)" where
  "gateway_call g q now windows =
     (if host_name (header_or q ''host'' []) \<notin> set (allowed_hosts g) then (Refused 400 ''security.invalid_host'', windows)
      else if header q ''origin'' \<noteq> None then (Refused 403 ''security.browser_origin'', windows)
      else (case within_rate_limit g (rq_path q) now windows of
          (False, windows') \<Rightarrow> (Refused 429 ''request.rate_limited'', windows')
        | (True, windows') \<Rightarrow> (check_request g q, windows')))"

text \<open>A scope that is no HTTP request, the start and the end of the server, goes to the application unchecked.\<close>

datatype scope = HttpScope http_request | OtherScope string

definition middleware ::
  "gateway_config \<Rightarrow> scope \<Rightarrow> real \<Rightarrow> real list \<times> real list \<Rightarrow> verdict \<times> (real list \<times> real list)" where
  "middleware g s now windows =
     (case s of OtherScope kind \<Rightarrow> (Passed, windows) | HttpScope q \<Rightarrow> gateway_call g q now windows)"

text \<open>\<open>bounded_receive\<close> over the messages of the body: what the application is given, and whether it ended
  in \<open>RequestBodyTooLarge\<close>.\<close>

fun bounded_receive :: "int \<Rightarrow> int \<Rightarrow> string list \<Rightarrow> string list \<times> bool" where
  "bounded_receive limit consumed [] = ([], False)"
| "bounded_receive limit consumed (chunk # chunks) =
     (let used = consumed + int (length chunk)
      in if used > limit then ([], True)
         else (case bounded_receive limit used chunks of (given, over) \<Rightarrow> (chunk # given, over)))"

text \<open>Requests one after the other, with their verdicts.\<close>

fun gateway_run ::
  "gateway_config \<Rightarrow> (real \<times> http_request) list \<Rightarrow> real list \<times> real list \<Rightarrow> (real \<times> http_request \<times> verdict) list" where
  "gateway_run g [] windows = []"
| "gateway_run g ((now, q) # rest) windows =
     (case gateway_call g q now windows of (v, windows') \<Rightarrow> (now, q, v) # gateway_run g rest windows')"

section \<open>What passes\<close>

lemma bounded_receive_sound:
  assumes "bounded_receive limit consumed chunks = (given, over)" and "consumed \<le> limit"
  shows "consumed + int (length (concat given)) \<le> limit \<and> (\<not> over \<longrightarrow> given = chunks)
    \<and> (over \<longrightarrow> limit < consumed + int (length (concat chunks)))"
  using assms
proof (induction chunks arbitrary: consumed given)
  case (Cons chunk chunks)
  let ?used = "consumed + int (length chunk)"
  show ?case
  proof (cases "?used > limit")
    case False
    obtain rest where r: "bounded_receive limit ?used chunks = (rest, over)" "given = chunk # rest"
      using Cons.prems(1) False by (auto simp: Let_def split: prod.splits)
    from Cons.IH[OF r(1)] False r(2) show ?thesis by (auto simp: algebra_simps)
  qed (use Cons.prems in \<open>auto simp: Let_def\<close>)
qed simp


text \<open>Claim C17. An HTTP request that reaches the application names an allowed host, comes from no browser, carries exactly
  the bearer token of the session unless it asks for the health of the gateway, is declared as JSON when its
  method is one with a body, announces no more than the body limit, and is never given more than that,
  whatever it announced; and it was within the rate limits.\<close>

theorem passed_request_is_authorised:
  assumes "gateway_call g q now windows = (Passed, windows')" and "new_gateway_config g = Inr g"
  shows "host_name (header_or q ''host'' []) \<in> set (allowed_hosts g)
    \<and> (\<forall>k v. (k, v) \<in> set (rq_headers q) \<longrightarrow> map latin1_lower k \<noteq> ''origin'')
    \<and> (rq_path q = ''/health'' \<or> (\<exists>v. header q ''authorization'' = Some v \<and> latin1_utf8 v = ''Bearer '' @ session_token g))
    \<and> (upper (rq_method q) \<in> {''POST'', ''PUT'', ''PATCH''} \<longrightarrow> (\<exists>v. header q ''content-type'' = Some v
          \<and> map latin1_lower (latin1_strip (takeWhile (\<lambda>c. c \<noteq> CHR '';'') v)) = ''application/json''))
    \<and> (\<exists>n. header_int (header_or q ''content-length'' ''0'') = Some n \<and> n \<le> max_body_bytes g)
    \<and> (\<forall>chunks. int (length (concat (fst (bounded_receive (max_body_bytes g) 0 chunks)))) \<le> max_body_bytes g)
    \<and> fst (within_rate_limit g (rq_path q) now windows)"
proof -
  have c: "host_name (header_or q ''host'' []) \<in> set (allowed_hosts g)" "header q ''origin'' = None"
    "fst (within_rate_limit g (rq_path q) now windows)" "check_request g q = Passed"
    using assms(1) by (auto simp: gateway_call_def split: if_splits prod.splits bool.splits)
  have "map latin1_lower k \<noteq> ''origin''" if "(k, v) \<in> set (rq_headers q)" for k v
    using c(2) that by (force simp: header_def map_of_eq_None_iff)
  moreover have "rq_path q = ''/health'' \<or> (\<exists>v. header q ''authorization'' = Some v \<and> latin1_utf8 v = ''Bearer '' @ session_token g)"
    using c(4) by (auto simp: check_request_def header_or_def latin1_utf8_def split: if_splits option.splits)
  moreover have "int (length (concat (fst (bounded_receive (max_body_bytes g) 0 chunks)))) \<le> max_body_bytes g" for chunks
    using bounded_receive_sound[of "max_body_bytes g" 0 chunks] assms(2)
    by (cases "bounded_receive (max_body_bytes g) 0 chunks") (auto simp: new_gateway_config_def split: if_splits)
  moreover have "\<exists>v. header q ''content-type'' = Some v
      \<and> map latin1_lower (latin1_strip (takeWhile (\<lambda>c. c \<noteq> CHR '';'') v)) = ''application/json''"
    if "upper (rq_method q) \<in> {''POST'', ''PUT'', ''PATCH''}"
    using c(4) that by (auto simp: check_request_def header_or_def latin1_strip_def split: if_splits option.splits)
  moreover have "\<exists>n. header_int (header_or q ''content-length'' ''0'') = Some n \<and> n \<le> max_body_bytes g"
    using c(4) by (auto simp: check_request_def split: if_splits option.splits)
  ultimately show ?thesis using c(1,3) by blast
qed

section \<open>How many pass\<close>

interpretation gate: sliding_window "\<lambda>now t. t < now - 60" "nat limit" "gateway_admit limit" for limit
  by unfold_locales (auto simp: gateway_admit_def Let_def)

definition passed_at :: "(http_request \<Rightarrow> bool) \<Rightarrow> (real \<times> http_request \<times> verdict) list \<Rightarrow> real list" where
  "passed_at P served = map fst (filter (\<lambda>(t, q, v). v = Passed \<and> P q) served)"

lemma passed_at_Cons: "passed_at P ((t, q, v) # served) = (if v = Passed \<and> P q then [t] else []) @ passed_at P served"
  by (simp add: passed_at_def)

lemma subseq_new: "(b \<longrightarrow> xs = [x]) \<Longrightarrow> subseq a ys \<Longrightarrow> subseq ((if b then [x] else []) @ a) (xs @ ys)"
  by (cases b) (simp_all add: list_emb_append2)

lemma gate_admit_keeps:
  assumes "gate.kept limit u w taken" and "u \<le> now"
  shows "gate.kept limit now (snd (gateway_admit limit now w)) (if fst (gateway_admit limit now w) then taken @ [now] else taken)"
  by (rule gate.admit_keeps[OF assms, THEN conjunct1]) simp

text \<open>What one request does to the two windows.\<close>

lemma gateway_call_keeps:
  assumes "gateway_call g q now (rs, cs) = (v, (rs', cs'))"
    and "gate.kept (requests_per_minute g) u rs ra" and "u \<le> now"
    and "gate.kept (chat_requests_per_minute g) u' cs ca" and "u' \<le> now"
  shows "\<exists>z z' rn cn. z \<le> now \<and> gate.kept (requests_per_minute g) z rs' (ra @ rn) \<and> (v = Passed \<longrightarrow> rn = [now])
    \<and> z' \<le> now \<and> gate.kept (chat_requests_per_minute g) z' cs' (ca @ cn) \<and> (v = Passed \<and> rq_path q = CHAT_PATH \<longrightarrow> cn = [now])"
proof (cases "host_name (header_or q ''host'' []) \<notin> set (allowed_hosts g) \<or> header q ''origin'' \<noteq> None")
  case True
  with assms have "v \<noteq> Passed" "rs' = rs" "cs' = cs" by (auto simp: gateway_call_def split: if_splits)
  with assms show ?thesis by (intro exI[of _ u] exI[of _ u'] exI[of _ "[]"]) simp
next
  case False
  then have w: "gateway_call g q now (rs, cs) = (case within_rate_limit g (rq_path q) now (rs, cs) of
      (False, windows') \<Rightarrow> (Refused 429 ''request.rate_limited'', windows') | (True, windows') \<Rightarrow> (check_request g q, windows'))"
    by (simp add: gateway_call_def)
  obtain ok r1 where r: "gateway_admit (requests_per_minute g) now rs = (ok, r1)" by (rule prod.exhaust)
  obtain ok' c1 where c: "gateway_admit (chat_requests_per_minute g) now cs = (ok', c1)" by (rule prod.exhaust)
  have kr: "gate.kept (requests_per_minute g) now r1 (if ok then ra @ [now] else ra)"
    using gate_admit_keeps[OF assms(2,3)] r by simp
  have kc: "gate.kept (chat_requests_per_minute g) now c1 (if ok' then ca @ [now] else ca)"
    using gate_admit_keeps[OF assms(4,5)] c by simp
  show ?thesis
  proof (cases "ok \<and> rq_path q = CHAT_PATH")
    case True
    with assms(1) w r c have "rs' = r1" "cs' = c1" "v = Passed \<longrightarrow> ok'" by (auto simp: within_rate_limit_def split: bool.splits)
    with kr kc True show ?thesis
      by (intro exI[of _ now] exI[of _ "[now]"] exI[of _ "if ok' then [now] else []"]) (auto split: if_splits)
  next
    case False
    with assms(1) w r c have "rs' = r1" "cs' = cs" "v = Passed \<longrightarrow> ok" by (auto simp: within_rate_limit_def split: bool.splits if_splits)
    with kr assms(4,5) False show ?thesis
      by (intro exI[of _ now] exI[of _ u'] exI[of _ "if ok then [now] else []"] exI[of _ "[]"]) (auto split: if_splits)
  qed
qed

lemma gateway_run_keeps:
  assumes "gate.kept (requests_per_minute g) u rs ra" and "gate.kept (chat_requests_per_minute g) u' cs ca"
    and "sorted (map fst reqs)" and "\<forall>x\<in>set reqs. u \<le> fst x \<and> u' \<le> fst x"
  shows "\<exists>z z' rs' cs' rn cn. gate.kept (requests_per_minute g) z rs' (ra @ rn) \<and> gate.kept (chat_requests_per_minute g) z' cs' (ca @ cn)
    \<and> subseq (passed_at (\<lambda>_. True) (gateway_run g reqs (rs, cs))) rn
    \<and> subseq (passed_at (\<lambda>q. rq_path q = CHAT_PATH) (gateway_run g reqs (rs, cs))) cn"
  using assms
proof (induction reqs arbitrary: u u' rs cs ra ca)
  case Nil
  then show ?case by (intro exI[of _ "[]"] exI[of _ u] exI[of _ u'] exI[of _ rs] exI[of _ cs]) (auto simp: passed_at_def)
next
  case (Cons x reqs)
  obtain now q where x: "x = (now, q)" by (rule prod.exhaust)
  obtain v rs1 cs1 where c: "gateway_call g q now (rs, cs) = (v, (rs1, cs1))" by (rule prod_cases3)
  obtain z z' rn cn where one: "z \<le> now" "gate.kept (requests_per_minute g) z rs1 (ra @ rn)" "v = Passed \<longrightarrow> rn = [now]"
    "z' \<le> now" "gate.kept (chat_requests_per_minute g) z' cs1 (ca @ cn)" "v = Passed \<and> rq_path q = CHAT_PATH \<longrightarrow> cn = [now]"
    using gateway_call_keeps[OF c Cons.prems(1) _ Cons.prems(2)] Cons.prems(4) x by auto
  have "sorted (map fst reqs)" "\<forall>y\<in>set reqs. z \<le> fst y \<and> z' \<le> fst y"
    using Cons.prems(3) one(1,4) x by (auto intro: order_trans)
  from Cons.IH[OF one(2,5) this] obtain y y' rs' cs' rm cm where
    "gate.kept (requests_per_minute g) y rs' ((ra @ rn) @ rm)" "gate.kept (chat_requests_per_minute g) y' cs' ((ca @ cn) @ cm)"
    "subseq (passed_at (\<lambda>_. True) (gateway_run g reqs (rs1, cs1))) rm"
    "subseq (passed_at (\<lambda>q. rq_path q = CHAT_PATH) (gateway_run g reqs (rs1, cs1))) cm" by blast
  moreover have run: "gateway_run g (x # reqs) (rs, cs) = (now, q, v) # gateway_run g reqs (rs1, cs1)" by (simp add: x c)
  ultimately show ?case unfolding run passed_at_Cons append_assoc
    using subseq_new[of "v = Passed \<and> True" rn now] subseq_new[of "v = Passed \<and> rq_path q = CHAT_PATH" cn now] one(3,6)
    by blast
qed

text \<open>Claim C18. However requests arrive, at most \<open>requests_per_minute\<close> of them pass in any minute, and at most
  \<open>chat_requests_per_minute\<close> of those that start a chat; a minute includes both of its ends.\<close>

theorem requests_are_rate_limited:
  assumes "sorted (map fst reqs)" and "new_gateway_config g = Inr g"
  shows "int (length (filter (\<lambda>t. now - 60 \<le> t \<and> t \<le> now) (passed_at (\<lambda>_. True) (gateway_run g reqs ([], []))))) \<le> requests_per_minute g
    \<and> int (length (filter (\<lambda>t. now - 60 \<le> t \<and> t \<le> now) (passed_at (\<lambda>q. rq_path q = CHAT_PATH) (gateway_run g reqs ([], [])))))
      \<le> chat_requests_per_minute g"
proof -
  let ?now = "\<lambda>t. now - 60 \<le> t \<and> t \<le> now"
  define u where "u = (case reqs of [] \<Rightarrow> now | x # _ \<Rightarrow> fst x)"
  have "\<forall>x\<in>set reqs. u \<le> fst x \<and> u \<le> fst x" using assms(1) by (cases reqs) (auto simp: u_def)
  from gateway_run_keeps[OF gate.kept_empty gate.kept_empty assms(1) this] obtain z z' rs' cs' rn cn where
    k: "gate.kept (requests_per_minute g) z rs' ([] @ rn)" "gate.kept (chat_requests_per_minute g) z' cs' ([] @ cn)"
    and s: "subseq (passed_at (\<lambda>_. True) (gateway_run g reqs ([], []))) rn"
      "subseq (passed_at (\<lambda>q. rq_path q = CHAT_PATH) (gateway_run g reqs ([], []))) cn" by blast
  have "length (filter ?now rn) \<le> nat (requests_per_minute g)" "length (filter ?now cn) \<le> nat (chat_requests_per_minute g)"
    using gate.kept_bound[OF k(1), of now] gate.kept_bound[OF k(2), of now] by (simp_all add: not_less)
  moreover note list_emb_length[OF subseq_filter[OF s(1), of ?now]] list_emb_length[OF subseq_filter[OF s(2), of ?now]]
  moreover have "0 \<le> requests_per_minute g" "0 \<le> chat_requests_per_minute g"
    using assms(2) by (auto simp: new_gateway_config_def split: if_splits)
  ultimately show ?thesis by linarith
qed

section \<open>Examples\<close>

definition sample_gateway :: gateway_config where
  "sample_gateway = \<lparr>session_token = replicate 32 (CHR ''k''), allowed_hosts = [''127.0.0.1'', ''[::1]''], max_body_bytes = 3,
     max_events_per_run = 100, max_journal_runs = 10, requests_per_minute = 10, chat_requests_per_minute = 1\<rparr>"

definition sample_chat :: http_request where
  "sample_chat = \<lparr>rq_path = CHAT_PATH, rq_method = ''post'', rq_headers =
     [(''Host'', ''127.0.0.1:8080''), (''Authorization'', ''Bearer '' @ replicate 32 (CHR ''k'')), (''Content-Type'', ''application/json'')]\<rparr>"

lemma sample_gateway_ok: "new_gateway_config sample_gateway = Inr sample_gateway"
  by (simp add: new_gateway_config_def sample_gateway_def)

lemma sample_chat_passes: "gateway_call sample_gateway sample_chat 0 ([], []) = (Passed, ([0], [0]))"
proof -
  have "case gateway_call sample_gateway sample_chat 0 ([], []) of (v, (r, c)) \<Rightarrow> v = Passed \<and> r = [0] \<and> c = [0]" by code_simp
  then show ?thesis by (simp split: prod.splits)
qed

theorem passed_request_is_authorised_witness:
  "host_name (header_or sample_chat ''host'' []) = ''127.0.0.1'' \<and>
   (\<exists>v. header sample_chat ''authorization'' = Some v \<and> latin1_utf8 v = ''Bearer '' @ session_token sample_gateway)"
proof -
  have "rq_path sample_chat \<noteq> ''/health''" "host_name (header_or sample_chat ''host'' []) = ''127.0.0.1''" by code_simp+
  with passed_request_is_authorised[OF sample_chat_passes sample_gateway_ok] show ?thesis by blast
qed

text \<open>The second chat of a minute is refused.\<close>

theorem requests_are_rate_limited_witness:
  "length (filter (\<lambda>t. - 30 \<le> t \<and> t \<le> 30) (passed_at (\<lambda>q. rq_path q = CHAT_PATH)
     (gateway_run sample_gateway [(0, sample_chat), (30, sample_chat)] ([], [])))) \<le> 1"
proof -
  have "sorted (map fst [(0 :: real, sample_chat), (30, sample_chat)])" by simp
  from requests_are_rate_limited[OF this sample_gateway_ok, of 30] show ?thesis by (simp add: sample_gateway_def)
qed

end
