(* ===== verification/Egress.thy ===== *)
theory Egress
  imports Gateway_Guard
begin

text \<open>
  The egress proxy (\<open>egress/proxy.py\<close>): the decision about a request line, the resolution of the name, how
  many tunnels there may be and how fast they may start, and the bytes that a tunnel may carry.

  The request line is Latin-1 text.  Case folding of one character is written out, except that the micro sign
  stays as it is (it is no character of a host name before or after).  DNS and the tables of public addresses
  are parameters of the resolution.
\<close>

section \<open>Host names and addresses\<close>

definition latin1_fold :: "char \<Rightarrow> string" where
  "latin1_fold c = (if ord c = 0xDF then ''ss'' else [latin1_lower c])"

definition fold_text :: "string \<Rightarrow> string" where
  "fold_text s = concat (map latin1_fold s)"

definition is_hex_digit :: "char \<Rightarrow> bool" where
  "is_hex_digit c \<longleftrightarrow> is_digit c \<or> 97 \<le> ord c \<and> ord c \<le> 102 \<or> 65 \<le> ord c \<and> ord c \<le> 70"

definition rstrip_char :: "char \<Rightarrow> string \<Rightarrow> string" where
  "rstrip_char c s = rev (dropWhile (\<lambda>x. x = c) (rev s))"

text \<open>\<open>ipaddress.IPv4Address\<close>: four decimal octets without leading zeros.\<close>

definition octet_ok :: "string \<Rightarrow> bool" where
  "octet_ok s \<longleftrightarrow> s \<noteq> [] \<and> list_all is_digit s \<and> length s \<le> 3 \<and> (s = ''0'' \<or> hd s \<noteq> CHR ''0'')
     \<and> foldl (\<lambda>n c. 10 * n + (ord c - 48)) 0 s \<le> 255"

definition ipv4_literal :: "string \<Rightarrow> bool" where
  "ipv4_literal s \<longleftrightarrow> (let parts = split_on (CHR ''.'') s in length parts = 4 \<and> list_all octet_ok parts)"

text \<open>\<open>ipaddress.IPv6Address\<close>: the scope is cut off, a trailing IPv4 address counts as two groups, at most one
  gap \<open>::\<close>, and groups of at most four hexadecimal digits.\<close>

definition scope_split :: "string \<Rightarrow> string option" where
  "scope_split s =
     (if CHR ''%'' \<notin> set s then Some s
      else let scope = tl (dropWhile (\<lambda>c. c \<noteq> CHR ''%'') s)
        in if scope = [] \<or> CHR ''%'' \<in> set scope then None else Some (takeWhile (\<lambda>c. c \<noteq> CHR ''%'') s))"

definition ipv6_groups :: "string \<Rightarrow> string list option" where
  "ipv6_groups s =
     (let parts = split_on (CHR '':'') s
      in if length parts < 3 then None
         else if CHR ''.'' \<in> set (last parts)
         then (if ipv4_literal (last parts) then Some (butlast parts @ [''0'', ''0'']) else None)
         else Some parts)"

definition group_ok :: "string \<Rightarrow> bool" where
  "group_ok s \<longleftrightarrow> s \<noteq> [] \<and> length s \<le> 4 \<and> list_all is_hex_digit s"

definition ipv6_parts_ok :: "string list \<Rightarrow> bool" where
  "ipv6_parts_ok parts \<longleftrightarrow>
     length parts \<le> 9 \<and>
     (case filter (\<lambda>i. parts ! i = []) [1..<length parts - 1] of
        [] \<Rightarrow> length parts = 8 \<and> list_all group_ok parts
      | [skip] \<Rightarrow>
          (let hi = (if parts ! 0 = [] then skip - 1 else skip);
               rest = length parts - skip - 1;
               lo = (if last parts = [] then rest - 1 else rest)
           in (parts ! 0 = [] \<longrightarrow> hi = 0) \<and> (last parts = [] \<longrightarrow> lo = 0) \<and> hi + lo < 8
              \<and> list_all group_ok (take hi parts) \<and> list_all group_ok (drop (length parts - lo) parts))
      | _ \<Rightarrow> False)"

definition ipv6_literal :: "string \<Rightarrow> bool" where
  "ipv6_literal s \<longleftrightarrow>
     (case scope_split s of
        None \<Rightarrow> False
      | Some addr \<Rightarrow> addr \<noteq> [] \<and> (case ipv6_groups addr of None \<Rightarrow> False | Some parts \<Rightarrow> ipv6_parts_ok parts))"

definition is_ip_literal :: "string \<Rightarrow> bool" where
  "is_ip_literal s \<longleftrightarrow> CHR ''/'' \<notin> set s \<and> (ipv4_literal s \<or> ipv6_literal s)"

text \<open>\<open>_HOST_LABEL\<close>: \<open>$\<close> also matches before a final line feed.\<close>

definition label_char :: "char \<Rightarrow> bool" where
  "label_char c \<longleftrightarrow> is_lower c \<or> is_digit c \<or> c = CHR ''-''"

definition label_ok :: "string \<Rightarrow> bool" where
  "label_ok s \<longleftrightarrow>
     (let body = (if s \<noteq> [] \<and> last s = LF then butlast s else s)
      in body \<noteq> [] \<and> length body \<le> 63 \<and> list_all label_char body \<and> hd body \<noteq> CHR ''-'' \<and> last body \<noteq> CHR ''-'')"

definition valid_hostname :: "string \<Rightarrow> bool" where
  "valid_hostname host \<longleftrightarrow> 0 < length host \<and> length host \<le> 253 \<and> list_all label_ok (split_on (CHR ''.'') host)"

section \<open>The policy\<close>

record egress_policy =
  eg_hosts :: "string list"
  eg_ports :: "int list"
  eg_max_connections :: int
  eg_max_per_minute :: int
  eg_max_tunnel_bytes :: int
  eg_max_header_bytes :: int

definition normalize_entry :: "string \<Rightarrow> exn + string" where
  "normalize_entry value =
     (let entry = fold_text (rstrip_char (CHR ''.'') (latin1_strip value));
          host = (if startswith entry ''*.'' then drop 2 entry else entry)
      in if is_ip_literal host \<or> \<not> valid_hostname host \<or> CHR ''.'' \<notin> set host then Inl ValueErr else Inr entry)"

definition new_egress_policy :: "egress_policy \<Rightarrow> exn + egress_policy" where
  "new_egress_policy p =
     rbind (map_res normalize_entry (eg_hosts p)) (\<lambda>hosts.
       if hosts = [] then Inl ValueErr
       else if eg_ports p = [] \<or> list_ex (\<lambda>port. \<not> (1 \<le> port \<and> port \<le> 65535)) (eg_ports p) then Inl ValueErr
       else if eg_max_connections p < 1 \<or> eg_max_per_minute p < 1 \<or> eg_max_header_bytes p < 1 \<or> eg_max_tunnel_bytes p < 1
       then Inl ValueErr
       else Inr (p\<lparr>eg_hosts := hosts\<rparr>))"

definition entry_allows :: "string \<Rightarrow> string \<Rightarrow> bool" where
  "entry_allows host entry \<longleftrightarrow>
     (if startswith entry ''*.'' then endswith host (drop 1 entry) \<and> host \<noteq> drop 2 entry else host = entry)"

definition host_allowed :: "egress_policy \<Rightarrow> string \<Rightarrow> bool" where
  "host_allowed p host \<longleftrightarrow> list_ex (entry_allows host) (eg_hosts p)"

section \<open>The decision\<close>

record egress_decision =
  dc_allowed :: bool
  dc_reason :: string
  dc_method :: string
  dc_host :: string
  dc_port :: int

definition denied :: "string \<Rightarrow> string \<Rightarrow> string \<Rightarrow> int \<Rightarrow> egress_decision" where
  "denied reason verb host port = \<lparr>dc_allowed = False, dc_reason = reason, dc_method = verb, dc_host = host, dc_port = port\<rparr>"

text \<open>\<open>_REQUEST_LINE\<close> on the stripped line: method and target.\<close>

definition request_parts :: "string \<Rightarrow> (string \<times> string) option" where
  "request_parts line =
     (case split_on (CHR '' '') (latin1_strip line) of
        [verb, target, version] \<Rightarrow>
          if list_all (\<lambda>c. 65 \<le> ord c \<and> ord c \<le> 90) verb \<and> 3 \<le> length verb \<and> length verb \<le> 10
             \<and> target \<noteq> [] \<and> length target \<le> 300 \<and> list_all (\<lambda>c. \<not> latin1_space c) target
             \<and> version \<in> {''HTTP/1.0'', ''HTTP/1.1''}
          then Some (verb, target) else None
      | _ \<Rightarrow> None)"

text \<open>\<open>target.rpartition(":")\<close>, with \<open>None\<close> where there is no colon.\<close>

definition rpartition :: "string \<Rightarrow> (string \<times> string) option" where
  "rpartition s =
     (if CHR '':'' \<notin> set s then None
      else let port = rev (takeWhile (\<lambda>c. c \<noteq> CHR '':'') (rev s))
        in Some (take (length s - length port - 1) s, port))"

text \<open>\<open>str.isdigit\<close> accepts the superscript digits of Latin-1, which \<open>int\<close> does not.\<close>

definition digit_char :: "char \<Rightarrow> bool" where
  "digit_char c \<longleftrightarrow> is_digit c \<or> ord c \<in> {0xB2, 0xB3, 0xB9}"

definition strip_brackets :: "string \<Rightarrow> string" where
  "strip_brackets s = (let b = (\<lambda>c. c = CHR ''['' \<or> c = CHR '']'') in rev (dropWhile b (rev (dropWhile b s))))"

definition evaluate :: "egress_policy \<Rightarrow> string \<Rightarrow> exn + egress_decision" where
  "evaluate p line =
     (case request_parts line of
        None \<Rightarrow> Inr (denied ''malformed_request'' [] [] 0)
      | Some (verb, target) \<Rightarrow>
          if verb \<noteq> ''CONNECT'' then Inr (denied ''method_not_allowed'' verb [] 0)
          else (case rpartition target of
              None \<Rightarrow> Inr (denied ''malformed_target'' verb [] 0)
            | Some (raw_host, raw_port) \<Rightarrow>
                if raw_port = [] \<or> \<not> list_all digit_char raw_port then Inr (denied ''malformed_target'' verb [] 0)
                else (case int_of_text raw_port of
                    None \<Rightarrow> Inl ValueErr
                  | Some port \<Rightarrow>
                      (let host = fold_text (rstrip_char (CHR ''.'') (strip_brackets raw_host))
                       in if is_ip_literal host then Inr (denied ''ip_literal'' verb host port)
                          else if \<not> valid_hostname host then Inr (denied ''malformed_host'' verb (take 255 host) port)
                          else if port \<notin> set (eg_ports p) then Inr (denied ''port_not_allowed'' verb host port)
                          else if \<not> host_allowed p host then Inr (denied ''host_not_allowed'' verb host port)
                          else Inr \<lparr>dc_allowed = True, dc_reason = ''allowed'', dc_method = verb, dc_host = host, dc_port = port\<rparr>))))"

section \<open>Resolution\<close>

datatype denial = Denied (reason: string) (http_status: nat) | Crashed exn

definition scope_free :: "string \<Rightarrow> string" where
  "scope_free address = takeWhile (\<lambda>c. c \<noteq> CHR ''%'') address"

definition resolve_public ::
  "(string \<Rightarrow> int \<Rightarrow> string list option) \<Rightarrow> (string \<Rightarrow> bool) \<Rightarrow> string \<Rightarrow> int \<Rightarrow> denial + string list" where
  "resolve_public dns public host port =
     (case dns host port of
        None \<Rightarrow> Inl (Denied ''resolution_failed'' 502)
      | Some answers \<Rightarrow>
          (let addresses = dedup answers
           in if addresses = [] then Inl (Denied ''resolution_failed'' 502)
              else if list_ex (\<lambda>a. \<not> public (scope_free a)) addresses then Inl (Denied ''non_public_address'' 403)
              else Inr addresses))"

text \<open>The way from the head of a request to the address that the proxy connects to.\<close>

definition denial_status :: "string \<Rightarrow> nat" where
  "denial_status why = (if why = ''method_not_allowed'' then 405 else if startswith why ''malformed'' then 400 else 403)"

fun request_line :: "string \<Rightarrow> string" where
  "request_line [] = []"
| "request_line (c # cs) = (if c = CR \<and> startswith cs [LF] then [] else c # request_line cs)"

definition tunnel_target ::
  "(string \<Rightarrow> int \<Rightarrow> string list option) \<Rightarrow> (string \<Rightarrow> bool) \<Rightarrow> egress_policy \<Rightarrow> string \<Rightarrow> denial + (string \<times> egress_decision)" where
  "tunnel_target dns public p head =
     (if int (length head) > eg_max_header_bytes p then Inl (Denied ''headers_too_large'' 431)
      else (case evaluate p (request_line head) of
          Inl e \<Rightarrow> Inl (Crashed e)
        | Inr d \<Rightarrow>
            if \<not> dc_allowed d then Inl (Denied (dc_reason d) (denial_status (dc_reason d)))
            else rbind (resolve_public dns public (dc_host d) (dc_port d)) (\<lambda>addresses. Inr (hd addresses, d))))"


section \<open>How many tunnels\<close>

record proxy =
  px_active :: int
  px_recent :: "real list"

definition egress_admit :: "int \<Rightarrow> real \<Rightarrow> real list \<Rightarrow> bool \<times> real list" where
  "egress_admit limit now window =
     (let w = dropWhile (\<lambda>t. now - t \<ge> 60) window
      in if int (length w) \<ge> limit then (False, w) else (True, w @ [now]))"

definition proxy_enter :: "egress_policy \<Rightarrow> real \<Rightarrow> proxy \<Rightarrow> (denial + unit) \<times> proxy" where
  "proxy_enter p now st =
     (if px_active st \<ge> eg_max_connections p then (Inl (Denied ''too_many_connections'' 503), st)
      else (case egress_admit (eg_max_per_minute p) now (px_recent st) of
          (False, w) \<Rightarrow> (Inl (Denied ''rate_limited'' 429), st\<lparr>px_recent := w\<rparr>)
        | (True, w) \<Rightarrow> (Inr (), st\<lparr>px_active := px_active st + 1, px_recent := w\<rparr>)))"

definition proxy_leave :: "proxy \<Rightarrow> proxy" where
  "proxy_leave st = st\<lparr>px_active := px_active st - 1\<rparr>"

text \<open>Clients come and go: the clock, the state, the times of the admitted ones and how many are open.\<close>

inductive proxy_run :: "egress_policy \<Rightarrow> real \<Rightarrow> proxy \<Rightarrow> real list \<Rightarrow> nat \<Rightarrow> bool" for p where
  proxy_starts: "proxy_run p now \<lparr>px_active = 0, px_recent = []\<rparr> [] 0"
| client_enters: "proxy_run p now st' (taken @ [now]) (Suc n)"
    if "proxy_run p u st taken n" "u \<le> now" "proxy_enter p now st = (Inr (), st')"
| client_refused: "proxy_run p now st' taken n"
    if "proxy_run p u st taken n" "u \<le> now" "proxy_enter p now st = (Inl e, st')"
| client_leaves: "proxy_run p now (proxy_leave st) taken n"
    if "proxy_run p u st taken (Suc n)" "u \<le> now"

section \<open>What a tunnel carries\<close>

text \<open>\<open>_pump\<close>: the two directions count into the same budget and forward a chunk only when it still fits.  An
  event is one turn of a copying task: the clock at its head and what the read gave, nothing for a timeout.
  After one task has ended the other may still have turns before it is cancelled.\<close>

datatype side = Up | Down

record tunnel =
  tn_count :: "side \<Rightarrow> int"
  tn_sent :: "side \<Rightarrow> string"
  tn_outcome :: "side \<Rightarrow> string option"

definition copy_turn :: "egress_policy \<Rightarrow> real \<Rightarrow> side \<times> real \<times> string option \<Rightarrow> tunnel \<Rightarrow> tunnel" where
  "copy_turn p deadline ev st =
     (case ev of (d, now, result) \<Rightarrow>
       (let ending = (\<lambda>why. (tn_outcome st)(d := Some why))
        in if tn_outcome st d \<noteq> None then st
           else if deadline - now \<le> 0 then st\<lparr>tn_outcome := ending ''max_tunnel_seconds''\<rparr>
           else (case result of
               None \<Rightarrow> st\<lparr>tn_outcome := ending ''idle_timeout''\<rparr>
             | Some chunk \<Rightarrow>
                 if chunk = [] then st\<lparr>tn_outcome := ending ''closed''\<rparr>
                 else let counts = (tn_count st)(d := tn_count st d + int (length chunk))
                   in if counts Up + counts Down > eg_max_tunnel_bytes p
                      then st\<lparr>tn_count := counts, tn_outcome := ending ''max_tunnel_bytes''\<rparr>
                      else st\<lparr>tn_count := counts, tn_sent := (tn_sent st)(d := tn_sent st d @ chunk)\<rparr>)))"

definition new_tunnel :: tunnel where
  "new_tunnel = \<lparr>tn_count = (\<lambda>_. 0), tn_sent = (\<lambda>_. []), tn_outcome = (\<lambda>_. None)\<rparr>"

definition pump :: "egress_policy \<Rightarrow> real \<Rightarrow> (side \<times> real \<times> string option) list \<Rightarrow> tunnel" where
  "pump p deadline events = fold (copy_turn p deadline) events new_tunnel"

section \<open>Only listed names, only public addresses\<close>

lemma new_egress_policy_Inr:
  assumes "new_egress_policy q = Inr p"
  shows "p = q\<lparr>eg_hosts := eg_hosts p\<rparr> \<and> map_res normalize_entry (eg_hosts q) = Inr (eg_hosts p)
    \<and> (\<forall>port\<in>set (eg_ports p). 1 \<le> port \<and> port \<le> 65535)
    \<and> 1 \<le> eg_max_connections p \<and> 1 \<le> eg_max_per_minute p \<and> 1 \<le> eg_max_tunnel_bytes p"
  using assms by (auto simp: new_egress_policy_def list_ex_iff split: if_splits)

lemma evaluate_allowed:
  assumes "evaluate p line = Inr d" and "dc_allowed d"
  shows "dc_method d = ''CONNECT'' \<and> \<not> is_ip_literal (dc_host d) \<and> valid_hostname (dc_host d)
    \<and> dc_port d \<in> set (eg_ports p) \<and> host_allowed p (dc_host d)"
  using assms by (auto simp: evaluate_def denied_def Let_def split: option.splits if_splits prod.splits)

text \<open>A name below a wildcard has a label of its own.\<close>

lemma entry_allows_iff:
  assumes "valid_hostname host" and "entry_allows host entry"
  shows "host = entry \<or> (\<exists>sub suffix. entry = ''*.'' @ suffix \<and> sub \<noteq> [] \<and> host = sub @ ''.'' @ suffix)"
proof (cases "startswith entry ''*.''")
  case True
  then obtain suffix where e: "entry = ''*.'' @ suffix" by (auto simp: startswith_iff)
  with True assms(2) have "endswith host (''.'' @ suffix)" by (simp add: entry_allows_def)
  then obtain sub where h: "host = sub @ ''.'' @ suffix" by (auto simp: endswith_def) (metis append_take_drop_id)
  have "sub \<noteq> []"
  proof
    assume "sub = []"
    with h have "[] \<in> set (split_on (CHR ''.'') host)" by simp
    with assms(1) show False by (auto simp: valid_hostname_def list_all_iff label_ok_def)
  qed
  with e h show ?thesis by blast
qed (use assms(2) in \<open>simp add: entry_allows_def\<close>)


text \<open>Claim C19. A tunnel is only opened for a CONNECT to an allowed port of a name that is in the allowlist, or has a
  label of its own below a wildcard of it, and is no IP literal; and the address it connects to is one that
  the name resolves to, when all of these are public.\<close>

theorem tunnel_goes_to_listed_host:
  assumes "tunnel_target dns public p head = Inr (address, d)" and "new_egress_policy q = Inr p"
  shows "dc_method d = ''CONNECT'' \<and> evaluate p (request_line head) = Inr d
    \<and> dc_port d \<in> set (eg_ports q) \<and> 1 \<le> dc_port d \<and> dc_port d \<le> 65535
    \<and> (\<exists>value\<in>set (eg_hosts q). \<exists>entry. normalize_entry value = Inr entry
        \<and> (dc_host d = entry \<or> (\<exists>sub suffix. entry = ''*.'' @ suffix \<and> sub \<noteq> [] \<and> dc_host d = sub @ ''.'' @ suffix)))
    \<and> \<not> is_ip_literal (dc_host d) \<and> valid_hostname (dc_host d)
    \<and> (\<exists>answers. dns (dc_host d) (dc_port d) = Some answers \<and> address \<in> set answers \<and> (\<forall>a\<in>set answers. public (scope_free a)))"
proof -
  from assms(1) obtain addresses where d: "evaluate p (request_line head) = Inr d" "dc_allowed d"
    "resolve_public dns public (dc_host d) (dc_port d) = Inr addresses" "address = hd addresses"
    by (auto simp: tunnel_target_def split: if_splits sum.splits)
  note e = evaluate_allowed[OF d(1,2)]
  note pol = new_egress_policy_Inr[OF assms(2)]
  from e obtain entry where en: "entry \<in> set (eg_hosts p)" "entry_allows (dc_host d) entry"
    by (auto simp: host_allowed_def list_ex_iff)
  have "entry \<in> Inr -` (normalize_entry ` set (eg_hosts q))"
    using en(1) pol by (auto simp: map_res_Inr list_all2_conv_all_nth in_set_conv_nth) (metis image_eqI nth_mem)
  then obtain val where v: "val \<in> set (eg_hosts q)" "normalize_entry val = Inr entry" by force
  obtain answers where a: "dns (dc_host d) (dc_port d) = Some answers" "addresses = dedup answers" "addresses \<noteq> []"
    "\<forall>x\<in>set answers. public (scope_free x)"
    using d(3) by (auto simp: resolve_public_def Let_def list_ex_iff split: option.splits if_splits)
  then have "address \<in> set answers" using d(4) hd_in_set[of addresses] by simp
  moreover have "eg_ports p = eg_ports q" using pol by (metis egress_policy.select_convs(2) egress_policy.surjective egress_policy.update_convs(1))
  ultimately show ?thesis using d(1) e pol v entry_allows_iff[OF _ en(2)] a(1,4) by (metis)
qed

section \<open>Bounds\<close>

interpretation proxy: sliding_window "\<lambda>now t. now - t \<ge> 60" "nat limit" "egress_admit limit" for limit
  by unfold_locales (auto simp: egress_admit_def Let_def)

lemma proxy_enter_cases:
  assumes "proxy_enter p now st = (r, st')"
  obtains (busy) "r = Inl (Denied ''too_many_connections'' 503)" "st' = st"
  | (limited) w where "egress_admit (eg_max_per_minute p) now (px_recent st) = (False, w)" "r = Inl (Denied ''rate_limited'' 429)" "st' = st\<lparr>px_recent := w\<rparr>"
  | (admitted) w where "px_active st < eg_max_connections p" "egress_admit (eg_max_per_minute p) now (px_recent st) = (True, w)" "r = Inr ()"
      "st' = st\<lparr>px_active := px_active st + 1, px_recent := w\<rparr>"
proof -
  obtain ok w where a: "egress_admit (eg_max_per_minute p) now (px_recent st) = (ok, w)" by (rule prod.exhaust)
  show thesis
  proof (cases "px_active st \<ge> eg_max_connections p")
    case True
    with assms busy show thesis by (simp add: proxy_enter_def)
  next
    case False
    with assms a limited admitted show thesis by (cases ok) (simp_all add: proxy_enter_def)
  qed
qed

lemma proxy_run_keeps:
  assumes "proxy_run p now st taken n" and "0 \<le> eg_max_connections p"
  shows "px_active st = int n \<and> int n \<le> eg_max_connections p \<and> (\<exists>z\<le>now. proxy.kept (eg_max_per_minute p) z (px_recent st) taken)"
  using assms
proof (induction rule: proxy_run.induct)
  case (proxy_starts now)
  then show ?case using proxy.kept_empty by auto
next
  case (client_enters u st taken n now st')
  then obtain z where z: "z \<le> now" "proxy.kept (eg_max_per_minute p) z (px_recent st) taken"
    by (meson order_trans)
  from client_enters.hyps(3) show ?case
  proof (cases rule: proxy_enter_cases)
    case (admitted w)
    with proxy.admit_keeps[OF z(2,1) admitted(2)] client_enters.IH client_enters.prems show ?thesis by auto
  qed simp_all
next
  case (client_refused u st taken n now e st')
  then obtain z where z: "z \<le> now" "proxy.kept (eg_max_per_minute p) z (px_recent st) taken"
    by (meson order_trans)
  from client_refused.hyps(3) show ?case
  proof (cases rule: proxy_enter_cases)
    case (limited w)
    with proxy.admit_keeps[OF z(2,1) limited(1)] client_refused.IH client_refused.prems show ?thesis by auto
  qed (use z client_refused.IH client_refused.prems in auto)
next
  case (client_leaves u st taken n now)
  then show ?case by (auto simp: proxy_leave_def intro: order_trans)
qed

text \<open>Claim C20. Whatever clients do, the proxy counts its open tunnels rightly, never has more of them than the policy
  allows, and never lets more than \<open>eg_max_per_minute\<close> in within any sixty seconds.\<close>

theorem proxy_stays_within_limits:
  assumes "proxy_run p now st taken n" and "new_egress_policy q = Inr p"
  shows "px_active st = int n \<and> int n \<le> eg_max_connections p
    \<and> (\<forall>u. int (length (filter (\<lambda>t. u - 60 < t \<and> t \<le> u) taken)) \<le> eg_max_per_minute p)"
proof -
  note pol = new_egress_policy_Inr[OF assms(2)]
  then have b: "0 \<le> eg_max_connections p" "0 \<le> eg_max_per_minute p" by simp_all
  from proxy_run_keeps[OF assms(1) b(1)] obtain z where z: "px_active st = int n" "int n \<le> eg_max_connections p"
    "proxy.kept (eg_max_per_minute p) z (px_recent st) taken" by blast
  have "filter (\<lambda>t. u - 60 < t \<and> t \<le> u) taken = filter (\<lambda>t. \<not> u - t \<ge> 60 \<and> t \<le> u) taken" for u
    by (rule filter_cong) auto
  then have "int (length (filter (\<lambda>t. u - 60 < t \<and> t \<le> u) taken)) \<le> eg_max_per_minute p" for u
    using proxy.kept_bound[OF z(3), of u] b(2) by (simp add: le_nat_iff)
  with z(1,2) show ?thesis by blast
qed

text \<open>What has been read from one side.\<close>

definition read_from :: "side \<Rightarrow> (side \<times> real \<times> string option) list \<Rightarrow> string" where
  "read_from d events = concat (List.map_filter (\<lambda>(s, now, r). if s = d then r else None) events)"

definition tunnel_ok :: "egress_policy \<Rightarrow> (side \<times> real \<times> string option) list \<Rightarrow> tunnel \<Rightarrow> bool" where
  "tunnel_ok p events st \<longleftrightarrow>
     int (length (tn_sent st Up)) + int (length (tn_sent st Down)) \<le> eg_max_tunnel_bytes p
     \<and> (\<forall>d. int (length (tn_sent st d)) \<le> tn_count st d
          \<and> (\<exists>rest. read_from d events = tn_sent st d @ rest \<and> (tn_outcome st d = None \<longrightarrow> rest = [])))"

lemma copy_turn_ok:
  assumes "tunnel_ok p events st"
  shows "tunnel_ok p (events @ [ev]) (copy_turn p deadline ev st)"
proof -
  obtain d now r where ev: "ev = (d, now, r)" by (rule prod_cases3)
  have reads: "read_from s (events @ [ev]) = read_from s events @ (if s = d then case r of None \<Rightarrow> [] | Some c \<Rightarrow> c else [])" for s
    by (simp add: read_from_def ev List.map_filter_def split: option.split)
  have len: "int (length (tn_sent st s)) \<le> tn_count st s" for s using assms by (simp add: tunnel_ok_def)
  have rest: "\<exists>rest. read_from s events = tn_sent st s @ rest \<and> (tn_outcome st s = None \<longrightarrow> rest = [])" for s
    using assms by (simp add: tunnel_ok_def)
  let ?st = "copy_turn p deadline ev st"
  show ?thesis
  proof (cases "tn_sent ?st = tn_sent st")
    case True
    have c: "tn_count st s \<le> tn_count ?st s" for s by (simp add: copy_turn_def ev Let_def split: option.split)
    have o: "tn_outcome ?st d \<noteq> None \<or> r = Some [] \<or> r = None"
      using True by (auto simp: copy_turn_def ev Let_def fun_upd_idem_iff split: option.splits if_splits)
    have o': "tn_outcome ?st s = None \<Longrightarrow> tn_outcome st s = None" for s
      by (auto simp: copy_turn_def ev Let_def split: option.splits if_splits)
    have "\<exists>rest. read_from s (events @ [ev]) = tn_sent ?st s @ rest \<and> (tn_outcome ?st s = None \<longrightarrow> rest = [])" for s
      using rest[of s] o o'[of s] unfolding reads True by (cases "s = d") auto
    moreover have "int (length (tn_sent ?st s)) \<le> tn_count ?st s" for s using len[of s] c[of s] by (simp add: True)
    moreover have "int (length (tn_sent ?st Up)) + int (length (tn_sent ?st Down)) \<le> eg_max_tunnel_bytes p"
      using assms by (simp add: tunnel_ok_def True)
    ultimately show ?thesis by (simp add: tunnel_ok_def)
  next
    case False
    then obtain chunk where f: "r = Some chunk" "tn_outcome st d = None"
      "?st = st\<lparr>tn_count := (tn_count st)(d := tn_count st d + int (length chunk)), tn_sent := (tn_sent st)(d := tn_sent st d @ chunk)\<rparr>"
      "((tn_count st)(d := tn_count st d + int (length chunk))) Up + ((tn_count st)(d := tn_count st d + int (length chunk))) Down
         \<le> eg_max_tunnel_bytes p"
      by (auto simp: copy_turn_def ev Let_def split: option.splits if_splits)
    have "\<exists>rest. read_from s (events @ [ev]) = tn_sent ?st s @ rest \<and> (tn_outcome ?st s = None \<longrightarrow> rest = [])" for s
      using rest[of s] f(2) unfolding reads f(1,3) by (cases "s = d") auto
    moreover have "int (length (tn_sent ?st s)) \<le> tn_count ?st s" for s using len[of s] len[of d] by (simp add: f(3))
    moreover have "tn_count ?st Up + tn_count ?st Down \<le> eg_max_tunnel_bytes p" using f(4) by (simp add: f(3))
    ultimately show ?thesis unfolding tunnel_ok_def by (meson add_mono order_trans)
  qed
qed

text \<open>A tunnel forwards, in each direction, a prefix of what was read there, all of it as long as that direction
  is open, and in both directions together never more than the byte limit, however the turns of the two
  copying tasks interleave.\<close>

theorem tunnel_forwards_bounded_prefix:
  assumes "1 \<le> eg_max_tunnel_bytes p"
  shows "int (length (tn_sent (pump p deadline events) Up)) + int (length (tn_sent (pump p deadline events) Down)) \<le> eg_max_tunnel_bytes p
    \<and> (\<forall>d. \<exists>rest. read_from d events = tn_sent (pump p deadline events) d @ rest
          \<and> (tn_outcome (pump p deadline events) d = None \<longrightarrow> rest = []))"
proof -
  have "tunnel_ok p events (pump p deadline events)"
  proof (induction events rule: rev_induct)
    case Nil
    then show ?case using assms by (simp add: tunnel_ok_def pump_def new_tunnel_def read_from_def List.map_filter_def)
  next
    case (snoc ev events)
    then show ?case using copy_turn_ok[of p events "pump p deadline events" ev deadline] by (simp add: pump_def)
  qed
  then show ?thesis by (simp add: tunnel_ok_def)
qed

section \<open>Examples\<close>

definition sample_egress :: egress_policy where
  "sample_egress = \<lparr>eg_hosts = [''*.PyPI.org.'', ''a.b''], eg_ports = [443], eg_max_connections = 2, eg_max_per_minute = 2,
     eg_max_tunnel_bytes = 3, eg_max_header_bytes = 100\<rparr>"

definition sample_policy :: egress_policy where
  "sample_policy = sample_egress\<lparr>eg_hosts := [''*.pypi.org'', ''a.b'']\<rparr>"

definition sample_head :: string where
  "sample_head = ''CONNECT Files.PyPI.Org.:443 HTTP/1.1'' @ [CR, LF, CR, LF]"

definition sample_dns :: "string \<Rightarrow> int \<Rightarrow> string list option" where
  "sample_dns host port = Some [''151.101.0.223'', ''2a04:4e42::223'']"

definition is_allowed :: "denial + (string \<times> egress_decision) \<Rightarrow> bool" where
  "is_allowed r = (case r of Inl e \<Rightarrow> False | Inr (a, d) \<Rightarrow> a = ''151.101.0.223'' \<and> dc_host d = ''files.pypi.org'')"

lemma sample_policy_new: "new_egress_policy sample_egress = Inr sample_policy"
  by code_simp

theorem tunnel_goes_to_listed_host_witness:
  "\<exists>d. tunnel_target sample_dns (\<lambda>_. True) sample_policy sample_head = Inr (''151.101.0.223'', d) \<and> dc_port d = 443"
proof -
  have "is_allowed (tunnel_target sample_dns (\<lambda>_. True) sample_policy sample_head)" by code_simp
  then obtain d where d: "tunnel_target sample_dns (\<lambda>_. True) sample_policy sample_head = Inr (''151.101.0.223'', d)"
    by (auto simp: is_allowed_def split: sum.splits)
  from tunnel_goes_to_listed_host[OF d sample_policy_new] have "dc_port d \<in> set (eg_ports sample_egress)" by blast
  with d show ?thesis by (simp add: sample_egress_def)
qed

theorem proxy_stays_within_limits_witness:
  "length (filter (\<lambda>t. 5 - 60 < t \<and> t \<le> (5 :: real)) [0, 5]) \<le> 2"
proof -
  have "proxy_run sample_policy 0 \<lparr>px_active = 1, px_recent = [0]\<rparr> ([] @ [0]) (Suc 0)"
    by (rule client_enters[OF proxy_starts[of _ 0]]) (simp_all add: proxy_enter_def egress_admit_def sample_policy_def sample_egress_def)
  then have "proxy_run sample_policy 5 \<lparr>px_active = 2, px_recent = [0, 5]\<rparr> (([] @ [0]) @ [5]) (Suc (Suc 0))"
    by (rule client_enters) (simp_all add: proxy_enter_def egress_admit_def sample_policy_def sample_egress_def)
  from proxy_stays_within_limits[OF this sample_policy_new]
  have "int (length (filter (\<lambda>t. 5 - 60 < t \<and> t \<le> (5 :: real)) (([] @ [0]) @ [5]))) \<le> eg_max_per_minute sample_policy" by blast
  then show ?thesis by (simp add: sample_policy_def sample_egress_def)
qed

theorem tunnel_forwards_bounded_prefix_witness:
  "int (length (tn_sent (pump sample_policy 10 [(Up, 0, Some ''ab''), (Down, 1, Some ''xy''), (Up, 2, Some ''c'')]) Up)) \<le> 3"
proof -
  have "1 \<le> eg_max_tunnel_bytes sample_policy" by (simp add: sample_policy_def sample_egress_def)
  from tunnel_forwards_bounded_prefix[OF this, of 10 "[(Up, 0, Some ''ab''), (Down, 1, Some ''xy''), (Up, 2, Some ''c'')]"]
  show ?thesis by (simp add: sample_policy_def sample_egress_def)
qed

text \<open>A superscript digit passes \<open>isdigit\<close> and makes \<open>int\<close> raise out of \<open>evaluate\<close>.\<close>

lemma superscript_port_escapes:
  "evaluate sample_policy (''CONNECT a.b:44'' @ [CHR 0xB2] @ '' HTTP/1.1'') = Inl ValueErr"
  by code_simp

end
