(* ===== verification/Desktop_Publication.thy ===== *)
theory Desktop_Publication
  imports Publication Risk Policy
begin

text \<open>
  The staging and publication service of the desktop (\<open>src/desktop/staging_publication.py\<close>): a state
  machine over the signals of Qt.  Its state is the batch in flight, the batch that waits for it, the dialogs
  that are open, the staging request that runs, the review pane and the calls put off with
  \<open>QTimer.singleShot(0, ...)\<close>.  A handler is a function on this state and on what it reads of the rest of
  the desktop (\<open>desk\<close>), which may change between two signals.  Dialog texts, status lines and error messages
  are prose and left out; a payload that \<open>PublishManifest.from_dict\<close> refuses is \<open>None\<close>; a \<open>GatewayClient\<close> is
  the connection it was made for.
\<close>

section \<open>State\<close>

record desk =
  dk_workspace :: "string option"
  dk_connection :: "string option"
  dk_ready :: bool
  dk_running :: bool
  dk_policy :: workspace_policy
  dk_reader :: "string \<Rightarrow> string option"
  dk_json :: "string \<Rightarrow> pyval option"
  dk_toml :: "string \<Rightarrow> pydict option"

text \<open>The arguments of a \<open>PublicationWorker\<close>, and whether it publishes for Auto.\<close>

record publication_worker =
  pw_manifest :: publish_manifest
  pw_auto :: bool
  pw_workspace :: string
  pw_client :: "string option"
  pw_paths :: "string list option"
  pw_required :: "string list"
  pw_never :: "string list"

text \<open>Where the user goes after staged work is safe: away from the workspace, or out of the program.\<close>

datatype leave = CloseApp | SwitchTo string

datatype confirmation = ConfirmPublish publish_manifest | ConfirmDiscard | ConfirmAuto

datatype staging_action = ActPublish "string list option" | ActRebase "(string \<times> string list) list" | ActInspect

datatype deferred = LaterReview | LaterLeave leave | LaterDiscard leave | LaterPublish

record publication_view =
  pv_worker :: "publication_worker option"
  pv_active :: "(publish_manifest \<times> bool) option"
  pv_next :: "(publish_manifest \<times> bool \<times> string option) option"
  pv_clients :: "(string \<times> string) list"
  pv_paths :: "string list option"
  pv_pending :: "(string \<times> confirmation) list"
  pv_auto :: bool
  pv_action :: "staging_action option"
  pv_discarding :: bool
  pv_inspecting :: bool
  pv_check :: "string option"
  pv_reviewing :: bool
  pv_review :: "(string list \<times> bool) option"
  pv_selection :: "string set"
  pv_conflicts :: "string list"
  pv_leave :: "leave option"
  pv_left :: "leave list"
  pv_deferred :: "deferred list"

definition new_view :: publication_view where
  "new_view = \<lparr>pv_worker = None, pv_active = None, pv_next = None, pv_clients = [], pv_paths = None, pv_pending = [],
     pv_auto = False, pv_action = None, pv_discarding = False, pv_inspecting = False, pv_check = None,
     pv_reviewing = False, pv_review = None, pv_selection = {}, pv_conflicts = [], pv_leave = None, pv_left = [], pv_deferred = []\<rparr>"

definition busy :: "publication_view \<Rightarrow> bool" where
  "busy v \<longleftrightarrow> pv_discarding v \<or> pv_inspecting v \<or> pv_worker v \<noteq> None \<or> pv_action v \<noteq> None \<or> pv_check v \<noteq> None"

section \<open>Publication\<close>

definition stop_auto :: "publication_view \<Rightarrow> publication_view" where
  "stop_auto v = v\<lparr>pv_auto := False\<rparr>"

definition batch_token :: "string \<Rightarrow> publish_manifest \<Rightarrow> string" where
  "batch_token kind m = kind @ '':'' @ publication_id m @ '':'' @ str_int (batch_index m)"

definition desk_risk :: "desk \<Rightarrow> publish_manifest \<Rightarrow> (string \<times> risk_flag list) list" where
  "desk_risk d m = classify_manifest (dk_json d) (dk_toml d) (dk_reader d) (operations m)"

definition confirm_publication ::
  "publish_manifest \<Rightarrow> string \<Rightarrow> string option \<Rightarrow> publication_view \<Rightarrow> publication_view" where
  "confirm_publication m tok client v =
     v\<lparr>pv_clients := (case client of None \<Rightarrow> pv_clients v | Some c \<Rightarrow> AList.update (manifest_id m) c (pv_clients v)),
       pv_pending := AList.update tok (ConfirmPublish m) (pv_pending v)\<rparr>"

definition start_publication ::
  "desk \<Rightarrow> publish_manifest \<Rightarrow> bool \<Rightarrow> string option \<Rightarrow> publication_view \<Rightarrow> publication_view" where
  "start_publication d m auto given v =
     (let blocked = (if auto then stop_auto v else v) in
      case dk_workspace d of
        None \<Rightarrow> blocked
      | Some workspace \<Rightarrow>
          if pv_worker v \<noteq> None then blocked
          else (let client = (if given = None then dk_connection d else given) in
            if auto \<and> client = None then blocked
            else if auto \<and> needs_confirmation (desk_risk d m)
            then confirm_publication m (batch_token ''publish-flagged'' m) client v
            else v\<lparr>pv_worker := Some \<lparr>pw_manifest = m, pw_auto = auto, pw_workspace = workspace, pw_client = client,
                       pw_paths = pv_paths v, pw_required = (if auto then verify_before_publish (dk_policy d) else []),
                       pw_never = pol_never_publish (dk_policy d)\<rparr>,
                   pv_active := Some (m, auto)\<rparr>))"

definition handle_manifest ::
  "desk \<Rightarrow> publish_manifest option \<Rightarrow> string \<Rightarrow> bool \<Rightarrow> bool \<Rightarrow> publication_view \<Rightarrow> publication_view" where
  "handle_manifest d payload tok auto authorized v =
     (case payload of
        None \<Rightarrow> stop_auto v
      | Some m \<Rightarrow>
          if auto then (if \<not> authorized then stop_auto v else start_publication d m True None v)
          else confirm_publication m tok None v)"

text \<open>The worker keeps its client for the next batch exactly when it announces one.\<close>

definition on_publication_complete :: "batch_result \<Rightarrow> publication_view \<Rightarrow> publication_view" where
  "on_publication_complete res v =
     (case br_marked res of
        Inl e \<Rightarrow> stop_auto v
      | Inr _ \<Rightarrow>
          (case br_next res of
             None \<Rightarrow> v
           | Some (Inl e) \<Rightarrow> stop_auto v
           | Some (Inr m) \<Rightarrow>
               (let auto = (case pv_active v of None \<Rightarrow> False | Some (_, a) \<Rightarrow> a \<and> pv_auto v);
                    client = (case pv_worker v of None \<Rightarrow> None | Some w \<Rightarrow> pw_client w)
                in v\<lparr>pv_next := Some (m, auto, client)\<rparr>)))"

definition on_publication_failed :: "publication_view \<Rightarrow> publication_view" where
  "on_publication_failed v =
     (let v1 = stop_auto v in
      case pv_active v1 of
        None \<Rightarrow> v1
      | Some (m, auto) \<Rightarrow>
          if batch_count m > 1 then confirm_publication m (batch_token ''publish-retry'' m) None v1 else v1)"

definition on_publication_finished :: "desk \<Rightarrow> publication_view \<Rightarrow> publication_view" where
  "on_publication_finished d v =
     (let v1 = v\<lparr>pv_worker := None, pv_active := None, pv_next := None\<rparr> in
      case pv_next v of
        None \<Rightarrow> v1\<lparr>pv_paths := None,
                    pv_deferred := pv_deferred v1 @ (if pv_review v1 \<noteq> None then [LaterReview] else [])\<rparr>
      | Some (m, auto, client) \<Rightarrow>
          if auto then start_publication d m True client v1
          else confirm_publication m (batch_token ''publish'' m) client v1)"

section \<open>Staging requests\<close>

definition start_action :: "desk \<Rightarrow> staging_action \<Rightarrow> publication_view \<Rightarrow> publication_view" where
  "start_action d act v =
     (if dk_running d \<or> busy v \<or> dk_connection d = None \<or> dk_workspace d = None then v
      else v\<lparr>pv_action := Some act\<rparr>)"

definition publish_staged :: "desk \<Rightarrow> string list option \<Rightarrow> publication_view \<Rightarrow> publication_view" where
  "publish_staged d paths v =
     (let chosen = (if paths = Some [] then None else paths)
      in start_action d (ActPublish chosen) (v\<lparr>pv_paths := chosen\<rparr>))"

definition on_staged_publication :: "publish_manifest option \<Rightarrow> publication_view \<Rightarrow> publication_view" where
  "on_staged_publication payload v =
     (case payload of
        None \<Rightarrow> v
      | Some m \<Rightarrow> if operations m = [] then v else confirm_publication m (batch_token ''publish-staged'' m) None v)"

definition resolve_conflict :: "desk \<Rightarrow> string \<Rightarrow> string \<Rightarrow> publication_view \<Rightarrow> publication_view" where
  "resolve_conflict d path choice v =
     (if choice \<notin> {''keep_staged'', ''take_host''} \<or> path = [] then v
      else start_action d (ActRebase [(choice, [path])]) v)"

definition request_discard :: "desk \<Rightarrow> publication_view \<Rightarrow> publication_view" where
  "request_discard d v =
     (case dk_workspace d of
        None \<Rightarrow> v
      | Some workspace \<Rightarrow>
          if dk_running d \<or> pv_discarding v then v
          else v\<lparr>pv_pending := AList.update (''discard-staging:'' @ workspace) ConfirmDiscard (pv_pending v)\<rparr>)"

definition start_discard :: "desk \<Rightarrow> publication_view \<Rightarrow> publication_view" where
  "start_discard d v =
     (if dk_connection d = None \<or> dk_workspace d = None then v else v\<lparr>pv_discarding := True\<rparr>)"

definition review_staging :: "desk \<Rightarrow> publication_view \<Rightarrow> publication_view" where
  "review_staging d v =
     (if dk_running d \<or> busy v \<or> dk_workspace d = None \<or> dk_connection d = None then v else v\<lparr>pv_inspecting := True\<rparr>)"

section \<open>The review pane\<close>

definition open_review :: "desk \<Rightarrow> publication_view \<Rightarrow> publication_view" where
  "open_review d v =
     (if pv_reviewing v \<or> dk_workspace d = None \<or> dk_connection d = None then v else v\<lparr>pv_reviewing := True\<rparr>)"

definition on_reviewed :: "string list \<Rightarrow> bool \<Rightarrow> publication_view \<Rightarrow> publication_view" where
  "on_reviewed changes truncated v =
     v\<lparr>pv_review := Some (changes, truncated),
       pv_selection := (case pv_review v of
           None \<Rightarrow> set changes
         | Some (previous, _) \<Rightarrow> (pv_selection v \<inter> set changes) \<union> (set changes - set previous))\<rparr>"

definition close_review :: "publication_view \<Rightarrow> publication_view" where
  "close_review v = v\<lparr>pv_review := None, pv_selection := {}\<rparr>"

definition review_changes :: "publication_view \<Rightarrow> string list" where
  "review_changes v = (case pv_review v of None \<Rightarrow> [] | Some (changes, _) \<Rightarrow> changes)"

definition set_review_selected :: "string \<Rightarrow> bool \<Rightarrow> publication_view \<Rightarrow> publication_view" where
  "set_review_selected path selected v =
     v\<lparr>pv_selection := (if selected then insert path (pv_selection v) else pv_selection v - {path})\<rparr>"

definition set_review_all :: "bool \<Rightarrow> publication_view \<Rightarrow> publication_view" where
  "set_review_all selected v = v\<lparr>pv_selection := (if selected then set (review_changes v) else {})\<rparr>"

definition publish_selection :: "desk \<Rightarrow> publication_view \<Rightarrow> publication_view" where
  "publish_selection d v =
     (let all_paths = set (review_changes v);
          selected = sort (filter (\<lambda>q. q \<in> pv_selection v) (remdups (review_changes v)));
          truncated = (case pv_review v of None \<Rightarrow> False | Some (_, t) \<Rightarrow> t)
      in if selected = [] then v
         else publish_staged d (if set selected \<noteq> all_paths \<or> truncated then Some selected else None) v)"

definition run_check :: "desk \<Rightarrow> string \<Rightarrow> publication_view \<Rightarrow> publication_view" where
  "run_check d name v =
     (if pv_check v \<noteq> None \<or> dk_running d \<or> pv_worker v \<noteq> None then v
      else if dk_connection d = None \<or> dk_workspace d = None then v
      else v\<lparr>pv_check := Some name\<rparr>)"

definition on_check_finished :: "publication_view \<Rightarrow> publication_view" where
  "on_check_finished v =
     v\<lparr>pv_check := None, pv_deferred := pv_deferred v @ (if pv_review v \<noteq> None then [LaterReview] else [])\<rparr>"

section \<open>Leaving a workspace\<close>

definition resolve_leave :: "string \<Rightarrow> publication_view \<Rightarrow> publication_view" where
  "resolve_leave choice v =
     (case pv_leave v of
        None \<Rightarrow> v
      | Some proceed \<Rightarrow>
          (let v1 = v\<lparr>pv_leave := None\<rparr> in
           if choice = ''keep'' then v1\<lparr>pv_deferred := pv_deferred v1 @ [LaterLeave proceed]\<rparr>
           else if choice = ''discard'' then v1\<lparr>pv_deferred := pv_deferred v1 @ [LaterDiscard proceed]\<rparr>
           else if choice = ''publish'' then v1\<lparr>pv_deferred := pv_deferred v1 @ [LaterPublish]\<rparr>
           else v1))"

definition guard_leave :: "desk \<Rightarrow> leave \<Rightarrow> publication_view \<Rightarrow> publication_view" where
  "guard_leave d proceed v =
     (if dk_connection d = None \<or> dk_workspace d = None \<or> \<not> dk_ready d \<or> busy v
      then v\<lparr>pv_left := pv_left v @ [proceed]\<rparr>
      else v\<lparr>pv_leave := Some proceed, pv_action := Some ActInspect\<rparr>)"

definition on_leave_inspected :: "bool \<Rightarrow> publication_view \<Rightarrow> publication_view" where
  "on_leave_inspected unpublished v = (if \<not> unpublished then resolve_leave ''keep'' v else v)"

text \<open>Dialogs of the host (\<open>resolveConfirmation\<close> in \<open>qml_backend.py\<close>): the token finds the call that was
  bound to the dialog.\<close>

definition accept_publication :: "desk \<Rightarrow> publish_manifest \<Rightarrow> publication_view \<Rightarrow> publication_view" where
  "accept_publication d m v =
     start_publication d m False (map_of (pv_clients v) (manifest_id m))
       (v\<lparr>pv_clients := AList.delete (manifest_id m) (pv_clients v)\<rparr>)"

definition resolve_confirmation :: "desk \<Rightarrow> string \<Rightarrow> bool \<Rightarrow> publication_view \<Rightarrow> publication_view" where
  "resolve_confirmation d tok accepted v =
     (case map_of (pv_pending v) tok of
        None \<Rightarrow> v
      | Some c \<Rightarrow>
          (let v1 = v\<lparr>pv_pending := AList.delete tok (pv_pending v)\<rparr> in
           if \<not> accepted then v1
           else (case c of
               ConfirmPublish m \<Rightarrow> accept_publication d m v1
             | ConfirmDiscard \<Rightarrow> start_discard d v1
             | ConfirmAuto \<Rightarrow> v1\<lparr>pv_auto := True\<rparr>)))"

text \<open>The first of the calls that were put off.\<close>

definition run_deferred :: "desk \<Rightarrow> publication_view \<Rightarrow> publication_view" where
  "run_deferred d v =
     (case pv_deferred v of
        [] \<Rightarrow> v
      | call # calls \<Rightarrow>
          (let v1 = v\<lparr>pv_deferred := calls\<rparr> in
           case call of
             LaterReview \<Rightarrow> open_review d v1
           | LaterLeave proceed \<Rightarrow> v1\<lparr>pv_left := pv_left v1 @ [proceed]\<rparr>
           | LaterDiscard proceed \<Rightarrow> start_discard d v1
           | LaterPublish \<Rightarrow> publish_staged d None v1))"

section \<open>Signals\<close>

datatype signal =
    Announced "publish_manifest option" string bool bool
  | PublicationComplete batch_result | PublicationFailed | PublicationFinished
  | ResolveConfirmation string bool | RequestAuto string bool
  | PublishStaged | PublishSelection | StagedPublication "publish_manifest option" | ActionFinished
  | Rebase | ResolveConflict string string | Rebased "string list"
  | RequestDiscard | Discarded "leave option" | DiscardFinished
  | ReviewStaging | Inspected "string list" | InspectFinished
  | OpenReview | Reviewed "string list" bool | ReviewFinished | CloseReview | SetSelected string bool | SetAll bool
  | RunCheck string | CheckFinished
  | GuardLeave leave | LeaveInspected bool | LeaveInspectionFailed | ResolveLeave string
  | Timer

fun view_step :: "desk \<times> signal \<Rightarrow> publication_view \<Rightarrow> publication_view" where
  "view_step (d, Announced payload tok auto auto_run) v = handle_manifest d payload tok auto (pv_auto v \<and> auto_run) v"
| "view_step (d, PublicationComplete res) v = on_publication_complete res v"
| "view_step (d, PublicationFailed) v = on_publication_failed v"
| "view_step (d, PublicationFinished) v = on_publication_finished d v"
| "view_step (d, ResolveConfirmation tok accepted) v = resolve_confirmation d tok accepted v"
| "view_step (d, RequestAuto tok enabled) v =
     (if enabled then v\<lparr>pv_pending := AList.update tok ConfirmAuto (pv_pending v)\<rparr> else stop_auto v)"
| "view_step (d, PublishStaged) v = publish_staged d None v"
| "view_step (d, PublishSelection) v = publish_selection d v"
| "view_step (d, StagedPublication payload) v = on_staged_publication payload v"
| "view_step (d, ActionFinished) v = v\<lparr>pv_action := None\<rparr>"
| "view_step (d, Rebase) v = start_action d (ActRebase []) v"
| "view_step (d, ResolveConflict path choice) v = resolve_conflict d path choice v"
| "view_step (d, Rebased conflicts) v = v\<lparr>pv_conflicts := conflicts\<rparr>"
| "view_step (d, RequestDiscard) v = request_discard d v"
| "view_step (d, Discarded after) v =
     v\<lparr>pv_deferred := pv_deferred v @ (case after of None \<Rightarrow> [] | Some proceed \<Rightarrow> [LaterLeave proceed])\<rparr>"
| "view_step (d, DiscardFinished) v = v\<lparr>pv_discarding := False\<rparr>"
| "view_step (d, ReviewStaging) v = review_staging d v"
| "view_step (d, Inspected conflicts) v = v\<lparr>pv_conflicts := conflicts\<rparr>"
| "view_step (d, InspectFinished) v = v\<lparr>pv_inspecting := False\<rparr>"
| "view_step (d, OpenReview) v = open_review d v"
| "view_step (d, Reviewed changes truncated) v = on_reviewed changes truncated v"
| "view_step (d, ReviewFinished) v = v\<lparr>pv_reviewing := False\<rparr>"
| "view_step (d, CloseReview) v = close_review v"
| "view_step (d, SetSelected path selected) v = set_review_selected path selected v"
| "view_step (d, SetAll selected) v = set_review_all selected v"
| "view_step (d, RunCheck name) v = run_check d name v"
| "view_step (d, CheckFinished) v = on_check_finished v"
| "view_step (d, GuardLeave proceed) v = guard_leave d proceed v"
| "view_step (d, LeaveInspected unpublished) v = on_leave_inspected unpublished v"
| "view_step (d, LeaveInspectionFailed) v = resolve_leave ''keep'' v"
| "view_step (d, ResolveLeave choice) v = resolve_leave choice v"
| "view_step (d, Timer) v = run_deferred d v"

text \<open>The view after a sequence of signals, each with the desktop it found.\<close>

definition view_after :: "(desk \<times> signal) list \<Rightarrow> publication_view" where
  "view_after es = fold view_step es new_view"

lemma view_after_snoc: "view_after (es @ [e]) = view_step e (view_after es)"
  by (simp add: view_after_def)

section \<open>What a handler can change\<close>

lemmas handler_defs = stop_auto_def confirm_publication_def start_action_def publish_staged_def on_staged_publication_def
  resolve_conflict_def request_discard_def start_discard_def review_staging_def open_review_def on_reviewed_def
  close_review_def set_review_selected_def set_review_all_def publish_selection_def run_check_def on_check_finished_def
  resolve_leave_def guard_leave_def on_leave_inspected_def Let_def

text \<open>Only three handlers start a publication; every other one leaves the worker, the batch in flight and the
  batch that waits as they are.\<close>

definition publishes :: "signal \<Rightarrow> bool" where
  "publishes e \<longleftrightarrow> (case e of Announced payload tok auto auto_run \<Rightarrow> auto | PublicationComplete res \<Rightarrow> True | PublicationFinished \<Rightarrow> True
     | ResolveConfirmation tok accepted \<Rightarrow> accepted | _ \<Rightarrow> False)"

definition core :: "publication_view \<Rightarrow> publication_worker option \<times> (publish_manifest \<times> bool) option \<times> (publish_manifest \<times> bool \<times> string option) option" where
  "core v = (pv_worker v, pv_active v, pv_next v)"

lemma core_update [simp]:
  shows "core (v\<lparr>pv_clients := x0\<rparr>) = core v"
    and "core (v\<lparr>pv_paths := x1\<rparr>) = core v"
    and "core (v\<lparr>pv_pending := x2\<rparr>) = core v"
    and "core (v\<lparr>pv_auto := x3\<rparr>) = core v"
    and "core (v\<lparr>pv_action := x4\<rparr>) = core v"
    and "core (v\<lparr>pv_discarding := x5\<rparr>) = core v"
    and "core (v\<lparr>pv_inspecting := x6\<rparr>) = core v"
    and "core (v\<lparr>pv_check := x7\<rparr>) = core v"
    and "core (v\<lparr>pv_reviewing := x8\<rparr>) = core v"
    and "core (v\<lparr>pv_review := x9\<rparr>) = core v"
    and "core (v\<lparr>pv_selection := x10\<rparr>) = core v"
    and "core (v\<lparr>pv_conflicts := x11\<rparr>) = core v"
    and "core (v\<lparr>pv_leave := x12\<rparr>) = core v"
    and "core (v\<lparr>pv_left := x13\<rparr>) = core v"
    and "core (v\<lparr>pv_deferred := x14\<rparr>) = core v"
  by (simp_all add: core_def)

lemma core_keeps [simp]:
  shows "core (stop_auto v) = core v"
    and "core (confirm_publication m tok client v) = core v"
    and "core (start_action d act v) = core v"
    and "core (publish_staged d paths v) = core v"
    and "core (on_staged_publication payload v) = core v"
    and "core (resolve_conflict d path choice v) = core v"
    and "core (request_discard d v) = core v"
    and "core (start_discard d v) = core v"
    and "core (review_staging d v) = core v"
    and "core (open_review d v) = core v"
    and "core (on_reviewed changes truncated v) = core v"
    and "core (close_review v) = core v"
    and "core (set_review_selected path selected v) = core v"
    and "core (set_review_all selected v) = core v"
    and "core (publish_selection d v) = core v"
    and "core (run_check d name v) = core v"
    and "core (on_check_finished v) = core v"
    and "core (resolve_leave choice v) = core v"
    and "core (guard_leave d proceed v) = core v"
    and "core (on_leave_inspected unpublished v) = core v"
    and "core (on_publication_failed v) = core v"
    and "core (run_deferred d v) = core v"
  by (simp_all add: handler_defs on_publication_failed_def run_deferred_def split: option.split deferred.split list.split)

lemma view_step_keeps: "\<not> publishes e \<Longrightarrow> core (view_step (d, e) v) = core v"
  by (cases e) (simp_all add: publishes_def handle_manifest_def resolve_confirmation_def Let_def split: option.split)

lemma start_publication_cases:
  assumes "v' = start_publication d m auto given v"
  obtains (blocked) "v' = v \<or> auto \<and> v' = stop_auto v"
  | (paused) client where "auto" "v' = confirm_publication m (batch_token ''publish-flagged'' m) client v"
  | (started) workspace client where "dk_workspace d = Some workspace" "pv_worker v = None" "auto \<longrightarrow> client \<noteq> None"
      "auto \<longrightarrow> \<not> needs_confirmation (desk_risk d m)"
      "v' = v\<lparr>pv_worker := Some \<lparr>pw_manifest = m, pw_auto = auto, pw_workspace = workspace, pw_client = client,
                pw_paths = pv_paths v, pw_required = (if auto then verify_before_publish (dk_policy d) else []),
                pw_never = pol_never_publish (dk_policy d)\<rparr>, pv_active := Some (m, auto)\<rparr>"
  using assms unfolding start_publication_def Let_def by (auto split: option.splits if_splits)

text \<open>What the desktop must have been asked for when a worker starts.\<close>

definition starts :: "desk \<times> signal \<Rightarrow> publication_view \<Rightarrow> publication_worker \<Rightarrow> bool" where
  "starts x v w \<longleftrightarrow>
     dk_workspace (fst x) = Some (pw_workspace w) \<and> pw_never w = pol_never_publish (dk_policy (fst x)) \<and>
     (if pw_auto w
      then pw_client w \<noteq> None \<and> \<not> needs_confirmation (desk_risk (fst x) (pw_manifest w))
           \<and> pw_required w = verify_before_publish (dk_policy (fst x))
           \<and> ((\<exists>tok. snd x = Announced (Some (pw_manifest w)) tok True True \<and> pv_auto v)
              \<or> snd x = PublicationFinished \<and> (\<exists>client. pv_next v = Some (pw_manifest w, True, client)))
      else (\<exists>tok. snd x = ResolveConfirmation tok True \<and> map_of (pv_pending v) tok = Some (ConfirmPublish (pw_manifest w))))"

lemma start_publication_worker:
  assumes "pv_worker (start_publication d m auto given v) = Some w"
  shows "pv_worker v = Some w \<or> dk_workspace d = Some (pw_workspace w) \<and> pw_never w = pol_never_publish (dk_policy d)
    \<and> pw_manifest w = m \<and> pw_auto w = auto
    \<and> (auto \<longrightarrow> pw_client w \<noteq> None \<and> \<not> needs_confirmation (desk_risk d m) \<and> pw_required w = verify_before_publish (dk_policy d))"
proof -
  have "start_publication d m auto given v = start_publication d m auto given v" by simp
  then show ?thesis
  proof (cases rule: start_publication_cases)
  case blocked
  with assms show ?thesis by (auto simp: stop_auto_def)
next
  case (paused client)
  with assms show ?thesis by (simp add: confirm_publication_def)
next
  case (started workspace client)
  with assms show ?thesis by auto
qed
qed

lemma view_step_worker:
  assumes "pv_worker (view_step x v) = Some w"
  shows "pv_worker v = Some w \<or> starts x v w"
proof -
  obtain d e where x: "x = (d, e)" by (rule prod.exhaust)
  show ?thesis
  proof (cases "publishes e")
    case False
    with assms view_step_keeps[OF False, of d v] show ?thesis by (simp add: x core_def)
  next
    case True
    then consider (announced) payload tok auto_run where "e = Announced payload tok True auto_run"
      | (complete) res where "e = PublicationComplete res" | (finished) "e = PublicationFinished"
      | (resolved) tok where "e = ResolveConfirmation tok True"
      by (cases e) (auto simp: publishes_def)
    then show ?thesis
    proof cases
      case announced
      then show ?thesis using assms start_publication_worker[of d _ True None v w]
        by (auto simp: x handle_manifest_def starts_def stop_auto_def split: option.splits if_splits)
    next
      case complete
      then show ?thesis using assms
        by (auto simp: x on_publication_complete_def stop_auto_def Let_def split: sum.splits option.splits)
    next
      case finished
      then show ?thesis using assms start_publication_worker[of d _ True _ "v\<lparr>pv_worker := None, pv_active := None, pv_next := None\<rparr>" w]
        by (force simp: x on_publication_finished_def starts_def confirm_publication_def Let_def split: option.splits if_splits)
    next
      case resolved
      then obtain c where c: "map_of (pv_pending v) tok = Some c" if "pv_worker v \<noteq> Some w"
        using assms by (cases "map_of (pv_pending v) tok") (auto simp: x resolve_confirmation_def)
      have core: "pv_worker (start_discard d u) = pv_worker u" for u
        using core_keeps(8)[of d u] by (simp add: core_def)
      show ?thesis
      proof (cases "pv_worker v = Some w")
        case False
        note c = c[OF False]
        show ?thesis
        proof (cases c)
          case (ConfirmPublish m)
          with assms c resolved start_publication_worker[of d m False _ _ w] False show ?thesis
            by (fastforce simp: x resolve_confirmation_def accept_publication_def starts_def Let_def)
        qed (use assms c resolved False in \<open>auto simp: x resolve_confirmation_def Let_def core\<close>)
      qed simp
    qed
  qed
qed

section \<open>Where a publication comes from\<close>

text \<open>Auto is on: the user accepted the dialog for it, and since then has not switched it off and no batch has
  failed.\<close>

definition auto_enabled :: "(desk \<times> signal) list \<Rightarrow> bool" where
  "auto_enabled es \<longleftrightarrow> (\<exists>es0 d tok es1. es = es0 @ (d, ResolveConfirmation tok True) # es1
     \<and> map_of (pv_pending (view_after es0)) tok = Some ConfirmAuto
     \<and> (\<forall>x\<in>set es1. snd x \<noteq> PublicationFailed \<and> (\<forall>t. snd x \<noteq> RequestAuto t False)))"

text \<open>The manifest follows on a batch that was published for Auto, while Auto was on.\<close>

definition continues :: "(desk \<times> signal) list \<Rightarrow> publish_manifest \<Rightarrow> bool" where
  "continues es m \<longleftrightarrow> (\<exists>es0 d res m0 es1. es = es0 @ (d, PublicationComplete res) # es1
     \<and> br_marked res = Inr () \<and> br_next res = Some (Inr m) \<and> pv_active (view_after es0) = Some (m0, True) \<and> auto_enabled es0)"

lemma auto_enabled_snoc:
  assumes "auto_enabled es" and "snd x \<noteq> PublicationFailed" and "\<And>t. snd x \<noteq> RequestAuto t False"
  shows "auto_enabled (es @ [x])"
proof -
  obtain es0 d tok es1 where "es = es0 @ (d, ResolveConfirmation tok True) # es1"
    "map_of (pv_pending (view_after es0)) tok = Some ConfirmAuto"
    "\<forall>x\<in>set es1. snd x \<noteq> PublicationFailed \<and> (\<forall>t. snd x \<noteq> RequestAuto t False)"
    using assms(1) by (auto simp: auto_enabled_def)
  with assms(2,3) show ?thesis
    unfolding auto_enabled_def by (intro exI[of _ es0] exI[of _ d] exI[of _ tok] exI[of _ "es1 @ [x]"]) auto
qed

lemma continues_snoc: "continues es m \<Longrightarrow> continues (es @ [x]) m"
  unfolding continues_def by (metis append.assoc append_Cons)

lemma start_publication_auto: "pv_auto (start_publication d m auto given v) \<Longrightarrow> pv_auto v"
  by (auto simp: start_publication_def Let_def stop_auto_def confirm_publication_def split: option.splits if_splits)

lemma view_step_auto:
  assumes "pv_auto (view_step x v)"
  shows "pv_auto v \<and> snd x \<noteq> PublicationFailed \<and> (\<forall>t. snd x \<noteq> RequestAuto t False)
    \<or> (\<exists>tok. snd x = ResolveConfirmation tok True \<and> map_of (pv_pending v) tok = Some ConfirmAuto)"
proof -
  obtain d e where x: "x = (d, e)" by (rule prod.exhaust)
  have failed: "\<not> pv_auto (on_publication_failed v)"
    by (auto simp: on_publication_failed_def stop_auto_def confirm_publication_def Let_def split: option.split)
  show ?thesis
  proof (cases e)
    case (ResolveConfirmation tok accepted)
    with assms show ?thesis
      by (auto simp: x resolve_confirmation_def accept_publication_def start_discard_def Let_def
          dest: start_publication_auto split: option.splits confirmation.splits if_splits)
  next
    case (Announced payload tok auto auto_run)
    with assms show ?thesis
      by (auto simp: x handle_manifest_def confirm_publication_def stop_auto_def dest: start_publication_auto split: option.splits if_splits)
  next
    case PublicationFinished
    with assms show ?thesis
      by (auto simp: x on_publication_finished_def confirm_publication_def Let_def dest!: start_publication_auto split: option.splits if_splits)
  next
    case (PublicationComplete res)
    with assms show ?thesis
      by (auto simp: x on_publication_complete_def stop_auto_def Let_def split: sum.splits option.splits)
  qed (use assms failed in \<open>simp_all add: x handler_defs run_deferred_def split: option.splits deferred.splits list.splits if_splits\<close>)
qed

lemma auto_is_enabled: "pv_auto (view_after es) \<Longrightarrow> auto_enabled es"
proof (induction es rule: rev_induct)
  case Nil
  then show ?case by (simp add: view_after_def new_view_def)
next
  case (snoc x es)
  from view_step_auto[of x "view_after es"] snoc.prems
  consider "pv_auto (view_after es)" "snd x \<noteq> PublicationFailed" "\<forall>t. snd x \<noteq> RequestAuto t False"
    | tok where "snd x = ResolveConfirmation tok True" "map_of (pv_pending (view_after es)) tok = Some ConfirmAuto"
    by (auto simp: view_after_snoc)
  then show ?case
  proof cases
    case 1
    with snoc.IH auto_enabled_snoc show ?thesis by blast
  next
    case (2 tok)
    then show ?thesis
      unfolding auto_enabled_def by (intro exI[of _ es] exI[of _ "fst x"] exI[of _ tok] exI[of _ "[]"]) (cases x; simp)
  qed
qed

lemma start_publication_next: "pv_next (start_publication d m auto given v) = pv_next v"
  by (simp add: start_publication_def Let_def stop_auto_def confirm_publication_def split: option.split)

lemma view_step_next:
  assumes "pv_next (view_step x v) = Some (m, True, c)"
  shows "pv_next v = Some (m, True, c) \<or> (\<exists>res m0. snd x = PublicationComplete res \<and> br_marked res = Inr ()
    \<and> br_next res = Some (Inr m) \<and> pv_active v = Some (m0, True) \<and> pv_auto v)"
proof -
  obtain d e where x: "x = (d, e)" by (rule prod.exhaust)
  show ?thesis
  proof (cases "publishes e")
    case False
    with assms view_step_keeps[OF False, of d v] show ?thesis by (simp add: x core_def)
  next
    case True
    have core: "pv_next (start_discard d u) = pv_next u" "pv_next (stop_auto u) = pv_next u" "pv_next (confirm_publication m' t c' u) = pv_next u"
      for u m' t c' using core_keeps(8)[of d u] core_keeps(1)[of u] core_keeps(2)[of m' t c' u] by (simp_all add: core_def)
    from True show ?thesis
    proof (cases e)
      case (PublicationComplete res)
      with assms show ?thesis
        by (auto simp: x on_publication_complete_def core Let_def split: sum.splits option.splits)
    qed (use assms in \<open>auto simp: x publishes_def handle_manifest_def on_publication_finished_def resolve_confirmation_def
        accept_publication_def core start_publication_next Let_def split: option.splits confirmation.splits if_splits\<close>)
  qed
qed

lemma next_continues: "pv_next (view_after es) = Some (m, True, c) \<Longrightarrow> continues es m"
proof (induction es rule: rev_induct)
  case Nil
  then show ?case by (simp add: view_after_def new_view_def)
next
  case (snoc x es)
  from view_step_next[of x "view_after es" m c] snoc.prems
  consider "pv_next (view_after es) = Some (m, True, c)"
    | res m0 where "snd x = PublicationComplete res" "br_marked res = Inr ()" "br_next res = Some (Inr m)"
        "pv_active (view_after es) = Some (m0, True)" "pv_auto (view_after es)"
    by (auto simp: view_after_snoc)
  then show ?case
  proof cases
    case 1
    with snoc.IH continues_snoc show ?thesis by blast
  next
    case (2 res m0)
    with auto_is_enabled[of es] show ?thesis
      unfolding continues_def by (intro exI[of _ es] exI[of _ "fst x"] exI[of _ res] exI[of _ m0] exI[of _ "[]"]) (cases x; simp)
  qed
qed

text \<open>The signal that started the running worker, and nothing has ended it since.\<close>

lemma worker_begins:
  assumes "pv_worker (view_step x v) = Some w"
  shows "pv_worker v = Some w \<and> snd x \<noteq> PublicationFinished
    \<or> starts x v w \<and> (pv_worker v = None \<or> snd x = PublicationFinished)"
proof (cases "snd x = PublicationFinished")
  case True
  obtain d where x: "x = (d, PublicationFinished)" using True by (cases x) auto
  from assms obtain m client where n: "pv_next v = Some (m, True, client)"
    and s: "pv_worker (start_publication d m True client (v\<lparr>pv_worker := None, pv_active := None, pv_next := None\<rparr>)) = Some w"
    by (auto simp: x on_publication_finished_def confirm_publication_def Let_def split: option.splits if_splits)
  from start_publication_worker[OF s] n show ?thesis by (auto simp: x starts_def)
next
  case False
  from view_step_worker[OF assms] have "pv_worker v = Some w \<or> starts x v w \<and> pv_worker v \<noteq> Some w" by blast
  moreover have "pv_worker v = None" if "starts x v w" "pv_worker v \<noteq> Some w"
  proof (rule ccontr)
    assume "pv_worker v \<noteq> None"
    then have busy: "pv_worker (start_publication d m auto given u) = pv_worker v" if "pv_worker u = pv_worker v" for d m auto given u
      using that by (simp add: start_publication_def stop_auto_def Let_def split: option.split)
    from that(1) False obtain d where "(\<exists>tok. x = (d, Announced (Some (pw_manifest w)) tok True True) \<and> pv_auto v)
        \<or> (\<exists>tok. x = (d, ResolveConfirmation tok True) \<and> map_of (pv_pending v) tok = Some (ConfirmPublish (pw_manifest w)))"
      by (cases x) (auto simp: starts_def split: if_splits)
    then have "pv_worker (view_step x v) = pv_worker v"
      using busy by (auto simp: handle_manifest_def resolve_confirmation_def accept_publication_def Let_def)
    with assms that(2) show False by simp
  qed
  ultimately show ?thesis using False by blast
qed

lemma worker_since:
  assumes "pv_worker (view_after es) = Some w"
  shows "\<exists>es0 x es1. es = es0 @ x # es1 \<and> starts x (view_after es0) w
    \<and> (pv_worker (view_after es0) = None \<or> snd x = PublicationFinished)
    \<and> (\<forall>k. pv_worker (view_after (es0 @ x # take k es1)) = Some w) \<and> PublicationFinished \<notin> snd ` set es1"
  using assms
proof (induction es rule: rev_induct)
  case Nil
  then show ?case by (simp add: view_after_def new_view_def)
next
  case (snoc x es)
  from worker_begins[of x "view_after es" w] snoc.prems
  consider "pv_worker (view_after es) = Some w" "snd x \<noteq> PublicationFinished"
    | "starts x (view_after es) w" "pv_worker (view_after es) = None \<or> snd x = PublicationFinished"
    by (auto simp: view_after_snoc)
  then show ?case
  proof cases
    case 1
    with snoc.IH obtain es0 y es1 where s: "es = es0 @ y # es1" "starts y (view_after es0) w"
      "pv_worker (view_after es0) = None \<or> snd y = PublicationFinished"
      "\<And>k. pv_worker (view_after (es0 @ y # take k es1)) = Some w" "PublicationFinished \<notin> snd ` set es1" by blast
    have "pv_worker (view_after (es0 @ y # take k (es1 @ [x]))) = Some w" for k
      using s(1) s(4)[of k] snoc.prems by (cases "k \<le> length es1") auto
    with s 1 show ?thesis by (intro exI[of _ es0] exI[of _ y] exI[of _ "es1 @ [x]"]) auto
  next
    case 2
    with snoc.prems show ?thesis by (intro exI[of _ es] exI[of _ x] exI[of _ "[]"]) simp
  qed
qed

lemma worker_started:
  "pv_worker (view_after es) = Some w \<Longrightarrow> \<exists>es0 x es1. es = es0 @ x # es1 \<and> starts x (view_after es0) w"
  using worker_since by blast

text \<open>Claim C5. Whatever signals arrive in whatever order, a running publication was started in one of three ways: the
  user accepted a dialog that was bound to exactly its manifest; or an agent run announced the manifest
  for Auto while the Auto that the user had enabled was on; or it follows on a batch that was published that
  way.  In the last two cases there is a gateway, no operation needs a confirmation, and the worker has to
  find the policy's checks passed; in all cases it has the policy's withheld globs.\<close>

theorem publication_is_approved:
  assumes "pv_worker (view_after es) = Some w"
  shows "\<exists>es0 d e es1. es = es0 @ (d, e) # es1 \<and> dk_workspace d = Some (pw_workspace w)
    \<and> pw_never w = pol_never_publish (dk_policy d)
    \<and> (if pw_auto w
       then ((\<exists>tok. e = Announced (Some (pw_manifest w)) tok True True) \<and> auto_enabled es0
              \<or> e = PublicationFinished \<and> continues es0 (pw_manifest w))
            \<and> pw_client w \<noteq> None \<and> \<not> needs_confirmation (desk_risk d (pw_manifest w))
            \<and> pw_required w = verify_before_publish (dk_policy d)
       else \<exists>tok. e = ResolveConfirmation tok True \<and> map_of (pv_pending (view_after es0)) tok = Some (ConfirmPublish (pw_manifest w)))"
proof -
  obtain es0 x es1 where s: "es = es0 @ x # es1" "starts x (view_after es0) w" using worker_started[OF assms] by blast
  obtain d e where x: "x = (d, e)" by (rule prod.exhaust)
  show ?thesis
  proof (intro exI conjI)
    show "es = es0 @ (d, e) # es1" using s(1) x by simp
    show "if pw_auto w
       then ((\<exists>tok. e = Announced (Some (pw_manifest w)) tok True True) \<and> auto_enabled es0
              \<or> e = PublicationFinished \<and> continues es0 (pw_manifest w))
            \<and> pw_client w \<noteq> None \<and> \<not> needs_confirmation (desk_risk d (pw_manifest w))
            \<and> pw_required w = verify_before_publish (dk_policy d)
       else \<exists>tok. e = ResolveConfirmation tok True \<and> map_of (pv_pending (view_after es0)) tok = Some (ConfirmPublish (pw_manifest w))"
      using s(2) next_continues[of es0] auto_is_enabled[of es0] by (cases "pw_auto w") (auto simp: starts_def x)
  qed (use s(2) x in \<open>auto simp: starts_def\<close>)
qed

text \<open>Claim C6. An unattended publication that changes anything on the host is guarded by the policy that was in force when
  its worker started: there was the signal that started it, an announced batch or the end of the batch before,
  and it has been running ever since; by the policy of the desktop at that signal every required check had passed on the
  staged snapshot, nothing it publishes runs on the host, changes a dependency file or touches the policy, and
  no withheld path is among its files.\<close>

theorem auto_publication_is_guarded:
  assumes "pv_worker (view_after es) = Some w" and "pw_auto w" and "new_manifest m = Inr (pw_manifest w)"
    and "publish_batch B bk E ids (pw_required w) checked paths (pw_manifest w) x = (r, x')"
    and "bk_never_publish bk = pw_never w" and "w_host x' \<noteq> w_host x"
  shows "\<exists>es0 d e es1. es = es0 @ (d, e) # es1
    \<and> ((\<exists>tok. e = Announced (Some (pw_manifest w)) tok True True) \<and> pv_worker (view_after es0) = None \<or> e = PublicationFinished)
    \<and> (\<forall>k. pv_worker (view_after (es0 @ (d, e) # take k es1)) = Some w) \<and> PublicationFinished \<notin> snd ` set es1
    \<and> (\<forall>name\<in>set (verify_before_publish (dk_policy d)). \<exists>results. checked = Some results \<and> check_passed results name)
    \<and> (\<forall>p\<in>set (operations (pw_manifest w)).
        \<not> runs_on_host (dk_json d) (dk_toml d) (base_text_for (dk_reader d) p) p
        \<and> \<not> matches_name (posix_name (casefold (op_path p))) DEPENDENCY_NAMES
        \<and> \<not> under_policy_directory (casefold (op_path p))
        \<and> (\<exists>n. normalize_relative (b_nfc B) [] False (op_path p) = Inr n
               \<and> \<not> matches_publish_glob n (pol_never_publish (dk_policy d))))"
proof -
  obtain es0 y es1 where s: "es = es0 @ y # es1" "starts y (view_after es0) w"
    "pv_worker (view_after es0) = None \<or> snd y = PublicationFinished"
    "\<forall>k. pv_worker (view_after (es0 @ y # take k es1)) = Some w" "PublicationFinished \<notin> snd ` set es1"
    using worker_since[OF assms(1)] by blast
  obtain d e where y: "y = (d, e)" by (rule prod.exhaust)
  have v: "verify_checks (pw_required w) checked = Inr ()"
    and "\<exists>u. publish B bk (pw_manifest w) (map op_path (operations (pw_manifest w))) (w_host x) = Inr u"
    using assms(4,6) by (auto simp: publish_batch_def verify_checks_def split: sum.splits if_splits)
  then have "check_manifest B bk (pw_manifest w) (map op_path (operations (pw_manifest w))) = Inr ()"
    by (auto simp: publish_def)
  then obtain ns where n: "map_res (normalize_relative (b_nfc B) [] False \<circ> op_path) (operations (pw_manifest w)) = Inr ns"
    "\<forall>z\<in>set ns. \<not> matches_publish_glob z (bk_never_publish bk)" by (rule check_manifest_Inr)
  then have names: "\<exists>z. normalize_relative (b_nfc B) [] False (op_path p) = Inr z \<and> \<not> matches_publish_glob z (pw_never w)"
    if "p \<in> set (operations (pw_manifest w))" for p
    using that assms(5) by (fastforce simp: map_res_Inr list_all2_conv_all_nth in_set_conv_nth)
  have checks: "\<exists>results. checked = Some results \<and> check_passed results name" if "name \<in> set (pw_required w)" for name
    using v that by (auto simp: verify_checks_def ensure_def list_all_iff split: if_splits option.splits)
  have g: "\<not> needs_confirmation (desk_risk d (pw_manifest w))" "pw_required w = verify_before_publish (dk_policy d)"
    "pw_never w = pol_never_publish (dk_policy d)"
    "(\<exists>tok. e = Announced (Some (pw_manifest w)) tok True True) \<and> pv_worker (view_after es0) = None \<or> e = PublicationFinished"
    using s(2,3) assms(2) by (auto simp: starts_def y)
  then have "\<forall>p\<in>set (operations (pw_manifest w)).
      \<not> runs_on_host (dk_json d) (dk_toml d) (base_text_for (dk_reader d) p) p
      \<and> \<not> matches_name (posix_name (casefold (op_path p))) DEPENDENCY_NAMES \<and> \<not> under_policy_directory (casefold (op_path p))"
    using confirmation_needed_iff[OF assms(3)] by (auto simp: desk_risk_def)
  with g(2-4) s(1,4,5) names checks show ?thesis
    by (intro exI[of _ es0] exI[of _ d] exI[of _ e] exI[of _ es1]) (simp add: y)
qed

section \<open>What a selection is for\<close>

text \<open>Only a new request to publish replaces the selected paths, and only the end of a publication forgets them.\<close>

definition keeps_selection :: "signal \<Rightarrow> bool" where
  "keeps_selection e \<longleftrightarrow>
     e \<noteq> PublishStaged \<and> e \<noteq> PublishSelection \<and> e \<noteq> PublicationFinished \<and> e \<noteq> ResolveLeave ''publish''"

definition selected_for :: "string list \<Rightarrow> publication_view \<Rightarrow> bool" where
  "selected_for ps v \<longleftrightarrow> pv_paths v = Some ps \<and> LaterPublish \<notin> set (pv_deferred v)
     \<and> (\<forall>w. pv_worker v = Some w \<longrightarrow> pw_paths w = Some ps)"

lemma start_publication_selected: "selected_for ps v \<Longrightarrow> selected_for ps (start_publication d m auto given v)"
  by (auto simp: start_publication_def selected_for_def stop_auto_def confirm_publication_def Let_def split: option.splits)

lemma view_step_selected:
  assumes "selected_for ps v" and "keeps_selection (snd x)"
  shows "selected_for ps (view_step x v)"
proof -
  obtain d e where x: "x = (d, e)" by (rule prod.exhaust)
  show ?thesis
  proof (cases e)
    case (Announced payload tok auto auto_run)
    with assms(1) start_publication_selected[OF assms(1)] show ?thesis
      by (auto simp: x handle_manifest_def selected_for_def stop_auto_def confirm_publication_def split: option.splits)
  next
    case (ResolveConfirmation tok accepted)
    have "selected_for ps (v\<lparr>pv_pending := p, pv_clients := c\<rparr>)" for p c using assms(1) by (simp add: selected_for_def)
    from start_publication_selected[OF this] assms(1) ResolveConfirmation show ?thesis
      by (auto simp: x resolve_confirmation_def accept_publication_def start_discard_def selected_for_def Let_def
          split: option.splits confirmation.splits)
  next
    case (PublicationComplete res)
    with assms(1) show ?thesis
      by (auto simp: x on_publication_complete_def selected_for_def stop_auto_def Let_def split: sum.splits option.splits)
  next
    case Timer
    with assms(1) show ?thesis
      by (cases "pv_deferred v")
        (auto simp: x run_deferred_def selected_for_def open_review_def start_discard_def Let_def split: deferred.splits)
  qed (use assms in \<open>auto simp: x keeps_selection_def selected_for_def handler_defs on_publication_failed_def split: option.splits\<close>)
qed

lemma view_steps_selected:
  "selected_for ps v \<Longrightarrow> \<forall>x\<in>set fs. keeps_selection (snd x) \<Longrightarrow> selected_for ps (fold view_step fs v)"
  by (induction fs arbitrary: v) (auto intro: view_step_selected)

text \<open>Claim C26. A partial selection outlives its dialog: once the user has asked to publish some of the files, then whatever
  signals follow, the user declining that very dialog among them, and as long as nothing else is asked to be
  published and no publication ends, every publication that starts is started with that selection: one
  that an agent run announces for Auto as well; and the batch it asks for next holds nothing but selected files.\<close>

theorem declined_selection_binds_next_publication:
  assumes "pv_action (view_step (d, PublishSelection) v) = Some (ActPublish (Some chosen))" and "\<not> busy v"
    and "LaterPublish \<notin> set (pv_deferred v)" and "\<forall>x\<in>set fs. keeps_selection (snd x)"
    and "u = fold view_step ((d, PublishSelection) # fs) v"
  shows "(\<forall>w. pv_worker u = Some w \<longrightarrow> pw_paths w = Some chosen
      \<and> (\<forall>B bk E ids checked x res x' m2. publish_batch B bk E ids (pw_required w) checked (paths_given (pw_paths w)) (pw_manifest w) x
            = (Inr res, x') \<longrightarrow> br_next res = Some (Inr m2) \<longrightarrow> receipt_paths m2 \<subseteq> normal_paths E chosen))
    \<and> (\<forall>d' m tok. pv_worker u = None \<and> pv_auto u \<and> dk_workspace d' \<noteq> None \<and> dk_connection d' \<noteq> None
          \<and> \<not> needs_confirmation (desk_risk d' m)
        \<longrightarrow> (\<exists>w. pv_worker (view_step (d', Announced (Some m) tok True True) u) = Some w
              \<and> pw_manifest w = m \<and> pw_paths w = Some chosen))"
proof -
  let ?v = "view_step (d, PublishSelection) v"
  have ne: "chosen \<noteq> []" and "selected_for chosen ?v"
    using assms(1-3)
    by (auto simp: publish_selection_def publish_staged_def start_action_def busy_def selected_for_def Let_def split: if_splits)
  with view_steps_selected assms(4,5) have u: "selected_for chosen u" by simp
  have worker: "pw_paths w = Some chosen" if "pv_worker u = Some w" for w using u that by (simp add: selected_for_def)
  have "\<exists>w. pv_worker (view_step (d', Announced (Some m) tok True True) u) = Some w \<and> pw_manifest w = m \<and> pw_paths w = Some chosen"
    if "pv_worker u = None" "pv_auto u" "dk_workspace d' \<noteq> None" "dk_connection d' \<noteq> None" "\<not> needs_confirmation (desk_risk d' m)"
    for d' m tok
    using that u by (auto simp: handle_manifest_def start_publication_def selected_for_def Let_def)
  with worker next_batch_selected[OF _ ne] show ?thesis by (metis (no_types, lifting))
qed

section \<open>Examples\<close>

definition desk_policy :: workspace_policy where
  "desk_policy = default_policy\<lparr>verify_before_publish := [''t''], pol_never_publish := bk_never_publish demo_broker\<rparr>"

definition demo_desk :: desk where
  "demo_desk = \<lparr>dk_workspace = Some ''w'', dk_connection = Some ''c'', dk_ready = True, dk_running = False,
     dk_policy = desk_policy, dk_reader = (\<lambda>_. None), dk_json = (\<lambda>_. None), dk_toml = (\<lambda>_. None)\<rparr>"

definition demo_signals :: "(desk \<times> signal) list" where
  "demo_signals = [(demo_desk, RequestAuto ''auto'' True), (demo_desk, ResolveConfirmation ''auto'' True),
     (demo_desk, Announced (Some demo_manifest) ''p'' True True)]"

definition demo_worker :: publication_worker where
  "demo_worker = \<lparr>pw_manifest = demo_manifest, pw_auto = True, pw_workspace = ''w'', pw_client = Some ''c'',
     pw_paths = None, pw_required = [''t''], pw_never = bk_never_publish demo_broker\<rparr>"

lemma demo_harmless: "\<not> needs_confirmation (desk_risk demo_desk demo_manifest)"
  by code_simp

lemma demo_worker_runs: "pv_worker (view_after demo_signals) = Some demo_worker"
  using demo_harmless
  by (simp add: view_after_def demo_signals_def new_view_def resolve_confirmation_def handle_manifest_def start_publication_def
      demo_worker_def demo_desk_def desk_policy_def)

theorem publication_is_approved_witness:
  "\<exists>es0 es1 tok. demo_signals = es0 @ (demo_desk, Announced (Some demo_manifest) tok True True) # es1 \<and> auto_enabled es0"
proof -
  from publication_is_approved[OF demo_worker_runs] obtain es0 d e es1 where
    s: "demo_signals = es0 @ (d, e) # es1" "(\<exists>tok. e = Announced (Some demo_manifest) tok True True) \<and> auto_enabled es0 \<or> e = PublicationFinished"
    by (auto simp: demo_worker_def)
  have "(d, e) \<in> set demo_signals" by (simp add: s(1))
  then have "d = demo_desk" "e \<noteq> PublicationFinished" by (auto simp: demo_signals_def)
  with s show ?thesis by blast
qed

lemma demo_manifest_accepted: "\<exists>m. new_manifest m = Inr demo_manifest"
  using demo_manifest_is by (auto simp: executor_manifest_def split: if_splits pyval.splits)

lemma demo_host_changes: "w_host (snd demo_publish) \<noteq> w_host demo_world"
proof -
  have "\<not> Option.is_none (host_view (w_host (snd demo_publish)) [''b''])" by code_simp
  moreover have "Option.is_none (host_view (w_host demo_world) [''b''])" by code_simp
  ultimately show ?thesis by auto
qed

theorem auto_publication_is_guarded_witness:
  "\<not> under_policy_directory (casefold (op_path (hd (operations demo_manifest))))
   \<and> pv_worker (view_after (take 2 demo_signals)) = None \<and> check_passed [(''t'', ''passed'', True)] ''t''"
proof -
  have "map op_path (operations demo_manifest) = [''a'', ''b'']" by code_simp
  then have h: "hd (operations demo_manifest) \<in> set (operations demo_manifest)" by (intro hd_in_set) auto
  obtain m where m: "new_manifest m = Inr demo_manifest" using demo_manifest_accepted by blast
  have b: "publish_batch demo_broker_env demo_broker demo_env demo_ids (pw_required demo_worker) (Some [(''t'', ''passed'', True)]) PNone
      (pw_manifest demo_worker) demo_world = (Inr (projr (fst demo_publish)), snd demo_publish)"
    using demo_published(1)
    by (simp add: publish_batch_def verify_checks_def check_passed_def ensure_def demo_worker_def demo_ids_def)
  have "bk_never_publish demo_broker = pw_never demo_worker" "pw_auto demo_worker" "pw_manifest demo_worker = demo_manifest"
    by (simp_all add: demo_worker_def)
  from auto_publication_is_guarded[OF demo_worker_runs this(2) _ b this(1) demo_host_changes, of m] m this(3)
  obtain es0 d e es1 where s: "demo_signals = es0 @ (d, e) # es1"
    "(\<exists>tok. e = Announced (Some demo_manifest) tok True True) \<and> pv_worker (view_after es0) = None \<or> e = PublicationFinished"
    "\<forall>name\<in>set (verify_before_publish (dk_policy d)). \<exists>results. Some [(''t'', ''passed'', True)] = Some results \<and> check_passed results name"
    "\<forall>p\<in>set (operations demo_manifest). \<not> under_policy_directory (casefold (op_path p))"
    by (auto simp: Ball_def)
  have "(d, e) \<in> set demo_signals" by (simp add: s(1))
  then have d: "d = demo_desk" "e \<noteq> PublicationFinished" by (auto simp: demo_signals_def)
  with s(2) obtain tok where e: "e = Announced (Some demo_manifest) tok True True" and n: "pv_worker (view_after es0) = None" by blast
  have "es0 = take 2 demo_signals" using s(1) e by (auto simp: demo_signals_def Cons_eq_append_conv)
  with n h d s(3,4) show ?thesis by (simp add: demo_desk_def desk_policy_def)
qed

text \<open>The user selects one of two files, declines the dialog, and an agent run announces both for Auto.\<close>

theorem declined_selection_binds_next_publication_witness:
  "\<exists>v w. pv_worker v = None \<and> pv_worker (fold view_step [(demo_desk, PublishSelection), (demo_desk, StagedPublication (Some demo_manifest)),
      (demo_desk, ActionFinished), (demo_desk, ResolveConfirmation (batch_token ''publish-staged'' demo_manifest) False),
      (demo_desk, Announced (Some demo_manifest) ''p'' True True)] v) = Some w \<and> pw_manifest w = demo_manifest \<and> pw_paths w = Some [''a'']"
proof -
  let ?v = "new_view\<lparr>pv_auto := True, pv_review := Some ([''a'', ''b''], False), pv_selection := {''a''}\<rparr>"
  let ?fs = "[(demo_desk, StagedPublication (Some demo_manifest)), (demo_desk, ActionFinished),
      (demo_desk, ResolveConfirmation (batch_token ''publish-staged'' demo_manifest) False)]"
  let ?u = "fold view_step ((demo_desk, PublishSelection) # ?fs) ?v"
  have "pv_action (view_step (demo_desk, PublishSelection) ?v) = Some (ActPublish (Some [''a'']))"
    by (simp add: publish_selection_def publish_staged_def start_action_def review_changes_def busy_def new_view_def demo_desk_def Let_def)
  moreover have "\<not> busy ?v" "LaterPublish \<notin> set (pv_deferred ?v)" "\<forall>x\<in>set ?fs. keeps_selection (snd x)"
    by (simp_all add: busy_def new_view_def keeps_selection_def)
  ultimately have "\<forall>d' m tok. pv_worker ?u = None \<and> pv_auto ?u \<and> dk_workspace d' \<noteq> None \<and> dk_connection d' \<noteq> None
          \<and> \<not> needs_confirmation (desk_risk d' m)
        \<longrightarrow> (\<exists>w. pv_worker (view_step (d', Announced (Some m) tok True True) ?u) = Some w
              \<and> pw_manifest w = m \<and> pw_paths w = Some [''a''])"
    using declined_selection_binds_next_publication[of demo_desk ?v "[''a'']" ?fs ?u] by blast
  moreover have "pv_worker ?u = None \<and> pv_auto ?u"
    by (simp add: publish_selection_def publish_staged_def start_action_def review_changes_def busy_def new_view_def demo_desk_def
        on_staged_publication_def confirm_publication_def resolve_confirmation_def Let_def)
  moreover have "dk_workspace demo_desk \<noteq> None \<and> dk_connection demo_desk \<noteq> None" by (simp add: demo_desk_def)
  ultimately obtain w where "pv_worker (view_step (demo_desk, Announced (Some demo_manifest) ''p'' True True) ?u) = Some w"
    "pw_manifest w = demo_manifest" "pw_paths w = Some [''a'']" using demo_harmless by blast
  then show ?thesis by (intro exI[of _ ?v] exI[of _ w]) (simp add: new_view_def)
qed

end
