(* ===== verification/Journal.thy ===== *)
theory Journal
  imports Permissions
begin

text \<open>
  The journal of the gateway (\<open>server/journal/store.py\<close>): runs with their events and snapshots, and the saved
  permission rules.  A table is the list of its rows in the order of insertion, a failing constraint of
  SQLite an error; a transaction that fails changes nothing.  Payloads are the parsed JSON values, which
  their stored text gives back.  Event types are those of \<open>shared/events.py\<close>.
\<close>

section \<open>Tables\<close>

record run_row =
  rn_id :: string
  rn_mode :: string
  rn_state :: string
  rn_created :: string
  rn_updated :: string

record event_row =
  ev_run :: string
  ev_id :: nat
  ev_type :: string
  ev_at :: string
  ev_payload :: pydict

record run_snapshot =
  sn_request :: pydict
  sn_messages :: "pydict list"
  sn_visible :: "pydict list"
  sn_budget :: pydict
  sn_safe :: bool
  sn_at :: string

record rule_row =
  rr_id :: string
  rr_workspace :: string
  rr_mode :: string
  rr_tool :: string
  rr_path_prefix :: "string option"
  rr_executable :: "string option"
  rr_arguments :: "string list"
  rr_enabled :: bool

record journal =
  jr_runs :: "run_row list"
  jr_events :: "event_row list"
  jr_snapshots :: "(string \<times> run_snapshot) list"
  jr_rules :: "rule_row list"
  jr_notices :: "(string \<times> nat \<times> bool) list"
  jr_version :: int

record journal_config =
  jc_max_events :: nat
  jc_max_runs :: nat

definition empty_journal :: journal where
  "empty_journal = \<lparr>jr_runs = [], jr_events = [], jr_snapshots = [], jr_rules = [], jr_notices = [], jr_version = 0\<rparr>"

definition EVENT_TYPES :: "string list" where
  "EVENT_TYPES = [''run.created'', ''run.started'', ''run.paused'', ''run.resumed'', ''run.cancelled'', ''run.failed'',
     ''run.completed'', ''model.requested'', ''model.delta'', ''model.completed'', ''model.failed'',
     ''model.retry'', ''reasoning.effort_clamped'', ''model.narration'', ''model.stream'', ''plan.updated'',
     ''loop.note'', ''loop.output_truncated'', ''read.duplicate_batch'', ''secret.redacted'',
     ''web.requested'', ''usage.turn'', ''cache.unexpected_miss'', ''context.compacted'',
     ''context.high_water'', ''context.compaction_floor'', ''context.status_snapshot'',
     ''context.status_unavailable'', ''input.steered'', ''tool.result_bounded'', ''context.inspected'',
     ''session.replayed'', ''tool.requested'', ''tool.started'', ''tool.output'', ''tool.completed'',
     ''tool.failed'', ''approval.required'', ''approval.timeout'', ''usage.updated'', ''budget.exhausted'',
     ''checkpoint.created'', ''checkpoint.restored'', ''mutation.rollback'', ''publication.failed'',
     ''subagent.started'', ''subagent.tool_call'', ''subagent.tool_result'', ''subagent.completed'',
     ''subagent.failed'', ''subagent.executor_error'']"

definition TERMINAL_STATES :: "string list" where
  "TERMINAL_STATES = [''cancelled'', ''failed'', ''completed'']"

section \<open>Migration and notices\<close>

definition SCHEMA_VERSION :: int where "SCHEMA_VERSION = 1"

definition broad_bash_rule :: "rule_row \<Rightarrow> bool" where
  "broad_bash_rule r \<longleftrightarrow> rr_tool r = ''bash'' \<and> rr_executable r = None \<and> rr_enabled r"

text \<open>A notice is its identifier, the number in its text and whether it was acknowledged.\<close>

definition migrate :: "journal \<Rightarrow> journal" where
  "migrate j =
     (let n = length (filter broad_bash_rule (jr_rules j));
          j1 = (if jr_version j < 1 then
                  j\<lparr>jr_rules := map (\<lambda>r. if broad_bash_rule r then r\<lparr>rr_enabled := False\<rparr> else r) (jr_rules j),
                    jr_notices := (if n > 0 \<and> ''broad-bash-rules-disabled'' \<notin> fst ` set (jr_notices j)
                      then jr_notices j @ [(''broad-bash-rules-disabled'', n, False)] else jr_notices j)\<rparr>
                else j)
      in j1\<lparr>jr_version := SCHEMA_VERSION\<rparr>)"

definition acknowledge_notice :: "string \<Rightarrow> journal \<Rightarrow> bool \<times> journal" where
  "acknowledge_notice notice j =
     (notice \<in> fst ` set (jr_notices j),
      j\<lparr>jr_notices := map (\<lambda>(i, n, a). (i, n, a \<or> i = notice)) (jr_notices j)\<rparr>)"

section \<open>Runs and events\<close>

definition run_ids :: "journal \<Rightarrow> string list" where
  "run_ids j = map rn_id (jr_runs j)"

definition run_events :: "journal \<Rightarrow> string \<Rightarrow> event_row list" where
  "run_events j run = filter (\<lambda>e. ev_run e = run) (jr_events j)"

text \<open>The oldest finished runs go when there are too many; their events and snapshots go with them.\<close>

definition prune_runs :: "journal_config \<Rightarrow> journal \<Rightarrow> journal" where
  "prune_runs cfg j =
     (let finished = sort_key rn_updated (sort_key rn_id (filter (\<lambda>r. rn_state r \<in> set TERMINAL_STATES) (jr_runs j)));
          gone = map rn_id (take (length (jr_runs j) - jc_max_runs cfg) finished)
      in j\<lparr>jr_runs := filter (\<lambda>r. rn_id r \<notin> set gone) (jr_runs j),
           jr_events := filter (\<lambda>e. ev_run e \<notin> set gone) (jr_events j),
           jr_snapshots := filter (\<lambda>s. fst s \<notin> set gone) (jr_snapshots j)\<rparr>)"

definition create_run :: "journal_config \<Rightarrow> string \<Rightarrow> string \<Rightarrow> string \<Rightarrow> journal \<Rightarrow> exn + journal" where
  "create_run cfg run kind now j =
     (if run \<in> set (run_ids j) then Inl OtherErr
      else Inr (prune_runs cfg (j\<lparr>jr_runs := jr_runs j @
        [\<lparr>rn_id = run, rn_mode = kind, rn_state = ''created'', rn_created = now, rn_updated = now\<rparr>]\<rparr>)))"

definition prune_run :: "journal_config \<Rightarrow> string \<Rightarrow> journal \<Rightarrow> journal" where
  "prune_run cfg run j =
     (let ids = map ev_id (run_events j run);
          gone = take (length ids - jc_max_events cfg) (sort ids)
      in j\<lparr>jr_events := filter (\<lambda>e. \<not> (ev_run e = run \<and> ev_id e \<in> set gone)) (jr_events j)\<rparr>)"

definition run_state_of :: "string \<Rightarrow> string option" where
  "run_state_of kind =
     (if \<not> startswith kind ''run.'' then None
      else let s = drop 4 kind
        in if s = ''resumed'' then Some ''started''
           else if s \<in> {''started'', ''waiting'', ''paused'', ''cancelled'', ''failed'', ''completed''} then Some s
           else None)"

definition set_run_state :: "string \<Rightarrow> string option \<Rightarrow> string \<Rightarrow> run_row list \<Rightarrow> run_row list" where
  "set_run_state run new now runs =
     (case new of
        None \<Rightarrow> runs
      | Some s \<Rightarrow> map (\<lambda>r. if rn_id r = run then r\<lparr>rn_state := s, rn_updated := now\<rparr> else r) runs)"

definition next_event_id :: "journal \<Rightarrow> string \<Rightarrow> nat" where
  "next_event_id j run = Suc (fold max (map ev_id (run_events j run)) 0)"

definition journal_append ::
  "journal_config \<Rightarrow> string \<Rightarrow> string \<Rightarrow> string \<Rightarrow> pydict \<Rightarrow> journal \<Rightarrow> exn + event_row \<times> journal" where
  "journal_append cfg run kind now payload j =
     (if run = [] \<or> kind \<notin> set EVENT_TYPES then Inl ValueErr
      else if run \<notin> set (run_ids j) then Inl OtherErr
      else let event = \<lparr>ev_run = run, ev_id = next_event_id j run, ev_type = kind, ev_at = now, ev_payload = payload\<rparr>
        in Inr (event, prune_run cfg run (j\<lparr>jr_events := jr_events j @ [event],
             jr_runs := set_run_state run (run_state_of kind) now (jr_runs j)\<rparr>)))"

definition events_after :: "journal \<Rightarrow> string \<Rightarrow> nat \<Rightarrow> event_row list" where
  "events_after j run n = sort_key ev_id (filter (\<lambda>e. n < ev_id e) (run_events j run))"

definition is_terminal :: "journal \<Rightarrow> string \<Rightarrow> bool" where
  "is_terminal j run \<longleftrightarrow>
     (let events = events_after j run 0
      in events \<noteq> [] \<and> ev_type (last events) \<in> {''run.cancelled'', ''run.failed'', ''run.completed''})"

section \<open>Snapshots and recovery\<close>

definition save_run_snapshot :: "string \<Rightarrow> run_snapshot \<Rightarrow> journal \<Rightarrow> exn + journal" where
  "save_run_snapshot run s j =
     (if run \<notin> set (run_ids j) then Inl OtherErr
      else Inr (j\<lparr>jr_snapshots := AList.update run s (jr_snapshots j)\<rparr>))"

definition get_run :: "journal \<Rightarrow> string \<Rightarrow> run_row option" where
  "get_run j run = find (\<lambda>r. rn_id r = run) (jr_runs j)"

definition safe_to_resume :: "journal \<Rightarrow> string \<Rightarrow> bool" where
  "safe_to_resume j run = (case map_of (jr_snapshots j) run of None \<Rightarrow> False | Some s \<Rightarrow> sn_safe s)"

definition nonterminal_runs :: "journal \<Rightarrow> string list" where
  "nonterminal_runs j = map rn_id (filter (\<lambda>r. rn_state r \<notin> set TERMINAL_STATES) (jr_runs j))"

definition resumable_runs :: "journal \<Rightarrow> string list" where
  "resumable_runs j = map rn_id (sort_key rn_updated (filter (\<lambda>r. rn_state r = ''paused'' \<and> safe_to_resume j (rn_id r)) (jr_runs j)))"

definition can_resume :: "journal \<Rightarrow> string \<Rightarrow> bool" where
  "can_resume j run =
     (case get_run j run of None \<Rightarrow> False | Some r \<Rightarrow> rn_mode r \<in> {''plan'', ''agent''} \<and> safe_to_resume j run)"

definition recover_run :: "journal_config \<Rightarrow> string \<Rightarrow> string \<Rightarrow> string list \<times> journal \<Rightarrow> exn + string list \<times> journal" where
  "recover_run cfg now run st =
     (case st of (resumable, j) \<Rightarrow>
       if can_resume j run
       then rbind (journal_append cfg run ''run.paused'' now
              [(''reason'', PStr ''gateway.restarted''), (''resumable'', PBool True)] j) (\<lambda>(e, j'). Inr (resumable @ [run], j'))
       else rbind (journal_append cfg run ''run.failed'' now
              [(''code'', PStr ''gateway.restarted''), (''retryable'', PBool True)] j) (\<lambda>(e, j'). Inr (resumable, j')))"

definition recover_interrupted_runs :: "journal_config \<Rightarrow> string \<Rightarrow> journal \<Rightarrow> exn + string list \<times> journal" where
  "recover_interrupted_runs cfg now j = fold_res (recover_run cfg now) (nonterminal_runs j) ([], j)"

section \<open>Permission rules\<close>

text \<open>The table has no column for the decision of a rule.\<close>

definition rule_to_row :: "permission_rule \<Rightarrow> rule_row" where
  "rule_to_row r = \<lparr>rr_id = rule_id r, rr_workspace = rule_workspace r, rr_mode = rule_mode r, rr_tool = rule_tool r,
     rr_path_prefix = path_prefix r, rr_executable = executable r, rr_arguments = argument_prefix r, rr_enabled = enabled r\<rparr>"

definition save_permission_rule :: "permission_rule \<Rightarrow> journal \<Rightarrow> journal" where
  "save_permission_rule r j = j\<lparr>jr_rules := filter (\<lambda>row. rr_id row \<noteq> rule_id r) (jr_rules j) @ [rule_to_row r]\<rparr>"

definition text_or_none :: "string option \<Rightarrow> string option" where
  "text_or_none s = (if s = Some [] then None else s)"

definition row_to_rule :: "rule_row \<Rightarrow> permission_rule" where
  "row_to_rule row = \<lparr>rule_id = rr_id row, rule_decision = ALLOW_RULE, rule_workspace = rr_workspace row, rule_mode = rr_mode row,
     rule_tool = rr_tool row, path_prefix = text_or_none (rr_path_prefix row), executable = text_or_none (rr_executable row),
     argument_prefix = rr_arguments row, enabled = rr_enabled row\<rparr>"

definition permission_rules :: "string \<Rightarrow> bool \<Rightarrow> journal \<Rightarrow> permission_rule list" where
  "permission_rules ws include_disabled j =
     map row_to_rule (filter (\<lambda>row. rr_workspace row = ws \<and> (include_disabled \<or> rr_enabled row)) (jr_rules j))"

definition delete_permission_rule :: "string \<Rightarrow> journal \<Rightarrow> bool \<times> journal" where
  "delete_permission_rule i j =
     (i \<in> rr_id ` set (jr_rules j), j\<lparr>jr_rules := filter (\<lambda>row. rr_id row \<noteq> i) (jr_rules j)\<rparr>)"

definition set_permission_rule_enabled :: "string \<Rightarrow> bool \<Rightarrow> journal \<Rightarrow> bool \<times> journal" where
  "set_permission_rule_enabled i on j =
     (i \<in> rr_id ` set (jr_rules j),
      j\<lparr>jr_rules := map (\<lambda>row. if rr_id row = i then row\<lparr>rr_enabled := on\<rparr> else row) (jr_rules j)\<rparr>)"

text \<open>\<open>rule_for_request\<close>: the rule of an "always allow".\<close>

definition rule_for_request :: "(pyval \<Rightarrow> string) \<Rightarrow> tool_request \<Rightarrow> string \<Rightarrow> exn + permission_rule" where
  "rule_for_request repr r ws =
     (case (if tool r = ''bash'' then bash_command_tokens (command_of repr r) else (None, [])) of (exe, args) \<Rightarrow>
        if tool r = ''bash'' \<and> exe = None then Inl ValueErr
        else Inr \<lparr>rule_id = ''rule-'' @ request_id r, rule_decision = ALLOW_RULE, rule_workspace = ws, rule_mode = mode r,
               rule_tool = tool r, path_prefix = rule_scope repr r, executable = exe, argument_prefix = args, enabled = True\<rparr>)"

section \<open>Events are kept in order\<close>

text \<open>What has been appended to a run since it was created, as it is stored when nothing is pruned.\<close>

definition numbered :: "string \<Rightarrow> (string \<times> string \<times> pydict) list \<Rightarrow> event_row list" where
  "numbered run h = map (\<lambda>i. case h ! i of (kind, now, payload) \<Rightarrow>
     \<lparr>ev_run = run, ev_id = Suc i, ev_type = kind, ev_at = now, ev_payload = payload\<rparr>) [0..<length h]"

inductive journal_run :: "journal_config \<Rightarrow> journal \<Rightarrow> (string \<Rightarrow> (string \<times> string \<times> pydict) list) \<Rightarrow> bool" for cfg where
  opened: "journal_run cfg empty_journal (\<lambda>_. [])"
| migrated: "journal_run cfg (migrate j) H" if "journal_run cfg j H"
| run_created: "journal_run cfg j' (H(run := []))"
    if "journal_run cfg j H" "run \<noteq> []" "create_run cfg run kind now j = Inr j'"
| appended: "journal_run cfg j' (H(run := H run @ [(kind, now, payload)]))"
    if "journal_run cfg j H" "journal_append cfg run kind now payload j = Inr (e, j')"
| snapshot_saved: "journal_run cfg j' H" if "journal_run cfg j H" "save_run_snapshot run s j = Inr j'"
| rule_saved: "journal_run cfg (save_permission_rule r j) H" if "journal_run cfg j H"
| rule_deleted: "journal_run cfg (snd (delete_permission_rule i j)) H" if "journal_run cfg j H"
| rule_switched: "journal_run cfg (snd (set_permission_rule_enabled i on j)) H" if "journal_run cfg j H"

definition journal_ok :: "journal_config \<Rightarrow> journal \<Rightarrow> (string \<Rightarrow> (string \<times> string \<times> pydict) list) \<Rightarrow> bool" where
  "journal_ok cfg j H \<longleftrightarrow>
     distinct (run_ids j) \<and> [] \<notin> set (run_ids j) \<and> ev_run ` set (jr_events j) \<subseteq> set (run_ids j)
     \<and> (\<forall>run\<in>set (run_ids j). run_events j run = drop (length (H run) - jc_max_events cfg) (numbered run (H run)))"

lemma numbered_length [simp]: "length (numbered run h) = length h"
  by (simp add: numbered_def)

lemma numbered_ids: "map ev_id (numbered run h) = [1..<Suc (length h)]"
  by (rule nth_equalityI) (simp_all add: numbered_def split_beta del: upt_Suc)

lemma numbered_snoc:
  "numbered run (h @ [(kind, now, payload)]) =
     numbered run h @ [\<lparr>ev_run = run, ev_id = Suc (length h), ev_type = kind, ev_at = now, ev_payload = payload\<rparr>]"
  by (simp add: numbered_def nth_append)

lemma max_id:
  assumes "0 < k"
  shows "fold max (map ev_id (drop (length h - k) (numbered run h))) 0 = length h"
proof -
  have "map ev_id (drop (length h - k) (numbered run h)) = [Suc (length h - k)..<Suc (length h)]"
    by (simp add: drop_map[symmetric] numbered_ids del: upt_Suc)
  then have "fold max (map ev_id (drop (length h - k) (numbered run h))) 0 = Max (insert 0 {Suc (length h - k)..<Suc (length h)})"
    using Max.set_eq_fold[of "0 :: nat" "[Suc (length h - k)..<Suc (length h)]"] by (simp del: upt_Suc)
  also have "\<dots> = length h"
  proof -
    have "h = [] \<or> Suc (length h - k) \<le> length h" using assms by (cases h) auto
    then show ?thesis by (intro Max_eqI) auto
  qed
  finally show ?thesis .
qed

lemma drop_ids:
  assumes "distinct (map ev_id es)"
  shows "filter (\<lambda>e. ev_id e \<notin> set (take k (map ev_id es))) es = drop k es"
  using assms
proof (induction es arbitrary: k)
  case (Cons e es)
  show ?case
  proof (cases k)
    case (Suc k')
    have "filter (\<lambda>x. ev_id x \<notin> set (take k (map ev_id (e # es)))) es = filter (\<lambda>x. ev_id x \<notin> set (take k' (map ev_id es))) es"
      using Cons.prems by (intro filter_cong) (auto simp: Suc intro: rev_image_eqI)
    with Cons.IH[of k'] Cons.prems show ?thesis by (simp add: Suc)
  qed simp
qed simp

lemma set_run_state_ids [simp]: "map rn_id (set_run_state run new now runs) = map rn_id runs"
  by (induction runs) (auto simp: set_run_state_def split: option.split)

lemma journal_append_cases:
  assumes "journal_append cfg run kind now payload j = Inr (e, j')"
  shows "run \<noteq> [] \<and> run \<in> set (run_ids j) \<and> e = \<lparr>ev_run = run, ev_id = next_event_id j run, ev_type = kind, ev_at = now, ev_payload = payload\<rparr>
    \<and> j' = prune_run cfg run (j\<lparr>jr_events := jr_events j @ [e], jr_runs := set_run_state run (run_state_of kind) now (jr_runs j)\<rparr>)"
  using assms by (auto simp: journal_append_def Let_def split: if_splits)

lemma append_keeps:
  assumes "journal_ok cfg j H" and "0 < jc_max_events cfg" and "journal_append cfg run kind now payload j = Inr (e, j')"
  shows "journal_ok cfg j' (H(run := H run @ [(kind, now, payload)]))"
proof -
  let ?k = "jc_max_events cfg" and ?h = "H run" and ?h' = "H run @ [(kind, now, payload)]"
  note c = journal_append_cases[OF assms(3)]
  let ?j1 = "j\<lparr>jr_events := jr_events j @ [e], jr_runs := set_run_state run (run_state_of kind) now (jr_runs j)\<rparr>"
  have ids: "run_ids j' = run_ids j" using c by (simp add: run_ids_def prune_run_def Let_def)
  have before: "run_events j run = drop (length ?h - ?k) (numbered run ?h)" using assms(1) c by (simp add: journal_ok_def)
  have "e = \<lparr>ev_run = run, ev_id = Suc (length ?h), ev_type = kind, ev_at = now, ev_payload = payload\<rparr>"
    using c max_id[OF assms(2), of ?h run] by (simp add: next_event_id_def before)
  then have one: "run_events ?j1 run = drop (length ?h - ?k) (numbered run ?h')"
    using before c by (simp add: run_events_def numbered_snoc)
  have i: "map ev_id (run_events ?j1 run) = [Suc (length ?h - ?k)..<Suc (length ?h')]"
    unfolding one by (simp add: drop_map[symmetric] numbered_ids del: upt_Suc)
  have s: "sort (map ev_id (run_events ?j1 run)) = map ev_id (run_events ?j1 run)" "distinct (map ev_id (run_events ?j1 run))"
    unfolding i by (simp_all add: sorted_sort_id del: upt_Suc)
  define gone where "gone = take (length (run_events ?j1 run) - ?k) (map ev_id (run_events ?j1 run))"
  have j': "jr_events j' = filter (\<lambda>x. \<not> (ev_run x = run \<and> ev_id x \<in> set gone)) (jr_events j @ [e])"
    using c s(1) by (simp add: prune_run_def Let_def gone_def)
  have "run_events j' run = filter (\<lambda>x. ev_id x \<notin> set gone) (run_events ?j1 run)"
    unfolding run_events_def j' filter_filter by (simp, intro conjI impI filter_cong) auto
  also have "\<dots> = drop (length (run_events ?j1 run) - ?k) (run_events ?j1 run)" unfolding gone_def by (rule drop_ids[OF s(2)])
  also have "\<dots> = drop (length ?h' - ?k) (numbered run ?h')" unfolding one drop_drop by (rule arg_cong[where f = "\<lambda>n. drop n (numbered run ?h')"])
    (use assms(2) in \<open>cases "?k \<le> length ?h"; simp\<close>)
  finally have same: "run_events j' run = drop (length ?h' - ?k) (numbered run ?h')" .
  have other: "run_events j' r = run_events j r" if "r \<noteq> run" for r
  proof -
    have "run_events j' r = filter (\<lambda>x. ev_run x = r) (jr_events j @ [e])"
      unfolding run_events_def j' filter_filter using that by (intro filter_cong) auto
    then show ?thesis using that c by (simp add: run_events_def)
  qed
  have "set (jr_events j') \<subseteq> insert e (set (jr_events j))" unfolding j' by auto
  moreover have "ev_run e = run" "ev_run ` set (jr_events j) \<subseteq> set (run_ids j)" "run \<in> set (run_ids j)"
    using c assms(1) by (auto simp: journal_ok_def)
  ultimately have "ev_run ` set (jr_events j') \<subseteq> set (run_ids j)" by auto
  with assms(1) same other ids show ?thesis by (simp add: journal_ok_def)
qed


lemma prune_runs_keeps:
  assumes "distinct (run_ids j)" and "[] \<notin> set (run_ids j)" and "ev_run ` set (jr_events j) \<subseteq> set (run_ids j)"
    and "\<forall>run\<in>set (run_ids j). run_events j run = drop (length (H run) - jc_max_events cfg) (numbered run (H run))"
  shows "journal_ok cfg (prune_runs cfg j) H"
proof -
  define gone where "gone = map rn_id (take (length (jr_runs j) - jc_max_runs cfg)
    (sort_key rn_updated (sort_key rn_id (filter (\<lambda>r. rn_state r \<in> set TERMINAL_STATES) (jr_runs j)))))"
  have g: "jr_runs (prune_runs cfg j) = filter (\<lambda>r. rn_id r \<notin> set gone) (jr_runs j)"
    "jr_events (prune_runs cfg j) = filter (\<lambda>e. ev_run e \<notin> set gone) (jr_events j)"
    unfolding gone_def by (simp_all add: prune_runs_def Let_def)
  have "run_events (prune_runs cfg j) run = run_events j run" if "run \<in> set (run_ids (prune_runs cfg j))" for run
    unfolding run_events_def g(2) filter_filter using that by (intro filter_cong) (auto simp: run_ids_def g(1))
  with assms show ?thesis
    by (auto simp: journal_ok_def run_ids_def g distinct_map inj_on_def)
qed

lemma journal_run_ok:
  assumes "journal_run cfg j H" and "0 < jc_max_events cfg"
  shows "journal_ok cfg j H"
  using assms
proof (induction rule: journal_run.induct)
  case opened
  then show ?case by (simp add: journal_ok_def empty_journal_def run_ids_def)
next
  case (migrated j H)
  then show ?case by (simp add: journal_ok_def migrate_def Let_def run_ids_def run_events_def)
next
  case (run_created j H run kind now j')
  then have new: "run \<notin> set (run_ids j)" by (auto simp: create_run_def split: if_splits)
  then have "run_events j run = []" using run_created by (auto simp: journal_ok_def run_events_def filter_empty_conv)
  let ?j = "j\<lparr>jr_runs := jr_runs j @ [\<lparr>rn_id = run, rn_mode = kind, rn_state = ''created'', rn_created = now, rn_updated = now\<rparr>]\<rparr>"
  have ids: "run_ids ?j = run_ids j @ [run]" by (simp add: run_ids_def)
  have ok: "journal_ok cfg j H" using run_created by blast
  have "journal_ok cfg (prune_runs cfg ?j) (H(run := []))"
  proof (rule prune_runs_keeps)
    show "distinct (run_ids ?j)" "[] \<notin> set (run_ids ?j)" using ok new run_created.hyps(2) by (simp_all add: ids journal_ok_def)
    show "ev_run ` set (jr_events ?j) \<subseteq> set (run_ids ?j)" using ok by (auto simp: ids journal_ok_def)
    show "\<forall>r\<in>set (run_ids ?j). run_events ?j r = drop (length ((H(run := [])) r) - jc_max_events cfg) (numbered r ((H(run := [])) r))"
      using ok \<open>run_events j run = []\<close> by (auto simp: ids journal_ok_def run_events_def numbered_def)
  qed
  moreover have "j' = prune_runs cfg ?j" using run_created.hyps(3) new by (simp add: create_run_def)
  ultimately show ?case by (simp only:)
next
  case (appended j H run kind now payload e j')
  then show ?case using append_keeps by blast
next
  case (snapshot_saved j H run s j')
  then have "j' = j\<lparr>jr_snapshots := AList.update run s (jr_snapshots j)\<rparr>" "journal_ok cfg j H"
    by (auto simp: save_run_snapshot_def split: if_splits)
  then show ?case by (simp add: journal_ok_def run_ids_def run_events_def)
qed (simp_all add: journal_ok_def run_ids_def run_events_def save_permission_rule_def delete_permission_rule_def set_permission_rule_enabled_def)

text \<open>Claim C22. A client that asks for the events after the last one it has seen gets exactly those that were appended since,
  in order and numbered without gaps, whatever else happened to the journal; only when more than the
  configured number were appended it gets the latest of them.\<close>

theorem events_are_replayed:
  assumes "journal_run cfg j H" and "0 < jc_max_events cfg" and "run \<in> set (run_ids j)"
  shows "events_after j run n = drop (max n (length (H run) - jc_max_events cfg)) (numbered run (H run))"
proof -
  let ?k = "length (H run) - jc_max_events cfg" and ?e = "numbered run (H run)"
  have e: "run_events j run = drop ?k ?e" using journal_run_ok[OF assms(1,2)] assms(3) by (simp add: journal_ok_def)
  have nth: "ev_id (?e ! i) = Suc i" if "i < length (H run)" for i using that by (simp add: numbered_def split_beta del: upt_Suc)
  have cut: "filter (\<lambda>x. n < ev_id x) (drop k ?e) = drop (max n k) ?e" if "k \<le> length (H run)" for k
    using that
  proof (induction rule: inc_induct)
    case base
    then show ?case by simp
  next
    case (step k)
    then have "drop k ?e = ?e ! k # drop (Suc k) ?e" by (simp add: Cons_nth_drop_Suc)
    moreover have "n \<le> k \<Longrightarrow> max n (Suc k) = Suc k \<and> max n k = k" "\<not> n \<le> k \<Longrightarrow> max n (Suc k) = max n k" by auto
    ultimately show ?case using step nth[of k] by (cases "n \<le> k") simp_all
  qed
  have "sorted (map ev_id (drop m ?e))" for m by (simp add: drop_map[symmetric] numbered_ids sorted_wrt_drop del: upt_Suc)
  then have "sort_key ev_id (drop m ?e) = drop m ?e" for m by (simp add: sorted_sort_id sort_key_id_if_sorted)
  then show ?thesis by (simp add: events_after_def e cut)
qed

section \<open>Recovery\<close>

text \<open>What an event that is appended does to the runs and the snapshots.\<close>

lemma journal_append_runs:
  assumes "run \<in> set (run_ids j)" and "run \<noteq> []" and "kind \<in> set EVENT_TYPES"
  shows "\<exists>e j'. journal_append cfg run kind now payload j = Inr (e, j')
    \<and> jr_runs j' = set_run_state run (run_state_of kind) now (jr_runs j) \<and> jr_snapshots j' = jr_snapshots j"
  using assms by (simp add: journal_append_def Let_def prune_run_def)

text \<open>The recovery of one run: its new state.\<close>

definition recovered :: "journal \<Rightarrow> string \<Rightarrow> run_row \<Rightarrow> run_row" where
  "recovered j now r = r\<lparr>rn_state := (if can_resume j (rn_id r) then ''paused'' else ''failed''), rn_updated := now\<rparr>"

lemma recover_run_step:
  assumes "run \<in> set (run_ids j')" and "run \<noteq> []" and "can_resume j' run = can_resume j run"
  shows "\<exists>j''. recover_run cfg now run (ids, j') = Inr (if can_resume j run then ids @ [run] else ids, j'')
    \<and> jr_runs j'' = map (\<lambda>r. if rn_id r = run then recovered j now r else r) (jr_runs j') \<and> jr_snapshots j'' = jr_snapshots j'"
proof -
  have k: "''run.paused'' \<in> set EVENT_TYPES" "''run.failed'' \<in> set EVENT_TYPES" by (simp_all add: EVENT_TYPES_def)
  have s: "run_state_of ''run.paused'' = Some ''paused''" "run_state_of ''run.failed'' = Some ''failed''"
    by (simp_all add: run_state_of_def startswith_def)
  have rec: "map (\<lambda>r. if rn_id r = run then recovered j now r else r) rs
      = set_run_state run (Some (if can_resume j run then ''paused'' else ''failed'')) now rs" for rs
    by (simp add: set_run_state_def recovered_def)
  show ?thesis
    using journal_append_runs[OF assms(1,2) k(1), of cfg now "[(''reason'', PStr ''gateway.restarted''), (''resumable'', PBool True)]"]
      journal_append_runs[OF assms(1,2) k(2), of cfg now "[(''code'', PStr ''gateway.restarted''), (''retryable'', PBool True)]"]
    unfolding rec recover_run_def by (auto simp: assms(3) s)
qed

lemma can_resume_kept:
  assumes "map rn_mode (jr_runs j') = map rn_mode (jr_runs j)" and "run_ids j' = run_ids j" and "jr_snapshots j' = jr_snapshots j"
  shows "can_resume j' run = can_resume j run"
proof -
  have "map_option rn_mode (find (\<lambda>r. rn_id r = run) rs) = map_option rn_mode (find (\<lambda>r. rn_id r = run) rs')"
    if "map rn_mode rs = map rn_mode rs'" "map rn_id rs = map rn_id rs'" for rs rs'
    using that
  proof (induction rs arbitrary: rs')
    case (Cons r rs)
    then show ?case by (cases rs') auto
  qed simp
  from this[of "jr_runs j'" "jr_runs j"] assms show ?thesis
    by (auto simp: can_resume_def get_run_def run_ids_def safe_to_resume_def split: option.splits)
qed

lemma recover_all:
  assumes "set todo \<subseteq> set (run_ids j)" and "[] \<notin> set todo"
  shows "\<exists>j'. fold_res (recover_run cfg now) todo ([], j) = Inr (filter (can_resume j) todo, j')
    \<and> jr_runs j' = map (\<lambda>r. if rn_id r \<in> set todo then recovered j now r else r) (jr_runs j) \<and> jr_snapshots j' = jr_snapshots j"
  using assms
proof (induction todo rule: rev_induct)
  case Nil
  then show ?case by simp
next
  case (snoc run todo)
  then obtain j1 where j1: "fold_res (recover_run cfg now) todo ([], j) = Inr (filter (can_resume j) todo, j1)"
    "jr_runs j1 = map (\<lambda>r. if rn_id r \<in> set todo then recovered j now r else r) (jr_runs j)" "jr_snapshots j1 = jr_snapshots j"
    by auto
  have ids: "run_ids j1 = run_ids j" "map rn_mode (jr_runs j1) = map rn_mode (jr_runs j)"
    by (simp_all add: run_ids_def j1(2) recovered_def)
  have run: "run \<in> set (run_ids j1)" "run \<noteq> []" using snoc.prems by (auto simp: ids)
  from recover_run_step[OF run can_resume_kept[OF ids(2,1) j1(3)], of cfg now "filter (can_resume j) todo"]
  obtain j2 where j2: "recover_run cfg now run (filter (can_resume j) todo, j1)
      = Inr (if can_resume j run then filter (can_resume j) todo @ [run] else filter (can_resume j) todo, j2)"
    "jr_runs j2 = map (\<lambda>r. if rn_id r = run then recovered j now r else r) (jr_runs j1)" "jr_snapshots j2 = jr_snapshots j1"
    by blast
  have "jr_runs j2 = map (\<lambda>r. if rn_id r \<in> set (todo @ [run]) then recovered j now r else r) (jr_runs j)"
    unfolding j2(2) j1(2) by (auto simp: recovered_def)
  with j1 j2 show ?case by (auto simp: fold_res_append rbind_def)
qed

text \<open>Claim C23. When the gateway starts again, every run that was not finished becomes paused if it can be resumed,
  which is when it is a plan or agent run whose last snapshot was safe, and failed if it cannot; the finished runs
  and all snapshots stay as they are, and the runs offered for resumption are exactly the paused ones.\<close>

theorem restart_settles_runs:
  assumes "journal_run cfg j H" and "0 < jc_max_events cfg"
  shows "\<exists>j'. recover_interrupted_runs cfg now j = Inr (filter (can_resume j) (nonterminal_runs j), j')
    \<and> jr_runs j' = map (\<lambda>r. if rn_state r \<in> set TERMINAL_STATES then r
        else r\<lparr>rn_state := (if can_resume j (rn_id r) then ''paused'' else ''failed''), rn_updated := now\<rparr>) (jr_runs j)
    \<and> jr_snapshots j' = jr_snapshots j
    \<and> set (resumable_runs j') = {rn_id r | r. r \<in> set (jr_runs j') \<and> rn_state r = ''paused''}"
proof -
  have ok: "distinct (run_ids j)" "[] \<notin> set (run_ids j)" using journal_run_ok[OF assms] by (simp_all add: journal_ok_def)
  have n: "rn_id r \<in> set (nonterminal_runs j) \<longleftrightarrow> rn_state r \<notin> set TERMINAL_STATES" if "r \<in> set (jr_runs j)" for r
    using that ok(1) by (auto simp: nonterminal_runs_def run_ids_def distinct_map inj_on_def)
  have "set (nonterminal_runs j) \<subseteq> set (run_ids j)" by (auto simp: nonterminal_runs_def run_ids_def)
  from recover_all[OF this, of cfg now] ok(2) this obtain j' where
    j': "recover_interrupted_runs cfg now j = Inr (filter (can_resume j) (nonterminal_runs j), j')"
      "jr_runs j' = map (\<lambda>r. if rn_id r \<in> set (nonterminal_runs j) then recovered j now r else r) (jr_runs j)" "jr_snapshots j' = jr_snapshots j"
    unfolding recover_interrupted_runs_def by blast
  have runs: "jr_runs j' = map (\<lambda>r. if rn_state r \<notin> set TERMINAL_STATES then recovered j now r else r) (jr_runs j)"
    unfolding j'(2) using n by (intro map_cong) simp_all
  have t: "''paused'' \<notin> set TERMINAL_STATES" by (simp add: TERMINAL_STATES_def)
  have runs': "jr_runs j' = map (\<lambda>r. if rn_state r \<in> set TERMINAL_STATES then r
        else r\<lparr>rn_state := (if can_resume j (rn_id r) then ''paused'' else ''failed''), rn_updated := now\<rparr>) (jr_runs j)"
    unfolding runs by (intro map_cong) (simp_all add: recovered_def)
  have safe: "safe_to_resume j' (rn_id r)" if "r \<in> set (jr_runs j')" "rn_state r = ''paused''" for r
    using that t by (auto simp: runs recovered_def can_resume_def safe_to_resume_def j'(3) split: option.splits if_splits)
  then have "set (resumable_runs j') = {rn_id r | r. r \<in> set (jr_runs j') \<and> rn_state r = ''paused''}"
    by (auto simp: resumable_runs_def)
  with j'(1,3) runs' show ?thesis by blast
qed

section \<open>Saved rules\<close>

text \<open>Rules of an "always allow" are stored faithfully: saving one replaces the rule with its identifier, leaves
  every other rule as it was, and gives back the same rule.\<close>

theorem saved_allow_rule_reloads:
  assumes "rule_decision r = ALLOW_RULE" and "path_prefix r \<noteq> Some []" and "executable r \<noteq> Some []"
  shows "permission_rules ws True (save_permission_rule r j) =
    filter (\<lambda>x. rule_id x \<noteq> rule_id r) (permission_rules ws True j) @ (if rule_workspace r = ws then [r] else [])"
proof -
  have "row_to_rule (rule_to_row r) = r" using assms by (simp add: row_to_rule_def rule_to_row_def text_or_none_def)
  moreover have "filter (\<lambda>x. rule_id x \<noteq> rule_id r) (map row_to_rule rows) = map row_to_rule (filter (\<lambda>row. rr_id row \<noteq> rule_id r) rows)" for rows
    by (induction rows) (simp_all add: row_to_rule_def)
  moreover have "rr_workspace (rule_to_row r) = rule_workspace r" by (simp add: rule_to_row_def)
  ultimately show ?thesis by (simp add: permission_rules_def save_permission_rule_def conj_commute)
qed

text \<open>Claim C21. A saved rule that forbids becomes one that allows.  The table of the rules has no column for the decision
  and every row is read as \<open>ALLOW_RULE\<close>: a request that the rule of the user denies is, once the rule has been
  saved and loaded, allowed by it without a question.\<close>

theorem saved_deny_rule_allows:
  assumes "rule_decision r = DENY" and "rule_matches repr (r\<lparr>rule_decision := ALLOW_RULE\<rparr>) q ws"
    and "path_prefix r \<noteq> Some []" and "executable r \<noteq> Some []" and "jr_rules j = []"
    and "tool q \<in> set READ_TOOLS \<union> set MUTATION_TOOLS" and "mode q \<noteq> ''plan''"
  shows "effective_decision repr q ws [r] policy network = DENY
    \<and> effective_decision repr q ws (permission_rules ws False (save_permission_rule r j)) policy network = ALLOW_RULE"
proof -
  have m: "rule_matches repr r q ws" using assms(1,2)
    by (auto simp: rule_matches_def path_scope_ok_def command_scope_ok_def split: option.splits)
  have w: "enabled r" "rule_workspace r = ws" using assms(2) by (simp_all add: rule_matches_def)
  have "row_to_rule (rule_to_row r) = r\<lparr>rule_decision := ALLOW_RULE\<rparr>"
    using assms(3,4) by (simp add: row_to_rule_def rule_to_row_def text_or_none_def)
  then have "permission_rules ws False (save_permission_rule r j) = [r\<lparr>rule_decision := ALLOW_RULE\<rparr>]"
    using w assms(5) by (simp add: permission_rules_def save_permission_rule_def rule_to_row_def)
  then show ?thesis using m assms(1,2,6,7)
    by (auto simp: effective_decision_def resolve_permission_def apply_approval_policy_def)
qed

section \<open>Examples\<close>

definition sample_quota :: journal_config where
  "sample_quota = \<lparr>jc_max_events = 2, jc_max_runs = 2\<rparr>"

definition journal1 :: journal where
  "journal1 = projr (create_run sample_quota ''r'' ''agent'' ''1'' empty_journal)"

definition journal2 :: journal where
  "journal2 = snd (projr (journal_append sample_quota ''r'' ''run.started'' ''2'' [] journal1))"

definition journal3 :: journal where
  "journal3 = projr (save_run_snapshot ''r'' \<lparr>sn_request = [], sn_messages = [], sn_visible = [], sn_budget = [], sn_safe = True, sn_at = ''2''\<rparr> journal2)"

lemma sample_journal: "journal_run sample_quota journal3 ((\<lambda>_. [])(''r'' := [(''run.started'', ''2'', [])]))"
proof -
  have "isOK (create_run sample_quota ''r'' ''agent'' ''1'' empty_journal)"
    "isOK (journal_append sample_quota ''r'' ''run.started'' ''2'' [] journal1)"
    "isOK (save_run_snapshot ''r'' \<lparr>sn_request = [], sn_messages = [], sn_visible = [], sn_budget = [], sn_safe = True, sn_at = ''2''\<rparr> journal2)"
    by code_simp+
  from this[THEN isOK_projr] have s: "create_run sample_quota ''r'' ''agent'' ''1'' empty_journal = Inr journal1"
    "journal_append sample_quota ''r'' ''run.started'' ''2'' [] journal1
       = Inr (fst (projr (journal_append sample_quota ''r'' ''run.started'' ''2'' [] journal1)), journal2)"
    "save_run_snapshot ''r'' \<lparr>sn_request = [], sn_messages = [], sn_visible = [], sn_budget = [], sn_safe = True, sn_at = ''2''\<rparr> journal2 = Inr journal3"
    unfolding journal3_def journal2_def journal1_def by (simp_all only: prod.collapse)
  have "journal_run sample_quota journal1 ((\<lambda>_. [])(''r'' := []))" by (rule run_created[OF opened _ s(1)]) simp
  from snapshot_saved[OF appended[OF this s(2)] s(3)] show ?thesis by simp
qed

lemma sample_quota_positive: "0 < jc_max_events sample_quota"
  by (simp add: sample_quota_def)

lemma sample_run_ids: "run_ids journal3 = [''r'']"
  by code_simp

theorem events_are_replayed_witness:
  "map ev_type (events_after journal3 ''r'' 0) = [''run.started'']"
proof -
  have "''r'' \<in> set (run_ids journal3)" by (simp add: sample_run_ids)
  from events_are_replayed[OF sample_journal sample_quota_positive this, of 0]
  show ?thesis by (simp add: numbered_def sample_quota_def)
qed

definition journal4 :: journal where
  "journal4 = projr (create_run sample_quota ''s'' ''chat'' ''3'' journal3)"

theorem restart_settles_runs_witness:
  "\<exists>j'. recover_interrupted_runs sample_quota ''4'' journal4 = Inr ([''r''], j')
     \<and> map (\<lambda>r. (rn_id r, rn_state r)) (jr_runs j') = [(''r'', ''paused''), (''s'', ''failed'')] \<and> set (resumable_runs j') = {''r''}"
proof -
  have "isOK (create_run sample_quota ''s'' ''chat'' ''3'' journal3)" by code_simp
  from isOK_projr[OF this] have c: "create_run sample_quota ''s'' ''chat'' ''3'' journal3 = Inr journal4" by (simp add: journal4_def)
  from run_created[OF sample_journal _ c] have j: "journal_run sample_quota journal4 ((\<lambda>_. [])(''r'' := [(''run.started'', ''2'', [])], ''s'' := []))"
    by simp
  have f: "filter (can_resume journal4) (nonterminal_runs journal4) = [''r'']"
    "map (\<lambda>r. (rn_id r, can_resume journal4 (rn_id r), rn_state r \<in> set TERMINAL_STATES)) (jr_runs journal4) = [(''r'', True, False), (''s'', False, False)]"
    by code_simp+
  obtain a b where jr: "jr_runs journal4 = [a, b]" "rn_id a = ''r''" "rn_id b = ''s''"
    "can_resume journal4 ''r''" "\<not> can_resume journal4 ''s''" "rn_state a \<notin> set TERMINAL_STATES" "rn_state b \<notin> set TERMINAL_STATES"
    using f(2) by (auto simp: map_eq_Cons_conv)
  from restart_settles_runs[OF j sample_quota_positive, of "''4''"] f(1)
  obtain j' where "recover_interrupted_runs sample_quota ''4'' journal4 = Inr ([''r''], j')"
    "jr_runs j' = [a\<lparr>rn_state := ''paused'', rn_updated := ''4''\<rparr>, b\<lparr>rn_state := ''failed'', rn_updated := ''4''\<rparr>]"
    "set (resumable_runs j') = {rn_id r | r. r \<in> set (jr_runs j') \<and> rn_state r = ''paused''}" using jr by auto
  moreover from this(2) jr(2,3) have "{rn_id r | r. r \<in> set (jr_runs j') \<and> rn_state r = ''paused''} = {''r''}"
    by (auto intro!: exI[of _ "a\<lparr>rn_state := ''paused'', rn_updated := ''4''\<rparr>"])
  ultimately show ?thesis using jr(2,3) by (intro exI[of _ j']) simp
qed

theorem saved_allow_rule_reloads_witness:
  "permission_rules ''ws'' True (save_permission_rule sample_path_rule empty_journal) = [sample_path_rule]"
  using saved_allow_rule_reloads[of sample_path_rule "''ws''" empty_journal]
  by (simp add: sample_path_rule_def permission_rules_def empty_journal_def)

theorem saved_deny_rule_allows_witness:
  "effective_decision (\<lambda>_. []) sample_write_request ''ws'' [sample_path_rule\<lparr>rule_decision := DENY\<rparr>] ''prompt'' False = DENY
   \<and> effective_decision (\<lambda>_. []) sample_write_request ''ws''
       (permission_rules ''ws'' False (save_permission_rule (sample_path_rule\<lparr>rule_decision := DENY\<rparr>) empty_journal)) ''prompt'' False = ALLOW_RULE"
proof -
  have "rule_matches (\<lambda>_. []) (sample_path_rule\<lparr>rule_decision := DENY, rule_decision := ALLOW_RULE\<rparr>) sample_write_request ''ws''"
    using sample_path_rule_matches by (simp add: sample_path_rule_def)
  then show ?thesis
    by (intro saved_deny_rule_allows) (simp_all add: sample_path_rule_def empty_journal_def sample_write_request_def tool_group_defs)
qed

end
