(* ===== verification/Compaction.thy ===== *)
theory Compaction
  imports Plan
begin

text \<open>
  Keeping the messages of an agent within the model's window (\<open>server/agent/context.py\<close>).  A message is
  the dictionary that the providers exchange; its \<open>tool_calls\<close>, where present, is a list.  Sizes are those
  of the JSON text of the messages.  \<open>json.loads\<close>, the text of a float and the text of a value that is
  neither text nor empty are parameters.
\<close>

section \<open>JSON text\<close>

record json_env =
  je_loads :: "string \<Rightarrow> pyval option"
  je_float :: "real \<Rightarrow> string"
  je_repr :: "pyval \<Rightarrow> string"

definition hex_char :: "nat \<Rightarrow> char" where
  "hex_char n = (if n < 10 then char_of (48 + n) else char_of (87 + n))"

text \<open>\<open>json.dumps\<close> with \<open>ensure_ascii=False\<close>: quotes, backslashes and control characters are escaped.\<close>

definition json_char :: "char \<Rightarrow> string" where
  "json_char c =
     (if c = DQUOTE then [BACKSLASH, DQUOTE]
      else if c = BACKSLASH then [BACKSLASH, BACKSLASH]
      else if c = LF then [BACKSLASH, CHR ''n'']
      else if c = CR then [BACKSLASH, CHR ''r'']
      else if ord c = 9 then [BACKSLASH, CHR ''t'']
      else if ord c = 12 then [BACKSLASH, CHR ''f'']
      else if ord c = 8 then [BACKSLASH, CHR ''b'']
      else if ord c < 32 then [BACKSLASH] @ ''u00'' @ [hex_char (ord c div 16), hex_char (ord c mod 16)]
      else [c])"

definition json_string :: "string \<Rightarrow> string" where
  "json_string s = [DQUOTE] @ concat (map json_char s) @ [DQUOTE]"

fun json_text :: "json_env \<Rightarrow> pyval \<Rightarrow> string"
  and json_items :: "json_env \<Rightarrow> pyval list \<Rightarrow> string list"
  and json_pairs :: "json_env \<Rightarrow> pydict \<Rightarrow> string list" where
  "json_text E PNone = ''null''"
| "json_text E (PBool b) = (if b then ''true'' else ''false'')"
| "json_text E (PInt n) = str_int n"
| "json_text E (PFloat x) = je_float E x"
| "json_text E (PStr s) = json_string s"
| "json_text E (PList xs) = ''['' @ join '','' (json_items E xs) @ '']''"
| "json_text E (PDict d) = ''{'' @ join '','' (json_pairs E d) @ ''}''"
| "json_text E (POther s) = s"
| "json_items E [] = []"
| "json_items E (x # xs) = json_text E x # json_items E xs"
| "json_pairs E [] = []"
| "json_pairs E ((k, v) # d) = (json_string k @ '':'' @ json_text E v) # json_pairs E d"

section \<open>Messages\<close>

type_synonym message = pydict

definition estimate_message_tokens :: "json_env \<Rightarrow> message list \<Rightarrow> nat" where
  "estimate_message_tokens E ms = max 1 ((py_len (json_text E (PList (map PDict ms))) + 3) div 4)"

text \<open>\<open>str(value or "")\<close>.\<close>

definition str_or_empty :: "json_env \<Rightarrow> pyval \<Rightarrow> string" where
  "str_or_empty E v = (if \<not> truthy v then [] else case v of PStr s \<Rightarrow> s | PInt n \<Rightarrow> str_int n | _ \<Rightarrow> je_repr E v)"

definition has_role :: "string \<Rightarrow> message \<Rightarrow> bool" where
  "has_role r m \<longleftrightarrow> dget m ''role'' = PStr r"

definition content_text :: "json_env \<Rightarrow> message \<Rightarrow> string" where
  "content_text E m = str_or_empty E (dget m ''content'')"

definition as_dict :: "pyval \<Rightarrow> pydict" where
  "as_dict v = (case v of PDict d \<Rightarrow> d | _ \<Rightarrow> [])"

fun dicts_of :: "pyval \<Rightarrow> pydict list" where
  "dicts_of (PList xs) = List.map_filter (\<lambda>x. case x of PDict d \<Rightarrow> Some d | _ \<Rightarrow> None) xs"
| "dicts_of _ = []"

text \<open>\<open>s[:n]\<close> is \<open>py_take\<close>; \<open>s[-n:]\<close> for a text that is longer.\<close>

definition py_last :: "nat \<Rightarrow> string \<Rightarrow> string" where
  "py_last n s = drop (length (py_take (py_len s - n) s)) s"

definition ELLIPSIS :: string where "ELLIPSIS = [CHR 0xE2, CHR 0x80, CHR 0xA6]"

definition EXCERPT_GAP :: string where
  "EXCERPT_GAP = [LF] @ ELLIPSIS @ '' compacted '' @ ELLIPSIS @ [LF]"

definition EXCERPT_MARK :: string where "EXCERPT_MARK = ''[Context excerpt] ''"

definition bounded_excerpt :: "string \<Rightarrow> nat \<Rightarrow> string" where
  "bounded_excerpt s limit =
     (if py_len s \<le> limit then s
      else py_take (limit div 2) s @ EXCERPT_GAP @ py_last (limit div 2) s)"

text \<open>\<open>_tool_summary\<close>: a JSON result keeps its facts, a plain one its first line.\<close>

definition tool_summary :: "json_env \<Rightarrow> string \<Rightarrow> string" where
  "tool_summary E content =
     (case je_loads E content of
        Some (PDict payload) \<Rightarrow>
          json_text E (PDict [(''ok'', PBool (truthy (dget payload ''ok''))), (''error_code'', dget payload ''error_code''),
            (''data'', PDict (as_dict (dget payload ''data''))),
            (''output_excerpt'', PStr (bounded_excerpt (str_or_empty E (dget payload ''output'')) 800)), (''compacted'', PBool True)])
      | _ \<Rightarrow>
          (let heading = takeWhile (\<lambda>c. c \<noteq> LF) content
           in py_take 400 heading @ [LF] @ ''[compacted] '' @ bounded_excerpt (drop (length heading + 1) content) 800))"

definition assistant_summary :: "json_env \<Rightarrow> message \<Rightarrow> string" where
  "assistant_summary E m =
     (let names = map (\<lambda>call. (let n = str_or_empty E (dget (as_dict (dget call ''function'')) ''name'') in if n = [] then ''unknown'' else n))
            (dicts_of (dget m ''tool_calls''))
      in ''assistant called '' @ (if join '', '' names = [] then ''tools'' else join '', '' names) @ '': ''
           @ py_take 240 (content_text E m))"

section \<open>The passes\<close>

text \<open>Long arguments of tool calls.\<close>

definition call_arguments :: "json_env \<Rightarrow> pydict \<Rightarrow> string" where
  "call_arguments E call =
     (let s = str_or_empty E (dget (as_dict (dget call ''function'')) ''arguments'') in if s = [] then ''{}'' else s)"

definition shrink_call :: "json_env \<Rightarrow> pydict \<Rightarrow> pydict" where
  "shrink_call E call =
     (let function = as_dict (dget call ''function''); arguments = call_arguments E call;
          shortened = PStr (json_text E (PDict [(''compacted'', PBool True), (''argument_excerpt'', PStr (bounded_excerpt arguments 1200))]))
      in AList.update ''function''
           (PDict (if py_len arguments > 4000 then AList.update ''arguments'' shortened function else function)) call)"

definition shrink_calls :: "json_env \<Rightarrow> message \<Rightarrow> message" where
  "shrink_calls E m =
     (let calls = dicts_of (dget m ''tool_calls'')
      in if list_ex (\<lambda>call. py_len (call_arguments E call) > 4000) calls
         then AList.update ''tool_calls'' (PList (map (PDict \<circ> shrink_call E) calls)) m else m)"

text \<open>Long tool results among the first \<open>n\<close> messages, until the messages fit: what becomes of them, and the
  summaries.\<close>

fun shrink_results :: "json_env \<Rightarrow> nat \<Rightarrow> nat \<Rightarrow> nat \<Rightarrow> message list \<Rightarrow> message list \<Rightarrow> message list \<times> string list" where
  "shrink_results E limit least 0 front ms = (front @ ms, [])"
| "shrink_results E limit least (Suc n) front [] = (front, [])"
| "shrink_results E limit least (Suc n) front (m # ms) =
     (if \<not> has_role ''tool'' m \<or> py_len (content_text E m) \<le> least
      then shrink_results E limit least n (front @ [m]) ms
      else (let summary = tool_summary E (content_text E m);
                m' = AList.update ''content'' (PStr summary) m
            in if estimate_message_tokens E (front @ m' # ms) \<le> limit then (front @ m' # ms, [py_take 240 summary])
               else (case shrink_results E limit least n (front @ [m']) ms of (out, texts) \<Rightarrow> (out, py_take 240 summary # texts))))"

text \<open>Old exchanges are removed as a whole: an assistant message with its tool calls and their results.\<close>

definition call_ids :: "json_env \<Rightarrow> message \<Rightarrow> string set" where
  "call_ids E m = set (map (\<lambda>call. str_or_empty E (dget call ''id'')) (dicts_of (dget m ''tool_calls'')))"

definition result_id :: "json_env \<Rightarrow> message \<Rightarrow> string" where
  "result_id E m = str_or_empty E (dget m ''tool_call_id'')"

definition exchange_results :: "json_env \<Rightarrow> string set \<Rightarrow> message list \<Rightarrow> message list" where
  "exchange_results E ids ms = takeWhile (\<lambda>m. has_role ''tool'' m \<and> result_id E m \<in> ids) ms"

definition role_text :: "message \<Rightarrow> string" where
  "role_text m = (case dget m ''role'' of PStr s \<Rightarrow> s | _ \<Rightarrow> [])"

function remove_old ::
  "json_env \<Rightarrow> nat \<Rightarrow> nat \<Rightarrow> nat \<Rightarrow> message list \<Rightarrow> string list \<Rightarrow> message list \<times> string list \<times> nat" where
  "remove_old E limit keep i ms texts =
     (if estimate_message_tokens E ms \<le> limit \<or> length ms - keep \<le> i then (ms, texts, 0)
      else (let m = ms ! i in
        if has_role ''system'' m then remove_old E limit keep (Suc i) ms texts
        else if has_role ''assistant'' m \<and> truthy (dget m ''tool_calls'') then
          (let gone = Suc (length (exchange_results E (call_ids E m) (drop (Suc i) ms)))
           in case remove_old E limit keep i (take i ms @ drop (i + gone) ms) (texts @ [assistant_summary E m]) of
                (out, texts', n) \<Rightarrow> (out, texts', gone + n))
        else if has_role ''user'' m \<or> has_role ''assistant'' m then
          (case remove_old E limit keep i (take i ms @ drop (Suc i) ms) (texts @ [role_text m @ '': '' @ py_take 240 (content_text E m)]) of
             (out, texts', n) \<Rightarrow> (out, texts', Suc n))
        else remove_old E limit keep (Suc i) ms texts))"
  by pat_completeness auto
termination
  by (relation "measure (\<lambda>(E, limit, keep, i, ms, texts). length ms - i)") auto

declare remove_old.simps [simp del]

definition last_items :: "nat \<Rightarrow> 'a list \<Rightarrow> 'a list" where
  "last_items n xs = drop (length xs - n) xs"

definition compaction_note :: "string list \<Rightarrow> string" where
  "compaction_note texts =
     py_take 8000 (''Earlier context compacted deterministically.'' @ [LF] @ join [LF] (last_items 20 texts))"

definition insert_note :: "string \<Rightarrow> string \<Rightarrow> message list \<Rightarrow> message list" where
  "insert_note role note ms =
     (let note_message = [(''role'', PStr role), (''content'', PStr note)]
      in case ms of
           [] \<Rightarrow> [note_message]
         | m # rest \<Rightarrow> if has_role ''system'' m then m # note_message # rest else note_message # ms)"

text \<open>The longest content above 800 characters, the last one of several, becomes an excerpt, until the messages
  fit or there is none.\<close>

definition longest :: "json_env \<Rightarrow> message list \<Rightarrow> nat option" where
  "longest E ms =
     (case filter (\<lambda>i. py_len (content_text E (ms ! i)) > 800) [0..<length ms] of
        [] \<Rightarrow> None
      | i # is \<Rightarrow> Some (fold (\<lambda>j best. if py_len (content_text E (ms ! j)) \<ge> py_len (content_text E (ms ! best)) then j else best) is i))"

definition excerpt_message :: "json_env \<Rightarrow> message \<Rightarrow> message" where
  "excerpt_message E m = AList.update ''content'' (PStr (EXCERPT_MARK @ bounded_excerpt (content_text E m) 600)) m"

definition long_count :: "json_env \<Rightarrow> message list \<Rightarrow> nat" where
  "long_count E ms = length (filter (\<lambda>m. py_len (content_text E m) > 800) ms)"

section \<open>Sizes\<close>

lemma py_len_take_min: "py_len (py_take n s) = min n (py_len s)"
  by (induction n s rule: py_take.induct) (auto simp: py_len_Cons split: nat.splits)

lemma py_take_prefix: "\<exists>b. s = py_take n s @ b"
  by (induction n s rule: py_take.induct) (auto split: nat.splits)

lemma py_len_last: "n \<le> py_len s \<Longrightarrow> py_len (py_last n s) = n"
proof -
  assume n: "n \<le> py_len s"
  obtain b where b: "s = py_take (py_len s - n) s @ b" using py_take_prefix by blast
  then have "py_last n s = b" unfolding py_last_def by (metis append_eq_conv_conj)
  with arg_cong[OF b, of py_len] n show ?thesis by (simp add: py_len_take_min)
qed

lemma bounded_excerpt_len: "py_len (bounded_excerpt s limit) \<le> limit + 15"
proof (cases "py_len s \<le> limit")
  case False
  then have "py_len (py_last (limit div 2) s) = limit div 2" by (intro py_len_last) simp
  moreover have "py_len EXCERPT_GAP = 15" by (simp add: py_len_def EXCERPT_GAP_def ELLIPSIS_def ord_def)
  ultimately show ?thesis using False py_len_take_min[of "limit div 2" s] by (simp add: bounded_excerpt_def)
qed (simp add: bounded_excerpt_def)

lemma dget_update: "dget (AList.update k v d) q = (if q = k then v else dget d q)"
  by (simp add: dget_def update_conv')

lemma content_update [simp]: "content_text E (AList.update ''content'' (PStr s) m) = s"
  by (simp add: content_text_def dget_update str_or_empty_def)

lemma excerpt_short: "py_len (content_text E (excerpt_message E m)) \<le> 800"
proof -
  have "py_len EXCERPT_MARK = 18" by (simp add: EXCERPT_MARK_def py_len_def ord_def)
  with bounded_excerpt_len[of "content_text E m" 600] show ?thesis by (simp add: excerpt_message_def)
qed

lemma fold_choice:
  assumes "k \<in> A" and "set js \<subseteq> A" and "\<And>j best. j \<in> A \<Longrightarrow> best \<in> A \<Longrightarrow> f j best \<in> A"
  shows "fold f js k \<in> A"
  using assms(1,2) by (induction js arbitrary: k) (auto intro: assms(3))

lemma longest_Some:
  assumes "longest E ms = Some i"
  shows "i < length ms \<and> py_len (content_text E (ms ! i)) > 800"
proof -
  define js where "js = filter (\<lambda>i. py_len (content_text E (ms ! i)) > 800) [0..<length ms]"
  obtain k rest where k: "js = k # rest" using assms by (cases js) (auto simp: longest_def js_def)
  have "i = fold (\<lambda>j best. if py_len (content_text E (ms ! j)) \<ge> py_len (content_text E (ms ! best)) then j else best) rest k"
    using assms k by (simp add: longest_def flip: js_def)
  moreover have "fold (\<lambda>j best. if py_len (content_text E (ms ! j)) \<ge> py_len (content_text E (ms ! best)) then j else best) rest k \<in> set js"
    by (rule fold_choice) (auto simp: k)
  ultimately have "i \<in> set js" by simp
  then show ?thesis by (simp add: js_def)
qed

lemma longest_None: "longest E ms = None \<Longrightarrow> \<forall>m\<in>set ms. py_len (content_text E m) \<le> 800"
  by (auto simp: longest_def filter_empty_conv in_set_conv_nth not_less split: list.splits)

lemma excerpt_decreases:
  assumes "longest E ms = Some i"
  shows "long_count E (ms[i := excerpt_message E (ms ! i)]) < long_count E ms"
proof -
  note i = longest_Some[OF assms]
  then have s: "ms = take i ms @ ms ! i # drop (Suc i) ms" "ms[i := excerpt_message E (ms ! i)] = take i ms @ excerpt_message E (ms ! i) # drop (Suc i) ms"
    by (simp_all add: id_take_nth_drop upd_conv_take_nth_drop)
  show ?thesis unfolding s(2)
    using arg_cong[OF s(1), of "long_count E"] i excerpt_short[of E "ms ! i"] by (simp add: long_count_def)
qed

function excerpt_longest :: "json_env \<Rightarrow> nat \<Rightarrow> message list \<Rightarrow> message list" where
  "excerpt_longest E limit ms =
     (if estimate_message_tokens E ms \<le> limit then ms
      else (case longest E ms of
          None \<Rightarrow> ms
        | Some i \<Rightarrow> excerpt_longest E limit (ms[i := excerpt_message E (ms ! i)])))"
  by pat_completeness auto
termination
  by (relation "measure (\<lambda>(E, limit, ms). long_count E ms)") (auto simp: excerpt_decreases)

declare excerpt_longest.simps [simp del]

text \<open>\<open>compact_agent_context\<close>.\<close>

definition compact_agent_context :: "json_env \<Rightarrow> message list \<Rightarrow> nat \<Rightarrow> nat \<Rightarrow> string \<Rightarrow> message list" where
  "compact_agent_context E ms limit keep summary_role =
     (if estimate_message_tokens E ms \<le> limit then ms
      else (case shrink_results E limit 1200 (length ms - keep) [] (map (shrink_calls E) ms) of (ms1, texts) \<Rightarrow>
        (let ms2 = (if estimate_message_tokens E ms1 > limit then fst (shrink_results E limit 8000 (length ms1) [] ms1) else ms1)
         in case remove_old E limit keep 0 ms2 texts of (ms3, texts', removed) \<Rightarrow>
              excerpt_longest E limit (if removed > 0 then insert_note summary_role (compaction_note texts') ms3 else ms3))))"

section \<open>Tool calls and their results\<close>

text \<open>What providers require: a tool result follows the assistant message whose call it answers, with nothing but
  other results between, and every call has its result before the next message.  The state is the calls of the
  last assistant message and those without a result.\<close>

definition calls_of :: "json_env \<Rightarrow> message \<Rightarrow> string set" where
  "calls_of E m = (if has_role ''assistant'' m then call_ids E m else {})"

definition protocol_step :: "json_env \<Rightarrow> message \<Rightarrow> (string set \<times> string set) option \<Rightarrow> (string set \<times> string set) option" where
  "protocol_step E m st =
     (case st of
        None \<Rightarrow> None
      | Some (calls, missing) \<Rightarrow>
          if has_role ''tool'' m then (if result_id E m \<in> calls then Some (calls, missing - {result_id E m}) else None)
          else if missing = {} then Some (calls_of E m, calls_of E m) else None)"

definition protocol_ok :: "json_env \<Rightarrow> message list \<Rightarrow> bool" where
  "protocol_ok E ms \<longleftrightarrow> (\<exists>calls. fold (protocol_step E) ms (Some ({}, {})) = Some (calls, {}))"

lemma protocol_None [simp]: "fold (protocol_step E) ms None = None"
  by (induction ms) (simp_all add: protocol_step_def)

text \<open>All that matters of a message.\<close>

definition msg_shape :: "json_env \<Rightarrow> message \<Rightarrow> bool \<times> string \<times> string set" where
  "msg_shape E m = (has_role ''tool'' m, result_id E m, calls_of E m)"

lemma protocol_shape:
  assumes "map (msg_shape E) ms = map (msg_shape E) ms'"
  shows "fold (protocol_step E) ms st = fold (protocol_step E) ms' st"
  using assms
proof (induction ms arbitrary: ms' st)
  case (Cons m ms)
  then obtain m' rest where "ms' = m' # rest" "msg_shape E m = msg_shape E m'" "map (msg_shape E) ms = map (msg_shape E) rest" by (cases ms') auto
  moreover from this have "protocol_step E m st = protocol_step E m' st"
    by (auto simp: protocol_step_def msg_shape_def split: option.split)
  ultimately show ?case using Cons.IH by simp
qed simp

lemma shape_content [simp]: "msg_shape E (AList.update ''content'' v m) = msg_shape E m"
  by (simp add: msg_shape_def has_role_def result_id_def calls_of_def call_ids_def dget_update)

lemma dicts_of_dicts [simp]: "dicts_of (PList (map (PDict \<circ> f) xs)) = map f xs"
  by (simp add: List.map_filter_def comp_def)

lemma shrink_call_id: "dget (shrink_call E call) ''id'' = dget call ''id''"
  by (simp add: shrink_call_def Let_def dget_update)

lemma shape_calls [simp]: "msg_shape E (shrink_calls E m) = msg_shape E m"
proof -
  let ?m = "AList.update ''tool_calls'' (PList (map (PDict \<circ> shrink_call E) (dicts_of (dget m ''tool_calls'')))) m"
  have "dicts_of (dget ?m ''tool_calls'') = map (shrink_call E) (dicts_of (dget m ''tool_calls''))"
    by (simp only: dget_update refl if_True dicts_of_dicts)
  then have "call_ids E ?m = call_ids E m" unfolding call_ids_def by (simp add: shrink_call_id comp_def)
  then have "msg_shape E ?m = msg_shape E m" by (simp add: msg_shape_def has_role_def result_id_def calls_of_def dget_update)
  then show ?thesis by (simp add: shrink_calls_def Let_def)
qed

lemma shape_results: "map (msg_shape E) (fst (shrink_results E limit least n front ms)) = map (msg_shape E) (front @ ms)"
proof (induction E limit least n front ms rule: shrink_results.induct)
  case (3 E limit least n front m ms)
  then show ?case by (auto simp: Let_def split: prod.splits)
qed simp_all

lemma shape_longest: "map (msg_shape E) (excerpt_longest E limit ms) = map (msg_shape E) ms"
proof (induction E limit ms rule: excerpt_longest.induct)
  case (1 E limit ms)
  show ?case
  proof (cases "estimate_message_tokens E ms \<le> limit \<or> longest E ms = None")
    case True
    then show ?thesis by (auto simp: excerpt_longest.simps)
  next
    case False
    then obtain i where i: "longest E ms = Some i" by auto
    have "map (msg_shape E) (ms[i := excerpt_message E (ms ! i)]) = map (msg_shape E) ms"
      using longest_Some[OF i] by (simp add: map_update excerpt_message_def list_update_same_conv)
    with False i 1(1)[of i] show ?thesis by (simp add: excerpt_longest.simps[of _ _ ms])
  qed
qed

text \<open>Between exchanges the calls of the last one do not matter.\<close>

lemma protocol_between:
  assumes "fold (protocol_step E) ms (Some ({}, {})) = Some (calls, {})"
  shows "\<exists>calls'. fold (protocol_step E) ms (Some (c, {})) = Some (calls', {})"
  using assms by (cases ms) (auto simp: protocol_step_def split: if_splits)

lemma protocol_results:
  assumes "fold (protocol_step E) ms (Some (calls, missing)) = Some (c, {})" and "exchange_results E calls ms = block"
  shows "fold (protocol_step E) (drop (length block) ms) (Some ({}, {})) = Some (c, {}) \<or> drop (length block) ms = []"
  using assms
proof (induction ms arbitrary: missing block)
  case (Cons m ms)
  show ?case
  proof (cases "has_role ''tool'' m")
    case True
    have r: "result_id E m \<in> calls"
    proof (rule ccontr)
      assume "result_id E m \<notin> calls"
      with True have "protocol_step E m (Some (calls, missing)) = None" by (simp add: protocol_step_def)
      with Cons.prems(1) show False by simp
    qed
    with True have "protocol_step E m (Some (calls, missing)) = Some (calls, missing - {result_id E m})" by (simp add: protocol_step_def)
    with Cons.prems(1) Cons.IH[OF _ refl, of "missing - {result_id E m}"] Cons.prems(2)[symmetric] True r show ?thesis
      by (simp add: exchange_results_def)
  next
    case False
    have "missing = {}"
    proof (rule ccontr)
      assume "missing \<noteq> {}"
      with False have "protocol_step E m (Some (calls, missing)) = None" by (simp add: protocol_step_def)
      with Cons.prems(1) show False by simp
    qed
    with False have "protocol_step E m (Some (calls, missing)) = protocol_step E m (Some ({}, {}))" by (simp add: protocol_step_def)
    with Cons.prems False show ?thesis by (auto simp: exchange_results_def)
  qed
qed simp

lemma dicts_of_falsy: "\<not> truthy v \<Longrightarrow> dicts_of v = []"
  by (cases v) (simp_all add: List.map_filter_def)

lemma remove_keeps_protocol:
  assumes "protocol_ok E ms"
  shows "protocol_ok E (fst (remove_old E limit keep i ms texts))"
  using assms
proof (induction E limit keep i ms texts rule: remove_old.induct)
  case (1 E limit keep i ms texts)
  let ?m = "ms ! i"
  show ?case
  proof (cases "estimate_message_tokens E ms \<le> limit \<or> length ms - keep \<le> i")
    case True
    with 1(5) show ?thesis by (simp add: remove_old.simps)
  next
    case go: False
    then have i: "i < length ms" by auto
    then have ms: "ms = take i ms @ ?m # drop (Suc i) ms" by (rule id_take_nth_drop)
    from 1(5) obtain c where c: "fold (protocol_step E) ms (Some ({}, {})) = Some (c, {})" by (auto simp: protocol_ok_def)
    have front: "\<exists>c0. fold (protocol_step E) (take i ms) (Some ({}, {})) = Some (c0, {})
        \<and> fold (protocol_step E) (drop (Suc i) ms) (Some (calls_of E ?m, calls_of E ?m)) = Some (c, {})" if "\<not> has_role ''tool'' ?m"
    proof -
      have "fold (protocol_step E) (?m # drop (Suc i) ms) (fold (protocol_step E) (take i ms) (Some ({}, {}))) = Some (c, {})"
        using c ms by (metis fold_append o_apply)
      with that show ?thesis
        by (cases "fold (protocol_step E) (take i ms) (Some ({}, {}))") (auto simp: protocol_step_def split: if_splits)
    qed
    have cut: "protocol_ok E (take i ms @ rest)"
      if "\<not> has_role ''tool'' ?m" "fold (protocol_step E) rest (Some ({}, {})) = Some (c, {}) \<or> rest = []" for rest
      using front[OF that(1)] that(2) protocol_between[of E rest c] by (auto simp: protocol_ok_def)
    consider (system) "has_role ''system'' ?m"
      | (exchange) "\<not> has_role ''system'' ?m" "has_role ''assistant'' ?m \<and> truthy (dget ?m ''tool_calls'')"
      | (other) "\<not> has_role ''system'' ?m" "\<not> (has_role ''assistant'' ?m \<and> truthy (dget ?m ''tool_calls''))" "has_role ''user'' ?m \<or> has_role ''assistant'' ?m"
      | (skip) "\<not> has_role ''system'' ?m" "\<not> (has_role ''user'' ?m \<or> has_role ''assistant'' ?m)"
      by blast
    then show ?thesis
    proof cases
      case system
      with go 1(1)[OF go refl] 1(5) show ?thesis by (simp add: remove_old.simps[of _ _ _ _ ms])
    next
      case exchange
      then have nt: "\<not> has_role ''tool'' ?m" "calls_of E ?m = call_ids E ?m" by (auto simp: has_role_def calls_of_def)
      let ?block = "exchange_results E (call_ids E ?m) (drop (Suc i) ms)"
      have "protocol_ok E (take i ms @ drop (length ?block) (drop (Suc i) ms))"
        using cut[OF nt(1)] front[OF nt(1)] protocol_results[of E "drop (Suc i) ms" "call_ids E ?m"] unfolding nt(2) by blast
      then have "protocol_ok E (take i ms @ drop (i + Suc (length ?block)) ms)" by (simp add: add.commute)
      with go exchange 1(2)[OF go refl exchange refl] show ?thesis
        by (simp add: remove_old.simps[of _ _ _ _ ms] Let_def split_beta)
    next
      case other
      then have nt: "\<not> has_role ''tool'' ?m" "calls_of E ?m = {}" by (auto simp: has_role_def calls_of_def call_ids_def dicts_of_falsy)
      have "protocol_ok E (take i ms @ drop (Suc i) ms)" using cut[OF nt(1)] front[OF nt(1)] unfolding nt(2) by blast
      with go other 1(3)[OF go refl other] show ?thesis
        by (auto simp add: remove_old.simps[of _ _ _ _ ms] Let_def split_beta)
    next
      case skip
      with go 1(4)[OF go refl skip(1) _ skip(2)] 1(5) show ?thesis by (auto simp: remove_old.simps[of _ _ _ _ ms])
    qed
  qed
qed

lemma insert_keeps_protocol:
  assumes "protocol_ok E ms" and "role \<noteq> ''tool''"
  shows "protocol_ok E (insert_note role note ms)"
proof -
  let ?n = "[(''role'', PStr role), (''content'', PStr note)]"
  have n: "protocol_step E ?n (Some (calls, {})) = Some ({}, {})" for calls
    using assms(2) by (simp add: protocol_step_def has_role_def calls_of_def call_ids_def dget_def)
  show ?thesis
  proof (cases ms)
    case (Cons m rest)
    have "protocol_step E m (Some ({}, {})) = Some ({}, {})" if "has_role ''system'' m"
      using that by (simp add: protocol_step_def has_role_def calls_of_def)
    with assms(1) n Cons show ?thesis by (auto simp: protocol_ok_def insert_note_def Let_def)
  qed (use n in \<open>simp add: protocol_ok_def insert_note_def Let_def\<close>)
qed

lemma protocol_ok_shape: "map (msg_shape E) ms = map (msg_shape E) ms' \<Longrightarrow> protocol_ok E ms = protocol_ok E ms'"
  unfolding protocol_ok_def by (metis protocol_shape)

text \<open>Claim C24. Compacting the messages of an agent never separates a tool call from its results: when every result follows the
  assistant message that asked for it and every call has its result, the same holds afterwards.\<close>

theorem compaction_keeps_protocol:
  assumes "protocol_ok E ms" and "summary_role \<noteq> ''tool''"
  shows "protocol_ok E (compact_agent_context E ms limit keep summary_role)"
proof (cases "estimate_message_tokens E ms \<le> limit")
  case False
  obtain ms1 said where s1: "shrink_results E limit 1200 (length ms - keep) [] (map (shrink_calls E) ms) = (ms1, said)" by (rule prod.exhaust)
  define ms2 where "ms2 = (if estimate_message_tokens E ms1 > limit then fst (shrink_results E limit 8000 (length ms1) [] ms1) else ms1)"
  obtain ms3 said' n where s3: "remove_old E limit keep 0 ms2 said = (ms3, said', n)" by (rule prod_cases3)
  have "map (msg_shape E) ms1 = map (msg_shape E) ms"
    using shape_results[of E limit 1200 "length ms - keep" "[]" "map (shrink_calls E) ms"] s1 by simp
  moreover have "map (msg_shape E) ms2 = map (msg_shape E) ms1" using shape_results[of E limit 8000 "length ms1" "[]" ms1] by (simp add: ms2_def)
  ultimately have "protocol_ok E ms2" using assms(1) protocol_ok_shape[of E ms2 ms] by simp
  from remove_keeps_protocol[OF this, of limit keep 0 said] have p3: "protocol_ok E ms3" by (simp add: s3)
  let ?ms4 = "if n > 0 then insert_note summary_role (compaction_note said') ms3 else ms3"
  have "protocol_ok E ?ms4" using p3 insert_keeps_protocol[OF p3 assms(2)] by simp
  then have "protocol_ok E (excerpt_longest E limit ?ms4)" using protocol_ok_shape[OF shape_longest] by blast
  moreover have "compact_agent_context E ms limit keep summary_role = excerpt_longest E limit ?ms4"
    using False s1 s3 by (simp add: compact_agent_context_def Let_def ms2_def[symmetric])
  ultimately show ?thesis by simp
qed (use assms in \<open>simp add: compact_agent_context_def\<close>)

lemma excerpt_longest_done:
  "estimate_message_tokens E (excerpt_longest E limit ms) \<le> limit
    \<or> (\<forall>m\<in>set (excerpt_longest E limit ms). py_len (content_text E m) \<le> 800)"
proof (induction E limit ms rule: excerpt_longest.induct)
  case (1 E limit ms)
  show ?case
  proof (cases "estimate_message_tokens E ms \<le> limit \<or> longest E ms = None")
    case True
    then show ?thesis using longest_None[of E ms] by (auto simp: excerpt_longest.simps)
  next
    case False
    then obtain i where i: "longest E ms = Some i" by auto
    with False have "excerpt_longest E limit ms = excerpt_longest E limit (ms[i := excerpt_message E (ms ! i)])"
      by (simp add: excerpt_longest.simps[of _ _ ms])
    with False i 1(1)[of i] show ?thesis by simp
  qed
qed

text \<open>Claim C25. Compaction ends for every list of messages and every limit, and it ends with messages that fit, or else with
  none whose content has more than 800 characters left.\<close>

theorem compaction_fits_or_is_minimal:
  "estimate_message_tokens E (compact_agent_context E ms limit keep summary_role) \<le> limit
    \<or> list_all (\<lambda>m. py_len (content_text E m) \<le> 800) (compact_agent_context E ms limit keep summary_role)"
proof (cases "estimate_message_tokens E ms \<le> limit")
  case False
  then obtain ms4 where "compact_agent_context E ms limit keep summary_role = excerpt_longest E limit ms4"
    unfolding compact_agent_context_def Let_def split_beta by simp
  with excerpt_longest_done[of E limit ms4] show ?thesis by (simp add: list_all_iff)
qed (simp add: compact_agent_context_def)

section \<open>Examples\<close>

definition plain_json :: json_env where
  "plain_json = \<lparr>je_loads = (\<lambda>_. None), je_float = (\<lambda>_. ''0.0''), je_repr = (\<lambda>_. [])\<rparr>"

definition sample_calls :: "string list \<Rightarrow> message" where
  "sample_calls ids = [(''role'', PStr ''assistant''), (''content'', PStr []),
     (''tool_calls'', PList (map (\<lambda>i. PDict [(''id'', PStr i), (''function'', PDict [(''name'', PStr ''ls''), (''arguments'', PStr ''{}'')])]) ids))]"

definition sample_result_of :: "string \<Rightarrow> message" where
  "sample_result_of i = [(''role'', PStr ''tool''), (''tool_call_id'', PStr i), (''content'', PStr ''ok'')]"

definition sample_conversation :: "message list" where
  "sample_conversation = [(''role'', PStr ''user''), (''content'', PStr ''go'')] # sample_calls [''1'', ''2'', ''3''] # map sample_result_of [''1'', ''2'', ''3'']"

lemma sample_conversation_ok: "protocol_ok plain_json sample_conversation"
proof -
  have "fold (protocol_step plain_json) sample_conversation (Some ({}, {})) = Some ({''1'', ''2'', ''3''}, {})"
    by (simp add: sample_conversation_def sample_calls_def sample_result_of_def protocol_step_def has_role_def result_id_def calls_of_def
        call_ids_def dget_def str_or_empty_def List.map_filter_def insert_commute insert_Diff_if)
  then show ?thesis by (auto simp: protocol_ok_def)
qed

theorem compaction_keeps_protocol_witness:
  "protocol_ok plain_json (compact_agent_context plain_json sample_conversation 10 2 ''user'')"
  by (rule compaction_keeps_protocol[OF sample_conversation_ok]) simp

text \<open>The latest messages are to be kept, but an exchange goes as a whole: with two messages to keep and a limit that
  cannot be met, the latest exchange is removed with all of its three results.\<close>

lemma newest_exchange_is_removed:
  "map (has_role ''tool'') sample_conversation = [False, False, True, True, True]
   \<and> map (has_role ''tool'') (compact_agent_context plain_json sample_conversation 0 2 ''user'') = [False]"
proof -
  have pos: "\<not> estimate_message_tokens plain_json ms \<le> 0" "0 < estimate_message_tokens plain_json ms" "estimate_message_tokens plain_json ms \<noteq> 0" for ms
    by (simp_all add: estimate_message_tokens_def)
  have calls: "map (shrink_calls plain_json) sample_conversation = sample_conversation" by code_simp
  have results: "shrink_results plain_json 0 1200 (length sample_conversation - 2) [] sample_conversation = (sample_conversation, [])"
    "shrink_results plain_json 0 8000 (length sample_conversation) [] sample_conversation = (sample_conversation, [])" by code_simp+
  let ?rest = "[sample_calls [''1'', ''2'', ''3''], sample_result_of ''1'', sample_result_of ''2'', sample_result_of ''3'']"
  have roles: "has_role ''user'' (hd sample_conversation)" "\<not> has_role ''system'' (hd sample_conversation)" "\<not> has_role ''assistant'' (hd sample_conversation)"
    "has_role ''assistant'' (hd ?rest)" "\<not> has_role ''system'' (hd ?rest)" "truthy (dget (hd ?rest) ''tool_calls'')"
    "length (exchange_results plain_json (call_ids plain_json (hd ?rest)) (tl ?rest)) = 3"
    by code_simp+
  have nil: "remove_old plain_json 0 2 0 [] said = ([], said, 0)" for said by (simp add: remove_old.simps)
  have two: "\<exists>said'. remove_old plain_json 0 2 0 ?rest said = ([], said', 4)" for said
    using roles(4-7) by (simp add: remove_old.simps[of _ _ _ _ ?rest] pos nil Let_def)
  define u where "u = hd sample_conversation"
  have sc: "sample_conversation = u # ?rest" by (simp add: sample_conversation_def u_def)
  obtain said1 where said1: "remove_old plain_json 0 2 0 ?rest [role_text u @ '': '' @ py_take 240 (content_text plain_json u)] = ([], said1, 4)"
    using two by blast
  have one: "\<exists>said'. remove_old plain_json 0 2 0 sample_conversation [] = ([], said', 5)"
    unfolding sc using roles(1-3)[folded u_def] said1 by (simp add: remove_old.simps[of _ _ _ _ "u # ?rest"] pos Let_def)
  then obtain said where r: "remove_old plain_json 0 2 0 sample_conversation [] = ([], said, 5)" by blast
  let ?out = "compact_agent_context plain_json sample_conversation 0 2 ''user''"
  have "?out = excerpt_longest plain_json 0 (insert_note ''user'' (compaction_note said) [])"
    by (simp add: compact_agent_context_def calls results r Let_def pos(3))
  then have "map (msg_shape plain_json) ?out = map (msg_shape plain_json) (insert_note ''user'' (compaction_note said) [])"
    by (simp only: shape_longest)
  then have "map fst (map (msg_shape plain_json) ?out) = [False]"
    by (simp add: insert_note_def Let_def msg_shape_def has_role_def dget_def del: map_map)
  moreover have "map fst (map (msg_shape plain_json) ?out) = map (has_role ''tool'') ?out" by (simp add: msg_shape_def)
  moreover have "map (has_role ''tool'') sample_conversation = [False, False, True, True, True]" by code_simp
  ultimately show ?thesis by simp
qed

end
