(* ===== verification/Read_Tool.thy ===== *)
theory Read_Tool
  imports Edit_Tool "HOL-Library.Sublist"
begin

text \<open>
  The read tool (\<open>executor/tools/read.py\<close>): a bounded page of one text file, by lines or from a
  byte offset, with the continuation that leads to the next page; and a client that follows the
  continuations, line numbers first, as the notes of \<open>server/agent/results.py\<close> ask the model to.
  Text is kept as its UTF-8 bytes, so \<open>len(text.encode())\<close> is the length.
\<close>

definition DEFAULT_READ_BYTES :: nat where "DEFAULT_READ_BYTES = 32000"

definition READ_ARGUMENTS :: "string list" where
  "READ_ARGUMENTS = [''path'', ''start_line'', ''end_line'', ''offset'', ''max_bytes'']"

record read_data =
  rd_path :: string
  rd_sha256 :: string
  rd_size :: nat
  rd_content_bytes :: nat
  rd_consumed :: nat
  rd_start_line :: int
  rd_end_line :: int
  rd_truncated :: bool
  rd_offset :: nat
  rd_next_offset :: "nat option"
  rd_next_line :: "int option"
  rd_clipped :: "bool option"
  rd_line_count :: int

section \<open>Bounded decoding\<close>

text \<open>The strict decoder of \<open>bytes.decode\<close>; unlike the validator it takes a NUL.\<close>

definition decoder_run :: "string \<Rightarrow> utf8_state option" where
  "decoder_run s = utf8_run Ready (map (\<lambda>b. if b = NUL then CHR 0x20 else b) s)"

text \<open>Where the character starts in which the data end: \<open>exc.start\<close>.\<close>

definition last_boundary :: "string \<Rightarrow> nat" where
  "last_boundary s = hd (filter (\<lambda>k. decoder_run (take k s) = Some Ready) (rev [0..<Suc (length s)]))"

text \<open>\<open>_decode_bounded\<close>: an unfinished character at the end is cut off, and what is left decodes in
  the second round; any other fault is an error.\<close>

definition decode_bounded :: "string \<Rightarrow> exn + (string \<times> nat)" where
  "decode_bounded raw =
     (case decoder_run raw of
        None \<Rightarrow> Inl (ToolError INVALID_UTF8)
      | Some _ \<Rightarrow> (let candidate = take (last_boundary raw) raw in Inr (candidate, length candidate)))"

definition read_bounded :: "string \<Rightarrow> nat \<Rightarrow> nat \<Rightarrow> string" where
  "read_bounded c offset limit = take limit (drop offset c)"

section \<open>Lines\<close>

text \<open>\<open>_line_range_offsets\<close>: one pass over the chunks, counting newline bytes; the state is the
  count, the two offsets, and the position in the file.\<close>

record line_scan =
  ls_count :: int
  ls_start :: nat
  ls_end :: nat
  ls_position :: nat

definition scan_byte :: "int \<Rightarrow> int option \<Rightarrow> char \<Rightarrow> line_scan \<Rightarrow> line_scan" where
  "scan_byte start_line end_line b st =
     (let absolute = ls_position st
      in if b \<noteq> LF then st\<lparr>ls_position := absolute + 1\<rparr>
         else (let n = ls_count st + 1
               in \<lparr>ls_count = n,
                   ls_start = (if n + 1 = start_line then absolute + 1 else ls_start st),
                   ls_end = (if end_line = Some n then absolute else ls_end st),
                   ls_position = absolute + 1\<rparr>))"

definition scan_chunk :: "int \<Rightarrow> int option \<Rightarrow> string \<Rightarrow> line_scan \<Rightarrow> line_scan" where
  "scan_chunk start_line end_line chunk st = fold (scan_byte start_line end_line) chunk st"

definition scan_init :: "string \<Rightarrow> line_scan" where
  "scan_init c = \<lparr>ls_count = 0, ls_start = 0, ls_end = length c, ls_position = 0\<rparr>"

definition line_range_offsets :: "string \<Rightarrow> int \<Rightarrow> int option \<Rightarrow> int \<times> nat \<times> nat" where
  "line_range_offsets c start_line end_line =
     (if c = [] then (0, 0, 0)
      else (let chunks = read_chunks c;
                st = fold (scan_chunk start_line end_line) chunks (scan_init c)
            in ((if last (last chunks) = LF then ls_count st else ls_count st + 1), ls_start st, ls_end st)))"

section \<open>The tool\<close>

text \<open>The request: the path, the byte limit, and the file it names.\<close>

definition read_request :: "nat \<Rightarrow> pydict \<Rightarrow> exn + (string \<times> nat)" where
  "read_request max_bytes args =
     (if \<not> set (dkeys args) \<subseteq> set READ_ARGUMENTS then Inl (ToolError INVALID_ARGUMENTS)
      else (case dget args ''path'' of
          PStr relative \<Rightarrow>
            if relative = [] then Inl (ToolError INVALID_ARGUMENTS)
            else (case dget_or args ''max_bytes'' (PInt (int DEFAULT_READ_BYTES)) of
                PInt n \<Rightarrow> if n < 1 then Inl (ToolError INVALID_ARGUMENTS) else Inr (relative, min max_bytes (nat n))
              | _ \<Rightarrow> Inl (ToolError INVALID_ARGUMENTS))
        | _ \<Rightarrow> Inl (ToolError INVALID_ARGUMENTS)))"

definition read_target :: "fs_env \<Rightarrow> node \<Rightarrow> string \<Rightarrow> exn + string" where
  "read_target env t relative =
     rbind (normalize_relative (nfc env) (extra_globs env) False relative) (\<lambda>normalized.
     rbind (ensure (\<not> is_tool_excluded (extra_globs env) normalized) (ToolError PATH_MISSING)) (\<lambda>_.
     rbind (case safe_path (nfc env) (extra_globs env) (behind_links env) t True False relative of
              Inl FileNotFound \<Rightarrow> Inl (ToolError PATH_MISSING)
            | r \<Rightarrow> r) (\<lambda>p.
     rbind (require_regular_file (lookup t p)) (\<lambda>_.
       (case lookup t p of
          Some (File c m k) \<Rightarrow> rbind (validate_utf8_chunks (read_chunks c)) (\<lambda>_. Inr c)
        | _ \<Rightarrow> Inl (ToolError PATH_INVALID_TYPE))))))"

definition is_int :: "pyval \<Rightarrow> bool" where
  "is_int v = (case v of PInt _ \<Rightarrow> True | _ \<Rightarrow> False)"

definition int_value :: "pyval \<Rightarrow> int" where
  "int_value v = (case v of PInt n \<Rightarrow> n | _ \<Rightarrow> 0)"

text \<open>\<open>start_line\<close> and \<open>end_line\<close>, after their types are checked.\<close>

definition line_arguments :: "pydict \<Rightarrow> exn + (int \<times> int option)" where
  "line_arguments args =
     (let s = dget_or args ''start_line'' (PInt 1); e = dget args ''end_line''
      in if \<not> is_int s then Inl (ToolError INVALID_ARGUMENTS)
         else if e \<noteq> PNone \<and> \<not> is_int e then Inl (ToolError INVALID_ARGUMENTS)
         else Inr (max 1 (int_value s), if e = PNone then None else Some (int_value e)))"

text \<open>The branch of \<open>read\<close> for a line range.\<close>

definition read_lines ::
  "fs_env \<Rightarrow> nat \<Rightarrow> string \<Rightarrow> string \<Rightarrow> int \<Rightarrow> int option \<Rightarrow> exn + (string \<times> read_data)" where
  "read_lines env byte_limit relative c start_line end_line =
     (case line_range_offsets c start_line end_line of (line_count, start_offset, end_offset) \<Rightarrow>
        if start_line > line_count \<or> (case end_line of None \<Rightarrow> False | Some e \<Rightarrow> e < start_line)
        then Inl (ToolError INVALID_ARGUMENTS)
        else
          (let requested = (case end_line of None \<Rightarrow> line_count | Some e \<Rightarrow> if e = 0 then line_count else e);
               requested_end = min requested line_count
           in rbind (decode_bounded (read_bounded c start_offset (min byte_limit (end_offset - start_offset))))
             (\<lambda>(txt, consumed).
               let next = start_offset + consumed;
                   truncated = (next < end_offset);
                   next_line = (if truncated then start_line + newlines txt else requested_end + 1);
                   txt' = (if truncated then txt else join [LF] (splitlines txt))
               in Inr (txt',
                  \<lparr>rd_path = relative, rd_sha256 = sha env c, rd_size = length c, rd_content_bytes = length txt',
                   rd_consumed = consumed, rd_start_line = start_line,
                   rd_end_line = max start_line (min requested_end (next_line - 1)), rd_truncated = truncated,
                   rd_offset = start_offset, rd_next_offset = (if truncated then Some next else None),
                   rd_next_line = (if truncated \<and> next_line > start_line then Some next_line else None),
                   rd_clipped = Some (requested > line_count), rd_line_count = line_count\<rparr>))))"

text \<open>The branch for a byte offset, or from the start.\<close>

definition continuation_byte :: "char \<Rightarrow> bool" where
  "continuation_byte b \<longleftrightarrow> 128 \<le> ord b \<and> ord b \<le> 191"

definition read_offset ::
  "fs_env \<Rightarrow> nat \<Rightarrow> string \<Rightarrow> string \<Rightarrow> bool \<Rightarrow> pyval \<Rightarrow> exn + (string \<times> read_data)" where
  "read_offset env byte_limit relative c has_offset v =
     (if \<not> is_int v \<or> int_value v < 0 then Inl (ToolError INVALID_ARGUMENTS)
      else (let offset = nat (int_value v)
            in if offset > length c then Inl (ToolError INVALID_ARGUMENTS)
               else if offset < length c \<and> continuation_byte (c ! offset) then Inl (ToolError INVALID_ARGUMENTS)
               else rbind (decode_bounded (read_bounded c offset byte_limit)) (\<lambda>(txt, consumed).
                 let next = offset + consumed;
                     truncated = (next < length c);
                     txt' = (if \<not> has_offset \<and> \<not> truncated then join [LF] (splitlines txt) else txt);
                     continued = truncated \<and> \<not> has_offset
                 in Inr (txt',
                    \<lparr>rd_path = relative, rd_sha256 = sha env c, rd_size = length c, rd_content_bytes = length txt',
                     rd_consumed = consumed, rd_start_line = 1,
                     rd_end_line = (if continued then max 1 (newlines txt') else newlines txt' + 1), rd_truncated = truncated,
                     rd_offset = offset, rd_next_offset = (if truncated then Some next else None),
                     rd_next_line = (if continued \<and> newlines txt' \<noteq> 0 then Some (newlines txt' + 1) else None),
                     rd_clipped = None, rd_line_count = count_lines_chunked (read_chunks c)\<rparr>))))"

definition read :: "fs_env \<Rightarrow> nat \<Rightarrow> pydict \<Rightarrow> node \<Rightarrow> exn + (string \<times> read_data)" where
  "read env max_bytes args t =
     rbind (read_request max_bytes args) (\<lambda>(relative, byte_limit).
     rbind (read_target env t relative) (\<lambda>c.
       let has_range = (has_key args ''start_line'' \<or> has_key args ''end_line'');
           has_offset = has_key args ''offset''
       in if has_range \<and> has_offset then Inl (ToolError INVALID_ARGUMENTS)
          else rbind (line_arguments args) (\<lambda>(start_line, end_line).
            if has_range then read_lines env byte_limit relative c start_line end_line
            else read_offset env byte_limit relative c has_offset (dget_or args ''offset'' (PInt 0)))))"

section \<open>Following the continuation\<close>

text \<open>The request a truncated page leads to (\<open>next_start_line\<close> if there is one, else
  \<open>next_offset\<close>), and the pages in order.  The fuel bounds the number of pages.\<close>

definition continue_request :: "string \<Rightarrow> read_data \<Rightarrow> pydict" where
  "continue_request relative d =
     (case rd_next_line d of
        Some n \<Rightarrow> [(''path'', PStr relative), (''start_line'', PInt n)]
      | None \<Rightarrow> [(''path'', PStr relative), (''offset'', PInt (case rd_next_offset d of None \<Rightarrow> 0 | Some n \<Rightarrow> int n))])"

fun read_pages :: "fs_env \<Rightarrow> nat \<Rightarrow> string \<Rightarrow> node \<Rightarrow> nat \<Rightarrow> pydict \<Rightarrow> (exn + (string \<times> read_data) list) option" where
  "read_pages env max_bytes relative t 0 args = None"
| "read_pages env max_bytes relative t (Suc n) args =
     (case read env max_bytes args t of
        Inl e \<Rightarrow> Some (Inl e)
      | Inr (txt, d) \<Rightarrow>
          if rd_truncated d then
            map_option (\<lambda>r. rbind r (\<lambda>ps. Inr ((txt, d) # ps))) (read_pages env max_bytes relative t n (continue_request relative d))
          else Some (Inr [(txt, d)]))"

section \<open>Decoding stops at a character boundary\<close>

lemma ord_NUL: "ord NUL = 0"
  by code_simp

lemma le_last: "sorted ks \<Longrightarrow> j \<in> set ks \<Longrightarrow> j \<le> last (ks :: nat list)"
  by (induction ks) auto

lemma utf8_run_NUL: "utf8_run st s = Some st' \<Longrightarrow> NUL \<notin> set s"
proof (induction s arbitrary: st)
  case (Cons c s)
  then obtain st1 where "utf8_step st c = Some st1" "utf8_run st1 s = Some st'" by (auto split: option.splits)
  with Cons.IH[OF this(2)] show ?case by (cases st) (auto simp: Let_def ord_NUL split: if_splits)
qed simp

lemma decoder_run_text: "NUL \<notin> set s \<Longrightarrow> decoder_run s = utf8_run Ready s"
proof -
  assume "NUL \<notin> set s"
  then have "map (\<lambda>b. if b = NUL then CHR 0x20 else b) s = s" by (intro map_idI) auto
  then show ?thesis by (simp add: decoder_run_def)
qed

lemma utf8_run_take: "utf8_run st s = Some st' \<Longrightarrow> \<exists>st1. utf8_run st (take k s) = Some st1"
  using utf8_run_append[of st "take k s" "drop k s"] by (auto split: option.splits)

lemma decode_bounded_prefix:
  assumes "utf8_run Ready raw = Some st"
  obtains k where "decode_bounded raw = Inr (take k raw, k)" "k \<le> length raw"
    "utf8_run Ready (take k raw) = Some Ready"
    "\<And>j. j \<le> length raw \<Longrightarrow> utf8_run Ready (take j raw) = Some Ready \<Longrightarrow> j \<le> k"
proof -
  from assms have nul: "NUL \<notin> set raw" by (rule utf8_run_NUL)
  then have run: "decoder_run (take j raw) = utf8_run Ready (take j raw)" for j
    using set_take_subset[of j raw] by (intro decoder_run_text) blast
  let ?ks = "filter (\<lambda>k. utf8_run Ready (take k raw) = Some Ready) [0..<Suc (length raw)]"
  have last: "last_boundary raw = last ?ks"
    unfolding last_boundary_def run by (simp only: rev_filter[symmetric] hd_rev)
  have mem: "0 \<in> set ?ks" by simp
  then have ne: "?ks \<noteq> []" by (metis empty_iff empty_set)
  then have in_ks: "last_boundary raw \<in> set ?ks" unfolding last using last_in_set by blast
  have max: "j \<le> last_boundary raw" if "j \<in> set ?ks" for j
  proof -
    have "sorted ?ks" by (simp only: sorted_wrt_filter sorted_upt)
    from le_last[OF this that] show ?thesis unfolding last .
  qed
  show ?thesis
    by (rule that[of "last_boundary raw"])
      (use in_ks max assms run[of "length raw"] in \<open>auto simp: decode_bounded_def Let_def less_Suc_eq_le simp del: upt_Suc\<close>)
qed

fun missing :: "utf8_state \<Rightarrow> nat" where
  "missing Ready = 0"
| "missing Need1 = 1"
| "missing Need2 = 2"
| "missing AfterE0 = 2"
| "missing AfterED = 2"
| "missing _ = 3"

lemma missing_step: "utf8_step st c = Some st' \<Longrightarrow> st \<noteq> Ready \<Longrightarrow> missing st = Suc (missing st')"
  by (cases st) (auto split: if_splits)

lemma missing_zero: "missing st = 0 \<longleftrightarrow> st = Ready"
  by (cases st) auto

lemma missing_le: "missing st \<le> 3"
  by (cases st) auto

lemma utf8_run_reaches:
  "utf8_run st s = Some st' \<Longrightarrow> missing st \<le> length s \<Longrightarrow> utf8_run st (take (missing st) s) = Some Ready"
proof (induction s arbitrary: st)
  case (Cons c s)
  show ?case
  proof (cases "st = Ready")
    case False
    from Cons.prems obtain st1 where s1: "utf8_step st c = Some st1" "utf8_run st1 s = Some st'" by (auto split: option.splits)
    with missing_step[OF s1(1) False] Cons.IH[OF s1(2)] Cons.prems(2) show ?thesis by simp
  qed simp
qed (use missing_zero in auto)

lemma utf8_run_missing: "utf8_run st s = Some Ready \<Longrightarrow> missing st \<le> length s"
proof (induction s arbitrary: st)
  case (Cons c s)
  then obtain st1 where s1: "utf8_step st c = Some st1" "utf8_run st1 s = Some Ready" by (auto split: option.splits)
  with missing_step[OF s1(1)] Cons.IH[OF s1(2)] show ?case by (cases "st = Ready") auto
qed (cases st, auto)

text \<open>Four bytes always hold a whole character.\<close>

lemma boundary_within_four:
  assumes "utf8_run Ready s = Some st" and "s \<noteq> []" and "st = Ready \<or> 4 \<le> length s"
  shows "\<exists>k>0. k \<le> length s \<and> utf8_run Ready (take k s) = Some Ready"
proof -
  obtain c s1 where s: "s = c # s1" using assms(2) by (cases s) auto
  with assms(1) obtain st1 where s1: "utf8_step Ready c = Some st1" "utf8_run st1 s1 = Some st"
    by (cases "utf8_step Ready c") auto
  have "missing st1 \<le> length s1"
    using assms(3) s utf8_run_missing[of st1 s1] s1(2) missing_le[of st1] by auto
  from utf8_run_reaches[OF s1(2) this] s1(1) s this
  show ?thesis by (intro exI[of _ "Suc (missing st1)"]) (simp del: utf8_step.simps)
qed

text \<open>A page of valid text that starts at a boundary: it decodes to a prefix of what is left, ends
  at a boundary, and is not empty when there is room for four bytes.\<close>

lemma decode_page:
  assumes v: "valid_text c" and off: "off \<le> length c" "utf8_run Ready (take off c) = Some Ready"
  shows "\<exists>k. decode_bounded (take n (drop off c)) = Inr (take k (drop off c), k)
    \<and> k \<le> n \<and> off + k \<le> length c \<and> utf8_run Ready (take (off + k) c) = Some Ready
    \<and> (4 \<le> n \<longrightarrow> off < length c \<longrightarrow> 0 < k)
    \<and> (\<forall>j. j \<le> n \<longrightarrow> off + j \<le> length c \<longrightarrow> utf8_run Ready (take (off + j) c) = Some Ready \<longrightarrow> j \<le> k)"
proof -
  have upto: "utf8_run Ready (take (off + j) c) = utf8_run Ready (take j (drop off c))" for j
    using utf8_run_append[of Ready "take off c" "take j (drop off c)"] off(2) by (simp add: take_add)
  let ?raw = "take n (drop off c)"
  have rest: "utf8_run Ready (drop off c) = Some Ready"
    using v utf8_run_append[of Ready "take off c" "drop off c"] off(2) by (simp add: valid_text_def)
  from utf8_run_take[OF this] obtain st where st: "utf8_run Ready ?raw = Some st" by blast
  from decode_bounded_prefix[OF this] obtain k where k: "decode_bounded ?raw = Inr (take k ?raw, k)" "k \<le> length ?raw"
    "utf8_run Ready (take k ?raw) = Some Ready"
    "\<And>j. j \<le> length ?raw \<Longrightarrow> utf8_run Ready (take j ?raw) = Some Ready \<Longrightarrow> j \<le> k" by blast
  have pos: "0 < k" if n: "4 \<le> n" "off < length c"
  proof -
    have "st = Ready \<or> 4 \<le> length ?raw"
    proof (cases "n \<le> length (drop off c)")
      case False
      then have "?raw = drop off c" by simp
      with st rest show ?thesis by simp
    qed (use n in simp)
    from boundary_within_four[OF st _ this] n obtain j where "0 < j" "j \<le> length ?raw" "utf8_run Ready (take j ?raw) = Some Ready"
      by auto
    with k(4) show ?thesis by force
  qed
  have max: "j \<le> k" if "j \<le> n" "off + j \<le> length c" "utf8_run Ready (take (off + j) c) = Some Ready" for j
    using k(4)[of j] that upto[of j] by (simp add: min_absorb1)
  have "decode_bounded ?raw = Inr (take k (drop off c), k)" using k(1,2) by (simp add: min_absorb1)
  moreover have "k \<le> n" "off + k \<le> length c" using k(2) off by auto
  moreover have "utf8_run Ready (take (off + k) c) = Some Ready" using k(2,3) by (simp add: upto min_absorb1)
  ultimately show ?thesis using max pos by (intro exI[of _ k]) blast
qed

text \<open>The first byte tells whether an offset is a boundary.\<close>

lemma boundary_first_byte:
  assumes "valid_text c" and "off < length c"
  shows "utf8_run Ready (take off c) = Some Ready \<longleftrightarrow> \<not> continuation_byte (c ! off)"
proof -
  have c: "c = take off c @ c ! off # drop (Suc off) c" using assms(2) by (simp add: id_take_nth_drop)
  from utf8_run_take assms(1) obtain st where st: "utf8_run Ready (take off c) = Some st" unfolding valid_text_def by blast
  with assms(1) c utf8_run_append[of Ready "take off c" "c ! off # drop (Suc off) c"]
  have step: "utf8_step st (c ! off) \<noteq> None" by (auto simp: valid_text_def split: option.splits)
  show ?thesis
  proof (cases "st = Ready")
    case True
    with step st show ?thesis by (auto simp: continuation_byte_def Let_def split: if_splits)
  next
    case False
    with step have "continuation_byte (c ! off)" by (cases st) (auto simp: continuation_byte_def split: if_splits)
    with st False show ?thesis by simp
  qed
qed

section \<open>What the scan for lines finds\<close>

lemma fold_scan_chunks: "fold (scan_chunk a e) chunks st = fold (scan_byte a e) (concat chunks) st"
  by (induction chunks arbitrary: st) (auto simp: scan_chunk_def)

lemma scan_count:
  "ls_count (fold (scan_byte a e) s st) = ls_count st + newlines s
    \<and> ls_position (fold (scan_byte a e) s st) = ls_position st + length s"
  by (induction s arbitrary: st) (auto simp: scan_byte_def Let_def)

lemma newlines_nonneg: "0 \<le> newlines s"
  by (simp add: newlines_def)

lemma scan_start_keeps:
  "\<not> (ls_count st + 1 < a \<and> a \<le> ls_count st + 1 + newlines s) \<Longrightarrow> ls_start (fold (scan_byte a e) s st) = ls_start st"
proof (induction s arbitrary: st)
  case (Cons b s)
  then show ?case using newlines_nonneg[of s] by (auto simp: scan_byte_def Let_def)
qed simp

lemma scan_end_keeps:
  "(\<And>n. e = Some n \<Longrightarrow> \<not> (ls_count st < n \<and> n \<le> ls_count st + newlines s)) \<Longrightarrow>
    ls_end (fold (scan_byte a e) s st) = ls_end st"
proof (induction s arbitrary: st)
  case (Cons b s)
  have "ls_end (fold (scan_byte a e) s (scan_byte a e b st)) = ls_end (scan_byte a e b st)"
  proof (rule Cons.IH)
    fix n assume "e = Some n"
    with Cons.prems[of n] newlines_nonneg[of s]
    show "\<not> (ls_count (scan_byte a e b st) < n \<and> n \<le> ls_count (scan_byte a e b st) + newlines s)"
      by (auto simp: scan_byte_def Let_def split: if_splits)
  qed
  moreover have "ls_end (scan_byte a e b st) = ls_end st"
    using Cons.prems newlines_nonneg[of s] by (auto simp: scan_byte_def Let_def)
  ultimately show ?case by simp
qed simp

lemma scan_start_at:
  assumes "newlines pre = a - 2 - ls_count st"
  shows "ls_start (fold (scan_byte a e) (pre @ LF # rest) st) = ls_position st + length pre + 1"
proof -
  let ?st = "fold (scan_byte a e) pre st"
  have "ls_count (scan_byte a e LF ?st) = a - 1" "ls_start (scan_byte a e LF ?st) = ls_position st + length pre + 1"
    using scan_count[of a e pre st] assms by (auto simp: scan_byte_def Let_def)
  with scan_start_keeps[of "scan_byte a e LF ?st" a rest e] show ?thesis by simp
qed

lemma scan_end_at:
  assumes "newlines pre = n - 1 - ls_count st"
  shows "ls_end (fold (scan_byte a (Some n)) (pre @ LF # rest) st) = ls_position st + length pre"
proof -
  let ?st = "fold (scan_byte a (Some n)) pre st"
  have "ls_count (scan_byte a (Some n) LF ?st) = n" "ls_end (scan_byte a (Some n) LF ?st) = ls_position st + length pre"
    using scan_count[of a "Some n" pre st] assms by (auto simp: scan_byte_def Let_def)
  with scan_end_keeps[of "Some n" "scan_byte a (Some n) LF ?st" rest a] show ?thesis by simp
qed

lemma last_last_concat: "cs \<noteq> [] \<Longrightarrow> last cs \<noteq> [] \<Longrightarrow> last (last cs) = last (concat cs)"
  by (cases cs rule: rev_cases) auto

lemma line_range_offsets_scan:
  "c \<noteq> [] \<Longrightarrow> line_range_offsets c a e =
    (let st = fold (scan_byte a e) c (scan_init c)
     in (count_lines c, ls_start st, ls_end st))"
proof -
  assume c: "c \<noteq> []"
  then have ne: "read_chunks c \<noteq> []" using concat_read_chunks[of c] by (metis concat.simps(1))
  then have "last (read_chunks c) \<noteq> []" using chunked_not_Nil last_in_set unfolding read_chunks_def by blast
  then have "last (last (read_chunks c)) = last (concat (read_chunks c))"
    by (rule last_last_concat[OF ne])
  then show ?thesis
    using c by (simp add: line_range_offsets_def fold_scan_chunks Let_def scan_count count_lines_def scan_init_def)
qed

lemma fst_line_range_offsets: "fst (line_range_offsets c a e) = count_lines c"
  by (cases "c = []") (simp_all add: line_range_offsets_scan Let_def, simp add: line_range_offsets_def count_lines_def)

subsection \<open>Lines of a text\<close>

definition terminated :: "string list \<Rightarrow> string" where
  "terminated ls = concat (map (\<lambda>l. l @ [LF]) ls)"

lemma join_terminated: "ls \<noteq> [] \<Longrightarrow> join [LF] ls @ [LF] = terminated ls"
proof (induction ls)
  case (Cons l ls)
  then show ?case by (cases ls) (auto simp: terminated_def)
qed simp

lemma join_lines_append: "ys \<noteq> [] \<Longrightarrow> join [LF] (xs @ ys) = terminated xs @ join [LF] ys"
proof (induction xs)
  case (Cons x xs)
  then show ?case by (cases "xs @ ys") (auto simp: terminated_def)
qed (simp add: terminated_def)

lemma newlines_free: "LF \<notin> set l \<Longrightarrow> newlines l = 0"
  by (induction l) auto

lemma newlines_terminated: "\<forall>l\<in>set ls. LF \<notin> set l \<Longrightarrow> newlines (terminated ls) = int (length ls)"
  by (induction ls) (auto simp: terminated_def newlines_free)

lemma newlines_join:
  assumes "ls \<noteq> []" and "\<forall>l\<in>set ls. LF \<notin> set l"
  shows "newlines (join [LF] ls) = int (length ls) - 1"
proof -
  have "newlines (join [LF] ls @ [LF]) = int (length ls)"
    unfolding join_terminated[OF assms(1)] by (rule newlines_terminated[OF assms(2)])
  then show ?thesis by simp
qed

abbreviation text_lines :: "string \<Rightarrow> string list" where
  "text_lines c \<equiv> split_on LF c"

lemma text_lines_free: "\<forall>l\<in>set (text_lines c). LF \<notin> set l"
  using split_on_free by blast

lemma length_text_lines: "int (length (text_lines c)) = newlines c + 1"
  using newlines_join[OF split_on_not_Nil text_lines_free, of c] by simp

lemma count_lines_le: "count_lines c \<le> newlines c + 1"
  using newlines_nonneg[of c] by (simp add: count_lines_def)

text \<open>Where a line starts, and where the range ends.\<close>

lemma line_start_found:
  assumes c: "c \<noteq> []" and a: "1 \<le> a" "a \<le> newlines c + 1"
  shows "fst (snd (line_range_offsets c a e)) = length (terminated (take (nat a - 1) (text_lines c)))"
proof (cases "a = 1")
  case True
  then show ?thesis using c newlines_nonneg[of c]
    by (simp add: line_range_offsets_scan Let_def scan_start_keeps terminated_def scan_init_def)
next
  case False
  let ?ls = "text_lines c" and ?k = "nat a - 1"
  have k: "0 < ?k" "?k < length ?ls" using a False length_text_lines[of c] by auto
  then have ne: "take ?k ?ls \<noteq> []" "drop ?k ?ls \<noteq> []" by auto
  define pre where "pre = join [LF] (take ?k ?ls)"
  have "c = join [LF] (take ?k ?ls @ drop ?k ?ls)" by (simp only: append_take_drop_id join_split_on)
  also have "\<dots> = terminated (take ?k ?ls) @ join [LF] (drop ?k ?ls)" by (rule join_lines_append[OF ne(2)])
  also have "\<dots> = pre @ LF # join [LF] (drop ?k ?ls)" using join_terminated[OF ne(1)] by (simp add: pre_def)
  finally have cs: "c = pre @ LF # join [LF] (drop ?k ?ls)" .
  have "newlines pre = a - 2"
  proof -
    have "\<forall>l\<in>set (take ?k ?ls). LF \<notin> set l" using text_lines_free[of c] by (meson in_set_takeD)
    from newlines_join[OF ne(1) this] k a show ?thesis by (simp add: pre_def)
  qed
  then have "ls_start (fold (scan_byte a e) (pre @ LF # join [LF] (drop ?k ?ls)) (scan_init c)) = length pre + 1"
    by (subst scan_start_at) (simp_all add: scan_init_def)
  moreover have "fst (snd (line_range_offsets c a e)) = ls_start (fold (scan_byte a e) (pre @ LF # join [LF] (drop ?k ?ls)) (scan_init c))"
    unfolding cs[symmetric] using c by (simp add: line_range_offsets_scan Let_def)
  ultimately have "fst (snd (line_range_offsets c a e)) = length pre + 1" by simp
  then show ?thesis using join_terminated[OF ne(1)] by (metis length_append_singleton pre_def Suc_eq_plus1)
qed

lemma line_end_found:
  assumes c: "c \<noteq> []" and e: "\<And>b. e = Some b \<Longrightarrow> 1 \<le> b"
  shows "snd (snd (line_range_offsets c a e)) =
    length (join [LF] (take (case e of None \<Rightarrow> length (text_lines c) | Some b \<Rightarrow> nat b) (text_lines c)))"
proof (cases "\<exists>b. e = Some b \<and> b \<le> newlines c")
  case False
  then have "length (text_lines c) \<le> (case e of None \<Rightarrow> length (text_lines c) | Some b \<Rightarrow> nat b)"
    using length_text_lines[of c] by (auto split: option.splits)
  moreover have "snd (snd (line_range_offsets c a e)) = length c"
    using c False by (auto simp: line_range_offsets_scan Let_def scan_init_def intro!: scan_end_keeps[THEN trans])
  ultimately show ?thesis by simp
next
  case True
  then obtain b where b: "e = Some b" "1 \<le> b" "b \<le> newlines c" using e by auto
  let ?ls = "text_lines c" and ?k = "nat b"
  have k: "0 < ?k" "?k < length ?ls" using b length_text_lines[of c] by auto
  then have ne: "take ?k ?ls \<noteq> []" "drop ?k ?ls \<noteq> []" by auto
  define pre where "pre = join [LF] (take ?k ?ls)"
  have "c = join [LF] (take ?k ?ls @ drop ?k ?ls)" by (simp only: append_take_drop_id join_split_on)
  also have "\<dots> = terminated (take ?k ?ls) @ join [LF] (drop ?k ?ls)" by (rule join_lines_append[OF ne(2)])
  also have "\<dots> = pre @ LF # join [LF] (drop ?k ?ls)" using join_terminated[OF ne(1)] by (simp add: pre_def)
  finally have cs: "c = pre @ LF # join [LF] (drop ?k ?ls)" .
  have "newlines pre = b - 1"
  proof -
    have "\<forall>l\<in>set (take ?k ?ls). LF \<notin> set l" using text_lines_free[of c] by (meson in_set_takeD)
    from newlines_join[OF ne(1) this] k b show ?thesis by (simp add: pre_def)
  qed
  then have "ls_end (fold (scan_byte a (Some b)) (pre @ LF # join [LF] (drop ?k ?ls)) (scan_init c)) = length pre"
    by (subst scan_end_at) (simp_all add: scan_init_def)
  moreover have "snd (snd (line_range_offsets c a e)) = ls_end (fold (scan_byte a (Some b)) (pre @ LF # join [LF] (drop ?k ?ls)) (scan_init c))"
    unfolding cs[symmetric] b(1) using c by (simp add: line_range_offsets_scan Let_def)
  ultimately show ?thesis using b(1) by (simp add: pre_def)
qed

text \<open>The bytes of a range of lines: the lines, with the newlines between them.\<close>

definition range_lines :: "string \<Rightarrow> int \<Rightarrow> int option \<Rightarrow> string list" where
  "range_lines c a e =
     drop (nat a - 1) (take (case e of None \<Rightarrow> length (text_lines c) | Some b \<Rightarrow> nat b) (text_lines c))"

definition range_text :: "string \<Rightarrow> int \<Rightarrow> int option \<Rightarrow> string" where
  "range_text c a e = join [LF] (range_lines c a e)"

lemma take_lines:
  "0 < k \<Longrightarrow> take (length (join [LF] (take k (text_lines c)))) c = join [LF] (take k (text_lines c))"
proof (cases "drop k (text_lines c) = []")
  case True
  then show ?thesis by simp
next
  case False
  assume "0 < k"
  then have ne: "take k (text_lines c) \<noteq> []" by simp
  have "c = join [LF] (take k (text_lines c) @ drop k (text_lines c))" by (simp only: append_take_drop_id join_split_on)
  also have "\<dots> = join [LF] (take k (text_lines c)) @ [LF] @ join [LF] (drop k (text_lines c))"
    unfolding join_lines_append[OF False] join_terminated[OF ne, symmetric] by (rule append_assoc)
  finally have cs: "c = join [LF] (take k (text_lines c)) @ [LF] @ join [LF] (drop k (text_lines c))" .
  define x y where "x = join [LF] (take k (text_lines c))" and "y = join [LF] (drop k (text_lines c))"
  from cs have "c = x @ [LF] @ y" by (simp only: x_def y_def)
  then show ?thesis unfolding x_def[symmetric] by simp
qed

lemma ord_LF: "ord LF = 10"
  by code_simp

lemma boundary_after_LF:
  assumes "valid_text c" and "c = x @ LF # y"
  shows "utf8_run Ready (take (length x + 1) c) = Some Ready" "utf8_run Ready (take (length x) c) = Some Ready"
proof -
  have c: "take (length x + 1) c = x @ [LF]" "take (length x) c = x" using assms(2) by simp_all
  from utf8_run_take assms(1) obtain st where st: "utf8_run Ready (take (length x + 1) c) = Some st" unfolding valid_text_def by blast
  with c obtain st1 where st1: "utf8_run Ready x = Some st1" "utf8_step st1 LF = Some st"
    by (auto simp: utf8_run_append split: option.splits)
  from st1(2) have "st1 = Ready \<and> st = Ready" by (cases st1) (auto simp: ord_LF)
  with st st1 c show "utf8_run Ready (take (length x + 1) c) = Some Ready" "utf8_run Ready (take (length x) c) = Some Ready" by simp_all
qed

lemma terminated_boundary:
  assumes "valid_text c" and "c = terminated ls @ y"
  shows "utf8_run Ready (take (length (terminated ls)) c) = Some Ready"
proof (cases ls rule: rev_cases)
  case (snoc ls' l)
  with assms(2) have c: "c = (terminated ls' @ l) @ LF # y" by (simp add: terminated_def)
  have "length (terminated ls) = length (terminated ls' @ l) + 1" using snoc by (simp add: terminated_def)
  with boundary_after_LF(1)[OF assms(1) c] show ?thesis by metis
qed (simp add: terminated_def)

lemma nth_after: "c = x @ b # y \<Longrightarrow> c ! length x = b"
  by simp

lemma range_found:
  assumes c: "c \<noteq> []" "valid_text c" and a: "1 \<le> a" "a \<le> newlines c + 1" and e: "\<And>b. e = Some b \<Longrightarrow> a \<le> b"
    and r: "line_range_offsets c a e = (n, so, eo)"
  shows "n = count_lines c" "so \<le> eo" "eo \<le> length c" "take (eo - so) (drop so c) = range_text c a e"
    "utf8_run Ready (take so c) = Some Ready" "utf8_run Ready (take eo c) = Some Ready"
    "so = length (terminated (take (nat a - 1) (text_lines c)))" "eo = length c \<or> c ! eo = LF" "e = None \<Longrightarrow> eo = length c"
proof -
  let ?ls = "text_lines c" and ?k = "nat a - 1"
  define B where "B = (case e of None \<Rightarrow> length ?ls | Some b \<Rightarrow> nat b)"
  have B: "?k < B" "?k < length ?ls" using a e length_text_lines[of c] by (auto simp: B_def split: option.splits)
  show so: "so = length (terminated (take ?k ?ls))" using line_start_found[OF c(1) a, of e] r by simp
  have b: "1 \<le> b" if "e = Some b" for b using e[OF that] a by simp
  have eo: "eo = length (join [LF] (take B ?ls))" using line_end_found[where a = a and e = e, OF c(1) b] r by (simp add: B_def)
  show "n = count_lines c" using r line_range_offsets_scan[OF c(1), of a e] by (simp add: Let_def)
  have upto: "take eo c = join [LF] (take B ?ls)" unfolding eo using B(1) by (intro take_lines) simp
  then have "length (take eo c) = eo" using eo by simp
  then show eo_len: "eo \<le> length c" by (metis length_take min.cobounded1)
  have split: "take B ?ls = take ?k ?ls @ range_lines c a e"
  proof -
    have "take ?k (take B ?ls) = take ?k ?ls" using B(1) by (simp add: min_def)
    moreover have "range_lines c a e = drop ?k (take B ?ls)" by (simp only: range_lines_def B_def)
    ultimately show ?thesis by (metis append_take_drop_id)
  qed
  have ne: "range_lines c a e \<noteq> []" using B by (simp add: range_lines_def B_def)
  have parts: "take eo c = terminated (take ?k ?ls) @ range_text c a e"
    unfolding upto split range_text_def by (rule join_lines_append[OF ne])
  have whole: "c = terminated (take ?k ?ls) @ range_text c a e @ drop eo c"
    using parts by (metis append_assoc append_take_drop_id)
  have "length (take eo c) = so + length (range_text c a e)" unfolding parts so by simp
  then have sum: "eo = so + length (range_text c a e)" using eo_len by simp
  then show "so \<le> eo" by simp
  define pre post where "pre = terminated (take ?k ?ls)" and "post = range_text c a e @ drop eo c"
  have pp: "c = pre @ post" "so = length pre" using whole so by (simp_all only: pre_def post_def)
  have "drop so c = post" using pp by simp
  then show "take (eo - so) (drop so c) = range_text c a e" unfolding post_def using sum by simp
  show "utf8_run Ready (take so c) = Some Ready" unfolding so by (rule terminated_boundary[OF c(2) whole])
  show "eo = length c \<or> c ! eo = LF"
  proof (cases "drop B ?ls = []")
    case True
    then have "take eo c = c" unfolding upto by simp
    then show ?thesis using eo_len by (metis le_antisym length_take min.bounded_iff order_refl)
  next
    case False
    have ne': "take B ?ls \<noteq> []" using B by auto
    have "c = join [LF] (take B ?ls @ drop B ?ls)" by (simp only: append_take_drop_id join_split_on)
    also have "\<dots> = (join [LF] (take B ?ls) @ [LF]) @ join [LF] (drop B ?ls)"
      unfolding join_lines_append[OF False] join_terminated[OF ne'] ..
    finally have "c = take eo c @ LF # join [LF] (drop B ?ls)" unfolding upto by simp
    from nth_after[OF this] show ?thesis using eo_len by (simp add: min_absorb2)
  qed
  then show "utf8_run Ready (take eo c) = Some Ready"
  proof
    assume "eo = length c" then show ?thesis using c(2) by (simp add: valid_text_def)
  next
    assume lf: "c ! eo = LF"
    show ?thesis
    proof (cases "eo < length c")
      case True
      with lf boundary_first_byte[OF c(2) True] show ?thesis by (simp add: continuation_byte_def ord_LF)
    qed (use eo_len c(2) in \<open>simp add: valid_text_def\<close>)
  qed
  assume "e = None"
  then have "take eo c = c" unfolding upto B_def by simp
  then show "eo = length c" using eo_len by (metis le_antisym length_take min.bounded_iff order_refl)
qed

section \<open>The pages\<close>

text \<open>What one page shows of the content, however it was asked for.\<close>

definition page_bytes :: "string \<Rightarrow> read_data \<Rightarrow> string" where
  "page_bytes c d = take (rd_consumed d) (drop (rd_offset d) c)"

definition page_ok :: "string \<Rightarrow> nat \<Rightarrow> string \<times> read_data \<Rightarrow> bool" where
  "page_ok c n pd = (case pd of (shown, d) \<Rightarrow>
     rd_consumed d \<le> n \<and> rd_offset d + rd_consumed d \<le> length c \<and> rd_size d = length c \<and> rd_line_count d = count_lines c
     \<and> (if rd_truncated d then
          shown = page_bytes c d \<and> rd_next_offset d = Some (rd_offset d + rd_consumed d)
          \<and> utf8_run Ready (take (rd_offset d + rd_consumed d) c) = Some Ready \<and> (4 \<le> n \<longrightarrow> 0 < rd_consumed d)
        else rd_next_offset d = None \<and> rd_next_line d = None
          \<and> (shown = page_bytes c d \<or> shown = join [LF] (splitlines (page_bytes c d)))))"

lemma count_lines_nonempty: "1 \<le> a \<Longrightarrow> a \<le> count_lines c \<Longrightarrow> c \<noteq> [] \<and> a \<le> newlines c + 1"
  using count_lines_le[of c] by (auto simp: count_lines_def)

lemma read_lines_page:
  assumes v: "valid_text c" and a: "1 \<le> a" "a \<le> count_lines c" and e: "\<And>b. e = Some b \<Longrightarrow> a \<le> b"
  obtains shown d where "read_lines env n relative c a e = Inr (shown, d)" "page_ok c n (shown, d)"
    "rd_sha256 d = sha env c" "rd_offset d = length (terminated (take (nat a - 1) (text_lines c)))"
    "rd_truncated d \<longleftrightarrow> n < length (range_text c a e)"
    "rd_truncated d \<longrightarrow> prefix shown (range_text c a e)"
    "\<not> rd_truncated d \<longrightarrow> shown = join [LF] (splitlines (range_text c a e))
      \<and> rd_consumed d = length (range_text c a e)"
    "rd_clipped d = Some (\<exists>b. e = Some b \<and> count_lines c < b)"
    "rd_truncated d \<longrightarrow> rd_next_line d = (if newlines shown = 0 then None else Some (a + newlines shown))"
    "e = None \<longrightarrow> rd_offset d + length (range_text c a e) = length c"
proof -
  from count_lines_nonempty[OF a] have c: "c \<noteq> []" "a \<le> newlines c + 1" by auto
  obtain m so eo where r: "line_range_offsets c a e = (m, so, eo)" by (metis prod_cases3)
  note f = range_found[OF c(1) v a(1) c(2) e r]
  let ?n = "min n (eo - so)"
  have len: "length (range_text c a e) = eo - so" using f(2-4) by (metis diff_le_mono length_drop length_take min_absorb2)
  obtain k where k: "decode_bounded (take ?n (drop so c)) = Inr (take k (drop so c), k)"
    "k \<le> ?n" "so + k \<le> length c" "utf8_run Ready (take (so + k) c) = Some Ready"
    "4 \<le> ?n \<Longrightarrow> so < length c \<Longrightarrow> 0 < k"
    "\<And>j. j \<le> ?n \<Longrightarrow> so + j \<le> length c \<Longrightarrow> utf8_run Ready (take (so + j) c) = Some Ready \<Longrightarrow> j \<le> k"
    using decode_page[OF v order_trans[OF f(2,3)] f(5), of ?n] by blast
  have trunc: "so + k < eo \<longleftrightarrow> n < eo - so"
    using k(2) k(6)[of "eo - so"] f(2,3,6) by (cases "n < eo - so") auto
  have pref: "take k (drop so c) = take k (range_text c a e)"
    using f(4) k(2) by (metis min.bounded_iff min_absorb1 take_take)
  have pos: "0 < k" if "so + k < eo" "4 \<le> n"
    using that trunc k(5) f(3) by simp
  have nl: "0 < newlines x \<longleftrightarrow> newlines x \<noteq> 0" for x using newlines_nonneg[of x] by linarith
  have whole: "take k (drop so c) = range_text c a e \<and> k = eo - so" if "\<not> so + k < eo"
    using that k(2) f(2,4) by (metis add_diff_cancel_left' le_add_diff_inverse le_antisym leI min.bounded_iff add_le_cancel_left)
  have notbad: "\<not> (a > m \<or> (case e of None \<Rightarrow> False | Some b \<Rightarrow> b < a))"
    using a(2) e f(1) by (auto split: option.splits)
  define req where "req = (case e of None \<Rightarrow> m | Some b \<Rightarrow> if b = 0 then m else b)"
  define nxt where "nxt = (if so + k < eo then a + newlines (take k (drop so c)) else min req m + 1)"
  define shown where "shown = (if so + k < eo then take k (drop so c) else join [LF] (splitlines (take k (drop so c))))"
  define d where "d = \<lparr>rd_path = relative, rd_sha256 = sha env c, rd_size = length c, rd_content_bytes = length shown,
     rd_consumed = k, rd_start_line = a, rd_end_line = max a (min (min req m) (nxt - 1)), rd_truncated = so + k < eo,
     rd_offset = so, rd_next_offset = (if so + k < eo then Some (so + k) else None),
     rd_next_line = (if so + k < eo \<and> nxt > a then Some nxt else None), rd_clipped = Some (req > m), rd_line_count = m\<rparr>"
  have res: "read_lines env n relative c a e = Inr (shown, d)"
    using notbad k(1) unfolding read_lines_def r read_bounded_def
    by (simp add: Let_def d_def shown_def nxt_def req_def)
  have req: "m < req \<longleftrightarrow> (\<exists>b. e = Some b \<and> count_lines c < b)"
    using e a f(1) by (auto simp: req_def split: option.splits)
  have ok: "page_ok c n (shown, d)"
    using k pos by (auto simp: page_ok_def page_bytes_def d_def shown_def f(1))
  show ?thesis
  proof (rule that[of shown d])
    show "rd_offset d = length (terminated (take (nat a - 1) (text_lines c)))" by (simp add: d_def f(7))
    show "rd_truncated d \<longleftrightarrow> n < length (range_text c a e)" by (simp add: d_def trunc len)
    show "rd_truncated d \<longrightarrow> prefix shown (range_text c a e)" using pref by (simp add: d_def shown_def take_is_prefix)
    show "\<not> rd_truncated d \<longrightarrow> shown = join [LF] (splitlines (range_text c a e)) \<and> rd_consumed d = length (range_text c a e)"
      using whole len f(4) by (auto simp: d_def shown_def)
    show "rd_clipped d = Some (\<exists>b. e = Some b \<and> count_lines c < b)" by (simp add: d_def req)
    show "rd_truncated d \<longrightarrow> rd_next_line d = (if newlines shown = 0 then None else Some (a + newlines shown))"
      using nl by (simp add: d_def shown_def nxt_def)
    show "e = None \<longrightarrow> rd_offset d + length (range_text c a e) = length c"
    proof
      assume "e = None"
      with f(9) have "eo = length c" by simp
      then show "rd_offset d + length (range_text c a e) = length c" using f(2) len by (simp add: d_def)
    qed
  qed (use res ok in \<open>simp_all add: d_def\<close>)
qed

lemma read_offset_page:
  assumes v: "valid_text c" and off: "off \<le> length c" "utf8_run Ready (take off c) = Some Ready"
  obtains shown d where "read_offset env n relative c has (PInt (int off)) = Inr (shown, d)" "page_ok c n (shown, d)"
    "rd_offset d = off" "rd_truncated d \<longleftrightarrow> off + rd_consumed d < length c" "rd_sha256 d = sha env c"
    "rd_truncated d \<longrightarrow> rd_next_line d = (if has \<or> newlines shown = 0 then None else Some (newlines shown + 1))"
    "length c - off \<le> n \<longrightarrow> \<not> rd_truncated d"
proof -
  obtain k where k: "decode_bounded (take n (drop off c)) = Inr (take k (drop off c), k)"
    "k \<le> n" "off + k \<le> length c" "utf8_run Ready (take (off + k) c) = Some Ready"
    "4 \<le> n \<Longrightarrow> off < length c \<Longrightarrow> 0 < k"
    "\<And>j. j \<le> n \<Longrightarrow> off + j \<le> length c \<Longrightarrow> utf8_run Ready (take (off + j) c) = Some Ready \<Longrightarrow> j \<le> k"
    using decode_page[OF v off, of n] by blast
  have fits: "\<not> off + k < length c" if "length c - off \<le> n"
    using that k(6)[of "length c - off"] off(1) v by (simp add: valid_text_def)
  have nb: "\<not> (off < length c \<and> continuation_byte (c ! off))" using boundary_first_byte[OF v] off(2) by blast
  show ?thesis
    by (rule that) (use off nb k fits in \<open>auto simp: read_offset_def read_bounded_def is_int_def int_value_def Let_def
        page_ok_def page_bytes_def count_lines_chunked_eq\<close>)
qed

section \<open>Following the continuation\<close>

abbreviation line_offset :: "string \<Rightarrow> nat \<Rightarrow> nat" where
  "line_offset c j \<equiv> length (terminated (take j (text_lines c)))"

lemma newlines_take_mono: "i \<le> j \<Longrightarrow> newlines (take i s) \<le> newlines (take j s)"
  using newlines_simps(3)[of "take i s" "take (j - i) (drop i s)"] newlines_nonneg[of "take (j - i) (drop i s)"]
  by (metis le_add_diff_inverse take_add le_add_same_cancel1)

lemma take_line_offset:
  assumes "j < length (text_lines c)"
  shows "take (line_offset c j) c = terminated (take j (text_lines c))" "newlines (take (line_offset c j) c) = int j"
proof -
  from assms have ne: "drop j (text_lines c) \<noteq> []" by simp
  have "c = join [LF] (take j (text_lines c) @ drop j (text_lines c))" by (simp only: append_take_drop_id join_split_on)
  also have "\<dots> = terminated (take j (text_lines c)) @ join [LF] (drop j (text_lines c))" by (rule join_lines_append[OF ne])
  finally have "c = terminated (take j (text_lines c)) @ join [LF] (drop j (text_lines c))" .
  then show t: "take (line_offset c j) c = terminated (take j (text_lines c))" by (metis append_eq_conv_conj)
  have "\<forall>l\<in>set (take j (text_lines c)). LF \<notin> set l" using text_lines_free[of c] by (meson in_set_takeD)
  from newlines_terminated[OF this] assms show "newlines (take (line_offset c j) c) = int j" unfolding t by simp
qed

lemma line_offset_le:
  assumes p: "newlines (take p c) = int j"
  shows "line_offset c j \<le> p"
proof (cases j)
  case 0
  then show ?thesis by (simp add: terminated_def)
next
  case (Suc i)
  have "newlines (take p c) \<le> newlines c" using newlines_take_mono[of p "max p (length c)" c] by simp
  then have j: "j < length (text_lines c)" using p length_text_lines[of c] by linarith
  have ne: "take j (text_lines c) \<noteq> []" using Suc j by auto
  define x where "x = join [LF] (take j (text_lines c))"
  have x: "terminated (take j (text_lines c)) = x @ [LF]" by (simp add: x_def join_terminated[OF ne])
  have cs: "c = x @ LF # drop (line_offset c j) c"
    using take_line_offset(1)[OF j] unfolding x by (metis append.assoc append_Cons append_Nil append_take_drop_id)
  have nx: "newlines x = int j - 1"
    using take_line_offset(2)[OF j, unfolded take_line_offset(1)[OF j], unfolded x] by simp
  show ?thesis
  proof (rule ccontr)
    assume "\<not> line_offset c j \<le> p"
    then have "p \<le> length x" using x by simp
    then have "take p c = take p x"
      using cs by (metis take_append diff_is_0_eq take_0 append_Nil2)
    then show False using p nx newlines_take_mono[of p "length x" x] \<open>p \<le> length x\<close> by simp
  qed
qed

lemma read_target_Inr:
  assumes "read_target env t relative = Inr c"
  shows "valid_text c \<and> (\<exists>n p m k. normalize_relative (nfc env) (extra_globs env) False relative = Inr n
    \<and> \<not> is_tool_excluded (extra_globs env) n
    \<and> safe_path (nfc env) (extra_globs env) (behind_links env) t True False relative = Inr p
    \<and> lookup t p = Some (File c m k) \<and> k \<le> 1)"
proof -
  let ?sp = "safe_path (nfc env) (extra_globs env) (behind_links env) t True False relative"
  from assms obtain n where n: "normalize_relative (nfc env) (extra_globs env) False relative = Inr n"
    "\<not> is_tool_excluded (extra_globs env) n" unfolding read_target_def by (auto simp: rbind_eq_Inr ensure_def split: if_splits)
  with assms obtain p where p: "(case ?sp of Inl FileNotFound \<Rightarrow> Inl (ToolError PATH_MISSING) | r \<Rightarrow> r) = Inr p"
    "require_regular_file (lookup t p) = Inr ()"
    "(case lookup t p of Some (File c m k) \<Rightarrow> rbind (validate_utf8_chunks (read_chunks c)) (\<lambda>_. Inr c)
       | _ \<Rightarrow> Inl (ToolError PATH_INVALID_TYPE)) = Inr c"
    unfolding read_target_def by (auto simp: rbind_eq_Inr)
  from p(1) have sp: "?sp = Inr p" by (auto split: sum.splits exn.splits)
  from p(2) obtain d m k where f: "lookup t p = Some (File d m k)" "k \<le> 1"
    by (auto simp: require_regular_file_def ensure_def split: option.splits node.splits if_splits)
  with p(3) have "d = c" "valid_text c" by (auto simp: rbind_eq_Inr validate_utf8_chunks_eq split: if_splits)
  with n sp f show ?thesis by blast
qed

text \<open>The requests of a client that reads on, and where their pages start.\<close>

definition asks :: "string \<Rightarrow> string \<Rightarrow> nat \<Rightarrow> pydict \<Rightarrow> bool" where
  "asks c relative off args \<longleftrightarrow>
     args = [(''path'', PStr relative)] \<and> off = 0
     \<or> (\<exists>a. 1 \<le> a \<and> a \<le> count_lines c \<and> off = line_offset c (nat a - 1)
          \<and> args = [(''path'', PStr relative), (''start_line'', PInt a)])
     \<or> off \<le> length c \<and> utf8_run Ready (take off c) = Some Ready
         \<and> args = [(''path'', PStr relative), (''offset'', PInt (int off))]"

lemmas read_args = read_request_def line_arguments_def dkeys_def has_key_def dget_def dget_or_def READ_ARGUMENTS_def
  is_int_def int_value_def DEFAULT_READ_BYTES_def

text \<open>The line after the newlines of a page that was cut starts inside the page.\<close>

lemma next_line_asks:
  assumes a: "1 \<le> a" "newlines (take off c) = a - 1" and k: "off + k < length c" and m: "newlines (take k (drop off c)) = m" "m \<noteq> 0"
  shows "\<exists>off'. off < off' \<and> off' \<le> off + k \<and> asks c relative off' [(''path'', PStr relative), (''start_line'', PInt (a + m))]"
proof -
  have m0: "0 < m" using m newlines_nonneg[of "take k (drop off c)"] by simp
  define j where "j = nat (a + m) - 1"
  have j: "int j = a + m - 1" using a m0 by (simp add: j_def)
  have n: "newlines (take (off + k) c) = int j" using a m j by (simp add: take_add)
  have "a + m \<le> count_lines c"
  proof -
    obtain y b where yb: "drop (off + k) c = y @ [b]" using k by (metis drop_eq_Nil leD rev_exhaust)
    then have c: "c = take (off + k) c @ y @ [b]" by (metis append_take_drop_id)
    have "newlines c = int j + newlines y + (if b = LF then 1 else 0)" using n arg_cong[OF c, of newlines] by simp
    moreover have "last c = b" using c by (metis append_assoc last_snoc)
    moreover have "c \<noteq> []" using k by auto
    ultimately show ?thesis using j newlines_nonneg[of y] by (simp add: count_lines_def)
  qed
  moreover have "off < line_offset c j"
  proof (rule ccontr)
    assume "\<not> off < line_offset c j"
    moreover have "j < length (text_lines c)"
      using n newlines_take_mono[of "off + k" "length c" c] k length_text_lines[of c] by simp
    ultimately have "int j \<le> newlines (take off c)" using take_line_offset(2) newlines_take_mono by (metis leI)
    with j a m0 show False by simp
  qed
  moreover have "nat (a + m) - 1 = j" by (simp add: j_def)
  ultimately show ?thesis using line_offset_le[OF n] a m0 unfolding asks_def
    by (intro exI[of _ "line_offset c j"] conjI disjI2 disjI1 exI[of _ "a + m"]) simp_all
qed

lemma read_step:
  assumes target: "read_target env t relative = Inr c" "relative \<noteq> []" and n: "4 \<le> max_bytes" and asked: "asks c relative off args"
  shows "\<exists>x d. read env max_bytes args t = Inr (x, d) \<and> page_ok c (min max_bytes DEFAULT_READ_BYTES) (x, d) \<and> rd_offset d = off
    \<and> (if rd_truncated d then \<exists>off'. off < off' \<and> off' \<le> off + rd_consumed d \<and> asks c relative off' (continue_request relative d)
       else off + rd_consumed d = length c)"
proof -
  let ?n = "min max_bytes DEFAULT_READ_BYTES"
  have v: "valid_text c" using read_target_Inr[OF target(1)] by simp
  have n4: "4 \<le> ?n" using n by (simp add: DEFAULT_READ_BYTES_def)
  have by_offset: "\<exists>off'. off < off' \<and> off' \<le> off + rd_consumed d \<and> asks c relative off' (continue_request relative d)"
    if "page_ok c ?n (x, d)" "rd_truncated d" "rd_next_line d = None" "rd_offset d = off" for x d
    using that n4 by (intro exI[of _ "off + rd_consumed d"]) (auto simp: page_ok_def continue_request_def asks_def)
  have by_line: "\<exists>off'. off < off' \<and> off' \<le> off + rd_consumed d \<and> asks c relative off' (continue_request relative d)"
    if ok: "page_ok c ?n (x, d)" "rd_truncated d" "off + rd_consumed d < length c" "rd_offset d = off"
      and a: "1 \<le> a" "newlines (take off c) = a - 1" and l: "rd_next_line d = (if newlines x = 0 then None else Some (a + newlines x))" for x d a
  proof (cases "newlines x = 0")
    case True
    with by_offset[OF ok(1,2) _ ok(4)] l show ?thesis by simp
  next
    case False
    have "x = take (rd_consumed d) (drop off c)" using ok by (simp add: page_ok_def page_bytes_def)
    with next_line_asks[OF a ok(3), of "newlines x"] False l show ?thesis by (simp add: continue_request_def)
  qed
  from asked consider
      (start) "args = [(''path'', PStr relative)]" "off = 0"
    | (line) a where "1 \<le> a" "a \<le> count_lines c" "off = line_offset c (nat a - 1)" "args = [(''path'', PStr relative), (''start_line'', PInt a)]"
    | (offset) "off \<le> length c" "utf8_run Ready (take off c) = Some Ready" "args = [(''path'', PStr relative), (''offset'', PInt (int off))]"
    unfolding asks_def by blast
  then show ?thesis
  proof cases
    case start
    obtain x d where p: "read_offset env ?n relative c False (PInt (int off)) = Inr (x, d)" "page_ok c ?n (x, d)"
      "rd_offset d = off" "rd_truncated d \<longleftrightarrow> off + rd_consumed d < length c"
      "rd_truncated d \<longrightarrow> rd_next_line d = (if newlines x = 0 then None else Some (newlines x + 1))"
      by (rule read_offset_page[where off = off and env = env and n = ?n and relative = relative and has = False, OF v]) (use start(2) in auto)
    have "read env max_bytes args t = Inr (x, d)"
      using p(1) start target by (simp add: read_def read_args)
    moreover have "newlines (take off c) = 1 - 1" using start(2) by simp
    ultimately show ?thesis using p by_line[OF p(2), of 1] by (auto simp: page_ok_def add.commute)
  next
    case (line a)
    obtain x d where p: "read_lines env ?n relative c a None = Inr (x, d)" "page_ok c ?n (x, d)" "rd_offset d = off"
      "rd_truncated d \<longleftrightarrow> ?n < length (range_text c a None)"
      "\<not> rd_truncated d \<longrightarrow> rd_consumed d = length (range_text c a None)"
      "rd_truncated d \<longrightarrow> rd_next_line d = (if newlines x = 0 then None else Some (a + newlines x))"
      "rd_offset d + length (range_text c a None) = length c"
      by (rule read_lines_page[where e = None and env = env and n = ?n and relative = relative, OF v line(1,2)]) (use line(3) in auto)
    have j: "nat a - 1 < length (text_lines c)" using line count_lines_le[of c] length_text_lines[of c] by simp
    have "rd_consumed d \<le> ?n" using p(2) by (simp add: page_ok_def)
    from le_less_trans[OF this] p(4) have less: "rd_truncated d \<Longrightarrow> rd_consumed d < length (range_text c a None)" by blast
    have "newlines (take off c) = a - 1" using take_line_offset(2)[OF j] line by simp
    moreover have "rd_truncated d \<longleftrightarrow> off + rd_consumed d < length c"
      using p(3,5,7) by (cases "rd_truncated d") (simp, use less in linarith, simp)
    moreover have "read env max_bytes args t = Inr (x, d)"
      using p(1) line target by (simp add: read_def read_args)
    ultimately show ?thesis using p by_line[OF p(2), of a] line(1) by auto
  next
    case offset
    obtain x d where p: "read_offset env ?n relative c True (PInt (int off)) = Inr (x, d)" "page_ok c ?n (x, d)"
      "rd_offset d = off" "rd_truncated d \<longleftrightarrow> off + rd_consumed d < length c"
      "rd_truncated d \<longrightarrow> rd_next_line d = None"
      by (rule read_offset_page[where env = env and n = ?n and relative = relative and has = True, OF v offset(1,2)]) auto
    have "read env max_bytes args t = Inr (x, d)"
      using p(1) offset target by (simp add: read_def read_args)
    then show ?thesis using p by_offset[OF p(2)] by (auto simp: page_ok_def)
  qed
qed

section \<open>Lines that end with a newline only\<close>

definition plain_line :: "string \<Rightarrow> bool" where
  "plain_line l = list_all (\<lambda>k. line_break (drop k l) = 0) [0..<length l]"

lemma plain_line_Cons: "plain_line (b # l) \<longleftrightarrow> line_break (b # l) = 0 \<and> plain_line l"
proof -
  have eq: "[0..<length (b # l)] = 0 # map Suc [0..<length l]" by (simp only: list.size upt_conv_Cons map_Suc_upt) simp
  show ?thesis unfolding plain_line_def eq by (simp add: list.pred_map comp_def del: map_Suc_upt)
qed

lemma line_break_append:
  assumes "line_break (b # l) = 0"
  shows "line_break (b # l @ LF # r) = 0"
proof (cases l)
  case Nil
  with assms show ?thesis by (simp add: line_break_def startswith_Cons split: if_splits)
next
  case (Cons x l1)
  with assms show ?thesis by (cases l1) (simp_all add: line_break_def startswith_Cons split: if_splits)
qed

lemma split_plain_line: "plain_line l \<Longrightarrow> split_lines acc (l @ LF # r) = (acc @ l) # split_lines [] r"
proof (induction l arbitrary: acc)
  case Nil
  have "line_break (LF # r) = 1" by (simp add: line_break_def startswith_def)
  then show ?case by (subst split_lines.simps) simp
next
  case (Cons b l)
  then have "line_break ((b # l) @ LF # r) = 0" using line_break_append by (simp add: plain_line_Cons)
  then show ?case using Cons by (subst split_lines.simps) (simp add: plain_line_Cons)
qed

lemma split_last_line: "plain_line l \<Longrightarrow> split_lines acc l = (if acc @ l = [] then [] else [acc @ l])"
proof (induction l arbitrary: acc)
  case Nil
  then show ?case by (subst split_lines.simps) simp
next
  case (Cons b l)
  then show ?case by (subst split_lines.simps) (simp add: plain_line_Cons)
qed

lemma splitlines_join:
  "ls \<noteq> [] \<Longrightarrow> list_all plain_line ls \<Longrightarrow> splitlines (join [LF] ls) = (if last ls = [] then butlast ls else ls)"
proof (induction ls)
  case (Cons l ls)
  then show ?case
    by (cases ls) (auto simp: splitlines_def split_plain_line split_last_line)
qed simp

section \<open>Theorems\<close>

text \<open>Pages that follow each other without a hole, from an offset to the end of the content.\<close>

fun pages_cover :: "string \<Rightarrow> nat \<Rightarrow> nat \<Rightarrow> (string \<times> read_data) list \<Rightarrow> bool" where
  "pages_cover c n off [] = False"
| "pages_cover c n off (p # ps) =
     (page_ok c n p \<and> rd_offset (snd p) = off
      \<and> (case ps of
           [] \<Rightarrow> \<not> rd_truncated (snd p) \<and> off + rd_consumed (snd p) = length c
         | q # _ \<Rightarrow> rd_truncated (snd p) \<and> off < rd_offset (snd q) \<and> rd_offset (snd q) \<le> off + rd_consumed (snd p)
                  \<and> pages_cover c n (rd_offset (snd q)) ps))"

lemma read_pages_cover:
  assumes "read_target env t relative = Inr c" "relative \<noteq> []" "4 \<le> max_bytes"
  shows "asks c relative off args \<Longrightarrow> length c - off < fuel \<Longrightarrow>
    \<exists>ps. read_pages env max_bytes relative t fuel args = Some (Inr ps) \<and> pages_cover c (min max_bytes DEFAULT_READ_BYTES) off ps"
proof (induction fuel arbitrary: off args)
  case (Suc fuel)
  from read_step[OF assms Suc.prems(1)] obtain x d where r: "read env max_bytes args t = Inr (x, d)"
    "page_ok c (min max_bytes DEFAULT_READ_BYTES) (x, d)" "rd_offset d = off"
    "if rd_truncated d then \<exists>off'. off < off' \<and> off' \<le> off + rd_consumed d \<and> asks c relative off' (continue_request relative d)
       else off + rd_consumed d = length c" by blast
  show ?case
  proof (cases "rd_truncated d")
    case False
    with r show ?thesis by simp
  next
    case True
    with r(4) obtain off' where o: "off < off'" "off' \<le> off + rd_consumed d" "asks c relative off' (continue_request relative d)" by auto
    moreover have "off + rd_consumed d \<le> length c" using r(2,3) by (simp add: page_ok_def)
    ultimately have "length c - off' < fuel" using Suc.prems(2) by linarith
    from Suc.IH[OF o(3) this] obtain ps where ps: "read_pages env max_bytes relative t fuel (continue_request relative d) = Some (Inr ps)"
      "pages_cover c (min max_bytes DEFAULT_READ_BYTES) off' ps" by blast
    obtain q qs where q: "ps = q # qs" using ps(2) by (cases ps) auto
    with ps(2) have "rd_offset (snd q) = off'" by simp
    with r True ps o q show ?thesis by simp
  qed
qed simp

text \<open>
  Reading on reaches the end and leaves no hole.  A client reads a text file from the
  start and follows the continuation of every truncated page: \<open>next_start_line\<close> when the page
  offers one, \<open>next_offset\<close> otherwise.  With a byte limit that holds any character (four bytes), every
  read succeeds, every page but the last is truncated and shows exactly the bytes it accounts for, the
  next page starts inside or at the end of the one before and further on, and the last page ends where
  the file ends, after at most one page per byte.
\<close>

theorem reading_on_covers_the_file:
  assumes "read_target env t relative = Inr c" and "relative \<noteq> []" and "4 \<le> max_bytes"
  shows "\<exists>ps. read_pages env max_bytes relative t (Suc (length c)) [(''path'', PStr relative)] = Some (Inr ps)
    \<and> pages_cover c (min max_bytes DEFAULT_READ_BYTES) 0 ps"
  by (rule read_pages_cover[OF assms]) (simp_all add: asks_def)

definition sample_text :: string where
  "sample_text = [CHR ''a'', CHR ''b'', LF, CHR 0xC3, CHR 0xA9, CHR ''c'', CHR ''d'', CHR ''e'', LF, CHR ''f'', LF]"

definition sample_files :: node where
  "sample_files = Dir [(''f'', File sample_text 0x1A4 1)]"

lemma sample_target: "read_target plain_env sample_files ''f'' = Inr sample_text"
proof -
  have "normalize_relative (nfc plain_env) (extra_globs plain_env) False ''f'' = Inr ''f''" by code_simp
  moreover have "\<not> is_tool_excluded (extra_globs plain_env) ''f''" by code_simp
  moreover have "safe_path (nfc plain_env) (extra_globs plain_env) (behind_links plain_env) sample_files True False ''f'' = Inr [''f'']"
    by code_simp
  moreover have "valid_text sample_text" by code_simp
  ultimately show ?thesis
    by (simp add: read_target_def sample_files_def require_regular_file_def ensure_def validate_utf8_chunks_eq)
qed

theorem reading_on_covers_the_file_witness:
  "\<exists>ps. read_pages plain_env 4 ''f'' sample_files 12 [(''path'', PStr ''f'')] = Some (Inr ps) \<and> pages_cover sample_text 4 0 ps"
proof -
  have "length sample_text = 11" by (simp add: sample_text_def)
  with reading_on_covers_the_file[OF sample_target, of 4] show ?thesis by (simp add: DEFAULT_READ_BYTES_def eval_nat_numeral)
qed

text \<open>With less room than a character needs the read never moves on: the continuation of this page is
  the page itself.\<close>

lemma small_read_stands_still:
  "\<exists>d. read plain_env 1 [(''path'', PStr ''f''), (''offset'', PInt 3)] sample_files = Inr ([], d)
     \<and> rd_truncated d \<and> continue_request ''f'' d = [(''path'', PStr ''f''), (''offset'', PInt 3)]"
proof -
  have cut: "decode_bounded [CHR 0xC3] = Inr ([], 0)" "\<not> continuation_byte (CHR 0xC3)" by code_simp+
  have "\<exists>d. read_offset plain_env 1 ''f'' sample_text True (PInt 3) = Inr ([], d) \<and> rd_truncated d
    \<and> rd_next_line d = None \<and> rd_next_offset d = Some 3"
    using cut by (simp add: read_offset_def is_int_def int_value_def read_bounded_def sample_text_def Let_def)
  then show ?thesis
    using sample_target by (auto simp: read_def read_args continue_request_def)
qed

text \<open>
  A range of lines is exact.  For a text file and a range that starts at line 1 or later,
  \<open>read\<close> with \<open>start_line\<close> and \<open>end_line\<close> fails exactly when the range starts past the last line or ends
  before it starts.  Otherwise the page is clipped exactly when the range ends past the last line, and:
  if the bytes of the range fit the limit, the page is not truncated and its text is the range with
  every line boundary of \<open>str.splitlines\<close> turned into a newline and the last one dropped (for lines
  without other boundaries: the lines themselves, joined by newlines); if they do not fit, the page is
  truncated, its text is a prefix of the range within the limit, and it goes on at the first line that
  was not shown in full, if at least one was.
\<close>

theorem read_line_range_exact:
  assumes target: "read_target env t relative = Inr c" "relative \<noteq> []" and a: "1 \<le> a"
  shows "let n = min max_bytes DEFAULT_READ_BYTES;
      r = read env max_bytes [(''path'', PStr relative), (''start_line'', PInt a), (''end_line'', PInt b)] t
    in if count_lines c < a \<or> b < a then r = Inl (ToolError INVALID_ARGUMENTS)
    else \<exists>x d. r = Inr (x, d) \<and> rd_line_count d = count_lines c \<and> rd_clipped d = Some (count_lines c < b)
      \<and> (if length (range_text c a (Some b)) \<le> n
         then \<not> rd_truncated d \<and> x = join [LF] (splitlines (range_text c a (Some b)))
           \<and> (list_all plain_line (range_lines c a (Some b)) \<longrightarrow>
                x = join [LF] (if last (range_lines c a (Some b)) = [] then butlast (range_lines c a (Some b)) else range_lines c a (Some b)))
         else rd_truncated d \<and> prefix x (range_text c a (Some b)) \<and> length x \<le> n
           \<and> rd_next_line d = (if newlines x = 0 then None else Some (a + newlines x)))"
proof -
  define n where "n = min max_bytes DEFAULT_READ_BYTES"
  define r where "r = read env max_bytes [(''path'', PStr relative), (''start_line'', PInt a), (''end_line'', PInt b)] t"
  have v: "valid_text c" using read_target_Inr[OF target(1)] by simp
  have r: "r = read_lines env n relative c a (Some b)"
    using target a by (simp add: r_def n_def read_def read_args max_absorb2)
  note fold = n_def[symmetric] r_def[symmetric]
  show ?thesis
  proof (cases "count_lines c < a \<or> b < a")
    case True
    have "fst (line_range_offsets c a (Some b)) = count_lines c" by (rule fst_line_range_offsets)
    with True have "r = Inl (ToolError INVALID_ARGUMENTS)"
      unfolding r read_lines_def by (cases "line_range_offsets c a (Some b)") auto
    with True show ?thesis unfolding Let_def fold by simp
  next
    case False
    then have le: "a \<le> count_lines c" "a \<le> b" by auto
    from count_lines_nonempty[OF a le(1)] have "nat a - 1 < length (text_lines c)" "nat a - 1 < nat b"
      using a le length_text_lines[of c] by auto
    then have ne: "range_lines c a (Some b) \<noteq> []" by (simp add: range_lines_def)
    obtain x d where p: "read_lines env n relative c a (Some b) = Inr (x, d)" "page_ok c n (x, d)"
      "rd_truncated d \<longleftrightarrow> n < length (range_text c a (Some b))"
      "rd_truncated d \<longrightarrow> prefix x (range_text c a (Some b))"
      "\<not> rd_truncated d \<longrightarrow> x = join [LF] (splitlines (range_text c a (Some b))) \<and> rd_consumed d = length (range_text c a (Some b))"
      "rd_clipped d = Some (\<exists>b'. Some b = Some b' \<and> count_lines c < b')"
      "rd_truncated d \<longrightarrow> rd_next_line d = (if newlines x = 0 then None else Some (a + newlines x))"
      by (rule read_lines_page[where e = "Some b" and env = env and n = n and relative = relative, OF v a le(1)]) (use le(2) in auto)
    have "length x \<le> n" if "rd_truncated d" using p(2) that by (auto simp: page_ok_def page_bytes_def)
    then show ?thesis unfolding Let_def fold
      using False p r splitlines_join[OF ne] by (auto simp: page_ok_def range_text_def not_less)
  qed
qed

lemma sample_range:
  "count_lines sample_text = 3" "range_text sample_text 2 (Some 7) = [CHR 0xC3, CHR 0xA9, CHR ''c'', CHR ''d'', CHR ''e'', LF, CHR ''f'', LF]"
  "list_all plain_line (range_lines sample_text 2 (Some 7))"
  "join [LF] (if last (range_lines sample_text 2 (Some 7)) = [] then butlast (range_lines sample_text 2 (Some 7)) else range_lines sample_text 2 (Some 7))
    = [CHR 0xC3, CHR 0xA9, CHR ''c'', CHR ''d'', CHR ''e'', LF, CHR ''f'']"
  by code_simp+

theorem read_line_range_exact_witness:
  "\<exists>x d. read plain_env 100 [(''path'', PStr ''f''), (''start_line'', PInt 2), (''end_line'', PInt 7)] sample_files = Inr (x, d)
    \<and> x = [CHR 0xC3, CHR 0xA9, CHR ''c'', CHR ''d'', CHR ''e'', LF, CHR ''f''] \<and> rd_clipped d = Some True"
  using read_line_range_exact[OF sample_target, of 2 100 7] sample_range by (auto simp: DEFAULT_READ_BYTES_def Let_def)

lemma read_Inr:
  assumes "read env max_bytes args t = Inr r"
  obtains relative n c a e where "read_request max_bytes args = Inr (relative, n)" "read_target env t relative = Inr c"
    "line_arguments args = Inr (a, e)"
    "(if has_key args ''start_line'' \<or> has_key args ''end_line'' then read_lines env n relative c a e
      else read_offset env n relative c (has_key args ''offset'') (dget_or args ''offset'' (PInt 0))) = Inr r"
proof -
  obtain relative n where q: "read_request max_bytes args = Inr (relative, n)"
    using assms unfolding read_def by (cases "read_request max_bytes args") auto
  obtain c where c: "read_target env t relative = Inr c"
    using assms unfolding read_def q by (cases "read_target env t relative") simp_all
  obtain w where "line_arguments args = Inr w"
    using assms unfolding read_def q c by (cases "line_arguments args") (auto simp: Let_def split: if_splits)
  moreover obtain a e where "w = (a, e)" by (cases w)
  ultimately have l: "line_arguments args = Inr (a, e)" by simp
  have "(if has_key args ''start_line'' \<or> has_key args ''end_line'' then read_lines env n relative c a e
      else read_offset env n relative c (has_key args ''offset'') (dget_or args ''offset'' (PInt 0))) = Inr r"
    using assms q c l by (auto simp: read_def Let_def split: if_splits)
  with that[OF q c l] show ?thesis .
qed

lemma read_lines_Inr:
  assumes "read_lines env n relative c a e = Inr r"
  shows "a \<le> count_lines c \<and> (\<forall>b. e = Some b \<longrightarrow> a \<le> b)"
proof -
  obtain so eo where l: "line_range_offsets c a e = (count_lines c, so, eo)"
    using fst_line_range_offsets[of c a e] by (metis prod.collapse)
  have "\<not> (a > count_lines c \<or> (case e of None \<Rightarrow> False | Some b \<Rightarrow> b < a))"
  proof
    assume "a > count_lines c \<or> (case e of None \<Rightarrow> False | Some b \<Rightarrow> b < a)"
    then have "read_lines env n relative c a e = Inl (ToolError INVALID_ARGUMENTS)"
      unfolding read_lines_def l by (simp only: prod.case if_True)
    with assms show False by simp
  qed
  then show ?thesis by (auto split: option.splits)
qed

lemma read_offset_Inr:
  assumes "read_offset env n relative c has v = Inr r"
  obtains i where "v = PInt (int i)" "i \<le> length c" "\<not> (i < length c \<and> continuation_byte (c ! i))"
proof -
  from assms obtain z where z: "v = PInt z" "0 \<le> z"
    by (cases v) (simp_all add: read_offset_def is_int_def int_value_def split: if_splits)
  with assms that[of "nat z"] show ?thesis
    by (simp add: read_offset_def is_int_def int_value_def Let_def not_less split: if_splits)
qed

lemma below_file_is_dir: "lookup t p = Some (File c m k) \<Longrightarrow> strict_prefix q p \<Longrightarrow> is_dir (lookup t q)"
proof -
  assume f: "lookup t p = Some (File c m k)" and q: "strict_prefix q p"
  from q obtain y ys where "p = q @ y # ys" by (rule strict_prefixE')
  with f obtain d where d: "lookup t q = Some d" "lookup d (y # ys) = Some (File c m k)"
    by (auto simp: lookup_append split: option.splits)
  then show ?thesis by (cases d) simp_all
qed

text \<open>
  What a read shows.  Whatever the arguments, a read that succeeds shows a regular file with
  one name inside the root: it is reached through directories only (no symbolic link), none of the path's
  parts is hidden (a secret, version control, caches), the content is valid text and the reported hash is
  its hash, and the page is at most \<open>max_bytes\<close> bytes of it from the reported offset, up to the line
  boundaries at the end of an untruncated page.
\<close>

theorem reads_are_confined:
  assumes "read env max_bytes args t = Inr (x, d)"
  shows "\<exists>relative n p c m k. dget args ''path'' = PStr relative
    \<and> normalize_relative (nfc env) (extra_globs env) False relative = Inr n \<and> p = path_parts n
    \<and> \<not> list_ex (is_hidden_part (extra_globs env)) (posix_parts n)
    \<and> lookup t p = Some (File c m k) \<and> k \<le> 1 \<and> (\<forall>q. strict_prefix q p \<longrightarrow> is_dir (lookup t q))
    \<and> valid_text c \<and> rd_sha256 d = sha env c \<and> rd_consumed d \<le> max_bytes
    \<and> rd_offset d + rd_consumed d \<le> length c
    \<and> (x = page_bytes c d \<or> \<not> rd_truncated d \<and> x = join [LF] (splitlines (page_bytes c d)))"
proof -
  obtain relative n c a e where r: "read_request max_bytes args = Inr (relative, n)" "read_target env t relative = Inr c"
    "line_arguments args = Inr (a, e)"
    "(if has_key args ''start_line'' \<or> has_key args ''end_line'' then read_lines env n relative c a e
      else read_offset env n relative c (has_key args ''offset'') (dget_or args ''offset'' (PInt 0))) = Inr (x, d)"
    by (rule read_Inr[OF assms])
  have rel: "dget args ''path'' = PStr relative" "n \<le> max_bytes"
    using r(1) by (simp_all add: read_request_def split: if_splits pyval.splits)
  from read_target_Inr[OF r(2)] obtain nm p m k where f: "valid_text c"
    "normalize_relative (nfc env) (extra_globs env) False relative = Inr nm" "\<not> is_tool_excluded (extra_globs env) nm"
    "safe_path (nfc env) (extra_globs env) (behind_links env) t True False relative = Inr p"
    "lookup t p = Some (File c m k)" "k \<le> 1" by blast
  have p: "p = path_parts nm"
    using f(4) unfolding safe_path_def f(2) by (simp add: Let_def rbind_eq_Inr split: option.splits)
  have "page_ok c n (x, d) \<and> rd_sha256 d = sha env c"
  proof (cases "has_key args ''start_line'' \<or> has_key args ''end_line''")
    case True
    with r(4) have rl: "read_lines env n relative c a e = Inr (x, d)" by simp
    have a: "1 \<le> a" using r(3) by (auto simp: line_arguments_def Let_def split: if_splits)
    from read_lines_Inr[OF rl] have le: "a \<le> count_lines c" "\<forall>b. e = Some b \<longrightarrow> a \<le> b" by auto
    then have "\<And>b. e = Some b \<Longrightarrow> a \<le> b" by blast
    then obtain x' d' where "read_lines env n relative c a e = Inr (x', d')" "page_ok c n (x', d')" "rd_sha256 d' = sha env c"
      by (rule read_lines_page[where e = e and env = env and n = n and relative = relative, OF f(1) a le(1)]) auto
    with rl show ?thesis by simp
  next
    case False
    with r(4) have ro: "read_offset env n relative c (has_key args ''offset'') (dget_or args ''offset'' (PInt 0)) = Inr (x, d)" by simp
    obtain i where i: "dget_or args ''offset'' (PInt 0) = PInt (int i)" "i \<le> length c"
      "\<not> (i < length c \<and> continuation_byte (c ! i))" by (rule read_offset_Inr[OF ro])
    have "utf8_run Ready (take i c) = Some Ready"
      using i f(1) boundary_first_byte[OF f(1), of i] by (cases "i < length c") (auto simp: valid_text_def)
    then obtain x' d' where "read_offset env n relative c (has_key args ''offset'') (PInt (int i)) = Inr (x', d')"
      "page_ok c n (x', d')" "rd_sha256 d' = sha env c"
      by (rule read_offset_page[where env = env and n = n and relative = relative and has = "has_key args ''offset''", OF f(1) i(2)]) auto
    with ro i(1) show ?thesis by simp
  qed
  then have page: "rd_sha256 d = sha env c" "rd_consumed d \<le> max_bytes" "rd_offset d + rd_consumed d \<le> length c"
    "x = page_bytes c d \<or> \<not> rd_truncated d \<and> x = join [LF] (splitlines (page_bytes c d))"
    using rel(2) by (auto simp: page_ok_def split: if_splits)
  show ?thesis
    using rel(1) f(1,2,5,6) f(3)[unfolded is_tool_excluded_def] p page below_file_is_dir[OF f(5)]
    by (intro exI[of _ relative] exI[of _ nm] exI[of _ p] exI[of _ c] exI[of _ m] exI[of _ k] conjI allI impI) assumption+
qed

lemma sample_read:
  "\<exists>x d. read plain_env 100 [(''path'', PStr ''f'')] sample_files = Inr (x, d)"
proof -
  have "asks sample_text ''f'' 0 [(''path'', PStr ''f'')]" by (simp add: asks_def)
  from read_step[OF sample_target _ _ this, of 100] show ?thesis by auto
qed

theorem reads_are_confined_witness:
  "\<exists>x d. read plain_env 100 [(''path'', PStr ''f'')] sample_files = Inr (x, d)
    \<and> rd_sha256 d = sha plain_env sample_text"
proof -
  from sample_read obtain x d where r: "read plain_env 100 [(''path'', PStr ''f'')] sample_files = Inr (x, d)" by blast
  have "normalize_relative (nfc plain_env) (extra_globs plain_env) False ''f'' = Inr ''f''" "path_parts ''f'' = [''f'']" by code_simp+
  with reads_are_confined[OF r] have "rd_sha256 d = sha plain_env sample_text" by (auto simp: sample_files_def dget_def)
  with r show ?thesis by blast
qed

end
