(* ===== verification/Spec2Isabelle.thy ===== *)
theory Spec2Isabelle
  imports Permissions StreamEdit Exec_Config Risk Policy Budgets Plan Atomicity Manifests Egress Desktop_Publication Journal Compaction Read_Tool
begin

text \<open>
  A verification development of Euesto, a desktop application in Python in which a language model works
  on a staged copy of a user's workspace.

  The program has four parts that matter here.  The \<^emph>\<open>gateway\<close> (\<open>server/\<close>) runs the agent: it calls
  the model, counts what a run may spend, keeps the plan, and asks for permission before a tool runs.  The
  \<^emph>\<open>executor\<close> (\<open>executor/\<close>) owns the staging copy: it seeds it, runs the tools on it under checkpoints,
  and turns what changed into publication batches.  \<open>shared/\<close> holds what both sides agree on: tool
  requests, permission rules, the workspace policy, publication payloads and their risk.  The \<^emph>\<open>desktop\<close>
  (\<open>src/\<close>) shows it all and publishes batches to the host.

  \<^bold>\<open>Layout.\<close>  One theory per part of the source, in the order the code builds on itself.
  \<^item> \<open>Prelude\<close>: errors as values (\<open>rbind\<close>, \<open>ensure\<close>, \<open>fold_res\<close>, \<open>sbind\<close>, \<open>run_steps\<close>), the exceptions of
    \<open>executor/errors.py\<close>, Python's text operations and its dynamic values (\<open>pyval\<close>).
  \<^item> \<open>Paths\<close>, \<open>Globs\<close>: \<open>executor/paths.py\<close> and the glob matching of \<open>shared/policy.py\<close>.
  \<^item> \<open>Tools\<close>, \<open>Shlex\<close>, \<open>Permissions\<close>: \<open>shared/tools.py\<close>, the shell lexer, \<open>shared/permissions.py\<close>.
  \<^item> \<open>Policy\<close>, \<open>Risk\<close>: \<open>shared/policy.py\<close>, \<open>shared/publication_risk.py\<close>.
  \<^item> \<open>Exec_Config\<close>: \<open>executor/config.py\<close>.
  \<^item> \<open>FileTree\<close>: the staging tree, containment (\<open>safe_path\<close>), atomic replacement (\<open>executor/atomic_io.py\<close>)
    and the directory walk with its digest cache.  \<open>TreeView\<close>: what each operation does to what is seen.
  \<^item> \<open>Staging\<close>: \<open>executor/staging.py\<close>, from seeding to the change list and publication batches.
  \<^item> \<open>Checkpoints\<close>, \<open>Rollback\<close>, \<open>Recovery\<close>: \<open>executor/checkpoints.py\<close>; what a restore gives back, the
    context manager \<open>checkpointed\<close>, and when a restore cannot fail.
  \<^item> \<open>Drift\<close>: \<open>executor/drift.py\<close>, the rebase of the baseline onto a changed host.  \<open>State_Store\<close>:
    \<open>executor/state.py\<close>, the stored baseline.  \<open>Executor_Service\<close>: the control plane of \<open>executor/app.py\<close>
    over staging area, baseline and state volume; \<open>Service_State\<close>: its steps and their invariant;
    \<open>Fingerprint\<close>: what the fingerprint of the staging area identifies.
  \<^item> \<open>Broker\<close>: \<open>src/workspace_broker.py\<close>, a batch on the host and its rollback; \<open>Broker_Progress\<close>: when a
    batch succeeds.  \<open>Publication\<close>: the worker of \<open>src/workers.py\<close>, the ledger, and all batches of a
    publication from the executor to the host and back.  \<open>Manifests\<close>: what the broker makes of the
    manifests that the executor offers.  \<open>Desktop_Publication\<close>: \<open>src/desktop/staging_publication.py\<close>, the
    state machine over Qt signals that decides which publication starts, on whose approval.
  \<^item> \<open>StreamEdit\<close>, \<open>Mutations\<close>, \<open>Write_Tool\<close>, \<open>Edit_Tool\<close>, \<open>Patch_Tool\<close>: \<open>executor/utf8.py\<close>,
    \<open>executor/mutations.py\<close> and the three tools that change files.  \<open>Atomicity\<close>: when they are all or nothing.  \<open>Read_Tool\<close>:
    \<open>executor/tools/read.py\<close>, bounded pages of a text file and a client that follows their continuations.
  \<^item> \<open>Budgets\<close>, \<open>Plan\<close>: \<open>server/agent/budgets.py\<close> with the budget side of the run loop of
    \<open>server/agent/runtime.py\<close>, and \<open>server/agent/plan.py\<close>.
  \<^item> \<open>Journal\<close>: \<open>server/journal/store.py\<close>, the runs, events, snapshots and saved rules of the gateway.
    \<open>Compaction\<close>: \<open>server/agent/context.py\<close>, fitting the messages of an agent into the model's window.
  \<^item> \<open>Window\<close>: the contract of a sliding window that counts what it lets in (locale \<open>sliding_window\<close>).
    \<open>Gateway_Guard\<close>: \<open>server/auth.py\<close> with its configuration, which requests reach the gateway's
    application.  \<open>Egress\<close>: \<open>egress/proxy.py\<close>, the only way from the sandbox to the network.  Both
    interpret the contract on their own rate limiters, which differ at the border of the minute.

  \<^bold>\<open>How the model relates to the code.\<close>  A text is the list of its UTF-8 bytes, a parsed JSON value a \<open>pyval\<close>,
  a dictionary an association list in insertion order, an exception a value of \<open>exn\<close>.  A function that
  raises returns \<open>exn + 'a\<close>; one that raises after it has changed the tree returns the result beside the
  tree.  The staging area is a \<open>node\<close>: directories, files with content, permission bits and link count,
  symbolic links, special files.  An atomic write is one step; nothing else touches the tree meanwhile,
  as the executor serialises its mutations.  SHA-256, Unicode normalisation, the clock, the identifiers
  and what a symbolic link leads to are parameters (\<open>fs_env\<close> for the tools); a digest is not assumed to
  be injective, only never empty.  Python's lexer \<open>shlex\<close>, \<open>fnmatch\<close>, \<open>str.strip\<close>, \<open>str.casefold\<close> and the like
  are modelled on ASCII text; the round trip of a policy, where folding can lengthen other text, is stated for
  policies of ASCII texts.

  \<^bold>\<open>What is shown.\<close>
  \<^item> Permissions: the exact conditions for running without a question, and what rules can and cannot cover.
  \<^item> Policy, configuration: accepted values are bounded; a policy survives its stored form; sizes fit.
  \<^item> Risk: confirmation is asked for exactly the dangerous operations; the review lists everything.
  \<^item> Staging: the walk lists exactly what is there, the change list is exact, batches partition it,
    advancing settles exactly the published paths, seeding copies faithfully.
  \<^item> Checkpoints: creating one records the listing and keeps the store in order and in budget; pruning
    ends in budget; restoring gives the listing back from any tree (\<open>restore_views\<close>), and succeeds from
    every tree that keeps the directories and buries no file (\<open>restore_succeeds\<close>).  The locale
    \<open>recovery\<close> is the contract between the checkpoint store and its users; \<open>staging\<close> interprets it.
  \<^item> Drift and state: a rebase is the three-way merge of baseline, host and staging; the stored baseline
    loads back, and a restart resumes with the baseline that the service had, whatever it did before, unless a
    discard failed and nothing was stored since.
  \<^item> Publication: a batch on the host is all or nothing under stated conditions; after an acknowledged batch
    host, baseline and staging agree at its paths, in the permission bits as far as the host has them
    (\<open>view_agrees\<close>: on Windows the write bit); a run takes exactly the offered changes in the announced
    number of batches; an offered batch with portable, unnested names goes through whenever the host agrees with
    the baseline, is clear of links and other files on the way, and refuses nothing (\<open>undisturbed\<close>); the
    broker accepts exactly the manifests with portable names.
  \<^item> Approval: over every sequence of signals a publication only runs that the user accepted, or that Auto may
    run unattended; an unattended one that changes the host has passed the checks and the risk gate of the
    policy at the signal that started its worker; a selection of files outlives the dialog it was made for.
  \<^item> Tools: a successful write, edit or patch changes exactly what it says (\<open>leaves\<close> is the abstraction,
    \<open>patch_effect\<close> the abstract operation; the locales \<open>keeping\<close> and \<open>implementing\<close> carry both through the
    loop of a patch), and a failed patch is undone under stated conditions.  Reading on from page to page shows
    every byte of a file, a range of lines is exact, and a read never leaves the root or shows a hidden path.
  \<^item> Budgets, plan: counters never pass their limits under any interleaving of the loop's steps; a started
    turn is funded; a plan stays within its bounds and survives storage.
  \<^item> Journal and context: a client that follows a run misses no event; a restart leaves every unfinished run
    paused or failed and the others alone; compaction ends and never separates a tool call from its results; and, a finding, a saved rule
    that denies comes back as one that allows.
  \<^item> Gateway and proxy: what passes is authorised, bounded and rate limited; a tunnel only goes to a listed
    name with public addresses, the proxy's counters are right, and a tunnel's bytes are bounded.
  Theorems whose text says what goes wrong are findings: they evaluate the model on a concrete input.

  \<^bold>\<open>Bounds and termination.\<close>  Loops are structural or have a measure: the tree walks (size of the stack),
  the drain loop of the edit (pending bytes), the pruning loop (number of checkpoints), the chunked reading
  (remaining bytes), the passes of the compaction (messages left, long contents).  Fuel is used twice: the hints
  of a failed edit list at most \<open>MAX_DIAGNOSTIC_MATCH_LINES\<close> lines, as the code does, and a client that
  reads on takes at most one page per byte and one more, which is shown to be enough.

  \<^bold>\<open>Not modelled.\<close>  Messages and prose; the diff previews made with \<open>difflib\<close>; temporary files and \<open>fsync\<close>;
  concurrent processes; HTTP, SQLite, Qt, Docker and git calls; the TOML and JSON parsers.  Of the program's
  own logic: the find, grep, ls and Bash tools, output reduction, the message side of the agent loop,
  investigations (coroutines), the key-value tables of the journal, and the secret scanner.
\<close>

end
